(* ===== verification/Prelude.thy ===== *)
theory Prelude
  imports "HOL-Library.Word" "HOL-Library.Code_Target_Nat"
begin

text \<open>
  Shared vocabulary of the development: the machine integers of the C++ sources as words,
  byte strings as lists of 8-bit words (both \<open>std::span<const uint8_t>\<close>,
  \<open>std::vector<uint8_t>\<close> and \<open>std::string\<close> are sequences of bytes), the big- and
  little-endian readers and writers, signed distances between wrapping counters, the C++
  division that truncates towards zero, and exceptions as the left side of a sum.
\<close>

unbundle bit_operations_syntax

type_synonym u8 = "8 word"
type_synonym u16 = "16 word"
type_synonym u32 = "32 word"
type_synonym u64 = "64 word"
type_synonym bytes = "u8 list"

named_theorems wire_simps \<open>reads and writes of fixed-width integers in byte strings\<close>
named_theorems inv_intros \<open>operations preserve the invariant of their component\<close>

section \<open>Text\<close>

text \<open>A C++ string literal as the bytes it holds.\<close>

definition str :: "string \<Rightarrow> bytes" where
  "str s = map of_char s"

lemma str_Nil [simp]: "str [] = []"
  by (simp add: str_def)

lemma str_Cons [simp]: "str (c # cs) = of_char c # str cs"
  by (simp add: str_def)

lemma length_str [simp]: "length (str s) = length s"
  by (simp add: str_def)

section \<open>Slices\<close>

text \<open>\<open>b.subspan(p, n)\<close> and \<open>s.substr(p, n)\<close>.\<close>

definition subspan :: "'a list \<Rightarrow> nat \<Rightarrow> nat \<Rightarrow> 'a list" where
  "subspan b p n = take n (drop p b)"

lemma length_subspan [simp]: "length (subspan b p n) = min n (length b - p)"
  by (simp add: subspan_def min.commute)

lemma subspan_append [simp]: "subspan (xs @ ys @ zs) (length xs) (length ys) = ys"
  by (simp add: subspan_def)

lemma drop_plus: "drop (p + k) b = drop k (drop p b)"
  by (simp add: add.commute)

lemma set_subspan_subset: "set (subspan b p n) \<subseteq> set b"
  unfolding subspan_def by (meson set_drop_subset set_take_subset subset_trans)

lemma nth_subspan: "i < n \<Longrightarrow> p + i < length b \<Longrightarrow> subspan b p n ! i = b ! (p + i)"
  by (simp add: subspan_def)

section \<open>Fixed-width integers on the wire\<close>

definition be16 :: "bytes \<Rightarrow> nat \<Rightarrow> u16" where
  "be16 b p = push_bit 8 (ucast (b ! p)) OR ucast (b ! (p + 1))"

definition be32 :: "bytes \<Rightarrow> nat \<Rightarrow> u32" where
  "be32 b p = push_bit 16 (ucast (be16 b p)) OR ucast (be16 b (p + 2))"

definition be64 :: "bytes \<Rightarrow> nat \<Rightarrow> u64" where
  "be64 b p = push_bit 32 (ucast (be32 b p)) OR ucast (be32 b (p + 4))"

definition put_be16 :: "u16 \<Rightarrow> bytes" where
  "put_be16 v = [ucast (drop_bit 8 v), ucast v]"

definition put_be32 :: "u32 \<Rightarrow> bytes" where
  "put_be32 v = [ucast (drop_bit 24 v), ucast (drop_bit 16 v), ucast (drop_bit 8 v), ucast v]"

lemma length_put_be16 [simp]: "length (put_be16 v) = 2"
  by (simp add: put_be16_def)

lemma length_put_be32 [simp]: "length (put_be32 v) = 4"
  by (simp add: put_be32_def)

lemma be16_append [wire_simps]: "be16 (xs @ ys) (length xs + k) = be16 ys k"
  by (simp add: be16_def nth_append)

lemma be32_append [wire_simps]: "be32 (xs @ ys) (length xs + k) = be32 ys k"
  by (simp add: be32_def be16_def nth_append eval_nat_numeral)

lemma be16_put [wire_simps]: "be16 (put_be16 v @ ys) 0 = v"
proof (rule bit_word_eqI)
  fix n assume "n < LENGTH(16)"
  then show "bit (be16 (put_be16 v @ ys) 0) n = bit v n"
    by (cases "n < 8") (auto simp: be16_def put_be16_def bit_simps)
qed

lemma be32_put [wire_simps]: "be32 (put_be32 v @ ys) 0 = v"
proof (rule bit_word_eqI)
  fix n assume "n < LENGTH(32)"
  then consider "n < 8" | "8 \<le> n \<and> n < 16" | "16 \<le> n \<and> n < 24" | "24 \<le> n \<and> n < 32"
    by fastforce
  then show "bit (be32 (put_be32 v @ ys) 0) n = bit v n"
    by cases (auto simp: be32_def be16_def put_be32_def bit_simps)
qed

lemma be16_at: "drop p b = put_be16 v @ ys \<Longrightarrow> be16 b p = v"
proof -
  assume d: "drop p b = put_be16 v @ ys"
  then have "p < length b" by (metis drop_eq_Nil append_is_Nil_conv length_0_conv length_put_be16 not_le zero_neq_numeral)
  then have "b = take p b @ (put_be16 v @ ys)" "length (take p b) = p" by (simp_all flip: d)
  then show ?thesis using be16_append [of "take p b" "put_be16 v @ ys" 0] be16_put [of v ys] by simp
qed

lemma be32_at: "drop p b = put_be32 v @ ys \<Longrightarrow> be32 b p = v"
proof -
  assume d: "drop p b = put_be32 v @ ys"
  then have "p < length b" by (metis drop_eq_Nil append_is_Nil_conv length_0_conv length_put_be32 not_le zero_neq_numeral)
  then have "b = take p b @ (put_be32 v @ ys)" "length (take p b) = p" by (simp_all flip: d)
  then show ?thesis using be32_append [of "take p b" "put_be32 v @ ys" 0] be32_put [of v ys] by simp
qed

lemma put_be16_be16 [wire_simps]: "put_be16 (be16 b p) = [b ! p, b ! (p + 1)]"
proof -
  have "ucast (drop_bit 8 (be16 b p)) = b ! p" "ucast (be16 b p) = b ! (p + 1)"
    by (rule bit_word_eqI; auto simp: be16_def bit_simps dest: bit_imp_le_length)+
  then show ?thesis by (simp add: put_be16_def)
qed

lemma put_be32_be32 [wire_simps]: "put_be32 (be32 b p) = [b ! p, b ! (p + 1), b ! (p + 2), b ! (p + 3)]"
proof -
  have "ucast (drop_bit 24 (be32 b p)) = b ! p" "ucast (drop_bit 16 (be32 b p)) = b ! (p + 1)"
    "ucast (drop_bit 8 (be32 b p)) = b ! (p + 2)" "ucast (be32 b p) = b ! (p + 3)"
    by (rule bit_word_eqI; auto simp: be32_def be16_def bit_simps numeral_3_eq_3 dest: bit_imp_le_length)+
  then show ?thesis by (simp add: put_be32_def)
qed

lemma take4_drop: "p + 4 \<le> length b \<Longrightarrow> take 4 (drop p b) = [b ! p, b ! (p + 1), b ! (p + 2), b ! (p + 3)]"
  by (rule nth_equalityI) (auto simp: less_Suc_eq eval_nat_numeral)

lemma take4_be32: "p + 4 \<le> length b \<Longrightarrow> take 4 (drop p b) = put_be32 (be32 b p)"
  by (simp only: take4_drop put_be32_be32)

lemma unat_take_bit: "unat (take_bit n (x :: 'w::len word)) = unat x mod 2 ^ n"
  by (simp only: unsigned_take_bit_eq) (simp add: take_bit_eq_mod)

lemma and_mask_id: "unat x < 2 ^ n \<Longrightarrow> x AND mask n = (x :: 'w::len word)"
  by (simp add: unat_take_bit word_unat_eq_iff flip: take_bit_eq_mask)

lemma word_inc_less: "g \<noteq> - 1 \<Longrightarrow> g < g + (1 :: 'w::len word)"
proof -
  assume "g \<noteq> - 1"
  then have "1 + g \<noteq> 0" by (metis add.commute eq_neg_iff_add_eq_0)
  then have "unat (1 + g) = Suc (unat g)" by (rule unatSuc)
  then show ?thesis by (simp add: word_less_nat_alt add.commute)
qed

lemma byte_and_127: "x < 128 \<Longrightarrow> x AND 127 = (x :: u8)"
  using and_mask_id [of x 7] by (simp add: mask_eq_exp_minus_1 word_less_nat_alt)

lemma byte_and_128: "x < 128 \<Longrightarrow> x AND 128 = (0 :: u8)"
proof -
  assume "x < 128"
  then have "x AND 128 = x AND (127 AND 128)" using byte_and_127 [of x] by (simp only: and.assoc [symmetric])
  then show ?thesis by simp
qed

lemma unat_less_uint: "unat x < n \<longleftrightarrow> uint x < int n"
  by (metis uint_nat of_nat_less_iff)

section \<open>Distances between wrapping counters\<close>

text \<open>
  The sources compute a signed distance by an unsigned subtraction and a case split at half
  the range; it is the two's complement reading of the difference.
\<close>

definition wrap_delta :: "'w::len word \<Rightarrow> 'w word \<Rightarrow> int" where
  "wrap_delta a b = (let d = a - b in
     if uint d < 2 ^ (LENGTH('w) - 1) then uint d else uint d - 2 ^ LENGTH('w))"

lemma wrap_delta_same [simp]: "wrap_delta a a = 0"
  by (simp add: wrap_delta_def Let_def)

lemma wrap_delta_cong: "(of_int (wrap_delta a b) :: 'w::len word) = a - b"
  by (simp add: wrap_delta_def Let_def word_of_int_2p_len)

lemma wrap_delta_add: "(b :: 'w::len word) + of_int (wrap_delta a b) = a"
  by (simp add: wrap_delta_cong)

lemma wrap_delta_upper: "wrap_delta (a :: 'w::len word) b < 2 ^ (LENGTH('w) - 1)"
proof -
  have "uint (a - b) < 2 ^ LENGTH('w)" by (rule uint_lt2p)
  moreover have "(2::int) ^ LENGTH('w) = 2 * 2 ^ (LENGTH('w) - 1)"
    by (metis Suc_diff_1 len_gt_0 power_Suc)
  ultimately show ?thesis by (simp add: wrap_delta_def Let_def)
qed

lemma wrap_delta_lower: "- (2 ^ (LENGTH('w) - 1)) \<le> wrap_delta (a :: 'w::len word) b"
proof -
  have "(2::int) ^ LENGTH('w) = 2 * 2 ^ (LENGTH('w) - 1)"
    by (metis Suc_diff_1 len_gt_0 power_Suc)
  then show ?thesis by (auto simp: wrap_delta_def Let_def intro: order_trans [of _ 0])
qed

lemma wrap_delta_zero_iff: "wrap_delta a b = 0 \<longleftrightarrow> a = b"
  by (metis wrap_delta_add wrap_delta_same add.right_neutral of_int_0)

section \<open>Unsigned subtraction of sizes\<close>

text \<open>\<open>size_t\<close> is 64 bits wide on every target, and its subtraction wraps.\<close>

definition size_sub :: "nat \<Rightarrow> nat \<Rightarrow> nat" where
  "size_sub a b = (if b \<le> a then a - b else a + 2 ^ 64 - b)"

lemma size_sub_le [simp]: "b \<le> a \<Longrightarrow> size_sub a b = a - b"
  by (simp add: size_sub_def)

section \<open>C++ integer division\<close>

text \<open>\<open>/\<close> and \<open>%\<close> on signed integers truncate towards zero.\<close>

definition cdiv :: "int \<Rightarrow> int \<Rightarrow> int" where
  "cdiv a b = sgn a * sgn b * (\<bar>a\<bar> div \<bar>b\<bar>)"

definition cmod :: "int \<Rightarrow> int \<Rightarrow> int" where
  "cmod a b = a - b * cdiv a b"

lemma cdiv_nonneg: "0 \<le> a \<Longrightarrow> 0 < b \<Longrightarrow> cdiv a b = a div b"
  by (cases "a = 0") (auto simp: cdiv_def)

lemma cmod_nonneg: "0 \<le> a \<Longrightarrow> 0 < b \<Longrightarrow> cmod a b = a mod b"
  by (simp add: cmod_def cdiv_nonneg minus_mult_div_eq_mod)

lemma cdiv_cmod: "b * cdiv a b + cmod a b = a"
  by (simp add: cmod_def)

section \<open>Exceptions\<close>

text \<open>
  A C++ function that may throw returns a sum: the exception (named by its message) on the
  left, the value on the right.
\<close>

datatype cpp_exception =
    RuntimeError string
  | InvalidArgument string
  | OverflowError string
  | LogicError string

type_synonym 'a res = "cpp_exception + 'a"

definition bindR :: "'e + 'a \<Rightarrow> ('a \<Rightarrow> 'e + 'b) \<Rightarrow> 'e + 'b" where
  "bindR r f = (case r of Inl e \<Rightarrow> Inl e | Inr a \<Rightarrow> f a)"

lemma bindR_Inl [simp]: "bindR (Inl e) f = Inl e"
  by (simp add: bindR_def)

lemma bindR_Inr [simp]: "bindR (Inr a) f = f a"
  by (simp add: bindR_def)

lemma bindR_eq_Inr: "bindR r f = Inr b \<longleftrightarrow> (\<exists>a. r = Inr a \<and> f a = Inr b)"
  by (cases r) auto

end
