(* ===== verification/H264.thy ===== *)
theory H264
  imports Prelude
begin

text \<open>
  \<open>src/shared/km/h264.h\<close>: recognition of Annex-B start codes, the splitting of an
  access unit into NAL units (Annex-B or four-byte length prefixes), and the conversion
  from the first framing to the second. A function that returns \<open>false\<close> with a cleared
  output vector is modelled as \<open>None\<close>, one that returns \<open>true\<close> as \<open>Some\<close> of the
  vector. Offsets are natural numbers: inputs are bounded by 4 MiB before any arithmetic,
  so no \<open>size_t\<close> wraps.
\<close>

section \<open>Definitions\<close>

definition kMaxAccessUnitBytes :: nat where
  "kMaxAccessUnitBytes = 4 * 1024 * 1024"

definition kMaxNalus :: nat where
  "kMaxNalus = 1024"

definition StartCode :: "bytes \<Rightarrow> nat \<Rightarrow> nat" where
  "StartCode b p =
     (if p + 3 \<le> length b \<and> b ! p = 0 \<and> b ! (p + 1) = 0 then
        if b ! (p + 2) = 1 then 3
        else if p + 4 \<le> length b \<and> b ! (p + 2) = 0 \<and> b ! (p + 3) = 1 then 4
        else 0
      else 0)"

definition nal_type :: "bytes \<Rightarrow> u8" where
  "nal_type n = n ! 0 AND 31"

definition ValidNalu :: "bytes \<Rightarrow> bool" where
  "ValidNalu n \<longleftrightarrow> n \<noteq> [] \<and> n ! 0 AND 0x80 = 0 \<and> 0 < nal_type n \<and> nal_type n < 24"

text \<open>The three inner loops of \<open>SplitAnnexB\<close>.\<close>

function skip_leading_zeros :: "bytes \<Rightarrow> nat \<Rightarrow> nat" where
  "skip_leading_zeros b p =
     (if p < length b \<and> StartCode b p = 0 \<and> b ! p = 0 then skip_leading_zeros b (p + 1) else p)"
  by pat_completeness auto
termination by (relation "measure (\<lambda>(b, p). length b - p)") auto

function next_start :: "bytes \<Rightarrow> nat \<Rightarrow> nat" where
  "next_start b p =
     (if p < length b \<and> StartCode b p = 0 then next_start b (p + 1) else p)"
  by pat_completeness auto
termination by (relation "measure (\<lambda>(b, p). length b - p)") auto

fun trim_trailing_zeros :: "bytes \<Rightarrow> nat \<Rightarrow> nat \<Rightarrow> nat" where
  "trim_trailing_zeros b begin0 e =
     (if begin0 < e \<and> b ! (e - 1) = 0 then trim_trailing_zeros b begin0 (e - 1) else e)"

declare skip_leading_zeros.simps [simp del] next_start.simps [simp del]
  trim_trailing_zeros.simps [simp del]

lemma next_start_ge: "p \<le> next_start b p"
  by (induction b p rule: next_start.induct) (subst next_start.simps, auto)

text \<open>The main loop: \<open>p\<close> is the read position, \<open>nalus\<close> the vector filled so far.\<close>

function split_annexb_loop :: "bytes \<Rightarrow> nat \<Rightarrow> bytes list \<Rightarrow> bytes list option" where
  "split_annexb_loop b p nalus =
     (if p < length b then
        let prefix = StartCode b p in
        if prefix = 0 then None
        else
          let begin0 = p + prefix;
              nxt = next_start b begin0;
              e = trim_trailing_zeros b begin0 nxt;
              n = subspan b begin0 (e - begin0)
          in if \<not> ValidNalu n \<or> length nalus = kMaxNalus then None
             else split_annexb_loop b nxt (nalus @ [n])
      else Some nalus)"
  by pat_completeness auto
termination
proof (relation "measure (\<lambda>(b, p, nalus). length b - p)", goal_cases)
  case 1
  then show ?case by simp
next
  case (2 b p nalus prefix begin0 nxt e n)
  then have "p < nxt" using next_start_ge [of begin0 b] by simp
  with 2 show ?case by simp
qed

declare split_annexb_loop.simps [simp del]

definition SplitAnnexB :: "bytes \<Rightarrow> bytes list option" where
  "SplitAnnexB b =
     (if b = [] \<or> length b > kMaxAccessUnitBytes then None
      else
        let p = skip_leading_zeros b 0 in
        if StartCode b p = 0 then None
        else
          case split_annexb_loop b p [] of
            None \<Rightarrow> None
          | Some nalus \<Rightarrow> if nalus \<noteq> [] then Some nalus else None)"

function split_prefixed_loop :: "bytes \<Rightarrow> nat \<Rightarrow> bytes list \<Rightarrow> bytes list option" where
  "split_prefixed_loop b p nalus =
     (if p < length b then
        if length b - p < 4 then None
        else
          let n = unat ((push_bit 24 (ucast (b ! p)) :: u32) OR push_bit 16 (ucast (b ! (p + 1))) OR
                    push_bit 8 (ucast (b ! (p + 2))) OR ucast (b ! (p + 3)));
              q = p + 4
          in if n = 0 \<or> n > length b - q \<or> length nalus = kMaxNalus \<or> \<not> ValidNalu (subspan b q n)
             then None
             else split_prefixed_loop b (q + n) (nalus @ [subspan b q n])
      else Some nalus)"
  by pat_completeness auto
termination
  by (relation "measure (\<lambda>(b, p, nalus). length b - p)") auto

declare split_prefixed_loop.simps [simp del]

definition SplitLengthPrefixed4 :: "bytes \<Rightarrow> bytes list option" where
  "SplitLengthPrefixed4 b =
     (if b = [] \<or> length b > kMaxAccessUnitBytes then None
      else
        case split_prefixed_loop b 0 [] of
          None \<Rightarrow> None
        | Some nalus \<Rightarrow> if nalus \<noteq> [] then Some nalus else None)"

definition AppendAnnexB :: "bytes \<Rightarrow> bytes \<Rightarrow> bytes" where
  "AppendAnnexB out n = out @ [0, 0, 0, 1] @ n"

fun append_prefixed :: "bytes \<Rightarrow> bytes list \<Rightarrow> bytes" where
  "append_prefixed out [] = out"
| "append_prefixed out (n # ns) =
     append_prefixed (out @ put_be32 (of_nat (length n)) @ n) ns"

definition AnnexBToLengthPrefixed4 :: "bytes \<Rightarrow> bytes option" where
  "AnnexBToLengthPrefixed4 input =
     (case SplitAnnexB input of None \<Rightarrow> None | Some nalus \<Rightarrow> Some (append_prefixed [] nalus))"

section \<open>The inner loops\<close>

lemma StartCode_cases: "StartCode b p \<in> {0, 3, 4}"
  by (simp add: StartCode_def)

lemma StartCode_bound: "StartCode b p \<noteq> 0 \<Longrightarrow> p + StartCode b p \<le> length b"
  by (auto simp: StartCode_def split: if_splits)

lemma StartCode_append: "StartCode (xs @ ys) (length xs + k) = StartCode ys k"
  by (simp add: StartCode_def nth_append eval_nat_numeral)

lemma StartCode_nz_zeros: "StartCode b p \<noteq> 0 \<Longrightarrow> b ! p = 0 \<and> b ! (p + 1) = 0"
  by (auto simp: StartCode_def split: if_splits)

lemma next_start_props:
  "p \<le> length b \<Longrightarrow> next_start b p \<le> length b \<and>
     (next_start b p < length b \<longrightarrow> StartCode b (next_start b p) \<noteq> 0) \<and>
     (\<forall>r. p \<le> r \<longrightarrow> r < next_start b p \<longrightarrow> StartCode b r = 0)"
proof (induction b p rule: next_start.induct)
  case (1 b p)
  show ?case
  proof (cases "p < length b \<and> StartCode b p = 0")
    case True
    then have eq: "next_start b p = next_start b (p + 1)" by (subst next_start.simps) simp
    from 1 True have IH: "next_start b (p + 1) \<le> length b \<and>
     (next_start b (p + 1) < length b \<longrightarrow> StartCode b (next_start b (p + 1)) \<noteq> 0) \<and>
     (\<forall>r. p + 1 \<le> r \<longrightarrow> r < next_start b (p + 1) \<longrightarrow> StartCode b r = 0)" by simp
    from IH True show ?thesis unfolding eq by (metis Suc_eq_plus1 le_neq_implies_less less_eq_Suc_le)
  next
    case False
    then have "next_start b p = p" by (subst next_start.simps) auto
    with False 1 show ?thesis by auto
  qed
qed

lemma next_start_eqI:
  assumes "p \<le> q" "q \<le> length b" "\<And>r. p \<le> r \<Longrightarrow> r < q \<Longrightarrow> StartCode b r = 0"
    and "q < length b \<Longrightarrow> StartCode b q \<noteq> 0"
  shows "next_start b p = q"
proof -
  note props = next_start_props [of p b]
  show ?thesis
  proof (rule ccontr)
    assume "next_start b p \<noteq> q"
    then consider "next_start b p < q" | "q < next_start b p" by linarith
    then show False
    proof cases
      case 1
      with assms props have "StartCode b (next_start b p) \<noteq> 0" by simp
      moreover have "StartCode b (next_start b p) = 0" using assms(3) [of "next_start b p"] 1 next_start_ge by blast
      ultimately show False by simp
    next
      case 2
      with assms props have "q < length b" "StartCode b q = 0" by auto
      with assms(4) show False by simp
    qed
  qed
qed

lemma trim_props:
  "begin0 \<le> e \<Longrightarrow> begin0 \<le> trim_trailing_zeros b begin0 e \<and> trim_trailing_zeros b begin0 e \<le> e \<and>
     (begin0 < trim_trailing_zeros b begin0 e \<longrightarrow> b ! (trim_trailing_zeros b begin0 e - 1) \<noteq> 0)"
proof (induction b begin0 e rule: trim_trailing_zeros.induct)
  case (1 b begin0 e)
  show ?case
  proof (cases "begin0 < e \<and> b ! (e - 1) = 0")
    case True
    then have eq: "trim_trailing_zeros b begin0 e = trim_trailing_zeros b begin0 (e - 1)"
      by (subst trim_trailing_zeros.simps) simp
    from 1 True show ?thesis unfolding eq by fastforce
  next
    case False
    then have "trim_trailing_zeros b begin0 e = e" by (subst trim_trailing_zeros.simps) auto
    with False 1 show ?thesis by auto
  qed
qed

lemma trim_noop: "begin0 < e \<Longrightarrow> b ! (e - 1) \<noteq> 0 \<Longrightarrow> trim_trailing_zeros b begin0 e = e"
  by (subst trim_trailing_zeros.simps) simp

section \<open>Clean NAL units\<close>

text \<open>
  What the byte-stream format promises of a NAL unit: a valid header, no start code inside,
  no trailing zero byte.
\<close>

definition clean_nalu :: "bytes \<Rightarrow> bool" where
  "clean_nalu n \<longleftrightarrow> ValidNalu n \<and> last n \<noteq> 0 \<and> (\<forall>k < length n. StartCode n k = 0)"

definition annexb :: "bytes list \<Rightarrow> bytes" where
  "annexb ns = concat (map (\<lambda>n. [0, 0, 0, 1] @ n) ns)"

lemma annexb_Nil [simp]: "annexb [] = []"
  by (simp add: annexb_def)

lemma annexb_Cons [simp]: "annexb (n # ns) = [0, 0, 0, 1] @ n @ annexb ns"
  by (simp add: annexb_def)

lemma annexb_append: "annexb (ms @ ns) = annexb ms @ annexb ns"
  by (simp add: annexb_def)

lemma AppendAnnexB_annexb: "AppendAnnexB (annexb ns) n = annexb (ns @ [n])"
  by (simp add: AppendAnnexB_def annexb_append)

lemma length_annexb: "length (annexb ns) = sum_list (map length ns) + 4 * length ns"
  by (induction ns) simp_all

lemma clean_nalu_nonempty: "clean_nalu n \<Longrightarrow> n \<noteq> []"
  by (simp add: clean_nalu_def ValidNalu_def)

lemma StartCode_subspan: "StartCode (subspan b p n) k \<noteq> 0 \<Longrightarrow> StartCode b (p + k) \<noteq> 0"
  by (auto simp: StartCode_def nth_subspan add.assoc split: if_splits)

lemma clean_nalu_boundary:
  assumes "clean_nalu n" "k < length n"
  shows "StartCode (n @ ys) k = 0"
proof (rule ccontr)
  assume nz: "StartCode (n @ ys) k \<noteq> 0"
  have last: "n ! (length n - 1) \<noteq> 0"
    using assms by (metis clean_nalu_def clean_nalu_nonempty last_conv_nth)
  have inside: "StartCode n k = 0" using assms by (simp add: clean_nalu_def)
  from nz have z: "(n @ ys) ! k = 0" "(n @ ys) ! (k + 1) = 0"
    using StartCode_nz_zeros by blast+
  from z last assms(2) have "k \<noteq> length n - 1" by (auto simp: nth_append)
  moreover from z last assms(2) have "k + 1 \<noteq> length n - 1" by (auto simp: nth_append split: if_splits)
  ultimately have k3: "k + 3 \<le> length n" using assms(2) by linarith
  show False
  proof (cases "(n @ ys) ! (k + 2) = 1")
    case True
    with k3 z inside show False by (auto simp: StartCode_def nth_append split: if_splits)
  next
    case False
    with nz have z4: "(n @ ys) ! (k + 2) = 0" "(n @ ys) ! (k + 3) = 1"
      by (auto simp: StartCode_def split: if_splits)
    have "k + 3 \<noteq> length n"
    proof
      assume "k + 3 = length n"
      then have "length n - 1 = k + 2" "k + 2 < length n" by simp_all
      with z4(1) last show False by (simp add: nth_append)
    qed
    with k3 have "k + 4 \<le> length n" by linarith
    with z z4 inside show False by (auto simp: StartCode_def nth_append split: if_splits)
  qed
qed

lemma StartCode_annexb: "ns \<noteq> [] \<Longrightarrow> StartCode (annexb ns) 0 = 4"
  by (cases ns) (simp_all add: StartCode_def)

lemma split_example:
  "SplitAnnexB [0, 0, 1, 0x67, 7, 0, 0, 0, 1, 0x65, 9] = Some [[0x67, 7], [0x65, 9]]"
  by code_simp

lemma prefixed_example:
  "SplitLengthPrefixed4 [0, 0, 0, 2, 0x67, 7, 0, 0, 0, 1, 0x65] = Some [[0x67, 7], [0x65]]"
  by code_simp

lemma clean_example: "clean_nalu [0x67, 0x42, 9]"
  by (simp add: clean_nalu_def ValidNalu_def nal_type_def StartCode_def less_Suc_eq)

section \<open>Splitting what was framed\<close>

lemma split_annexb_loop_annexb:
  "\<forall>n \<in> set ns. clean_nalu n \<Longrightarrow> length acc + length ns \<le> kMaxNalus \<Longrightarrow>
   split_annexb_loop (pre @ annexb ns) (length pre) acc = Some (acc @ ns)"
proof (induction ns arbitrary: pre acc)
  case Nil
  then show ?case by (subst split_annexb_loop.simps) simp
next
  case (Cons n ns)
  define b where "b = pre @ annexb (n # ns)"
  let ?hd = "pre @ [0, 0, 0, 1]"
  have b: "b = ?hd @ n @ annexb ns" by (simp add: b_def)
  have clean: "clean_nalu n" using Cons.prems by simp
  note ne = clean_nalu_nonempty [OF clean]
  have len: "length b = length pre + 4 + length n + length (annexb ns)" by (simp add: b)
  have sc: "StartCode b (length pre) = 4"
    using StartCode_append [of pre "annexb (n # ns)" 0] StartCode_annexb [of "n # ns"] by (simp add: b_def)
  have nx: "next_start b (length pre + 4) = length pre + 4 + length n"
  proof (rule next_start_eqI)
    fix r assume r: "length pre + 4 \<le> r" "r < length pre + 4 + length n"
    define k where "k = r - (length pre + 4)"
    have k: "r = length ?hd + k" "k < length n" using r by (simp_all add: k_def)
    show "StartCode b r = 0"
      unfolding b k(1) StartCode_append using clean k(2) by (rule clean_nalu_boundary)
  next
    assume "length pre + 4 + length n < length b"
    then have "ns \<noteq> []" by (cases ns) (auto simp: len)
    have e1: "b = (?hd @ n) @ annexb ns" by (simp add: b)
    have e2: "length pre + 4 + length n = length (?hd @ n) + 0" by simp
    show "StartCode b (length pre + 4 + length n) \<noteq> 0"
      unfolding e2 e1 StartCode_append using StartCode_annexb [OF \<open>ns \<noteq> []\<close>] by simp
  qed (simp_all add: len)
  have lastn: "b ! (length pre + 4 + length n - 1) \<noteq> 0"
    using clean ne by (simp add: b nth_append clean_nalu_def last_conv_nth)
  have tr: "trim_trailing_zeros b (length pre + 4) (length pre + 4 + length n) = length pre + 4 + length n"
    using ne lastn by (intro trim_noop) auto
  have sub: "subspan b (length pre + 4) (length n) = n"
    by (simp add: b subspan_def)
  have lt: "length pre < length b" by (simp add: len)
  have step: "split_annexb_loop b (length pre) acc
      = split_annexb_loop b (length pre + 4 + length n) (acc @ [n])"
    using Cons.prems(2) clean lt
    by (subst split_annexb_loop.simps) (simp add: sc nx tr sub Let_def clean_nalu_def)
  have "split_annexb_loop ((?hd @ n) @ annexb ns) (length (?hd @ n)) (acc @ [n]) = Some ((acc @ [n]) @ ns)"
    using Cons.prems by (intro Cons.IH) auto
  then show ?case using step by (simp add: b eval_nat_numeral)
qed

lemma split_annexb:
  assumes "ns \<noteq> []" "\<forall>n \<in> set ns. clean_nalu n" "length ns \<le> kMaxNalus"
    and "length (annexb ns) \<le> kMaxAccessUnitBytes"
  shows "SplitAnnexB (annexb ns) = Some ns"
proof -
  have sc: "StartCode (annexb ns) 0 = 4" using assms(1) by (rule StartCode_annexb)
  then have sk: "skip_leading_zeros (annexb ns) 0 = 0" by (subst skip_leading_zeros.simps) simp
  have ne: "annexb ns \<noteq> []" using assms(1) by (cases ns) auto
  have "split_annexb_loop (annexb ns) 0 [] = Some ns"
    using split_annexb_loop_annexb [of ns "[]" "[]"] assms(2,3) by simp
  with assms ne sc sk show ?thesis by (simp add: SplitAnnexB_def)
qed

section \<open>What a split returns\<close>

lemma split_annexb_loop_clean:
  "split_annexb_loop b p acc = Some ns \<Longrightarrow> length acc \<le> kMaxNalus \<Longrightarrow> \<forall>n \<in> set acc. clean_nalu n \<Longrightarrow>
   length ns \<le> kMaxNalus \<and> (\<forall>n \<in> set ns. clean_nalu n)"
proof (induction b p acc rule: split_annexb_loop.induct)
  case (1 b p acc)
  define s where "s = p + StartCode b p"
  define nx where "nx = next_start b s"
  define e where "e = trim_trailing_zeros b s nx"
  define n where "n = subspan b s (e - s)"
  note defs = s_def nx_def e_def n_def
  show ?case
  proof (cases "p < length b")
    case False
    with 1 show ?thesis by (simp add: split_annexb_loop.simps [of b p acc])
  next
    case True
    with 1(2) have sc: "StartCode b p \<noteq> 0" and v: "ValidNalu n" and l: "length acc \<noteq> kMaxNalus"
      and r: "split_annexb_loop b nx (acc @ [n]) = Some ns"
      unfolding split_annexb_loop.simps [of b p acc] by (auto simp: Let_def defs split: if_splits)
    have sle: "s \<le> length b" using StartCode_bound [OF sc] by (simp add: s_def)
    have nxp: "s \<le> nx" "nx \<le> length b" "\<And>r. s \<le> r \<Longrightarrow> r < nx \<Longrightarrow> StartCode b r = 0"
      using next_start_props [OF sle] next_start_ge [of s b] by (auto simp: nx_def)
    note tp = trim_props [OF nxp(1), of b, folded e_def]
    from v have "n \<noteq> []" by (simp add: ValidNalu_def)
    then have lt: "s < e" by (auto simp: n_def subspan_def)
    have "e \<le> length b" using tp nxp(2) by linarith
    then have len: "length n = e - s" by (simp add: n_def min_def diff_le_mono)
    have "last n = b ! (e - 1)"
      using lt len tp nxp \<open>n \<noteq> []\<close> by (simp add: last_conv_nth) (simp add: n_def nth_subspan)
    moreover have "StartCode n k = 0" if "k < length n" for k
      using StartCode_subspan [of b s "e - s" k] nxp(3) [of "s + k"] that len tp
      unfolding n_def by fastforce
    ultimately have "clean_nalu n" using v tp lt by (auto simp: clean_nalu_def)
    then show ?thesis
      using 1(1) [OF True refl _ refl refl refl refl] sc v l r 1(3,4) by (auto simp: defs)
  qed
qed

lemma split_clean:
  assumes "SplitAnnexB b = Some ns"
  shows "ns \<noteq> [] \<and> length ns \<le> kMaxNalus \<and> (\<forall>n \<in> set ns. clean_nalu n)"
  using assms split_annexb_loop_clean [of b _ "[]" ns]
  by (auto simp: SplitAnnexB_def Let_def split: if_splits option.splits)

lemma split_annexb_loop_size:
  "split_annexb_loop b p acc = Some ns \<Longrightarrow>
   sum_list (map length ns) \<le> sum_list (map length acc) + (length b - p)"
proof (induction b p acc rule: split_annexb_loop.induct)
  case (1 b p acc)
  define s where "s = p + StartCode b p"
  define nx where "nx = next_start b s"
  define e where "e = trim_trailing_zeros b s nx"
  define n where "n = subspan b s (e - s)"
  note defs = s_def nx_def e_def n_def
  show ?case
  proof (cases "p < length b")
    case False
    with 1 show ?thesis by (simp add: split_annexb_loop.simps [of b p acc])
  next
    case True
    with 1(2) have sc: "StartCode b p \<noteq> 0" and v: "ValidNalu n" and l: "length acc \<noteq> kMaxNalus"
      and r: "split_annexb_loop b nx (acc @ [n]) = Some ns"
      unfolding split_annexb_loop.simps [of b p acc] by (auto simp: Let_def defs split: if_splits)
    have sle: "s \<le> length b" using StartCode_bound [OF sc] by (simp add: s_def)
    have nxp: "s \<le> nx" "nx \<le> length b" using next_start_props [OF sle] next_start_ge [of s b] by (auto simp: nx_def)
    have "e \<le> nx" using trim_props [OF nxp(1), of b] by (simp add: e_def)
    then have len: "length n \<le> nx - s" by (simp add: n_def)
    have "sum_list (map length ns) \<le> sum_list (map length (acc @ [n])) + (length b - nx)"
      using 1(1) [OF True refl _ refl refl refl refl] sc v l r by (auto simp: defs)
    with len nxp True show ?thesis by (simp add: s_def)
  qed
qed

lemma split_size: "SplitAnnexB b = Some ns \<Longrightarrow> sum_list (map length ns) \<le> length b"
  using split_annexb_loop_size [of b _ "[]" ns]
  by (fastforce simp: SplitAnnexB_def Let_def split: if_splits option.splits)

section \<open>Length prefixes\<close>

definition prefixed :: "bytes list \<Rightarrow> bytes" where
  "prefixed ns = concat (map (\<lambda>n. put_be32 (of_nat (length n)) @ n) ns)"

lemma prefixed_Nil [simp]: "prefixed [] = []"
  by (simp add: prefixed_def)

lemma prefixed_Cons [simp]: "prefixed (n # ns) = put_be32 (of_nat (length n)) @ n @ prefixed ns"
  by (simp add: prefixed_def)

lemma append_prefixed_eq: "append_prefixed out ns = out @ prefixed ns"
  by (induction ns arbitrary: out) simp_all

lemma length_prefixed: "length (prefixed ns) = sum_list (map length ns) + 4 * length ns"
  by (induction ns) simp_all

text \<open>The four bytes the loop reads are the big-endian 32-bit word.\<close>

lemma prefix_word_be32:
  "(push_bit 24 (ucast (b ! p)) :: u32) OR push_bit 16 (ucast (b ! (p + 1))) OR
     push_bit 8 (ucast (b ! (p + 2))) OR ucast (b ! (p + 3)) = be32 b p"
proof (rule bit_word_eqI)
  fix n assume "n < LENGTH(32)"
  then consider "n < 8" | "8 \<le> n \<and> n < 16" | "16 \<le> n \<and> n < 24" | "24 \<le> n \<and> n < 32"
    by fastforce
  then show "bit ((push_bit 24 (ucast (b ! p)) :: u32) OR push_bit 16 (ucast (b ! (p + 1))) OR
     push_bit 8 (ucast (b ! (p + 2))) OR ucast (b ! (p + 3))) n = bit (be32 b p) n"
    by cases (auto simp: be32_def be16_def bit_simps numeral_3_eq_3 dest: bit_imp_le_length)
qed

lemmas split_prefixed_step = split_prefixed_loop.simps [unfolded prefix_word_be32]

lemma split_prefixed_loop_prefixed:
  "\<forall>n \<in> set ns. ValidNalu n \<and> length n < 2 ^ 32 \<Longrightarrow> length acc + length ns \<le> kMaxNalus \<Longrightarrow>
   split_prefixed_loop (pre @ prefixed ns) (length pre) acc = Some (acc @ ns)"
proof (induction ns arbitrary: pre acc)
  case Nil
  then show ?case by (subst split_prefixed_loop.simps) simp
next
  case (Cons n ns)
  define b where "b = pre @ prefixed (n # ns)"
  let ?hd = "pre @ put_be32 (of_nat (length n))"
  have v: "ValidNalu n" and l: "length n < 2 ^ 32" using Cons.prems by auto
  have len: "length b = length pre + 4 + length n + length (prefixed ns)" by (simp add: b_def)
  have b1: "b = pre @ put_be32 (of_nat (length n)) @ n @ prefixed ns" by (simp add: b_def)
  have "be32 b (length pre) = of_nat (length n)"
    unfolding b1 using be32_append [of pre _ 0] by (simp add: be32_put)
  then have rd: "unat (be32 b (length pre)) = length n"
    using l by (simp add: unat_of_nat take_bit_eq_mod)
  have b2: "b = ?hd @ n @ prefixed ns" and p2: "length pre + 4 = length ?hd" by (simp_all add: b1)
  have sub: "subspan b (length pre + 4) (length n) = n"
    unfolding p2 b2 by (rule subspan_append)
  have "length n \<noteq> 0" using v by (simp add: ValidNalu_def)
  then have step: "split_prefixed_loop b (length pre) acc =
      split_prefixed_loop b (length pre + 4 + length n) (acc @ [n])"
    using Cons.prems(2) v by (subst split_prefixed_step) (simp add: rd sub len Let_def)
  have b3: "b = (?hd @ n) @ prefixed ns" and p3: "length pre + 4 + length n = length (?hd @ n)"
    by (simp_all add: b1)
  have "split_prefixed_loop ((?hd @ n) @ prefixed ns) (length (?hd @ n)) (acc @ [n]) = Some ((acc @ [n]) @ ns)"
    using Cons.prems by (intro Cons.IH) auto
  then show ?case using step unfolding p3 b3 [symmetric] b_def [symmetric] by simp
qed

lemma split_prefixed_loop_tiles:
  "split_prefixed_loop b p acc = Some ns \<Longrightarrow> p \<le> length b \<Longrightarrow> length acc \<le> kMaxNalus \<Longrightarrow>
   \<exists>ms. ns = acc @ ms \<and> drop p b = prefixed ms \<and> (\<forall>n \<in> set ms. ValidNalu n) \<and> length ns \<le> kMaxNalus"
proof (induction b p acc rule: split_prefixed_loop.induct)
  case (1 b p acc)
  define n where "n = unat (be32 b p)"
  show ?case
  proof (cases "p < length b")
    case False
    with 1 show ?thesis by (simp add: split_prefixed_loop.simps [of b p acc])
  next
    case True
    with 1(2) have c: "\<not> length b - p < 4" "n \<noteq> 0" "n \<le> length b - (p + 4)" "length acc \<noteq> kMaxNalus"
        "ValidNalu (subspan b (p + 4) n)"
        "split_prefixed_loop b (p + 4 + n) (acc @ [subspan b (p + 4) n]) = Some ns"
      unfolding split_prefixed_step [of b p acc] by (auto simp: Let_def n_def split: if_splits)
    let ?n = "subspan b (p + 4) n"
    have IH: "\<exists>ms. ns = (acc @ [?n]) @ ms \<and> drop (p + 4 + n) b = prefixed ms \<and>
        (\<forall>n \<in> set ms. ValidNalu n) \<and> length ns \<le> kMaxNalus"
      using 1(1) [OF True c(1) refl refl, unfolded prefix_word_be32, folded n_def] c 1(3,4) True by auto
    then obtain ms where ms: "ns = (acc @ [?n]) @ ms" "drop (p + 4 + n) b = prefixed ms"
        "\<forall>n \<in> set ms. ValidNalu n" "length ns \<le> kMaxNalus" by blast
    have "drop p b = take 4 (drop p b) @ take n (drop (p + 4) b) @ drop (p + 4 + n) b"
      by (metis append_take_drop_id drop_drop add.commute)
    moreover have "take 4 (drop p b) = put_be32 (be32 b p)"
      using c(1) by (intro take4_be32) linarith
    moreover have "of_nat (length ?n) = be32 b p" using c(3) by (simp add: n_def)
    ultimately have "drop p b = prefixed (?n # ms)"
      by (simp add: ms(2) subspan_def)
    with ms c(5) show ?thesis by (intro exI [of _ "?n # ms"]) simp
  qed
qed

section \<open>Properties\<close>

lemma nalu_length_le: "n \<in> set ns \<Longrightarrow> length n \<le> length (prefixed ns)"
  by (induction ns) auto

lemma split_prefixed_size:
  assumes "SplitLengthPrefixed4 b = Some ns"
  shows "sum_list (map length ns) \<le> length b \<and> length ns \<le> kMaxNalus \<and> (\<forall>n \<in> set ns. ValidNalu n) \<and> ns \<noteq> []"
proof -
  from assms have "split_prefixed_loop b 0 [] = Some ns" "ns \<noteq> []"
    by (auto simp: SplitLengthPrefixed4_def split: if_splits option.splits)
  with split_prefixed_loop_tiles [OF this(1)] show ?thesis by (auto simp: length_prefixed)
qed

lemma SplitAnnexB_normal_form:
  assumes "SplitAnnexB b = Some ns" "length (annexb ns) \<le> kMaxAccessUnitBytes"
  shows "SplitAnnexB (annexb ns) = Some ns"
  using split_clean [OF assms(1)] assms(2) by (intro split_annexb) auto

text \<open>C32: a sequence of at most 1024 clean NAL units framed with four-byte start codes, within
  4 MiB, is split back into exactly those NAL units.\<close>

theorem SplitAnnexB_annexb:
  assumes "ns \<noteq> []" "\<forall>n \<in> set ns. clean_nalu n" "length ns \<le> kMaxNalus"
    and "length (annexb ns) \<le> kMaxAccessUnitBytes"
  shows "SplitAnnexB (annexb ns) = Some ns"
  using assms by (rule split_annexb)

theorem SplitAnnexB_annexb_witness:
  "SplitAnnexB [0, 0, 0, 1, 0x67, 0x42, 9, 0, 0, 0, 1, 0x67, 0x42, 9]
     = Some [[0x67, 0x42, 9], [0x67, 0x42, 9]]"
  using SplitAnnexB_annexb [of "[[0x67, 0x42, 9], [0x67, 0x42, 9]]"] clean_example
  by (simp add: kMaxNalus_def kMaxAccessUnitBytes_def)

text \<open>C38: every NAL unit that the Annex-B splitter returns has a valid header, holds no start
  code, does not end in a zero byte, and there are between 1 and 1024 of them.\<close>

theorem SplitAnnexB_clean:
  assumes "SplitAnnexB b = Some ns"
  shows "ns \<noteq> [] \<and> length ns \<le> kMaxNalus \<and> (\<forall>n \<in> set ns. clean_nalu n)"
  using assms by (rule split_clean)

theorem SplitAnnexB_clean_witness:
  "clean_nalu [0x67, 7] \<and> clean_nalu [0x65, 9]"
  using SplitAnnexB_clean [of "[0, 0, 1, 0x67, 7, 0, 0, 0, 1, 0x65, 9]" "[[0x67, 7], [0x65, 9]]",
      OF split_example] by simp

text \<open>Converting Annex-B framing to four-byte length prefixes loses nothing: while the
  result stays within 4 MiB, splitting it by its prefixes gives the NAL units of the original.\<close>

theorem AnnexBToLengthPrefixed4_roundtrip:
  assumes "AnnexBToLengthPrefixed4 b = Some out" "length out \<le> kMaxAccessUnitBytes"
  shows "SplitLengthPrefixed4 out = SplitAnnexB b"
proof -
  obtain ns where ns: "SplitAnnexB b = Some ns" and out: "out = prefixed ns"
    using assms(1) by (auto simp: AnnexBToLengthPrefixed4_def append_prefixed_eq split: option.splits)
  note cl = split_clean [OF ns]
  have "length n < 2 ^ 32" if "n \<in> set ns" for n
    using nalu_length_le [OF that] assms(2) by (simp add: out kMaxAccessUnitBytes_def)
  then have "split_prefixed_loop out 0 [] = Some ns"
    using split_prefixed_loop_prefixed [of ns "[]" "[]"] cl by (auto simp: out clean_nalu_def)
  moreover have "out \<noteq> []" using cl by (cases ns) (auto simp: out put_be32_def)
  ultimately show ?thesis using cl assms(2) ns by (simp add: SplitLengthPrefixed4_def)
qed

theorem AnnexBToLengthPrefixed4_roundtrip_witness:
  "SplitLengthPrefixed4 [0, 0, 0, 2, 0x67, 7, 0, 0, 0, 2, 0x65, 9]
     = SplitAnnexB [0, 0, 1, 0x67, 7, 0, 0, 0, 1, 0x65, 9]"
  by (rule AnnexBToLengthPrefixed4_roundtrip) code_simp+

text \<open>A successful split by length prefixes consumes the whole input: it is the
  concatenation of the returned NAL units, each behind its own 32-bit big-endian length.\<close>

theorem SplitLengthPrefixed4_tiles:
  assumes "SplitLengthPrefixed4 b = Some ns"
  shows "b = prefixed ns \<and> ns \<noteq> [] \<and> length ns \<le> kMaxNalus \<and> (\<forall>n \<in> set ns. ValidNalu n)"
  using assms split_prefixed_loop_tiles [of b 0 "[]" ns]
  by (auto simp: SplitLengthPrefixed4_def split: if_splits option.splits)

theorem SplitLengthPrefixed4_tiles_witness:
  "[0, 0, 0, 2, 0x67, 7, 0, 0, 0, 1, 0x65] = prefixed [[0x67, 7], [0x65]]"
  using SplitLengthPrefixed4_tiles [of "[0, 0, 0, 2, 0x67, 7, 0, 0, 0, 1, 0x65]" "[[0x67, 7], [0x65]]",
      OF prefixed_example] by blast

end
