(* ===== verification/BoundedVideoQueue.thy ===== *)
theory BoundedVideoQueue
  imports H264
begin

text \<open>
  \<open>src/shared/km/bounded_video_queue.h\<close> (\<open>BoundedVideoQueue\<close>) and its compatibility
  wrapper \<open>src/windows/receiver/app/lockfree_h264_queue.h\<close>. Every method runs under the
  queue's mutex from its first to its last access, so a method call is one atomic step on the
  state; calls from several threads are an arbitrary sequence of such steps. The counters are
  64-bit words and wrap; byte counts are natural numbers, and the subtraction
  \<open>kMaxBytes - bytes_\<close> is the wrapping one of \<open>size_t\<close>.
\<close>

section \<open>Interface of a bounded first-in first-out queue\<close>

text \<open>
  What a consumer of a dropping queue relies on: an accepted element goes to the back, a
  refused one leaves the queue as it was or empty, and elements leave from the front.
\<close>

locale dropping_fifo =
  fixes items :: "'s \<Rightarrow> 'a list"
    and inv :: "'s \<Rightarrow> bool"
    and push :: "'i \<Rightarrow> 's \<Rightarrow> bool \<times> 's"
    and entry :: "'i \<Rightarrow> 's \<Rightarrow> 'a"
    and pop :: "'s \<Rightarrow> ('a \<times> 's) option"
  assumes push_accept: "inv s \<Longrightarrow> push i s = (True, s') \<Longrightarrow> items s' = items s @ [entry i s]"
    and push_refuse: "inv s \<Longrightarrow> push i s = (False, s') \<Longrightarrow> items s' = items s \<or> items s' = []"
    and push_inv: "inv s \<Longrightarrow> inv (snd (push i s))"
    and pop_empty: "inv s \<Longrightarrow> pop s = None \<longleftrightarrow> items s = []"
    and pop_front: "inv s \<Longrightarrow> pop s = Some (x, s') \<Longrightarrow> items s = x # items s'"
    and pop_inv: "inv s \<Longrightarrow> pop s = Some (x, s') \<Longrightarrow> inv s'"
begin

text \<open>Popping until the queue is empty hands out exactly its elements, oldest first.\<close>

fun pops :: "nat \<Rightarrow> 's \<Rightarrow> 'a list \<times> 's" where
  "pops 0 s = ([], s)"
| "pops (Suc n) s = (case pop s of None \<Rightarrow> ([], s)
     | Some (x, s') \<Rightarrow> (let (xs, t) = pops n s' in (x # xs, t)))"

lemma pops_prefix: "inv s \<Longrightarrow> fst (pops n s) = take n (items s) \<and> items (snd (pops n s)) = drop n (items s)
    \<and> inv (snd (pops n s))"
proof (induction n arbitrary: s)
  case 0
  then show ?case by simp
next
  case (Suc n)
  show ?case
  proof (cases "pop s")
    case None
    with Suc.prems pop_empty [of s] show ?thesis by simp
  next
    case (Some xs)
    then obtain x s' where xs: "pop s = Some (x, s')" by (cases xs) auto
    with Suc.IH [OF pop_inv [OF Suc.prems xs]] pop_front [OF Suc.prems xs] show ?thesis
      by (simp add: case_prod_beta Let_def)
  qed
qed

lemma drain_all: "inv s \<Longrightarrow> fst (pops (length (items s)) s) = items s"
  using pops_prefix [of s "length (items s)"] by simp

end

section \<open>State and operations\<close>

record QueuedAccessUnit =
  au_bytes :: bytes
  au_timestampUs :: int
  au_generation :: u64
  au_resetSerial :: u64

definition kMaxFrames :: nat where
  "kMaxFrames = 8"

definition kMaxBytes :: nat where
  "kMaxBytes = 2 * 1024 * 1024"

record video_queue =
  vq_queue :: "QueuedAccessUnit list"
  vq_bytes :: nat
  vq_generation :: u64
  vq_resetSerial :: u64
  vq_waiting :: bool

definition vq_init :: video_queue where
  "vq_init = \<lparr>vq_queue = [], vq_bytes = 0, vq_generation = 1, vq_resetSerial = 1, vq_waiting = True\<rparr>"

definition configuredIdr :: "bytes \<Rightarrow> bool" where
  "configuredIdr b =
     (case SplitAnnexB b of
        None \<Rightarrow> False
      | Some nalus \<Rightarrow>
          list_ex (\<lambda>n. n ! 0 AND 31 = 7) nalus \<and> list_ex (\<lambda>n. n ! 0 AND 31 = 8) nalus \<and>
          list_ex (\<lambda>n. n ! 0 AND 31 = 5) nalus)"

definition vq_clear :: "video_queue \<Rightarrow> video_queue" where
  "vq_clear q = q\<lparr>vq_queue := [], vq_bytes := 0, vq_waiting := True, vq_resetSerial := vq_resetSerial q + 1\<rparr>"

definition vq_reset :: "video_queue \<Rightarrow> u64 \<times> video_queue" where
  "vq_reset q = (vq_generation q + 1, (vq_clear q)\<lparr>vq_generation := vq_generation q + 1\<rparr>)"

definition vq_invalidate :: "video_queue \<Rightarrow> video_queue" where
  "vq_invalidate q = vq_clear q"

definition vq_push :: "bytes \<Rightarrow> int \<Rightarrow> u64 \<Rightarrow> video_queue \<Rightarrow> bool \<times> video_queue" where
  "vq_push b ts gen q =
     (if b = [] then (False, q)
      else
        let key = configuredIdr b in
        if gen \<noteq> vq_generation q then (False, q)
        else if length b > kMaxBytes \<or> length (vq_queue q) \<ge> kMaxFrames
                \<or> length b > size_sub kMaxBytes (vq_bytes q) then (False, vq_clear q)
        else if vq_waiting q \<and> \<not> key then (False, q)
        else
          let q = (if key then q\<lparr>vq_waiting := False\<rparr> else q) in
          (True, q\<lparr>vq_queue := vq_queue q @
               [\<lparr>au_bytes = b, au_timestampUs = ts, au_generation = gen, au_resetSerial = vq_resetSerial q\<rparr>],
             vq_bytes := vq_bytes q + length b\<rparr>))"

definition vq_pop :: "video_queue \<Rightarrow> (QueuedAccessUnit \<times> video_queue) option" where
  "vq_pop q =
     (case vq_queue q of
        [] \<Rightarrow> None
      | out # rest \<Rightarrow> Some (out, q\<lparr>vq_queue := rest, vq_bytes := size_sub (vq_bytes q) (length (au_bytes out))\<rparr>))"

definition vq_current :: "QueuedAccessUnit \<Rightarrow> video_queue \<Rightarrow> bool" where
  "vq_current frame q \<longleftrightarrow> au_generation frame = vq_generation q \<and> au_resetSerial frame = vq_resetSerial q"

definition vq_queuedFrames :: "video_queue \<Rightarrow> nat" where
  "vq_queuedFrames q = length (vq_queue q)"

definition vq_queuedBytes :: "video_queue \<Rightarrow> nat" where
  "vq_queuedBytes q = vq_bytes q"

text \<open>The wrapper of \<open>lockfree_h264_queue.h\<close>; a null pointer is \<open>None\<close>.\<close>

definition lfq_Push :: "bytes option \<Rightarrow> int \<Rightarrow> video_queue \<Rightarrow> bool \<times> video_queue" where
  "lfq_Push p ts q = (case p of None \<Rightarrow> (False, q) | Some b \<Rightarrow> vq_push b ts (vq_generation q) q)"

definition lfq_Pop :: "video_queue \<Rightarrow> ((bytes \<times> int) \<times> video_queue) option" where
  "lfq_Pop q = (case vq_pop q of None \<Rightarrow> None
     | Some (frame, q') \<Rightarrow> Some ((au_bytes frame, au_timestampUs frame), q'))"

definition lfq_IsEmpty :: "video_queue \<Rightarrow> bool" where
  "lfq_IsEmpty q \<longleftrightarrow> vq_queuedFrames q = 0"

definition lfq_GetQueuedCount :: "video_queue \<Rightarrow> nat" where
  "lfq_GetQueuedCount q = vq_queuedFrames q"

definition lfq_Clear :: "video_queue \<Rightarrow> video_queue" where
  "lfq_Clear q = snd (vq_reset q)"

section \<open>Invariant\<close>

definition vq_size :: "QueuedAccessUnit list \<Rightarrow> nat" where
  "vq_size us = sum_list (map (\<lambda>u. length (au_bytes u)) us)"

definition vq_inv :: "video_queue \<Rightarrow> bool" where
  "vq_inv q \<longleftrightarrow> vq_bytes q = vq_size (vq_queue q) \<and> vq_bytes q \<le> kMaxBytes \<and> length (vq_queue q) \<le> kMaxFrames \<and>
     (\<forall>u \<in> set (vq_queue q). vq_current u q \<and> au_bytes u \<noteq> []) \<and> (vq_waiting q \<longrightarrow> vq_queue q = [])"

lemma vq_size_simps [simp]: "vq_size [] = 0" "vq_size (u # us) = length (au_bytes u) + vq_size us"
  "vq_size (us @ vs) = vq_size us + vq_size vs"
  by (simp_all add: vq_size_def)

lemma vq_inv_init [inv_intros]: "vq_inv vq_init"
  by (simp add: vq_inv_def vq_init_def)

lemma vq_inv_clear [inv_intros]: "vq_inv (vq_clear q)"
  by (simp add: vq_inv_def vq_clear_def)

lemma vq_inv_reset [inv_intros]: "vq_inv (snd (vq_reset q))"
  by (simp add: vq_inv_def vq_clear_def vq_reset_def)

lemma vq_inv_push [inv_intros]: "vq_inv q \<Longrightarrow> vq_inv (snd (vq_push b ts gen q))"
  by (auto simp: vq_push_def vq_inv_clear Let_def) 
    (auto simp: vq_inv_def vq_current_def size_sub_def split: if_splits)

lemma vq_inv_pop [inv_intros]: "vq_inv q \<Longrightarrow> vq_pop q = Some (u, q') \<Longrightarrow> vq_inv q'"
  by (auto simp: vq_pop_def vq_inv_def vq_current_def size_sub_def split: list.splits)

interpretation vqf: dropping_fifo vq_queue vq_inv "\<lambda>(b, ts, gen). vq_push b ts gen"
  "\<lambda>(b, ts, gen) q. \<lparr>au_bytes = b, au_timestampUs = ts, au_generation = gen, au_resetSerial = vq_resetSerial q\<rparr>"
  vq_pop
proof unfold_locales
  show "\<And>s i. vq_inv s \<Longrightarrow> vq_inv (snd ((\<lambda>(b, ts, gen). vq_push b ts gen) i s))"
    by (auto intro: vq_inv_push)
  show "\<And>s x s'. vq_inv s \<Longrightarrow> vq_pop s = Some (x, s') \<Longrightarrow> vq_inv s'"
    by (rule vq_inv_pop)
qed (auto simp: vq_push_def vq_pop_def vq_clear_def Let_def split: if_splits list.splits)

section \<open>Runs\<close>

datatype vq_op = OpReset | OpInvalidate | OpPush bytes int u64 | OpPop

fun vq_step :: "video_queue \<Rightarrow> vq_op \<Rightarrow> QueuedAccessUnit list \<times> video_queue" where
  "vq_step q OpReset = ([], snd (vq_reset q))"
| "vq_step q OpInvalidate = ([], vq_invalidate q)"
| "vq_step q (OpPush b ts gen) = ([], snd (vq_push b ts gen q))"
| "vq_step q OpPop = (case vq_pop q of None \<Rightarrow> ([], q) | Some (u, q') \<Rightarrow> ([u], q'))"

text \<open>The units handed to the consumer by a sequence of calls, and the final state.\<close>

fun vq_run :: "video_queue \<Rightarrow> vq_op list \<Rightarrow> QueuedAccessUnit list \<times> video_queue" where
  "vq_run q [] = ([], q)"
| "vq_run q (x # xs) =
     (let (us, q') = vq_step q x; (vs, q'') = vq_run q' xs in (us @ vs, q''))"

lemma vq_inv_step [inv_intros]: "vq_inv q \<Longrightarrow> vq_inv (snd (vq_step q x))"
  by (cases x) (auto simp: vq_invalidate_def intro: inv_intros split: option.splits)

lemma vq_inv_run [inv_intros]: "vq_inv q \<Longrightarrow> vq_inv (snd (vq_run q xs))"
proof (induction xs arbitrary: q)
  case (Cons x xs)
  from Cons.IH [OF vq_inv_step [OF Cons.prems, of x]] show ?case
    by (simp add: case_prod_beta Let_def)
qed simp

text \<open>
  A decoder fed with units can start at a configured IDR and continue with units of the same
  reset serial; \<open>prev\<close> is the serial of the unit decoded before.
\<close>

fun decodable :: "u64 option \<Rightarrow> QueuedAccessUnit list \<Rightarrow> bool" where
  "decodable prev [] \<longleftrightarrow> True"
| "decodable prev (u # us) \<longleftrightarrow>
     (prev = Some (au_resetSerial u) \<or> configuredIdr (au_bytes u)) \<and> decodable (Some (au_resetSerial u)) us"

text \<open>
  What relates the queue to the serial of the last popped unit: if that serial is not the
  current one, the queue starts with a configured IDR; a queue that accepts dependent units
  while empty has handed out a unit of the current serial.
\<close>

definition vq_chain :: "u64 option \<Rightarrow> video_queue \<Rightarrow> bool" where
  "vq_chain prev q \<longleftrightarrow> vq_inv q \<and>
     (prev \<noteq> Some (vq_resetSerial q) \<longrightarrow>
       (if vq_queue q = [] then vq_waiting q else configuredIdr (au_bytes (hd (vq_queue q)))))"

lemma vq_chain_clear: "vq_chain prev (vq_clear q)"
  by (simp add: vq_chain_def vq_inv_clear) (simp add: vq_clear_def)

lemma vq_chain_push: "vq_chain prev q \<Longrightarrow> vq_chain prev (snd (vq_push b ts gen q))"
  using vq_inv_push [of q b ts gen]
  by (cases "vq_queue q") (auto simp: vq_chain_def vq_push_def vq_clear_def Let_def split: if_splits)

lemma vq_chain_pop:
  assumes "vq_chain prev q" "vq_pop q = Some (u, q')"
  shows "(prev = Some (au_resetSerial u) \<or> configuredIdr (au_bytes u)) \<and> vq_chain (Some (au_resetSerial u)) q'"
proof -
  have "vq_inv q" using assms(1) by (simp add: vq_chain_def)
  moreover from assms(2) have "vq_queue q = u # vq_queue q'" "vq_resetSerial q' = vq_resetSerial q"
    by (auto simp: vq_pop_def split: list.splits)
  moreover have "vq_inv q'" using assms(2) \<open>vq_inv q\<close> by (auto intro: inv_intros)
  ultimately show ?thesis using assms(1) by (auto simp: vq_chain_def vq_inv_def vq_current_def)
qed

lemma vq_run_decodable: "vq_chain prev q \<Longrightarrow> decodable prev (fst (vq_run q xs))"
proof (induction xs arbitrary: prev q)
  case Nil
  then show ?case by simp
next
  case (Cons x xs)
  show ?case
  proof (cases x)
    case OpReset
    have "vq_chain prev ((vq_clear q)\<lparr>vq_generation := vq_generation q + 1\<rparr>)"
      by (simp add: vq_chain_def vq_inv_def vq_clear_def)
    with Cons.IH OpReset show ?thesis by (simp add: vq_reset_def case_prod_beta Let_def)
  next
    case OpInvalidate
    with Cons.IH [OF vq_chain_clear] show ?thesis
      by (simp add: vq_invalidate_def case_prod_beta Let_def)
  next
    case (OpPush b ts gen)
    with Cons.IH [OF vq_chain_push [OF Cons.prems]] show ?thesis
      by (simp add: case_prod_beta Let_def)
  next
    case OpPop
    show ?thesis
    proof (cases "vq_pop q")
      case None
      with OpPop Cons show ?thesis by (simp add: case_prod_beta Let_def)
    next
      case (Some r)
      then obtain u q' where r: "vq_pop q = Some (u, q')" by (cases r) auto
      note ch = vq_chain_pop [OF Cons.prems r]
      with Cons.IH [of "Some (au_resetSerial u)" q'] show ?thesis
        by (simp add: OpPop r case_prod_beta Let_def)
    qed
  qed
qed

lemma vq_serial_invalidate: "vq_resetSerial ((vq_invalidate ^^ n) q) = vq_resetSerial q + of_nat n"
  by (induction n) (simp_all add: vq_invalidate_def vq_clear_def)

section \<open>Properties\<close>

definition example_idr :: bytes where
  "example_idr = [0, 0, 0, 1, 0x67, 1, 0, 0, 0, 1, 0x68, 2, 0, 0, 0, 1, 0x65, 3]"

lemma example_idr_key: "configuredIdr example_idr"
  by code_simp


text \<open>C8: the consumer of the compressed queue is never given a dependent access unit it cannot
  decode: in any run from the start, each popped unit either continues the reset serial of the
  unit popped before it or is a configured IDR (SPS, PPS and IDR slice).\<close>

theorem vq_run_decodable_from_start:
  "decodable None (fst (vq_run vq_init xs))"
  by (rule vq_run_decodable) (simp add: vq_chain_def vq_inv_init, simp add: vq_init_def)

text \<open>A popped unit is current, and stops being current as soon as the queue is invalidated,
  for any number of invalidations short of the counter's period.\<close>

theorem vq_pop_current:
  assumes "vq_inv q" "vq_pop q = Some (u, q')" "0 < n" "n < 2 ^ 64"
  shows "vq_current u q' \<and> \<not> vq_current u ((vq_invalidate ^^ n) q')"
proof -
  have "vq_queue q = u # vq_queue q'" "vq_resetSerial q' = vq_resetSerial q" "vq_generation q' = vq_generation q"
    using assms(2) by (auto simp: vq_pop_def split: list.splits)
  then have "vq_current u q'" using assms(1) by (auto simp: vq_inv_def vq_current_def)
  moreover have "(of_nat n :: u64) \<noteq> 0"
    using assms(3,4) by (simp add: word_of_nat_eq_0_iff nat_dvd_not_less)
  ultimately show ?thesis by (auto simp: vq_current_def vq_serial_invalidate)
qed

theorem vq_pop_current_witness:
  "\<exists>u q'. vq_pop (snd (vq_push example_idr 5 1 vq_init)) = Some (u, q') \<and> \<not> vq_current u (vq_invalidate q')"
proof -
  have "vq_pop (snd (vq_push example_idr 5 1 vq_init)) \<noteq> None" by code_simp
  then obtain u q' where r: "vq_pop (snd (vq_push example_idr 5 1 vq_init)) = Some (u, q')" by auto
  from vq_pop_current [OF vq_inv_push [OF vq_inv_init] r, of 1] r show ?thesis by auto
qed

text \<open>First in, first out: popping as often as there are queued units returns exactly those
  units in the order they were accepted and leaves the queue empty.\<close>

theorem vq_fifo:
  assumes "vq_inv q"
  shows "vqf.pops (length (vq_queue q)) q = (vq_queue q, snd (vqf.pops (length (vq_queue q)) q)) \<and>
    lfq_IsEmpty (snd (vqf.pops (length (vq_queue q)) q))"
  using vqf.drain_all [OF assms] vqf.pops_prefix [OF assms, of "length (vq_queue q)"]
  by (auto simp: lfq_IsEmpty_def vq_queuedFrames_def prod_eq_iff)

theorem vq_fifo_witness:
  "lfq_IsEmpty (snd (vqf.pops (length (vq_queue (snd (vq_push example_idr 5 1 vq_init))))
     (snd (vq_push example_idr 5 1 vq_init))))"
  using vq_fifo [OF vq_inv_push [OF vq_inv_init]] by blast

end
