(* ===== verification/Pacer.thy ===== *)
theory Pacer
  imports Prelude
begin

text \<open>
  The \<open>RationalPacer\<close> of \<open>src/shared/km/timing.h\<close>: exact rational frame deadlines.
  The products stay below \<open>10 ^ 15\<close> by the constructor's bounds, so they are natural
  numbers; the deadline itself is checked against \<open>uint64_t\<close> as the code does.
\<close>

definition uint64_max :: nat where
  "uint64_max = 2 ^ 64 - 1"

record pacer =
  pc_numerator :: nat
  pc_deadline :: nat
  pc_whole :: nat
  pc_fraction :: nat
  pc_remainder :: nat

definition RationalPacer :: "nat \<Rightarrow> nat \<Rightarrow> nat \<Rightarrow> pacer res" where
  "RationalPacer numerator denominator epochNs =
     (if numerator = 0 \<or> denominator = 0 \<or> numerator > 1000000 \<or> denominator > 1000000
      then Inl (InvalidArgument ''invalid frame rate'')
      else
        let period = 1000000000 * denominator in
        Inr \<lparr>pc_numerator = numerator, pc_deadline = epochNs, pc_whole = period div numerator,
             pc_fraction = period mod numerator, pc_remainder = 0\<rparr>)"

definition pacer_next :: "pacer \<Rightarrow> (nat \<times> pacer) res" where
  "pacer_next p =
     (let result = pc_deadline p;
          total = pc_remainder p + pc_fraction p;
          step = pc_whole p + total div pc_numerator p
      in if pc_deadline p > uint64_max - step then Inl (OverflowError ''deadline out of range'')
         else Inr (result, p\<lparr>pc_deadline := pc_deadline p + step, pc_remainder := total mod pc_numerator p\<rparr>))"

fun pacer_run :: "nat \<Rightarrow> pacer \<Rightarrow> (nat list \<times> pacer) res" where
  "pacer_run 0 p = Inr ([], p)"
| "pacer_run (Suc n) p =
     bindR (pacer_next p) (\<lambda>(r, p'). bindR (pacer_run n p') (\<lambda>(rs, p''). Inr (r # rs, p'')))"

text \<open>The exact deadline of the frame with a given index.\<close>

definition deadline_of :: "nat \<Rightarrow> nat \<Rightarrow> nat \<Rightarrow> nat \<Rightarrow> nat" where
  "deadline_of numerator denominator epochNs i = epochNs + (i * (1000000000 * denominator)) div numerator"

definition pacer_at :: "nat \<Rightarrow> nat \<Rightarrow> nat \<Rightarrow> nat \<Rightarrow> pacer \<Rightarrow> bool" where
  "pacer_at num den epoch i p \<longleftrightarrow> 0 < num \<and> num \<le> 1000000 \<and> den \<le> 1000000 \<and> pc_numerator p = num \<and>
     pc_whole p = (1000000000 * den) div num \<and> pc_fraction p = (1000000000 * den) mod num \<and>
     pc_remainder p = (i * (1000000000 * den)) mod num \<and> pc_deadline p = deadline_of num den epoch i"

lemma div_step: "((i + 1) * P) div n = (i * P) div n + (P div n + ((i * P) mod n + P mod n) div n)"
    "((i + 1) * P) mod n = ((i * P) mod n + P mod n) mod (n :: nat)"
proof -
  have e: "(i + 1) * P = i * P + P" by simp
  show "((i + 1) * P) div n = (i * P) div n + (P div n + ((i * P) mod n + P mod n) div n)"
    unfolding e div_add1_eq [of "i * P" P n] by simp
  show "((i + 1) * P) mod n = ((i * P) mod n + P mod n) mod n"
    unfolding e by (simp add: mod_add_eq)
qed

lemma pacer_next_at:
  assumes "pacer_at num den epoch i p"
  shows "pacer_next p =
    (if deadline_of num den epoch (i + 1) \<le> uint64_max
     then Inr (deadline_of num den epoch i, p\<lparr>pc_deadline := deadline_of num den epoch (i + 1),
       pc_remainder := ((i + 1) * (1000000000 * den)) mod num\<rparr>)
     else Inl (OverflowError ''deadline out of range''))"
proof -
  define P where "P = 1000000000 * den"
  define step where "step = P div num + ((i * P) mod num + P mod num) div num"
  have at: "pc_numerator p = num" "pc_whole p = P div num" "pc_fraction p = P mod num"
      "pc_remainder p = (i * P) mod num" "pc_deadline p = deadline_of num den epoch i"
      and num: "0 < num" and den: "P \<le> 10 ^ 15"
    using assms by (auto simp: pacer_at_def P_def)
  have next_dl: "deadline_of num den epoch (i + 1) = deadline_of num den epoch i + step"
    by (simp only: deadline_of_def P_def [symmetric] div_step step_def)
  have "step \<le> P + 1"
  proof -
    have "(i * P) mod num < num" "P mod num < num" using num by simp_all
    then have "(i * P) mod num + P mod num < 2 * num" by linarith
    then have "((i * P) mod num + P mod num) div num < 2" using num by (simp add: div_less_iff_less_mult)
    then show ?thesis using div_le_dividend [of P num] unfolding step_def by linarith
  qed
  then have "step \<le> uint64_max" using den by (simp add: uint64_max_def)
  then have "deadline_of num den epoch i > uint64_max - step \<longleftrightarrow> \<not> deadline_of num den epoch (i + 1) \<le> uint64_max"
    unfolding next_dl by linarith
  then show ?thesis
    unfolding pacer_next_def Let_def at step_def [symmetric]
    by (simp only: next_dl [symmetric] div_step(2) [of i P num] P_def [symmetric]) simp
qed

lemma pacer_at_next:
  "pacer_at num den epoch i p \<Longrightarrow> pacer_at num den epoch (i + 1)
     (p\<lparr>pc_deadline := deadline_of num den epoch (i + 1), pc_remainder := ((i + 1) * (1000000000 * den)) mod num\<rparr>)"
  by (simp add: pacer_at_def)

lemma deadline_mono: "i \<le> j \<Longrightarrow> deadline_of num den epoch i \<le> deadline_of num den epoch j"
  by (simp add: deadline_of_def div_le_mono)

lemma pacer_run_at:
  assumes "pacer_at num den epoch i p" "deadline_of num den epoch (i + n) \<le> uint64_max"
  shows "\<exists>p'. pacer_run n p = Inr (map (deadline_of num den epoch) [i..<i + n], p') \<and> pacer_at num den epoch (i + n) p'"
  using assms
proof (induction n arbitrary: i p)
  case 0
  then show ?case by simp
next
  case (Suc n)
  have "deadline_of num den epoch (i + 1) \<le> uint64_max"
    using Suc.prems(2) deadline_mono [of "i + 1" "i + Suc n" num den epoch] by linarith
  then show ?case
    using Suc.IH [OF pacer_at_next [OF Suc.prems(1)]] Suc.prems
    by (auto simp: pacer_next_at [OF Suc.prems(1)] upt_conv_Cons simp del: upt_Suc)
qed

lemma pacer_init_at: "RationalPacer num den epoch = Inr p \<Longrightarrow> pacer_at num den epoch 0 p"
  by (auto simp: RationalPacer_def pacer_at_def deadline_of_def Let_def split: if_splits)

lemma pacer_run_overflow:
  assumes "pacer_at num den epoch i p" "deadline_of num den epoch i \<le> uint64_max"
    and "uint64_max < deadline_of num den epoch (i + n)"
  shows "pacer_run n p = Inl (OverflowError ''deadline out of range'')"
  using assms
proof (induction n arbitrary: i p)
  case 0
  then show ?case by simp
next
  case (Suc n)
  then show ?case
    using Suc.IH [OF pacer_at_next [OF Suc.prems(1)]] by (auto simp: pacer_next_at [OF Suc.prems(1)])
qed

section \<open>Properties\<close>

text \<open>The pacer never drifts: after any number of calls the deadlines handed out are exactly
  epoch + floor(index * 10^9 * denominator / numerator), and the calls fail - with the overflow
  error - precisely when the next such deadline no longer fits in 64 bits.\<close>

theorem pacer_exact:
  assumes "RationalPacer num den epoch = Inr p" "epoch \<le> uint64_max"
  shows "if deadline_of num den epoch n \<le> uint64_max
    then map_sum id fst (pacer_run n p) = Inr (map (deadline_of num den epoch) [0..<n])
    else pacer_run n p = Inl (OverflowError ''deadline out of range'')"
proof -
  note at = pacer_init_at [OF assms(1)]
  have "deadline_of num den epoch 0 \<le> uint64_max" using assms(2) by (simp add: deadline_of_def)
  then show ?thesis
    using pacer_run_at [OF at, of n] pacer_run_overflow [OF at, of n] by auto
qed

theorem pacer_exact_witness:
  "\<exists>p. RationalPacer 30 1 1000 = Inr p \<and>
     map_sum id fst (pacer_run 4 p) = Inr [1000, 33334333, 66667666, 100001000]"
proof -
  obtain p where p: "RationalPacer 30 1 1000 = Inr p" by (simp add: RationalPacer_def)
  from pacer_exact [OF p, of 4] p show ?thesis
    by (auto simp: uint64_max_def deadline_of_def upt_rec)
qed

end
