(* ===== verification/LatestFrame.thy ===== *)
theory LatestFrame
  imports Prelude
begin

text \<open>
  \<open>src/shared/km/latest_frame.h\<close>: the mutex-protected slot that hands the newest decoded
  frame to each consumer. Every method is one critical section, hence one atomic step. A null
  \<open>shared_ptr\<close> is \<open>None\<close>; generation and times are 64-bit words.
\<close>

record 'f latest_frame =
  lf_generation :: u64
  lf_arrivalNs :: u64
  lf_frame :: "'f option"

definition lf_init :: "'f latest_frame" where
  "lf_init = \<lparr>lf_generation = 1, lf_arrivalNs = 0, lf_frame = None\<rparr>"

definition lf_reset :: "'f latest_frame \<Rightarrow> (u64 \<times> 'f latest_frame) res" where
  "lf_reset s =
     (if lf_generation s = - 1 then Inl (OverflowError ''generation exhausted'')
      else Inr (lf_generation s + 1, s\<lparr>lf_frame := None, lf_arrivalNs := 0, lf_generation := lf_generation s + 1\<rparr>))"

definition lf_publish :: "u64 \<Rightarrow> 'f option \<Rightarrow> u64 \<Rightarrow> 'f latest_frame \<Rightarrow> bool \<times> 'f latest_frame" where
  "lf_publish generation frame arrivalNs s =
     (if generation \<noteq> lf_generation s \<or> frame = None \<or> (lf_frame s \<noteq> None \<and> arrivalNs < lf_arrivalNs s)
      then (False, s)
      else (True, s\<lparr>lf_frame := frame, lf_arrivalNs := arrivalNs\<rparr>))"

definition lf_get :: "u64 \<Rightarrow> u64 \<Rightarrow> 'f latest_frame \<Rightarrow> 'f option" where
  "lf_get nowNs maxAgeNs s =
     (if lf_frame s = None \<or> nowNs < lf_arrivalNs s \<or> nowNs - lf_arrivalNs s > maxAgeNs then None
      else lf_frame s)"

datatype 'f lf_op = LfReset | LfPublish u64 "'f option" u64

text \<open>A call that throws leaves the state unchanged.\<close>

fun lf_step :: "'f latest_frame \<Rightarrow> 'f lf_op \<Rightarrow> 'f latest_frame" where
  "lf_step s LfReset = (case lf_reset s of Inl e \<Rightarrow> s | Inr (g, s') \<Rightarrow> s')"
| "lf_step s (LfPublish g f a) = snd (lf_publish g f a s)"

fun lf_run :: "'f latest_frame \<Rightarrow> 'f lf_op list \<Rightarrow> 'f latest_frame" where
  "lf_run s [] = s"
| "lf_run s (x # xs) = lf_run (lf_step s x) xs"

lemma lf_run_append: "lf_run s (xs @ ys) = lf_run (lf_run s xs) ys"
  by (induction xs arbitrary: s) simp_all

text \<open>What the slot can hold: a frame that some call published under the current generation.\<close>

definition lf_published :: "'f lf_op list \<Rightarrow> 'f latest_frame \<Rightarrow> bool" where
  "lf_published xs s \<longleftrightarrow> (\<forall>f. lf_frame s = Some f \<longrightarrow> LfPublish (lf_generation s) (Some f) (lf_arrivalNs s) \<in> set xs)"

lemma lf_published_run: "lf_published xs (lf_run lf_init xs)"
proof (induction xs rule: rev_induct)
  case Nil
  then show ?case by (simp add: lf_published_def lf_init_def)
next
  case (snoc x xs)
  then show ?case
    by (cases x) (auto simp: lf_run_append lf_published_def lf_reset_def lf_publish_def split: sum.splits if_splits)
qed

lemma lf_generation_step: "lf_generation (lf_step s x) \<ge> lf_generation s"
proof (cases x)
  case LfReset
  then show ?thesis by (auto simp: lf_reset_def intro: less_imp_le [OF word_inc_less])
qed (auto simp: lf_publish_def)

lemma lf_generation_run: "lf_generation s \<le> lf_generation (lf_run s xs)"
proof (induction xs arbitrary: s)
  case (Cons x xs)
  then show ?case using lf_generation_step order_trans by fastforce
qed simp

lemma lf_reset_generation: "lf_reset s = Inr (g, s') \<Longrightarrow> lf_generation s < g \<and> lf_generation s' = g"
  by (auto simp: lf_reset_def word_inc_less split: if_splits)

section \<open>Properties\<close>

text \<open>A frame that a consumer gets was published by an earlier call under the current
  generation, no more than \<open>maxAgeNs\<close> before \<open>nowNs\<close> and not after it.\<close>

theorem lf_get_sound:
  assumes "lf_get nowNs maxAgeNs (lf_run lf_init xs) = Some f"
  shows "\<exists>arrival. LfPublish (lf_generation (lf_run lf_init xs)) (Some f) arrival \<in> set xs \<and>
    arrival \<le> nowNs \<and> nowNs - arrival \<le> maxAgeNs"
  using assms lf_published_run [of xs]
  by (auto simp: lf_get_def lf_published_def not_less split: if_splits)

theorem lf_get_sound_witness:
  "\<exists>arrival. LfPublish 1 (Some (7 :: nat)) arrival \<in> set [LfPublish 1 (Some 7) 100] \<and> arrival \<le> 150"
  using lf_get_sound [of 150 60 "[LfPublish 1 (Some (7 :: nat)) 100]" 7]
  by (simp add: lf_get_def lf_publish_def lf_init_def)

text \<open>After a reset no frame of an older generation is ever visible or accepted again: the
  slot is empty, and whatever calls follow, a publish under the old generation is refused.\<close>

theorem lf_reset_fences:
  assumes "lf_reset s = Inr (g, s')"
  shows "lf_get nowNs maxAgeNs s' = None \<and>
    lf_publish (lf_generation s) f a (lf_run s' xs) = (False, lf_run s' xs)"
  using lf_reset_generation [OF assms] lf_generation_run [of s' xs] assms
  by (auto simp: lf_publish_def lf_get_def lf_reset_def split: if_splits)

theorem lf_reset_fences_witness:
  "lf_publish 1 (Some (7 :: nat)) 5 (lf_init\<lparr>lf_generation := 2\<rparr>) = (False, lf_init\<lparr>lf_generation := 2\<rparr>)"
  using lf_reset_fences [of lf_init 2 "lf_init\<lparr>lf_generation := 2\<rparr>" 0 0 "Some (7 :: nat)" 5 "[]"]
  by (simp add: lf_reset_def lf_init_def)

end
