(* ===== verification/CallbackGate.thy ===== *)
theory CallbackGate
  imports Prelude
begin

text \<open>
  \<open>src/shared/km/callback_gate.h\<close>: callbacks take a lease before they touch their owner;
  \<open>closeAndWait\<close> refuses new leases and returns when none is left. Each critical section of
  the gate's mutex is one step: \<open>enter\<close>, the lease destructor, the first part of
  \<open>closeAndWait\<close> (its check and \<open>open_ = false\<close>), and the return from its condition-variable
  wait. Threads are natural numbers; \<open>gt_users\<close> is the map \<open>users_\<close>. \<open>gt_leases\<close> counts
  the live lease objects of each thread, \<open>gt_closing\<close> the threads waiting in
  \<open>closeAndWait\<close> and \<open>gt_closed\<close> whether a call has returned: the code has no fields for
  them, they are the objects and program counters of its callers.
\<close>

section \<open>The gate's critical sections\<close>

record gate =
  gt_open :: bool
  gt_users :: "nat \<Rightarrow> nat option"

definition gate_init :: gate where
  "gate_init = \<lparr>gt_open = True, gt_users = Map.empty\<rparr>"

text \<open>\<open>enter\<close>: the flag says whether the returned lease holds the gate.\<close>

definition gate_enter :: "nat \<Rightarrow> gate \<Rightarrow> bool \<times> gate" where
  "gate_enter t g =
     (if \<not> gt_open g then (False, g)
      else (True, g\<lparr>gt_users := (gt_users g)(t \<mapsto> (case gt_users g t of None \<Rightarrow> 0 | Some n \<Rightarrow> n) + 1)\<rparr>))"

text \<open>\<open>~Lease\<close> of a lease that holds the gate. \<open>find\<close> without a result would make the code
  dereference \<open>end()\<close>, which the model shows as \<open>None\<close>.\<close>

definition gate_leave :: "nat \<Rightarrow> gate \<Rightarrow> gate option" where
  "gate_leave t g =
     (case gt_users g t of
        None \<Rightarrow> None
      | Some n \<Rightarrow> Some (g\<lparr>gt_users := (if n - 1 = 0 then (gt_users g)(t := None) else (gt_users g)(t \<mapsto> n - 1))\<rparr>))"

definition gate_close_begin :: "nat \<Rightarrow> gate \<Rightarrow> gate res" where
  "gate_close_begin t g =
     (if gt_users g t \<noteq> None then Inl (LogicError ''Close must run on the control thread'')
      else Inr (g\<lparr>gt_open := False\<rparr>))"

definition gate_wait_over :: "gate \<Rightarrow> bool" where
  "gate_wait_over g \<longleftrightarrow> gt_users g = Map.empty"

section \<open>The gate among its threads\<close>

record gate_world =
  gw_gate :: gate
  gw_leases :: "nat \<Rightarrow> nat"
  gw_closing :: "nat set"
  gw_closed :: bool

definition gw_init :: gate_world where
  "gw_init = \<lparr>gw_gate = gate_init, gw_leases = (\<lambda>_. 0), gw_closing = {}, gw_closed = False\<rparr>"

text \<open>
  One rule per critical section. A lease is destroyed on the thread that entered it, as the
  header requires of its users, and a thread that waits in \<open>closeAndWait\<close> does nothing else.
\<close>

inductive gate_step :: "gate_world \<Rightarrow> gate_world \<Rightarrow> bool" where
  enter_granted: "t \<notin> gw_closing w \<Longrightarrow> gate_enter t (gw_gate w) = (True, g') \<Longrightarrow>
     gate_step w (w\<lparr>gw_gate := g', gw_leases := (gw_leases w)(t := gw_leases w t + 1)\<rparr>)"
| enter_refused: "t \<notin> gw_closing w \<Longrightarrow> gate_enter t (gw_gate w) = (False, g') \<Longrightarrow>
     gate_step w (w\<lparr>gw_gate := g'\<rparr>)"
| leave: "t \<notin> gw_closing w \<Longrightarrow> 0 < gw_leases w t \<Longrightarrow> gate_leave t (gw_gate w) = Some g' \<Longrightarrow>
     gate_step w (w\<lparr>gw_gate := g', gw_leases := (gw_leases w)(t := gw_leases w t - 1)\<rparr>)"
| close_begin: "t \<notin> gw_closing w \<Longrightarrow> gate_close_begin t (gw_gate w) = Inr g' \<Longrightarrow>
     gate_step w (w\<lparr>gw_gate := g', gw_closing := insert t (gw_closing w)\<rparr>)"
| close_refused: "t \<notin> gw_closing w \<Longrightarrow> gate_close_begin t (gw_gate w) = Inl e \<Longrightarrow> gate_step w w"
| close_return: "t \<in> gw_closing w \<Longrightarrow> gate_wait_over (gw_gate w) \<Longrightarrow>
     gate_step w (w\<lparr>gw_closing := gw_closing w - {t}, gw_closed := True\<rparr>)"

inductive gate_reachable :: "gate_world \<Rightarrow> bool" where
  start: "gate_reachable gw_init"
| step: "gate_reachable w \<Longrightarrow> gate_step w w' \<Longrightarrow> gate_reachable w'"

text \<open>The map counts the live leases; a close has shut the gate; a returned close left no lease.\<close>

definition gate_inv :: "gate_world \<Rightarrow> bool" where
  "gate_inv w \<longleftrightarrow>
     (\<forall>t. gt_users (gw_gate w) t = (if gw_leases w t = 0 then None else Some (gw_leases w t))) \<and>
     ((gw_closing w \<noteq> {} \<or> gw_closed w) \<longrightarrow> \<not> gt_open (gw_gate w)) \<and>
     (gw_closed w \<longrightarrow> gw_leases w = (\<lambda>_. 0)) \<and>
     (\<forall>t \<in> gw_closing w. gw_leases w t = 0)"

lemma gate_inv_init: "gate_inv gw_init"
  by (simp add: gate_inv_def gw_init_def gate_init_def)

lemma gate_inv_step: "gate_step w w' \<Longrightarrow> gate_inv w \<Longrightarrow> gate_inv w'"
proof (induction rule: gate_step.induct)
  case (enter_granted t w g')
  then show ?case
    by (auto simp: gate_inv_def gate_enter_def split: if_splits) (metis less_numeral_extra(3))+
next
  case (enter_refused t w g')
  then show ?case by (auto simp: gate_inv_def gate_enter_def split: if_splits)
next
  case (leave t w g')
  then show ?case by (auto simp: gate_inv_def gate_leave_def fun_eq_iff split: if_splits option.splits)
      (metis less_numeral_extra(3))+
next
  case (close_begin t w g')
  then show ?case
    by (auto simp: gate_inv_def gate_close_begin_def split: if_splits) (metis less_numeral_extra(3))+
next
  case (close_refused t w e)
  then show ?case by simp
next
  case (close_return t w)
  have "gw_leases w u = 0" for u
    using close_return unfolding gate_inv_def gate_wait_over_def by (metis option.distinct(1))
  with close_return show ?case by (auto simp: gate_inv_def)
qed

lemma gate_reachable_inv: "gate_reachable w \<Longrightarrow> gate_inv w"
  by (induction rule: gate_reachable.induct) (auto intro: gate_inv_init gate_inv_step)

inductive_cases gate_stepE: "gate_step w w'"

section \<open>Properties\<close>

text \<open>Once \<open>closeAndWait\<close> has returned, no callback holds a lease and no thread obtains one.\<close>

theorem gate_closed_safe:
  assumes "gate_reachable w" "gw_closed w"
  shows "gw_leases w t = 0 \<and> gate_enter t (gw_gate w) = (False, gw_gate w)"
  using gate_reachable_inv [OF assms(1)] assms(2) by (auto simp: gate_inv_def gate_enter_def)

lemma gate_run_closed:
  "gate_reachable (gw_init\<lparr>gw_gate := gate_init\<lparr>gt_open := False\<rparr>, gw_closed := True\<rparr>)"
proof -
  have "gate_step gw_init (gw_init\<lparr>gw_gate := gate_init\<lparr>gt_open := False\<rparr>, gw_closing := insert 0 (gw_closing gw_init)\<rparr>)"
    by (rule close_begin) (simp_all add: gw_init_def gate_close_begin_def gate_init_def)
  from step [OF start this]
  have r: "gate_reachable (gw_init\<lparr>gw_gate := gate_init\<lparr>gt_open := False\<rparr>, gw_closing := {0}\<rparr>)"
    by (simp add: gw_init_def)
  from close_return [of 0 "gw_init\<lparr>gw_gate := gate_init\<lparr>gt_open := False\<rparr>, gw_closing := {0}\<rparr>"]
  show ?thesis using step [OF r] by (simp add: gw_init_def gate_wait_over_def gate_init_def)
qed

theorem gate_closed_safe_witness:
  "gate_enter 3 (gate_init\<lparr>gt_open := False\<rparr>) = (False, gate_init\<lparr>gt_open := False\<rparr>)"
  using gate_closed_safe [OF gate_run_closed, of 3] by (simp add: gw_init_def)

text \<open>The lease destructor never misses its entry: in every reachable state, a thread with a
  live lease is found in the user map, and while a close waits, its wait ends exactly when the
  last lease is gone.\<close>

theorem gate_leave_defined:
  assumes "gate_reachable w"
  shows "(0 < gw_leases w t \<longrightarrow> gate_leave t (gw_gate w) \<noteq> None) \<and>
    (gate_wait_over (gw_gate w) \<longleftrightarrow> (\<forall>u. gw_leases w u = 0))"
  using gate_reachable_inv [OF assms]
  by (auto simp: gate_inv_def gate_leave_def gate_wait_over_def fun_eq_iff split: option.splits)

theorem gate_leave_defined_witness:
  "gate_wait_over (gw_gate gw_init) \<longleftrightarrow> (\<forall>u. gw_leases gw_init u = 0)"
  using gate_leave_defined [OF start] by blast

end
