(* ===== verification/Nv12.thy ===== *)
theory Nv12
  imports Prelude
begin

text \<open>
  \<open>src/shared/km/nv12.h\<close>: checked NV12 views, the black fill and the reference letterbox
  transform. A read or write outside a plane is undefined in C++, so the array accesses are
  \<open>load\<close> and \<open>store\<close>, whose value there is \<open>None\<close>; that neither routine ever is \<open>None\<close> is a
  theorem. The loops keep the order of the code. The dimensions of a valid view are at most
  8192, so the \<open>int\<close> and \<open>int64_t\<close> products cannot overflow and are mathematical integers.
\<close>

section \<open>Checked memory\<close>

definition load :: "'a list \<Rightarrow> nat \<Rightarrow> 'a option" where
  "load xs i = (if i < length xs then Some (xs ! i) else None)"

definition store :: "nat \<Rightarrow> 'a \<Rightarrow> 'a list \<Rightarrow> 'a list option" where
  "store i v xs = (if i < length xs then Some (xs[i := v]) else None)"

fun for_each :: "('i \<Rightarrow> 's \<Rightarrow> 's option) \<Rightarrow> 'i list \<Rightarrow> 's \<Rightarrow> 's option" where
  "for_each f [] s = Some s"
| "for_each f (i # is) s = (case f i s of None \<Rightarrow> None | Some s' \<Rightarrow> for_each f is s')"

lemma for_each_append:
  "for_each f (xs @ ys) s = (case for_each f xs s of None \<Rightarrow> None | Some s' \<Rightarrow> for_each f ys s')"
  by (induction xs arbitrary: s) (auto split: option.splits)

lemma for_each_map: "for_each f (map g xs) s = for_each (\<lambda>x. f (g x)) xs s"
  by (induction xs arbitrary: s) (auto split: option.splits)

lemma for_each_nested:
  "for_each (\<lambda>y. for_each (\<lambda>x. f (y, x)) xs) ys s = for_each f (List.product ys xs) s"
  by (induction ys arbitrary: s) (auto simp: for_each_append for_each_map split: option.splits)

lemma for_each_cong:
  "(\<And>i s. i \<in> set is \<Longrightarrow> f i s = g i s) \<Longrightarrow> for_each f is s = for_each g is s"
  by (induction "is" arbitrary: s) (auto split: option.splits)

text \<open>A loop whose steps are stores at distinct places inside the array.\<close>

lemma for_each_stores:
  assumes "\<forall>p \<in> set ps. t p < length xs" and "inj_on t (set ps)" and "distinct ps"
  shows "\<exists>xs'. for_each (\<lambda>p. store (t p) (v p)) ps xs = Some xs' \<and> length xs' = length xs \<and>
    (\<forall>p \<in> set ps. xs' ! t p = v p) \<and> (\<forall>i. i \<notin> t ` set ps \<longrightarrow> xs' ! i = xs ! i)"
  using assms
proof (induction ps arbitrary: xs)
  case (Cons p ps)
  let ?xs = "xs[t p := v p]"
  have "\<forall>q \<in> set ps. t q < length ?xs" "inj_on t (set ps)" "distinct ps" using Cons.prems by auto
  from Cons.IH [OF this] obtain xs' where xs': "for_each (\<lambda>p. store (t p) (v p)) ps ?xs = Some xs'"
      "length xs' = length xs" "\<forall>q \<in> set ps. xs' ! t q = v q" "\<forall>i. i \<notin> t ` set ps \<longrightarrow> xs' ! i = ?xs ! i"
    by auto
  have "t p \<notin> t ` set ps" using Cons.prems(2,3) by (auto simp: inj_on_def)
  moreover have "for_each (\<lambda>p. store (t p) (v p)) (p # ps) xs = for_each (\<lambda>p. store (t p) (v p)) ps ?xs"
    using Cons.prems(1) by (simp add: store_def)
  ultimately show ?case using xs' Cons.prems(1) by (intro exI [of _ xs']) auto
qed simp

section \<open>Views\<close>

text \<open>\<open>Nv12View\<close> and \<open>MutableNv12View\<close> have the same fields; a routine that writes through the
  spans of the second returns it with the new contents.\<close>

record Nv12View =
  nv_y :: bytes
  nv_uv :: bytes
  nv_strideY :: nat
  nv_strideUV :: nat
  nv_width :: int
  nv_height :: int

definition PlaneFits :: "nat \<Rightarrow> nat \<Rightarrow> int \<Rightarrow> int \<Rightarrow> bool" where
  "PlaneFits bytes stride width rows =
     (if width \<le> 0 \<or> rows \<le> 0 \<or> stride < nat width \<or> bytes < nat width then False
      else nat (rows - 1) \<le> (bytes - nat width) div stride)"

definition ValidNv12 :: "Nv12View \<Rightarrow> bool" where
  "ValidNv12 v \<longleftrightarrow>
     nv_width v > 0 \<and> nv_height v > 0 \<and> nv_width v \<le> 8192 \<and> nv_height v \<le> 8192 \<and>
     nv_width v mod 2 = 0 \<and> nv_height v mod 2 = 0 \<and>
     PlaneFits (length (nv_y v)) (nv_strideY v) (nv_width v) (nv_height v) \<and>
     PlaneFits (length (nv_uv v)) (nv_strideUV v) (nv_width v) (nv_height v div 2)"

text \<open>\<open>std::fill_n(p + start, n, value)\<close> and the loop over the rows of a plane.\<close>

definition fill_n :: "nat \<Rightarrow> nat \<Rightarrow> u8 \<Rightarrow> bytes \<Rightarrow> bytes option" where
  "fill_n start n value = for_each (\<lambda>i. store (start + i) value) [0..<n]"

definition fill_plane :: "nat \<Rightarrow> int \<Rightarrow> int \<Rightarrow> u8 \<Rightarrow> bytes \<Rightarrow> bytes option" where
  "fill_plane stride width rows value =
     for_each (\<lambda>y. fill_n (y * stride) (nat width) value) [0..<nat rows]"

definition FillBlack :: "Nv12View \<Rightarrow> (bool \<times> Nv12View) option" where
  "FillBlack d =
     (if \<not> ValidNv12 d then Some (False, d)
      else
        case fill_plane (nv_strideY d) (nv_width d) (nv_height d) 16 (nv_y d) of
          None \<Rightarrow> None
        | Some y \<Rightarrow>
            (case fill_plane (nv_strideUV d) (nv_width d) (nv_height d div 2) 128 (nv_uv d) of
               None \<Rightarrow> None
             | Some uv \<Rightarrow> Some (True, d\<lparr>nv_y := y, nv_uv := uv\<rparr>)))"

section \<open>Letterbox\<close>

text \<open>The size of the source after rotation and the rectangle it is drawn in:
  \<open>rw\<close>, \<open>rh\<close>, \<open>fw\<close>, \<open>fh\<close>, \<open>ox\<close>, \<open>oy\<close>. \<open>x & ~1\<close> of a non-negative \<open>x\<close> is \<open>x - x mod 2\<close>.\<close>

definition even_down :: "int \<Rightarrow> int" where
  "even_down x = x - x mod 2"

definition rotated_size :: "Nv12View \<Rightarrow> int \<Rightarrow> int \<times> int" where
  "rotated_size s rotation =
     (if rotation mod 180 \<noteq> 0 then (nv_height s, nv_width s) else (nv_width s, nv_height s))"

definition fit_size :: "int \<times> int \<Rightarrow> Nv12View \<Rightarrow> int \<times> int" where
  "fit_size r d =
     (let (rw, rh) = r in
      if rw * nv_height d > rh * nv_width d
      then (nv_width d, even_down (nv_width d * rh div rw))
      else (even_down (nv_height d * rw div rh), nv_height d))"

definition fit_offset :: "int \<Rightarrow> int \<Rightarrow> int" where
  "fit_offset whole fit = even_down ((whole - fit) div 2)"

definition source_pixel :: "int \<Rightarrow> int \<Rightarrow> int \<Rightarrow> int \<Rightarrow> int \<Rightarrow> int \<times> int" where
  "source_pixel rotation sw sh rx ry =
     (if rotation = 90 then (ry, sh - 1 - rx)
      else if rotation = 180 then (sw - 1 - rx, sh - 1 - ry)
      else if rotation = 270 then (sw - 1 - ry, rx)
      else (rx, ry))"

text \<open>The indices used for pixel \<open>(x, y)\<close>, component \<open>c\<close>, of the drawn rectangle.\<close>

definition src_index :: "int \<Rightarrow> nat \<Rightarrow> nat \<Rightarrow> int \<times> int \<Rightarrow> int \<times> int \<Rightarrow> int \<times> int \<Rightarrow> nat \<Rightarrow> nat \<Rightarrow> nat \<Rightarrow> nat" where
  "src_index rotation unit ss sdim rdim dim y x c =
     (let (sw, sh) = sdim; (rotatedW, rotatedH) = rdim; (w, h) = dim;
          (sx, sy) = source_pixel rotation sw sh (int x * rotatedW div w) (int y * rotatedH div h) in
      nat sy * ss + nat sx * unit + c)"

definition dst_index :: "nat \<Rightarrow> nat \<Rightarrow> int \<times> int \<Rightarrow> nat \<Rightarrow> nat \<Rightarrow> nat \<Rightarrow> nat" where
  "dst_index unit ds off y x c =
     (let (ox, oy) = off in
      (nat (oy div int unit) + y) * ds + (nat (ox div int unit) + x) * unit + c)"

text \<open>The body of the loop over the planes.\<close>

definition copy_plane ::
  "int \<Rightarrow> nat \<Rightarrow> bytes \<Rightarrow> nat \<Rightarrow> int \<times> int \<Rightarrow> int \<times> int \<Rightarrow> int \<times> int \<Rightarrow> int \<times> int \<Rightarrow> nat \<Rightarrow> bytes \<Rightarrow> bytes option" where
  "copy_plane rotation unit src ss ssize rsize fsize off ds dst =
     (let u = int unit;
          sdim = (fst ssize div u, snd ssize div u);
          dim = (fst fsize div u, snd fsize div u);
          rdim = (fst rsize div u, snd rsize div u) in
      for_each (\<lambda>y. for_each (\<lambda>x. for_each (\<lambda>c dst.
          case load src (src_index rotation unit ss sdim rdim dim y x c) of
            None \<Rightarrow> None
          | Some v \<Rightarrow> store (dst_index unit ds off y x c) v dst)
        [0..<unit]) [0..<nat (fst dim)]) [0..<nat (snd dim)] dst)"

definition Letterbox :: "Nv12View \<Rightarrow> Nv12View \<Rightarrow> int \<Rightarrow> (bool \<times> Nv12View) option" where
  "Letterbox s d rotation =
     (if \<not> ValidNv12 s \<or> \<not> ValidNv12 d \<or> rotation \<notin> {0, 90, 180, 270} then Some (False, d)
      else
        let r = rotated_size s rotation;
            f = fit_size r d in
        if fst f < 2 \<or> snd f < 2 then Some (False, d)
        else
          let off = (fit_offset (nv_width d) (fst f), fit_offset (nv_height d) (snd f));
              ssize = (nv_width s, nv_height s) in
          (case FillBlack d of
             None \<Rightarrow> None
           | Some (_, d1) \<Rightarrow>
               (case copy_plane rotation 1 (nv_y s) (nv_strideY s) ssize r f off (nv_strideY d) (nv_y d1) of
                  None \<Rightarrow> None
                | Some y \<Rightarrow>
                    (case copy_plane rotation 2 (nv_uv s) (nv_strideUV s) ssize r f off (nv_strideUV d) (nv_uv d1) of
                       None \<Rightarrow> None
                     | Some uv \<Rightarrow> Some (True, d1\<lparr>nv_y := y, nv_uv := uv\<rparr>)))))"

section \<open>Planes\<close>

text \<open>What \<open>PlaneFits\<close> promises: every byte of the visible rows is inside the plane.\<close>

lemma PlaneFits_index:
  assumes f: "PlaneFits n stride width rows" and y: "y < nat rows" and x: "x < nat width"
  shows "y * stride + x < n"
proof -
  have c: "0 < width" "0 < rows" "nat width \<le> stride" "nat width \<le> n"
      and r: "nat (rows - 1) \<le> (n - nat width) div stride"
    using f by (auto simp: PlaneFits_def split: if_splits)
  have "y \<le> (n - nat width) div stride" using y r by linarith
  then have "y * stride \<le> n - nat width" using c by (simp add: less_eq_div_iff_mult_less_eq)
  then show ?thesis using c x by linarith
qed

lemma row_index_inj:
  assumes "(y::nat) * stride + x = y' * stride + x'" "x < stride" "x' < stride"
  shows "y = y' \<and> x = x'"
proof -
  have "(y * stride + x) div stride = y" "(y' * stride + x') div stride = y'" using assms(2,3) by simp_all
  with assms(1) have "y = y'" by metis
  with assms(1) show ?thesis by simp
qed

text \<open>The result of a fill: the visible bytes hold the value, the padding is untouched.\<close>

lemma fill_plane_result:
  assumes f: "PlaneFits (length xs) stride width rows"
  shows "\<exists>xs'. fill_plane stride width rows value xs = Some xs' \<and> length xs' = length xs \<and>
    (\<forall>y < nat rows. \<forall>x < nat width. xs' ! (y * stride + x) = value)"
proof -
  let ?ps = "List.product [0..<nat rows] [0..<nat width]"
  let ?t = "\<lambda>p. fst p * stride + snd p"
  have "nat width \<le> stride" using f by (auto simp: PlaneFits_def split: if_splits)
  then have inj: "inj_on ?t (set ?ps)" by (intro inj_onI) (auto dest!: row_index_inj)
  have "\<forall>p \<in> set ?ps. ?t p < length xs" using PlaneFits_index [OF f] by auto
  from for_each_stores [OF this inj, of "\<lambda>_. value"] obtain xs' where
      xs': "for_each (\<lambda>p. store (?t p) value) ?ps xs = Some xs'" "length xs' = length xs"
      "\<forall>p \<in> set ?ps. xs' ! ?t p = value" by (auto simp: distinct_product)
  moreover have "fill_plane stride width rows value xs = for_each (\<lambda>p. store (?t p) value) ?ps xs"
    unfolding fill_plane_def fill_n_def for_each_nested [symmetric] by simp
  ultimately show ?thesis by force
qed

lemma FillBlack_result:
  assumes "ValidNv12 d"
  obtains y uv where "FillBlack d = Some (True, d\<lparr>nv_y := y, nv_uv := uv\<rparr>)"
    "length y = length (nv_y d)" "length uv = length (nv_uv d)"
    "\<And>i j. i < nat (nv_height d) \<Longrightarrow> j < nat (nv_width d) \<Longrightarrow> y ! (i * nv_strideY d + j) = 16"
    "\<And>i j. i < nat (nv_height d div 2) \<Longrightarrow> j < nat (nv_width d) \<Longrightarrow> uv ! (i * nv_strideUV d + j) = 128"
proof -
  from assms have p: "PlaneFits (length (nv_y d)) (nv_strideY d) (nv_width d) (nv_height d)"
    "PlaneFits (length (nv_uv d)) (nv_strideUV d) (nv_width d) (nv_height d div 2)"
    by (simp_all add: ValidNv12_def)
  from fill_plane_result [OF p(1), of 16] fill_plane_result [OF p(2), of 128] assms that show thesis
    by (auto simp: FillBlack_def)
qed

section \<open>The geometry of the letterbox\<close>

lemma int_div_less:
  fixes a b w :: int
  assumes "a < b * w" "0 < w"
  shows "a div w < b"
proof -
  have "a div w * w \<le> a" using div_mult_mod_eq [of a w] pos_mod_sign [of w a] assms(2) by linarith
  then have "a div w * w < b * w" using assms(1) by linarith
  then show ?thesis using assms(2) by (simp add: mult_less_cancel_right)
qed

lemma int_div_le:
  fixes a b w :: int
  shows "a \<le> b * w \<Longrightarrow> 0 < w \<Longrightarrow> a div w \<le> b"
  using int_div_less [of a "b + 1" w] by (simp add: distrib_right)

lemma scaled_in_range:
  assumes "int x < w"
  shows "0 < r \<Longrightarrow> 0 \<le> int x * r div w \<and> int x * r div w < r"
proof
  assume r: "0 < r"
  have w: "0 < w" using assms by linarith
  show "0 \<le> int x * r div w" using r w by (simp add: pos_imp_zdiv_nonneg_iff)
  have "int x * r < w * r" using assms r by simp
  then have "int x * r < r * w" by (simp add: mult.commute)
  then show "int x * r div w < r" by (rule int_div_less)  (rule w)
qed

lemma source_pixel_range:
  assumes "rotation \<in> {0, 90, 180, 270}" and "(rW, rH) = (if rotation mod 180 \<noteq> 0 then (sh, sw) else (sw, sh))"
    and "0 \<le> rx" "rx < rW" "0 \<le> ry" "ry < rH"
  shows "case source_pixel rotation sw sh rx ry of (sx, sy) \<Rightarrow> 0 \<le> sx \<and> sx < sw \<and> 0 \<le> sy \<and> sy < sh"
  using assms by (auto simp: source_pixel_def)

lemma even_down_bounds: "even_down x \<le> x" "x < even_down x + 2" "even_down x mod 2 = 0" "0 \<le> x \<Longrightarrow> 0 \<le> even_down x"
  by (auto simp: even_down_def mod_diff_left_eq zmod_le_nonneg_dividend)

lemma fit_offset_bounds:
  assumes "0 \<le> fit" "fit \<le> whole"
  shows "0 \<le> fit_offset whole fit" "fit_offset whole fit + fit \<le> whole" "fit_offset whole fit mod 2 = 0"
  using assms even_down_bounds [of "(whole - fit) div 2"] by (auto simp: fit_offset_def)

lemma fit_size_bounds:
  assumes "0 < rw" "0 < rh" "0 < nv_width d" "0 < nv_height d" "nv_width d mod 2 = 0" "nv_height d mod 2 = 0"
    and f: "fit_size (rw, rh) d = (fw, fh)"
  shows "fw \<le> nv_width d" "fh \<le> nv_height d" "fw mod 2 = 0" "fh mod 2 = 0" "fw = nv_width d \<or> fh = nv_height d"
proof -
  have a: "nv_width d * rh div rw \<le> nv_height d" if "rw * nv_height d > rh * nv_width d"
    using that assms(1) int_div_less [of "nv_width d * rh" "nv_height d" rw] by (simp add: mult.commute)
  have b: "nv_height d * rw div rh \<le> nv_width d" if "\<not> rw * nv_height d > rh * nv_width d"
  proof -
    have "nv_height d * rw \<le> nv_width d * rh" using that by (simp add: mult.commute)
    then show ?thesis using assms(2) by (rule int_div_le)
  qed
  note ed = even_down_bounds [of "nv_width d * rh div rw"] even_down_bounds [of "nv_height d * rw div rh"]
  show "fw \<le> nv_width d" "fh \<le> nv_height d" "fw mod 2 = 0" "fh mod 2 = 0" "fw = nv_width d \<or> fh = nv_height d"
    using f a b ed assms(5,6) by (auto simp: fit_size_def split: if_splits)
qed

section \<open>Copying a plane\<close>

text \<open>The setting in which \<open>Letterbox\<close> copies a plane of \<open>unit\<close> bytes per pixel.\<close>

definition copy_ok ::
  "int \<Rightarrow> nat \<Rightarrow> bytes \<Rightarrow> nat \<Rightarrow> int \<times> int \<Rightarrow> int \<times> int \<Rightarrow> int \<times> int \<Rightarrow> int \<times> int \<Rightarrow> nat \<Rightarrow> bytes \<Rightarrow> int \<times> int \<Rightarrow> bool" where
  "copy_ok rotation unit src ss ssize rsize fsize off ds dst dsize \<longleftrightarrow>
     rotation \<in> {0, 90, 180, 270} \<and> (unit = 1 \<or> unit = 2) \<and>
     (\<forall>n \<in> {fst ssize, snd ssize, fst fsize, snd fsize, fst dsize, snd dsize}. 0 < n \<and> n mod 2 = 0) \<and>
     (\<forall>n \<in> {fst off, snd off}. 0 \<le> n \<and> n mod 2 = 0) \<and>
     fst off + fst fsize \<le> fst dsize \<and> snd off + snd fsize \<le> snd dsize \<and>
     rsize = (if rotation mod 180 \<noteq> 0 then (snd ssize, fst ssize) else ssize) \<and>
     PlaneFits (length src) ss (fst ssize) (snd ssize div int unit) \<and>
     PlaneFits (length dst) ds (fst dsize) (snd dsize div int unit)"

lemma src_index_bound:
  assumes ok: "copy_ok rotation unit src ss (sw, sh) (rw, rh) (fw, fh) off ds dst dsize"
    and x: "x < nat (fw div int unit)" and y: "y < nat (fh div int unit)" and c: "c < unit"
  shows "src_index rotation unit ss (sw div int unit, sh div int unit) (rw div int unit, rh div int unit)
    (fw div int unit, fh div int unit) y x c < length src"
proof -
  let ?u = "int unit"
  obtain sx sy where p: "source_pixel rotation (sw div ?u) (sh div ?u) (int x * (rw div ?u) div (fw div ?u))
      (int y * (rh div ?u) div (fh div ?u)) = (sx, sy)" by fastforce
  have u: "unit = 1 \<or> unit = 2" and ev: "sw mod 2 = 0" "sh mod 2 = 0" "0 < sw" "0 < sh"
      and rot: "rotation \<in> {0, 90, 180, 270}"
      and r: "(rw, rh) = (if rotation mod 180 \<noteq> 0 then (sh, sw) else (sw, sh))"
      and fits: "PlaneFits (length src) ss sw (sh div ?u)"
    using ok by (auto simp: copy_ok_def)
  have rpos: "0 < rw div ?u" "0 < rh div ?u" using u ev r by (auto split: if_splits)
  have "(rw div ?u, rh div ?u) =
      (if rotation mod 180 \<noteq> 0 then (sh div ?u, sw div ?u) else (sw div ?u, sh div ?u))" using r by (auto split: if_splits)
  from source_pixel_range [OF rot this] scaled_in_range [of x "fw div ?u" "rw div ?u"]
    scaled_in_range [of y "fh div ?u" "rh div ?u"] rpos x y
  have s: "0 \<le> sx" "sx < sw div ?u" "0 \<le> sy" "sy < sh div ?u" using p by (fastforce simp: zless_nat_eq_int_zless)+
  have "nat sx * unit + c < nat sw" using u ev c s by auto
  moreover have "nat sy < nat (sh div ?u)" using s by linarith
  ultimately show ?thesis
    using PlaneFits_index [OF fits] p by (simp add: src_index_def add.assoc)
qed

lemma dst_index_bound:
  assumes ok: "copy_ok rotation unit src ss ssize rsize (fw, fh) (ox, oy) ds dst (dw, dh)"
    and x: "x < nat (fw div int unit)" and y: "y < nat (fh div int unit)" and c: "c < unit"
  shows "dst_index unit ds (ox, oy) y x c < length dst" "(nat (ox div int unit) + x) * unit + c < ds"
proof -
  have k: "unit = 1 \<or> unit = 2" "0 \<le> ox" "0 \<le> oy" "ox mod 2 = 0" "oy mod 2 = 0" "ox + fw \<le> dw" "oy + fh \<le> dh"
      "fw mod 2 = 0" "fh mod 2 = 0" "dw mod 2 = 0" "dh mod 2 = 0" "0 < dw" "0 < dh"
      and fits: "PlaneFits (length dst) ds dw (dh div int unit)"
    using ok by (auto simp: copy_ok_def)
  have col: "(nat (ox div int unit) + x) * unit + c < nat dw" using k x c by auto
  have row: "nat (oy div int unit) + y < nat (dh div int unit)" using k y by auto
  show "dst_index unit ds (ox, oy) y x c < length dst"
    using PlaneFits_index [OF fits row col] by (simp add: dst_index_def add.assoc)
  show "(nat (ox div int unit) + x) * unit + c < ds"
    using col fits by (auto simp: PlaneFits_def split: if_splits)
qed

text \<open>The result of a copy: the rectangle holds the rotated source, the other visible bytes are
  as before, and the copy stays inside both planes.\<close>

lemma copy_plane_result:
  assumes ok: "copy_ok rotation unit src ss (sw, sh) (rw, rh) (fw, fh) (ox, oy) ds dst (dw, dh)"
  shows "\<exists>dst'. copy_plane rotation unit src ss (sw, sh) (rw, rh) (fw, fh) (ox, oy) ds dst = Some dst' \<and>
    length dst' = length dst \<and>
    (\<forall>y < nat (fh div int unit). \<forall>x < nat (fw div int unit). \<forall>c < unit.
       dst' ! dst_index unit ds (ox, oy) y x c =
       src ! src_index rotation unit ss (sw div int unit, sh div int unit) (rw div int unit, rh div int unit)
         (fw div int unit, fh div int unit) y x c) \<and>
    (\<forall>i j. j < nat dw \<longrightarrow>
       (\<forall>y < nat (fh div int unit). \<forall>x < nat (fw div int unit). \<forall>c < unit.
          (i, j) \<noteq> (nat (oy div int unit) + y, (nat (ox div int unit) + x) * unit + c)) \<longrightarrow>
       dst' ! (i * ds + j) = dst ! (i * ds + j))"
proof -
  let ?w = "nat (fw div int unit)" and ?h = "nat (fh div int unit)"
  let ?ps = "List.product [0..<?h] (List.product [0..<?w] [0..<unit])"
  let ?t = "\<lambda>(y, x, c). dst_index unit ds (ox, oy) y x c"
  let ?g = "\<lambda>(y, x, c). src_index rotation unit ss (sw div int unit, sh div int unit)
      (rw div int unit, rh div int unit) (fw div int unit, fh div int unit) y x c"
  have mem: "(y, x, c) \<in> set ?ps \<longleftrightarrow> y < ?h \<and> x < ?w \<and> c < unit" for y x c by auto
  have col: "(nat (ox div int unit) + x) * unit + c < ds" if "(y, x, c) \<in> set ?ps" for y x c
    using dst_index_bound(2) [OF ok, of x y c] that mem by simp
  have t: "?t (y, x, c) = (nat (oy div int unit) + y) * ds + ((nat (ox div int unit) + x) * unit + c)" for y x c
    by (simp add: dst_index_def)
  have inj: "inj_on ?t (set ?ps)"
  proof (rule inj_onI)
    fix p q assume pq: "p \<in> set ?ps" "q \<in> set ?ps" "?t p = ?t q"
    obtain y x c y' x' c' where p: "p = (y, x, c)" and q: "q = (y', x', c')" by (metis prod.exhaust)
    note a = pq(1,2) [unfolded p q]
    from row_index_inj [OF pq(3) [unfolded p q t] col [OF a(1)] col [OF a(2)]] have "y = y'"
        and e: "(nat (ox div int unit) + x) * unit + c = (nat (ox div int unit) + x') * unit + c'" by simp_all
    with row_index_inj [OF e] a mem show "p = q" by (simp add: p q)
  qed
  have tb: "\<forall>p \<in> set ?ps. ?t p < length dst" using dst_index_bound(1) [OF ok] by auto
  have gb: "?g p < length src" if "p \<in> set ?ps" for p using that src_index_bound [OF ok] by auto
  from for_each_stores [OF tb inj, of "\<lambda>p. src ! ?g p"] obtain dst' where
      d: "for_each (\<lambda>p. store (?t p) (src ! ?g p)) ?ps dst = Some dst'" "length dst' = length dst"
      "\<forall>p \<in> set ?ps. dst' ! ?t p = src ! ?g p" "\<forall>i. i \<notin> ?t ` set ?ps \<longrightarrow> dst' ! i = dst ! i"
    by (auto simp: distinct_product)
  have "copy_plane rotation unit src ss (sw, sh) (rw, rh) (fw, fh) (ox, oy) ds dst =
      for_each (\<lambda>p d. case load src (?g p) of None \<Rightarrow> None | Some v \<Rightarrow> store (?t p) v d) ?ps dst"
    unfolding for_each_nested [symmetric] by (simp add: copy_plane_def Let_def cong: option.case_cong)
  also have "\<dots> = for_each (\<lambda>p. store (?t p) (src ! ?g p)) ?ps dst"
  proof (rule for_each_cong)
    fix p and d :: bytes assume "p \<in> set ?ps"
    then have "load src (?g p) = Some (src ! ?g p)" using gb by (simp only: load_def if_True)
    then show "(case load src (?g p) of None \<Rightarrow> None | Some v \<Rightarrow> store (?t p) v d) = store (?t p) (src ! ?g p) d"
      by simp
  qed
  also note d(1)
  finally have run: "copy_plane rotation unit src ss (sw, sh) (rw, rh) (fw, fh) (ox, oy) ds dst = Some dst'" .
  have dsd: "nat dw \<le> ds" using ok by (auto simp: copy_ok_def PlaneFits_def split: if_splits)
  have rest: "dst' ! (i * ds + j) = dst ! (i * ds + j)" if j: "j < nat dw"
    and out: "\<forall>y < ?h. \<forall>x < ?w. \<forall>c < unit.
      (i, j) \<noteq> (nat (oy div int unit) + y, (nat (ox div int unit) + x) * unit + c)" for i j
  proof -
    have "i * ds + j \<notin> ?t ` set ?ps"
    proof
      assume "i * ds + j \<in> ?t ` set ?ps"
      then obtain y x c where p: "(y, x, c) \<in> set ?ps" and e: "i * ds + j = ?t (y, x, c)" by auto
      have "j < ds" using j dsd by simp
      from row_index_inj [OF e [unfolded t] this col [OF p]] p out mem show False by blast
    qed
    with d(4) show ?thesis by blast
  qed
  show ?thesis using run d(2,3) rest by (intro exI [of _ dst']) auto
qed

text \<open>\<open>Letterbox\<close> sets up both copies with \<open>copy_ok\<close>.\<close>

lemma letterbox_copy_ok:
  assumes v: "ValidNv12 s" "ValidNv12 d" and rot: "rotation \<in> {0, 90, 180, 270}"
    and f: "fit_size (rotated_size s rotation) d = (fw, fh)" "2 \<le> fw" "2 \<le> fh"
    and len: "length y = length (nv_y d)" "length uv = length (nv_uv d)"
  defines "off \<equiv> (fit_offset (nv_width d) fw, fit_offset (nv_height d) fh)"
  shows "copy_ok rotation 1 (nv_y s) (nv_strideY s) (nv_width s, nv_height s) (rotated_size s rotation) (fw, fh)
      off (nv_strideY d) y (nv_width d, nv_height d)"
    "copy_ok rotation 2 (nv_uv s) (nv_strideUV s) (nv_width s, nv_height s) (rotated_size s rotation) (fw, fh)
      off (nv_strideUV d) uv (nv_width d, nv_height d)"
proof -
  obtain rw rh where r: "rotated_size s rotation = (rw, rh)" by fastforce
  have "0 < rw" "0 < rh" using r v(1) by (auto simp: rotated_size_def ValidNv12_def split: if_splits)
  from fit_size_bounds [OF this, of d fw fh] v(2) f r have
    b: "fw \<le> nv_width d" "fh \<le> nv_height d" "fw mod 2 = 0" "fh mod 2 = 0" by (auto simp: ValidNv12_def)
  note o1 = fit_offset_bounds [of fw "nv_width d"] and o2 = fit_offset_bounds [of fh "nv_height d"]
  show "copy_ok rotation 1 (nv_y s) (nv_strideY s) (nv_width s, nv_height s) (rotated_size s rotation) (fw, fh)
      off (nv_strideY d) y (nv_width d, nv_height d)"
    "copy_ok rotation 2 (nv_uv s) (nv_strideUV s) (nv_width s, nv_height s) (rotated_size s rotation) (fw, fh)
      off (nv_strideUV d) uv (nv_width d, nv_height d)"
    using v rot f(2,3) b o1 o2 len by (auto simp: copy_ok_def off_def rotated_size_def ValidNv12_def)
qed

text \<open>The whole transform. \<open>in_rect\<close> and \<open>drawn\<close> say in which pixels of a plane the source appears
  and which source byte each of them shows.\<close>

definition in_rect :: "nat \<Rightarrow> int \<times> int \<Rightarrow> int \<times> int \<Rightarrow> nat \<Rightarrow> nat \<Rightarrow> bool" where
  "in_rect unit off fsize i j \<longleftrightarrow>
     nat (snd off div int unit) \<le> i \<and> i < nat (snd off div int unit) + nat (snd fsize div int unit) \<and>
     nat (fst off div int unit) \<le> j \<and> j < nat (fst off div int unit) + nat (fst fsize div int unit)"

definition drawn :: "int \<Rightarrow> nat \<Rightarrow> nat \<Rightarrow> Nv12View \<Rightarrow> int \<times> int \<Rightarrow> int \<times> int \<Rightarrow> nat \<Rightarrow> nat \<Rightarrow> nat \<Rightarrow> nat" where
  "drawn rotation unit ss s off fsize i j c =
     (let u = int unit; r = rotated_size s rotation in
      src_index rotation unit ss (nv_width s div u, nv_height s div u) (fst r div u, snd r div u)
        (fst fsize div u, snd fsize div u) (i - nat (snd off div u)) (j - nat (fst off div u)) c)"

lemma copy_plane_pixels:
  assumes ok: "copy_ok rotation unit src ss (nv_width s, nv_height s) (rotated_size s rotation) fsize off ds dst dsize"
  obtains dst' where
    "copy_plane rotation unit src ss (nv_width s, nv_height s) (rotated_size s rotation) fsize off ds dst = Some dst'"
    "length dst' = length dst"
    "\<And>i j c. i < nat (snd dsize div int unit) \<Longrightarrow> j < nat (fst dsize div int unit) \<Longrightarrow> c < unit \<Longrightarrow>
       dst' ! (i * ds + j * unit + c) =
       (if in_rect unit off fsize i j then src ! drawn rotation unit ss s off fsize i j c
        else dst ! (i * ds + j * unit + c))"
proof -
  obtain rw rh fw fh ox oy dw dh where r: "rotated_size s rotation = (rw, rh)" "fsize = (fw, fh)"
    "off = (ox, oy)" "dsize = (dw, dh)" by (metis surj_pair)
  let ?u = "int unit"
  have u: "unit = 1 \<or> unit = 2" and ev: "dw mod 2 = 0" "0 < dw" using ok r by (auto simp: copy_ok_def)
  from copy_plane_result [OF ok [unfolded r]] obtain dst' where
    run: "copy_plane rotation unit src ss (nv_width s, nv_height s) (rw, rh) (fw, fh) (ox, oy) ds dst = Some dst'"
    and len: "length dst' = length dst"
    and inside: "\<And>y x c. y < nat (fh div ?u) \<Longrightarrow> x < nat (fw div ?u) \<Longrightarrow> c < unit \<Longrightarrow>
       dst' ! dst_index unit ds (ox, oy) y x c =
       src ! src_index rotation unit ss (nv_width s div ?u, nv_height s div ?u) (rw div ?u, rh div ?u)
         (fw div ?u, fh div ?u) y x c"
    and outside: "\<And>i j. j < nat dw \<Longrightarrow>
       \<forall>y < nat (fh div ?u). \<forall>x < nat (fw div ?u). \<forall>c < unit.
          (i, j) \<noteq> (nat (oy div ?u) + y, (nat (ox div ?u) + x) * unit + c) \<Longrightarrow>
       dst' ! (i * ds + j) = dst ! (i * ds + j)" by blast
  have "dst' ! (i * ds + j * unit + c) =
       (if in_rect unit off fsize i j then src ! drawn rotation unit ss s off fsize i j c
        else dst ! (i * ds + j * unit + c))"
    if "i < nat (snd dsize div ?u)" and j: "j < nat (fst dsize div ?u)" and c: "c < unit" for i j c
  proof (cases "in_rect unit off fsize i j")
    case True
    then have "i = nat (oy div ?u) + (i - nat (oy div ?u))" "j = nat (ox div ?u) + (j - nat (ox div ?u))"
        and lt: "i - nat (oy div ?u) < nat (fh div ?u)" "j - nat (ox div ?u) < nat (fw div ?u)"
      by (auto simp: in_rect_def r)
    then have "i * ds + j * unit + c = dst_index unit ds (ox, oy) (i - nat (oy div ?u)) (j - nat (ox div ?u)) c"
      by (simp add: dst_index_def)
    with inside [OF lt c] True show ?thesis by (simp add: drawn_def r Let_def)
  next
    case False
    have "j * unit + c < nat dw" using u ev j c r by auto
    moreover have "\<forall>y < nat (fh div ?u). \<forall>x < nat (fw div ?u). \<forall>c' < unit.
        (i, j * unit + c) \<noteq> (nat (oy div ?u) + y, (nat (ox div ?u) + x) * unit + c')"
      using False c row_index_inj [of j unit c] by (fastforce simp: in_rect_def r)
    ultimately show ?thesis using outside [of "j * unit + c" i] False by (simp add: add.assoc)
  qed
  with run len that r show thesis by simp
qed

lemma letterbox_result:
  assumes v: "ValidNv12 s" "ValidNv12 d" and rot: "rotation \<in> {0, 90, 180, 270}"
    and f: "fit_size (rotated_size s rotation) d = fsize" "2 \<le> fst fsize" "2 \<le> snd fsize"
    and off: "off = (fit_offset (nv_width d) (fst fsize), fit_offset (nv_height d) (snd fsize))"
  obtains d' where "Letterbox s d rotation = Some (True, d')"
    "\<And>i j. i < nat (nv_height d) \<Longrightarrow> j < nat (nv_width d) \<Longrightarrow> nv_y d' ! (i * nv_strideY d + j) =
       (if in_rect 1 off fsize i j then nv_y s ! drawn rotation 1 (nv_strideY s) s off fsize i j 0 else 16)"
    "\<And>i j c. i < nat (nv_height d div 2) \<Longrightarrow> j < nat (nv_width d div 2) \<Longrightarrow> c < 2 \<Longrightarrow>
       nv_uv d' ! (i * nv_strideUV d + j * 2 + c) =
       (if in_rect 2 off fsize i j then nv_uv s ! drawn rotation 2 (nv_strideUV s) s off fsize i j c else 128)"
    "length (nv_y d') = length (nv_y d)" "length (nv_uv d') = length (nv_uv d)"
proof -
  obtain fw fh where fs: "fsize = (fw, fh)" by fastforce
  from FillBlack_result [OF v(2)] obtain y uv where b: "FillBlack d = Some (True, d\<lparr>nv_y := y, nv_uv := uv\<rparr>)"
    "length y = length (nv_y d)" "length uv = length (nv_uv d)"
    and blk: "\<And>i j. i < nat (nv_height d) \<Longrightarrow> j < nat (nv_width d) \<Longrightarrow> y ! (i * nv_strideY d + j) = 16"
    and buv: "\<And>i j. i < nat (nv_height d div 2) \<Longrightarrow> j < nat (nv_width d) \<Longrightarrow> uv ! (i * nv_strideUV d + j) = 128"
    by metis
  from letterbox_copy_ok [OF v rot f(1) [unfolded fs] _ _ b(2,3)] f(2,3) fs off
  have ok: "copy_ok rotation 1 (nv_y s) (nv_strideY s) (nv_width s, nv_height s) (rotated_size s rotation) fsize
      off (nv_strideY d) y (nv_width d, nv_height d)"
    "copy_ok rotation 2 (nv_uv s) (nv_strideUV s) (nv_width s, nv_height s) (rotated_size s rotation) fsize
      off (nv_strideUV d) uv (nv_width d, nv_height d)" by simp_all
  from copy_plane_pixels [OF ok(1)] obtain y' where
    y': "copy_plane rotation 1 (nv_y s) (nv_strideY s) (nv_width s, nv_height s) (rotated_size s rotation) fsize off
      (nv_strideY d) y = Some y'" "length y' = length y"
      "\<And>i j. i < nat (nv_height d) \<Longrightarrow> j < nat (nv_width d) \<Longrightarrow> y' ! (i * nv_strideY d + j) =
       (if in_rect 1 off fsize i j then nv_y s ! drawn rotation 1 (nv_strideY s) s off fsize i j 0
        else y ! (i * nv_strideY d + j))" by (metis (no_types, lifting) One_nat_def add.right_neutral div_by_1
          fst_conv lessI mult.right_neutral of_nat_1 snd_conv)
  from copy_plane_pixels [OF ok(2)] obtain uv' where
    uv': "copy_plane rotation 2 (nv_uv s) (nv_strideUV s) (nv_width s, nv_height s) (rotated_size s rotation) fsize off
      (nv_strideUV d) uv = Some uv'" "length uv' = length uv"
      "\<And>i j c. i < nat (nv_height d div 2) \<Longrightarrow> j < nat (nv_width d div 2) \<Longrightarrow> c < 2 \<Longrightarrow>
       uv' ! (i * nv_strideUV d + j * 2 + c) =
       (if in_rect 2 off fsize i j then nv_uv s ! drawn rotation 2 (nv_strideUV s) s off fsize i j c
        else uv ! (i * nv_strideUV d + j * 2 + c))" by (metis (no_types, lifting) fst_conv of_nat_numeral snd_conv)
  have black: "uv ! (i * nv_strideUV d + j * 2 + c) = 128"
    if "i < nat (nv_height d div 2)" "j < nat (nv_width d div 2)" "c < 2" for i j c
    using that buv [of i "j * 2 + c"] v(2) by (simp add: ValidNv12_def add.assoc)
  have "Letterbox s d rotation = Some (True, d\<lparr>nv_y := y', nv_uv := uv'\<rparr>)"
    using v rot f(2,3) b(1) y'(1) uv'(1) by (simp add: Letterbox_def Let_def f(1) off)
  then show thesis using that [of "d\<lparr>nv_y := y', nv_uv := uv'\<rparr>"] y'(2,3) uv'(2,3) b(2,3) blk black by simp
qed

section \<open>Properties\<close>

text \<open>No input makes \<open>Letterbox\<close> read or write outside a plane. It succeeds exactly for valid
  views, a right-angle rotation and a fitted rectangle of at least 2 by 2; the planes keep their
  sizes, and a refused call leaves the destination as it was.\<close>

theorem Letterbox_in_bounds:
  "\<exists>ok d'. Letterbox s d rotation = Some (ok, d') \<and>
     ok = (ValidNv12 s \<and> ValidNv12 d \<and> rotation \<in> {0, 90, 180, 270} \<and>
           2 \<le> fst (fit_size (rotated_size s rotation) d) \<and> 2 \<le> snd (fit_size (rotated_size s rotation) d)) \<and>
     length (nv_y d') = length (nv_y d) \<and> length (nv_uv d') = length (nv_uv d) \<and>
     (ok \<or> d' = d)"
proof (cases "ValidNv12 s \<and> ValidNv12 d \<and> rotation \<in> {0, 90, 180, 270} \<and>
    2 \<le> fst (fit_size (rotated_size s rotation) d) \<and> 2 \<le> snd (fit_size (rotated_size s rotation) d)")
  case True
  with letterbox_result [of s d rotation, OF _ _ _ refl _ _ refl] show ?thesis by metis
next
  case False
  then have "Letterbox s d rotation = Some (False, d)"
    unfolding Letterbox_def Let_def not_less [symmetric] by (smt (verit, best))
  with False show ?thesis by simp
qed

text \<open>What a successful \<open>Letterbox\<close> draws. Every visible luma byte inside the centred
  rectangle is the rotated, nearest-neighbour scaled source byte and every other one is 16; every
  visible chroma byte is the source's or 128.\<close>

theorem Letterbox_pixels:
  assumes "Letterbox s d rotation = Some (True, d')"
    and "fsize = fit_size (rotated_size s rotation) d"
    and "off = (fit_offset (nv_width d) (fst fsize), fit_offset (nv_height d) (snd fsize))"
  shows "(\<forall>i < nat (nv_height d). \<forall>j < nat (nv_width d).
       nv_y d' ! (i * nv_strideY d + j) =
         (if in_rect 1 off fsize i j then nv_y s ! drawn rotation 1 (nv_strideY s) s off fsize i j 0 else 16)) \<and>
    (\<forall>i < nat (nv_height d div 2). \<forall>j < nat (nv_width d div 2). \<forall>c < 2.
       nv_uv d' ! (i * nv_strideUV d + j * 2 + c) =
         (if in_rect 2 off fsize i j then nv_uv s ! drawn rotation 2 (nv_strideUV s) s off fsize i j c else 128))"
proof -
  have ok: "ValidNv12 s" "ValidNv12 d" "rotation \<in> {0, 90, 180, 270}" "2 \<le> fst fsize" "2 \<le> snd fsize"
    using assms(1,2) unfolding Letterbox_def Let_def by (auto split: if_splits)
  obtain e where e: "Letterbox s d rotation = Some (True, e)"
    "\<And>i j. i < nat (nv_height d) \<Longrightarrow> j < nat (nv_width d) \<Longrightarrow> nv_y e ! (i * nv_strideY d + j) =
       (if in_rect 1 off fsize i j then nv_y s ! drawn rotation 1 (nv_strideY s) s off fsize i j 0 else 16)"
    "\<And>i j c. i < nat (nv_height d div 2) \<Longrightarrow> j < nat (nv_width d div 2) \<Longrightarrow> c < 2 \<Longrightarrow>
       nv_uv e ! (i * nv_strideUV d + j * 2 + c) =
       (if in_rect 2 off fsize i j then nv_uv s ! drawn rotation 2 (nv_strideUV s) s off fsize i j c else 128)"
    by (rule letterbox_result [OF ok(1-3) assms(2) [symmetric] ok(4,5) assms(3)]) blast
  have "e = d'" using e(1) assms(1) by simp
  with e(2,3) show ?thesis by blast
qed

definition nv12_small :: Nv12View where
  "nv12_small = \<lparr>nv_y = [1, 2, 3, 4], nv_uv = [5, 6], nv_strideY = 2, nv_strideUV = 2, nv_width = 2, nv_height = 2\<rparr>"

definition nv12_wide :: Nv12View where
  "nv12_wide = \<lparr>nv_y = replicate 12 0, nv_uv = replicate 6 0, nv_strideY = 6, nv_strideUV = 6, nv_width = 6, nv_height = 2\<rparr>"

definition nv12_drawn :: Nv12View where
  "nv12_drawn = nv12_wide\<lparr>nv_y := [16, 16, 3, 1, 16, 16, 16, 16, 4, 2, 16, 16], nv_uv := [128, 128, 5, 6, 128, 128]\<rparr>"

theorem Letterbox_pixels_witness:
  "nv_y nv12_drawn ! (1 * nv_strideY nv12_wide + 3) =
     (if in_rect 1 (2, 0) (2, 2) 1 3 then nv_y nv12_small ! drawn 90 1 2 nv12_small (2, 0) (2, 2) 1 3 0 else 16) \<and>
   nv_y nv12_drawn ! (1 * nv_strideY nv12_wide + 3) = 2"
proof -
  have r: "Letterbox nv12_small nv12_wide 90 = Some (True, nv12_drawn)" by code_simp
  have f: "(2, 2) = fit_size (rotated_size nv12_small 90) nv12_wide" by code_simp
  have o: "(2, 0) = (fit_offset (nv_width nv12_wide) (fst (2, 2)), fit_offset (nv_height nv12_wide) (snd (2, 2)))"
    by code_simp
  have ij: "1 < nat (nv_height nv12_wide)" "3 < nat (nv_width nv12_wide)" by (simp_all add: nv12_wide_def)
  have two: "nv_y nv12_drawn ! (1 * nv_strideY nv12_wide + 3) = 2" and st: "nv_strideY nv12_small = 2"
    by (simp_all add: nv12_wide_def nv12_small_def nv12_drawn_def)
  from Letterbox_pixels [OF r f o, THEN conjunct1, rule_format, OF ij, unfolded st] two
  show ?thesis by (rule conjI)
qed

end
