(* ===== verification/RtpWire.thy ===== *)
theory RtpWire
  imports Prelude
begin

text \<open>
  \<open>src/shared/km/rtp_wire.h\<close>: the RTP and RTCP wire parsers. A packet parser returns
  \<open>None\<close> where the code returns an empty optional or clears its output and returns false.
  Datagrams are at most 65535 bytes, so offsets are natural numbers.
\<close>

section \<open>Definitions\<close>

definition sequenceDelta :: "u16 \<Rightarrow> u16 \<Rightarrow> int" where
  "sequenceDelta a b = (let d = a - b in if unat d < 32768 then int (unat d) else int (unat d) - 65536)"

record RtpPacket =
  rtp_payload :: bytes
  rtp_timestamp :: u32
  rtp_ssrc :: u32
  rtp_sequence :: u16
  rtp_payloadType :: u8
  rtp_marker :: bool

definition skip_extension :: "bytes \<Rightarrow> nat \<Rightarrow> nat option" where
  "skip_extension b offset =
     (if b ! 0 AND 16 \<noteq> 0 then
        if length b - offset < 4 then None
        else let len = 4 + unat (be16 b (offset + 2)) * 4 in
          if len > length b - offset then None else Some (offset + len)
      else Some offset)"

definition strip_padding :: "bytes \<Rightarrow> nat \<Rightarrow> nat option" where
  "strip_padding b offset =
     (if b ! 0 AND 32 \<noteq> 0 then
        let padding = unat (last b) in
        if padding = 0 \<or> padding > length b - offset then None else Some (length b - padding)
      else Some (length b))"

definition parseRtp :: "bytes \<Rightarrow> RtpPacket option" where
  "parseRtp b =
     (if length b < 12 \<or> length b > 65535 \<or> drop_bit 6 (b ! 0) \<noteq> 2 then None
      else
        let offset0 = 12 + unat (b ! 0 AND 15) * 4 in
        if offset0 > length b then None
        else
          case skip_extension b offset0 of
            None \<Rightarrow> None
          | Some offset \<Rightarrow>
              (case strip_padding b offset of
                 None \<Rightarrow> None
               | Some e \<Rightarrow>
                   if e \<le> offset then None
                   else Some \<lparr>rtp_payload = subspan b offset (e - offset), rtp_timestamp = be32 b 4,
                     rtp_ssrc = be32 b 8, rtp_sequence = be16 b 2,
                     rtp_payloadType = b ! 1 AND 127, rtp_marker = (b ! 1 AND 128 \<noteq> 0)\<rparr>))"

record RtcpPacket =
  rtcp_body :: bytes
  rtcp_type :: u8
  rtcp_count :: u8

definition rtcp_minimum :: "u8 \<Rightarrow> u8 \<Rightarrow> nat" where
  "rtcp_minimum type count =
     (if type = 200 then 28 + unat count * 24
      else if type = 201 then 8 + unat count * 24
      else if type = 203 then 4 + unat count * 4
      else if type = 204 \<or> type = 205 \<or> type = 206 then 12
      else if type = 207 then 8
      else 4)"

text \<open>The length of a packet's content once padding is removed; only the last member may be padded.\<close>

definition rtcp_content :: "bytes \<Rightarrow> nat \<Rightarrow> nat \<Rightarrow> nat option" where
  "rtcp_content b offset len =
     (if b ! offset AND 32 \<noteq> 0 then
        if offset + len \<noteq> length b then None
        else let padding = unat (b ! (offset + len - 1)) in
          if padding = 0 \<or> padding > len - 4 \<or> padding mod 4 \<noteq> 0 then None
          else Some (len - padding)
      else Some len)"

function parse_rtcp_loop :: "bytes \<Rightarrow> nat \<Rightarrow> RtcpPacket list \<Rightarrow> RtcpPacket list option" where
  "parse_rtcp_loop b offset packets =
     (if offset < length b then
        if length b - offset < 4 \<or> drop_bit 6 (b ! offset) \<noteq> 2 \<or> length packets \<ge> 64 then None
        else
          let len = (unat (be16 b (offset + 2)) + 1) * 4 in
          if len > length b - offset then None
          else
            case rtcp_content b offset len of
              None \<Rightarrow> None
            | Some content \<Rightarrow>
                let type = b ! (offset + 1); count = b ! offset AND 31 in
                if type < 192 \<or> type > 223 then None
                else if content < rtcp_minimum type count then None
                else parse_rtcp_loop b (offset + len)
                  (packets @ [\<lparr>rtcp_body = subspan b offset content, rtcp_type = type, rtcp_count = count\<rparr>])
      else Some packets)"
  by pat_completeness auto
termination
  by (relation "measure (\<lambda>(b, offset, packets). length b - offset)") auto

declare parse_rtcp_loop.simps [simp del]

definition parseRtcp :: "bytes \<Rightarrow> RtcpPacket list option" where
  "parseRtcp b =
     (if b = [] \<or> length b > 65535 \<or> length b mod 4 \<noteq> 0 then None else parse_rtcp_loop b 0 [])"

section \<open>Sequence numbers\<close>

lemma sequenceDelta_wrap: "sequenceDelta a b = wrap_delta a b"
  by (simp add: sequenceDelta_def wrap_delta_def Let_def unat_less_uint)

lemma sequenceDelta_range: "- 32768 \<le> sequenceDelta a b \<and> sequenceDelta a b < 32768"
  using wrap_delta_lower [of a b] wrap_delta_upper [of a b] by (simp add: sequenceDelta_wrap)

lemma sequenceDelta_add: "b + of_int (sequenceDelta a b) = a"
  by (simp add: sequenceDelta_wrap wrap_delta_add)

section \<open>RTP: what a parse returns\<close>

lemma skip_extension_bounds:
  "skip_extension b o0 = Some o1 \<Longrightarrow> o0 \<le> length b \<Longrightarrow> o0 \<le> o1 \<and> o1 \<le> length b"
  by (auto simp: skip_extension_def Let_def split: if_splits)

lemma strip_padding_bounds: "strip_padding b o1 = Some e \<Longrightarrow> e \<le> length b"
  by (auto simp: strip_padding_def Let_def split: if_splits)

lemma parse_rtp_bounds:
  assumes "parseRtp b = Some p"
  shows "\<exists>offset len. 12 \<le> offset \<and> 0 < len \<and> offset + len \<le> length b \<and> length b \<le> 65535 \<and>
    rtp_payload p = subspan b offset len \<and> length (rtp_payload p) = len \<and>
    rtp_sequence p = be16 b 2 \<and> rtp_timestamp p = be32 b 4 \<and> rtp_ssrc p = be32 b 8 \<and>
    rtp_payloadType p = b ! 1 AND 127 \<and> rtp_marker p = (b ! 1 AND 128 \<noteq> 0)"
proof -
  let ?o0 = "12 + unat (b ! 0 AND 15) * 4"
  from assms obtain offset e where o: "?o0 \<le> length b" "skip_extension b ?o0 = Some offset"
      "strip_padding b offset = Some e" "\<not> e \<le> offset" "length b \<le> 65535"
    and p: "p = \<lparr>rtp_payload = subspan b offset (e - offset), rtp_timestamp = be32 b 4,
      rtp_ssrc = be32 b 8, rtp_sequence = be16 b 2,
      rtp_payloadType = b ! 1 AND 127, rtp_marker = (b ! 1 AND 128 \<noteq> 0)\<rparr>"
    by (auto simp: parseRtp_def Let_def split: if_splits option.splits)
  note sb = skip_extension_bounds [OF o(2,1)] and pb = strip_padding_bounds [OF o(3)]
  show ?thesis
    by (rule exI [of _ offset], rule exI [of _ "e - offset"]) (use o sb pb in \<open>simp add: p\<close>)
qed

lemma parse_rtp_payload_nonempty: "parseRtp b = Some p \<Longrightarrow> rtp_payload p \<noteq> []"
  using parse_rtp_bounds [of b p] by fastforce

lemma parse_rtp_payload_length: "parseRtp b = Some p \<Longrightarrow> length (rtp_payload p) \<le> 65523"
  using parse_rtp_bounds [of b p] by fastforce

section \<open>RTP: what a sender writes\<close>

text \<open>
  The RTP packet of RFC 3550 with its optional parts: contributing sources, one header
  extension, padding (0 for none).
\<close>

record rtp_frame = RtpPacket +
  fr_csrc :: "u32 list"
  fr_ext :: "(u16 \<times> u32 list) option"
  fr_pad :: nat

definition put_words :: "u32 list \<Rightarrow> bytes" where
  "put_words ws = concat (map put_be32 ws)"

definition rtp_byte0 :: "rtp_frame \<Rightarrow> u8" where
  "rtp_byte0 f = 128 OR (if fr_pad f = 0 then 0 else 32) OR (if fr_ext f = None then 0 else 16)
     OR of_nat (length (fr_csrc f))"

definition rtp_ext_bytes :: "rtp_frame \<Rightarrow> bytes" where
  "rtp_ext_bytes f = (case fr_ext f of None \<Rightarrow> []
     | Some (profile, ws) \<Rightarrow> put_be16 profile @ put_be16 (of_nat (length ws)) @ put_words ws)"

definition rtp_pad_bytes :: "nat \<Rightarrow> bytes" where
  "rtp_pad_bytes n = (if n = 0 then [] else replicate (n - 1) 0 @ [of_nat n])"

definition encode_rtp :: "rtp_frame \<Rightarrow> bytes" where
  "encode_rtp f =
     [rtp_byte0 f, (if rtp_marker f then 128 else 0) OR rtp_payloadType f] @ put_be16 (rtp_sequence f) @
     put_be32 (rtp_timestamp f) @ put_be32 (rtp_ssrc f) @ put_words (fr_csrc f) @ rtp_ext_bytes f @
     rtp_payload f @ rtp_pad_bytes (fr_pad f)"

definition wf_rtp_frame :: "rtp_frame \<Rightarrow> bool" where
  "wf_rtp_frame f \<longleftrightarrow> rtp_payload f \<noteq> [] \<and> rtp_payloadType f < 128 \<and> length (fr_csrc f) < 16 \<and>
     fr_pad f < 256 \<and> length (encode_rtp f) \<le> 65535"

lemma length_put_words [simp]: "length (put_words ws) = 4 * length ws"
  by (induction ws) (simp_all add: put_words_def)

lemma length_rtp_pad_bytes [simp]: "length (rtp_pad_bytes n) = n"
  by (simp add: rtp_pad_bytes_def)

lemma csrc_count_cases: "n < 16 \<Longrightarrow> n \<in> {0, 1, 2, 3, 4, 5, 6, 7, 8, 9, 10, 11, 12, 13, 14, 15 :: nat}"
  by (simp, presburger)

lemma rtp_byte0_bits:
  assumes "length (fr_csrc f) < 16"
  shows "drop_bit 6 (rtp_byte0 f) = 2 \<and> unat (rtp_byte0 f AND 15) = length (fr_csrc f) \<and>
    (rtp_byte0 f AND 16 \<noteq> 0 \<longleftrightarrow> fr_ext f \<noteq> None) \<and> (rtp_byte0 f AND 32 \<noteq> 0 \<longleftrightarrow> fr_pad f \<noteq> 0)"
  using csrc_count_cases [OF assms] by (auto simp: rtp_byte0_def)

lemma marker_bits:
  fixes pt :: u8
  assumes "pt < 128"
  shows "((if m then 128 else 0) OR pt) AND 127 = pt \<and> ((((if m then 128 else 0) OR pt) AND 128 \<noteq> 0) = m)"
  using assms by (cases m) (simp_all add: byte_and_127 byte_and_128 bit.conj_disj_distrib2)

text \<open>The pieces of the encoded packet, seen from the offsets the parser uses.\<close>

lemma encode_rtp_layout:
  fixes f :: rtp_frame
  defines "b \<equiv> encode_rtp f" and "o0 \<equiv> 12 + length (fr_csrc f) * 4"
  shows "b ! 0 = rtp_byte0 f" "b ! 1 = (if rtp_marker f then 128 else 0) OR rtp_payloadType f"
    "be16 b 2 = rtp_sequence f" "be32 b 4 = rtp_timestamp f" "be32 b 8 = rtp_ssrc f"
    "drop o0 b = rtp_ext_bytes f @ rtp_payload f @ rtp_pad_bytes (fr_pad f)"
    "length b = o0 + length (rtp_ext_bytes f) + length (rtp_payload f) + fr_pad f"
proof -
  show "b ! 0 = rtp_byte0 f" "b ! 1 = (if rtp_marker f then 128 else 0) OR rtp_payloadType f"
    by (simp_all add: b_def encode_rtp_def)
  show "be16 b 2 = rtp_sequence f"
    by (rule be16_at) (simp add: b_def encode_rtp_def)
  show "be32 b 4 = rtp_timestamp f"
    by (rule be32_at) (simp add: b_def encode_rtp_def)
  show "be32 b 8 = rtp_ssrc f"
    by (rule be32_at) (simp add: b_def encode_rtp_def)
  have "b = ([rtp_byte0 f, (if rtp_marker f then 128 else 0) OR rtp_payloadType f] @ put_be16 (rtp_sequence f) @
      put_be32 (rtp_timestamp f) @ put_be32 (rtp_ssrc f) @ put_words (fr_csrc f)) @
      (rtp_ext_bytes f @ rtp_payload f @ rtp_pad_bytes (fr_pad f))" (is "b = ?h @ ?t")
    by (simp add: b_def encode_rtp_def)
  moreover have "length ?h = o0" by (simp add: o0_def)
  ultimately show "drop o0 b = rtp_ext_bytes f @ rtp_payload f @ rtp_pad_bytes (fr_pad f)"
    by (metis append_eq_conv_conj)
  show "length b = o0 + length (rtp_ext_bytes f) + length (rtp_payload f) + fr_pad f"
    by (simp add: b_def o0_def encode_rtp_def)
qed

lemma skip_extension_encode:
  assumes "wf_rtp_frame f"
  shows "skip_extension (encode_rtp f) (12 + length (fr_csrc f) * 4) =
    Some (12 + length (fr_csrc f) * 4 + length (rtp_ext_bytes f))"
proof (cases "fr_ext f")
  case None
  have "length (fr_csrc f) < 16" using assms by (simp add: wf_rtp_frame_def)
  with None show ?thesis
    by (simp add: skip_extension_def encode_rtp_layout rtp_byte0_bits rtp_ext_bytes_def)
next
  case (Some pw)
  obtain profile ws where pw: "pw = (profile, ws)" by force
  let ?o0 = "12 + length (fr_csrc f) * 4"
  have n: "length (fr_csrc f) < 16" using assms by (simp add: wf_rtp_frame_def)
  have "drop (?o0 + 2) (encode_rtp f) = put_be16 (of_nat (length ws)) @ put_words ws @ rtp_payload f @ rtp_pad_bytes (fr_pad f)"
    by (subst drop_plus) (simp only: encode_rtp_layout, simp add: Some pw rtp_ext_bytes_def)
  then have len: "be16 (encode_rtp f) (?o0 + 2) = of_nat (length ws)" by (rule be16_at)
  have "length (encode_rtp f) \<le> 65535" using assms by (simp add: wf_rtp_frame_def)
  then have "unat (of_nat (length ws) :: u16) = length ws"
    using encode_rtp_layout(7) [of f] by (simp add: Some pw rtp_ext_bytes_def unat_of_nat take_bit_eq_mod)
  then show ?thesis
    using n by (simp add: skip_extension_def len [simplified] encode_rtp_layout rtp_byte0_bits Some pw rtp_ext_bytes_def Let_def)
qed

lemma strip_padding_encode:
  assumes "wf_rtp_frame f" "offset \<le> length (encode_rtp f) - fr_pad f"
  shows "strip_padding (encode_rtp f) offset = Some (length (encode_rtp f) - fr_pad f)"
proof (cases "fr_pad f = 0")
  case True
  then show ?thesis using assms by (simp add: strip_padding_def encode_rtp_layout rtp_byte0_bits wf_rtp_frame_def)
next
  case False
  then have "last (encode_rtp f) = of_nat (fr_pad f)" by (simp add: encode_rtp_def rtp_pad_bytes_def)
  moreover have "unat (of_nat (fr_pad f) :: u8) = fr_pad f"
    using assms(1) by (simp add: wf_rtp_frame_def unat_of_nat take_bit_eq_mod)
  moreover have "fr_pad f \<le> length (encode_rtp f)" using encode_rtp_layout(7) [of f] by simp
  ultimately show ?thesis
    using False assms by (simp add: strip_padding_def encode_rtp_layout(1) rtp_byte0_bits wf_rtp_frame_def Let_def)
qed

lemma parse_encode_rtp:
  assumes "wf_rtp_frame f"
  shows "parseRtp (encode_rtp f) = Some (RtpPacket.truncate f)"
proof -
  let ?b = "encode_rtp f" and ?o0 = "12 + length (fr_csrc f) * 4"
  let ?o1 = "?o0 + length (rtp_ext_bytes f)"
  from assms have n: "length (fr_csrc f) < 16" and ne: "rtp_payload f \<noteq> []" and pt: "rtp_payloadType f < 128"
    and l: "length ?b \<le> 65535" by (simp_all add: wf_rtp_frame_def)
  note bits = rtp_byte0_bits [OF n] and lay = encode_rtp_layout [of f]
  have pl: "length ?b - fr_pad f = ?o1 + length (rtp_payload f)" using lay(7) by simp
  have sp: "strip_padding ?b ?o1 = Some (?o1 + length (rtp_payload f))"
    unfolding pl [symmetric] by (rule strip_padding_encode [OF assms]) (simp add: pl)
  have "drop ?o1 ?b = rtp_payload f @ rtp_pad_bytes (fr_pad f)"
    by (subst drop_plus) (simp add: lay(6) del: drop_drop)
  then have sub: "subspan ?b ?o1 (length (rtp_payload f)) = rtp_payload f" by (simp add: subspan_def)
  show ?thesis
    using bits marker_bits [OF pt] l ne lay(7)
    by (simp add: parseRtp_def Let_def lay(1) lay(2) [unfolded One_nat_def] lay(3-5) skip_extension_encode [OF assms] sp sub RtpPacket.truncate_def)
qed

section \<open>RTCP compounds\<close>

text \<open>Where a returned packet lies in the datagram, and what the type check has established.\<close>

definition rtcp_slice :: "bytes \<Rightarrow> RtcpPacket \<Rightarrow> bool" where
  "rtcp_slice b p \<longleftrightarrow> (\<exists>offset. offset + length (rtcp_body p) \<le> length b \<and>
     rtcp_body p = subspan b offset (length (rtcp_body p)) \<and>
     rtcp_type p = b ! (offset + 1) \<and> rtcp_count p = b ! offset AND 31) \<and>
     4 \<le> length (rtcp_body p) \<and> rtcp_minimum (rtcp_type p) (rtcp_count p) \<le> length (rtcp_body p) \<and>
     192 \<le> rtcp_type p \<and> rtcp_type p \<le> 223"

lemma rtcp_content_bounds:
  "rtcp_content b offset len = Some c \<Longrightarrow> 4 \<le> len \<Longrightarrow> 4 \<le> c \<and> c \<le> len"
  by (auto simp: rtcp_content_def Let_def split: if_splits)

lemma parse_rtcp_loop_slices:
  "parse_rtcp_loop b offset acc = Some ps \<Longrightarrow> \<forall>p \<in> set acc. rtcp_slice b p \<Longrightarrow> length acc \<le> 64 \<Longrightarrow>
   (\<forall>p \<in> set ps. rtcp_slice b p) \<and> length ps \<le> 64 \<and> (offset < length b \<longrightarrow> ps \<noteq> [])
   \<and> length acc \<le> length ps"
proof (induction b offset acc rule: parse_rtcp_loop.induct)
  case (1 b offset acc)
  define len where "len = (unat (be16 b (offset + 2)) + 1) * 4"
  show ?case
  proof (cases "offset < length b")
    case False
    with 1 show ?thesis by (simp add: parse_rtcp_loop.simps [of b offset acc])
  next
    case True
    define type where "type = b ! (offset + 1)"
    define count where "count = b ! offset AND 31"
    from True 1(2) obtain c where c: "rtcp_content b offset len = Some c"
        "\<not> (length b - offset < 4 \<or> drop_bit 6 (b ! offset) \<noteq> 2 \<or> length acc \<ge> 64)"
        "\<not> len > length b - offset" "\<not> (type < 192 \<or> type > 223)" "\<not> c < rtcp_minimum type count"
      and r: "parse_rtcp_loop b (offset + len) (acc @ [\<lparr>rtcp_body = subspan b offset c, rtcp_type = type, rtcp_count = count\<rparr>]) = Some ps"
      unfolding parse_rtcp_loop.simps [of b offset acc]
      by (auto simp: Let_def len_def type_def count_def split: if_splits option.splits)
    have cb: "4 \<le> c \<and> c \<le> len" using rtcp_content_bounds [OF c(1)] by (simp add: len_def)
    have new: "rtcp_slice b \<lparr>rtcp_body = subspan b offset c, rtcp_type = type, rtcp_count = count\<rparr>"
      unfolding rtcp_slice_def using c cb
      by (auto simp: type_def count_def min_absorb1 intro!: exI [of _ offset])
    have "(\<forall>p \<in> set ps. rtcp_slice b p) \<and> length ps \<le> 64 \<and>
        (offset + len < length b \<longrightarrow> ps \<noteq> []) \<and> Suc (length acc) \<le> length ps"
      using 1(1) [OF True c(2) refl c(3) [unfolded len_def] c(1) [unfolded len_def] refl refl
          c(4) [unfolded type_def] c(5) [unfolded type_def count_def]] r new 1(3) c(2)
      by (simp add: len_def type_def count_def)
    then show ?thesis by auto
  qed
qed

lemma parse_rtcp_slices:
  assumes "parseRtcp b = Some ps"
  shows "ps \<noteq> [] \<and> length ps \<le> 64 \<and> (\<forall>p \<in> set ps. rtcp_slice b p)"
  using assms parse_rtcp_loop_slices [of b 0 "[]" ps] by (auto simp: parseRtcp_def split: if_splits)

text \<open>A sender report's body is long enough for every field that is read from it.\<close>

lemma rtcp_sr_body: "rtcp_slice b p \<Longrightarrow> rtcp_type p = 200 \<Longrightarrow> 28 \<le> length (rtcp_body p)"
  by (simp add: rtcp_slice_def rtcp_minimum_def)

text \<open>Well-formed unpadded packets, as a sender lays them out.\<close>

definition wf_rtcp :: "RtcpPacket \<Rightarrow> bool" where
  "wf_rtcp p \<longleftrightarrow> length (rtcp_body p) = (unat (be16 (rtcp_body p) 2) + 1) * 4 \<and>
     drop_bit 6 (rtcp_body p ! 0) = 2 \<and> rtcp_body p ! 0 AND 32 = 0 \<and>
     rtcp_count p = rtcp_body p ! 0 AND 31 \<and> rtcp_type p = rtcp_body p ! 1 \<and>
     192 \<le> rtcp_type p \<and> rtcp_type p \<le> 223 \<and>
     rtcp_minimum (rtcp_type p) (rtcp_count p) \<le> length (rtcp_body p)"

definition compound :: "RtcpPacket list \<Rightarrow> bytes" where
  "compound ps = concat (map rtcp_body ps)"

lemma compound_simps [simp]: "compound [] = []" "compound (p # ps) = rtcp_body p @ compound ps"
  by (simp_all add: compound_def)

lemma compound_length_mod: "\<forall>p \<in> set ps. wf_rtcp p \<Longrightarrow> length (compound ps) mod 4 = 0"
proof (induction ps)
  case (Cons p ps)
  then have "length (compound ps) mod 4 = 0" by simp
  moreover have "length (rtcp_body p) mod 4 = 0" using Cons.prems by (simp add: wf_rtcp_def)
  ultimately show ?case by (simp add: mod_eq_0_iff_dvd)
qed simp

lemma be16_append1: "p + 2 \<le> length xs \<Longrightarrow> be16 (xs @ ys) p = be16 xs p"
  by (simp add: be16_def nth_append)

lemma parse_rtcp_loop_compound:
  "\<forall>p \<in> set ps. wf_rtcp p \<Longrightarrow> length acc + length ps \<le> 64 \<Longrightarrow>
   parse_rtcp_loop (pre @ compound ps) (length pre) acc = Some (acc @ ps)"
proof (induction ps arbitrary: pre acc)
  case Nil
  then show ?case by (subst parse_rtcp_loop.simps) simp
next
  case (Cons p ps)
  define b where "b = pre @ compound (p # ps)"
  let ?n = "length (rtcp_body p)"
  have w: "wf_rtcp p" using Cons.prems by simp
  then have n4: "4 \<le> ?n" by (simp add: wf_rtcp_def)
  have b: "b = pre @ rtcp_body p @ compound ps" by (simp add: b_def)
  have nth: "b ! (length pre + i) = rtcp_body p ! i" if "i < ?n" for i
    using that by (simp add: b nth_append)
  have h: "b ! length pre = rtcp_body p ! 0" "b ! (length pre + 1) = rtcp_body p ! 1"
    using nth [of 0] nth [of 1] n4 by (simp_all add: Suc_le_eq [symmetric])
  have len: "(unat (be16 b (length pre + 2)) + 1) * 4 = ?n"
    using w n4 unfolding b be16_append by (simp add: be16_append1 wf_rtcp_def)
  have sub: "subspan b (length pre) ?n = rtcp_body p" by (simp add: b subspan_def)
  have ct: "rtcp_content b (length pre) ?n = Some ?n"
    using w by (simp add: rtcp_content_def h wf_rtcp_def)
  have ok: "drop_bit 6 (b ! length pre) = 2" "rtcp_count p = b ! length pre AND 31"
      "rtcp_type p = b ! (length pre + 1)" "\<not> (rtcp_type p < 192 \<or> rtcp_type p > 223)"
      "\<not> ?n < rtcp_minimum (rtcp_type p) (rtcp_count p)"
    using w unfolding h wf_rtcp_def by auto
  have p: "\<lparr>rtcp_body = rtcp_body p, rtcp_type = rtcp_type p, rtcp_count = rtcp_count p\<rparr> = p" by simp
  have room: "length pre < length b" "length pre + ?n \<le> length b"
    using n4 by (auto simp: b simp del: append_eq_append_conv2)
  have step: "parse_rtcp_loop b (length pre) acc = parse_rtcp_loop b (length pre + ?n) (acc @ [p])"
    using Cons.prems(2) n4 room ok(4,5)
    by (simp only: parse_rtcp_loop.simps [of b "length pre"] len Let_def ct ok(1) sub option.case
        ok(2,3) [symmetric] p) auto
  have "parse_rtcp_loop ((pre @ rtcp_body p) @ compound ps) (length (pre @ rtcp_body p)) (acc @ [p])
      = Some ((acc @ [p]) @ ps)"
    using Cons.prems by (intro Cons.IH) auto
  then show ?case using step by (simp add: b)
qed

section \<open>Properties\<close>

definition example_frame :: rtp_frame where
  "example_frame = \<lparr>rtp_payload = [0x67, 1, 2], rtp_timestamp = 90000, rtp_ssrc = 7, rtp_sequence = 65535,
     rtp_payloadType = 96, rtp_marker = True, fr_csrc = [5], fr_ext = Some (0xBEDE, [0x10000000]), fr_pad = 2\<rparr>"

definition example_rr :: RtcpPacket where
  "example_rr = \<lparr>rtcp_body = [0x80, 201, 0, 1, 0, 0, 0, 9], rtcp_type = 201, rtcp_count = 0\<rparr>"

lemma example_frame_wf: "wf_rtp_frame example_frame"
  by code_simp

text \<open>A parsed RTP packet is a view into the datagram: its payload is a nonempty slice behind
  the twelve fixed header bytes and inside the datagram, and its fields are the header's.\<close>

theorem parseRtp_bounds:
  assumes "parseRtp b = Some p"
  shows "\<exists>offset len. 12 \<le> offset \<and> 0 < len \<and> offset + len \<le> length b \<and> length b \<le> 65535 \<and>
    rtp_payload p = subspan b offset len \<and> length (rtp_payload p) = len \<and>
    rtp_sequence p = be16 b 2 \<and> rtp_timestamp p = be32 b 4 \<and> rtp_ssrc p = be32 b 8 \<and>
    rtp_payloadType p = b ! 1 AND 127 \<and> rtp_marker p = (b ! 1 AND 128 \<noteq> 0)"
  using assms by (rule parse_rtp_bounds)

theorem parseRtp_bounds_witness:
  "\<exists>offset len. 12 \<le> offset \<and> 0 < len \<and> offset + len \<le> length (encode_rtp example_frame)
     \<and> [0x67, 1, 2] = subspan (encode_rtp example_frame) offset len"
proof -
  have "parseRtp (encode_rtp example_frame) = Some (RtpPacket.truncate example_frame)" by code_simp
  moreover have "rtp_payload (RtpPacket.truncate example_frame) = [0x67, 1, 2]"
    by (simp add: RtpPacket.truncate_def example_frame_def)
  ultimately show ?thesis using parseRtp_bounds by metis
qed

text \<open>C33: every well-formed RTP packet - with any contributing sources, header extension and
  padding - is parsed back to the fields and the payload it was built from.\<close>

theorem parseRtp_encode:
  assumes "wf_rtp_frame f"
  shows "parseRtp (encode_rtp f) = Some (RtpPacket.truncate f)"
  using assms by (rule parse_encode_rtp)

theorem parseRtp_encode_witness:
  "parseRtp (encode_rtp example_frame) = Some (RtpPacket.truncate example_frame)"
  by (rule parseRtp_encode) (rule example_frame_wf)

text \<open>An accepted RTCP datagram yields between 1 and 64 packets, each a slice of the
  datagram whose body is at least as long as its type and count require; in particular the 28
  bytes read from a sender report exist.\<close>

theorem parseRtcp_slices:
  assumes "parseRtcp b = Some ps"
  shows "ps \<noteq> [] \<and> length ps \<le> 64 \<and>
    (\<forall>p \<in> set ps. rtcp_slice b p \<and> (rtcp_type p = 200 \<longrightarrow> 28 \<le> length (rtcp_body p)))"
  using parse_rtcp_slices [OF assms] rtcp_sr_body by blast

theorem parseRtcp_slices_witness:
  "rtcp_slice (rtcp_body example_rr) example_rr"
proof -
  have "parseRtcp (rtcp_body example_rr) = Some [example_rr]" by code_simp
  from parseRtcp_slices [OF this] show ?thesis by simp
qed

text \<open>A compound of up to 64 well-formed packets is accepted whole, in order, with every
  body intact.\<close>

theorem parseRtcp_compound:
  assumes "ps \<noteq> []" "length ps \<le> 64" "\<forall>p \<in> set ps. wf_rtcp p" "length (compound ps) \<le> 65535"
  shows "parseRtcp (compound ps) = Some ps"
proof -
  have "length (compound ps) mod 4 = 0"
    using assms(3) by (rule compound_length_mod)
  moreover have "compound ps \<noteq> []" using assms(1,3) by (cases ps) (auto simp: wf_rtcp_def)
  moreover have "parse_rtcp_loop (compound ps) 0 [] = Some ps"
    using parse_rtcp_loop_compound [of ps "[]" "[]"] assms(2,3) by simp
  ultimately show ?thesis using assms(4) by (simp add: parseRtcp_def)
qed

theorem parseRtcp_compound_witness:
  "parseRtcp (compound [example_rr, example_rr]) = Some [example_rr, example_rr]"
  by (rule parseRtcp_compound) code_simp+

end
