(* ===== verification/VideoSource.thy ===== *)
theory VideoSource
  imports H264
begin

text \<open>
  The interface between the video depacketizers and the receiver engine: a source consumes
  inputs one at a time and hands out access units. The laws say that no access unit is empty
  or larger than the source's limit and that a source that waits for a random access point
  hands out nothing before one. Both depacketizers interpret the locale.
\<close>

text \<open>An access unit a decoder can start at: NAL units with SPS, PPS and an IDR slice.\<close>

definition configured :: "bytes \<Rightarrow> bool" where
  "configured f \<longleftrightarrow> (\<exists>ns. f = annexb ns \<and>
     (\<exists>n \<in> set ns. nal_type n = 7) \<and> (\<exists>n \<in> set ns. nal_type n = 8) \<and> (\<exists>n \<in> set ns. nal_type n = 5))"

lemma configuredI:
  "f = annexb ns \<Longrightarrow> p \<in> set ns \<Longrightarrow> nal_type p = 7 \<Longrightarrow> q \<in> set ns \<Longrightarrow> nal_type q = 8 \<Longrightarrow>
   i \<in> set ns \<Longrightarrow> nal_type i = 5 \<Longrightarrow> configured f"
  unfolding configured_def by blast

locale video_source =
  fixes step :: "'i \<Rightarrow> 's \<Rightarrow> bytes list \<times> 's"
    and inv :: "'s \<Rightarrow> bool"
    and waiting :: "'s \<Rightarrow> bool"
    and limit :: nat
  assumes step_inv: "inv s \<Longrightarrow> step i s = (fs, s') \<Longrightarrow> inv s'"
    and frame_size: "inv s \<Longrightarrow> step i s = (fs, s') \<Longrightarrow> f \<in> set fs \<Longrightarrow> f \<noteq> [] \<and> length f \<le> limit"
    and gate_open: "inv s \<Longrightarrow> waiting s \<Longrightarrow> step i s = (f # fs, s') \<Longrightarrow> configured f"
    and gate_shut: "inv s \<Longrightarrow> waiting s \<Longrightarrow> step i s = ([], s') \<Longrightarrow> waiting s'"
begin

fun frames :: "'s \<Rightarrow> 'i list \<Rightarrow> bytes list" where
  "frames s [] = []"
| "frames s (i # is) = (let (fs, s') = step i s in fs @ frames s' is)"

fun after :: "'s \<Rightarrow> 'i list \<Rightarrow> 's" where
  "after s [] = s"
| "after s (i # is) = after (snd (step i s)) is"

lemma frames_append: "frames s (is @ js) = frames s is @ frames (after s is) js"
  by (induction "is" arbitrary: s) (simp_all add: case_prod_beta Let_def)

lemma after_append: "after s (is @ js) = after (after s is) js"
  by (induction "is" arbitrary: s) simp_all

lemma after_inv: "inv s \<Longrightarrow> inv (after s is)"
proof (induction "is" arbitrary: s)
  case (Cons i "is")
  then show ?case using step_inv [OF Cons.prems prod.collapse [symmetric], of i] by simp
qed simp

lemma frames_size: "inv s \<Longrightarrow> f \<in> set (frames s is) \<Longrightarrow> f \<noteq> [] \<and> length f \<le> limit"
proof (induction "is" arbitrary: s)
  case (Cons i "is")
  obtain fs s' where st: "step i s = (fs, s')" by fastforce
  with Cons.prems(2) have "f \<in> set fs \<or> f \<in> set (frames s' is)" by simp
  then show ?case
    using frame_size [OF Cons.prems(1) st] Cons.IH [OF step_inv [OF Cons.prems(1) st]] by blast
qed simp

lemma frames_start: "inv s \<Longrightarrow> waiting s \<Longrightarrow> frames s is = f # fs \<Longrightarrow> configured f"
proof (induction "is" arbitrary: s)
  case (Cons i "is")
  obtain gs s' where st: "step i s = (gs, s')" by fastforce
  show ?case
  proof (cases gs)
    case Nil
    with st Cons.prems Cons.IH [OF step_inv [OF Cons.prems(1) st] gate_shut [OF Cons.prems(1,2) st [unfolded Nil]]]
    show ?thesis by simp
  next
    case (Cons g hs)
    with st Cons.prems gate_open [OF Cons.prems(1,2) st [unfolded Cons]] show ?thesis by simp
  qed
qed simp

end

end
