(* ===== verification/H264Rtp.thy ===== *)
theory H264Rtp
  imports RtpWire VideoSource
begin

text \<open>
  \<open>src/shared/receiver/codec/h264_rtp_depacketizer.{h,cpp}\<close>: \<open>H264RtpDepacketizer\<close>. The two
  callbacks are outputs: an operation returns the list of callback invocations it makes, in
  order, and the new state. The class has a single serial owner, so operations do not overlap.
  The subtractions of sizes that no test guards are written with the wrapping \<open>size_sub\<close>.
\<close>

section \<open>State and operations\<close>

datatype rtp_event = RFrame bytes u32 | RKeyframe

record rtp_depack =
  rd_au :: bytes
  rd_fu :: bytes
  rd_sps :: bytes
  rd_pps :: bytes
  rd_timestamp :: u32
  rd_ssrc :: u32
  rd_sequence :: u16
  rd_fuHeader :: u8
  rd_haveSsrc :: bool
  rd_haveSequence :: bool
  rd_haveTimestamp :: bool
  rd_waiting :: bool
  rd_damaged :: bool
  rd_idr :: bool
  rd_vcl :: bool
  rd_hasSps :: bool
  rd_hasPps :: bool

definition rd_init :: rtp_depack where
  "rd_init = \<lparr>rd_au = [], rd_fu = [], rd_sps = [], rd_pps = [], rd_timestamp = 0, rd_ssrc = 0,
     rd_sequence = 0, rd_fuHeader = 0, rd_haveSsrc = False, rd_haveSequence = False,
     rd_haveTimestamp = False, rd_waiting = True, rd_damaged = False, rd_idr = False,
     rd_vcl = False, rd_hasSps = False, rd_hasPps = False\<rparr>"

definition validNal :: "bytes \<Rightarrow> bool" where
  "validNal n \<longleftrightarrow> n \<noteq> [] \<and> n ! 0 AND 128 = 0 \<and> 1 \<le> n ! 0 AND 31 \<and> n ! 0 AND 31 \<le> 23"

definition rd_append :: "bytes \<Rightarrow> bytes \<Rightarrow> bytes" where
  "rd_append dst n = dst @ [0, 0, 0, 1] @ n"

definition rd_clearAu :: "rtp_depack \<Rightarrow> rtp_depack" where
  "rd_clearAu s = s\<lparr>rd_au := [], rd_fu := [], rd_damaged := False, rd_idr := False, rd_vcl := False,
     rd_hasSps := False, rd_hasPps := False\<rparr>"

definition rd_Reset :: "rtp_depack \<Rightarrow> rtp_depack" where
  "rd_Reset s = (rd_clearAu s)\<lparr>rd_sps := [], rd_pps := [], rd_waiting := True, rd_haveSsrc := False,
     rd_haveSequence := False, rd_haveTimestamp := False\<rparr>"

definition rd_lose :: "rtp_depack \<Rightarrow> rtp_event list \<times> rtp_depack" where
  "rd_lose s = ([RKeyframe], s\<lparr>rd_au := [], rd_fu := [], rd_damaged := True, rd_waiting := True\<rparr>)"

definition rd_appendNalu :: "bytes \<Rightarrow> rtp_depack \<Rightarrow> bool \<times> rtp_depack" where
  "rd_appendNalu n s =
     (if \<not> validNal n \<or> length n > kMaxAccessUnitBytes - 4 \<or>
         length (rd_au s) > kMaxAccessUnitBytes - length n - 4 then (False, s)
      else
        let type = n ! 0 AND 31 in
        if (type = 7 \<or> type = 8) \<and> length n > 65536 then (False, s)
        else
          let s1 = (if type = 7 then
                      (if rd_sps s \<noteq> n then s\<lparr>rd_pps := []\<rparr> else s)\<lparr>rd_sps := n, rd_hasSps := True\<rparr>
                    else if type = 8 then s\<lparr>rd_pps := n, rd_hasPps := True\<rparr>
                    else s);
              s2 = s1\<lparr>rd_idr := rd_idr s1 \<or> type = 5, rd_vcl := rd_vcl s1 \<or> (1 \<le> type \<and> type \<le> 5)\<rparr>
          in (True, s2\<lparr>rd_au := rd_append (rd_au s2) n\<rparr>))"

definition rd_good :: "rtp_depack \<Rightarrow> bool" where
  "rd_good s \<longleftrightarrow> \<not> rd_damaged s \<and> rd_fu s = [] \<and> rd_vcl s \<and> (\<not> rd_waiting s \<or> rd_idr s) \<and>
     (\<not> rd_idr s \<or> (rd_sps s \<noteq> [] \<and> rd_pps s \<noteq> []))"

text \<open>The parameter sets \<open>emit\<close> puts in front of an IDR access unit that lacks them.\<close>

definition rd_prefix :: "rtp_depack \<Rightarrow> bytes" where
  "rd_prefix s =
     (if rd_idr s then
        (let out = (if \<not> rd_hasSps s then rd_append [] (rd_sps s) else []) in
         if \<not> rd_hasPps s then rd_append out (rd_pps s) else out)
      else [])"

definition rd_emit :: "rtp_depack \<Rightarrow> rtp_event list \<times> rtp_depack" where
  "rd_emit s =
     (let (out, s1) =
        (if rd_good s then
           let p = rd_prefix s; s1 = (if rd_idr s then s\<lparr>rd_waiting := False\<rparr> else s) in
           if length (rd_au s) > size_sub kMaxAccessUnitBytes (length p) then ([], s1\<lparr>rd_waiting := True\<rparr>)
           else (p @ rd_au s, s1)
         else ([], if rd_vcl s \<or> rd_fu s \<noteq> [] then s\<lparr>rd_waiting := True\<rparr> else s));
        s2 = rd_clearAu s1
      in (if out \<noteq> [] then [RFrame out (rd_timestamp s)] else if rd_waiting s2 then [RKeyframe] else [], s2))"

text \<open>The aggregation packet (STAP-A): the slices and their size with start codes.\<close>

function stap_loop :: "bytes \<Rightarrow> nat \<Rightarrow> nat \<Rightarrow> bytes list \<Rightarrow> (bytes list \<times> nat) option" where
  "stap_loop p offset tot nalus =
     (if offset < length p then
        if length p - offset < 2 then None
        else
          let len = unat (be16 p offset); o2 = offset + 2 in
          if len = 0 \<or> len > length p - o2 \<or> length nalus \<ge> 1024 \<or> \<not> validNal (subspan p o2 len) then None
          else stap_loop p (o2 + len) (tot + len + 4) (nalus @ [subspan p o2 len])
      else Some (nalus, tot))"
  by pat_completeness auto
termination by (relation "measure (\<lambda>(p, offset, tot, nalus). length p - offset)") auto

declare stap_loop.simps [simp del]

fun append_all :: "bytes list \<Rightarrow> rtp_depack \<Rightarrow> bool \<times> rtp_depack" where
  "append_all [] s = (True, s)"
| "append_all (n # ns) s = (let (ok, s') = rd_appendNalu n s in if ok then append_all ns s' else (False, s'))"

definition rd_stap :: "bytes \<Rightarrow> rtp_depack \<Rightarrow> bool \<times> rtp_depack" where
  "rd_stap p s =
     (case stap_loop p 1 0 [] of
        None \<Rightarrow> (False, s)
      | Some (nalus, tot) \<Rightarrow>
          if rd_fu s = [] \<and> nalus \<noteq> [] \<and> tot \<le> size_sub kMaxAccessUnitBytes (length (rd_au s))
          then append_all nalus s else (False, s))"

text \<open>The fragmentation unit (FU-A).\<close>

definition rd_fua :: "bytes \<Rightarrow> rtp_depack \<Rightarrow> bool \<times> rtp_depack" where
  "rd_fua p s =
     (if length p < 3 \<or> p ! 1 AND 32 \<noteq> 0 \<or> p ! 1 AND 31 = 0 \<or> p ! 1 AND 31 > 23 \<or> p ! 1 AND 192 = 192
      then (False, s)
      else
        let first = (p ! 1 AND 128 \<noteq> 0); final = (p ! 1 AND 64 \<noteq> 0);
            header = (p ! 0 AND 224) OR (p ! 1 AND 31);
            (ok, s1) =
              (if first then
                 if rd_fu s \<noteq> [] then (False, s) else (True, s\<lparr>rd_fuHeader := header, rd_fu := [header]\<rparr>)
               else if rd_fu s = [] \<or> rd_fuHeader s \<noteq> header then (False, s)
               else (True, s))
        in
          if \<not> ok then (False, s1)
          else
            let n = length p - 2 in
            if n > kMaxAccessUnitBytes - 4 \<or> length (rd_fu s1) > kMaxAccessUnitBytes - 4 - n \<or>
               length (rd_au s1) > kMaxAccessUnitBytes - 4 - n - length (rd_fu s1) then (False, s1)
            else
              let s2 = s1\<lparr>rd_fu := rd_fu s1 @ drop 2 p\<rparr> in
              if final then
                let (ok, s3) = rd_appendNalu (rd_fu s2) s2 in (ok, s3\<lparr>rd_fu := []\<rparr>)
              else (True, s2))"

definition rd_payload :: "bytes \<Rightarrow> rtp_depack \<Rightarrow> bool \<times> rtp_depack" where
  "rd_payload p s =
     (let type = p ! 0 AND 31 in
      if 1 \<le> type \<and> type \<le> 23 then (if rd_fu s = [] then rd_appendNalu p s else (False, s))
      else if type = 24 then rd_stap p s
      else if type = 28 then rd_fua p s
      else (False, s))"

text \<open>The tail of \<open>ProcessRtpPacket\<close>, from the handling of a gap on.\<close>

definition rd_deliver :: "RtpPacket \<Rightarrow> bool \<Rightarrow> rtp_depack \<Rightarrow> rtp_event list \<times> rtp_depack" where
  "rd_deliver packet gap s0 =
     (let (e1, s) = (if gap then rd_lose s0 else ([], s0)) in
      if rd_damaged s then
        (e1, if rtp_marker packet then (rd_clearAu s)\<lparr>rd_haveTimestamp := False\<rparr> else s)
      else
        let p = rtp_payload packet in
        if p ! 0 AND 128 \<noteq> 0 then (let (e2, s2) = rd_lose s in (e1 @ e2, s2))
        else
          let (ok, s2) = rd_payload p s;
              (e3, s3) = (if \<not> ok then rd_lose s2 else ([], s2));
              (e4, s4) = (if rtp_marker packet
                          then (let (e, t) = rd_emit s3 in (e, t\<lparr>rd_haveTimestamp := False\<rparr>)) else ([], s3))
          in (e1 @ e3 @ e4, s4))"

text \<open>The boundary between access units that share no marker.\<close>

definition rd_boundary :: "RtpPacket \<Rightarrow> bool \<Rightarrow> rtp_depack \<Rightarrow> rtp_event list \<times> rtp_depack" where
  "rd_boundary packet gap s =
     (if rd_haveTimestamp s \<and> rtp_timestamp packet \<noteq> rd_timestamp s then
        let (e1, s1) = (if gap \<or> rd_fu s \<noteq> [] then rd_lose s else ([], s));
            (e2, s2) = rd_emit s1
        in (e1 @ e2, s2)
      else ([], s))"

definition rd_packet :: "bytes \<Rightarrow> rtp_depack \<Rightarrow> rtp_event list \<times> rtp_depack" where
  "rd_packet b s =
     (case parseRtp b of
        None \<Rightarrow> rd_lose s
      | Some packet \<Rightarrow>
          let s1 = (if rd_haveSsrc s \<and> rtp_ssrc packet \<noteq> rd_ssrc s then rd_Reset s else s);
              s2 = s1\<lparr>rd_haveSsrc := True, rd_ssrc := rtp_ssrc packet\<rparr>;
              delta = sequenceDelta (rtp_sequence packet) (rd_sequence s2)
          in
            if rd_haveSequence s2 \<and> delta \<le> 0 then ([], s2)
            else
              let gap = (rd_haveSequence s2 \<and> delta \<noteq> 1);
                  s3 = s2\<lparr>rd_sequence := rtp_sequence packet, rd_haveSequence := True\<rparr>;
                  (e1, s4) = rd_boundary packet gap s3;
                  s5 = s4\<lparr>rd_timestamp := rtp_timestamp packet, rd_haveTimestamp := True\<rparr>;
                  (e2, s6) = rd_deliver packet gap s5
              in (e1 @ e2, s6))"

text \<open>A null pointer is \<open>None\<close>.\<close>

definition rd_ProcessRtpPacket :: "bytes option \<Rightarrow> rtp_depack \<Rightarrow> rtp_event list \<times> rtp_depack" where
  "rd_ProcessRtpPacket p s = (case p of None \<Rightarrow> ([], s) | Some b \<Rightarrow> rd_packet b s)"

section \<open>Invariant\<close>

lemma validNal_ValidNalu: "validNal n = ValidNalu n"
  by (auto simp: validNal_def ValidNalu_def nal_type_def word_le_nat_alt word_less_nat_alt)

lemma rd_append_annexb: "rd_append (annexb ns) n = annexb (ns @ [n])"
  by (simp add: rd_append_def annexb_append)

text \<open>While an access unit is intact its bytes are the NAL units appended so far, and the flags
  say which kinds they are.\<close>

definition rd_unit :: "rtp_depack \<Rightarrow> bytes list \<Rightarrow> bool" where
  "rd_unit s ns \<longleftrightarrow> rd_au s = annexb ns \<and> (\<forall>n \<in> set ns. validNal n) \<and>
     (rd_idr s \<longleftrightarrow> (\<exists>n \<in> set ns. nal_type n = 5)) \<and>
     (rd_vcl s \<longleftrightarrow> (\<exists>n \<in> set ns. 1 \<le> nal_type n \<and> nal_type n \<le> 5)) \<and>
     (rd_hasSps s \<longleftrightarrow> (\<exists>n \<in> set ns. nal_type n = 7)) \<and> (rd_hasPps s \<longleftrightarrow> (\<exists>n \<in> set ns. nal_type n = 8))"

definition rd_sets :: "rtp_depack \<Rightarrow> bool" where
  "rd_sets s \<longleftrightarrow> length (rd_sps s) \<le> 65536 \<and> length (rd_pps s) \<le> 65536 \<and>
     (rd_sps s \<noteq> [] \<longrightarrow> nal_type (rd_sps s) = 7) \<and> (rd_pps s \<noteq> [] \<longrightarrow> nal_type (rd_pps s) = 8)"

definition rd_inv :: "rtp_depack \<Rightarrow> bool" where
  "rd_inv s \<longleftrightarrow> length (rd_au s) \<le> kMaxAccessUnitBytes \<and> length (rd_fu s) \<le> kMaxAccessUnitBytes \<and>
     rd_sets s \<and> (rd_damaged s \<or> (\<exists>ns. rd_unit s ns))"

lemma rd_unit_clear: "rd_unit (rd_clearAu s) []"
  by (simp add: rd_unit_def rd_clearAu_def)

lemma rd_inv_init [inv_intros]: "rd_inv rd_init"
  by (auto simp: rd_inv_def rd_init_def rd_sets_def rd_unit_def intro!: exI [of _ "[]"])

lemma rd_inv_clear [inv_intros]: "rd_inv s \<Longrightarrow> rd_inv (rd_clearAu s)"
  using rd_unit_clear [of s] by (auto simp: rd_inv_def rd_sets_def) (auto simp: rd_clearAu_def)

lemma rd_inv_Reset [inv_intros]: "rd_inv (rd_Reset s)"
  by (auto simp: rd_inv_def rd_Reset_def rd_sets_def rd_unit_def rd_clearAu_def intro!: exI [of _ "[]"])

lemma rd_inv_lose [inv_intros]: "rd_inv s \<Longrightarrow> rd_inv (snd (rd_lose s))"
  by (simp add: rd_inv_def rd_lose_def rd_sets_def)

text \<open>The fields the packet bookkeeping writes are not part of the invariant.\<close>

lemma rd_inv_book [simp]:
  "rd_inv (s\<lparr>rd_haveTimestamp := a\<rparr>) = rd_inv s" "rd_inv (s\<lparr>rd_timestamp := t\<rparr>) = rd_inv s"
  "rd_inv (s\<lparr>rd_haveSsrc := a\<rparr>) = rd_inv s" "rd_inv (s\<lparr>rd_ssrc := t\<rparr>) = rd_inv s"
  "rd_inv (s\<lparr>rd_haveSequence := a\<rparr>) = rd_inv s" "rd_inv (s\<lparr>rd_sequence := q\<rparr>) = rd_inv s"
  "rd_inv (s\<lparr>rd_fuHeader := h\<rparr>) = rd_inv s" "rd_inv (s\<lparr>rd_waiting := a\<rparr>) = rd_inv s"
  by (simp_all add: rd_inv_def rd_sets_def rd_unit_def)

lemma rd_inv_fu: "rd_inv s \<Longrightarrow> length f \<le> kMaxAccessUnitBytes \<Longrightarrow> rd_inv (s\<lparr>rd_fu := f\<rparr>)"
  by (simp add: rd_inv_def rd_sets_def rd_unit_def)

lemma rd_appendNalu_ok:
  assumes "rd_appendNalu n s = (True, s')"
  shows "validNal n" "rd_au s' = rd_append (rd_au s) n"
    "length (rd_au s) + length n + 4 \<le> kMaxAccessUnitBytes"
    "nal_type n = 7 \<or> nal_type n = 8 \<longrightarrow> length n \<le> 65536"
    "rd_idr s' = (rd_idr s \<or> nal_type n = 5)"
    "rd_vcl s' = (rd_vcl s \<or> (1 \<le> nal_type n \<and> nal_type n \<le> 5))"
    "rd_hasSps s' = (rd_hasSps s \<or> nal_type n = 7)" "rd_hasPps s' = (rd_hasPps s \<or> nal_type n = 8)"
    "rd_sps s' = (if nal_type n = 7 then n else rd_sps s)"
    "rd_pps s' = (if nal_type n = 8 then n else if nal_type n = 7 \<and> rd_sps s \<noteq> n then [] else rd_pps s)"
proof -
  have v: "validNal n \<and> \<not> length n > kMaxAccessUnitBytes - 4 \<and> \<not> length (rd_au s) > kMaxAccessUnitBytes - length n - 4
      \<and> \<not> ((nal_type n = 7 \<or> nal_type n = 8) \<and> length n > 65536)"
    using assms by (auto simp: rd_appendNalu_def nal_type_def Let_def split: if_splits)
  then show "validNal n" "length (rd_au s) + length n + 4 \<le> kMaxAccessUnitBytes"
      "nal_type n = 7 \<or> nal_type n = 8 \<longrightarrow> length n \<le> 65536" by (auto simp: kMaxAccessUnitBytes_def)
  let ?s1 = "if nal_type n = 7 then (if rd_sps s \<noteq> n then s\<lparr>rd_pps := []\<rparr> else s)\<lparr>rd_sps := n, rd_hasSps := True\<rparr>
    else if nal_type n = 8 then s\<lparr>rd_pps := n, rd_hasPps := True\<rparr> else s"
  have "s' = (let s2 = ?s1\<lparr>rd_idr := rd_idr ?s1 \<or> nal_type n = 5,
      rd_vcl := rd_vcl ?s1 \<or> (1 \<le> nal_type n \<and> nal_type n \<le> 5)\<rparr> in s2\<lparr>rd_au := rd_append (rd_au s2) n\<rparr>)"
    using assms v unfolding rd_appendNalu_def nal_type_def Let_def by (simp only: if_False simp_thms prod.inject)
  then show "rd_au s' = rd_append (rd_au s) n" "rd_idr s' = (rd_idr s \<or> nal_type n = 5)"
    "rd_vcl s' = (rd_vcl s \<or> (1 \<le> nal_type n \<and> nal_type n \<le> 5))"
    "rd_hasSps s' = (rd_hasSps s \<or> nal_type n = 7)" "rd_hasPps s' = (rd_hasPps s \<or> nal_type n = 8)"
    "rd_sps s' = (if nal_type n = 7 then n else rd_sps s)"
    "rd_pps s' = (if nal_type n = 8 then n else if nal_type n = 7 \<and> rd_sps s \<noteq> n then [] else rd_pps s)"
    by (simp_all add: Let_def)
qed

lemma rd_unit_append:
  assumes "rd_unit s ns" "rd_appendNalu n s = (True, s')"
  shows "rd_unit s' (ns @ [n])"
proof -
  have u: "rd_au s = annexb ns" "\<forall>n \<in> set ns. validNal n" "rd_idr s \<longleftrightarrow> (\<exists>n \<in> set ns. nal_type n = 5)"
    "rd_vcl s \<longleftrightarrow> (\<exists>n \<in> set ns. 1 \<le> nal_type n \<and> nal_type n \<le> 5)"
    "rd_hasSps s \<longleftrightarrow> (\<exists>n \<in> set ns. nal_type n = 7)" "rd_hasPps s \<longleftrightarrow> (\<exists>n \<in> set ns. nal_type n = 8)"
    using assms(1) unfolding rd_unit_def by blast+
  note a = rd_appendNalu_ok [OF assms(2)]
  show ?thesis
    unfolding rd_unit_def a(2,5-8) u rd_append_annexb set_append using u(2) a(1) by auto
qed

lemma rd_appendNalu_fields:
  "rd_appendNalu n s = (ok, s') \<Longrightarrow>
     rd_fu s' = rd_fu s \<and> rd_damaged s' = rd_damaged s \<and> rd_waiting s' = rd_waiting s \<and>
     rd_timestamp s' = rd_timestamp s \<and> (\<not> ok \<longrightarrow> s' = s)"
  by (auto simp: rd_appendNalu_def Let_def split: if_splits)

lemma rd_inv_appendNalu [inv_intros]:
  assumes "rd_inv s" "rd_appendNalu n s = (ok, s')"
  shows "rd_inv s'"
proof (cases ok)
  case True
  then have r: "rd_appendNalu n s = (True, s')" using assms(2) by simp
  have "length (rd_au s') \<le> kMaxAccessUnitBytes"
    using rd_appendNalu_ok(2,3) [OF r] by (simp add: rd_append_def)
  moreover have "rd_sets s'"
    using rd_appendNalu_ok(4,9,10) [OF r] assms(1) by (auto simp: rd_sets_def rd_inv_def)
  moreover have "rd_damaged s' \<or> (\<exists>ns. rd_unit s' ns)"
    using assms(1) rd_unit_append [OF _ r] rd_appendNalu_fields [OF r] by (auto simp: rd_inv_def)
  ultimately show ?thesis using assms(1) rd_appendNalu_fields [OF r] by (simp add: rd_inv_def)
next
  case False
  with assms rd_appendNalu_fields [OF assms(2)] show ?thesis by simp
qed

text \<open>What the payload handlers keep, apart from the invariant.\<close>

definition rd_same_gate :: "rtp_depack \<Rightarrow> rtp_depack \<Rightarrow> bool" where
  "rd_same_gate s s' \<longleftrightarrow> rd_waiting s' = rd_waiting s \<and> rd_damaged s' = rd_damaged s"

lemma rd_same_gate_refl [simp]: "rd_same_gate s s"
  by (simp add: rd_same_gate_def)

lemma append_all_keeps:
  "append_all ns s = (ok, s') \<Longrightarrow> rd_inv s \<Longrightarrow> rd_inv s' \<and> rd_same_gate s s'"
proof (induction ns arbitrary: s)
  case (Cons n ns)
  obtain ok1 s1 where a: "rd_appendNalu n s = (ok1, s1)" by fastforce
  note i = rd_inv_appendNalu [OF Cons.prems(2) a] and f = rd_appendNalu_fields [OF a]
  show ?case
    using Cons.prems(1) Cons.IH [OF _ i] f i a by (cases ok1) (auto simp: rd_same_gate_def)
qed (simp add: rd_same_gate_def)

lemma rd_stap_keeps: "rd_stap p s = (ok, s') \<Longrightarrow> rd_inv s \<Longrightarrow> rd_inv s' \<and> rd_same_gate s s'"
  by (auto simp: rd_stap_def dest: append_all_keeps split: option.splits if_splits)

lemma if3:
  "a \<or> \<not> b \<or> c \<Longrightarrow> (if a then x else if \<not> b then y else if c then y else z) \<in> {x, y}"
  "\<not> (a \<or> \<not> b \<or> c) \<Longrightarrow> (if a then x else if \<not> b then y else if c then y else z) = z"
  by auto

lemma rd_fua_keeps:
  assumes r: "rd_fua p s = (ok, s')" and i: "rd_inv s"
  shows "rd_inv s' \<and> rd_same_gate s s'"
proof -
  let ?h = "(p ! 0 AND 224) OR (p ! 1 AND 31)"
  have i1: "rd_inv (s\<lparr>rd_fuHeader := ?h, rd_fu := [?h]\<rparr>)"
    using rd_inv_fu [of "s\<lparr>rd_fuHeader := ?h\<rparr>" "[?h]"] i by (simp add: kMaxAccessUnitBytes_def)
  have step: "rd_inv s' \<and> rd_same_gate s1 s'"
    if "rd_inv s1" "length (rd_fu s1 @ drop 2 p) \<le> kMaxAccessUnitBytes"
      "(let (ok, s3) = rd_appendNalu (rd_fu s1 @ drop 2 p) (s1\<lparr>rd_fu := rd_fu s1 @ drop 2 p\<rparr>) in (ok, s3\<lparr>rd_fu := []\<rparr>)) = (ok, s')
       \<or> (True, s1\<lparr>rd_fu := rd_fu s1 @ drop 2 p\<rparr>) = (ok, s')" for s1
  proof -
    note i2 = rd_inv_fu [OF that(1,2)]
    obtain ok3 s3 where a: "rd_appendNalu (rd_fu s1 @ drop 2 p) (s1\<lparr>rd_fu := rd_fu s1 @ drop 2 p\<rparr>) = (ok3, s3)" by fastforce
    from rd_inv_fu [OF rd_inv_appendNalu [OF i2 a], of "[]"] rd_appendNalu_fields [OF a] that(3) i2 a
    show ?thesis by (auto simp: rd_same_gate_def)
  qed
  let ?s1 = "s\<lparr>rd_fuHeader := ?h, rd_fu := [?h]\<rparr>"
  have g: "rd_same_gate s ?s1" by (simp add: rd_same_gate_def)
  obtain ok1 s1 where sel: "(if p ! 1 AND 128 \<noteq> 0 then if rd_fu s \<noteq> [] then (False, s) else (True, ?s1)
      else if rd_fu s = [] \<or> rd_fuHeader s \<noteq> ?h then (False, s) else (True, s)) = (ok1, s1)" by fastforce
  then have s1: "s1 = s \<or> s1 = ?s1" by (auto split: if_splits)
  then have i2: "rd_inv s1 \<and> rd_same_gate s s1" using i i1 g by auto
  let ?hdr = "length p < 3 \<or> p ! 1 AND 32 \<noteq> 0 \<or> p ! 1 AND 31 = 0 \<or> p ! 1 AND 31 > 23 \<or> p ! 1 AND 192 = 192"
  let ?big = "length p - 2 > kMaxAccessUnitBytes - 4 \<or> length (rd_fu s1) > kMaxAccessUnitBytes - 4 - (length p - 2) \<or>
      length (rd_au s1) > kMaxAccessUnitBytes - 4 - (length p - 2) - length (rd_fu s1)"
  let ?s2 = "s1\<lparr>rd_fu := rd_fu s1 @ drop 2 p\<rparr>"
  have run: "rd_fua p s = (if ?hdr then (False, s) else if \<not> ok1 then (False, s1) else if ?big then (False, s1)
      else if p ! 1 AND 64 \<noteq> 0 then let (ok, s3) = rd_appendNalu (rd_fu ?s2) ?s2 in (ok, s3\<lparr>rd_fu := []\<rparr>)
      else (True, ?s2))"
    unfolding rd_fua_def Let_def sel split_conv ..
  show ?thesis
  proof (cases "?hdr \<or> \<not> ok1 \<or> ?big")
    case True
    have "rd_fua p s \<in> {(False, s), (False, s1)}" unfolding run by (rule if3(1) [OF True])
    then show ?thesis using r i i2 by auto
  next
    case False
    then have len: "length (rd_fu s1 @ drop 2 p) \<le> kMaxAccessUnitBytes" by auto
    have "rd_fua p s = (if p ! 1 AND 64 \<noteq> 0 then let (ok, s3) = rd_appendNalu (rd_fu ?s2) ?s2 in (ok, s3\<lparr>rd_fu := []\<rparr>)
      else (True, ?s2))" unfolding run by (rule if3(2) [OF False])
    note eq = this [unfolded r, symmetric]
    have "rd_inv s' \<and> rd_same_gate s1 s'"
    proof (cases "p ! 1 AND 64 \<noteq> 0")
      case True
      from eq [unfolded if_P [OF True]] step [OF conjunct1 [OF i2] len] show ?thesis by simp
    next
      case False
      from eq [unfolded if_not_P [OF False]] step [OF conjunct1 [OF i2] len] show ?thesis by simp
    qed
    then show ?thesis using i2 by (simp add: rd_same_gate_def)
  qed
qed

lemma rd_payload_keeps: "rd_payload p s = (ok, s') \<Longrightarrow> rd_inv s \<Longrightarrow> rd_inv s' \<and> rd_same_gate s s'"
  using rd_inv_appendNalu [of s p ok s'] rd_appendNalu_fields [of p s ok s'] rd_stap_keeps rd_fua_keeps
  by (auto simp: rd_payload_def Let_def rd_same_gate_def split: if_splits)

section \<open>The gate\<close>

text \<open>Between a keyframe request (or the start, \<open>w\<close>) and the next configured access unit no
  other access unit is delivered.\<close>

fun gated :: "bool \<Rightarrow> rtp_event list \<Rightarrow> bool" where
  "gated w [] \<longleftrightarrow> True"
| "gated w (RKeyframe # es) \<longleftrightarrow> gated True es"
| "gated w (RFrame f t # es) \<longleftrightarrow> (w \<longrightarrow> configured f) \<and> gated False es"

fun gate_after :: "bool \<Rightarrow> rtp_event list \<Rightarrow> bool" where
  "gate_after w [] = w"
| "gate_after w (RKeyframe # es) = gate_after True es"
| "gate_after w (RFrame f t # es) = gate_after False es"

fun sized :: "rtp_event \<Rightarrow> bool" where
  "sized RKeyframe \<longleftrightarrow> True"
| "sized (RFrame f t) \<longleftrightarrow> f \<noteq> [] \<and> length f \<le> kMaxAccessUnitBytes"

lemma gated_append: "gated w (es @ fs) \<longleftrightarrow> gated w es \<and> gated (gate_after w es) fs"
  by (induction w es rule: gated.induct) auto

lemma gate_after_append: "gate_after w (es @ fs) = gate_after (gate_after w es) fs"
  by (induction w es rule: gated.induct) auto

definition rd_safe :: "bool \<Rightarrow> rtp_event list \<times> rtp_depack \<Rightarrow> bool" where
  "rd_safe w r \<longleftrightarrow> gated w (fst r) \<and> (gate_after w (fst r) \<longrightarrow> rd_waiting (snd r)) \<and>
     rd_inv (snd r) \<and> list_all sized (fst r)"

lemma rd_safe_append: "rd_safe w (es, s) \<Longrightarrow> rd_safe (gate_after w es) (fs, t) \<Longrightarrow> rd_safe w (es @ fs, t)"
  by (simp add: rd_safe_def gated_append gate_after_append)

lemma rd_safe_Nil: "rd_safe w ([], s) \<longleftrightarrow> (w \<longrightarrow> rd_waiting s) \<and> rd_inv s"
  by (simp add: rd_safe_def)

lemma rd_safe_lose: "rd_inv s \<Longrightarrow> rd_safe w (rd_lose s)"
  using rd_inv_lose [of s] by (simp add: rd_safe_def) (simp add: rd_lose_def)

lemma rd_safeD: "rd_safe w (es, s) \<Longrightarrow> rd_inv s" "rd_safe w (es, s) \<Longrightarrow> gate_after w es \<Longrightarrow> rd_waiting s"
  by (simp_all add: rd_safe_def)

lemma rd_prefix_annexb:
  assumes "rd_unit s ns" "rd_sets s" "rd_good s"
  obtains pre where "rd_prefix s = annexb pre" "rd_idr s \<longrightarrow> configured (annexb (pre @ ns))"
    "length (rd_prefix s) \<le> 2 * 65540"
proof -
  have sets: "length (rd_sps s) \<le> 65536" "length (rd_pps s) \<le> 65536"
      "rd_sps s \<noteq> [] \<Longrightarrow> nal_type (rd_sps s) = 7" "rd_pps s \<noteq> [] \<Longrightarrow> nal_type (rd_pps s) = 8"
    using assms(2) by (simp_all add: rd_sets_def)
  show thesis
  proof (cases "rd_idr s")
    case False
    then show thesis using that [of "[]"] by (simp add: rd_prefix_def)
  next
    case True
    then have ne: "rd_sps s \<noteq> []" "rd_pps s \<noteq> []" using assms(3) by (auto simp: rd_good_def)
    note ty = sets(3) [OF ne(1)] sets(4) [OF ne(2)]
    define pre where "pre = (if rd_hasSps s then [] else [rd_sps s]) @ (if rd_hasPps s then [] else [rd_pps s])"
    have p: "rd_prefix s = annexb pre"
      using True by (simp add: rd_prefix_def pre_def rd_append_def Let_def)
    obtain i where i: "i \<in> set ns" "nal_type i = 5" using True assms(1) by (auto simp: rd_unit_def)
    obtain a where a: "a \<in> set (pre @ ns)" "nal_type a = 7"
      using assms(1) ty by (cases "rd_hasSps s") (auto simp: rd_unit_def pre_def)
    obtain b where b: "b \<in> set (pre @ ns)" "nal_type b = 8"
      using assms(1) ty by (cases "rd_hasPps s") (auto simp: rd_unit_def pre_def)
    have "configured (annexb (pre @ ns))" using configuredI [OF refl a b, of i] i by simp
    moreover have "length (rd_prefix s) \<le> 2 * 65540" using sets(1,2) by (simp add: p pre_def)
    ultimately show thesis using that p by blast
  qed
qed

lemma rd_safe_emit:
  assumes i: "rd_inv s" and w: "w \<Longrightarrow> rd_waiting s"
  shows "rd_safe w (rd_emit s)"
proof (cases "rd_good s")
  case False
  then have "rd_emit s = (let s1 = if rd_vcl s \<or> rd_fu s \<noteq> [] then s\<lparr>rd_waiting := True\<rparr> else s in
      (if rd_waiting s1 then [RKeyframe] else [], rd_clearAu s1))"
    by (simp add: rd_emit_def Let_def) (simp add: rd_clearAu_def)
  then show ?thesis using i w rd_inv_clear [of s] rd_inv_clear [of "s\<lparr>rd_waiting := True\<rparr>"]
    by (auto simp: rd_safe_def Let_def) (auto simp: rd_clearAu_def)
next
  case True
  then obtain ns where u: "rd_unit s ns" and sets: "rd_sets s" using i by (auto simp: rd_inv_def rd_good_def)
  from rd_prefix_annexb [OF u sets True] obtain pre where pre: "rd_prefix s = annexb pre"
    "rd_idr s \<longrightarrow> configured (annexb (pre @ ns))" "length (rd_prefix s) \<le> 2 * 65540" .
  have le: "length (rd_prefix s) \<le> kMaxAccessUnitBytes" using pre(3) by (simp add: kMaxAccessUnitBytes_def)
  let ?s1 = "if rd_idr s then s\<lparr>rd_waiting := False\<rparr> else s"
  have i1: "rd_inv (rd_clearAu ?s1)" "rd_inv (rd_clearAu (?s1\<lparr>rd_waiting := True\<rparr>))"
    using i by (simp_all add: inv_intros)
  show ?thesis
  proof (cases "length (rd_au s) > size_sub kMaxAccessUnitBytes (length (rd_prefix s))")
    case big: True
    then have "rd_emit s = ([RKeyframe], rd_clearAu (?s1\<lparr>rd_waiting := True\<rparr>))"
      using True by (simp add: rd_emit_def Let_def) (simp add: rd_clearAu_def)
    then show ?thesis using i1 by (simp add: rd_safe_def) (simp add: rd_clearAu_def)
  next
    case False
    have "ns \<noteq> []" using True u by (auto simp: rd_good_def rd_unit_def)
    then have ne: "rd_prefix s @ rd_au s \<noteq> []" using u by (cases ns) (auto simp: rd_unit_def)
    have "rd_emit s = ([RFrame (rd_prefix s @ rd_au s) (rd_timestamp s)], rd_clearAu ?s1)"
      unfolding rd_emit_def Let_def using True False ne by simp
    moreover have "rd_prefix s @ rd_au s = annexb (pre @ ns)" using pre(1) u by (simp add: rd_unit_def annexb_append)
    moreover have "length (rd_prefix s @ rd_au s) \<le> kMaxAccessUnitBytes" using False le by simp
    ultimately show ?thesis using pre(2) i1(1) ne True w
      by (auto simp: rd_safe_def rd_good_def)
  qed
qed

lemma rd_safe_tuple: "rd_safe w r \<Longrightarrow> r = (es, s) \<Longrightarrow> rd_safe w (es, s)"
  by simp

lemma rd_safe_boundary:
  assumes i: "rd_inv s" and w: "w \<Longrightarrow> rd_waiting s"
  shows "rd_safe w (rd_boundary packet gap s)"
proof -
  obtain e1 s1 where l: "(if gap \<or> rd_fu s \<noteq> [] then rd_lose s else ([], s)) = (e1, s1)" by fastforce
  have a: "rd_safe w (e1, s1)"
    using l rd_safe_lose [OF i, of w] i w by (auto simp: rd_safe_Nil split: if_splits)
  obtain e2 s2 where e: "rd_emit s1 = (e2, s2)" by fastforce
  have "rd_safe (gate_after w e1) (e2, s2)"
    using rd_safe_emit [OF rd_safeD(1) [OF a], of "gate_after w e1"] rd_safeD(2) [OF a] e by simp
  from rd_safe_append [OF a this] show ?thesis
    using i w by (simp add: rd_boundary_def l e rd_safe_Nil)
qed

lemma rd_safe_book [simp]: "rd_safe w (es, s\<lparr>rd_haveTimestamp := a\<rparr>) = rd_safe w (es, s)"
  by (simp add: rd_safe_def)

lemma rd_safe_deliver:
  assumes i: "rd_inv s0" and w: "w \<Longrightarrow> rd_waiting s0"
  shows "rd_safe w (rd_deliver packet gap s0)"
proof -
  obtain e1 s where l: "(if gap then rd_lose s0 else ([], s0)) = (e1, s)" by fastforce
  have a: "rd_safe w (e1, s)"
    using l rd_safe_lose [OF i, of w] i w by (auto simp: rd_safe_Nil split: if_splits)
  show ?thesis
  proof (cases "rd_damaged s \<or> rtp_payload packet ! 0 AND 128 \<noteq> 0")
    case True
    obtain e2 s2 where l2: "rd_lose s = (e2, s2)" by fastforce
    have "rd_safe (gate_after w e1) (e2, s2)" using rd_safe_lose [OF rd_safeD(1) [OF a]] l2 by simp
    from rd_safe_append [OF a this] have "rd_safe w (e1 @ e2, s2)" .
    moreover have "rd_safe w (e1, rd_clearAu s)"
      using a rd_inv_clear [of s] by (auto simp: rd_safe_def) (auto simp: rd_clearAu_def)
    ultimately show ?thesis using True a by (auto simp: rd_deliver_def l l2 Let_def)
  next
    case False
    obtain ok s2 where p: "rd_payload (rtp_payload packet) s = (ok, s2)" by fastforce
    from rd_payload_keeps [OF p rd_safeD(1) [OF a]] have k: "rd_inv s2" "rd_waiting s2 = rd_waiting s"
      by (simp_all add: rd_same_gate_def)
    obtain e3 s3 where l3: "(if \<not> ok then rd_lose s2 else ([], s2)) = (e3, s3)" by fastforce
    have "rd_safe (gate_after w e1) (e3, s3)"
      using l3 rd_safe_lose [OF k(1), of "gate_after w e1"] k rd_safeD(2) [OF a]
      by (auto simp: rd_safe_Nil split: if_splits)
    note b = rd_safe_append [OF a this]
    obtain e s4 where e: "rd_emit s3 = (e, s4)" by fastforce
    have "rd_safe (gate_after w (e1 @ e3)) (e, s4)"
      using rd_safe_emit [OF rd_safeD(1) [OF b], of "gate_after w (e1 @ e3)"] rd_safeD(2) [OF b] e by simp
    from rd_safe_append [OF b this] b show ?thesis
      using False by (auto simp: rd_deliver_def l p l3 e Let_def)
  qed
qed

lemma rd_safe_packet:
  assumes i: "rd_inv s" and w: "w \<Longrightarrow> rd_waiting s"
  shows "rd_safe w (rd_packet b s)"
proof (cases "parseRtp b")
  case None
  with rd_safe_lose [OF i] show ?thesis by (simp add: rd_packet_def)
next
  case (Some packet)
  define s2 where "s2 = (if rd_haveSsrc s \<and> rtp_ssrc packet \<noteq> rd_ssrc s then rd_Reset s else s)
      \<lparr>rd_haveSsrc := True, rd_ssrc := rtp_ssrc packet\<rparr>"
  define delta where "delta = sequenceDelta (rtp_sequence packet) (rd_sequence s2)"
  define s3 where "s3 = s2\<lparr>rd_sequence := rtp_sequence packet, rd_haveSequence := True\<rparr>"
  have i2: "rd_inv s2" "w \<Longrightarrow> rd_waiting s2" using i w by (auto simp: s2_def inv_intros) (auto simp: rd_Reset_def)
  have i3: "rd_inv s3" "w \<Longrightarrow> rd_waiting s3" using i2 by (simp_all add: s3_def)
  let ?gap = "rd_haveSequence s2 \<and> delta \<noteq> 1"
  obtain e1 s4 where bd: "rd_boundary packet ?gap s3 = (e1, s4)" by fastforce
  define s5 where "s5 = s4\<lparr>rd_timestamp := rtp_timestamp packet, rd_haveTimestamp := True\<rparr>"
  obtain e2 s6 where dl: "rd_deliver packet ?gap s5 = (e2, s6)" by fastforce
  have a: "rd_safe w (e1, s4)" using rd_safe_boundary [OF i3, where packet = packet and gap = ?gap] bd by simp
  have i5: "rd_inv s5" "gate_after w e1 \<Longrightarrow> rd_waiting s5" using rd_safeD [OF a] by (simp_all add: s5_def)
  have "rd_safe (gate_after w e1) (e2, s6)" using rd_safe_deliver [OF i5, where packet = packet and gap = ?gap] dl by simp
  note c = rd_safe_append [OF a this]
  have "rd_packet b s = (if rd_haveSequence s2 \<and> delta \<le> 0 then ([], s2) else (e1 @ e2, s6))"
    unfolding rd_packet_def Some option.case Let_def s2_def [symmetric] delta_def [symmetric] s3_def [symmetric]
      bd split_conv s5_def [symmetric] dl ..
  with c i2 show ?thesis by (simp add: rd_safe_Nil)
qed

section \<open>Runs\<close>

datatype rtp_input = RdPacket "bytes option" | RdReset

fun rd_step :: "rtp_input \<Rightarrow> rtp_depack \<Rightarrow> rtp_event list \<times> rtp_depack" where
  "rd_step (RdPacket p) s = rd_ProcessRtpPacket p s"
| "rd_step RdReset s = ([], rd_Reset s)"

fun rd_run :: "rtp_depack \<Rightarrow> rtp_input list \<Rightarrow> rtp_event list \<times> rtp_depack" where
  "rd_run s [] = ([], s)"
| "rd_run s (i # is) = (let (es, s') = rd_step i s; (fs, s'') = rd_run s' is in (es @ fs, s''))"

lemma rd_safe_step: "rd_inv s \<Longrightarrow> (w \<Longrightarrow> rd_waiting s) \<Longrightarrow> rd_safe w (rd_step i s)"
  by (cases "(i, s)" rule: rd_step.cases)
    (auto simp: rd_ProcessRtpPacket_def rd_safe_Nil inv_intros intro: rd_safe_packet split: option.splits,
     simp add: rd_Reset_def)

lemma rd_safe_run: "rd_inv s \<Longrightarrow> (w \<Longrightarrow> rd_waiting s) \<Longrightarrow> rd_safe w (rd_run s is)"
proof (induction "is" arbitrary: w s)
  case Nil
  then show ?case by (simp add: rd_safe_Nil)
next
  case (Cons i "is")
  obtain es s' where st: "rd_step i s = (es, s')" by fastforce
  have a: "rd_safe w (es, s')" using rd_safe_step [OF Cons.prems, where i = i] st by simp
  obtain fs s'' where r: "rd_run s' is = (fs, s'')" by fastforce
  have "rd_safe (gate_after w es) (fs, s'')"
    using Cons.IH [OF rd_safeD(1) [OF a], of "gate_after w es"] rd_safeD(2) [OF a] r by simp
  from rd_safe_append [OF a this] show ?case by (simp add: st r)
qed

fun rtp_frames :: "rtp_event list \<Rightarrow> bytes list" where
  "rtp_frames [] = []"
| "rtp_frames (RKeyframe # es) = rtp_frames es"
| "rtp_frames (RFrame f t # es) = f # rtp_frames es"

lemma gated_frames: "gated True es \<Longrightarrow> rtp_frames es = f # fs \<Longrightarrow> configured f"
  by (induction es rule: rtp_frames.induct) auto

lemma gate_after_frames: "rtp_frames es = [] \<Longrightarrow> gate_after True es"
  by (induction es rule: rtp_frames.induct) auto

lemma sized_frames: "list_all sized es \<Longrightarrow> f \<in> set (rtp_frames es) \<Longrightarrow> f \<noteq> [] \<and> length f \<le> kMaxAccessUnitBytes"
  by (induction es rule: rtp_frames.induct) auto

definition rd_source :: "rtp_input \<Rightarrow> rtp_depack \<Rightarrow> bytes list \<times> rtp_depack" where
  "rd_source i s = (let (es, s') = rd_step i s in (rtp_frames es, s'))"

lemma rd_source_safe:
  assumes "rd_inv s" "rd_source i s = (fs, s')"
  obtains es where "rd_step i s = (es, s')" "fs = rtp_frames es" "rd_safe False (es, s')"
    "rd_waiting s \<Longrightarrow> rd_safe True (es, s')"
  using rd_safe_step [OF assms(1), of False i] rd_safe_step [OF assms(1), of True i] assms(2) that
  by (cases "rd_step i s") (auto simp: rd_source_def)

interpretation rdv: video_source rd_source rd_inv rd_waiting kMaxAccessUnitBytes
proof unfold_locales
  fix s i fs s' f assume a: "rd_inv s" "rd_source i s = (fs, s')"
  from rd_source_safe [OF a] obtain es where es: "rd_step i s = (es, s')" "fs = rtp_frames es"
    "rd_safe False (es, s')" "rd_waiting s \<Longrightarrow> rd_safe True (es, s')" by blast
  show "rd_inv s'" using rd_safeD(1) [OF es(3)] .
  show "f \<in> set fs \<Longrightarrow> f \<noteq> [] \<and> length f \<le> kMaxAccessUnitBytes"
    using sized_frames [of es f] es by (simp add: rd_safe_def)
next
  fix s i f fs s' assume a: "rd_inv s" "rd_waiting s" "rd_source i s = (f # fs, s')"
  from rd_source_safe [OF a(1,3)] a(2) gated_frames show "configured f"
    by (metis fst_conv rd_safe_def)
next
  fix s i s' assume a: "rd_inv s" "rd_waiting s" "rd_source i s = ([], s')"
  from rd_source_safe [OF a(1,3)] a(2) gate_after_frames show "rd_waiting s'"
    by (metis rd_safeD(2))
qed

section \<open>What a sender writes\<close>

text \<open>A NAL unit travels alone in a packet or in at least two fragments (RFC 6184, FU-A).\<close>

datatype unit = Single bytes | Fragmented u8 "bytes list"

definition fu_payload :: "u8 \<Rightarrow> u8 \<Rightarrow> bytes \<Rightarrow> bytes" where
  "fu_payload h flags frag = ((h AND 224) OR 28) # (flags OR (h AND 31)) # frag"

fun fu_rest :: "u8 \<Rightarrow> bytes list \<Rightarrow> bytes list" where
  "fu_rest h [] = []"
| "fu_rest h [f] = [fu_payload h 64 f]"
| "fu_rest h (f # g # fs) = fu_payload h 0 f # fu_rest h (g # fs)"

fun unit_payloads :: "unit \<Rightarrow> bytes list" where
  "unit_payloads (Single n) = [n]"
| "unit_payloads (Fragmented h []) = []"
| "unit_payloads (Fragmented h (f # fs)) = fu_payload h 128 f # fu_rest h fs"

fun unit_nal :: "unit \<Rightarrow> bytes" where
  "unit_nal (Single n) = n"
| "unit_nal (Fragmented h fs) = h # concat fs"

fun wf_unit :: "unit \<Rightarrow> bool" where
  "wf_unit (Single n) \<longleftrightarrow> validNal n \<and> (nal_type n = 7 \<or> nal_type n = 8 \<longrightarrow> length n \<le> 65536)"
| "wf_unit (Fragmented h fs) \<longleftrightarrow> validNal [h] \<and> 2 \<le> length fs \<and> (\<forall>f \<in> set fs. f \<noteq> []) \<and>
     (h AND 31 = 7 \<or> h AND 31 = 8 \<longrightarrow> length (concat fs) < 65536)"

lemma fu_header_bits:
  fixes h :: u8
  assumes "h AND 128 = 0" and fl: "flags \<in> {0, 64, 128}"
  shows "((h AND 224) OR 28) AND 128 = 0" "((h AND 224) OR 28) AND 31 = 28"
    "((h AND 224) OR 28) AND 224 = h AND 224" "(flags OR (h AND 31)) AND 31 = h AND 31"
    "(flags OR (h AND 31)) AND 32 = 0" "(flags OR (h AND 31)) AND 192 = flags"
    "(flags OR (h AND 31)) AND 128 = flags AND 128" "(flags OR (h AND 31)) AND 64 = flags AND 64"
    "(h AND 224) OR (h AND 31) = h"
proof -
  have "(h AND 224) AND 128 = h AND 128" by (simp add: and.assoc)
  then show "((h AND 224) OR 28) AND 128 = 0" using assms(1) by (simp add: word_ao_dist)
  show "((h AND 224) OR 28) AND 31 = 28" by (simp add: word_ao_dist and.assoc)
  show "((h AND 224) OR 28) AND 224 = h AND 224" by (simp add: word_ao_dist and.assoc)
  show "(flags OR (h AND 31)) AND 31 = h AND 31" using fl by (auto simp: word_ao_dist and.assoc)
  show "(flags OR (h AND 31)) AND 32 = 0" using fl by (auto simp: word_ao_dist and.assoc)
  show "(flags OR (h AND 31)) AND 192 = flags" using fl by (auto simp: word_ao_dist and.assoc)
  show "(flags OR (h AND 31)) AND 128 = flags AND 128" using fl by (auto simp: word_ao_dist and.assoc)
  show "(flags OR (h AND 31)) AND 64 = flags AND 64" using fl by (auto simp: word_ao_dist and.assoc)
  have "(h AND 224) OR (h AND 31) = h AND (224 OR 31)" by (simp only: word_ao_dist2)
  also have "\<dots> = h AND mask 8" by (simp add: mask_eq_exp_minus_1)
  also have "\<dots> = h" by (rule bit_word_eqI) (simp add: bit_simps)
  finally show "(h AND 224) OR (h AND 31) = h" .
qed

text \<open>The state in the middle of an intact access unit: complete NAL units \<open>ns\<close>, fragments \<open>fu\<close>,
  and parameter sets.\<close>

definition rd_rel :: "rtp_depack \<Rightarrow> bytes list \<Rightarrow> bytes \<Rightarrow> bytes \<times> bytes \<Rightarrow> bool" where
  "rd_rel s ns fu ps \<longleftrightarrow> rd_unit s ns \<and> rd_fu s = fu \<and> \<not> rd_damaged s \<and> (rd_sps s, rd_pps s) = ps \<and>
     (fu \<noteq> [] \<longrightarrow> rd_fuHeader s = hd fu)"

definition sets_after :: "bytes \<Rightarrow> bytes \<times> bytes \<Rightarrow> bytes \<times> bytes" where
  "sets_after n ps = (if nal_type n = 7 then n else fst ps,
     if nal_type n = 8 then n else if nal_type n = 7 \<and> fst ps \<noteq> n then [] else snd ps)"

text \<open>The packet bookkeeping, which the payload handlers leave alone.\<close>

definition rd_book :: "rtp_depack \<Rightarrow> bool \<times> u32 \<times> bool \<times> u16 \<times> bool \<times> u32 \<times> bool" where
  "rd_book s = (rd_haveSsrc s, rd_ssrc s, rd_haveSequence s, rd_sequence s, rd_haveTimestamp s, rd_timestamp s,
     rd_waiting s)"

lemma rd_book_appendNalu: "rd_appendNalu n s = (ok, s') \<Longrightarrow> rd_book s' = rd_book s \<and> rd_fuHeader s' = rd_fuHeader s"
  by (auto simp: rd_appendNalu_def rd_book_def Let_def split: if_splits)

lemma append_nalu_rel:
  assumes r: "rd_unit s ns" "\<not> rd_damaged s" and v: "validNal n" "nal_type n = 7 \<or> nal_type n = 8 \<longrightarrow> length n \<le> 65536"
    and len: "length (annexb (ns @ [n])) \<le> kMaxAccessUnitBytes"
  shows "\<exists>s'. rd_appendNalu n s = (True, s') \<and> rd_unit s' (ns @ [n]) \<and> \<not> rd_damaged s' \<and> rd_fu s' = rd_fu s \<and>
    (rd_sps s', rd_pps s') = sets_after n (rd_sps s, rd_pps s) \<and> rd_book s' = rd_book s"
proof -
  have "length (rd_au s) + length n + 4 \<le> kMaxAccessUnitBytes"
    using len r(1) by (simp add: rd_unit_def annexb_append)
  then have "fst (rd_appendNalu n s)"
    using v by (auto simp: rd_appendNalu_def Let_def nal_type_def kMaxAccessUnitBytes_def)
  then obtain s' where a: "rd_appendNalu n s = (True, s')" by (cases "rd_appendNalu n s") auto
  from rd_unit_append [OF r(1) a] rd_appendNalu_ok [OF a] rd_appendNalu_fields [OF a] rd_book_appendNalu [OF a] a r(2)
  show ?thesis by (auto simp: sets_after_def)
qed

lemma single_rel:
  assumes r: "rd_rel s ns [] ps" and u: "wf_unit (Single n)" and len: "length (annexb (ns @ [n])) \<le> kMaxAccessUnitBytes"
  shows "\<exists>s'. rd_payload n s = (True, s') \<and> rd_rel s' (ns @ [n]) [] (sets_after n ps) \<and> rd_book s' = rd_book s"
proof -
  have v: "validNal n" "nal_type n = 7 \<or> nal_type n = 8 \<longrightarrow> length n \<le> 65536" using u by auto
  have "1 \<le> n ! 0 AND 31 \<and> n ! 0 AND 31 \<le> 23" using v(1) by (simp add: validNal_def)
  then have "rd_payload n s = rd_appendNalu n s" using r by (simp add: rd_payload_def Let_def rd_rel_def)
  with append_nalu_rel [OF _ _ v len, of s] r show ?thesis by (auto simp: rd_rel_def)
qed

text \<open>One fragment.\<close>

lemma fua_fragment_rel:
  assumes r: "rd_rel s ns fu ps" and h: "validNal [h]" and f: "f \<noteq> []"
    and fl: "flags = 128 \<and> fu = [] \<or> flags \<in> {0, 64} \<and> fu \<noteq> [] \<and> hd fu = h"
    and len: "length (annexb ns) + 4 + length (if fu = [] then [h] else fu) + length f \<le> kMaxAccessUnitBytes"
  defines "fu' \<equiv> (if fu = [] then [h] else fu) @ f"
  shows "flags \<noteq> 64 \<Longrightarrow> \<exists>s'. rd_payload (fu_payload h flags f) s = (True, s') \<and> rd_rel s' ns fu' ps \<and> rd_book s' = rd_book s"
    "flags = 64 \<Longrightarrow> nal_type fu' = 7 \<or> nal_type fu' = 8 \<longrightarrow> length fu' \<le> 65536 \<Longrightarrow>
      \<exists>s'. rd_payload (fu_payload h flags f) s = (True, s') \<and> rd_rel s' (ns @ [fu']) [] (sets_after fu' ps) \<and>
        rd_book s' = rd_book s"
proof -
  let ?p = "fu_payload h flags f"
  have h0: "h AND 128 = 0" and h1: "h AND 31 \<noteq> 0" "\<not> h AND 31 > 23"
    using h by (auto simp: validNal_def word_le_nat_alt word_less_nat_alt)
  have flv: "flags \<in> {0, 64, 128}" using fl by auto
  note b = fu_header_bits [OF h0 flv]
  have p: "?p ! 0 = (h AND 224) OR 28" "?p ! 1 = flags OR (h AND 31)" "length ?p = length f + 2" "drop 2 ?p = f"
    by (simp_all add: fu_payload_def)
  have "rd_payload ?p s = rd_fua ?p s" by (simp add: rd_payload_def p b)
  define s1 where "s1 = (if flags = 128 then s\<lparr>rd_fuHeader := h, rd_fu := [h]\<rparr> else s)"
  define s2 where "s2 = s1\<lparr>rd_fu := fu'\<rparr>"
  have au: "rd_au s = annexb ns" "rd_fu s = fu" using r by (auto simp: rd_rel_def rd_unit_def)
  have fu1: "rd_fu s1 = (if fu = [] then [h] else fu)" using fl au by (auto simp: s1_def)
  have au1: "rd_au s1 = annexb ns" using au by (simp add: s1_def)
  have hd: "fu \<noteq> [] \<Longrightarrow> rd_fuHeader s = h" using r fl by (auto simp: rd_rel_def)
  have c: "\<not> length ?p < 3" using f unfolding p(3) by (cases f) simp_all
  have c2: "?p ! 1 AND 32 = 0" "?p ! 1 AND 31 = h AND 31" "?p ! 1 AND 192 = flags" by (simp_all only: p b)
  have c3: "flags \<noteq> 192" using flv by auto
  have head: "(if length ?p < 3 \<or> ?p ! 1 AND 32 \<noteq> 0 \<or> ?p ! 1 AND 31 = 0 \<or> ?p ! 1 AND 31 > 23 \<or> ?p ! 1 AND 192 = 192
      then A else B) = B" for A B :: "bool \<times> rtp_depack"
    unfolding c2 using c c3 h1 by (simp only: simp_thms if_False)
  have fits: "\<not> (length f > kMaxAccessUnitBytes - 4 \<or> length (rd_fu s1) > kMaxAccessUnitBytes - 4 - length f \<or>
      length (rd_au s1) > kMaxAccessUnitBytes - 4 - length f - length (rd_fu s1))"
    using len by (auto simp: fu1 au1)
  have sel: "(if flags AND 128 \<noteq> 0 then if rd_fu s \<noteq> [] then (False, s) else (True, s\<lparr>rd_fuHeader := h, rd_fu := [h]\<rparr>)
      else if rd_fu s = [] \<or> rd_fuHeader s \<noteq> h then (False, s) else (True, s)) = (True, s1)"
    using fl hd au by (auto simp: s1_def)
  have run: "rd_payload ?p s = (if flags = 64 then let (ok, s3) = rd_appendNalu fu' s2 in (ok, s3\<lparr>rd_fu := []\<rparr>) else (True, s2))"
    unfolding \<open>rd_payload ?p s = rd_fua ?p s\<close> rd_fua_def head
    unfolding Let_def p b sel split_conv
    using fits flv by (auto simp: s2_def fu'_def fu1 split: if_splits)
  have rel2: "rd_unit s2 ns" "\<not> rd_damaged s2" "(rd_sps s2, rd_pps s2) = ps" "rd_book s2 = rd_book s" "rd_fu s2 = fu'"
    "rd_fuHeader s2 = h"
    using r fl hd by (auto simp: s2_def s1_def rd_rel_def rd_unit_def rd_book_def)
  have hd': "hd fu' = h" "fu' ! 0 = h" "fu' \<noteq> []" using fl by (auto simp: fu'_def hd_conv_nth nth_append)
  show "\<exists>s'. rd_payload ?p s = (True, s') \<and> rd_rel s' ns fu' ps \<and> rd_book s' = rd_book s" if "flags \<noteq> 64"
    using run that rel2 hd' by (simp add: rd_rel_def)
  show "\<exists>s'. rd_payload ?p s = (True, s') \<and> rd_rel s' (ns @ [fu']) [] (sets_after fu' ps) \<and> rd_book s' = rd_book s"
    if "flags = 64" "nal_type fu' = 7 \<or> nal_type fu' = 8 \<longrightarrow> length fu' \<le> 65536"
  proof -
    have v: "validNal fu'" using h hd' by (simp add: validNal_def)
    have l: "length (annexb (ns @ [fu'])) \<le> kMaxAccessUnitBytes" using len by (simp add: annexb_append fu'_def)
    from append_nalu_rel [OF rel2(1,2) v that(2) l] obtain s3 where "rd_appendNalu fu' s2 = (True, s3)"
      "rd_unit s3 (ns @ [fu'])" "\<not> rd_damaged s3" "(rd_sps s3, rd_pps s3) = sets_after fu' ps" "rd_book s3 = rd_book s"
      using rel2 by auto
    with run that(1) show ?thesis by (auto simp: rd_rel_def rd_unit_def rd_book_def)
  qed
qed

text \<open>A payload takes every state that is at \<open>c\<close> to one that is at \<open>c'\<close>, without events.\<close>

type_synonym au_point = "bytes list \<times> bytes \<times> (bytes \<times> bytes)"

definition at_point :: "rtp_depack \<Rightarrow> au_point \<Rightarrow> bool" where
  "at_point s c = rd_rel s (fst c) (fst (snd c)) (snd (snd c))"

definition moves :: "bytes \<Rightarrow> au_point \<Rightarrow> au_point \<Rightarrow> bool" where
  "moves p c c' \<longleftrightarrow> p ! 0 AND 128 = 0 \<and> (\<forall>s. at_point s c \<longrightarrow>
     (\<exists>s'. rd_payload p s = (True, s') \<and> at_point s' c' \<and> rd_book s' = rd_book s))"

inductive absorbs :: "bytes list \<Rightarrow> au_point \<Rightarrow> au_point \<Rightarrow> bool" where
  absorbs_Nil: "absorbs [] c c"
| absorbs_Cons: "moves p c c1 \<Longrightarrow> absorbs ps c1 c2 \<Longrightarrow> absorbs (p # ps) c c2"

inductive_cases absorbs_NilE: "absorbs [] c d"
inductive_cases absorbs_ConsE: "absorbs (p # ps) c d"

lemma absorbs_append: "absorbs ps c c1 \<Longrightarrow> absorbs qs c1 c2 \<Longrightarrow> absorbs (ps @ qs) c c2"
  by (induction rule: absorbs.induct) (auto intro: absorbs.intros)

lemma moves_single:
  assumes "wf_unit (Single n)" "length (annexb (ns @ [n])) \<le> kMaxAccessUnitBytes"
  shows "moves n (ns, [], ps) (ns @ [n], [], sets_after n ps)"
  using single_rel [OF _ assms] assms(1) by (auto simp: moves_def at_point_def validNal_def)

lemma moves_fragment:
  assumes h: "validNal [h]" and f: "f \<noteq> []"
    and fl: "flags = 128 \<and> fu = [] \<or> flags = 0 \<and> fu \<noteq> [] \<and> hd fu = h"
    and len: "length (annexb ns) + 4 + length (if fu = [] then [h] else fu) + length f \<le> kMaxAccessUnitBytes"
  shows "moves (fu_payload h flags f) (ns, fu, ps) (ns, (if fu = [] then [h] else fu) @ f, ps)"
proof -
  have "fu_payload h flags f ! 0 AND 128 = 0"
    using fu_header_bits(1) [of h flags] h fl by (auto simp: fu_payload_def validNal_def)
  moreover have "flags = 128 \<and> fu = [] \<or> flags \<in> {0, 64} \<and> fu \<noteq> [] \<and> hd fu = h" "flags \<noteq> 64" using fl by auto
  ultimately show ?thesis
    using fua_fragment_rel(1) [OF _ h f _ len] by (simp add: moves_def at_point_def)
qed

lemma moves_final:
  assumes h: "validNal [h]" and f: "f \<noteq> []" and fu: "fu \<noteq> []" "hd fu = h"
    and len: "length (annexb ns) + 4 + length fu + length f \<le> kMaxAccessUnitBytes"
    and ty: "nal_type (fu @ f) = 7 \<or> nal_type (fu @ f) = 8 \<longrightarrow> length (fu @ f) \<le> 65536"
  shows "moves (fu_payload h 64 f) (ns, fu, ps) (ns @ [fu @ f], [], sets_after (fu @ f) ps)"
proof -
  have "fu_payload h 64 f ! 0 AND 128 = 0"
    using fu_header_bits(1) [of h 64] h by (auto simp: fu_payload_def validNal_def)
  moreover have "\<exists>s'. rd_payload (fu_payload h 64 f) s = (True, s') \<and>
      rd_rel s' (ns @ [fu @ f]) [] (sets_after (fu @ f) ps) \<and> rd_book s' = rd_book s" if r: "rd_rel s ns fu ps" for s
    using fua_fragment_rel(2) [OF r h f, of 64] fu len ty by simp
  ultimately show ?thesis by (simp add: moves_def at_point_def)
qed

lemma absorbs_fu_rest:
  "validNal [h] \<Longrightarrow> fs \<noteq> [] \<Longrightarrow> \<forall>f \<in> set fs. f \<noteq> [] \<Longrightarrow> fu \<noteq> [] \<Longrightarrow> hd fu = h \<Longrightarrow>
   length (annexb ns) + 4 + length fu + length (concat fs) \<le> kMaxAccessUnitBytes \<Longrightarrow>
   nal_type fu = 7 \<or> nal_type fu = 8 \<longrightarrow> length (fu @ concat fs) \<le> 65536 \<Longrightarrow>
   absorbs (fu_rest h fs) (ns, fu, ps) (ns @ [fu @ concat fs], [], sets_after (fu @ concat fs) ps)"
proof (induction h fs arbitrary: fu rule: fu_rest.induct)
  case (2 h f)
  then have "nal_type (fu @ f) = nal_type fu" by (simp add: nal_type_def nth_append)
  with 2 have "moves (fu_payload h 64 f) (ns, fu, ps) (ns @ [fu @ f], [], sets_after (fu @ f) ps)"
    by (intro moves_final) simp_all
  then show ?case by (auto intro: absorbs.intros)
next
  case (3 h f g fs)
  have "moves (fu_payload h 0 f) (ns, fu, ps) (ns, fu @ f, ps)"
    using moves_fragment [of h f 0 fu ns ps] 3 by simp
  moreover have "nal_type (fu @ f) = nal_type fu" using 3(5) by (simp add: nal_type_def nth_append)
  then have "absorbs (fu_rest h (g # fs)) (ns, fu @ f, ps)
      (ns @ [(fu @ f) @ concat (g # fs)], [], sets_after ((fu @ f) @ concat (g # fs)) ps)"
    using 3 by (intro "3.IH") simp_all
  ultimately show ?case by (simp add: absorbs_Cons)
qed simp

lemma absorbs_unit:
  assumes "wf_unit u" "length (annexb (ns @ [unit_nal u])) \<le> kMaxAccessUnitBytes"
  shows "absorbs (unit_payloads u) (ns, [], ps) (ns @ [unit_nal u], [], sets_after (unit_nal u) ps)"
proof (cases u)
  case (Single n)
  with moves_single [of n ns ps] assms show ?thesis by (auto intro: absorbs.intros)
next
  case (Fragmented h fs)
  then obtain f g fs' where fs: "fs = f # g # fs'"
    using assms(1) by (cases fs; cases "tl fs") auto
  have l: "length (annexb ns) + 4 + length [h] + length f \<le> kMaxAccessUnitBytes"
    using assms(2) by (simp add: Fragmented fs annexb_append)
  have "moves (fu_payload h 128 f) (ns, [], ps) (ns, [h] @ f, ps)"
    using moves_fragment [of h f 128 "[]" ns ps] assms(1) l by (simp add: Fragmented fs)
  moreover have "absorbs (fu_rest h (g # fs')) (ns, [h] @ f, ps)
      (ns @ [([h] @ f) @ concat (g # fs')], [], sets_after (([h] @ f) @ concat (g # fs')) ps)"
    using assms by (intro absorbs_fu_rest) (auto simp: Fragmented fs annexb_append nal_type_def)
  ultimately show ?thesis by (simp add: Fragmented fs absorbs_Cons)
qed

lemma absorbs_units:
  "list_all wf_unit us \<Longrightarrow> length (annexb (ns @ map unit_nal us)) \<le> kMaxAccessUnitBytes \<Longrightarrow>
   absorbs (concat (map unit_payloads us)) (ns, [], ps) (ns @ map unit_nal us, [], fold sets_after (map unit_nal us) ps)"
proof (induction us arbitrary: ns ps)
  case (Cons u us)
  have "absorbs (unit_payloads u) (ns, [], ps) (ns @ [unit_nal u], [], sets_after (unit_nal u) ps)"
    using Cons.prems by (intro absorbs_unit) (simp_all add: annexb_append)
  moreover have "absorbs (concat (map unit_payloads us)) (ns @ [unit_nal u], [], sets_after (unit_nal u) ps)
      ((ns @ [unit_nal u]) @ map unit_nal us, [], fold sets_after (map unit_nal us) (sets_after (unit_nal u) ps))"
    using Cons.prems by (intro Cons.IH) simp_all
  ultimately show ?case by (simp add: absorbs_append)
qed (simp add: absorbs_Nil)

text \<open>Packets of one access unit: consecutive sequence numbers, the marker on the last one.\<close>

definition au_ready :: "rtp_depack \<Rightarrow> u16 \<Rightarrow> u32 \<Rightarrow> u32 \<Rightarrow> bool" where
  "au_ready s q ts src \<longleftrightarrow> (rd_haveSsrc s \<longrightarrow> rd_ssrc s = src) \<and> (rd_haveSequence s \<longrightarrow> rd_sequence s + 1 = q) \<and>
     (rd_haveTimestamp s \<longrightarrow> rd_timestamp s = ts)"

definition one_au :: "u32 \<Rightarrow> u32 \<Rightarrow> RtpPacket list \<Rightarrow> bool" where
  "one_au ts src ps \<longleftrightarrow> ps \<noteq> [] \<and> list_all (\<lambda>p. rtp_timestamp p = ts \<and> rtp_ssrc p = src) ps \<and>
     successively (\<lambda>p p'. rtp_sequence p' = rtp_sequence p + 1) ps \<and>
     list_all (\<lambda>p. \<not> rtp_marker p) (butlast ps) \<and> rtp_marker (last ps)"

lemma rd_rel_book [simp]:
  "rd_rel (s\<lparr>rd_haveTimestamp := a\<rparr>) = rd_rel s" "rd_rel (s\<lparr>rd_timestamp := t\<rparr>) = rd_rel s"
  "rd_rel (s\<lparr>rd_haveSsrc := a\<rparr>) = rd_rel s" "rd_rel (s\<lparr>rd_ssrc := t\<rparr>) = rd_rel s"
  "rd_rel (s\<lparr>rd_haveSequence := a\<rparr>) = rd_rel s" "rd_rel (s\<lparr>rd_sequence := q\<rparr>) = rd_rel s"
  by (simp_all add: rd_rel_def rd_unit_def fun_eq_iff)

lemma sequenceDelta_next: "sequenceDelta (q + 1) q = 1"
  by (simp add: sequenceDelta_def Let_def)

lemma packet_moves:
  assumes b: "parseRtp b = Some p" and m: "moves (rtp_payload p) c c'" and c: "at_point s c"
    and r: "au_ready s (rtp_sequence p) (rtp_timestamp p) (rtp_ssrc p)"
  shows "\<exists>s'. at_point s' c' \<and> au_ready s' (rtp_sequence p + 1) (rtp_timestamp p) (rtp_ssrc p) \<and>
    rd_timestamp s' = rtp_timestamp p \<and> rd_waiting s' = rd_waiting s \<and>
    rd_packet b s = (if rtp_marker p then let (e, t) = rd_emit s' in (e, t\<lparr>rd_haveTimestamp := False\<rparr>) else ([], s'))"
proof -
  define s2 where "s2 = s\<lparr>rd_haveSsrc := True, rd_ssrc := rtp_ssrc p\<rparr>"
  define s3 where "s3 = s2\<lparr>rd_sequence := rtp_sequence p, rd_haveSequence := True\<rparr>"
  define s5 where "s5 = s3\<lparr>rd_timestamp := rtp_timestamp p, rd_haveTimestamp := True\<rparr>"
  have c5: "at_point s5 c" using c by (simp add: at_point_def s5_def s3_def s2_def)
  with m obtain s' where s': "rd_payload (rtp_payload p) s5 = (True, s')" "at_point s' c'" "rd_book s' = rd_book s5"
    by (auto simp: moves_def)
  have fresh: "\<not> rd_damaged s5" using c5 by (simp add: at_point_def rd_rel_def)
  have bit0: "rtp_payload p ! 0 AND 128 = 0" using m by (simp add: moves_def)
  have del: "rd_deliver p False s5 =
      (if rtp_marker p then let (e, t) = rd_emit s' in (e, t\<lparr>rd_haveTimestamp := False\<rparr>) else ([], s'))"
    using fresh bit0 s'(1) by (simp add: rd_deliver_def Let_def case_prod_beta)
  have s2': "(if rd_haveSsrc s \<and> rtp_ssrc p \<noteq> rd_ssrc s then rd_Reset s else s)
      \<lparr>rd_haveSsrc := True, rd_ssrc := rtp_ssrc p\<rparr> = s2" using r by (auto simp: au_ready_def s2_def)
  have seq: "rd_haveSequence s2 \<Longrightarrow> sequenceDelta (rtp_sequence p) (rd_sequence s2) = 1"
    using r sequenceDelta_next [of "rd_sequence s"] by (auto simp: au_ready_def s2_def)
  have bd: "rd_boundary p False s3 = ([], s3)"
    using r by (auto simp: rd_boundary_def au_ready_def s3_def s2_def)
  have ng: "(rd_haveSequence s2 \<and> sequenceDelta (rtp_sequence p) (rd_sequence s2) \<le> 0) = False"
    "(rd_haveSequence s2 \<and> sequenceDelta (rtp_sequence p) (rd_sequence s2) \<noteq> 1) = False" using seq by auto
  have pk: "rd_packet b s = rd_deliver p False s5"
    unfolding rd_packet_def b option.case Let_def s2' ng if_False s3_def [symmetric] bd split_conv s5_def [symmetric]
    by (simp add: case_prod_beta)
  have "au_ready s' (rtp_sequence p + 1) (rtp_timestamp p) (rtp_ssrc p)" "rd_timestamp s' = rtp_timestamp p"
    "rd_waiting s' = rd_waiting s"
    using s'(3) by (simp_all add: rd_book_def au_ready_def s5_def s3_def s2_def)
  with s'(2) show ?thesis by (intro exI [of _ s'] conjI) (assumption+, simp only: pk del)
qed

lemma rd_run_packets:
  "absorbs (map rtp_payload ps) c c' \<Longrightarrow> map parseRtp bs = map Some ps \<Longrightarrow> one_au ts src ps \<Longrightarrow>
   at_point s c \<Longrightarrow> au_ready s (rtp_sequence (hd ps)) ts src \<Longrightarrow>
   \<exists>s'. at_point s' c' \<and> rd_timestamp s' = ts \<and> rd_waiting s' = rd_waiting s \<and>
     rd_run s (map (\<lambda>b. RdPacket (Some b)) bs) = (let (e, t) = rd_emit s' in (e, t\<lparr>rd_haveTimestamp := False\<rparr>))"
proof (induction ps arbitrary: bs s c)
  case Nil
  then show ?case by (simp add: one_au_def)
next
  case (Cons p ps)
  from Cons.prems(2) obtain b bs' where bs: "bs = b # bs'" "parseRtp b = Some p" "map parseRtp bs' = map Some ps" by auto
  from Cons.prems(1) obtain c1 where m: "moves (rtp_payload p) c c1" and a: "absorbs (map rtp_payload ps) c1 c'"
    by (auto elim: absorbs_ConsE)
  have p: "rtp_timestamp p = ts" "rtp_ssrc p = src" using Cons.prems(3) by (simp_all add: one_au_def)
  from packet_moves [OF bs(2) m Cons.prems(4)] Cons.prems(5) p obtain s' where s': "at_point s' c1"
    "au_ready s' (rtp_sequence p + 1) ts src" "rd_timestamp s' = ts" "rd_waiting s' = rd_waiting s"
    and run: "rd_packet b s = (if rtp_marker p then let (e, t) = rd_emit s' in (e, t\<lparr>rd_haveTimestamp := False\<rparr>) else ([], s'))"
    by auto
  show ?case
  proof (cases ps)
    case Nil
    then have "c1 = c'" using a by (auto elim: absorbs_NilE)
    moreover have "rtp_marker p" "bs' = []" using Cons.prems(3) Nil bs(3) by (auto simp: one_au_def)
    ultimately show ?thesis
      using s' run by (intro exI [of _ s']) (simp add: bs(1) rd_ProcessRtpPacket_def case_prod_beta Let_def)
  next
    case (Cons p2 ps2)
    have nm: "\<not> rtp_marker p" and o: "one_au ts src ps" and q: "rtp_sequence (hd ps) = rtp_sequence p + 1"
      using Cons.prems(3) Cons by (auto simp: one_au_def)
    from Cons.IH [OF a bs(3) o s'(1)] s' q obtain s'' where "at_point s'' c'" "rd_timestamp s'' = ts"
      "rd_waiting s'' = rd_waiting s"
      "rd_run s' (map (\<lambda>b. RdPacket (Some b)) bs') = (let (e, t) = rd_emit s'' in (e, t\<lparr>rd_haveTimestamp := False\<rparr>))" by auto
    then show ?thesis using run nm
      by (intro exI [of _ s'']) (simp add: bs(1) rd_ProcessRtpPacket_def case_prod_beta Let_def)
  qed
qed

lemma fold_sets_after:
  "\<forall>n \<in> set ns. nal_type n \<noteq> 7 \<and> n \<noteq> [] \<Longrightarrow> snd ps \<noteq> [] \<Longrightarrow>
   fst (fold sets_after ns ps) = fst ps \<and> snd (fold sets_after ns ps) \<noteq> []"
  by (induction ns arbitrary: ps) (auto simp: sets_after_def)

lemma unit_nal_valid: "wf_unit u \<Longrightarrow> validNal (unit_nal u)"
  by (cases u) (auto simp: validNal_def)

text \<open>An access unit with its parameter sets in front, sent from the start of a session.\<close>

lemma rd_delivers_au:
  assumes b: "map parseRtp bs = map Some ps" and o: "one_au ts src ps"
    and pl: "map rtp_payload ps = concat (map unit_payloads us)" and wf: "list_all wf_unit us"
    and len: "length (annexb (map unit_nal us)) \<le> kMaxAccessUnitBytes"
    and order: "map unit_nal us = sp # pp # rest" "nal_type sp = 7" "nal_type pp = 8"
      "\<forall>n \<in> set rest. nal_type n \<noteq> 7" "\<exists>n \<in> set rest. nal_type n = 5"
  shows "fst (rd_run rd_init (map (\<lambda>b. RdPacket (Some b)) bs)) = [RFrame (annexb (map unit_nal us)) ts]"
proof -
  let ?ns = "map unit_nal us"
  have i: "at_point rd_init ([], [], ([], []))" "au_ready rd_init (rtp_sequence (hd ps)) ts src"
    by (auto simp: at_point_def rd_rel_def rd_init_def rd_unit_def au_ready_def)
  have ab: "absorbs (map rtp_payload ps) ([], [], ([], [])) (?ns, [], fold sets_after ?ns ([], []))"
    using absorbs_units [OF wf, of "[]" "([], [])"] len pl by simp
  from rd_run_packets [OF ab b o i] obtain s' where s': "at_point s' (?ns, [], fold sets_after ?ns ([], []))"
    "rd_timestamp s' = ts"
    and run: "rd_run rd_init (map (\<lambda>b. RdPacket (Some b)) bs) = (let (e, t) = rd_emit s' in (e, t\<lparr>rd_haveTimestamp := False\<rparr>))"
    by blast
  have ne: "\<forall>n \<in> set ?ns. n \<noteq> []" using wf unit_nal_valid by (fastforce simp: list_all_iff validNal_def)
  then have ne': "sp \<noteq> []" "pp \<noteq> []" "\<forall>n \<in> set rest. nal_type n \<noteq> 7 \<and> n \<noteq> []" using order by auto
  have "(rd_sps s', rd_pps s') = fold sets_after ?ns ([], [])" using s'(1) by (simp add: at_point_def rd_rel_def)
  also have "\<dots> = fold sets_after rest (sp, pp)" using order by (simp add: sets_after_def)
  finally have e: "fold sets_after rest (sp, pp) = (rd_sps s', rd_pps s')" ..
  from fold_sets_after [OF ne'(3), of "(sp, pp)", unfolded e] ne' have sets: "rd_sps s' \<noteq> []" "rd_pps s' \<noteq> []"
    by simp_all
  have u: "rd_unit s' ?ns" "rd_fu s' = []" "\<not> rd_damaged s'" using s'(1) by (simp_all add: at_point_def rd_rel_def)
  obtain n5 where n5: "n5 \<in> set ?ns" "nal_type n5 = 5" using order(1,5) by auto
  then have "\<exists>n \<in> set ?ns. 1 \<le> nal_type n \<and> nal_type n \<le> 5" by (intro bexI [of _ n5]) simp_all
  moreover have "sp \<in> set ?ns" "pp \<in> set ?ns" using order(1) by simp_all
  ultimately have fl: "rd_idr s'" "rd_vcl s'" "rd_hasSps s'" "rd_hasPps s'"
    using u(1) order(2,3) n5 unfolding rd_unit_def by blast+
  have "rd_good s'" using u fl sets by (simp add: rd_good_def)
  moreover have "rd_prefix s' = []" using fl by (simp add: rd_prefix_def)
  moreover have "rd_au s' = annexb ?ns" "annexb ?ns \<noteq> []" using u(1) order by (auto simp: rd_unit_def)
  ultimately have "fst (rd_emit s') = [RFrame (annexb ?ns) ts]"
    using len s'(2) fl by (simp add: rd_emit_def Let_def)
  then show ?thesis by (simp add: run case_prod_beta Let_def)
qed

section \<open>Properties\<close>



definition rtp_example :: "bytes list" where
  "rtp_example =
    [[0x80, 96, 0xff, 0xff, 0, 0, 1, 0, 0, 0, 0, 9, 0x67, 1],
     [0x80, 96, 0, 0, 0, 0, 1, 0, 0, 0, 0, 9, 0x68, 2],
     [0x80, 96, 0, 1, 0, 0, 1, 0, 0, 0, 0, 9, 0x7c, 0x85, 3, 4],
     [0x80, 224, 0, 2, 0, 0, 1, 0, 0, 0, 0, 9, 0x7c, 0x45, 5]]"

definition rtp_example_packets :: "RtpPacket list" where
  "rtp_example_packets =
    [\<lparr>rtp_payload = [0x67, 1], rtp_timestamp = 256, rtp_ssrc = 9, rtp_sequence = 65535, rtp_payloadType = 96, rtp_marker = False\<rparr>,
     \<lparr>rtp_payload = [0x68, 2], rtp_timestamp = 256, rtp_ssrc = 9, rtp_sequence = 0, rtp_payloadType = 96, rtp_marker = False\<rparr>,
     \<lparr>rtp_payload = [0x7c, 0x85, 3, 4], rtp_timestamp = 256, rtp_ssrc = 9, rtp_sequence = 1, rtp_payloadType = 96, rtp_marker = False\<rparr>,
     \<lparr>rtp_payload = [0x7c, 0x45, 5], rtp_timestamp = 256, rtp_ssrc = 9, rtp_sequence = 2, rtp_payloadType = 96, rtp_marker = True\<rparr>]"

definition rtp_example_units :: "unit list" where
  "rtp_example_units = [Single [0x67, 1], Single [0x68, 2], Fragmented 0x65 [[3, 4], [5]]]"


end
