(* ===== verification/DcVideo.thy ===== *)
theory DcVideo
  imports VideoSource
begin

text \<open>
  \<open>src/shared/receiver/codec/dc_video_depacketizer.{h,cpp}\<close> and
  \<open>src/shared/common/data_channel_protocol.h\<close>: reassembly of access units from the chunks of
  the video data channel, with expiry, loss recovery and the bitrate controller. The
  \<open>std::map\<close> of pending frames is the list of its entries in key order. Every operation
  runs under the mutex up to \<open>dispatch\<close>, which runs the callbacks without it: \<open>dc_dispatch\<close>
  takes the effect a callback has on the depacketizer as a parameter, so that a callback that
  calls \<open>Reset\<close> is covered. Clock values are mathematical integers (microseconds of a
  monotonic clock stay far below the 64-bit limit); byte counts are natural numbers, and the
  unsigned subtraction is the wrapping one.
\<close>

section \<open>Wire format\<close>

definition kDcMagic :: u16 where
  "kDcMagic = 0x4B4D"

definition kPayloadH264 :: u8 where
  "kPayloadH264 = 1"

definition kMaxDcChunkPayload :: nat where
  "kMaxDcChunkPayload = 1180"

definition kMaxDcPacketSize :: nat where
  "kMaxDcPacketSize = 12 + kMaxDcChunkPayload"

definition LE16 :: "bytes \<Rightarrow> nat \<Rightarrow> u16" where
  "LE16 b p = ucast (b ! p) OR push_bit 8 (ucast (b ! (p + 1)))"

definition LE32 :: "bytes \<Rightarrow> nat \<Rightarrow> u32" where
  "LE32 b p = ucast (LE16 b p) OR push_bit 16 (ucast (LE16 b (p + 2)))"

definition Delta :: "u16 \<Rightarrow> u16 \<Rightarrow> int" where
  "Delta a b = (let d = a - b in if unat d < 32768 then int (unat d) else int (unat d) - 65536)"

section \<open>State\<close>

definition kMaxPendingFrames :: nat where
  "kMaxPendingFrames = 32"

definition kMaxPendingBytes :: nat where
  "kMaxPendingBytes = 2 * 1024 * 1024"

record dc_frame =
  df_timestamp :: u32
  df_count :: u8
  df_stableFlags :: u8
  df_received :: nat
  df_bytes :: nat
  df_arrival :: int
  df_chunks :: "bytes list"

record dc =
  dc_pending :: "(u16 \<times> dc_frame) list"
  dc_bytes :: nat
  dc_expected :: u16
  dc_initialized :: bool
  dc_waiting :: bool
  dc_lastPli :: int
  dc_lastIncrease :: int
  dc_sps :: bytes
  dc_pps :: bytes
  dc_bitrate :: nat
  dc_frames :: u64
  dc_generation :: u64

record dc_batch =
  db_frames :: "(bytes \<times> u32) list"
  db_controls :: "bytes list"

definition dc_init :: dc where
  "dc_init = \<lparr>dc_pending = [], dc_bytes = 0, dc_expected = 0, dc_initialized = False, dc_waiting = True,
     dc_lastPli = -1, dc_lastIncrease = -1, dc_sps = [], dc_pps = [], dc_bitrate = 3000000,
     dc_frames = 0, dc_generation = 1\<rparr>"

definition dc_Reset :: "dc \<Rightarrow> dc" where
  "dc_Reset s = s\<lparr>dc_pending := [], dc_bytes := 0, dc_expected := 0, dc_initialized := False, dc_waiting := True,
     dc_sps := [], dc_pps := [], dc_lastPli := -1, dc_lastIncrease := -1, dc_bitrate := 3000000,
     dc_frames := 0, dc_generation := dc_generation s + 1\<rparr>"

definition dc_GetPendingBytes :: "dc \<Rightarrow> nat" where
  "dc_GetPendingBytes s = dc_bytes s"

definition dc_GetPendingFrames :: "dc \<Rightarrow> nat" where
  "dc_GetPendingFrames s = length (dc_pending s)"

text \<open>\<open>std::map\<close>: \<open>find\<close>, \<open>emplace\<close> of an absent key, replacing the value of a present key.\<close>

definition dc_find :: "u16 \<Rightarrow> dc \<Rightarrow> dc_frame option" where
  "dc_find k s = map_of (dc_pending s) k"

fun map_emplace :: "u16 \<Rightarrow> 'v \<Rightarrow> (u16 \<times> 'v) list \<Rightarrow> (u16 \<times> 'v) list" where
  "map_emplace k v [] = [(k, v)]"
| "map_emplace k v ((k', v') # m) = (if k < k' then (k, v) # (k', v') # m else (k', v') # map_emplace k v m)"

definition map_set :: "u16 \<Rightarrow> 'v \<Rightarrow> (u16 \<times> 'v) list \<Rightarrow> (u16 \<times> 'v) list" where
  "map_set k v m = map (\<lambda>(k', v'). if k' = k then (k', v) else (k', v')) m"

definition dc_erase :: "u16 \<Rightarrow> dc \<Rightarrow> dc" where
  "dc_erase k s =
     (case dc_find k s of
        None \<Rightarrow> s
      | Some f \<Rightarrow> s\<lparr>dc_bytes := size_sub (dc_bytes s) (df_bytes f),
                    dc_pending := filter (\<lambda>e. fst e \<noteq> k) (dc_pending s)\<rparr>)"

section \<open>Recovery\<close>

text \<open>\<open>std::to_string\<close> of an unsigned number.\<close>

fun to_string :: "nat \<Rightarrow> bytes" where
  "to_string n = (if n < 10 then [of_nat (48 + n)] else to_string (n div 10) @ [of_nat (48 + n mod 10)])"

declare to_string.simps [simp del]

definition dquoted :: "string \<Rightarrow> bytes" where
  "dquoted t = 34 # str t @ [34]"

definition pli_message :: bytes where
  "pli_message = str ''{'' @ dquoted ''type'' @ str '':'' @ dquoted ''pli'' @ str ''}''"

definition bitrate_message :: "nat \<Rightarrow> bytes" where
  "bitrate_message n = str ''{'' @ dquoted ''type'' @ str '':'' @ dquoted ''bitrate'' @ str '','' @
     dquoted ''bps'' @ str '':'' @ to_string n @ str ''}''"

definition dc_lower_rate :: "nat \<Rightarrow> nat" where
  "dc_lower_rate rate = max 2000000 (rate * 85 mod 2 ^ 32 div 100)"

definition dc_recover :: "int \<Rightarrow> dc \<times> dc_batch \<Rightarrow> dc \<times> dc_batch" where
  "dc_recover now sb =
     (let (s, b) = sb; s1 = s\<lparr>dc_waiting := True\<rparr> in
      if dc_lastPli s < 0 \<or> now - dc_lastPli s \<ge> 50000 then
        let rate = dc_lower_rate (dc_bitrate s) in
        (s1\<lparr>dc_lastPli := now, dc_lastIncrease := now, dc_bitrate := rate\<rparr>,
         b\<lparr>db_controls := db_controls b @ [pli_message, bitrate_message rate]\<rparr>)
      else (s1, b))"

section \<open>Assembly\<close>

text \<open>The last NAL unit of a kind, as the loop over \<open>nalus\<close> leaves it in \<open>sps\<close> or \<open>pps\<close>.\<close>

definition last_of_type :: "u8 \<Rightarrow> bytes list \<Rightarrow> bytes" where
  "last_of_type t ns = foldl (\<lambda>acc n. if n ! 0 AND 31 = t then n else acc) [] ns"

definition split_access_unit :: "bytes \<Rightarrow> bytes list option" where
  "split_access_unit raw = (case SplitAnnexB raw of Some ns \<Rightarrow> Some ns | None \<Rightarrow> SplitLengthPrefixed4 raw)"

text \<open>The loop that writes the NAL units behind the delimiter and the parameter sets.\<close>

fun append_nalus :: "bool \<Rightarrow> bytes \<Rightarrow> bytes list \<Rightarrow> bytes" where
  "append_nalus idr out [] = out"
| "append_nalus idr out (n # ns) =
     (let type = n ! 0 AND 31 in
      if type = 9 \<or> (idr \<and> (type = 7 \<or> type = 8)) then append_nalus idr out ns
      else append_nalus idr (AppendAnnexB out n) ns)"

text \<open>The parameter sets of a frame replace the stored ones, but only both together.\<close>

definition dc_update_sets :: "bytes \<Rightarrow> bytes \<Rightarrow> dc \<Rightarrow> bool \<times> dc" where
  "dc_update_sets sps pps s =
     (if sps \<noteq> [] \<or> pps \<noteq> [] then
        if sps = [] \<or> pps = [] then (False, s\<lparr>dc_sps := [], dc_pps := []\<rparr>)
        else (True, s\<lparr>dc_sps := sps, dc_pps := pps\<rparr>)
      else (True, s))"

definition dc_output :: "bool \<Rightarrow> bytes list \<Rightarrow> dc \<Rightarrow> bytes" where
  "dc_output idr nalus s =
     (let out = [0, 0, 0, 1, 9, 0xf0] in
      append_nalus idr (if idr then AppendAnnexB (AppendAnnexB out (dc_sps s)) (dc_pps s) else out) nalus)"

definition dc_assemble :: "dc_frame \<Rightarrow> dc \<Rightarrow> (bytes \<times> u32) option \<times> dc" where
  "dc_assemble frame s =
     (case split_access_unit (concat (df_chunks frame)) of
        None \<Rightarrow> (None, s)
      | Some nalus \<Rightarrow>
          let idr = list_ex (\<lambda>n. n ! 0 AND 31 = 5) nalus;
              (ok, s1) = dc_update_sets (last_of_type 7 nalus) (last_of_type 8 nalus) s
          in
            if \<not> ok then (None, s1)
            else if df_stableFlags frame AND 1 \<noteq> 0 \<and> \<not> idr then (None, s1)
            else if dc_waiting s1 \<and> \<not> idr then (None, s1)
            else if idr \<and> (dc_sps s1 = [] \<or> dc_pps s1 = []) then (None, s1)
            else (Some (dc_output idr nalus s1, df_timestamp frame), if idr then s1\<lparr>dc_waiting := False\<rparr> else s1))"

section \<open>Draining\<close>

text \<open>The first loop of \<open>drain\<close>: entries that are 60 ms old are erased.\<close>

fun dc_expire :: "int \<Rightarrow> (u16 \<times> dc_frame) list \<Rightarrow> dc \<times> dc_batch \<Rightarrow> dc \<times> dc_batch" where
  "dc_expire now [] sb = sb"
| "dc_expire now ((k, f) # es) (s, b) =
     (if now \<ge> df_arrival f \<and> now - df_arrival f \<ge> 60000 then
        let needed = (\<not> dc_initialized s \<or> Delta k (dc_expected s) \<ge> 0);
            sb1 = (dc_erase k s, b)
        in dc_expire now es (if needed then dc_recover now sb1 else sb1)
      else dc_expire now es (s, b))"

definition dc_complete :: "dc_frame \<Rightarrow> bool" where
  "dc_complete f \<longleftrightarrow> df_received f = unat (df_count f)"

text \<open>The complete key frame that arrived first.\<close>

definition first_key :: "(u16 \<times> dc_frame) list \<Rightarrow> (u16 \<times> dc_frame) option" where
  "first_key es = foldl (\<lambda>best e.
     if dc_complete (snd e) \<and> df_stableFlags (snd e) AND 1 \<noteq> 0 \<and>
        (case best of None \<Rightarrow> True | Some o1 \<Rightarrow> df_arrival (snd e) < df_arrival (snd o1))
     then Some e else best) None es"

text \<open>The pending entry nearest ahead of the expected number, with its distance.\<close>

definition nearest :: "u16 \<Rightarrow> (u16 \<times> dc_frame) list \<Rightarrow> (u16 \<times> dc_frame) option \<times> int" where
  "nearest expected es = foldl (\<lambda>(best, distance) e.
     let d = Delta (fst e) expected in if d \<ge> 0 \<and> d < distance then (Some e, d) else (best, distance)) (None, 32768) es"

lemma nearest_in: "fst (nearest expected es) = Some e \<Longrightarrow> e \<in> set es"
proof -
  have "fst (foldl (\<lambda>(best, distance) e. let d = Delta (fst e) expected in
      if d \<ge> 0 \<and> d < distance then (Some e, d) else (best, distance)) z es) = Some e \<Longrightarrow>
      e \<in> set es \<or> fst z = Some e" for z
    by (induction es arbitrary: z) (fastforce simp: Let_def split: if_splits)+
  then show "fst (nearest expected es) = Some e \<Longrightarrow> e \<in> set es"
    unfolding nearest_def by fastforce
qed

section \<open>What the steps leave alone\<close>

definition dc_same :: "dc \<Rightarrow> dc \<Rightarrow> bool" where
  "dc_same s s' \<longleftrightarrow> dc_pending s' = dc_pending s \<and> dc_bytes s' = dc_bytes s \<and>
     dc_expected s' = dc_expected s \<and> dc_initialized s' = dc_initialized s \<and> dc_bitrate s' = dc_bitrate s \<and>
     dc_lastPli s' = dc_lastPli s \<and> dc_lastIncrease s' = dc_lastIncrease s \<and> dc_generation s' = dc_generation s"

lemma dc_update_sets_same: "dc_update_sets sps pps s = (ok, s') \<Longrightarrow> dc_same s s'"
  by (auto simp: dc_update_sets_def dc_same_def split: if_splits)

lemma dc_assemble_cases:
  assumes "dc_assemble f s = (r, s')" "split_access_unit (concat (df_chunks f)) = Some ns"
    and "dc_update_sets (last_of_type 7 ns) (last_of_type 8 ns) s = (ok, s1)"
  defines "idr \<equiv> list_ex (\<lambda>n. n ! 0 AND 31 = 5) ns"
  shows "(r = None \<and> s' = s1) \<or>
    (r = Some (dc_output idr ns s1, df_timestamp f) \<and> ok \<and> (\<not> dc_waiting s1 \<or> idr) \<and>
     (idr \<longrightarrow> dc_sps s1 \<noteq> [] \<and> dc_pps s1 \<noteq> []) \<and> s' = (if idr then s1\<lparr>dc_waiting := False\<rparr> else s1))"
  using assms(1) unfolding dc_assemble_def assms(2) option.case assms(3) Let_def split_conv idr_def [symmetric]
  by (auto split: if_splits)

lemma dc_assemble_same: "dc_assemble f s = (r, s') \<Longrightarrow> dc_same s s'"
proof (cases "split_access_unit (concat (df_chunks f))")
  case None
  then show "dc_assemble f s = (r, s') \<Longrightarrow> dc_same s s'" by (simp add: dc_assemble_def dc_same_def)
next
  case (Some ns)
  assume a: "dc_assemble f s = (r, s')"
  obtain ok s1 where u: "dc_update_sets (last_of_type 7 ns) (last_of_type 8 ns) s = (ok, s1)" by fastforce
  from dc_assemble_cases [OF a Some u] have "s' = s1 \<or> s' = s1\<lparr>dc_waiting := False\<rparr>" by (auto split: if_splits)
  with dc_update_sets_same [OF u] show ?thesis by (auto simp: dc_same_def)
qed

lemmas dc_assemble_keeps = dc_assemble_same [unfolded dc_same_def]

lemma dc_recover_keeps:
  "dc_recover now (s, b) = (s', b') \<Longrightarrow> dc_pending s' = dc_pending s \<and> dc_bytes s' = dc_bytes s \<and>
     dc_expected s' = dc_expected s \<and> dc_initialized s' = dc_initialized s \<and> dc_sps s' = dc_sps s \<and>
     dc_pps s' = dc_pps s \<and> dc_waiting s' \<and> db_frames b' = db_frames b \<and> dc_generation s' = dc_generation s"
  by (auto simp: dc_recover_def Let_def split: if_splits)

lemma dc_find_cong: "dc_pending s' = dc_pending s \<Longrightarrow> dc_find k s' = dc_find k s"
  by (simp add: dc_find_def)

lemma dc_erase_pending: "dc_pending (dc_erase k s) = filter (\<lambda>e. fst e \<noteq> k) (dc_pending s)"
proof (cases "dc_find k s")
  case None
  then have "dc_erase k s = s" "k \<notin> fst ` set (dc_pending s)"
    by (simp_all add: dc_erase_def) (simp add: dc_find_def map_of_eq_None_iff)
  moreover from this have "filter (\<lambda>e. fst e \<noteq> k) (dc_pending s) = dc_pending s" by (auto intro!: filter_True)
  ultimately show ?thesis by simp
next
  case (Some f)
  then show ?thesis by (simp add: dc_erase_def)
qed

lemma dc_erase_shrinks:
  assumes "dc_find k s = Some f"
  shows "length (dc_pending (dc_erase k s)) < length (dc_pending s)"
proof -
  have "(k, f) \<in> set (dc_pending s)" using assms by (simp add: dc_find_def map_of_SomeD)
  then show ?thesis unfolding dc_erase_pending by (intro length_filter_less [of "(k, f)"]) simp_all
qed

text \<open>One frame at the expected number leaves the map, assembled or lost.\<close>

definition dc_take :: "int \<Rightarrow> dc_frame \<Rightarrow> dc \<times> dc_batch \<Rightarrow> dc \<times> dc_batch" where
  "dc_take now f sb =
     (let (s, b) = sb;
          (out, s1) = dc_assemble f s;
          (s2, b2) = (case out of
              Some d \<Rightarrow> (s1\<lparr>dc_frames := dc_frames s1 + 1\<rparr>, b\<lparr>db_frames := db_frames b @ [d]\<rparr>)
            | None \<Rightarrow> dc_recover now (s1, b));
          s3 = dc_erase (dc_expected s2) s2
      in (s3\<lparr>dc_expected := dc_expected s3 + 1\<rparr>, b2))"

definition dc_skip :: "int \<Rightarrow> dc \<times> dc_batch \<Rightarrow> dc \<times> dc_batch" where
  "dc_skip now sb =
     (let (s, b) = sb; s1 = dc_erase (dc_expected s) s
      in dc_recover now (s1\<lparr>dc_expected := dc_expected s1 + 1\<rparr>, b))"

definition dc_jump :: "int \<Rightarrow> u16 \<Rightarrow> dc \<times> dc_batch \<Rightarrow> dc \<times> dc_batch" where
  "dc_jump now k sb = (let (s, b) = sb in dc_recover now (s\<lparr>dc_expected := k\<rparr>, b))"

lemma dc_take_pending: "dc_pending (fst (dc_take now f (s, b))) = dc_pending (dc_erase (dc_expected s) s)"
proof -
  obtain out s1 where a: "dc_assemble f s = (out, s1)" by fastforce
  obtain s2 b2 where r: "dc_recover now (s1, b) = (s2, b2)" by fastforce
  from dc_assemble_keeps [OF a] dc_recover_keeps [OF r] a r show ?thesis
    by (cases out) (simp_all add: dc_take_def dc_erase_pending Let_def)
qed

lemma dc_skip_pending: "dc_pending (fst (dc_skip now (s, b))) = dc_pending (dc_erase (dc_expected s) s)"
  using dc_recover_keeps [of now "(dc_erase (dc_expected s) s)\<lparr>dc_expected := dc_expected (dc_erase (dc_expected s) s) + 1\<rparr>" b]
  by (cases "dc_recover now ((dc_erase (dc_expected s) s)\<lparr>dc_expected := dc_expected (dc_erase (dc_expected s) s) + 1\<rparr>, b)")
    (simp add: dc_skip_def Let_def)

lemma dc_jump_fields:
  "dc_pending (fst (dc_jump now k (s, b))) = dc_pending s \<and> dc_expected (fst (dc_jump now k (s, b))) = k"
  using dc_recover_keeps [of now "s\<lparr>dc_expected := k\<rparr>" b]
  by (cases "dc_recover now (s\<lparr>dc_expected := k\<rparr>, b)") (simp add: dc_jump_def)

text \<open>The loop \<open>while (!pending_.empty())\<close>. It ends because every round either removes an entry or
  moves the expected number onto one.\<close>

function dc_drain_loop :: "int \<Rightarrow> dc \<times> dc_batch \<Rightarrow> dc \<times> dc_batch" where
  "dc_drain_loop now sb =
     (let s = fst sb in
      if dc_pending s = [] then sb
      else
        case dc_find (dc_expected s) s of
          Some f \<Rightarrow>
            if dc_complete f then dc_drain_loop now (dc_take now f sb)
            else if now - df_arrival f \<ge> 10000 then dc_drain_loop now (dc_skip now sb)
            else sb
        | None \<Rightarrow>
            (case fst (nearest (dc_expected s) (dc_pending s)) of
               None \<Rightarrow> sb
             | Some (k, f) \<Rightarrow> if now - df_arrival f < 10000 then sb else dc_drain_loop now (dc_jump now k sb)))"
  by pat_completeness auto
termination
proof (relation "measure (\<lambda>(now, s, b). 2 * length (dc_pending s) + (if dc_find (dc_expected s) s = None then 1 else 0))")
  fix now :: int and sb :: "dc \<times> dc_batch" and s f
  assume s: "s = fst sb" and f: "dc_find (dc_expected s) s = Some f"
  obtain b where sb: "sb = (s, b)" using s by (cases sb) auto
  note sh = dc_erase_shrinks [OF f]
  show "((now, dc_take now f sb), (now, sb))
      \<in> measure (\<lambda>(now, s, b). 2 * length (dc_pending s) + (if dc_find (dc_expected s) s = None then 1 else 0))"
    using dc_take_pending [of now f s b] sh f by (cases "dc_take now f (s, b)") (auto simp: sb)
  show "((now, dc_skip now sb), (now, sb))
      \<in> measure (\<lambda>(now, s, b). 2 * length (dc_pending s) + (if dc_find (dc_expected s) s = None then 1 else 0))"
    using dc_skip_pending [of now s b] sh f by (cases "dc_skip now (s, b)") (auto simp: sb)
next
  fix now :: int and sb :: "dc \<times> dc_batch" and s e k f
  assume s: "s = fst sb" and n: "dc_find (dc_expected s) s = None"
    and e: "fst (nearest (dc_expected s) (dc_pending s)) = Some e" "(k, f) = e"
  obtain b where sb: "sb = (s, b)" using s by (cases sb) auto
  have "(k, f) \<in> set (dc_pending s)" using nearest_in [OF e(1)] e(2) by simp
  then have "k \<in> fst ` set (dc_pending s)" by force
  then have "map_of (dc_pending s) k \<noteq> None" by (simp add: map_of_eq_None_iff)
  then have "dc_find k (fst (dc_jump now k (s, b))) \<noteq> None" using dc_jump_fields [of now k s b] by (simp add: dc_find_def)
  then show "((now, dc_jump now k sb), (now, sb))
      \<in> measure (\<lambda>(now, s, b). 2 * length (dc_pending s) + (if dc_find (dc_expected s) s = None then 1 else 0))"
    using dc_jump_fields [of now k s b] n by (cases "dc_jump now k (s, b)") (auto simp: sb)
qed auto

declare dc_drain_loop.simps [simp del]

text \<open>The last loop of \<open>drain\<close>, over the entries behind the expected number, and the increase of
  the bitrate after two seconds without a loss.\<close>

fun dc_drop_stale :: "(u16 \<times> dc_frame) list \<Rightarrow> dc \<Rightarrow> dc" where
  "dc_drop_stale [] s = s"
| "dc_drop_stale ((k, f) # es) s =
     dc_drop_stale es (if Delta k (dc_expected s) < 0 then dc_erase k s else s)"

definition dc_increase :: "int \<Rightarrow> dc \<times> dc_batch \<Rightarrow> dc \<times> dc_batch" where
  "dc_increase now sb =
     (let (s, b) = sb in
      if \<not> dc_waiting s \<and> db_frames b \<noteq> [] then
        if dc_lastIncrease s < 0 then (s\<lparr>dc_lastIncrease := now\<rparr>, b)
        else if now - dc_lastIncrease s \<ge> 2000000 then
          let rate = min 8000000 ((dc_bitrate s + 300000) mod 2 ^ 32) in
          (s\<lparr>dc_bitrate := rate, dc_lastIncrease := now\<rparr>,
           b\<lparr>db_controls := db_controls b @ [bitrate_message rate]\<rparr>)
        else (s, b)
      else (s, b))"

definition dc_finish :: "int \<Rightarrow> dc \<times> dc_batch \<Rightarrow> dc \<times> dc_batch" where
  "dc_finish now sb =
     (let (s, b) = dc_drain_loop now sb in dc_increase now (dc_drop_stale (dc_pending s) s, b))"

definition dc_drain :: "int \<Rightarrow> dc \<times> dc_batch \<Rightarrow> dc \<times> dc_batch" where
  "dc_drain now sb =
     (let (s, b) = dc_expire now (dc_pending (fst sb)) sb in
      if dc_initialized s then dc_finish now (s, b)
      else
        case first_key (dc_pending s) of
          None \<Rightarrow> (s, b)
        | Some (k, _) \<Rightarrow> dc_finish now (s\<lparr>dc_expected := k, dc_initialized := True\<rparr>, b))"

section \<open>Packets and ticks\<close>

definition empty_batch :: dc_batch where
  "empty_batch = \<lparr>db_frames = [], db_controls = []\<rparr>"

definition dc_OnTimerTickAt :: "int \<Rightarrow> dc \<Rightarrow> dc \<times> dc_batch" where
  "dc_OnTimerTickAt now s =
     (if now < 0 then (s, empty_batch)
      else
        let (s1, b1) = dc_drain now (s, empty_batch) in
        if dc_waiting s1 then dc_recover now (s1, b1) else (s1, b1))"

definition dc_header_ok :: "bytes \<Rightarrow> bool" where
  "dc_header_ok p \<longleftrightarrow>
     \<not> (length p \<le> 12 \<or> length p > kMaxDcPacketSize \<or> LE16 p 0 \<noteq> kDcMagic \<or> p ! 3 \<noteq> kPayloadH264 \<or>
        p ! 2 AND 0xf0 \<noteq> 0 \<or> p ! 5 = 0 \<or> p ! 4 \<ge> p ! 5) \<and>
     \<not> ((p ! 2 AND 4 \<noteq> 0) \<noteq> (p ! 4 = 0) \<or> (p ! 2 AND 8 \<noteq> 0) \<noteq> (unat (p ! 4) + 1 = unat (p ! 5)))"

definition new_frame :: "u32 \<Rightarrow> u8 \<Rightarrow> u8 \<Rightarrow> int \<Rightarrow> dc_frame" where
  "new_frame timestamp count flags now =
     \<lparr>df_timestamp = timestamp, df_count = count, df_stableFlags = flags AND 3, df_received = 0, df_bytes = 0,
      df_arrival = now, df_chunks = replicate (unat count) []\<rparr>"

text \<open>The chunk \<open>data\<close> goes to its frame, which exists; the frame's fields must agree with it.\<close>

definition dc_store_chunk ::
  "u16 \<Rightarrow> u32 \<Rightarrow> u8 \<Rightarrow> u8 \<Rightarrow> nat \<Rightarrow> bytes \<Rightarrow> int \<Rightarrow> dc \<times> dc_batch \<Rightarrow> dc \<times> dc_batch" where
  "dc_store_chunk seq timestamp flags count index data now sb =
     (let (s, b) = sb in
      case dc_find seq s of
        None \<Rightarrow> sb
      | Some f \<Rightarrow>
          if df_count f \<noteq> count \<or> df_timestamp f \<noteq> timestamp \<or> df_stableFlags f \<noteq> flags AND 3
          then dc_recover now (dc_erase seq s, b)
          else if df_chunks f ! index = [] then
            (s\<lparr>dc_pending := map_set seq (f\<lparr>df_chunks := (df_chunks f)[index := data],
                 df_received := df_received f + 1, df_bytes := df_bytes f + length data\<rparr>) (dc_pending s),
               dc_bytes := dc_bytes s + length data\<rparr>, b)
          else if df_chunks f ! index \<noteq> data then dc_recover now (dc_erase seq s, b)
          else (s, b))"

definition dc_ProcessPacketAt :: "bytes \<Rightarrow> int \<Rightarrow> dc \<Rightarrow> dc \<times> dc_batch" where
  "dc_ProcessPacketAt p now s =
     (if now < 0 \<or> \<not> dc_header_ok p then (s, empty_batch)
      else
        let flags = p ! 2; index = unat (p ! 4); count = p ! 5; seq = LE16 p 6; timestamp = LE32 p 8;
            (s1, b1) = dc_drain now (s, empty_batch)
        in
          if dc_initialized s1 \<and> Delta seq (dc_expected s1) < 0 then (s1, b1)
          else
            let payload = length p - 12 in
            if dc_find seq s1 = None \<and> length (dc_pending s1) \<ge> kMaxPendingFrames \<or>
               dc_bytes s1 + payload > kMaxPendingBytes
            then dc_recover now (s1\<lparr>dc_pending := [], dc_bytes := 0, dc_initialized := False\<rparr>, b1)
            else
              let s2 = (if dc_find seq s1 = None
                        then s1\<lparr>dc_pending := map_emplace seq (new_frame timestamp count flags now) (dc_pending s1)\<rparr>
                        else s1)
              in dc_drain now (dc_store_chunk seq timestamp flags count index (drop 12 p) now (s2, b1)))"

text \<open>\<open>dispatch\<close>: the controls, then the frames, each only while the generation is that of the batch;
  \<open>effect e\<close> is what the callback invoked with \<open>e\<close> does to the depacketizer.\<close>

datatype dc_event = DcControl bytes | DcFrame bytes u32

definition batch_events :: "dc_batch \<Rightarrow> dc_event list" where
  "batch_events b = map DcControl (db_controls b) @ map (\<lambda>(d, t). DcFrame d t) (db_frames b)"

fun dc_dispatch :: "(dc_event \<Rightarrow> dc \<Rightarrow> dc) \<Rightarrow> u64 \<Rightarrow> dc_event list \<Rightarrow> dc \<Rightarrow> dc_event list \<times> dc" where
  "dc_dispatch effect generation [] s = ([], s)"
| "dc_dispatch effect generation (e # es) s =
     (if generation \<noteq> dc_generation s then ([], s)
      else let (out, s') = dc_dispatch effect generation es (effect e s) in (e # out, s'))"

section \<open>Assembled access units\<close>

lemma split_access_unit_props:
  assumes "split_access_unit raw = Some ns"
  shows "sum_list (map length ns) \<le> length raw" "length ns \<le> kMaxNalus" "\<forall>n \<in> set ns. ValidNalu n" "ns \<noteq> []"
  using assms split_clean [of raw ns] split_size [of raw ns] split_prefixed_size [of raw ns]
  by (auto simp: split_access_unit_def clean_nalu_def split: option.splits)

definition kept :: "bool \<Rightarrow> bytes \<Rightarrow> bool" where
  "kept idr n \<longleftrightarrow> \<not> (nal_type n = 9 \<or> (idr \<and> (nal_type n = 7 \<or> nal_type n = 8)))"

lemma append_nalus_annexb: "append_nalus idr (annexb ms) ns = annexb (ms @ filter (kept idr) ns)"
  by (induction ns arbitrary: ms) (simp_all add: AppendAnnexB_annexb kept_def nal_type_def Let_def)

lemma dc_output_annexb:
  "dc_output idr ns s = annexb ([9, 0xf0] # (if idr then [dc_sps s, dc_pps s] else []) @ filter (kept idr) ns)"
proof -
  have "[0, 0, 0, 1, 9, 0xf0] = annexb [[9, 0xf0]]" by simp
  then show ?thesis
    unfolding dc_output_def Let_def
    by (simp only: AppendAnnexB_annexb append_nalus_annexb split: if_split) simp
qed

lemma last_of_type_props:
  "last_of_type t ns = [] \<or> (last_of_type t ns \<in> set ns \<and> nal_type (last_of_type t ns) = t)"
  by (induction ns rule: rev_induct) (auto simp: last_of_type_def nal_type_def)

definition dc_sets :: "dc \<Rightarrow> bool" where
  "dc_sets s \<longleftrightarrow> length (dc_sps s) \<le> kMaxPendingBytes \<and> length (dc_pps s) \<le> kMaxPendingBytes \<and>
     (dc_sps s \<noteq> [] \<longrightarrow> nal_type (dc_sps s) = 7) \<and> (dc_pps s \<noteq> [] \<longrightarrow> nal_type (dc_pps s) = 8)"

definition dc_limit :: nat where
  "dc_limit = 7 * 1024 * 1024"

lemma dc_update_sets_props:
  assumes "dc_sets s" "dc_update_sets (last_of_type 7 ns) (last_of_type 8 ns) s = (ok, s')"
    and "\<forall>n \<in> set ns. length n \<le> kMaxPendingBytes"
  shows "dc_sets s'" "dc_waiting s' = dc_waiting s"
  using assms last_of_type_props [of 7 ns] last_of_type_props [of 8 ns]
  by (auto simp: dc_sets_def dc_update_sets_def split: if_splits)

lemma sum_list_filter_le: "sum_list (map length (filter P ns)) \<le> sum_list (map (length :: 'a list \<Rightarrow> nat) ns)"
  by (induction ns) auto

lemma dc_assemble_props:
  assumes sets: "dc_sets s" and raw: "length (concat (df_chunks f)) \<le> kMaxPendingBytes"
    and a: "dc_assemble f s = (r, s')"
  shows "dc_sets s'" "r = None \<Longrightarrow> dc_waiting s' = dc_waiting s"
    "r = Some (d, t) \<Longrightarrow> d \<noteq> [] \<and> length d \<le> dc_limit \<and> (dc_waiting s \<longrightarrow> configured d)"
proof -
  have all: "dc_sets s' \<and> (r = None \<longrightarrow> dc_waiting s' = dc_waiting s) \<and>
      (r = Some (d, t) \<longrightarrow> d \<noteq> [] \<and> length d \<le> dc_limit \<and> (dc_waiting s \<longrightarrow> configured d))"
  proof (cases "split_access_unit (concat (df_chunks f))")
    case None
    with a sets show ?thesis by (simp add: dc_assemble_def)
  next
    case (Some ns)
    note p = split_access_unit_props [OF Some]
    define idr where "idr = list_ex (\<lambda>n. n ! 0 AND 31 = 5) ns"
    obtain ok s1 where u: "dc_update_sets (last_of_type 7 ns) (last_of_type 8 ns) s = (ok, s1)" by fastforce
    have "\<forall>n \<in> set ns. length n \<le> kMaxPendingBytes"
      using p(1) raw member_le_sum_list [of _ "map length ns"] by fastforce
    note us = dc_update_sets_props [OF sets u this]
    note cases = dc_assemble_cases [OF a Some u, folded idr_def]
    have s': "dc_sets s'" using cases us(1) by (auto simp: dc_sets_def)
    have len: "length (dc_output idr ns s1) \<le> dc_limit"
    proof -
      have "length (filter (kept idr) ns) \<le> 1024" using p(2) by (simp add: kMaxNalus_def order_trans [OF length_filter_le])
      moreover have "sum_list (map length (filter (kept idr) ns)) \<le> kMaxPendingBytes"
        using sum_list_filter_le [of "kept idr" ns] p(1) raw by linarith
      ultimately show ?thesis
        using us(1) unfolding dc_output_annexb length_annexb
        by (auto simp: dc_sets_def kMaxPendingBytes_def dc_limit_def)
    qed
    have conf: "configured (dc_output idr ns s1)" if "idr" "dc_sps s1 \<noteq> []" "dc_pps s1 \<noteq> []"
    proof -
      let ?ns = "[9, 0xf0] # [dc_sps s1, dc_pps s1] @ filter (kept idr) ns"
      have "\<exists>i \<in> set ns. nal_type i = 5" using \<open>idr\<close> by (simp add: idr_def list_ex_iff nal_type_def)
      then obtain i where "i \<in> set ns" "nal_type i = 5" by blast
      moreover have "nal_type (dc_sps s1) = 7" "nal_type (dc_pps s1) = 8" using us(1) that by (simp_all add: dc_sets_def)
      ultimately show ?thesis
        using that(1) by (intro configuredI [of _ ?ns "dc_sps s1" "dc_pps s1" i]) (simp_all add: dc_output_annexb kept_def)
    qed
    have "dc_output idr ns s1 \<noteq> []" by (simp add: dc_output_annexb)
    then show ?thesis using cases s' us(2) len conf by auto
  qed
  then show "dc_sets s'" "r = None \<Longrightarrow> dc_waiting s' = dc_waiting s"
    "r = Some (d, t) \<Longrightarrow> d \<noteq> [] \<and> length d \<le> dc_limit \<and> (dc_waiting s \<longrightarrow> configured d)" by simp_all
qed

section \<open>Invariant\<close>

definition entry_ok :: "dc_frame \<Rightarrow> bool" where
  "entry_ok f \<longleftrightarrow> df_count f \<noteq> 0 \<and> length (df_chunks f) = unat (df_count f) \<and>
     df_received f = length (filter (\<lambda>c. c \<noteq> []) (df_chunks f)) \<and> df_bytes f = length (concat (df_chunks f))"

definition dc_total :: "(u16 \<times> dc_frame) list \<Rightarrow> nat" where
  "dc_total es = sum_list (map (\<lambda>e. df_bytes (snd e)) es)"

text \<open>The map is in key order, every entry is consistent, and the counters are exact.\<close>

definition dc_inv :: "dc \<Rightarrow> bool" where
  "dc_inv s \<longleftrightarrow> sorted_wrt (<) (map fst (dc_pending s)) \<and> (\<forall>e \<in> set (dc_pending s). entry_ok (snd e)) \<and>
     length (dc_pending s) \<le> kMaxPendingFrames \<and> dc_bytes s = dc_total (dc_pending s) \<and>
     dc_bytes s \<le> kMaxPendingBytes \<and> 2000000 \<le> dc_bitrate s \<and> dc_bitrate s \<le> 8000000 \<and> dc_sets s"

lemma dc_total_simps [simp]: "dc_total [] = 0" "dc_total (e # es) = df_bytes (snd e) + dc_total es"
  by (simp_all add: dc_total_def)

lemma dc_inv_distinct: "dc_inv s \<Longrightarrow> distinct (map fst (dc_pending s))"
  by (auto simp: dc_inv_def strict_sorted_iff)

lemma dc_total_remove:
  "distinct (map fst es) \<Longrightarrow> map_of es k = Some f \<Longrightarrow>
   dc_total (filter (\<lambda>e. fst e \<noteq> k) es) + df_bytes f = dc_total es"
proof (induction es)
  case (Cons e es)
  show ?case
  proof (cases "fst e = k")
    case True
    then have "\<forall>x \<in> set es. fst x \<noteq> k" using Cons.prems(1) by (metis distinct.simps(2) image_eqI list.map(2) set_map)
    then have "filter (\<lambda>e. fst e \<noteq> k) es = es" by simp
    with True Cons.prems show ?thesis by (cases e) simp
  next
    case False
    with Cons show ?thesis by (cases e) simp
  qed
qed simp

lemma map_set_keys [simp]: "map fst (map_set k v es) = map fst es"
  by (induction es) (auto simp: map_set_def)

lemma length_map_set [simp]: "length (map_set k v es) = length es"
  by (simp add: map_set_def)

lemma set_map_set: "e \<in> set (map_set k v es) \<Longrightarrow> e = (k, v) \<or> e \<in> set es"
  by (auto simp: map_set_def split: if_splits)

lemma map_of_map_set: "map_of (map_set k v es) j = (if j = k \<and> k \<in> fst ` set es then Some v else map_of es j)"
proof (induction es)
  case (Cons e es)
  obtain k' v' where e: "e = (k', v')" by fastforce
  have "map_set k v (e # es) = (if k' = k then (k', v) else (k', v')) # map_set k v es" by (simp add: map_set_def e)
  with Cons e show ?case by (cases "k' = k"; cases "j = k"; force simp: map_of_eq_None_iff)
qed (simp add: map_set_def)

lemma dc_total_map_set:
  "distinct (map fst es) \<Longrightarrow> map_of es k = Some f \<Longrightarrow>
   dc_total (map_set k g es) + df_bytes f = dc_total es + df_bytes g"
proof (induction es)
  case (Cons e es)
  show ?case
  proof (cases "fst e = k")
    case True
    then have "\<forall>x \<in> set es. fst x \<noteq> k" using Cons.prems(1) by (metis distinct.simps(2) image_eqI list.map(2) set_map)
    then have "map_set k g es = es" unfolding map_set_def by (intro map_idI) (auto split: prod.splits)
    with True Cons.prems show ?thesis by (cases e) (simp add: map_set_def)
  next
    case False
    with Cons show ?thesis by (cases e) (simp add: map_set_def)
  qed
qed simp

lemma set_map_emplace: "set (map_emplace k v es) = insert (k, v) (set es)"
  by (induction k v es rule: map_emplace.induct) auto

lemma length_map_emplace [simp]: "length (map_emplace k v es) = length es + 1"
  by (induction k v es rule: map_emplace.induct) auto

lemma dc_total_emplace: "dc_total (map_emplace k v es) = df_bytes v + dc_total es"
  by (induction k v es rule: map_emplace.induct) auto

lemma sorted_emplace:
  "sorted_wrt (<) (map fst es) \<Longrightarrow> k \<notin> fst ` set es \<Longrightarrow> sorted_wrt (<) (map fst (map_emplace k v es))"
proof (induction k v es rule: map_emplace.induct)
  case (2 k v k' v' m)
  show ?case
  proof (cases "k < k'")
    case True
    with 2 show ?thesis by (force intro: less_trans)
  next
    case False
    with 2 have "k' < k" by auto
    with 2 False show ?thesis by (auto simp: set_map_emplace)
  qed
qed simp

lemma map_of_emplace:
  "k \<notin> fst ` set es \<Longrightarrow> map_of (map_emplace k v es) j = (if j = k then Some v else map_of es j)"
  by (induction k v es rule: map_emplace.induct) auto

lemma dc_find_entry: "dc_inv s \<Longrightarrow> dc_find k s = Some f \<Longrightarrow> entry_ok f \<and> df_bytes f \<le> kMaxPendingBytes"
  using dc_total_remove [OF dc_inv_distinct, of s k f] map_of_SomeD [of "dc_pending s" k f]
  by (fastforce simp: dc_inv_def dc_find_def)

lemma dc_inv_init [inv_intros]: "dc_inv dc_init"
  by (simp add: dc_inv_def dc_init_def dc_sets_def)

lemma dc_inv_Reset [inv_intros]: "dc_inv (dc_Reset s)"
  by (simp add: dc_inv_def dc_Reset_def dc_sets_def)

lemma dc_inv_erase [inv_intros]:
  assumes "dc_inv s"
  shows "dc_inv (dc_erase k s)"
proof (cases "dc_find k s")
  case (Some f)
  from dc_total_remove [OF dc_inv_distinct [OF assms]] Some
  have "dc_total (filter (\<lambda>e. fst e \<noteq> k) (dc_pending s)) + df_bytes f = dc_total (dc_pending s)" by (simp add: dc_find_def)
  then have "size_sub (dc_total (dc_pending s)) (df_bytes f) = dc_total (filter (\<lambda>e. fst e \<noteq> k) (dc_pending s))"
    "dc_total (filter (\<lambda>e. fst e \<noteq> k) (dc_pending s)) \<le> dc_total (dc_pending s)" by simp_all
  moreover have "sorted_wrt (<) (map fst (filter (\<lambda>e. fst e \<noteq> k) (dc_pending s)))"
    using assms by (auto simp: dc_inv_def sorted_wrt_map intro: sorted_wrt_filter)
  moreover have "length (filter (\<lambda>e. fst e \<noteq> k) (dc_pending s)) \<le> kMaxPendingFrames"
    using assms by (intro order_trans [OF length_filter_le]) (simp add: dc_inv_def)
  ultimately show ?thesis
    using assms Some unfolding dc_inv_def dc_erase_def dc_sets_def by simp
qed (use assms in \<open>simp add: dc_erase_def\<close>)

lemma dc_inv_fields [simp]:
  "dc_inv (s\<lparr>dc_expected := x\<rparr>) = dc_inv s" "dc_inv (s\<lparr>dc_initialized := a\<rparr>) = dc_inv s"
  "dc_inv (s\<lparr>dc_waiting := a\<rparr>) = dc_inv s" "dc_inv (s\<lparr>dc_frames := y\<rparr>) = dc_inv s"
  "dc_inv (s\<lparr>dc_lastIncrease := t\<rparr>) = dc_inv s" "dc_inv (s\<lparr>dc_lastPli := t\<rparr>) = dc_inv s"
  by (simp_all add: dc_inv_def dc_sets_def)

lemma dc_inv_bitrate [simp]:
  "2000000 \<le> r \<Longrightarrow> r \<le> 8000000 \<Longrightarrow> dc_inv s \<Longrightarrow> dc_inv (s\<lparr>dc_bitrate := r\<rparr>)"
  by (simp add: dc_inv_def dc_sets_def)

lemma dc_inv_rate: "dc_inv s \<Longrightarrow> 2000000 \<le> dc_lower_rate (dc_bitrate s) \<and> dc_lower_rate (dc_bitrate s) \<le> 8000000"
proof -
  have rate: "2000000 \<le> dc_lower_rate r \<and> dc_lower_rate r \<le> 8000000" if "r \<le> 8000000" for r
  proof -
    have "r * 85 mod 2 ^ 32 div 100 \<le> r * 85 div 100" by (intro div_le_mono) simp
    also have "\<dots> \<le> 8000000 * 85 div 100" using that by (intro div_le_mono) simp
    finally show ?thesis by (simp add: dc_lower_rate_def)
  qed
  show "dc_inv s \<Longrightarrow> 2000000 \<le> dc_lower_rate (dc_bitrate s) \<and> dc_lower_rate (dc_bitrate s) \<le> 8000000"
    using rate by (simp add: dc_inv_def)
qed

lemma dc_inv_recover [inv_intros]:
  assumes "dc_inv s" "dc_recover now (s, b) = (s', b')"
  shows "dc_inv s'"
proof -
  let ?r = "dc_lower_rate (dc_bitrate s)"
  have "s' = s\<lparr>dc_waiting := True\<rparr> \<or> s' = s\<lparr>dc_waiting := True, dc_lastPli := now, dc_lastIncrease := now, dc_bitrate := ?r\<rparr>"
    using assms(2) unfolding dc_recover_def Let_def split_conv by (simp split: if_splits)
  then show ?thesis using assms(1) dc_inv_rate [OF assms(1)] by auto
qed

lemma dc_inv_assemble [inv_intros]:
  assumes i: "dc_inv s" and f: "dc_find k s = Some f" and a: "dc_assemble f s = (r, s')"
  shows "dc_inv s'"
proof -
  have "dc_sets s" "length (concat (df_chunks f)) \<le> kMaxPendingBytes"
    using dc_find_entry [OF i f] i by (simp_all add: entry_ok_def dc_inv_def)
  from dc_assemble_props(1) [OF this a] dc_assemble_same [OF a] i show ?thesis
    unfolding dc_inv_def dc_same_def by metis
qed

section \<open>The gate\<close>

definition dc_safe :: "bool \<Rightarrow> dc \<times> dc_batch \<Rightarrow> bool" where
  "dc_safe w sb \<longleftrightarrow> dc_inv (fst sb) \<and>
     (\<forall>f \<in> set (db_frames (snd sb)). fst f \<noteq> [] \<and> length (fst f) \<le> dc_limit) \<and>
     (w \<longrightarrow> (if db_frames (snd sb) = [] then dc_waiting (fst sb) else configured (fst (hd (db_frames (snd sb))))))"

lemma dc_safe_recover: "dc_safe w (s, b) \<Longrightarrow> dc_safe w (dc_recover now (s, b))"
proof -
  assume s: "dc_safe w (s, b)"
  obtain s' b' where r: "dc_recover now (s, b) = (s', b')" by fastforce
  from s have "dc_inv s" by (simp add: dc_safe_def)
  from dc_recover_keeps [OF r] dc_inv_recover [OF this r] s show ?thesis
    unfolding r by (simp add: dc_safe_def split: if_splits)
qed

lemma dc_safe_erase: "dc_safe w (s, b) \<Longrightarrow> dc_safe w (dc_erase k s, b)"
  using dc_inv_erase [of s k] by (auto simp: dc_safe_def dc_erase_def split: option.splits)

lemma dc_safe_expected [simp]: "dc_safe w (s\<lparr>dc_expected := x\<rparr>, b) = dc_safe w (s, b)"
  "dc_safe w (s\<lparr>dc_initialized := i\<rparr>, b) = dc_safe w (s, b)"
  by (simp_all add: dc_safe_def)

lemma dc_safe_take:
  assumes s: "dc_safe w (s, b)" and f: "dc_find k s = Some f"
  shows "dc_safe w (dc_take now f (s, b))"
proof -
  obtain out s1 where a: "dc_assemble f s = (out, s1)" by fastforce
  have i: "dc_inv s" using s by (simp add: dc_safe_def)
  have raw: "length (concat (df_chunks f)) \<le> kMaxPendingBytes"
    using dc_find_entry [OF i f] by (simp add: entry_ok_def)
  have sets: "dc_sets s" using i by (simp add: dc_inv_def)
  note i1 = dc_inv_assemble [OF i f a] and p = dc_assemble_props [OF sets raw a]
  show ?thesis
  proof (cases out)
    case None
    then have "dc_safe w (s1, b)" using s p(2) i1 by (auto simp: dc_safe_def)
    note rec = dc_safe_recover [OF this, of now]
    obtain s2 b2 where r: "dc_recover now (s1, b) = (s2, b2)" by fastforce
    from dc_safe_erase [OF rec [unfolded r]] None a r show ?thesis by (simp add: dc_take_def Let_def)
  next
    case (Some d)
    obtain x t where d: "d = (x, t)" by fastforce
    have "dc_safe w (s1\<lparr>dc_frames := dc_frames s1 + 1\<rparr>, b\<lparr>db_frames := db_frames b @ [d]\<rparr>)"
      using s p(3) [of x t] i1 Some d by (auto simp: dc_safe_def hd_append)
    from dc_safe_erase [OF this] Some a show ?thesis by (simp add: dc_take_def Let_def)
  qed
qed

lemma dc_safe_skip: "dc_safe w (s, b) \<Longrightarrow> dc_safe w (dc_skip now (s, b))"
  by (simp add: dc_skip_def Let_def dc_safe_recover dc_safe_erase)

lemma dc_safe_jump: "dc_safe w (s, b) \<Longrightarrow> dc_safe w (dc_jump now k (s, b))"
  by (simp add: dc_jump_def dc_safe_recover)

lemma dc_safe_drain_loop: "dc_safe w sb \<Longrightarrow> dc_safe w (dc_drain_loop now sb)"
proof (induction now sb rule: dc_drain_loop.induct)
  case (1 now sb)
  obtain s b where sb: "sb = (s, b)" by fastforce
  show ?case
  proof (cases "dc_pending s = []")
    case False
    show ?thesis
    proof (cases "dc_find (dc_expected s) s")
      case None
      have IH: "dc_safe w (dc_drain_loop now (dc_jump now k (s, b)))"
        if "fst (nearest (dc_expected s) (dc_pending s)) = Some (k, f)" "\<not> now - df_arrival f < 10000" for k f
        using 1(1) [OF refl, unfolded sb fst_conv, OF False None that(1) refl that(2)] 1(4) dc_safe_jump by (simp add: sb)
      show ?thesis
        using False None 1(4) IH by (simp add: sb dc_drain_loop.simps [of now "(s, b)"] split: option.splits)
    next
      case (Some f)
      with False 1(2,3) [OF refl] 1(4) dc_safe_take [OF _ Some] show ?thesis
        by (auto simp: dc_safe_skip sb dc_drain_loop.simps [of now "(s, b)"])
    qed
  qed (use 1(4) in \<open>simp add: dc_drain_loop.simps sb\<close>)
qed

lemma dc_safe_expire: "dc_safe w sb \<Longrightarrow> dc_safe w (dc_expire now es sb)"
proof (induction now es sb rule: dc_expire.induct)
  case (2 now k f es s b)
  have "dc_safe w (dc_recover now (dc_erase k s, b))" "dc_safe w (dc_erase k s, b)"
    using 2(3) by (simp_all add: dc_safe_recover dc_safe_erase)
  with 2 show ?case by (auto simp: Let_def)
qed simp

lemma dc_safe_drop_stale: "dc_safe w (s, b) \<Longrightarrow> dc_safe w (dc_drop_stale es s, b)"
  by (induction es s rule: dc_drop_stale.induct) (auto simp: dc_safe_erase)

lemma dc_safe_increase: "dc_safe w (s, b) \<Longrightarrow> dc_safe w (dc_increase now (s, b))"
proof -
  assume s: "dc_safe w (s, b)"
  then have "2000000 \<le> dc_bitrate s" "dc_bitrate s \<le> 8000000" by (simp_all add: dc_safe_def dc_inv_def)
  then have "2000000 \<le> min 8000000 ((dc_bitrate s + 300000) mod 2 ^ 32)" by simp
  with s show ?thesis by (auto simp: dc_increase_def Let_def dc_safe_def)
qed

lemma dc_safe_finish: "dc_safe w sb \<Longrightarrow> dc_safe w (dc_finish now sb)"
  using dc_safe_drain_loop [of w sb now]
  by (cases "dc_drain_loop now sb") (simp add: dc_finish_def dc_safe_increase dc_safe_drop_stale)

lemma dc_safe_drain: "dc_safe w sb \<Longrightarrow> dc_safe w (dc_drain now sb)"
proof -
  assume "dc_safe w sb"
  obtain s b where e: "dc_expire now (dc_pending (fst sb)) sb = (s, b)" by fastforce
  with dc_safe_expire [OF \<open>dc_safe w sb\<close>, of now "dc_pending (fst sb)"] have s: "dc_safe w (s, b)" by simp
  have "dc_safe w (dc_finish now (s\<lparr>dc_expected := k, dc_initialized := True\<rparr>, b))" for k
    using s by (intro dc_safe_finish) simp
  with s dc_safe_finish [OF s] show ?thesis
    by (simp add: dc_drain_def e split: option.splits)
qed

text \<open>The storing of a chunk, and the packet and timer entry points.\<close>

lemma filter_nonempty_update:
  "i < length cs \<Longrightarrow> cs ! i = [] \<Longrightarrow> d \<noteq> [] \<Longrightarrow>
   length (filter (\<lambda>c. c \<noteq> []) (cs[i := d])) = length (filter (\<lambda>c. c \<noteq> []) cs) + 1 \<and>
   length (concat (cs[i := d])) = length (concat cs) + length d"
  by (induction cs arbitrary: i) (auto split: nat.splits)

lemma entry_ok_store:
  assumes "entry_ok f" "i < unat (df_count f)" "df_chunks f ! i = []" "d \<noteq> []"
  shows "entry_ok (f\<lparr>df_chunks := (df_chunks f)[i := d], df_received := df_received f + 1,
    df_bytes := df_bytes f + length d\<rparr>)"
  using assms filter_nonempty_update [of i "df_chunks f" d] by (auto simp: entry_ok_def)

lemma dc_safe_store:
  assumes s: "dc_safe w (s, b)" and i: "i < unat count" and d: "d \<noteq> []"
    and room: "dc_bytes s + length d \<le> kMaxPendingBytes"
  shows "dc_safe w (dc_store_chunk seq ts flags count i d now (s, b))"
proof (cases "dc_find seq s")
  case None
  with s show ?thesis by (simp add: dc_store_chunk_def)
next
  case (Some f)
  have inv: "dc_inv s" using s by (simp add: dc_safe_def)
  note f = dc_find_entry [OF inv Some, THEN conjunct1]
  let ?g = "f\<lparr>df_chunks := (df_chunks f)[i := d], df_received := df_received f + 1, df_bytes := df_bytes f + length d\<rparr>"
  let ?s = "s\<lparr>dc_pending := map_set seq ?g (dc_pending s), dc_bytes := dc_bytes s + length d\<rparr>"
  have rec: "dc_safe w (dc_recover now (dc_erase seq s, b))" using s by (simp add: dc_safe_recover dc_safe_erase)
  have "dc_inv ?s" if "df_count f = count" "df_chunks f ! i = []"
  proof -
    have "entry_ok ?g" using entry_ok_store [OF f _ that(2) d] i that(1) by simp
    moreover have "dc_total (map_set seq ?g (dc_pending s)) = dc_total (dc_pending s) + length d"
      using dc_total_map_set [OF dc_inv_distinct [OF inv], of seq f ?g] Some by (simp add: dc_find_def)
    ultimately show ?thesis
      using inv room by (auto simp: dc_inv_def dc_sets_def dest!: set_map_set)
  qed
  then have "dc_safe w (?s, b)" if "df_count f = count" "df_chunks f ! i = []"
    using s that by (auto simp: dc_safe_def)
  with rec s show ?thesis by (auto simp: dc_store_chunk_def Some)
qed

lemma dc_inv_emplace:
  assumes "dc_inv s" "dc_find seq s = None" "length (dc_pending s) < kMaxPendingFrames" "count \<noteq> 0"
  shows "dc_inv (s\<lparr>dc_pending := map_emplace seq (new_frame ts count flags now) (dc_pending s)\<rparr>)"
proof -
  have "seq \<notin> fst ` set (dc_pending s)" using assms(2) by (simp add: dc_find_def map_of_eq_None_iff)
  moreover have "entry_ok (new_frame ts count flags now)" "df_bytes (new_frame ts count flags now) = 0"
    using assms(4) by (simp_all add: entry_ok_def new_frame_def)
  ultimately show ?thesis
    using assms(1,3) by (auto simp: dc_inv_def dc_sets_def sorted_emplace set_map_emplace dc_total_emplace)
qed

lemma dc_safe_packet:
  assumes s: "dc_safe w (s, empty_batch)"
  shows "dc_safe w (dc_ProcessPacketAt p now s)"
proof (cases "now < 0 \<or> \<not> dc_header_ok p")
  case True
  with s show ?thesis by (simp add: dc_ProcessPacketAt_def)
next
  case False
  then have h: "12 < length p" "p ! 5 \<noteq> 0" "unat (p ! 4) < unat (p ! 5)"
    by (auto simp: dc_header_ok_def word_less_nat_alt word_le_nat_alt not_le)
  let ?seq = "LE16 p 6" and ?ts = "LE32 p 8"
  obtain s1 b1 where d: "dc_drain now (s, empty_batch) = (s1, b1)" by fastforce
  with dc_safe_drain [OF s, of now] have s1: "dc_safe w (s1, b1)" by simp
  let ?reset = "s1\<lparr>dc_pending := [], dc_bytes := 0, dc_initialized := False\<rparr>"
  have reset: "dc_safe w (?reset, b1)" using s1 by (auto simp: dc_safe_def dc_inv_def dc_sets_def)
  define s2 where "s2 = (if dc_find ?seq s1 = None
      then s1\<lparr>dc_pending := map_emplace ?seq (new_frame ?ts (p ! 5) (p ! 2) now) (dc_pending s1)\<rparr> else s1)"
  let ?full = "dc_find ?seq s1 = None \<and> length (dc_pending s1) \<ge> kMaxPendingFrames \<or>
      dc_bytes s1 + (length p - 12) > kMaxPendingBytes"
  have st: "dc_safe w (dc_store_chunk ?seq ?ts (p ! 2) (p ! 5) (unat (p ! 4)) (drop 12 p) now (s2, b1))" if "\<not> ?full"
  proof (rule dc_safe_store)
    show "dc_safe w (s2, b1)"
      using s1 that dc_inv_emplace [of s1 ?seq "p ! 5" ?ts "p ! 2" now] h(2) by (auto simp: s2_def dc_safe_def)
    show "dc_bytes s2 + length (drop 12 p) \<le> kMaxPendingBytes" using that by (simp add: s2_def)
  qed (use h in auto)
  have "dc_ProcessPacketAt p now s =
      (if dc_initialized s1 \<and> Delta ?seq (dc_expected s1) < 0 then (s1, b1)
       else if ?full then dc_recover now (?reset, b1)
       else dc_drain now (dc_store_chunk ?seq ?ts (p ! 2) (p ! 5) (unat (p ! 4)) (drop 12 p) now (s2, b1)))"
    using False unfolding dc_ProcessPacketAt_def Let_def d split_conv s2_def by simp
  with s1 dc_safe_recover [OF reset, of now] dc_safe_drain [OF st, of now] show ?thesis by simp
qed

lemma dc_safe_tick:
  assumes "dc_safe w (s, empty_batch)"
  shows "dc_safe w (dc_OnTimerTickAt now s)"
  using dc_safe_drain [OF assms, of now] assms
  by (cases "dc_drain now (s, empty_batch)") (simp add: dc_OnTimerTickAt_def dc_safe_recover)

section \<open>Runs\<close>

datatype dc_input = DcPacket bytes int | DcTick int | DcReset

fun dc_step :: "dc_input \<Rightarrow> dc \<Rightarrow> dc \<times> dc_batch" where
  "dc_step (DcPacket p now) s = dc_ProcessPacketAt p now s"
| "dc_step (DcTick now) s = dc_OnTimerTickAt now s"
| "dc_step DcReset s = (dc_Reset s, empty_batch)"

text \<open>The access units of a sequence of calls, with the final state.\<close>

fun dc_run :: "dc \<Rightarrow> dc_input list \<Rightarrow> (bytes \<times> u32) list \<times> dc" where
  "dc_run s [] = ([], s)"
| "dc_run s (i # is) = (let (s', b) = dc_step i s; (fs, s'') = dc_run s' is in (db_frames b @ fs, s''))"

lemma dc_safe_start: "dc_inv s \<Longrightarrow> (w \<Longrightarrow> dc_waiting s) \<Longrightarrow> dc_safe w (s, empty_batch)"
  by (simp add: dc_safe_def empty_batch_def)

lemma dc_safe_step:
  assumes "dc_inv s" "w \<Longrightarrow> dc_waiting s"
  shows "dc_safe w (dc_step i s)"
proof (cases i)
  case DcReset
  have "dc_waiting (dc_Reset s)" by (simp add: dc_Reset_def)
  with DcReset show ?thesis by (simp add: dc_safe_start dc_inv_Reset)
qed (use dc_safe_packet [OF dc_safe_start [OF assms]] dc_safe_tick [OF dc_safe_start [OF assms]] in simp_all)

lemma dc_inv_run: "dc_inv s \<Longrightarrow> dc_inv (snd (dc_run s is))"
proof (induction "is" arbitrary: s)
  case (Cons i "is")
  obtain s' b where st: "dc_step i s = (s', b)" by fastforce
  with dc_safe_step [OF Cons.prems, of False i] have "dc_inv s'" by (simp add: dc_safe_def)
  from Cons.IH [OF this] show ?case by (simp add: st case_prod_beta Let_def)
qed simp

definition dc_source :: "dc_input \<Rightarrow> dc \<Rightarrow> bytes list \<times> dc" where
  "dc_source i s = (let (s', b) = dc_step i s in (map fst (db_frames b), s'))"

lemma dc_source_safe:
  assumes "dc_inv s" "w \<Longrightarrow> dc_waiting s" "dc_source i s = (fs, s')"
  obtains b where "fs = map fst (db_frames b)" "dc_safe w (s', b)"
  using dc_safe_step [OF assms(1,2), where i = i] assms(3) that
  by (cases "dc_step i s") (auto simp: dc_source_def)

interpretation dcv: video_source dc_source dc_inv dc_waiting dc_limit
proof unfold_locales
  fix s i fs s' f assume a: "dc_inv s" "dc_source i s = (fs, s')"
  obtain b where b: "fs = map fst (db_frames b)" "dc_safe False (s', b)"
    by (rule dc_source_safe [OF a(1) _ a(2), where w = False]) simp_all
  then show "dc_inv s'" by (simp add: dc_safe_def)
  show "f \<in> set fs \<Longrightarrow> f \<noteq> [] \<and> length f \<le> dc_limit" using b by (auto simp: dc_safe_def)
next
  fix s i f fs s' assume a: "dc_inv s" "dc_waiting s" "dc_source i s = (f # fs, s')"
  obtain b where b: "f # fs = map fst (db_frames b)" "dc_safe True (s', b)" by (rule dc_source_safe [OF a])
  from b(1) obtain x xs where "db_frames b = x # xs" "fst x = f" unfolding Cons_eq_map_conv by metis
  with b(2) show "configured f" by (simp add: dc_safe_def)
next
  fix s i s' assume a: "dc_inv s" "dc_waiting s" "dc_source i s = ([], s')"
  obtain b where "[] = map fst (db_frames b)" "dc_safe True (s', b)" by (rule dc_source_safe [OF a])
  then show "dc_waiting s'" by (simp add: dc_safe_def)
qed

section \<open>Dispatch\<close>

lemma dc_dispatch_stops:
  "\<forall>s. effect e s = dc_Reset s \<Longrightarrow> e \<notin> set (butlast (fst (dc_dispatch effect g es s)))"
proof (induction effect g es s rule: dc_dispatch.induct)
  case (2 effect g x es s)
  show ?case
  proof (cases "g = dc_generation s \<and> x = e")
    case True
    then have "g \<noteq> dc_generation (effect x s)" using 2(2) by (simp add: dc_Reset_def)
    then have "dc_dispatch effect g es (effect x s) = ([], effect x s)" by (cases es) simp_all
    with True show ?thesis by simp
  next
    case False
    with 2 show ?thesis by (auto simp: case_prod_beta Let_def)
  qed
qed simp

section \<open>What a sender writes\<close>

definition put_le16 :: "u16 \<Rightarrow> bytes" where
  "put_le16 v = [ucast v, ucast (drop_bit 8 v)]"

definition put_le32 :: "u32 \<Rightarrow> bytes" where
  "put_le32 v = [ucast v, ucast (drop_bit 8 v), ucast (drop_bit 16 v), ucast (drop_bit 24 v)]"

text \<open>Chunk \<open>i\<close> of a key frame; \<open>config\<close> is the flag that promises parameter sets.\<close>

definition dc_flags :: "bool \<Rightarrow> nat \<Rightarrow> nat \<Rightarrow> u8" where
  "dc_flags config i n = 1 OR (if config then 2 else 0) OR (if i = 0 then 4 else 0) OR (if i + 1 = n then 8 else 0)"

definition dc_encode :: "u16 \<Rightarrow> u32 \<Rightarrow> bool \<Rightarrow> bytes list \<Rightarrow> nat \<Rightarrow> bytes" where
  "dc_encode seq ts config cs i =
     [0x4D, 0x4B, dc_flags config i (length cs), 1, of_nat i, of_nat (length cs)] @ put_le16 seq @ put_le32 ts @ cs ! i"

lemma dc_flags_bits:
  "dc_flags config i n AND 0xf0 = 0" "(dc_flags config i n AND 4 \<noteq> 0) = (i = 0)"
  "(dc_flags config i n AND 8 \<noteq> 0) = (i + 1 = n)" "dc_flags config i n AND 3 = (if config then 3 else 1)"
proof -
  have all: "(1 OR (if c then 2 else 0) OR (if a then 4 else 0) OR (if b then 8 else 0) :: u8) AND 0xf0 = 0 \<and>
      ((1 OR (if c then 2 else 0) OR (if a then 4 else 0) OR (if b then 8 else 0) :: u8) AND 4 \<noteq> 0) = a \<and>
      ((1 OR (if c then 2 else 0) OR (if a then 4 else 0) OR (if b then 8 else 0) :: u8) AND 8 \<noteq> 0) = b \<and>
      (1 OR (if c then 2 else 0) OR (if a then 4 else 0) OR (if b then 8 else 0) :: u8) AND 3 = (if c then 3 else 1)"
    for a b c by (cases a; cases b; cases c; simp)
  show "dc_flags config i n AND 0xf0 = 0" "(dc_flags config i n AND 4 \<noteq> 0) = (i = 0)"
    "(dc_flags config i n AND 8 \<noteq> 0) = (i + 1 = n)" "dc_flags config i n AND 3 = (if config then 3 else 1)"
    unfolding dc_flags_def using all by blast+
qed

lemma le16_bits: "(ucast (ucast v :: u8) OR push_bit 8 (ucast (ucast (drop_bit 8 v) :: u8)) :: u16) = v"
proof (rule bit_word_eqI)
  fix n assume "n < LENGTH(16)"
  then show "bit (ucast (ucast v :: u8) OR push_bit 8 (ucast (ucast (drop_bit 8 v) :: u8)) :: u16) n = bit v n"
    by (cases "n < 8") (auto simp: bit_simps)
qed

lemma le32_bits:
  "(ucast (ucast (ucast v :: u8) OR push_bit 8 (ucast (ucast (drop_bit 8 v) :: u8)) :: u16) OR
    push_bit 16 (ucast (ucast (ucast (drop_bit 16 v) :: u8) OR push_bit 8 (ucast (ucast (drop_bit 24 v) :: u8)) :: u16)) :: u32) = v"
proof (rule bit_word_eqI)
  fix n assume "n < LENGTH(32)"
  then consider "n < 8" | "8 \<le> n \<and> n < 16" | "16 \<le> n \<and> n < 24" | "24 \<le> n \<and> n < 32" by fastforce
  then show "bit (ucast (ucast (ucast v :: u8) OR push_bit 8 (ucast (ucast (drop_bit 8 v) :: u8)) :: u16) OR
    push_bit 16 (ucast (ucast (ucast (drop_bit 16 v) :: u8) OR push_bit 8 (ucast (ucast (drop_bit 24 v) :: u8)) :: u16)) :: u32) n = bit v n"
    by cases (auto simp: bit_simps)
qed

lemma dc_encode_fields:
  assumes "i < length cs" "length cs \<le> 255" and pd: "p = dc_encode seq ts config cs i"
  shows "p ! 0 = 0x4D" "p ! 1 = 0x4B" "p ! 2 = dc_flags config i (length cs)" "p ! 3 = 1"
    "unat (p ! 4) = i" "unat (p ! 5) = length cs" "p ! 5 = of_nat (length cs)" "p ! 4 = of_nat i"
    "LE16 p 0 = kDcMagic" "LE16 p 6 = seq" "LE32 p 8 = ts" "drop 12 p = cs ! i" "length p = 12 + length (cs ! i)"
proof -
  have p: "p = [0x4D, 0x4B, dc_flags config i (length cs), 1, of_nat i, of_nat (length cs), ucast seq, ucast (drop_bit 8 seq),
      ucast ts, ucast (drop_bit 8 ts), ucast (drop_bit 16 ts), ucast (drop_bit 24 ts)] @ cs ! i"
    by (simp add: pd dc_encode_def put_le16_def put_le32_def)
  show "p ! 0 = 0x4D" "p ! 1 = 0x4B" "p ! 2 = dc_flags config i (length cs)" "p ! 3 = 1"
    "p ! 5 = of_nat (length cs)" "p ! 4 = of_nat i" "drop 12 p = cs ! i" "length p = 12 + length (cs ! i)"
    by (simp_all add: p)
  show "unat (p ! 4) = i" "unat (p ! 5) = length cs" using assms(1,2) by (simp_all add: p unat_of_nat)
  show "LE16 p 0 = kDcMagic" by (simp add: p LE16_def kDcMagic_def)
  show "LE16 p 6 = seq" using le16_bits [of seq] by (simp add: p LE16_def)
  show "LE32 p 8 = ts" using le32_bits [of ts] by (simp add: p LE16_def LE32_def)
qed

text \<open>The frame after the chunks \<open>is\<close> have arrived, the first of them at \<open>t0\<close>.\<close>

definition part_chunks :: "bytes list \<Rightarrow> nat set \<Rightarrow> bytes list" where
  "part_chunks cs is = map (\<lambda>i. if i \<in> is then cs ! i else []) [0..<length cs]"

definition part_frame :: "u32 \<Rightarrow> bool \<Rightarrow> bytes list \<Rightarrow> int \<Rightarrow> nat set \<Rightarrow> dc_frame" where
  "part_frame ts config cs t0 is =
     \<lparr>df_timestamp = ts, df_count = of_nat (length cs), df_stableFlags = (if config then 3 else 1),
      df_received = card is, df_bytes = length (concat (part_chunks cs is)), df_arrival = t0,
      df_chunks = part_chunks cs is\<rparr>"

definition part_state :: "u16 \<Rightarrow> u32 \<Rightarrow> bool \<Rightarrow> bytes list \<Rightarrow> int \<Rightarrow> nat set \<Rightarrow> dc" where
  "part_state seq ts config cs t0 is =
     (if is = {} then dc_init
      else dc_init\<lparr>dc_pending := [(seq, part_frame ts config cs t0 is)],
        dc_bytes := length (concat (part_chunks cs is))\<rparr>)"

lemma part_chunks_insert:
  "i < length cs \<Longrightarrow> i \<notin> is \<Longrightarrow> (part_chunks cs is)[i := cs ! i] = part_chunks cs (insert i is)"
  by (rule nth_equalityI) (auto simp: part_chunks_def nth_list_update)

lemma part_chunks_nth: "i < length cs \<Longrightarrow> part_chunks cs is ! i = (if i \<in> is then cs ! i else [])"
  by (simp add: part_chunks_def)

lemma length_part_chunks [simp]: "length (part_chunks cs is) = length cs"
  by (simp add: part_chunks_def)

lemma part_chunks_all: "part_chunks cs {0..<length cs} = cs"
  by (rule nth_equalityI) (auto simp: part_chunks_def)

lemma part_chunks_size:
  "i < length cs \<Longrightarrow> i \<notin> is \<Longrightarrow> cs ! i \<noteq> [] \<Longrightarrow>
   length (concat (part_chunks cs (insert i is))) = length (concat (part_chunks cs is)) + length (cs ! i)"
  using filter_nonempty_update [of i "part_chunks cs is" "cs ! i"] part_chunks_insert [of i cs "is"]
  by (simp add: part_chunks_nth)

lemma concat_size: "\<forall>c \<in> set cs. length c \<le> n \<Longrightarrow> length (concat cs) \<le> length cs * n"
  by (induction cs) auto

lemma part_size:
  "\<forall>c \<in> set cs. length c \<le> 1180 \<Longrightarrow> length cs \<le> 255 \<Longrightarrow> length (concat (part_chunks cs is)) \<le> 300900"
proof -
  assume c: "\<forall>c \<in> set cs. length c \<le> 1180" "length cs \<le> 255"
  then have "\<forall>c \<in> set (part_chunks cs is). length c \<le> 1180" by (auto simp: part_chunks_def)
  from concat_size [OF this] c(2) show ?thesis by simp
qed

lemma drain_incomplete:
  assumes "is \<subset> {0..<length cs}" "length cs \<le> 255" "now < t0 + 60000"
  shows "dc_drain now (part_state seq ts config cs t0 is, empty_batch) = (part_state seq ts config cs t0 is, empty_batch)"
proof -
  have "card is < length cs" using psubset_card_mono [OF _ assms(1)] by simp
  moreover have "unat (of_nat (length cs) :: u8) = length cs" using assms(2) by (simp add: unat_of_nat)
  ultimately have n: "\<not> dc_complete (part_frame ts config cs t0 is)" by (simp add: dc_complete_def part_frame_def)
  have "df_arrival (part_frame ts config cs t0 is) = t0" by (simp add: part_frame_def)
  with n assms(3) show ?thesis
    by (simp add: dc_drain_def part_state_def dc_init_def first_key_def)
qed

text \<open>One chunk of the frame: stored, and the frame not looked at yet.\<close>

lemma store_part:
  fixes seq :: u16 and ts :: u32 and config :: bool
  assumes cs: "length cs \<le> 255" "cs ! i \<noteq> []" and i: "i < length cs" "i \<notin> is" and fin: "finite is"
    and t0: "is = {} \<longrightarrow> t0 = now"
  defines "s \<equiv> part_state seq ts config cs t0 is"
  defines "s2 \<equiv> (if dc_find seq s = None
      then s\<lparr>dc_pending := map_emplace seq (new_frame ts (of_nat (length cs)) (dc_flags config i (length cs)) now) (dc_pending s)\<rparr>
      else s)"
  shows "dc_store_chunk seq ts (dc_flags config i (length cs)) (of_nat (length cs)) i (cs ! i) now (s2, empty_batch) =
    (part_state seq ts config cs t0 (insert i is), empty_batch)"
proof -
  have un: "unat (of_nat (length cs) :: u8) = length cs" using cs(1) by (simp add: unat_of_nat)
  have empty: "part_chunks cs {} = replicate (length cs) []" by (simp add: part_chunks_def map_replicate_const)
  have nf: "new_frame ts (of_nat (length cs)) (dc_flags config i (length cs)) now = part_frame ts config cs now {}"
    by (simp add: new_frame_def part_frame_def dc_flags_bits un empty)
  have p: "dc_pending s2 = [(seq, part_frame ts config cs t0 is)]"
    using t0 nf by (simp add: s2_def s_def part_state_def dc_find_def dc_init_def)
  have b: "dc_bytes s2 = length (concat (part_chunks cs is))"
    by (simp add: s2_def s_def part_state_def dc_find_def dc_init_def empty)
  have rest: "s2 = dc_init\<lparr>dc_pending := dc_pending s2, dc_bytes := dc_bytes s2\<rparr>"
    by (simp add: s2_def s_def part_state_def dc_find_def dc_init_def)
  have f: "dc_find seq s2 = Some (part_frame ts config cs t0 is)" by (simp add: dc_find_def p)
  have g: "(part_frame ts config cs t0 is)\<lparr>df_chunks := (part_chunks cs is)[i := cs ! i],
      df_received := card is + 1, df_bytes := length (concat (part_chunks cs is)) + length (cs ! i)\<rparr>
      = part_frame ts config cs t0 (insert i is)"
    using i fin cs(2) by (simp add: part_frame_def part_chunks_insert part_chunks_size)
  have "dc_store_chunk seq ts (dc_flags config i (length cs)) (of_nat (length cs)) i (cs ! i) now (s2, empty_batch) =
      (s2\<lparr>dc_pending := [(seq, part_frame ts config cs t0 (insert i is))],
        dc_bytes := length (concat (part_chunks cs is)) + length (cs ! i)\<rparr>, empty_batch)"
    using i g unfolding dc_store_chunk_def split_conv f option.case Let_def
    by (simp add: part_frame_def dc_flags_bits part_chunks_nth p b map_set_def)
  also have "\<dots> = (part_state seq ts config cs t0 (insert i is), empty_batch)"
    using i cs(2) by (subst rest) (simp add: part_state_def part_chunks_size)
  finally show ?thesis .
qed

lemma header_ok_encode:
  assumes "i < length cs" "length cs \<le> 255" "cs ! i \<noteq> []" "length (cs ! i) \<le> 1180"
  shows "dc_header_ok (dc_encode seq ts config cs i)"
proof -
  note e = dc_encode_fields [OF assms(1,2) refl, of seq ts config]
  have "(of_nat i :: u8) < of_nat (length cs)" using assms(1,2) by (simp add: word_less_nat_alt unat_of_nat)
  moreover have "length cs \<noteq> 0" "unat (of_nat (length cs) :: u8) = length cs" using assms(1,2) by (auto simp: unat_of_nat)
  then have "(of_nat (length cs) :: u8) \<noteq> 0" by (metis unat_0)
  moreover have "((of_nat i :: u8) = 0) = (i = 0)" using assms(1,2) by (simp add: word_unat_eq_iff unat_of_nat)
  moreover have "unat (of_nat i :: u8) = i" "unat (of_nat (length cs) :: u8) = length cs"
    using assms(1,2) by (simp_all add: unat_of_nat)
  ultimately show ?thesis
    using assms(3,4) unfolding dc_header_ok_def e dc_flags_bits
    by (cases "cs ! i") (simp_all add: kMaxDcPacketSize_def kMaxDcChunkPayload_def kPayloadH264_def not_le)
qed

lemma packet_part:
  fixes seq :: u16 and ts :: u32 and config :: bool
  assumes cs: "length cs \<le> 255" "\<forall>c \<in> set cs. c \<noteq> [] \<and> length c \<le> 1180"
    and i: "i < length cs" "i \<notin> is" "is \<subseteq> {0..<length cs}" and t: "0 \<le> now" "now < t0 + 60000" "is = {} \<longrightarrow> t0 = now"
  shows "dc_ProcessPacketAt (dc_encode seq ts config cs i) now (part_state seq ts config cs t0 is) =
    dc_drain now (part_state seq ts config cs t0 (insert i is), empty_batch)"
proof -
  let ?s = "part_state seq ts config cs t0 is" and ?p = "dc_encode seq ts config cs i"
  have ci: "cs ! i \<noteq> []" "length (cs ! i) \<le> 1180" using cs(2) i(1) by simp_all
  note e = dc_encode_fields [OF i(1) cs(1) refl, of seq ts config]
  have fin: "finite is" using i(3) finite_subset by blast
  have sub: "is \<subset> {0..<length cs}" using i by auto
  have ini: "\<not> dc_initialized ?s" by (simp add: part_state_def dc_init_def)
  have room: "\<not> (dc_find seq ?s = None \<and> length (dc_pending ?s) \<ge> kMaxPendingFrames \<or>
      dc_bytes ?s + (length ?p - 12) > kMaxPendingBytes)"
    using part_size [OF _ cs(1), of "is"] cs(2) ci(2) e(13)
    by (auto simp: part_state_def dc_init_def dc_find_def kMaxPendingFrames_def kMaxPendingBytes_def)
  have c: "\<not> (now < 0 \<or> \<not> dc_header_ok ?p)" using header_ok_encode [OF i(1) cs(1) ci] t(1) by simp
  show ?thesis
    unfolding dc_ProcessPacketAt_def if_not_P [OF c] Let_def drain_incomplete [OF sub cs(1) t(2)] split_conv
      e(2,3,5,7,10,11,12) if_not_P [OF room [unfolded e(10)]]
    using ini store_part [OF cs(1) ci(1) i(1,2) fin t(3), of seq ts config] room by (simp add: e)
qed

lemma dc_take_frames_fields:
  "dc_erase k s = s\<lparr>dc_pending := dc_pending (dc_erase k s), dc_bytes := dc_bytes (dc_erase k s)\<rparr>"
  by (simp add: dc_erase_def split: option.splits)

definition au_output :: "bytes list \<Rightarrow> bytes" where
  "au_output ns = annexb ([9, 0xf0] # last_of_type 7 ns # last_of_type 8 ns # filter (kept True) ns)"

lemma last_of_type_exists: "\<exists>n \<in> set ns. nal_type n = t \<Longrightarrow> [] \<notin> set ns \<Longrightarrow> last_of_type t ns \<noteq> []"
  by (induction ns rule: rev_induct) (auto simp: last_of_type_def nal_type_def)

text \<open>The last chunk completes the frame, which is assembled and delivered.\<close>

lemma drain_complete:
  fixes seq :: u16 and ts :: u32 and config :: bool
  assumes cs: "cs \<noteq> []" "length cs \<le> 255" "\<forall>c \<in> set cs. c \<noteq> [] \<and> length c \<le> 1180"
    and t: "now < t0 + 60000"
    and au: "split_access_unit (concat cs) = Some ns"
      "\<exists>n \<in> set ns. nal_type n = 7" "\<exists>n \<in> set ns. nal_type n = 8" "\<exists>n \<in> set ns. nal_type n = 5"
  shows "db_frames (snd (dc_drain now (part_state seq ts config cs t0 {0..<length cs}, empty_batch))) = [(au_output ns, ts)]"
proof -
  let ?f = "part_frame ts config cs t0 {0..<length cs}"
  let ?s = "part_state seq ts config cs t0 {0..<length cs}"
  let ?s1 = "?s\<lparr>dc_expected := seq, dc_initialized := True\<rparr>"
  have ne: "{0..<length cs} \<noteq> {}" using cs(1) by simp
  have un: "unat (of_nat (length cs) :: u8) = length cs" using cs(2) by (simp add: unat_of_nat)
  have comp: "dc_complete ?f" by (simp add: dc_complete_def part_frame_def un)
  have key: "df_stableFlags ?f AND 1 \<noteq> 0" by (simp add: part_frame_def)
  have arr: "df_arrival ?f = t0" by (simp add: part_frame_def)
  have s: "?s = dc_init\<lparr>dc_pending := [(seq, ?f)], dc_bytes := df_bytes ?f\<rparr>"
    using cs(1) by (simp add: part_state_def part_frame_def)
  have "dc_expire now (dc_pending ?s) (?s, empty_batch) = (?s, empty_batch)" using t by (simp add: s arr)
  moreover have "first_key (dc_pending ?s) = Some (seq, ?f)" using comp key by (simp add: s first_key_def)
  moreover have "\<not> dc_initialized ?s" by (simp add: s dc_init_def)
  ultimately have dr: "dc_drain now (?s, empty_batch) = dc_finish now (?s1, empty_batch)" by (simp add: dc_drain_def)
  have raw: "concat (df_chunks ?f) = concat cs" by (simp add: part_frame_def part_chunks_all)
  have valid: "[] \<notin> set ns" using split_access_unit_props(3) [OF au(1)] by (auto simp: ValidNalu_def)
  have sets: "last_of_type 7 ns \<noteq> []" "last_of_type 8 ns \<noteq> []" using last_of_type_exists au(2,3) valid by blast+
  have idr: "list_ex (\<lambda>n. n ! 0 AND 31 = 5) ns" using au(4) by (simp add: list_ex_iff nal_type_def)
  let ?s2 = "?s1\<lparr>dc_sps := last_of_type 7 ns, dc_pps := last_of_type 8 ns\<rparr>"
  have us: "dc_update_sets (last_of_type 7 ns) (last_of_type 8 ns) ?s1 = (True, ?s2)" using sets by (simp add: dc_update_sets_def)
  have "dc_assemble ?f ?s1 = (Some (dc_output True ns ?s2, ts), ?s2\<lparr>dc_waiting := False\<rparr>)"
    unfolding dc_assemble_def raw au(1) option.case us Let_def split_conv
    using idr sets key by (simp add: part_frame_def)
  moreover have "dc_output True ns ?s2 = au_output ns" by (simp add: dc_output_annexb au_output_def)
  ultimately have asm: "dc_assemble ?f ?s1 = (Some (au_output ns, ts), ?s2\<lparr>dc_waiting := False\<rparr>)" by simp
  have find1: "dc_find (dc_expected ?s1) ?s1 = Some ?f" "dc_pending ?s1 \<noteq> []" by (simp_all add: dc_find_def s)
  obtain s3 where tk: "dc_take now ?f (?s1, empty_batch) = (s3, empty_batch\<lparr>db_frames := [(au_output ns, ts)]\<rparr>)"
    "dc_pending s3 = []"
    unfolding dc_take_def split_conv asm Let_def by (simp add: dc_erase_pending s empty_batch_def)
  have "dc_drain_loop now (?s1, empty_batch) = (s3, empty_batch\<lparr>db_frames := [(au_output ns, ts)]\<rparr>)"
    using find1 comp tk by (simp add: dc_drain_loop.simps)
  then have "db_frames (snd (dc_finish now (?s1, empty_batch))) = [(au_output ns, ts)]"
    using tk(2) by (simp add: dc_finish_def dc_increase_def Let_def)
  then show ?thesis by (simp only: dr)
qed

text \<open>Any order of the chunks: \<open>arr\<close> pairs chunk numbers with arrival times.\<close>

lemma dc_run_parts:
  fixes seq :: u16 and ts :: u32 and config :: bool
  assumes cs: "cs \<noteq> []" "length cs \<le> 255" "\<forall>c \<in> set cs. c \<noteq> [] \<and> length c \<le> 1180"
    and au: "split_access_unit (concat cs) = Some ns"
      "\<exists>n \<in> set ns. nal_type n = 7" "\<exists>n \<in> set ns. nal_type n = 8" "\<exists>n \<in> set ns. nal_type n = 5"
  shows "arr \<noteq> [] \<Longrightarrow> distinct (map fst arr) \<Longrightarrow> is \<inter> fst ` set arr = {} \<Longrightarrow> is \<union> fst ` set arr = {0..<length cs} \<Longrightarrow>
    \<forall>a \<in> set arr. 0 \<le> snd a \<and> snd a < t0 + 60000 \<Longrightarrow> (is = {} \<longrightarrow> t0 = snd (hd arr)) \<Longrightarrow>
    fst (dc_run (part_state seq ts config cs t0 is) (map (\<lambda>(i, now). DcPacket (dc_encode seq ts config cs i) now) arr)) =
      [(au_output ns, ts)]"
proof (induction arr arbitrary: "is")
  case (Cons a arr)
  obtain i now where a: "a = (i, now)" by fastforce
  have i: "i < length cs" "i \<notin> is" "is \<subseteq> {0..<length cs}" and t: "0 \<le> now" "now < t0 + 60000" "is = {} \<longrightarrow> t0 = now"
    using Cons.prems a by auto
  note pp = packet_part [OF cs(2,3) i t, of seq ts config]
  show ?case
  proof (cases arr)
    case Nil
    then have full: "insert i is = {0..<length cs}" using Cons.prems a by auto
    have "db_frames (snd (dc_ProcessPacketAt (dc_encode seq ts config cs i) now (part_state seq ts config cs t0 is)))
        = [(au_output ns, ts)]"
      unfolding pp full by (rule drain_complete [OF cs t(2) au])
    with Nil a show ?thesis by (simp add: case_prod_beta Let_def)
  next
    case (Cons a2 arr2)
    have sub: "insert i is \<subset> {0..<length cs}" using Cons.prems a Cons by auto
    have "dc_ProcessPacketAt (dc_encode seq ts config cs i) now (part_state seq ts config cs t0 is) =
        (part_state seq ts config cs t0 (insert i is), empty_batch)"
      unfolding pp by (rule drain_incomplete [OF sub cs(2) t(2)])
    moreover have "fst (dc_run (part_state seq ts config cs t0 (insert i is))
        (map (\<lambda>(i, now). DcPacket (dc_encode seq ts config cs i) now) arr)) = [(au_output ns, ts)]"
      by (rule Cons.IH) (use Cons.prems a Cons in auto)
    ultimately show ?thesis by (simp add: a empty_batch_def case_prod_unfold Let_def)
  qed
qed simp

lemma part_state_empty: "part_state seq ts config cs t0 {} = dc_init"
  by (simp add: part_state_def)

section \<open>Properties\<close>

text \<open>C3: for every sequence of packets, timer ticks and resets, at any times: at most 32 frames and
  2 MiB are pending, the byte counter is exact, every pending frame has one slot per chunk and an
  exact count of the filled ones, and the advertised bitrate stays between 2 and 8 Mbit/s.\<close>

theorem dc_run_bounded:
  "let s = snd (dc_run dc_init xs) in
     dc_GetPendingFrames s \<le> 32 \<and> dc_GetPendingBytes s \<le> 2097152 \<and>
     dc_GetPendingBytes s = sum_list (map (\<lambda>e. length (concat (df_chunks (snd e)))) (dc_pending s)) \<and>
     list_all (\<lambda>e. length (df_chunks (snd e)) = unat (df_count (snd e)) \<and>
       df_received (snd e) = length (filter (\<lambda>c. c \<noteq> []) (df_chunks (snd e)))) (dc_pending s) \<and>
     2000000 \<le> dc_bitrate s \<and> dc_bitrate s \<le> 8000000"
proof -
  define s where "s = snd (dc_run dc_init xs)"
  have i: "dc_inv s" unfolding s_def by (rule dc_inv_run [OF dc_inv_init])
  then have e: "\<forall>e \<in> set (dc_pending s). entry_ok (snd e)" by (simp add: dc_inv_def)
  then have m: "sum_list (map (\<lambda>e. length (concat (df_chunks (snd e)))) (dc_pending s)) = dc_total (dc_pending s)"
    unfolding dc_total_def by (intro arg_cong [of _ _ sum_list] map_cong) (simp_all add: entry_ok_def)
  show ?thesis
    using i e unfolding s_def [symmetric] Let_def m
    by (simp add: dc_inv_def dc_GetPendingFrames_def dc_GetPendingBytes_def dc_total_def kMaxPendingFrames_def
        kMaxPendingBytes_def list_all_iff entry_ok_def)
qed

text \<open>The first access unit the data channel path ever delivers, whatever arrives, holds SPS, PPS
  and an IDR slice, and no access unit is empty or above 7 MiB.\<close>

theorem dc_first_frame_configured:
  assumes "dcv.frames dc_init xs = f # fs"
  shows "configured f \<and> list_all (\<lambda>g. g \<noteq> [] \<and> length g \<le> 7 * 1024 * 1024) (f # fs)"
proof -
  have w: "dc_waiting dc_init" by (simp add: dc_init_def)
  show ?thesis
    using dcv.frames_start [OF dc_inv_init w assms] dcv.frames_size [OF dc_inv_init, of _ xs] assms
    by (auto simp: dc_limit_def list_all_iff)
qed


definition dc_example :: "bytes list" where
  "dc_example = [[0, 0, 0, 1, 0x67, 1, 0, 0], [1, 0x68, 2, 0, 0, 0, 1], [0x65, 3]]"

definition dc_example_nalus :: "bytes list" where
  "dc_example_nalus = [[0x67, 1], [0x68, 2], [0x65, 3]]"

lemma dc_example_split: "split_access_unit (concat dc_example) = Some dc_example_nalus"
  by code_simp


theorem dc_first_frame_configured_witness:
  "configured (au_output dc_example_nalus)"
proof -
  let ?xs = "map (\<lambda>(i, now). DcPacket (dc_encode 65535 7 True dc_example i) now) [(0 :: nat, 0 :: int), (1, 0), (2, 0)]"
  have eq: "dcv.frames s xs = map fst (fst (dc_run s xs))" for s xs
    by (induction xs arbitrary: s) (simp_all add: dc_source_def case_prod_beta Let_def)
  have "fst (dc_run (part_state 65535 7 True dc_example 0 {}) ?xs) = [(au_output dc_example_nalus, 7)]"
    by (rule dc_run_parts [OF _ _ _ dc_example_split]) (auto simp: dc_example_def dc_example_nalus_def nal_type_def)
  then have "dcv.frames dc_init ?xs = [au_output dc_example_nalus]" unfolding eq by (simp add: part_state_empty)
  from dc_first_frame_configured [OF this] show ?thesis by blast
qed

text \<open>When a callback resets the depacketizer, nothing queued behind that callback in the same
  batch is delivered.\<close>

theorem dc_dispatch_reset_stops:
  assumes "\<forall>s. effect e s = dc_Reset s"
  shows "e \<notin> set (butlast (fst (dc_dispatch effect g es s)))"
  using assms by (rule dc_dispatch_stops)

theorem dc_dispatch_reset_stops_witness:
  "DcControl [1] \<notin> set (butlast (fst (dc_dispatch (\<lambda>e s. dc_Reset s) 1 [DcControl [1], DcFrame [2] 3] dc_init))) \<and>
   fst (dc_dispatch (\<lambda>e s. dc_Reset s) 1 [DcControl [1], DcFrame [2] 3] dc_init) = [DcControl [1]]"
  using dc_dispatch_reset_stops [of "\<lambda>e s. dc_Reset s" "DcControl [1]"]
  by (simp add: dc_init_def dc_Reset_def)

end
