(* ===== verification/Timing.thy ===== *)
theory Timing
  imports Prelude
begin

text \<open>
  \<open>src/shared/km/timing.h\<close>: the 32-bit timestamp unwrapper, the conversion of media ticks
  to microseconds and the rational pacer. The 64-bit signed results of the unwrapper are
  unbounded integers: one packet moves the value by less than \<open>2 ^ 31\<close>, so \<open>int64_t\<close>
  is not left before \<open>2 ^ 32\<close> packets of the largest jump. The conversion and the pacer
  test their own range, which the model keeps.
\<close>

section \<open>TimestampUnwrapper32\<close>

record unwrapper =
  uw_last :: "u32 option"
  uw_unwrapped :: int

definition uw_init :: unwrapper where
  "uw_init = \<lparr>uw_last = None, uw_unwrapped = 0\<rparr>"

definition uw_reset :: "unwrapper \<Rightarrow> unwrapper" where
  "uw_reset u = u\<lparr>uw_last := None, uw_unwrapped := 0\<rparr>"

definition unwrap :: "u32 \<Rightarrow> unwrapper \<Rightarrow> int \<times> unwrapper" where
  "unwrap v u =
     (case uw_last u of
        None \<Rightarrow> (uint v, u\<lparr>uw_last := Some v, uw_unwrapped := uint v\<rparr>)
      | Some l \<Rightarrow>
          let raw = v - l;
              delta = (if raw \<le> 0x7fffffff then uint raw else uint raw - 2 ^ 32);
              r = uw_unwrapped u + delta
          in (r, u\<lparr>uw_unwrapped := r, uw_last := Some v\<rparr>))"

fun unwrap_all :: "u32 list \<Rightarrow> unwrapper \<Rightarrow> int list" where
  "unwrap_all [] u = []"
| "unwrap_all (v # vs) u = (let (r, u') = unwrap v u in r # unwrap_all vs u')"

lemma uw_reset_init: "uw_reset u = uw_init"
  by (simp add: uw_reset_def uw_init_def)

lemma unwrap_delta: "(if raw \<le> 0x7fffffff then uint raw else uint raw - 2 ^ 32) = wrap_delta v l"
  if "raw = v - (l :: u32)" for raw
  using that by (auto simp: wrap_delta_def Let_def word_le_def)

lemma unwrap_some: "uw_last u = Some l \<Longrightarrow>
    unwrap v u = (let r = uw_unwrapped u + wrap_delta v l in (r, u\<lparr>uw_unwrapped := r, uw_last := Some v\<rparr>))"
  by (simp add: unwrap_def unwrap_delta Let_def)

text \<open>The sender's ticks as unbounded integers, of which only the low 32 bits are sent.\<close>

definition sent :: "int list \<Rightarrow> u32 list" where
  "sent ts = map of_int ts"

fun small_steps :: "int \<Rightarrow> int list \<Rightarrow> bool" where
  "small_steps t [] \<longleftrightarrow> True"
| "small_steps t (s # ss) \<longleftrightarrow> - (2 ^ 31) \<le> s - t \<and> s - t < 2 ^ 31 \<and> small_steps s ss"

lemma wrap_delta_of_int:
  assumes "- (2 ^ 31) \<le> s - t" "s - t < (2 ^ 31 :: int)"
  shows "wrap_delta (of_int s :: u32) (of_int t) = s - t"
proof -
  have "uint (of_int s - of_int t :: u32) = uint (of_int (s - t) :: u32)" by simp
  also have "\<dots> = (s - t) mod 2 ^ 32" by (simp only: unsigned_of_int) (simp add: take_bit_eq_mod)
  finally have "uint (of_int s - of_int t :: u32) = (s - t) mod 2 ^ 32" .
  moreover have "(s - t) mod 2 ^ 32 = (if 0 \<le> s - t then s - t else s - t + 2 ^ 32)"
  proof (cases "0 \<le> s - t")
    case False
    then have "(s - t + 2 ^ 32) mod 2 ^ 32 = s - t + 2 ^ 32"
      using assms by (intro mod_pos_pos_trivial) auto
    with False show ?thesis by simp
  qed (use assms in \<open>simp add: mod_pos_pos_trivial\<close>)
  ultimately show ?thesis using assms by (simp add: wrap_delta_def Let_def)
qed

lemma unwrap_all_sent:
  "uw_last u = Some (of_int t) \<Longrightarrow> small_steps t ts \<Longrightarrow>
   unwrap_all (sent ts) u = map (\<lambda>s. uw_unwrapped u + (s - t)) ts"
proof (induction ts arbitrary: t u)
  case Nil
  then show ?case by (simp add: sent_def)
next
  case (Cons s ss)
  let ?r = "uw_unwrapped u + (s - t)"
  let ?u = "u\<lparr>uw_unwrapped := ?r, uw_last := Some (of_int s)\<rparr>"
  have "unwrap (of_int s) u = (?r, ?u)"
    using Cons.prems by (simp add: unwrap_some wrap_delta_of_int Let_def)
  moreover have "unwrap_all (sent ss) ?u = map (\<lambda>x. ?r + (x - s)) ss"
    using Cons.prems Cons.IH [of ?u s] by simp
  ultimately show ?case by (simp add: sent_def)
qed

section \<open>TicksToMicroseconds\<close>

definition int64_max :: int where
  "int64_max = 2 ^ 63 - 1"

definition int64_min :: int where
  "int64_min = - (2 ^ 63)"

definition TicksToMicroseconds :: "int \<Rightarrow> nat \<Rightarrow> int res" where
  "TicksToMicroseconds ticks rate =
     (if rate = 0 then Inl (InvalidArgument ''zero clock rate'')
      else
        let whole = cdiv ticks (int rate); remainder = cmod ticks (int rate) in
        if whole > cdiv int64_max 1000000 \<or> whole < cdiv int64_min 1000000
        then Inl (OverflowError ''timestamp out of range'')
        else
          let a = whole * 1000000; b = cdiv (remainder * 1000000) (int rate) in
          if (b > 0 \<and> a > int64_max - b) \<or> (b < 0 \<and> a < int64_min - b)
          then Inl (OverflowError ''timestamp out of range'')
          else Inr (a + b))"

lemma cdiv_minus: "cdiv (- a) b = - cdiv a b"
  by (simp add: cdiv_def sgn_minus)

lemma cmod_minus: "cmod (- a) b = - cmod a b"
  by (simp add: cmod_def cdiv_minus)

lemma cdiv_scale_nonneg:
  assumes "0 \<le> t" "0 < r" "0 \<le> m"
  shows "cdiv (t * m) r = cdiv t r * m + cdiv (cmod t r * m) r"
proof -
  have "t * m = (t div r * m) * r + (t mod r) * m"
    by (metis distrib_right div_mult_mod_eq mult.assoc mult.commute)
  then have "t * m div r = t div r * m + (t mod r) * m div r"
    using assms by (simp add: div_mult_self1)
  with assms show ?thesis by (simp add: cdiv_nonneg cmod_nonneg)
qed

lemma cdiv_scale:
  assumes "0 < r" "0 \<le> m"
  shows "cdiv (t * m) r = cdiv t r * m + cdiv (cmod t r * m) r"
proof (cases "0 \<le> t")
  case True
  then show ?thesis using assms by (rule cdiv_scale_nonneg)
next
  case False
  then have "cdiv (- t * m) r = cdiv (- t) r * m + cdiv (cmod (- t) r * m) r"
    using assms by (intro cdiv_scale_nonneg) auto
  then show ?thesis by (simp add: cdiv_minus cmod_minus)
qed

lemma cdiv_signs:
  assumes "0 < r"
  shows "0 \<le> t \<Longrightarrow> 0 \<le> cdiv t r \<and> 0 \<le> cdiv (cmod t r * 1000000) r"
    and "t \<le> 0 \<Longrightarrow> cdiv t r \<le> 0 \<and> cdiv (cmod t r * 1000000) r \<le> 0"
proof -
  have pos: "0 \<le> cdiv t r \<and> 0 \<le> cdiv (cmod t r * 1000000) r" if "0 \<le> t" for t
    using that assms by (simp add: cdiv_nonneg cmod_nonneg pos_imp_zdiv_nonneg_iff)
  then show "0 \<le> t \<Longrightarrow> 0 \<le> cdiv t r \<and> 0 \<le> cdiv (cmod t r * 1000000) r" .
  show "t \<le> 0 \<Longrightarrow> cdiv t r \<le> 0 \<and> cdiv (cmod t r * 1000000) r \<le> 0"
    using pos [of "- t"] by (simp add: cdiv_minus cmod_minus)
qed

lemma cdiv_int64: "cdiv int64_max 1000000 = 9223372036854" "cdiv int64_min 1000000 = - 9223372036854"
  by (simp_all add: cdiv_def int64_max_def int64_min_def)

lemma ticks_exact:
  assumes "rate \<noteq> 0"
  shows "TicksToMicroseconds ticks rate =
    (let exact = cdiv (ticks * 1000000) (int rate) in
     if int64_min \<le> exact \<and> exact \<le> int64_max then Inr exact
     else Inl (OverflowError ''timestamp out of range''))"
proof -
  define w where "w = cdiv ticks (int rate)"
  define b where "b = cdiv (cmod ticks (int rate) * 1000000) (int rate)"
  have r: "0 < int rate" using assms by simp
  have ex: "cdiv (ticks * 1000000) (int rate) = w * 1000000 + b"
    unfolding w_def b_def by (rule cdiv_scale) (use r in auto)
  have "0 \<le> w \<and> 0 \<le> b \<or> w \<le> 0 \<and> b \<le> 0"
    using cdiv_signs [OF r, of ticks] unfolding w_def b_def by linarith
  then show ?thesis
    using assms unfolding TicksToMicroseconds_def ex Let_def w_def [symmetric] b_def [symmetric] cdiv_int64
    by (auto simp: int64_max_def int64_min_def)
qed

section \<open>Properties\<close>

text \<open>The unwrapper reconstructs the sender's clock: when consecutive ticks differ by less
  than half the 32-bit range in either direction, the unwrapped values are the true ticks up to
  the constant by which the first was reduced.\<close>

theorem unwrap_reconstructs:
  assumes "small_steps t ts"
  shows "unwrap_all (sent (t # ts)) uw_init = map (\<lambda>s. uint (of_int t :: u32) + (s - t)) (t # ts)"
  using unwrap_all_sent [OF _ assms, of "snd (unwrap (of_int t) uw_init)"]
  by (simp add: sent_def unwrap_def uw_init_def)

theorem unwrap_reconstructs_witness:
  "unwrap_all (sent [0xffffff00, 0x100000100, 0x100000000]) uw_init = [0xffffff00, 0x100000100, 0x100000000]"
  using unwrap_reconstructs [of "0xffffff00" "[0x100000100, 0x100000000]"] by simp

text \<open>The tick conversion is exact: it returns ticks * 10^6 / rate truncated towards zero
  whenever that value is a 64-bit integer and reports overflow otherwise, although it never
  forms the product.\<close>

theorem TicksToMicroseconds_exact:
  assumes "rate \<noteq> 0"
  shows "TicksToMicroseconds ticks rate =
    (let exact = cdiv (ticks * 1000000) (int rate) in
     if int64_min \<le> exact \<and> exact \<le> int64_max then Inr exact
     else Inl (OverflowError ''timestamp out of range''))"
  using assms by (rule ticks_exact)

theorem TicksToMicroseconds_exact_witness:
  "TicksToMicroseconds (- 90001) 90000 = Inr (- 1000011)"
  using TicksToMicroseconds_exact [of 90000 "- 90001"]
  by (simp add: cdiv_def int64_max_def int64_min_def)

end
