(* ===== verification/ReceiverEngine.thy ===== *)
theory ReceiverEngine
  imports H264Rtp DcVideo Timing BoundedVideoQueue
begin

text \<open>
  \<open>src/shared/receiver/engine/receiver_engine.{h,cpp}\<close> (\<open>ReceiverEngine\<close>): the receiver
  policy on top of the two depacketizers. The class has one serial owner. Its callbacks into the
  depacketizers change only the engine, so a call runs the depacketizer and then folds the
  engine's callbacks over the events it reported, in order. The four handlers of the platform
  are outputs: an operation returns the list of handler calls it makes; handlers that call back
  into \<open>requestKeyframe\<close> are covered as a further input after the call. Times are \<open>uint64_t\<close>
  nanoseconds; \<open>int64_t(nowNs)\<close> is \<open>sint\<close>, and the difference of two such values is taken in
  the integers (it fits while the clock is below \<open>2 ^ 63\<close>).
\<close>

section \<open>State\<close>

datatype TimestampDomain = Rtp90kHz | SenderMicroseconds

record EncodedVideoFrame =
  ef_annexB :: bytes
  ef_mediaTicks :: int
  ef_timestampDomain :: TimestampDomain
  ef_receivedMonotonicNs :: u64
  ef_generation :: u64
  ef_randomAccess :: bool

datatype MediaPath = PathRtp | PathDataChannel

datatype KeyframeChannel = ViaRtcp | ViaDataChannel

record ReceiverStats =
  st_rtpPackets :: u64
  st_rtpPacketsDropped :: u64
  st_dataChannelPackets :: u64
  st_rtpFrames :: u64
  st_dataChannelFrames :: u64
  st_recoverySignals :: u64
  st_keyframeRequestsDispatched :: u64
  st_controlMessagesOut :: u64
  st_lastFrameArrivalNs :: u64

definition stats_init :: ReceiverStats where
  "stats_init = \<lparr>st_rtpPackets = 0, st_rtpPacketsDropped = 0, st_dataChannelPackets = 0, st_rtpFrames = 0,
     st_dataChannelFrames = 0, st_recoverySignals = 0, st_keyframeRequestsDispatched = 0,
     st_controlMessagesOut = 0, st_lastFrameArrivalNs = 0\<rparr>"

record engine =
  en_rtp :: rtp_depack
  en_dc :: dc
  en_rtpUnwrapper :: unwrapper
  en_dcUnwrapper :: unwrapper
  en_payloadTypes :: "u8 list"
  en_stats :: ReceiverStats
  en_generation :: u64
  en_currentArrivalNs :: u64
  en_lastKeyframeRequestNs :: int
  en_videoSsrc :: u32
  en_haveVideoSsrc :: bool
  en_dataChannelVideo :: bool
  en_videoDcOpen :: bool
  en_needKeyframe :: bool

definition en_init :: engine where
  "en_init = \<lparr>en_rtp = rd_init, en_dc = dc_init, en_rtpUnwrapper = uw_init, en_dcUnwrapper = uw_init,
     en_payloadTypes = [], en_stats = stats_init, en_generation = 0, en_currentArrivalNs = 0,
     en_lastKeyframeRequestNs = -1, en_videoSsrc = 0, en_haveVideoSsrc = False,
     en_dataChannelVideo = False, en_videoDcOpen = False, en_needKeyframe = True\<rparr>"

datatype engine_event =
    EFrame EncodedVideoFrame
  | EKeyframe KeyframeChannel
  | EControl bytes
  | ELoss u64

section \<open>Operations\<close>

definition kKeyframeThrottleNs :: int where
  "kKeyframeThrottleNs = 50000000"

definition en_bump :: "(ReceiverStats \<Rightarrow> ReceiverStats) \<Rightarrow> engine \<Rightarrow> engine" where
  "en_bump f e = e\<lparr>en_stats := f (en_stats e)\<rparr>"

definition en_setVideoPayloadTypes :: "u8 list \<Rightarrow> engine \<Rightarrow> engine" where
  "en_setVideoPayloadTypes types e = e\<lparr>en_payloadTypes := types\<rparr>"

definition en_setGeneration :: "u64 \<Rightarrow> engine \<Rightarrow> engine" where
  "en_setGeneration g e = e\<lparr>en_generation := g\<rparr>"

definition en_onVideoDataChannelOpened :: "engine \<Rightarrow> engine" where
  "en_onVideoDataChannelOpened e = e\<lparr>en_videoDcOpen := True\<rparr>"

definition en_activePath :: "engine \<Rightarrow> MediaPath" where
  "en_activePath e = (if en_dataChannelVideo e then PathDataChannel else PathRtp)"

definition en_needsKeyframe :: "engine \<Rightarrow> bool" where
  "en_needsKeyframe e = en_needKeyframe e"

definition en_tryDispatch :: "u64 \<Rightarrow> engine \<Rightarrow> engine_event list \<times> engine" where
  "en_tryDispatch nowNs e =
     (let now = sint nowNs in
      if en_lastKeyframeRequestNs e \<ge> 0 \<and> now - en_lastKeyframeRequestNs e < kKeyframeThrottleNs then ([], e)
      else
        ([EKeyframe (if en_dataChannelVideo e \<or> en_videoDcOpen e then ViaDataChannel else ViaRtcp)],
         en_bump (st_keyframeRequestsDispatched_update (\<lambda>n. n + 1)) (e\<lparr>en_lastKeyframeRequestNs := now\<rparr>)))"

definition en_emitFrame :: "bytes \<Rightarrow> int \<Rightarrow> TimestampDomain \<Rightarrow> bool \<Rightarrow> engine \<Rightarrow> engine_event list \<times> engine" where
  "en_emitFrame data ticks domain fromDataChannel e =
     (let frame = \<lparr>ef_annexB = data, ef_mediaTicks = ticks, ef_timestampDomain = domain,
            ef_receivedMonotonicNs = en_currentArrivalNs e, ef_generation = en_generation e,
            ef_randomAccess = configuredIdr data\<rparr>;
          e1 = (if ef_randomAccess frame then e\<lparr>en_needKeyframe := False\<rparr> else e);
          e2 = en_bump (if fromDataChannel then st_dataChannelFrames_update (\<lambda>n. n + 1)
                        else st_rtpFrames_update (\<lambda>n. n + 1)) e1;
          e3 = en_bump (st_lastFrameArrivalNs_update (\<lambda>_. en_currentArrivalNs e)) e2
      in ([EFrame frame], e3))"

text \<open>The callbacks that the constructor installs in the depacketizers.\<close>

fun en_rtp_callback :: "rtp_event \<Rightarrow> engine \<Rightarrow> engine_event list \<times> engine" where
  "en_rtp_callback (RFrame data ticks) e =
     (if en_dataChannelVideo e then ([], e)
      else let (r, u) = unwrap ticks (en_rtpUnwrapper e)
           in en_emitFrame data r Rtp90kHz False (e\<lparr>en_rtpUnwrapper := u\<rparr>))"
| "en_rtp_callback RKeyframe e =
     (let e1 = en_bump (st_recoverySignals_update (\<lambda>n. n + 1)) e;
          e2 = e1\<lparr>en_needKeyframe := True\<rparr>;
          (es, e3) = en_tryDispatch (en_currentArrivalNs e2) e2
      in (ELoss (en_currentArrivalNs e1) # es, e3))"

fun en_dc_callback :: "dc_event \<Rightarrow> engine \<Rightarrow> engine_event list \<times> engine" where
  "en_dc_callback (DcFrame data raw) e =
     (let e1 = e\<lparr>en_dataChannelVideo := True\<rparr>;
          (r, u) = unwrap raw (en_dcUnwrapper e1)
      in en_emitFrame data r SenderMicroseconds True (e1\<lparr>en_dcUnwrapper := u\<rparr>))"
| "en_dc_callback (DcControl text) e =
     ([EControl text], en_bump (st_controlMessagesOut_update (\<lambda>n. n + 1)) e)"

fun en_callbacks :: "('a \<Rightarrow> engine \<Rightarrow> engine_event list \<times> engine) \<Rightarrow> 'a list \<Rightarrow> engine \<Rightarrow> engine_event list \<times> engine" where
  "en_callbacks cb [] e = ([], e)"
| "en_callbacks cb (x # xs) e =
     (let (es, e1) = cb x e; (fs, e2) = en_callbacks cb xs e1 in (es @ fs, e2))"

text \<open>A depacketizer call with its callbacks.\<close>

definition en_feed_rtp :: "bytes \<Rightarrow> engine \<Rightarrow> engine_event list \<times> engine" where
  "en_feed_rtp b e =
     (let (es, s) = rd_ProcessRtpPacket (Some b) (en_rtp e) in en_callbacks en_rtp_callback es (e\<lparr>en_rtp := s\<rparr>))"

definition en_dispatch_dc :: "dc \<times> dc_batch \<Rightarrow> engine \<Rightarrow> engine_event list \<times> engine" where
  "en_dispatch_dc r e =
     (let (s, b) = r; (es, s') = dc_dispatch (\<lambda>_ s. s) (dc_generation s) (batch_events b) s
      in en_callbacks en_dc_callback es (e\<lparr>en_dc := s'\<rparr>))"

definition en_processRtpVideoPacket :: "bytes \<Rightarrow> u64 \<Rightarrow> engine \<Rightarrow> engine_event list \<times> engine" where
  "en_processRtpVideoPacket b arrivalNs e =
     (let e1 = en_bump (st_rtpPackets_update (\<lambda>n. n + 1)) (e\<lparr>en_currentArrivalNs := arrivalNs\<rparr>);
          drop_one = en_bump (st_rtpPacketsDropped_update (\<lambda>n. n + 1)) in
      case parseRtp b of
        None \<Rightarrow> ([], drop_one e1)
      | Some packet \<Rightarrow>
          if rtp_payloadType packet \<notin> set (en_payloadTypes e1) then ([], drop_one e1)
          else
            let e2 = (if \<not> en_haveVideoSsrc e1 \<or> en_videoSsrc e1 \<noteq> rtp_ssrc packet
                      then e1\<lparr>en_rtpUnwrapper := uw_reset (en_rtpUnwrapper e1), en_videoSsrc := rtp_ssrc packet,
                             en_haveVideoSsrc := True\<rparr>
                      else e1)
            in if en_dataChannelVideo e2 then ([], drop_one e2) else en_feed_rtp b e2)"

definition en_processDataChannelPacket :: "bytes \<Rightarrow> u64 \<Rightarrow> engine \<Rightarrow> engine_event list \<times> engine" where
  "en_processDataChannelPacket b arrivalNs e =
     (let e1 = en_bump (st_dataChannelPackets_update (\<lambda>n. n + 1)) (e\<lparr>en_currentArrivalNs := arrivalNs\<rparr>)
      in en_dispatch_dc (dc_ProcessPacketAt b (uint (arrivalNs div 1000)) (en_dc e1)) e1)"

definition en_onTimer :: "u64 \<Rightarrow> engine \<Rightarrow> engine_event list \<times> engine" where
  "en_onTimer nowNs e =
     (let e1 = e\<lparr>en_currentArrivalNs := nowNs\<rparr>;
          (es, e2) = en_dispatch_dc (dc_OnTimerTickAt (uint (nowNs div 1000)) (en_dc e1)) e1;
          (fs, e3) = (if en_needKeyframe e2 then en_tryDispatch nowNs e2 else ([], e2))
      in (es @ fs, e3))"

definition en_onDataChannelVideoClosed :: "engine \<Rightarrow> engine" where
  "en_onDataChannelVideoClosed e =
     e\<lparr>en_dataChannelVideo := False, en_videoDcOpen := False, en_dc := dc_Reset (en_dc e),
       en_dcUnwrapper := uw_reset (en_dcUnwrapper e), en_rtp := rd_Reset (en_rtp e),
       en_rtpUnwrapper := uw_reset (en_rtpUnwrapper e), en_needKeyframe := True\<rparr>"

definition en_requestKeyframe :: "u64 \<Rightarrow> engine \<Rightarrow> engine_event list \<times> engine" where
  "en_requestKeyframe nowNs e = en_tryDispatch nowNs (e\<lparr>en_needKeyframe := True\<rparr>)"

definition en_reset :: "engine \<Rightarrow> engine" where
  "en_reset e = (en_onDataChannelVideoClosed e)\<lparr>en_haveVideoSsrc := False, en_videoSsrc := 0,
     en_lastKeyframeRequestNs := -1\<rparr>"

section \<open>Runs\<close>

text \<open>The calls of the owner, and the events of a sequence of them, each with the time of its call.\<close>

datatype engine_input =
    EnRtp bytes u64
  | EnDc bytes u64
  | EnTimer u64
  | EnRequest u64
  | EnOpened
  | EnClosed
  | EnReset
  | EnTypes "u8 list"
  | EnGeneration u64

fun en_time :: "engine_input \<Rightarrow> u64" where
  "en_time (EnRtp b t) = t"
| "en_time (EnDc b t) = t"
| "en_time (EnTimer t) = t"
| "en_time (EnRequest t) = t"
| "en_time _ = 0"

fun en_step :: "engine_input \<Rightarrow> engine \<Rightarrow> engine_event list \<times> engine" where
  "en_step (EnRtp b t) e = en_processRtpVideoPacket b t e"
| "en_step (EnDc b t) e = en_processDataChannelPacket b t e"
| "en_step (EnTimer t) e = en_onTimer t e"
| "en_step (EnRequest t) e = en_requestKeyframe t e"
| "en_step EnOpened e = ([], en_onVideoDataChannelOpened e)"
| "en_step EnClosed e = ([], en_onDataChannelVideoClosed e)"
| "en_step EnReset e = ([], en_reset e)"
| "en_step (EnTypes ts) e = ([], en_setVideoPayloadTypes ts e)"
| "en_step (EnGeneration g) e = ([], en_setGeneration g e)"

fun en_run :: "engine \<Rightarrow> engine_input list \<Rightarrow> (u64 \<times> engine_event) list \<times> engine" where
  "en_run e [] = ([], e)"
| "en_run e (i # is) =
     (let (es, e1) = en_step i e; (fs, e2) = en_run e1 is in (map (Pair (en_time i)) es @ fs, e2))"

section \<open>Relations between a state, the events of a call and the state after it\<close>

text \<open>
  A relation that holds for every callback and composes holds for the two depacketizer calls of
  the engine.
\<close>

locale engine_relation =
  fixes R :: "engine \<Rightarrow> engine_event list \<Rightarrow> engine \<Rightarrow> bool"
  assumes quiet: "R e [] e"
    and append: "R e es e1 \<Longrightarrow> R e1 fs e2 \<Longrightarrow> R e (es @ fs) e2"
    and store_rtp: "R e [] (e\<lparr>en_rtp := s\<rparr>)"
    and store_dc: "R e [] (e\<lparr>en_dc := d\<rparr>)"
    and rtp_callback: "R e (fst (en_rtp_callback x e)) (snd (en_rtp_callback x e))"
    and dc_callback: "R e (fst (en_dc_callback y e)) (snd (en_dc_callback y e))"
begin

lemma callbacks:
  assumes "\<And>x e. R e (fst (cb x e)) (snd (cb x e))"
  shows "R e (fst (en_callbacks cb xs e)) (snd (en_callbacks cb xs e))"
proof (induction xs arbitrary: e)
  case Nil
  show ?case by (simp add: quiet)
next
  case (Cons x xs)
  show ?case
    using append [OF assms [of e x] Cons.IH [of "snd (cb x e)"]] by (simp add: case_prod_beta Let_def)
qed

lemma feed_rtp: "R e (fst (en_feed_rtp b e)) (snd (en_feed_rtp b e))"
proof -
  obtain es s where p: "rd_ProcessRtpPacket (Some b) (en_rtp e) = (es, s)" by fastforce
  show ?thesis
    using append [OF store_rtp [of e s] callbacks [of en_rtp_callback "e\<lparr>en_rtp := s\<rparr>" es, OF rtp_callback]]
    by (simp add: en_feed_rtp_def p)
qed

lemma dispatch_dc: "R e (fst (en_dispatch_dc r e)) (snd (en_dispatch_dc r e))"
proof -
  obtain s b where r: "r = (s, b)" by fastforce
  obtain es s' where d: "dc_dispatch (\<lambda>_ s. s) (dc_generation s) (batch_events b) s = (es, s')" by fastforce
  show ?thesis
    using append [OF store_dc [of e s'] callbacks [of en_dc_callback "e\<lparr>en_dc := s'\<rparr>" es, OF dc_callback]]
    by (simp add: en_dispatch_dc_def r d)
qed

end

lemmas engine_steps =
  en_processRtpVideoPacket_def en_processDataChannelPacket_def en_onTimer_def en_requestKeyframe_def
  en_onVideoDataChannelOpened_def en_onDataChannelVideoClosed_def en_reset_def
  en_setVideoPayloadTypes_def en_setGeneration_def en_bump_def

lemma dc_dispatch_all: "dc_dispatch (\<lambda>_ s. s) (dc_generation s) es s = (es, s)"
  by (induction es) simp_all

subsection \<open>The statistics count the events\<close>

fun is_frame_of :: "TimestampDomain \<Rightarrow> engine_event \<Rightarrow> bool" where
  "is_frame_of d (EFrame f) \<longleftrightarrow> ef_timestampDomain f = d"
| "is_frame_of d _ \<longleftrightarrow> False"

fun is_keyframe :: "engine_event \<Rightarrow> bool" where
  "is_keyframe (EKeyframe c) \<longleftrightarrow> True"
| "is_keyframe _ \<longleftrightarrow> False"

fun is_loss :: "engine_event \<Rightarrow> bool" where
  "is_loss (ELoss t) \<longleftrightarrow> True"
| "is_loss _ \<longleftrightarrow> False"

fun is_control :: "engine_event \<Rightarrow> bool" where
  "is_control (EControl m) \<longleftrightarrow> True"
| "is_control _ \<longleftrightarrow> False"

definition count_of :: "('a \<Rightarrow> bool) \<Rightarrow> 'a list \<Rightarrow> u64" where
  "count_of P xs = of_nat (length (filter P xs))"

lemma count_of_simps [simp]:
  "count_of P [] = 0" "count_of P (x # xs) = (if P x then 1 + count_of P xs else count_of P xs)"
  "count_of P (xs @ ys) = count_of P xs + count_of P ys"
  by (simp_all add: count_of_def)

text \<open>What a callback leaves alone and how it moves the counters; every frame is stamped.\<close>

fun stamped :: "u64 \<Rightarrow> u64 \<Rightarrow> engine_event \<Rightarrow> bool" where
  "stamped t g (EFrame f) \<longleftrightarrow> ef_receivedMonotonicNs f = t \<and> ef_generation f = g \<and>
     ef_randomAccess f = configuredIdr (ef_annexB f)"
| "stamped t g (ELoss u) \<longleftrightarrow> u = t"
| "stamped t g _ \<longleftrightarrow> True"

definition counted :: "engine \<Rightarrow> engine_event list \<Rightarrow> engine \<Rightarrow> bool" where
  "counted e es e' \<longleftrightarrow>
     en_currentArrivalNs e' = en_currentArrivalNs e \<and> en_generation e' = en_generation e \<and>
     en_payloadTypes e' = en_payloadTypes e \<and> en_videoDcOpen e' = en_videoDcOpen e \<and>
     list_all (stamped (en_currentArrivalNs e) (en_generation e)) es \<and>
     st_rtpPackets (en_stats e') = st_rtpPackets (en_stats e) \<and>
     st_dataChannelPackets (en_stats e') = st_dataChannelPackets (en_stats e) \<and>
     st_rtpFrames (en_stats e') = st_rtpFrames (en_stats e) + count_of (is_frame_of Rtp90kHz) es \<and>
     st_dataChannelFrames (en_stats e') = st_dataChannelFrames (en_stats e) + count_of (is_frame_of SenderMicroseconds) es \<and>
     st_recoverySignals (en_stats e') = st_recoverySignals (en_stats e) + count_of is_loss es \<and>
     st_keyframeRequestsDispatched (en_stats e') = st_keyframeRequestsDispatched (en_stats e) + count_of is_keyframe es \<and>
     st_controlMessagesOut (en_stats e') = st_controlMessagesOut (en_stats e) + count_of is_control es"

lemma counted_tryDispatch: "counted e (fst (en_tryDispatch t e)) (snd (en_tryDispatch t e))"
  by (simp add: counted_def en_tryDispatch_def en_bump_def Let_def)

lemma counted_emitFrame:
  "counted e (fst (en_emitFrame b k (if dc then SenderMicroseconds else Rtp90kHz) dc e))
     (snd (en_emitFrame b k (if dc then SenderMicroseconds else Rtp90kHz) dc e))"
  by (simp add: counted_def en_emitFrame_def en_bump_def Let_def)

interpretation counts: engine_relation counted
proof unfold_locales
  fix e es e1 fs e2 assume "counted e es e1" "counted e1 fs e2"
  then show "counted e (es @ fs) e2" by (auto simp: counted_def)
next
  fix e x show "counted e (fst (en_rtp_callback x e)) (snd (en_rtp_callback x e))"
  proof (cases x)
    case (RFrame b t)
    obtain r u where u: "unwrap t (en_rtpUnwrapper e) = (r, u)" by fastforce
    show ?thesis
      using counted_emitFrame [of "e\<lparr>en_rtpUnwrapper := u\<rparr>" b r False] by (simp add: RFrame u counted_def)
  next
    case RKeyframe
    let ?e = "(en_bump (st_recoverySignals_update (\<lambda>n. n + 1)) e)\<lparr>en_needKeyframe := True\<rparr>"
    show ?thesis
      using counted_tryDispatch [of ?e "en_currentArrivalNs ?e"]
      by (simp add: RKeyframe counted_def case_prod_beta Let_def en_bump_def)
  qed
next
  fix e y show "counted e (fst (en_dc_callback y e)) (snd (en_dc_callback y e))"
  proof (cases y)
    case (DcFrame b t)
    obtain r u where u: "unwrap t (en_dcUnwrapper e) = (r, u)" by fastforce
    show ?thesis
      using counted_emitFrame [of "e\<lparr>en_dataChannelVideo := True, en_dcUnwrapper := u\<rparr>" b r True]
      by (simp add: DcFrame u counted_def)
  qed (simp add: counted_def en_bump_def)
qed (simp_all add: counted_def)

fun is_rtp_input :: "engine_input \<Rightarrow> bool" where
  "is_rtp_input (EnRtp b t) \<longleftrightarrow> True"
| "is_rtp_input _ \<longleftrightarrow> False"

fun is_dc_input :: "engine_input \<Rightarrow> bool" where
  "is_dc_input (EnDc b t) \<longleftrightarrow> True"
| "is_dc_input _ \<longleftrightarrow> False"

definition stats_add :: "engine_input list \<Rightarrow> engine_event list \<Rightarrow> ReceiverStats \<Rightarrow> ReceiverStats \<Rightarrow> bool" where
  "stats_add is es s s' \<longleftrightarrow>
     st_rtpPackets s' = st_rtpPackets s + count_of is_rtp_input is \<and>
     st_dataChannelPackets s' = st_dataChannelPackets s + count_of is_dc_input is \<and>
     st_rtpFrames s' = st_rtpFrames s + count_of (is_frame_of Rtp90kHz) es \<and>
     st_dataChannelFrames s' = st_dataChannelFrames s + count_of (is_frame_of SenderMicroseconds) es \<and>
     st_recoverySignals s' = st_recoverySignals s + count_of is_loss es \<and>
     st_keyframeRequestsDispatched s' = st_keyframeRequestsDispatched s + count_of is_keyframe es \<and>
     st_controlMessagesOut s' = st_controlMessagesOut s + count_of is_control es"

lemma stats_add_append:
  "stats_add is es s s1 \<Longrightarrow> stats_add js fs s1 s2 \<Longrightarrow> stats_add (is @ js) (es @ fs) s s2"
  by (simp add: stats_add_def)

lemma counted_stats: "counted e es e' \<Longrightarrow> stats_add [] es (en_stats e) (en_stats e')"
  by (simp add: counted_def stats_add_def)

lemma timer_split:
  "en_onTimer t e =
     (let r = en_dispatch_dc (dc_OnTimerTickAt (uint (t div 1000)) (en_dc e)) (e\<lparr>en_currentArrivalNs := t\<rparr>);
          q = (if en_needKeyframe (snd r) then en_tryDispatch t (snd r) else ([], snd r))
      in (fst r @ fst q, snd q))"
  by (simp add: en_onTimer_def case_prod_beta Let_def)

lemma counted_timer:
  "counted (e\<lparr>en_currentArrivalNs := t\<rparr>) (fst (en_onTimer t e)) (snd (en_onTimer t e))"
proof -
  let ?e1 = "e\<lparr>en_currentArrivalNs := t\<rparr>"
  let ?r = "en_dispatch_dc (dc_OnTimerTickAt (uint (t div 1000)) (en_dc e)) ?e1"
  let ?q = "if en_needKeyframe (snd ?r) then en_tryDispatch t (snd ?r) else ([], snd ?r)"
  have "counted (snd ?r) (fst ?q) (snd ?q)" by (simp add: counted_tryDispatch counts.quiet)
  from counts.append [OF counts.dispatch_dc this] show ?thesis by (simp add: timer_split Let_def)
qed

lemma counted_feed_stats:
  "stats_add [] (fst (en_feed_rtp b e)) (en_stats e) (en_stats (snd (en_feed_rtp b e)))"
  "stats_add [] (fst (en_dispatch_dc r e)) (en_stats e) (en_stats (snd (en_dispatch_dc r e)))"
  using counts.feed_rtp counts.dispatch_dc by (blast intro: counted_stats)+

lemma stats_add_step: "stats_add [i] (fst (en_step i e)) (en_stats e) (en_stats (snd (en_step i e)))"
proof (cases i)
  case (EnRtp b t)
  let ?e = "en_bump (st_rtpPackets_update (\<lambda>n. n + 1)) (e\<lparr>en_currentArrivalNs := t\<rparr>)"
  have pre: "stats_add [i] es (en_stats e) s'" if "en_stats e2 = en_stats ?e" "stats_add [] es (en_stats e2) s'"
    for e2 es s'
    using that by (simp add: EnRtp stats_add_def en_bump_def)
  show ?thesis
    using pre [OF _ counted_feed_stats(1)]
    by (auto simp: EnRtp en_processRtpVideoPacket_def Let_def split: option.splits)
      (simp_all add: stats_add_def en_bump_def)
next
  case (EnDc b t)
  let ?e = "en_bump (st_dataChannelPackets_update (\<lambda>n. n + 1)) (e\<lparr>en_currentArrivalNs := t\<rparr>)"
  show ?thesis
    using counted_feed_stats(2) [of "dc_ProcessPacketAt b (uint (t div 1000)) (en_dc ?e)" ?e]
    by (simp add: EnDc en_processDataChannelPacket_def stats_add_def en_bump_def)
next
  case (EnTimer t)
  then show ?thesis using counted_stats [OF counted_timer, of t e] by (simp add: stats_add_def)
next
  case (EnRequest t)
  then show ?thesis
    using counted_stats [OF counted_tryDispatch, of t "e\<lparr>en_needKeyframe := True\<rparr>"]
    by (simp add: en_requestKeyframe_def stats_add_def)
qed (simp_all add: engine_steps stats_add_def)

lemma stats_add_run: "stats_add xs (map snd (fst (en_run e xs))) (en_stats e) (en_stats (snd (en_run e xs)))"
proof (induction xs arbitrary: e)
  case Nil
  show ?case by (simp add: stats_add_def)
next
  case (Cons i xs)
  show ?case
    using stats_add_append [OF stats_add_step [of i e] Cons.IH [of "snd (en_step i e)"]]
    by (simp add: case_prod_beta Let_def o_def)
qed

fun stamp_ok :: "u64 \<times> engine_event \<Rightarrow> bool" where
  "stamp_ok (t, EFrame f) \<longleftrightarrow> ef_receivedMonotonicNs f = t \<and> ef_randomAccess f = configuredIdr (ef_annexB f)"
| "stamp_ok (t, ELoss u) \<longleftrightarrow> u = t"
| "stamp_ok (t, _) \<longleftrightarrow> True"

lemma stamp_okI: "stamped t g v \<Longrightarrow> stamp_ok (t, v)"
  by (cases "(t, v)" rule: stamp_ok.cases) simp_all

lemma counted_stamps: "counted e es e' \<Longrightarrow> en_currentArrivalNs e = t \<Longrightarrow> list_all stamp_ok (map (Pair t) es)"
  by (auto simp: counted_def list_all_iff intro: stamp_okI)

lemma stamps_step: "list_all stamp_ok (map (Pair (en_time i)) (fst (en_step i e)))"
proof (cases i)
  case (EnRtp b t)
  note k = counted_stamps [OF counts.feed_rtp, of _ t b]
  show ?thesis
    by (auto simp: EnRtp en_processRtpVideoPacket_def Let_def split: option.splits intro!: k)
      (simp_all add: en_bump_def)
next
  case (EnDc b t)
  note k = counted_stamps [OF counts.dispatch_dc, of _ t]
  show ?thesis by (simp add: EnDc en_processDataChannelPacket_def Let_def k en_bump_def)
next
  case (EnTimer t)
  show ?thesis using counted_stamps [OF counted_timer, of t e t] by (simp add: EnTimer)
qed (simp_all add: engine_steps en_tryDispatch_def Let_def)

lemma stamps_run: "list_all stamp_ok (fst (en_run e xs))"
  by (induction xs arbitrary: e) (simp_all add: case_prod_beta Let_def stamps_step)

subsection \<open>Keyframe requests are throttled\<close>

text \<open>The times of the keyframe requests of a trace, and the distance the throttle keeps.\<close>

definition request_times :: "(u64 \<times> engine_event) list \<Rightarrow> int list" where
  "request_times es = map (\<lambda>x. sint (fst x)) (filter (\<lambda>x. is_keyframe (snd x)) es)"

fun spaced :: "int \<Rightarrow> int list \<Rightarrow> bool" where
  "spaced l [] \<longleftrightarrow> True"
| "spaced l (t # ts) \<longleftrightarrow> (if 0 \<le> l then kKeyframeThrottleNs \<le> t - l else True) \<and> spaced t ts"

lemma request_times_append [simp]: "request_times (es @ fs) = request_times es @ request_times fs"
  by (simp add: request_times_def)

lemma request_times_Nil [simp]: "request_times [] = []"
  by (simp add: request_times_def)

lemma spaced_append: "spaced l (xs @ ys) \<longleftrightarrow> spaced l xs \<and> spaced (last (l # xs)) ys"
  by (induction xs arbitrary: l) auto

definition throttled_at :: "u64 \<Rightarrow> engine \<Rightarrow> engine_event list \<Rightarrow> engine \<Rightarrow> bool" where
  "throttled_at t e es e' \<longleftrightarrow>
     (let ts = request_times (map (Pair t) es) in
      spaced (en_lastKeyframeRequestNs e) ts \<and>
      en_lastKeyframeRequestNs e' = last (en_lastKeyframeRequestNs e # ts))"

definition throttled :: "engine \<Rightarrow> engine_event list \<Rightarrow> engine \<Rightarrow> bool" where
  "throttled e es e' \<longleftrightarrow> en_currentArrivalNs e' = en_currentArrivalNs e \<and> throttled_at (en_currentArrivalNs e) e es e'"

lemma throttled_at_append:
  "throttled_at t e es e1 \<Longrightarrow> throttled_at t e1 fs e2 \<Longrightarrow> throttled_at t e (es @ fs) e2"
  by (auto simp: throttled_at_def Let_def spaced_append)

lemma throttled_at_quiet:
  "\<not> list_ex is_keyframe es \<Longrightarrow> en_lastKeyframeRequestNs e' = en_lastKeyframeRequestNs e \<Longrightarrow> throttled_at t e es e'"
  by (simp add: throttled_at_def request_times_def o_def filter_False list_ex_iff)

lemma throttled_at_tryDispatch: "throttled_at t e (fst (en_tryDispatch t e)) (snd (en_tryDispatch t e))"
  by (auto simp: throttled_at_def request_times_def en_tryDispatch_def Let_def en_bump_def)

interpretation throttle: engine_relation throttled
proof unfold_locales
  fix e es e1 fs e2 assume "throttled e es e1" "throttled e1 fs e2"
  then show "throttled e (es @ fs) e2" by (auto simp: throttled_def intro: throttled_at_append)
next
  fix e x show "throttled e (fst (en_rtp_callback x e)) (snd (en_rtp_callback x e))"
  proof (cases x)
    case (RFrame b t)
    show ?thesis by (simp add: RFrame throttled_def throttled_at_quiet case_prod_beta Let_def en_emitFrame_def en_bump_def)
  next
    case RKeyframe
    let ?e = "(en_bump (st_recoverySignals_update (\<lambda>n. n + 1)) e)\<lparr>en_needKeyframe := True\<rparr>"
    have "throttled_at (en_currentArrivalNs e) e [ELoss (en_currentArrivalNs e)] ?e"
      by (rule throttled_at_quiet) (simp_all add: en_bump_def)
    from throttled_at_append [OF this throttled_at_tryDispatch [of "en_currentArrivalNs e" ?e]]
    show ?thesis
      using counted_tryDispatch [of ?e "en_currentArrivalNs ?e"]
      by (simp add: RKeyframe throttled_def case_prod_beta Let_def en_bump_def counted_def)
  qed
next
  fix e y show "throttled e (fst (en_dc_callback y e)) (snd (en_dc_callback y e))"
    by (cases y) (simp_all add: throttled_def throttled_at_quiet case_prod_beta Let_def en_emitFrame_def en_bump_def)
qed (simp_all add: throttled_def throttled_at_def)

lemma throttled_at_start:
  "throttled_at t e0 es e' \<Longrightarrow> en_lastKeyframeRequestNs e = en_lastKeyframeRequestNs e0 \<Longrightarrow> throttled_at t e es e'"
  by (simp add: throttled_at_def)

lemma throttled_at_feed:
  assumes "en_currentArrivalNs e0 = t" "en_lastKeyframeRequestNs e = en_lastKeyframeRequestNs e0"
  shows "throttled_at t e (fst (en_feed_rtp b e0)) (snd (en_feed_rtp b e0))"
    "throttled_at t e (fst (en_dispatch_dc r e0)) (snd (en_dispatch_dc r e0))"
  using throttle.feed_rtp [of e0 b] throttle.dispatch_dc [of e0 r] assms
  by (auto simp: throttled_def intro: throttled_at_start)

lemma throttled_at_step:
  assumes "i \<noteq> EnReset"
  shows "throttled_at (en_time i) e (fst (en_step i e)) (snd (en_step i e))"
proof (cases i)
  case (EnRtp b t)
  show ?thesis
    by (auto simp: EnRtp en_processRtpVideoPacket_def Let_def split: option.splits
        intro!: throttled_at_feed throttled_at_quiet [of "[]"])
      (simp_all add: en_bump_def)
next
  case (EnDc b t)
  show ?thesis by (simp add: EnDc en_processDataChannelPacket_def Let_def throttled_at_feed en_bump_def)
next
  case (EnTimer t)
  let ?r = "en_dispatch_dc (dc_OnTimerTickAt (uint (t div 1000)) (en_dc e)) (e\<lparr>en_currentArrivalNs := t\<rparr>)"
  have "throttled_at t e (fst ?r) (snd ?r)" by (rule throttled_at_feed) simp_all
  moreover have "throttled_at t (snd ?r) (fst q) (snd q)"
    if "q = (if en_needKeyframe (snd ?r) then en_tryDispatch t (snd ?r) else ([], snd ?r))" for q
    using that by (simp add: throttled_at_tryDispatch throttled_at_quiet)
  ultimately show ?thesis by (simp only: EnTimer en_step.simps en_time.simps timer_split Let_def fst_conv snd_conv)
      (rule throttled_at_append, assumption, blast)
next
  case (EnRequest t)
  then show ?thesis
    using throttled_at_start [OF throttled_at_tryDispatch [of t "e\<lparr>en_needKeyframe := True\<rparr>"], of e]
    by (simp add: en_requestKeyframe_def)
qed (use assms in \<open>simp_all add: engine_steps throttled_at_quiet\<close>)

lemma throttled_run:
  assumes "EnReset \<notin> set xs"
  shows "spaced (en_lastKeyframeRequestNs e) (request_times (fst (en_run e xs))) \<and>
    en_lastKeyframeRequestNs (snd (en_run e xs)) =
      last (en_lastKeyframeRequestNs e # request_times (fst (en_run e xs)))"
  using assms
proof (induction xs arbitrary: e)
  case (Cons i xs)
  then have "throttled_at (en_time i) e (fst (en_step i e)) (snd (en_step i e))"
    by (intro throttled_at_step) auto
  with Cons.IH [of "snd (en_step i e)"] Cons.prems show ?case
    by (auto simp: throttled_at_def case_prod_beta Let_def spaced_append)
qed simp

lemma timer_request:
  assumes "0 \<le> sint t" "en_needKeyframe (snd (en_onTimer t e))"
  shows "0 \<le> en_lastKeyframeRequestNs (snd (en_onTimer t e)) \<and>
    sint t - en_lastKeyframeRequestNs (snd (en_onTimer t e)) < kKeyframeThrottleNs"
  using assms
  by (auto simp: timer_split Let_def en_tryDispatch_def en_bump_def kKeyframeThrottleNs_def split: if_splits)

lemma en_run_append: "en_run e (xs @ ys) =
    (fst (en_run e xs) @ fst (en_run (snd (en_run e xs)) ys), snd (en_run (snd (en_run e xs)) ys))"
  by (induction xs arbitrary: e) (simp_all add: case_prod_beta Let_def)

subsection \<open>One media path at a time\<close>

text \<open>No frame of the RTP path follows a frame of the data channel.\<close>

fun one_path :: "bool \<Rightarrow> engine_event list \<Rightarrow> bool" where
  "one_path dc [] \<longleftrightarrow> True"
| "one_path dc (e # es) \<longleftrightarrow> \<not> (dc \<and> is_frame_of Rtp90kHz e) \<and> one_path (dc \<or> is_frame_of SenderMicroseconds e) es"

lemma one_path_append:
  "one_path dc (es @ fs) \<longleftrightarrow> one_path dc es \<and> one_path (dc \<or> list_ex (is_frame_of SenderMicroseconds) es) fs"
  by (induction es arbitrary: dc) (auto simp: disj_assoc)

definition pathed :: "engine \<Rightarrow> engine_event list \<Rightarrow> engine \<Rightarrow> bool" where
  "pathed e es e' \<longleftrightarrow> one_path (en_dataChannelVideo e) es \<and>
     en_dataChannelVideo e' = (en_dataChannelVideo e \<or> list_ex (is_frame_of SenderMicroseconds) es)"

lemma pathed_tryDispatch: "pathed e (fst (en_tryDispatch t e)) (snd (en_tryDispatch t e))"
  by (simp add: pathed_def en_tryDispatch_def en_bump_def Let_def)

interpretation path: engine_relation pathed
proof unfold_locales
  fix e es e1 fs e2 assume "pathed e es e1" "pathed e1 fs e2"
  then show "pathed e (es @ fs) e2" by (auto simp: pathed_def one_path_append)
next
  fix e x show "pathed e (fst (en_rtp_callback x e)) (snd (en_rtp_callback x e))"
    by (cases x) (simp_all add: pathed_def case_prod_beta Let_def en_emitFrame_def en_tryDispatch_def en_bump_def)
next
  fix e y show "pathed e (fst (en_dc_callback y e)) (snd (en_dc_callback y e))"
    by (cases y) (simp_all add: pathed_def case_prod_beta Let_def en_emitFrame_def en_bump_def)
qed (simp_all add: pathed_def)

lemma pathed_start: "pathed e0 es e' \<Longrightarrow> en_dataChannelVideo e = en_dataChannelVideo e0 \<Longrightarrow> pathed e es e'"
  by (simp add: pathed_def)

lemma pathed_step:
  assumes "i \<noteq> EnReset" "i \<noteq> EnClosed"
  shows "pathed e (fst (en_step i e)) (snd (en_step i e))"
proof (cases i)
  case (EnRtp b t)
  note k = pathed_start [OF path.feed_rtp, of e]
  show ?thesis
    by (auto simp: EnRtp en_processRtpVideoPacket_def Let_def split: option.splits intro!: k)
      (simp_all add: en_bump_def pathed_def)
next
  case (EnDc b t)
  show ?thesis
    by (auto simp: EnDc en_processDataChannelPacket_def Let_def en_bump_def intro!: pathed_start [OF path.dispatch_dc])
next
  case (EnTimer t)
  let ?r = "en_dispatch_dc (dc_OnTimerTickAt (uint (t div 1000)) (en_dc e)) (e\<lparr>en_currentArrivalNs := t\<rparr>)"
  have "pathed e (fst ?r) (snd ?r)" by (rule pathed_start [OF path.dispatch_dc]) simp
  moreover have "pathed (snd ?r) (fst q) (snd q)"
    if "q = (if en_needKeyframe (snd ?r) then en_tryDispatch t (snd ?r) else ([], snd ?r))" for q
    using that by (simp add: pathed_tryDispatch path.quiet)
  ultimately show ?thesis
    by (simp only: EnTimer en_step.simps timer_split Let_def fst_conv snd_conv) (rule path.append, assumption, blast)
next
  case (EnRequest t)
  then show ?thesis
    using pathed_start [OF pathed_tryDispatch [of "e\<lparr>en_needKeyframe := True\<rparr>" t], of e]
    by (simp add: en_requestKeyframe_def)
qed (use assms in \<open>simp_all add: engine_steps pathed_def\<close>)

lemma pathed_run:
  assumes "EnReset \<notin> set xs" "EnClosed \<notin> set xs"
  shows "pathed e (map snd (fst (en_run e xs))) (snd (en_run e xs))"
  using assms
proof (induction xs arbitrary: e)
  case Nil
  show ?case by (simp add: path.quiet)
next
  case (Cons i xs)
  then have "pathed e (fst (en_step i e)) (snd (en_step i e))" by (intro pathed_step) auto
  from path.append [OF this Cons.IH [of "snd (en_step i e)"]] Cons.prems show ?case
    by (simp add: case_prod_beta Let_def o_def)
qed

subsection \<open>The engine as a client of the two video sources\<close>

text \<open>The access units of one domain among the events of a call.\<close>

fun frames_of :: "TimestampDomain \<Rightarrow> engine_event list \<Rightarrow> bytes list" where
  "frames_of d [] = []"
| "frames_of d (EFrame f # es) = (if ef_timestampDomain f = d then ef_annexB f # frames_of d es else frames_of d es)"
| "frames_of d (e # es) = frames_of d es"

lemma frames_of_append [simp]: "frames_of d (es @ fs) = frames_of d es @ frames_of d fs"
  by (induction d es rule: frames_of.induct) simp_all

text \<open>The frames of a call are those the depacketizers give for some inputs of theirs.\<close>

definition sourced :: "engine \<Rightarrow> engine_event list \<Rightarrow> engine \<Rightarrow> bool" where
  "sourced e es e' \<longleftrightarrow>
     (\<exists>is. frames_of Rtp90kHz es = rdv.frames (en_rtp e) is \<and> en_rtp e' = rdv.after (en_rtp e) is) \<and>
     (\<exists>js. frames_of SenderMicroseconds es = dcv.frames (en_dc e) js \<and> en_dc e' = dcv.after (en_dc e) js)"

lemma sourced_quiet: "en_rtp e' = en_rtp e \<Longrightarrow> en_dc e' = en_dc e \<Longrightarrow>
    frames_of Rtp90kHz es = [] \<Longrightarrow> frames_of SenderMicroseconds es = [] \<Longrightarrow> sourced e es e'"
  unfolding sourced_def by (metis dcv.after.simps(1) dcv.frames.simps(1) rdv.after.simps(1) rdv.frames.simps(1))

lemma sourced_append: "sourced e es e1 \<Longrightarrow> sourced e1 fs e2 \<Longrightarrow> sourced e (es @ fs) e2"
  unfolding sourced_def frames_of_append
  by (metis dcv.after_append dcv.frames_append rdv.after_append rdv.frames_append)

lemma sourced_start: "sourced e0 es e' \<Longrightarrow> en_rtp e = en_rtp e0 \<Longrightarrow> en_dc e = en_dc e0 \<Longrightarrow> sourced e es e'"
  by (simp add: sourced_def)

lemma sourced_rtp:
  assumes "frames_of Rtp90kHz es = fst (rd_source i (en_rtp e))" "en_rtp e' = snd (rd_source i (en_rtp e))"
    and "frames_of SenderMicroseconds es = []" "en_dc e' = en_dc e"
  shows "sourced e es e'"
  unfolding sourced_def
proof (intro conjI exI)
  show "frames_of Rtp90kHz es = rdv.frames (en_rtp e) [i]" "en_rtp e' = rdv.after (en_rtp e) [i]"
    using assms by (simp_all add: case_prod_beta)
  show "frames_of SenderMicroseconds es = dcv.frames (en_dc e) []" "en_dc e' = dcv.after (en_dc e) []"
    using assms by simp_all
qed

lemma sourced_dc:
  assumes "frames_of SenderMicroseconds es = fst (dc_source i (en_dc e))" "en_dc e' = snd (dc_source i (en_dc e))"
    and "frames_of Rtp90kHz es = []" "en_rtp e' = en_rtp e"
  shows "sourced e es e'"
  unfolding sourced_def
proof (intro conjI exI)
  show "frames_of SenderMicroseconds es = dcv.frames (en_dc e) [i]" "en_dc e' = dcv.after (en_dc e) [i]"
    using assms by (simp_all add: case_prod_beta)
  show "frames_of Rtp90kHz es = rdv.frames (en_rtp e) []" "en_rtp e' = rdv.after (en_rtp e) []"
    using assms by simp_all
qed

lemma tryDispatch_frames:
  "frames_of d (fst (en_tryDispatch t e)) = []" "en_rtp (snd (en_tryDispatch t e)) = en_rtp e"
  "en_dc (snd (en_tryDispatch t e)) = en_dc e" "en_dataChannelVideo (snd (en_tryDispatch t e)) = en_dataChannelVideo e"
  by (simp_all add: en_tryDispatch_def en_bump_def Let_def)

lemma rtp_callbacks_frames:
  assumes "\<not> en_dataChannelVideo e"
  shows "frames_of Rtp90kHz (fst (en_callbacks en_rtp_callback es e)) = rtp_frames es \<and>
    frames_of SenderMicroseconds (fst (en_callbacks en_rtp_callback es e)) = [] \<and>
    en_rtp (snd (en_callbacks en_rtp_callback es e)) = en_rtp e \<and>
    en_dc (snd (en_callbacks en_rtp_callback es e)) = en_dc e"
  using assms
proof (induction es arbitrary: e)
  case (Cons x es)
  have s: "\<not> en_dataChannelVideo (snd (en_rtp_callback x e))" "en_rtp (snd (en_rtp_callback x e)) = en_rtp e"
    "en_dc (snd (en_rtp_callback x e)) = en_dc e" "frames_of SenderMicroseconds (fst (en_rtp_callback x e)) = []"
    "frames_of Rtp90kHz (fst (en_rtp_callback x e)) = rtp_frames [x]"
    using Cons.prems
    by (cases x; simp add: case_prod_beta Let_def tryDispatch_frames en_emitFrame_def en_bump_def)+
  have c: "rtp_frames (x # es) = rtp_frames [x] @ rtp_frames es" by (cases x) simp_all
  show ?case using Cons.IH [OF s(1)] s by (simp add: case_prod_beta Let_def c)
qed simp

lemma dc_callbacks_frames:
  "frames_of SenderMicroseconds (fst (en_callbacks en_dc_callback (map (\<lambda>(d, t). DcFrame d t) fs) e)) = map fst fs"
  "frames_of Rtp90kHz (fst (en_callbacks en_dc_callback (map (\<lambda>(d, t). DcFrame d t) fs) e)) = []"
  "en_rtp (snd (en_callbacks en_dc_callback (map (\<lambda>(d, t). DcFrame d t) fs) e)) = en_rtp e"
  "en_dc (snd (en_callbacks en_dc_callback (map (\<lambda>(d, t). DcFrame d t) fs) e)) = en_dc e"
  by (induction fs arbitrary: e) (simp_all add: case_prod_beta Let_def en_emitFrame_def en_bump_def)

lemma dc_controls_frames:
  "frames_of d (fst (en_callbacks en_dc_callback (map DcControl cs) e)) = []"
  "en_rtp (snd (en_callbacks en_dc_callback (map DcControl cs) e)) = en_rtp e"
  "en_dc (snd (en_callbacks en_dc_callback (map DcControl cs) e)) = en_dc e"
  by (induction cs arbitrary: e) (simp_all add: case_prod_beta Let_def en_bump_def)

lemma callbacks_append: "en_callbacks cb (xs @ ys) e =
    (fst (en_callbacks cb xs e) @ fst (en_callbacks cb ys (snd (en_callbacks cb xs e))),
     snd (en_callbacks cb ys (snd (en_callbacks cb xs e))))"
  by (induction xs arbitrary: e) (simp_all add: case_prod_beta Let_def)

lemma sourced_feed: "\<not> en_dataChannelVideo e \<Longrightarrow> sourced e (fst (en_feed_rtp b e)) (snd (en_feed_rtp b e))"
  by (rule sourced_rtp [where i = "RdPacket (Some b)"])
    (simp_all add: en_feed_rtp_def case_prod_beta Let_def rtp_callbacks_frames rd_source_def)

lemma sourced_dispatch:
  assumes "dc_step i (en_dc e) = r"
  shows "sourced e (fst (en_dispatch_dc r e)) (snd (en_dispatch_dc r e))"
proof -
  obtain s b where r: "r = (s, b)" by fastforce
  show ?thesis
    using assms
    by (intro sourced_dc [where i = i])
      (simp_all add: en_dispatch_dc_def r dc_dispatch_all batch_events_def callbacks_append dc_controls_frames
        dc_callbacks_frames dc_source_def)
qed

lemma sourced_resets:
  assumes "en_rtp e' = rd_Reset (en_rtp e)" "en_dc e' = dc_Reset (en_dc e)"
  shows "sourced e [] e'"
  unfolding sourced_def
proof (intro conjI exI)
  show "frames_of Rtp90kHz [] = rdv.frames (en_rtp e) [RdReset]" "en_rtp e' = rdv.after (en_rtp e) [RdReset]"
    using assms by (simp_all add: rd_source_def)
  show "frames_of SenderMicroseconds [] = dcv.frames (en_dc e) [DcReset]" "en_dc e' = dcv.after (en_dc e) [DcReset]"
    using assms by (simp_all add: dc_source_def empty_batch_def)
qed

lemma sourced_step: "sourced e (fst (en_step i e)) (snd (en_step i e))"
proof (cases i)
  case (EnRtp b t)
  note k = sourced_start [OF sourced_feed, of _ e]
  show ?thesis
    by (auto simp: EnRtp en_processRtpVideoPacket_def Let_def split: option.splits intro!: k sourced_quiet)
      (simp_all add: en_bump_def)
next
  case (EnDc b t)
  let ?e = "en_bump (st_dataChannelPackets_update (\<lambda>n. n + 1)) (e\<lparr>en_currentArrivalNs := t\<rparr>)"
  have "dc_step (DcPacket b (uint (t div 1000))) (en_dc ?e) = dc_ProcessPacketAt b (uint (t div 1000)) (en_dc ?e)"
    by simp
  from sourced_start [OF sourced_dispatch [OF this], of e] show ?thesis
    by (simp add: EnDc en_processDataChannelPacket_def Let_def en_bump_def)
next
  case (EnTimer t)
  let ?r = "en_dispatch_dc (dc_OnTimerTickAt (uint (t div 1000)) (en_dc e)) (e\<lparr>en_currentArrivalNs := t\<rparr>)"
  have "sourced e (fst ?r) (snd ?r)"
    by (rule sourced_start [OF sourced_dispatch [where i = "DcTick (uint (t div 1000))"]]) simp_all
  moreover have "sourced (snd ?r) (fst q) (snd q)"
    if "q = (if en_needKeyframe (snd ?r) then en_tryDispatch t (snd ?r) else ([], snd ?r))" for q
    using that by (intro sourced_quiet) (simp_all add: tryDispatch_frames)
  ultimately show ?thesis
    by (simp only: EnTimer en_step.simps timer_split Let_def fst_conv snd_conv) (rule sourced_append, assumption, blast)
next
  case (EnRequest t)
  show ?thesis
    by (rule sourced_quiet) (simp_all add: EnRequest en_requestKeyframe_def tryDispatch_frames)
qed (simp_all add: engine_steps sourced_quiet sourced_resets)

lemma sourced_run: "sourced e (map snd (fst (en_run e xs))) (snd (en_run e xs))"
proof (induction xs arbitrary: e)
  case Nil
  show ?case by (simp add: sourced_quiet)
next
  case (Cons i xs)
  from sourced_append [OF sourced_step [of e i] Cons.IH [of "snd (en_step i e)"]] show ?case
    by (simp add: case_prod_beta Let_def o_def)
qed

definition en_inv :: "engine \<Rightarrow> bool" where
  "en_inv e \<longleftrightarrow> rd_inv (en_rtp e) \<and> dc_inv (en_dc e)"

lemma en_inv_init: "en_inv en_init"
  by (simp add: en_inv_def en_init_def rd_inv_init dc_inv_init)

lemma en_inv_run: "en_inv e \<Longrightarrow> en_inv (snd (en_run e xs))"
  using sourced_run [of e xs] by (auto simp: sourced_def en_inv_def rdv.after_inv dcv.after_inv)

lemma frames_of_sized:
  assumes "en_inv e" "f \<in> set (frames_of d (map snd (fst (en_run e xs))))"
  shows "f \<noteq> [] \<and> length f \<le> 7 * 1024 * 1024"
proof -
  from sourced_run [of e xs] obtain "is" js where
    s: "frames_of Rtp90kHz (map snd (fst (en_run e xs))) = rdv.frames (en_rtp e) is"
       "frames_of SenderMicroseconds (map snd (fst (en_run e xs))) = dcv.frames (en_dc e) js"
    unfolding sourced_def by blast
  show ?thesis
  proof (cases d)
    case Rtp90kHz
    then show ?thesis
      using rdv.frames_size [of "en_rtp e" f "is"] assms s by (auto simp: en_inv_def kMaxAccessUnitBytes_def)
  next
    case SenderMicroseconds
    then show ?thesis
      using dcv.frames_size [of "en_dc e" f js] assms s by (auto simp: en_inv_def dc_limit_def)
  qed
qed

lemma frames_of_start:
  assumes "en_inv e" "rd_waiting (en_rtp e)" "dc_waiting (en_dc e)"
    and "frames_of d (map snd (fst (en_run e xs))) = f # fs"
  shows "configured f"
proof -
  from sourced_run [of e xs] obtain "is" js where
    s: "frames_of Rtp90kHz (map snd (fst (en_run e xs))) = rdv.frames (en_rtp e) is"
       "frames_of SenderMicroseconds (map snd (fst (en_run e xs))) = dcv.frames (en_dc e) js"
    unfolding sourced_def by blast
  show ?thesis
  proof (cases d)
    case Rtp90kHz
    then show ?thesis using rdv.frames_start [of "en_rtp e" "is" f fs] assms s by (simp add: en_inv_def)
  next
    case SenderMicroseconds
    then show ?thesis using dcv.frames_start [of "en_dc e" js f fs] assms s by (simp add: en_inv_def)
  qed
qed

text \<open>One aggregation packet with the three NAL units of a key frame.\<close>

definition engine_example :: bytes where
  "engine_example = [0x80, 224, 0, 1, 0, 0, 1, 0, 0, 0, 0, 9, 0x78, 0, 2, 0x67, 1, 0, 2, 0x68, 2, 0, 2, 0x65, 3]"

lemma engine_example_frames:
  "frames_of Rtp90kHz (map snd (fst (en_run (snd (en_run en_init ([] @ [EnReset]))) [EnTypes [96], EnRtp engine_example 5]))) =
    [annexb [[0x67, 1], [0x68, 2], [0x65, 3]]]"
  by code_simp

lemma engine_example_requests:
  "request_times (fst (en_run en_init [EnRequest 0, EnRequest 10, EnTimer 50000000])) = [0, 50000000]"
  by code_simp

section \<open>Properties\<close>

text \<open>C5: after the video data channel closes or the session is reset, the first access unit that
  each path delivers holds SPS, PPS and an IDR slice, whatever arrived before and whatever arrives
  after; every access unit ever delivered is non-empty and at most 7 MiB.\<close>

theorem en_restart_configured:
  assumes "i = EnClosed \<or> i = EnReset"
    and "e = snd (en_run en_init (xs @ [i]))" and "frames_of d (map snd (fst (en_run e ys))) = f # fs"
  shows "configured f \<and> list_all (\<lambda>g. g \<noteq> [] \<and> length g \<le> 7 * 1024 * 1024) (f # fs)"
proof -
  have i: "en_inv e" unfolding assms(2) by (rule en_inv_run [OF en_inv_init])
  have w: "rd_waiting (en_rtp e)" "dc_waiting (en_dc e)"
    using assms(1) unfolding assms(2)
    by (auto simp: en_run_append engine_steps rd_Reset_def dc_Reset_def)
  show ?thesis
    using frames_of_start [OF i w assms(3)] frames_of_sized [OF i, of _ d ys] unfolding assms(3)
    by (simp add: list_all_iff)
qed

theorem en_restart_configured_witness:
  "configured (annexb [[0x67, 1], [0x68, 2], [0x65, 3]])"
  using en_restart_configured [OF disjI2 [OF refl] refl engine_example_frames] by blast



text \<open>A needed keyframe is asked for again and again: after every timer call that leaves the
  engine in need of one, some request was made less than 50 ms before that call or by it.\<close>

theorem en_timer_retries:
  assumes "EnReset \<notin> set xs" "0 \<le> sint t" "en_run en_init (xs @ [EnTimer t]) = (es, e)" "en_needsKeyframe e"
  shows "\<exists>r \<in> set (request_times es). sint t - r < 50000000"
proof -
  have "EnReset \<notin> set (xs @ [EnTimer t])" using assms(1) by simp
  from throttled_run [OF this, of en_init] assms(3)
  have l: "en_lastKeyframeRequestNs e = last (-1 # request_times es)" by (simp add: en_init_def)
  have "e = snd (en_onTimer t (snd (en_run en_init xs)))"
    using assms(3) by (auto simp: en_run_append case_prod_beta Let_def)
  with timer_request [OF assms(2), of "snd (en_run en_init xs)"] assms(4)
  have r: "0 \<le> en_lastKeyframeRequestNs e" "sint t - en_lastKeyframeRequestNs e < 50000000"
    by (simp_all add: en_needsKeyframe_def kKeyframeThrottleNs_def)
  with l have "request_times es \<noteq> []" by auto
  with l have "en_lastKeyframeRequestNs e \<in> set (request_times es)" by simp
  with r show ?thesis by blast
qed

theorem en_timer_retries_witness:
  "\<exists>r \<in> set [0, 50000000]. sint (50000000 :: u64) - r < 50000000"
proof -
  have "en_needsKeyframe (snd (en_run en_init ([EnRequest 0, EnRequest 10] @ [EnTimer 50000000])))" by code_simp
  from en_timer_retries [of "[EnRequest 0, EnRequest 10]" 50000000, OF _ _ prod.collapse [symmetric] this]
  show ?thesis by (simp add: engine_example_requests)
qed

text \<open>C6: the two media paths are never mixed: in every run in which the data channel is not closed
  and the session not reset, no RTP frame is delivered after a data channel frame.\<close>

theorem en_path_exclusive:
  assumes "EnReset \<notin> set xs" "EnClosed \<notin> set xs"
  shows "one_path False (map snd (fst (en_run en_init xs)))"
  using pathed_run [OF assms, of en_init] by (simp add: pathed_def en_init_def)

theorem en_path_exclusive_witness:
  "one_path False (map snd (fst (en_run en_init [EnTypes [96], EnRtp engine_example 5, EnTimer 6])))"
  by (rule en_path_exclusive) simp_all

text \<open>The statistics are exact, modulo \<open>2 ^ 64\<close>: in every run each counter is the number of
  calls or handler events of its kind, and every delivered frame carries the time of the call that
  completed it and the verdict of \<open>configuredIdr\<close> on its bytes.\<close>

theorem en_stats_exact:
  "let (es, e) = en_run en_init xs; s = en_stats e; vs = map snd es in
     st_rtpPackets s = count_of is_rtp_input xs \<and> st_dataChannelPackets s = count_of is_dc_input xs \<and>
     st_rtpFrames s = count_of (is_frame_of Rtp90kHz) vs \<and>
     st_dataChannelFrames s = count_of (is_frame_of SenderMicroseconds) vs \<and>
     st_recoverySignals s = count_of is_loss vs \<and>
     st_keyframeRequestsDispatched s = count_of is_keyframe vs \<and>
     st_controlMessagesOut s = count_of is_control vs \<and> list_all stamp_ok es"
  using stats_add_run [of xs en_init] stamps_run [of en_init xs]
  by (cases "en_run en_init xs") (simp add: stats_add_def en_init_def stats_init_def)

end
