(* ===== verification/Floats.thy ===== *)
theory Floats
  imports Prelude "HOL-Library.Log_Nat"
begin

text \<open>
  The floating-point arithmetic of the sources: \<open>float\<close> and \<open>double\<close> values that the code can
  reach are finite, so they are rational numbers, and each operation is the exact rational
  operation followed by rounding to the nearest value of the format, ties to even. Overflow to an
  infinity does not occur in the modelled code (every value is far below \<open>2 ^ 127\<close>); gradual
  underflow is part of the rounding.
\<close>

section \<open>The exponent of a rational\<close>

definition ilog2 :: "rat \<Rightarrow> int" where
  "ilog2 x = (let (a, b) = quotient_of x; k = bitlen a - bitlen b in if 2 powi k \<le> x then k else k - 1)"

lemma powi_less_exp: "(2::rat) powi a < 2 powi b \<Longrightarrow> a < b"
proof (rule ccontr)
  assume l: "(2::rat) powi a < 2 powi b" and "\<not> a < b"
  then have "(2::rat) powi b \<le> 2 powi a" by (intro power_int_increasing) simp_all
  with l show False by simp
qed

lemma powi_bitlen: "0 < a \<Longrightarrow> (2::rat) powi (bitlen a - 1) \<le> of_int a \<and> of_int a < (2::rat) powi bitlen a"
proof -
  assume "0 < a"
  note b = bitlen_bounds [OF this]
  from \<open>0 < a\<close> have "1 \<le> bitlen a" by (metis bitlen_eq_zero_iff bitlen_nonneg int_one_le_iff_zero_less less_le not_less)
  then have e: "(2::rat) powi (bitlen a - 1) = of_int (2 ^ nat (bitlen a - 1))" "(2::rat) powi bitlen a = of_int (2 ^ nat (bitlen a))"
    by (simp_all add: power_int_def)
  show ?thesis unfolding e using b by (simp only: of_int_le_iff of_int_less_iff)
qed

lemma ilog2_bounds:
  assumes "0 < x"
  shows "2 powi ilog2 x \<le> x \<and> x < 2 powi (ilog2 x + 1)"
proof -
  obtain a b where q: "quotient_of x = (a, b)" by fastforce
  have b: "0 < b" using q quotient_of_denom_pos by blast
  have x: "x = of_int a / of_int b" using q quotient_of_div by blast
  with assms b have a: "0 < a" by (simp add: zero_less_divide_iff)
  let ?k = "bitlen a - bitlen b"
  note pa = powi_bitlen [OF a] and pb = powi_bitlen [OF b]
  have "of_int a / of_int b < (2::rat) powi bitlen a / 2 powi (bitlen b - 1)"
    using pa pb a b by (intro frac_less) simp_all
  then have up: "x < 2 powi (?k + 1)" unfolding x by (simp add: power_int_diff algebra_simps power_int_add)
  have "(2::rat) powi (bitlen a - 1) / 2 powi bitlen b \<le> of_int a / of_int b"
    using pa pb a b by (intro frac_le) simp_all
  then have lo: "2 powi (?k - 1) \<le> x" unfolding x by (simp add: power_int_diff algebra_simps power_int_add)
  show ?thesis
  proof (cases "2 powi ?k \<le> x")
    case True
    then show ?thesis using up q by (simp add: ilog2_def)
  next
    case False
    then show ?thesis using lo q by (simp add: ilog2_def)
  qed
qed

section \<open>Rounding\<close>

definition rne :: "rat \<Rightarrow> int" where
  "rne x = (let f = \<lfloor>x\<rfloor>; d = x - of_int f in
     if d < 1 / 2 then f else if d > 1 / 2 then f + 1 else if even f then f else f + 1)"

lemma rne_close: "\<bar>of_int (rne x) - x\<bar> \<le> 1 / 2"
proof -
  have "of_int \<lfloor>x\<rfloor> \<le> x" "x < of_int \<lfloor>x\<rfloor> + 1" by linarith+
  then show ?thesis unfolding rne_def Let_def abs_if by (cases "even \<lfloor>x\<rfloor>") (simp_all; linarith)+
qed

lemma rne_int [simp]: "rne (of_int n) = n"
  by (simp add: rne_def)

lemma rne_nonneg: "0 \<le> x \<Longrightarrow> 0 \<le> rne x"
  by (simp add: rne_def Let_def)

text \<open>Rounding to \<open>p\<close> significant bits, with the exponent of the smallest subnormal.\<close>

definition ieee :: "nat \<Rightarrow> int \<Rightarrow> rat \<Rightarrow> rat" where
  "ieee p emin x =
     (if x = 0 then 0 else let u = 2 powi max (ilog2 \<bar>x\<bar> + 1 - int p) emin in of_int (rne (x / u)) * u)"

definition fl32 :: "rat \<Rightarrow> rat" where
  "fl32 x = ieee 24 (-149) x"

definition fl64 :: "rat \<Rightarrow> rat" where
  "fl64 x = ieee 53 (-1074) x"

lemma ieee_zero [simp]: "ieee p e 0 = 0"
  by (simp add: ieee_def)

lemma ieee_nonneg: "0 \<le> x \<Longrightarrow> 0 \<le> ieee p e x"
  by (simp add: ieee_def Let_def rne_nonneg)

lemma ieee_close: "x \<noteq> 0 \<Longrightarrow> \<bar>ieee p e x - x\<bar> \<le> 2 powi max (ilog2 \<bar>x\<bar> + 1 - int p) e / 2"
proof -
  assume x: "x \<noteq> 0"
  let ?u = "(2::rat) powi max (ilog2 \<bar>x\<bar> + 1 - int p) e"
  have u: "0 < ?u" by simp
  have "ieee p e x - x = (of_int (rne (x / ?u)) - x / ?u) * ?u"
    using x u by (simp add: ieee_def Let_def left_diff_distrib)
  then have "\<bar>ieee p e x - x\<bar> = \<bar>of_int (rne (x / ?u)) - x / ?u\<bar> * ?u"
    by (simp add: abs_mult)
  also have "\<dots> \<le> 1 / 2 * ?u" using rne_close [of "x / ?u"] u by (intro mult_right_mono) simp_all
  finally show ?thesis by simp
qed

text \<open>The relative error of a normal result.\<close>

lemma ieee_relative:
  assumes "2 powi k \<le> \<bar>x\<bar>" "e + int p \<le> k + 1"
  shows "\<bar>ieee p e x - x\<bar> \<le> \<bar>x\<bar> * 2 powi (- int p)"
proof -
  have p: "0 < (2::rat) powi k" by simp
  with assms(1) have "0 < \<bar>x\<bar>" by (rule less_le_trans [rotated])
  then have x: "x \<noteq> 0" by simp
  note b = ilog2_bounds [of "\<bar>x\<bar>"]
  have "(2::rat) powi k < 2 powi (ilog2 \<bar>x\<bar> + 1)" using assms(1) b x by auto
  then have "k < ilog2 \<bar>x\<bar> + 1" by (rule powi_less_exp)
  then have m: "max (ilog2 \<bar>x\<bar> + 1 - int p) e = ilog2 \<bar>x\<bar> + 1 - int p" using assms(2) by simp
  have "(2::rat) powi (ilog2 \<bar>x\<bar> + 1 - int p) = 2 powi ilog2 \<bar>x\<bar> * 2 powi 1 * 2 powi (- int p)"
    by (simp only: power_int_add [symmetric] zero_neq_numeral not_False_eq_True disjI1 simp_thms) simp
  then have "(2::rat) powi (ilog2 \<bar>x\<bar> + 1 - int p) / 2 = 2 powi ilog2 \<bar>x\<bar> * 2 powi (- int p)" by simp
  also have "\<dots> \<le> \<bar>x\<bar> * 2 powi (- int p)" using b x by (intro mult_right_mono) auto
  finally show ?thesis using ieee_close [OF x, of p e] unfolding m by simp
qed

text \<open>Integers of at most \<open>p\<close> bits are exact.\<close>

lemma ieee_int:
  assumes "\<bar>n\<bar> < 2 ^ p" "e \<le> 0"
  shows "ieee p e (of_int n) = of_int n"
proof (cases "n = 0")
  case False
  let ?x = "of_int n :: rat" and ?j = "max (ilog2 \<bar>of_int n :: rat\<bar> + 1 - int p) e"
  have "(2::rat) powi ilog2 \<bar>?x\<bar> \<le> \<bar>?x\<bar>" using ilog2_bounds [of "\<bar>?x\<bar>"] False by simp
  also have "\<bar>?x\<bar> = of_int \<bar>n\<bar>" by simp
  also have "\<dots> < of_int (2 ^ p)" using assms(1) by (simp only: of_int_less_iff)
  also have "\<dots> = 2 powi int p" by simp
  finally have "ilog2 \<bar>?x\<bar> < int p" by (rule powi_less_exp)
  then have j: "?j \<le> 0" using assms(2) by simp
  then have u: "(2::rat) powi ?j = inverse (of_int (2 ^ nat (- ?j)))" by (simp add: power_int_def power_divide inverse_eq_divide)
  have d: "?x / (2::rat) powi ?j = of_int (n * 2 ^ nat (- ?j))" unfolding u by (simp add: divide_inverse)
  have "ieee p e ?x = of_int (rne (?x / (2::rat) powi ?j)) * 2 powi ?j" using False by (simp add: ieee_def Let_def)
  also have "\<dots> = ?x" unfolding d rne_int unfolding u by (simp add: field_simps)
  finally show ?thesis .
qed simp

lemma fl32_nonneg: "0 \<le> x \<Longrightarrow> 0 \<le> fl32 x"
  by (simp add: fl32_def ieee_nonneg)

lemma fl32_zero [simp]: "fl32 0 = 0"
  by (simp add: fl32_def)

text \<open>The error of a \<open>float\<close> operation whose exact result is at least \<open>2 ^ -64\<close>.\<close>

lemma fl32_error:
  assumes "1 / 18446744073709551616 \<le> x"
  shows "\<bar>fl32 x - x\<bar> \<le> x / 16777216"
proof -
  have "0 < x" using assms by (rule less_le_trans [rotated]) simp
  moreover have "(2::rat) powi (- 64) \<le> \<bar>x\<bar>"
    using assms by (simp add: power_int_def divide_simps)
  from ieee_relative [OF this, of "-149" 24] have "\<bar>fl32 x - x\<bar> \<le> \<bar>x\<bar> * 2 powi (- 24)" by (simp add: fl32_def)
  ultimately show ?thesis by (simp add: power_int_def power_divide)
qed

lemma fl64_int: "\<bar>n\<bar> < 2 ^ 53 \<Longrightarrow> fl64 (of_int n) = of_int n"
  unfolding fl64_def by (rule ieee_int) simp_all

end
