(* ===== verification/Twcc.thy ===== *)
theory Twcc
  imports RtpWire
begin

text \<open>
  \<open>src/shared/receiver/rtc/twcc_receiver.{h,cpp}\<close> (\<open>TwccReceiver\<close>): the arrival records of
  transport-wide sequence numbers and the RTCP feedback packets built from them. Every method is
  one critical section. Sequence numbers wrap as 16-bit words; arrival times are \<open>int64_t\<close>
  microseconds of a monotonic clock and are mathematical integers, divided as C++ divides. The
  theorems read the packets back with a decoder written from the packet format the comments name.
\<close>

section \<open>State and operations\<close>

record TransportPacketRecord =
  tp_arrival_time_us :: int
  tp_packet_size :: u16
  tp_received :: bool

definition tp_empty :: TransportPacketRecord where
  "tp_empty = \<lparr>tp_arrival_time_us = 0, tp_packet_size = 0, tp_received = False\<rparr>"

definition kRingSize :: nat where
  "kRingSize = 2048"

definition kTimeResolutionUs :: int where
  "kTimeResolutionUs = 250"

definition kRefTimeResolutionUs :: int where
  "kRefTimeResolutionUs = 64000"

definition kSmallDeltaMaxUnits :: int where
  "kSmallDeltaMaxUnits = 255"

record twcc =
  tw_records :: "TransportPacketRecord list"
  tw_pendingBaseSeq :: u16
  tw_pendingEndSeq :: u16
  tw_hasPending :: bool
  tw_fbPacketCount :: u8

definition tw_init :: twcc where
  "tw_init = \<lparr>tw_records = replicate kRingSize tp_empty, tw_pendingBaseSeq = 0, tw_pendingEndSeq = 0,
     tw_hasPending = False, tw_fbPacketCount = 0\<rparr>"

definition tw_Reset :: "twcc \<Rightarrow> twcc" where
  "tw_Reset s = s\<lparr>tw_records := map (\<lambda>_. tp_empty) (tw_records s), tw_pendingBaseSeq := 0,
     tw_pendingEndSeq := 0, tw_hasPending := False, tw_fbPacketCount := 0\<rparr>"

definition tw_GetPendingPacketCount :: "twcc \<Rightarrow> u16" where
  "tw_GetPendingPacketCount s = (if \<not> tw_hasPending s then 0 else tw_pendingEndSeq s - tw_pendingBaseSeq s)"

definition ring_index :: "u16 \<Rightarrow> nat" where
  "ring_index seq = unat seq mod kRingSize"

definition tw_OnPacket :: "u16 \<Rightarrow> int \<Rightarrow> u16 \<Rightarrow> twcc \<Rightarrow> twcc" where
  "tw_OnPacket seq arrival size0 s0 =
     (let s = s0\<lparr>tw_records := (tw_records s0)[ring_index seq :=
            \<lparr>tp_arrival_time_us = arrival, tp_packet_size = size0, tp_received = True\<rparr>]\<rparr> in
      if \<not> tw_hasPending s then
        s\<lparr>tw_pendingBaseSeq := seq, tw_pendingEndSeq := seq + 1, tw_hasPending := True\<rparr>
      else
        let diffFromBase = sint (seq - tw_pendingBaseSeq s); diffFromEnd = sint (seq - tw_pendingEndSeq s);
            s1 = (if diffFromBase < 0 then s\<lparr>tw_pendingBaseSeq := seq\<rparr> else s)
        in (if diffFromEnd \<ge> 0 then s1\<lparr>tw_pendingEndSeq := seq + 1\<rparr> else s1))"

subsection \<open>The transport sequence number in the header extension\<close>

function tw_elements :: "bytes \<Rightarrow> u8 \<Rightarrow> nat \<Rightarrow> nat \<Rightarrow> u16 option" where
  "tw_elements b extension_id pos e =
     (if pos < e then
        let byte = b ! pos in
        if byte = 0 then tw_elements b extension_id (pos + 1) e
        else
          let eid = drop_bit 4 byte AND 15 in
          if eid = 15 then None
          else
            let len = unat ((byte AND 15) + 1); pos1 = pos + 1 in
            if pos1 + len > e then None
            else if eid = extension_id \<and> len \<ge> 2 then Some (be16 b pos1)
            else tw_elements b extension_id (pos1 + len) e
      else None)"
  by pat_completeness auto
termination by (relation "measure (\<lambda>(b, i, pos, e). e - pos)") auto

declare tw_elements.simps [simp del]

text \<open>A null pointer is \<open>None\<close>.\<close>

definition tw_ParseTransportSequence :: "bytes option \<Rightarrow> u8 \<Rightarrow> u16 option" where
  "tw_ParseTransportSequence p extension_id =
     (case p of None \<Rightarrow> None
      | Some b \<Rightarrow>
          if length b < 12 \<or> extension_id = 0 \<or> extension_id > 14 then None
          else if drop_bit 6 (b ! 0) AND 3 \<noteq> 2 then None
          else if b ! 0 AND 0x10 = 0 then None
          else
            let extOffset = 12 + unat (b ! 0 AND 0x0F) * 4 in
            if length b < extOffset + 4 then None
            else if be16 b extOffset \<noteq> 0xBEDE then None
            else
              let extDataOffset = extOffset + 4;
                  extDataEnd = extDataOffset + unat (be16 b (extOffset + 2)) * 4
              in if extDataEnd > length b then None
                 else tw_elements b extension_id extDataOffset extDataEnd)"

subsection \<open>Statuses and deltas\<close>

record PacketStatus =
  ps_status :: u8
  ps_delta_units :: u16

text \<open>The \<open>int16_t\<close> delta is the word; \<open>tw_classify\<close> is the test both branches of the loop share.\<close>

definition tw_classify :: "int \<Rightarrow> PacketStatus" where
  "tw_classify units =
     (if units \<ge> 0 \<and> units \<le> kSmallDeltaMaxUnits then \<lparr>ps_status = 1, ps_delta_units = of_int units\<rparr>
      else \<lparr>ps_status = 2, ps_delta_units = of_int (max (-32768) (min 32767 units))\<rparr>)"

text \<open>
  The body of the loop over the reported range; the loop's state is the reference time and the
  previous arrival.
\<close>

definition tw_status :: "TransportPacketRecord \<Rightarrow> (int \<times> int) option \<Rightarrow> PacketStatus \<times> (int \<times> int) option" where
  "tw_status r st =
     (let arrival = tp_arrival_time_us r in
      if \<not> tp_received r then (\<lparr>ps_status = 0, ps_delta_units = 0\<rparr>, st)
      else case st of
        None \<Rightarrow>
          let referenceTimeUs = cdiv arrival kRefTimeResolutionUs * kRefTimeResolutionUs
          in (tw_classify (cdiv (arrival - referenceTimeUs) kTimeResolutionUs), Some (referenceTimeUs, arrival))
      | Some (referenceTimeUs, prevArrivalUs) \<Rightarrow>
          (tw_classify (cdiv (arrival - prevArrivalUs) kTimeResolutionUs), Some (referenceTimeUs, arrival)))"

fun tw_scan :: "TransportPacketRecord list \<Rightarrow> u16 \<Rightarrow> nat list \<Rightarrow> (int \<times> int) option \<Rightarrow>
    PacketStatus list \<times> (int \<times> int) option" where
  "tw_scan records base [] st = ([], st)"
| "tw_scan records base (i # is) st =
     (let (s, st') = tw_status (records ! ring_index (base + of_nat i)) st;
          (ss, st'') = tw_scan records base is st'
      in (s # ss, st''))"

definition tw_run_length :: "PacketStatus list \<Rightarrow> nat" where
  "tw_run_length ss = Suc (length (takeWhile (\<lambda>t. ps_status t = ps_status (hd ss)) (take 8190 (tl ss))))"

definition tw_run_chunk :: "u8 \<Rightarrow> nat \<Rightarrow> u16" where
  "tw_run_chunk status runLen = push_bit 13 (ucast status) OR (of_nat runLen AND 0x1FFF)"

definition tw_vector_chunk :: "PacketStatus list \<Rightarrow> u16" where
  "tw_vector_chunk ss = fold (\<lambda>j chunk.
     chunk OR push_bit (12 - j * 2) (ucast ((if j < length ss then ps_status (ss ! j) else 0) AND 3))) [0..<7] 0xC000"

definition tw_delta_bytes :: "PacketStatus \<Rightarrow> bytes" where
  "tw_delta_bytes s =
     (if ps_status s = 1 then [ucast (ps_delta_units s)]
      else if ps_status s = 2 then [ucast (drop_bit 8 (ps_delta_units s)), ucast (ps_delta_units s)]
      else [])"

function tw_chunks :: "PacketStatus list \<Rightarrow> u16 list \<times> bytes" where
  "tw_chunks ss =
     (if ss = [] then ([], [])
      else
        let runLen = tw_run_length ss in
        if runLen \<ge> 7 then
          let (cs, ds) = tw_chunks (drop runLen ss)
          in (tw_run_chunk (ps_status (hd ss)) runLen # cs, concat (map tw_delta_bytes (take runLen ss)) @ ds)
        else
          let count = min 7 (length ss); (cs, ds) = tw_chunks (drop count ss)
          in (tw_vector_chunk ss # cs, concat (map tw_delta_bytes (take count ss)) @ ds))"
  by pat_completeness auto
termination by (relation "measure length") (auto simp: tw_run_length_def)

declare tw_chunks.simps [simp del]

subsection \<open>The feedback packet\<close>

definition tw_packet :: "u32 \<Rightarrow> u32 \<Rightarrow> u16 \<Rightarrow> u16 \<Rightarrow> int \<Rightarrow> u8 \<Rightarrow> PacketStatus list \<Rightarrow> bytes" where
  "tw_packet sender media base count referenceTimeUs fb statuses =
     (let (chunks, deltas) = tw_chunks statuses;
          refTime24 = (of_int (cdiv referenceTimeUs kRefTimeResolutionUs) :: u32) AND 0x00FFFFFF;
          chunkBytes = length chunks * 2;
          payloadSize = 8 + 4 + 4 + chunkBytes + length deltas;
          padding = (4 - payloadSize mod 4) mod 4;
          totalSize = 4 + 4 + 4 + 4 + 4 + chunkBytes + length deltas + padding
      in [push_bit 6 2 OR 15, 205] @ put_be16 (of_nat (totalSize div 4 - 1)) @ put_be32 sender @ put_be32 media @
         put_be16 base @ put_be16 count @
         [ucast (drop_bit 16 refTime24), ucast (drop_bit 8 refTime24), ucast refTime24, fb] @
         concat (map put_be16 chunks) @ deltas @ replicate padding 0)"

text \<open>The statuses and reference time of the pending range, capped at 512 packets.\<close>

definition tw_count :: "twcc \<Rightarrow> u16" where
  "tw_count s = (let n = tw_pendingEndSeq s - tw_pendingBaseSeq s in if n > 512 then 512 else n)"

definition tw_clear :: "u16 \<Rightarrow> nat list \<Rightarrow> TransportPacketRecord list \<Rightarrow> TransportPacketRecord list" where
  "tw_clear base is records = fold (\<lambda>i rs. rs[ring_index (base + of_nat i) := tp_empty]) is records"

text \<open>An empty vector is \<open>[]\<close>.\<close>

definition tw_BuildFeedbackPacket :: "u32 \<Rightarrow> u32 \<Rightarrow> twcc \<Rightarrow> bytes \<times> twcc" where
  "tw_BuildFeedbackPacket sender media s =
     (if \<not> tw_hasPending s then ([], s)
      else
        let base = tw_pendingBaseSeq s; count = tw_count s in
        if count = 0 then ([], s)
        else
          let (statuses, st) = tw_scan (tw_records s) base [0..<unat count] None in
          case st of
            None \<Rightarrow> ([], s)
          | Some (referenceTimeUs, _) \<Rightarrow>
              (tw_packet sender media base count referenceTimeUs (tw_fbPacketCount s) statuses,
               s\<lparr>tw_fbPacketCount := tw_fbPacketCount s + 1,
                 tw_records := tw_clear base [0..<unat count] (tw_records s),
                 tw_pendingBaseSeq := base + count,
                 tw_hasPending := (base + count \<noteq> tw_pendingEndSeq s)\<rparr>))"

section \<open>The receiver of the feedback\<close>

text \<open>
  A decoder of transport feedback (RTPFB, format 15): run-length chunks, one-bit and two-bit
  vector chunks, one- and two-byte deltas, zero padding.
\<close>

definition fb_chunk :: "u16 \<Rightarrow> u8 list" where
  "fb_chunk c =
     (if \<not> bit c 15 then replicate (unat (c AND 0x1FFF)) (ucast (drop_bit 13 c AND 3))
      else if bit c 14 then map (\<lambda>j. ucast (drop_bit (12 - j * 2) c AND 3)) [0..<7]
      else map (\<lambda>j. ucast (drop_bit (13 - j) c AND 1)) [0..<14])"

fun fb_statuses :: "nat \<Rightarrow> bytes \<Rightarrow> (u8 list \<times> bytes) option" where
  "fb_statuses n bs =
     (if n = 0 then Some ([], bs)
      else case bs of
        a # b # rest \<Rightarrow>
          let syms = fb_chunk (be16 [a, b] 0) in
          if syms = [] then None
          else (case fb_statuses (n - length syms) rest of
                  None \<Rightarrow> None
                | Some (ss, r) \<Rightarrow> Some (take n syms @ ss, r))
      | _ \<Rightarrow> None)"

declare fb_statuses.simps [simp del]

fun fb_deltas :: "u8 list \<Rightarrow> bytes \<Rightarrow> ((u8 \<times> int) list \<times> bytes) option" where
  "fb_deltas [] bs = Some ([], bs)"
| "fb_deltas (s # ss) bs =
     (if s = 0 then map_option (\<lambda>(ds, r). ((s, 0) # ds, r)) (fb_deltas ss bs)
      else if s = 1 then
        (case bs of [] \<Rightarrow> None
         | a # r \<Rightarrow> map_option (\<lambda>(ds, r). ((s, uint a) # ds, r)) (fb_deltas ss r))
      else if s = 2 then
        (case bs of a # b # r \<Rightarrow> map_option (\<lambda>(ds, r). ((s, sint (be16 [a, b] 0)) # ds, r)) (fb_deltas ss r)
         | _ \<Rightarrow> None)
      else None)"

record feedback =
  fb_sender :: u32
  fb_media :: u32
  fb_base :: u16
  fb_reference :: u32
  fb_number :: u8
  fb_entries :: "(u8 \<times> int) list"

definition fb_decode :: "bytes \<Rightarrow> feedback option" where
  "fb_decode p =
     (if length p < 20 \<or> p ! 0 \<noteq> 0x8F \<or> p ! 1 \<noteq> 205 \<or> length p \<noteq> 4 * (unat (be16 p 2) + 1) then None
      else case fb_statuses (unat (be16 p 14)) (drop 20 p) of
        None \<Rightarrow> None
      | Some (ss, r) \<Rightarrow>
          (case fb_deltas ss r of
             None \<Rightarrow> None
           | Some (ds, r) \<Rightarrow>
               if length r < 4 \<and> list_all (\<lambda>x. x = 0) r then
                 Some \<lparr>fb_sender = be32 p 4, fb_media = be32 p 8, fb_base = be16 p 12,
                   fb_reference = drop_bit 8 (be32 p 16), fb_number = p ! 19, fb_entries = ds\<rparr>
               else None))"

section \<open>Reading a packet back\<close>

lemma fb_run_chunk:
  assumes "st = 0 \<or> st = 1 \<or> st = 2" "n < 8192"
  shows "fb_chunk (tw_run_chunk st n) = replicate n st"
proof -
  have n: "(of_nat n :: u16) AND 0x1FFF = of_nat n"
    using and_mask_id [of "of_nat n :: u16" 13] assms(2) by (simp add: unat_of_nat mask_eq_exp_minus_1)
  have b: "\<not> bit (of_nat n :: u16) k" if "13 \<le> k" for k
  proof -
    have "bit ((of_nat n :: u16) AND mask 13) k = bit (of_nat n :: u16) k" using n by (simp add: mask_eq_exp_minus_1)
    with that show ?thesis by (simp add: bit_simps)
  qed
  have s: "\<not> bit st k" if "2 \<le> k" for k
  proof -
    have "st AND mask 2 = st" using assms(1) by (auto simp: mask_eq_exp_minus_1)
    then have "bit (st AND mask 2) k = bit st k" by simp
    with that show ?thesis by (simp add: bit_simps)
  qed
  then have s': "k < 2" if "bit st k" for k using that not_le by blast
  have "tw_run_chunk st n AND 0x1FFF = of_nat n"
  proof -
    have "tw_run_chunk st n AND mask 13 = of_nat n"
      by (rule bit_word_eqI) (use b in \<open>auto simp: tw_run_chunk_def n bit_simps not_le [symmetric]\<close>)
    then show ?thesis by (simp add: mask_eq_exp_minus_1)
  qed
  moreover have "ucast (drop_bit 13 (tw_run_chunk st n) AND mask 2) = st"
    by (rule bit_word_eqI) (use b in \<open>auto simp: tw_run_chunk_def n bit_simps dest: s'\<close>)
  moreover have "\<not> bit (tw_run_chunk st n) 15"
    using b s [of 2] by (auto simp: tw_run_chunk_def n bit_simps)
  ultimately show ?thesis
    using assms(2) by (simp add: fb_chunk_def unat_of_nat mask_eq_exp_minus_1)
qed

text \<open>The two-bit symbols of a vector chunk.\<close>

definition tw_symbol :: "PacketStatus list \<Rightarrow> nat \<Rightarrow> u8" where
  "tw_symbol ss j = (if j < length ss then ps_status (ss ! j) else 0) AND 3"

lemma bit_fold_or:
  "bit (fold (\<lambda>j c. c OR g j) js c) k \<longleftrightarrow> bit c k \<or> (\<exists>j \<in> set js. bit (g j) k)" for c :: "'w::len word"
  by (induction js arbitrary: c) (auto simp: bit_simps)

lemma symbol_bit: "bit (tw_symbol ss j) k \<Longrightarrow> k < 2"
proof -
  have "tw_symbol ss j AND mask 2 = tw_symbol ss j" by (simp add: tw_symbol_def mask_eq_exp_minus_1 and.assoc)
  then have "bit (tw_symbol ss j AND mask 2) k = bit (tw_symbol ss j) k" by simp
  then show "bit (tw_symbol ss j) k \<Longrightarrow> k < 2" by (simp add: bit_simps)
qed

lemma bit_C000: "bit (0xC000 :: u16) k \<longleftrightarrow> k = 14 \<or> k = 15"
proof -
  have "bit (0xC000 :: u16) k \<longleftrightarrow> bit (push_bit 14 (mask 2) :: u16) k" by (simp add: mask_eq_exp_minus_1)
  then show ?thesis by (auto simp: bit_push_bit_iff bit_mask_iff)
qed

lemma vector_chunk_bit:
  "bit (tw_vector_chunk ss) k \<longleftrightarrow> k = 14 \<or> k = 15 \<or>
     (\<exists>j < 7. 12 - j * 2 \<le> k \<and> k < 16 \<and> bit (tw_symbol ss j) (k - (12 - j * 2)))"
  unfolding tw_vector_chunk_def tw_symbol_def [symmetric] bit_fold_or bit_C000
  by (auto simp: bit_push_bit_iff bit_ucast_iff dest: symbol_bit)

lemma vector_chunk_symbol:
  assumes "j < 7"
  shows "ucast (drop_bit (12 - j * 2) (tw_vector_chunk ss) AND mask 2) = tw_symbol ss j"
proof (rule bit_word_eqI)
  fix k assume "k < LENGTH(8)"
  show "bit (ucast (drop_bit (12 - j * 2) (tw_vector_chunk ss) AND mask 2) :: u8) k = bit (tw_symbol ss j) k"
  proof (cases "k < 2")
    case True
    have "j' = j" if "j' < 7" "12 - j' * 2 \<le> 12 - j * 2 + k" "bit (tw_symbol ss j') (12 - j * 2 + k - (12 - j' * 2))" for j'
      using symbol_bit [OF that(3)] that(1,2) True assms by linarith
    note unique = this
    define p where "p = 12 - j * 2 + k"
    have p: "p < 14" "12 - j * 2 \<le> p" "p - (12 - j * 2) = k" using True by (simp_all add: p_def)
    have "bit (tw_vector_chunk ss) p \<longleftrightarrow> bit (tw_symbol ss j) k"
    proof
      assume "bit (tw_vector_chunk ss) p"
      with p(1) obtain j' where "j' < 7" "12 - j' * 2 \<le> p" "bit (tw_symbol ss j') (p - (12 - j' * 2))"
        unfolding vector_chunk_bit by auto
      with unique [of j'] p(3) show "bit (tw_symbol ss j) k" by (simp add: p_def)
    next
      assume "bit (tw_symbol ss j) k"
      with assms p show "bit (tw_vector_chunk ss) p" unfolding vector_chunk_bit by auto
    qed
    with True show ?thesis by (simp add: bit_simps p_def)
  next
    case False
    then show ?thesis using symbol_bit [of ss j k] by (auto simp: bit_simps)
  qed
qed

lemma fb_vector_chunk: "fb_chunk (tw_vector_chunk ss) = map (tw_symbol ss) [0..<7]"
proof -
  have b: "bit (tw_vector_chunk ss) 15" "bit (tw_vector_chunk ss) 14" by (simp_all add: vector_chunk_bit)
  have "(\<lambda>j. ucast (drop_bit (12 - j * 2) (tw_vector_chunk ss) AND 3)) j = tw_symbol ss j" if "j \<in> set [0..<7]" for j
    using vector_chunk_symbol [of j ss] that by (simp add: mask_eq_exp_minus_1)
  then show ?thesis unfolding fb_chunk_def by (simp only: b if_True if_False not_True_eq_False) (rule map_cong [OF refl])
qed

definition valid_status :: "PacketStatus \<Rightarrow> bool" where
  "valid_status s \<longleftrightarrow> ps_status s = 0 \<or> ps_status s = 1 \<or> ps_status s = 2"

lemma run_length_le: "ss \<noteq> [] \<Longrightarrow> tw_run_length ss \<le> length ss"
proof -
  assume "ss \<noteq> []"
  moreover have "length (takeWhile P (take 8190 (tl ss))) \<le> length (take 8190 (tl ss))" for P
    by (rule length_takeWhile_le)
  ultimately show ?thesis unfolding tw_run_length_def
    by (metis (no_types, lifting) Suc_le_mono length_Suc_conv_rev length_take length_tl le_trans min.cobounded1
        One_nat_def Suc_pred length_greater_0_conv)
qed

lemma run_length_bound: "tw_run_length ss < 8192"
proof -
  have "length (takeWhile P (take 8190 (tl ss))) \<le> length (take 8190 (tl ss))" for P
    by (rule length_takeWhile_le)
  then show ?thesis unfolding tw_run_length_def by (metis (no_types, lifting) Suc_le_mono le_imp_less_Suc length_take
      less_Suc_eq_le min.bounded_iff numeral_eq_Suc pred_numeral_simps(2) eval_nat_numeral(3) BitM.simps le_SucI)
qed

lemma run_statuses: "ss \<noteq> [] \<Longrightarrow>
    map ps_status (take (tw_run_length ss) ss) = replicate (tw_run_length ss) (ps_status (hd ss))"
proof (cases ss)
  case (Cons s rest)
  let ?P = "\<lambda>t. ps_status t = ps_status s"
  let ?n = "length (takeWhile ?P (take 8190 rest))"
  have e: "takeWhile ?P (take 8190 rest) = take ?n rest"
    by (metis (no_types, lifting) append_eq_conv_conj length_takeWhile_le min.absorb1 take_take takeWhile_dropWhile_id length_take min.bounded_iff)
  have "map ps_status (take ?n rest) = replicate ?n (ps_status s)"
  proof (rule replicate_eqI)
    show "length (map ps_status (take ?n rest)) = ?n" by (simp flip: e)
  next
    fix y assume "y \<in> set (map ps_status (take ?n rest))"
    then show "y = ps_status s" unfolding e [symmetric] by (auto dest: set_takeWhileD)
  qed
  with Cons show ?thesis by (simp add: tw_run_length_def)
qed simp

lemma tw_chunks_deltas: "snd (tw_chunks ss) = concat (map tw_delta_bytes ss)"
proof (induction ss rule: tw_chunks.induct)
  case (1 ss)
  show ?case
  proof (cases "ss = []")
    case False
    have split: "concat (map f (take n ss)) @ concat (map f (drop n ss)) = concat (map f ss)"
      for f :: "PacketStatus \<Rightarrow> bytes" and n
      by (metis append_take_drop_id concat_append map_append)
    show ?thesis
    proof (cases "tw_run_length ss \<ge> 7")
      case True
      then show ?thesis
        using 1(1) [OF False refl True] False
        by (subst tw_chunks.simps) (simp add: case_prod_beta Let_def split)
    next
      case f: False
      then show ?thesis
        using 1(2) [OF False refl f refl] False
        by (subst tw_chunks.simps) (simp add: case_prod_beta Let_def split)
    qed
  qed (simp add: tw_chunks.simps)
qed

lemma tw_chunks_length: "length (fst (tw_chunks ss)) \<le> length ss"
proof (induction ss rule: tw_chunks.induct)
  case (1 ss)
  show ?case
  proof (cases "ss = []")
    case False
    then have l: "0 < length ss" by simp
    show ?thesis
    proof (cases "tw_run_length ss \<ge> 7")
      case True
      then show ?thesis
        using 1(1) [OF False refl True] False l run_length_le [OF False]
        by (subst tw_chunks.simps) (simp add: case_prod_beta Let_def)
    next
      case f: False
      then show ?thesis
        using 1(2) [OF False refl f refl] False Suc_leI [OF l]
        by (subst tw_chunks.simps) (auto simp: case_prod_beta Let_def min_def split: if_splits)
    qed
  qed (simp add: tw_chunks.simps)
qed

lemma symbols_take:
  assumes "list_all valid_status ss"
  shows "take (length ss) (map (tw_symbol ss) [0..<7]) = map ps_status (take 7 ss)"
proof (rule nth_equalityI)
  fix j assume "j < length (take (length ss) (map (tw_symbol ss) [0..<7]))"
  then have j: "j < length ss" "j < 7" by simp_all
  then have "valid_status (ss ! j)" using assms by (simp add: list_all_length)
  with j show "take (length ss) (map (tw_symbol ss) [0..<7]) ! j = map ps_status (take 7 ss) ! j"
    by (auto simp: tw_symbol_def valid_status_def)
qed simp

lemma fb_statuses_step:
  assumes "ss \<noteq> []" "fb_chunk c = syms" "syms \<noteq> []" "k \<le> length ss" "length ss \<le> k \<or> k = length syms"
    and "take (length ss) syms = map ps_status (take k ss)" "length ss - length syms = length (drop k ss)"
    and "fb_statuses (length (drop k ss)) rest = Some (map ps_status (drop k ss), r)"
  shows "fb_statuses (length ss) (put_be16 c @ rest) = Some (map ps_status ss, r)"
proof -
  have c: "put_be16 c @ rest = ucast (drop_bit 8 c) # ucast c # rest" by (simp add: put_be16_def)
  have "be16 [ucast (drop_bit 8 c), ucast c] 0 = c" using be16_put [of c "[]"] by (simp add: put_be16_def)
  then show ?thesis
    unfolding c using assms
    by (subst fb_statuses.simps) (simp add: Let_def flip: map_append)
qed

lemma fb_statuses_chunks:
  "list_all valid_status ss \<Longrightarrow>
    fb_statuses (length ss) (concat (map put_be16 (fst (tw_chunks ss))) @ r) = Some (map ps_status ss, r)"
proof (induction ss rule: tw_chunks.induct)
  case (1 ss)
  show ?case
  proof (cases "ss = []")
    case True
    then show ?thesis by (subst fb_statuses.simps) (simp add: tw_chunks.simps)
  next
    case False
    have v: "list_all valid_status (drop n ss)" for n
      using "1.prems" by (auto simp: list_all_iff dest: in_set_dropD)
    show ?thesis
    proof (cases "tw_run_length ss \<ge> 7")
      case True
      let ?n = "tw_run_length ss" and ?c = "tw_run_chunk (ps_status (hd ss)) (tw_run_length ss)"
      have hd: "valid_status (hd ss)" using "1.prems" False by (cases ss) simp_all
      have c: "fb_chunk ?c = replicate ?n (ps_status (hd ss))"
        by (rule fb_run_chunk) (use hd run_length_bound in \<open>simp_all add: valid_status_def\<close>)
      have "fb_statuses (length ss) (put_be16 ?c @ concat (map put_be16 (fst (tw_chunks (drop ?n ss)))) @ r) =
          Some (map ps_status ss, r)"
        by (rule fb_statuses_step [OF False c, where k = ?n])
          (use 1(1) [OF False refl True v] run_statuses [OF False] run_length_le [OF False] True in simp_all)
      then show ?thesis
        using False True by (subst tw_chunks.simps) (simp add: case_prod_beta Let_def)
    next
      case f: False
      let ?n = "min 7 (length ss)"
      have c: "fb_chunk (tw_vector_chunk ss) = map (tw_symbol ss) [0..<7]" by (rule fb_vector_chunk)
      have "fb_statuses (length ss) (put_be16 (tw_vector_chunk ss) @ concat (map put_be16 (fst (tw_chunks (drop ?n ss)))) @ r) =
          Some (map ps_status ss, r)"
        by (rule fb_statuses_step [OF False c, where k = ?n])
          (use 1(2) [OF False refl f refl v] symbols_take [OF "1.prems"] in \<open>auto simp: min_def\<close>)
      then show ?thesis
        using False f by (subst tw_chunks.simps) (simp add: case_prod_beta Let_def)
    qed
  qed
qed

definition fb_entry :: "PacketStatus \<Rightarrow> u8 \<times> int" where
  "fb_entry s = (ps_status s, if ps_status s = 0 then 0 else if ps_status s = 1 then uint (ucast (ps_delta_units s) :: u8)
     else sint (ps_delta_units s))"

lemma fb_deltas_bytes:
  "list_all valid_status ss \<Longrightarrow>
    fb_deltas (map ps_status ss) (concat (map tw_delta_bytes ss) @ r) = Some (map fb_entry ss, r)"
proof (induction ss)
  case (Cons s ss)
  have "be16 [ucast (drop_bit 8 (ps_delta_units s)), ucast (ps_delta_units s)] 0 = ps_delta_units s"
    using be16_put [of "ps_delta_units s" "[]"] by (simp add: put_be16_def)
  with Cons show ?case by (auto simp: tw_delta_bytes_def fb_entry_def valid_status_def)
qed simp

lemma tw_delta_length: "length (tw_delta_bytes s) \<le> 2"
  by (simp add: tw_delta_bytes_def)

lemma tw_deltas_length: "length (concat (map tw_delta_bytes ss)) \<le> 2 * length ss"
proof (induction ss)
  case (Cons s ss)
  then show ?case using tw_delta_length [of s] by simp
qed simp

lemma length_put_all: "length (concat (map put_be16 cs)) = 2 * length cs"
  by (induction cs) simp_all

lemma pad4: "4 dvd k + (4 - k mod 4) mod (4 :: nat)"
proof -
  have "k mod 4 < 4" by simp
  then consider "k mod 4 = 0" | "k mod 4 = 1" | "k mod 4 = 2" | "k mod 4 = 3" by linarith
  then show ?thesis by cases (simp_all, presburger+)
qed

lemma be32_high24:
  assumes "r AND mask 24 = r"
  shows "drop_bit 8 (be32 [ucast (drop_bit 16 r), ucast (drop_bit 8 r), ucast r, x] 0) = r"
proof (rule bit_word_eqI)
  fix n assume n: "n < LENGTH(32)"
  have r: "bit r n \<Longrightarrow> n < 24" for n using assms by (metis bit_and_iff bit_mask_iff)
  from n consider "n < 8" | "8 \<le> n \<and> n < 16" | "16 \<le> n \<and> n < 24" | "24 \<le> n" by fastforce
  then show "bit (drop_bit 8 (be32 [ucast (drop_bit 16 r), ucast (drop_bit 8 r), ucast r, x] 0)) n = bit r n"
    by cases (use r [of n] n in \<open>auto simp: be32_def be16_def bit_simps dest: bit_imp_le_length\<close>)
qed

text \<open>Every packet with at most 512 statuses reads back as it was built.\<close>

lemma fb_decode_packet:
  assumes v: "list_all valid_status ss" and n: "length ss = unat count" "unat count \<le> 512"
  shows "fb_decode (tw_packet sender media base count ref fb ss) =
    Some \<lparr>fb_sender = sender, fb_media = media, fb_base = base,
      fb_reference = (of_int (cdiv ref kRefTimeResolutionUs) AND 0x00FFFFFF), fb_number = fb, fb_entries = map fb_entry ss\<rparr>"
proof -
  define cs where "cs = fst (tw_chunks ss)"
  define ds where "ds = concat (map tw_delta_bytes ss)"
  have tc: "tw_chunks ss = (cs, ds)" by (simp add: cs_def ds_def prod_eq_iff tw_chunks_deltas)
  define pad where "pad = (4 - (8 + 4 + 4 + length cs * 2 + length ds) mod 4) mod 4"
  define total where "total = 4 + 4 + 4 + 4 + 4 + length cs * 2 + length ds + pad"
  define ref24 where "ref24 = (of_int (cdiv ref kRefTimeResolutionUs) :: u32) AND 0x00FFFFFF"
  define p where "p = tw_packet sender media base count ref fb ss"
  have p: "p = [0x8F, 205] @ put_be16 (of_nat (total div 4 - 1)) @ put_be32 sender @ put_be32 media @
      put_be16 base @ put_be16 count @ [ucast (drop_bit 16 ref24), ucast (drop_bit 8 ref24), ucast ref24, fb] @
      concat (map put_be16 cs) @ ds @ replicate pad 0"
    by (simp add: p_def tw_packet_def tc Let_def pad_def total_def ref24_def)
  have pad: "pad < 4" by (simp add: pad_def)
  have len: "length p = total" by (simp add: p total_def length_put_all)
  have "4 dvd (8 + 4 + 4 + length cs * 2 + length ds) + pad" unfolding pad_def by (rule pad4)
  then have "4 dvd 4 + ((8 + 4 + 4 + length cs * 2 + length ds) + pad)" by (rule dvd_add [OF dvd_refl])
  then have four: "4 dvd total" by (simp add: total_def add.assoc)
  have bound: "total \<le> 20 + 2 * 512 + 2 * 512 + 3"
    using tw_chunks_length [of ss] tw_deltas_length [of ss] pad n by (simp add: total_def cs_def ds_def)
  have "total div 4 - 1 < 2 ^ 16" using bound by simp
  then have "unat (of_nat (total div 4 - 1) :: u16) = total div 4 - 1" by (simp only: unat_of_nat take_bit_nat_eq_self) simp
  then have words: "4 * (unat (of_nat (total div 4 - 1) :: u16) + 1) = total" using four by (simp add: total_def)
  define tail where "tail = concat (map put_be16 cs) @ ds @ replicate pad 0"
  have drops: "drop 2 p = put_be16 (of_nat (total div 4 - 1)) @ drop 4 p" "drop 4 p = put_be32 sender @ drop 8 p"
    "drop 8 p = put_be32 media @ drop 12 p" "drop 12 p = put_be16 base @ drop 14 p"
    "drop 14 p = put_be16 count @ drop 16 p"
    "drop 16 p = [ucast (drop_bit 16 ref24), ucast (drop_bit 8 ref24), ucast ref24, fb] @ tail"
    by (simp_all add: p tail_def)
  note at = drops(1) [THEN be16_at] drops(2) [THEN be32_at] drops(3) [THEN be32_at] drops(4) [THEN be16_at]
    drops(5) [THEN be16_at]
  have nth: "p ! (16 + k) = drop 16 p ! k" for k by (simp add: len total_def)
  have ref: "be32 p 16 = be32 [ucast (drop_bit 16 ref24), ucast (drop_bit 8 ref24), ucast ref24, fb] 0" "p ! 19 = fb"
    using nth [of 0] nth [of 1] nth [of 2] nth [of 3] unfolding drops(6) by (simp_all add: be32_def be16_def)
  have "ref24 AND mask 24 = ref24" by (simp add: ref24_def mask_eq_exp_minus_1 and.assoc)
  then have "drop_bit 8 (be32 p 16) = ref24" unfolding ref(1) by (rule be32_high24)
  moreover have "drop 20 p = tail" by (simp add: p tail_def)
  moreover have "fb_statuses (unat count) tail = Some (map ps_status ss, ds @ replicate pad 0)"
    unfolding tail_def cs_def n(1) [symmetric] by (rule fb_statuses_chunks [OF v])
  moreover have "fb_deltas (map ps_status ss) (ds @ replicate pad 0) = Some (map fb_entry ss, replicate pad 0)"
    unfolding ds_def by (rule fb_deltas_bytes [OF v])
  moreover have "20 \<le> length p" "p ! 0 = 0x8F" "p ! 1 = 205" by (simp_all add: len total_def) (simp_all add: p)
  moreover have "list_all (\<lambda>x. x = 0) (replicate pad (0 :: u8))" by (simp add: list_all_length)
  ultimately show ?thesis
    unfolding p_def [symmetric] fb_decode_def at using pad ref(2) len words by (simp add: ref24_def)
qed

section \<open>The reported range\<close>

lemma valid_classify: "valid_status (tw_classify u)"
  by (simp add: valid_status_def tw_classify_def)

lemma valid_missing: "valid_status \<lparr>ps_status = 0, ps_delta_units = d\<rparr>"
  by (simp add: valid_status_def)

lemma classify_received: "ps_status (tw_classify u) \<noteq> 0"
  by (simp add: tw_classify_def)

lemma status_facts:
  "valid_status (fst (tw_status r st))" "ps_status (fst (tw_status r st)) \<noteq> 0 \<longleftrightarrow> tp_received r"
  "snd (tw_status r st) \<noteq> None \<longleftrightarrow> st \<noteq> None \<or> tp_received r"
  by (simp_all add: tw_status_def Let_def valid_classify classify_received valid_missing split: option.split)

lemma scan_valid: "list_all valid_status (fst (tw_scan rs base is st)) \<and> length (fst (tw_scan rs base is st)) = length is"
  by (induction "is" arbitrary: st) (simp_all add: case_prod_beta Let_def status_facts)

lemma scan_received:
  "map (\<lambda>s. ps_status s \<noteq> 0) (fst (tw_scan rs base is st)) = map (\<lambda>i. tp_received (rs ! ring_index (base + of_nat i))) is"
  by (induction "is" arbitrary: st) (simp_all add: case_prod_beta Let_def status_facts)

lemma scan_reference:
  "snd (tw_scan rs base is st) \<noteq> None \<longleftrightarrow> st \<noteq> None \<or> (\<exists>i \<in> set is. tp_received (rs ! ring_index (base + of_nat i)))"
proof (induction "is" arbitrary: st)
  case (Cons i "is")
  show ?case
    using Cons.IH [of "snd (tw_status (rs ! ring_index (base + of_nat i)) st)"]
      status_facts(3) [of "rs ! ring_index (base + of_nat i)" st]
    by (simp add: case_prod_beta Let_def del: not_None_eq)
qed simp

lemma tw_count_le: "unat (tw_count s) \<le> 512"
  by (simp add: tw_count_def Let_def word_less_nat_alt not_less)

text \<open>What a packet that is built says, and the state after it.\<close>

lemma build_cases:
  assumes "tw_BuildFeedbackPacket sender media s = (p, s')" "p \<noteq> []"
  obtains ss ref prev where
    "tw_scan (tw_records s) (tw_pendingBaseSeq s) [0..<unat (tw_count s)] None = (ss, Some (ref, prev))"
    "fb_decode p = Some \<lparr>fb_sender = sender, fb_media = media, fb_base = tw_pendingBaseSeq s,
      fb_reference = (of_int (cdiv ref kRefTimeResolutionUs) AND 0x00FFFFFF), fb_number = tw_fbPacketCount s,
      fb_entries = map fb_entry ss\<rparr>"
    "s' = s\<lparr>tw_fbPacketCount := tw_fbPacketCount s + 1,
        tw_records := tw_clear (tw_pendingBaseSeq s) [0..<unat (tw_count s)] (tw_records s),
        tw_pendingBaseSeq := tw_pendingBaseSeq s + tw_count s,
        tw_hasPending := (tw_pendingBaseSeq s + tw_count s \<noteq> tw_pendingEndSeq s)\<rparr>"
    "tw_hasPending s"
proof -
  obtain ss st where sc: "tw_scan (tw_records s) (tw_pendingBaseSeq s) [0..<unat (tw_count s)] None = (ss, st)"
    by fastforce
  obtain ref prev where st: "st = Some (ref, prev)" "tw_hasPending s"
      "p = tw_packet sender media (tw_pendingBaseSeq s) (tw_count s) ref (tw_fbPacketCount s) ss"
      "s' = s\<lparr>tw_fbPacketCount := tw_fbPacketCount s + 1,
        tw_records := tw_clear (tw_pendingBaseSeq s) [0..<unat (tw_count s)] (tw_records s),
        tw_pendingBaseSeq := tw_pendingBaseSeq s + tw_count s,
        tw_hasPending := (tw_pendingBaseSeq s + tw_count s \<noteq> tw_pendingEndSeq s)\<rparr>"
    using assms sc by (auto simp: tw_BuildFeedbackPacket_def Let_def split: if_splits option.splits)
  have v: "list_all valid_status ss" "length ss = unat (tw_count s)"
    using scan_valid [of "tw_records s" "tw_pendingBaseSeq s" "[0..<unat (tw_count s)]" None] unfolding sc by simp_all
  show ?thesis
    using that [OF sc [unfolded st(1)] _ st(4,2)] fb_decode_packet [OF v tw_count_le] unfolding st(3) by blast
qed

lemma fb_entry_status: "fst (fb_entry s) = ps_status s"
  by (simp add: fb_entry_def)

section \<open>Every packet is reported once\<close>

lemma ring_index_less: "ring_index q < kRingSize"
  by (simp add: ring_index_def kRingSize_def)

lemma ring_index_plus: "ring_index (b + of_nat k) = (unat b + k) mod 2048"
proof -
  have "unat (b + of_nat k) = (unat b + k) mod 65536"
    by (simp add: unat_word_ariths unat_of_nat mod_add_right_eq)
  then show ?thesis by (simp add: ring_index_def kRingSize_def mod_mod_cancel)
qed

lemma ring_index_inj:
  assumes "j < 2048" "k < 2048" "ring_index (b + of_nat j) = ring_index (b + of_nat k)"
  shows "j = k"
proof -
  have "(int (unat b) + int j) mod 2048 = (int (unat b) + int k) mod 2048"
    using arg_cong [OF assms(3) [unfolded ring_index_plus], of int] by (simp add: zmod_int)
  then have "2048 dvd int j - int k" by (simp add: mod_eq_dvd_iff)
  then obtain q where "int j - int k = 2048 * q" by (elim dvdE)
  moreover from this assms(1,2) have "q < 1" "- 1 < q" by linarith+
  ultimately show ?thesis by simp
qed

lemma ring_index_surj:
  assumes "idx < kRingSize"
  obtains j where "j < 2048" "ring_index (b + of_nat j) = idx"
proof
  let ?j = "(idx + (2048 - unat b mod 2048)) mod 2048"
  show "?j < 2048" by simp
  have "(unat b + ?j) mod 2048 = (unat b mod 2048 + (idx + (2048 - unat b mod 2048))) mod 2048"
    by (simp only: mod_add_left_eq mod_add_right_eq)
  also have "unat b mod 2048 + (idx + (2048 - unat b mod 2048)) = idx + 2048"
    using mod_less_divisor [of 2048 "unat b"] by linarith
  finally show "ring_index (b + of_nat ?j) = idx"
    using assms by (simp add: ring_index_plus kRingSize_def)
qed

lemma offset_difference:
  assumes "k \<le> 1024" "m \<le> 1024"
  shows "sint ((b + of_nat k) - (b + of_nat m) :: u16) = int k - int m"
proof -
  have "(b + of_nat k) - (b + of_nat m) = (of_int (int k - int m) :: u16)" by simp
  then show ?thesis using assms by (simp add: sint_sbintrunc' signed_take_bit_int_eq_self del: of_int_diff)
qed

definition tw_clean :: "twcc \<Rightarrow> bool" where
  "tw_clean s \<longleftrightarrow> length (tw_records s) = kRingSize \<and> list_all (\<lambda>r. \<not> tp_received r) (tw_records s) \<and> \<not> tw_hasPending s"

text \<open>The state after packets at the given offsets from a sequence number.\<close>

definition tw_holds :: "u16 \<Rightarrow> nat set \<Rightarrow> twcc \<Rightarrow> bool" where
  "tw_holds b ks s \<longleftrightarrow> length (tw_records s) = kRingSize \<and> ks \<noteq> {} \<and> ks \<subseteq> {..<512} \<and> tw_hasPending s \<and>
     tw_pendingBaseSeq s = b + of_nat (Min ks) \<and> tw_pendingEndSeq s = b + of_nat (Max ks + 1) \<and>
     (\<forall>j < 2048. tp_received (tw_records s ! ring_index (b + of_nat j)) \<longleftrightarrow> j \<in> ks)"

lemma holds_first:
  assumes "tw_clean s" "k < 512"
  shows "tw_holds b {k} (tw_OnPacket (b + of_nat k) t z s)"
proof -
  have "\<not> tp_received (tw_records s ! ring_index q)" for q
    using assms(1) ring_index_less [of q] by (auto simp: tw_clean_def list_all_length)
  then show ?thesis
    using assms ring_index_inj [of _ k b] ring_index_less
    by (auto simp: tw_holds_def tw_OnPacket_def tw_clean_def Let_def nth_list_update add.assoc)
qed

lemma holds_next:
  assumes h: "tw_holds b ks s" and k: "k < 512"
  shows "tw_holds b (insert k ks) (tw_OnPacket (b + of_nat k) t z s)"
proof -
  have ks: "finite ks" "ks \<noteq> {}" "ks \<subseteq> {..<512}" using h by (auto simp: tw_holds_def intro: finite_subset)
  then have m: "Min ks < 512" "Max ks < 512" by (auto simp: subset_iff)
  define s1 where "s1 = s\<lparr>tw_records := (tw_records s)[ring_index (b + of_nat k) :=
      \<lparr>tp_arrival_time_us = t, tp_packet_size = z, tp_received = True\<rparr>]\<rparr>"
  have base: "sint (b + of_nat k - tw_pendingBaseSeq s1) = int k - int (Min ks)"
    using h k m offset_difference [of k "Min ks" b] by (simp add: tw_holds_def s1_def)
  have "end": "sint (b + of_nat k - tw_pendingEndSeq s1) = int k - int (Max ks + 1)"
    using h k m offset_difference [of k "Max ks + 1" b] by (simp add: tw_holds_def s1_def)
  have pending: "tw_hasPending s1" using h by (simp add: tw_holds_def s1_def)
  have e: "tw_OnPacket (b + of_nat k) t z s =
      (let s2 = (if k < Min ks then s1\<lparr>tw_pendingBaseSeq := b + of_nat k\<rparr> else s1)
       in if k \<ge> Max ks + 1 then s2\<lparr>tw_pendingEndSeq := b + of_nat k + 1\<rparr> else s2)"
    using pending unfolding tw_OnPacket_def s1_def [symmetric] by (simp add: base "end" Let_def)
  have r: "tp_received (tw_records s1 ! ring_index (b + of_nat j)) \<longleftrightarrow> j \<in> insert k ks" if "j < 2048" for j
    using h k that ring_index_inj [of k j b] ring_index_less [of "b + of_nat k"]
    by (auto simp: tw_holds_def s1_def nth_list_update)
  obtain lo hi where lh: "lo = Min ks" "hi = Max ks" by simp
  have mm: "Min (insert k ks) = min k lo" "Max (insert k ks) = max k hi" using ks lh by simp_all
  have "tw_pendingBaseSeq (tw_OnPacket (b + of_nat k) t z s) = b + of_nat (min k lo)"
    "tw_pendingEndSeq (tw_OnPacket (b + of_nat k) t z s) = b + of_nat (max k hi + 1)"
    "tw_records (tw_OnPacket (b + of_nat k) t z s) = tw_records s1"
    "tw_hasPending (tw_OnPacket (b + of_nat k) t z s)"
    using h pending unfolding e tw_holds_def lh [symmetric]
    by (auto simp: Let_def min_def max_def s1_def add.assoc)
  moreover have "length (tw_records s1) = kRingSize" using h by (simp add: tw_holds_def s1_def)
  ultimately show ?thesis
    using k r ks by (simp add: tw_holds_def mm)
qed


definition tw_packets :: "u16 \<Rightarrow> (nat \<times> int \<times> u16) list \<Rightarrow> twcc \<Rightarrow> twcc" where
  "tw_packets b ps s = fold (\<lambda>(k, t, z). tw_OnPacket (b + of_nat k) t z) ps s"

lemma holds_more:
  "tw_holds b ks s \<Longrightarrow> \<forall>x \<in> set ps. fst x < 512 \<Longrightarrow> tw_holds b (fst ` set ps \<union> ks) (tw_packets b ps s)"
proof (induction ps arbitrary: ks s)
  case (Cons x ps)
  obtain k t z where x: "x = (k, t, z)" by (cases x)
  have "tw_holds b (insert k ks) (tw_OnPacket (b + of_nat k) t z s)"
    using Cons.prems x by (intro holds_next) simp_all
  from Cons.IH [OF this] Cons.prems(2) show ?case by (simp add: x tw_packets_def)
qed (simp add: tw_packets_def)

lemma holds_batch:
  assumes "tw_clean s" "ps \<noteq> []" "\<forall>x \<in> set ps. fst x < 512"
  shows "tw_holds b (fst ` set ps) (tw_packets b ps s)"
proof -
  obtain k t z qs where ps: "ps = (k, t, z) # qs" using assms(2) by (cases ps) auto
  have "tw_holds b {k} (tw_OnPacket (b + of_nat k) t z s)" using assms ps by (intro holds_first) simp_all
  from holds_more [OF this, of qs] assms(3) show ?thesis by (simp add: ps tw_packets_def)
qed

lemma clear_nth:
  "length (tw_clear base is rs) = length rs"
  "idx < length rs \<Longrightarrow> tw_clear base is rs ! idx =
    (if \<exists>i \<in> set is. ring_index (base + of_nat i) = idx then tp_empty else rs ! idx)"
  unfolding tw_clear_def
  by (induction "is" arbitrary: rs) (auto simp: nth_list_update)

text \<open>The sequence numbers a feedback packet reports as received.\<close>

definition fb_reported :: "feedback \<Rightarrow> u16 set" where
  "fb_reported r = {fb_base r + of_nat i | i. i < length (fb_entries r) \<and> fst (fb_entries r ! i) \<noteq> 0}"

lemma holds_build:
  assumes h: "tw_holds b ks s"
  obtains r where "fb_decode (fst (tw_BuildFeedbackPacket sender media s)) = Some r"
    "fb_reported r = (\<lambda>k. b + of_nat k) ` ks" "fb_sender r = sender" "fb_media r = media"
    "tw_clean (snd (tw_BuildFeedbackPacket sender media s))"
proof -
  obtain lo hi where lh: "lo = Min ks" "hi = Max ks" by simp
  have ks: "finite ks" "ks \<noteq> {}" "ks \<subseteq> {..<512}" using h by (auto simp: tw_holds_def intro: finite_subset)
  then have m: "lo \<in> ks" "hi \<in> ks" "hi < 512" "lo \<le> hi" and m': "\<And>k. k \<in> ks \<Longrightarrow> lo \<le> k \<and> k \<le> hi"
    by (auto simp: lh subset_iff)
  define n where "n = hi + 1 - lo"
  have n: "0 < n" "n \<le> 512" using m by (simp_all add: n_def)
  have base: "tw_pendingBaseSeq s = b + of_nat lo" "tw_pendingEndSeq s = b + of_nat (hi + 1)" "tw_hasPending s"
    using h by (simp_all add: tw_holds_def lh)
  have "tw_pendingEndSeq s - tw_pendingBaseSeq s = of_nat n"
    using m by (simp add: base n_def of_nat_diff)
  then have "tw_count s = of_nat n" using n by (simp add: tw_count_def Let_def word_less_nat_alt unat_of_nat)
  then have c: "unat (tw_count s) = n" "tw_count s \<noteq> 0" using n by (auto simp: unat_of_nat word_unat_eq_iff)
  have at: "tw_pendingBaseSeq s + of_nat i = b + of_nat (lo + i)" for i by (simp add: base)
  have rec: "tp_received (tw_records s ! ring_index (tw_pendingBaseSeq s + of_nat i)) \<longleftrightarrow> lo + i \<in> ks" if "i < n" for i
  proof -
    have "\<forall>j < 2048. tp_received (tw_records s ! ring_index (b + of_nat j)) \<longleftrightarrow> j \<in> ks"
      using h by (simp add: tw_holds_def)
    then show ?thesis unfolding at using that m by (simp add: n_def del: of_nat_add)
  qed
  let ?build = "tw_BuildFeedbackPacket sender media s"
  obtain ss st where sc: "tw_scan (tw_records s) (tw_pendingBaseSeq s) [0..<n] None = (ss, st)" by fastforce
  have "st \<noteq> None"
    using scan_reference [of "tw_records s" "tw_pendingBaseSeq s" "[0..<n]" None] rec [of 0] n m unfolding sc
    by (auto simp del: not_None_eq intro: bexI [of _ 0])
  then obtain ref prev where st: "st = Some (ref, prev)" by auto
  have "fst ?build \<noteq> []"
    using base(3) c sc by (simp add: tw_BuildFeedbackPacket_def Let_def st tw_packet_def case_prod_beta)
  from build_cases [OF prod.collapse [symmetric] this] obtain ss' ref' prev' where
    b: "tw_scan (tw_records s) (tw_pendingBaseSeq s) [0..<unat (tw_count s)] None = (ss', Some (ref', prev'))"
      "fb_decode (fst ?build) = Some \<lparr>fb_sender = sender, fb_media = media, fb_base = tw_pendingBaseSeq s,
        fb_reference = (of_int (cdiv ref' kRefTimeResolutionUs) AND 0x00FFFFFF), fb_number = tw_fbPacketCount s,
        fb_entries = map fb_entry ss'\<rparr>"
      "snd ?build = s\<lparr>tw_fbPacketCount := tw_fbPacketCount s + 1,
        tw_records := tw_clear (tw_pendingBaseSeq s) [0..<unat (tw_count s)] (tw_records s),
        tw_pendingBaseSeq := tw_pendingBaseSeq s + tw_count s,
        tw_hasPending := (tw_pendingBaseSeq s + tw_count s \<noteq> tw_pendingEndSeq s)\<rparr>"
    by blast
  have ss: "length ss' = n" "map (\<lambda>s. ps_status s \<noteq> 0) ss' = map (\<lambda>i. lo + i \<in> ks) [0..<n]"
    using scan_valid [of "tw_records s" "tw_pendingBaseSeq s" "[0..<n]" None]
      scan_received [of "tw_records s" "tw_pendingBaseSeq s" "[0..<n]" None] b(1) rec by (auto simp: c)
  have st: "ps_status (ss' ! i) = 0 \<longleftrightarrow> lo + i \<notin> ks" if "i < n" for i
    using arg_cong [OF ss(2), of "\<lambda>xs. xs ! i"] ss(1) that by auto
  show ?thesis
  proof (rule that [OF b(2)])
    show "fb_reported \<lparr>fb_sender = sender, fb_media = media, fb_base = tw_pendingBaseSeq s,
        fb_reference = (of_int (cdiv ref' kRefTimeResolutionUs) AND 0x00FFFFFF), fb_number = tw_fbPacketCount s,
        fb_entries = map fb_entry ss'\<rparr> = (\<lambda>k. b + of_nat k) ` ks" (is "?l = ?r")
    proof -
      have "?l = (\<lambda>i. b + of_nat (lo + i)) ` {i. i < n \<and> lo + i \<in> ks}"
        unfolding fb_reported_def setcompr_eq_image
        by (rule image_cong) (use st ss(1) in \<open>auto simp: fb_entry_status at simp del: of_nat_add\<close>)
      also have "\<dots> = (\<lambda>k. b + of_nat k) ` ((\<lambda>i. lo + i) ` {i. i < n \<and> lo + i \<in> ks})" by (simp only: image_image)
      also have "(\<lambda>i. lo + i) ` {i. i < n \<and> lo + i \<in> ks} = ks"
      proof (intro equalityI subsetI)
        fix k assume "k \<in> ks"
        with m' [of k] show "k \<in> (\<lambda>i. lo + i) ` {i. i < n \<and> lo + i \<in> ks}"
          by (intro image_eqI [of _ _ "k - lo"]) (auto simp: n_def)
      qed auto
      finally show ?thesis .
    qed
    have "\<not> tp_received (tw_clear (tw_pendingBaseSeq s) [0..<n] (tw_records s) ! idx)" if idx: "idx < kRingSize" for idx
    proof -
      obtain j where j: "j < 2048" "ring_index (b + of_nat j) = idx" using ring_index_surj [OF idx] by blast
      have "tp_received (tw_records s ! idx) \<longleftrightarrow> j \<in> ks" using h j by (auto simp: tw_holds_def)
      moreover have "\<exists>i \<in> set [0..<n]. ring_index (tw_pendingBaseSeq s + of_nat i) = idx" if "j \<in> ks"
        unfolding at using m' [OF that] j(2) by (intro bexI [of _ "j - lo"]) (auto simp: n_def)
      ultimately show ?thesis
        using h idx clear_nth(2) [of idx "tw_records s" "tw_pendingBaseSeq s" "[0..<n]"]
        by (auto simp: tw_holds_def tp_empty_def)
    qed
    moreover have "tw_pendingBaseSeq s + tw_count s = tw_pendingEndSeq s"
      using \<open>tw_count s = of_nat n\<close> m by (simp add: base n_def of_nat_diff)
    ultimately show "tw_clean (snd ?build)"
      using h unfolding b(3) c(1) by (simp add: tw_clean_def tw_holds_def clear_nth(1) list_all_length)
  qed simp_all
qed


section \<open>Accuracy of the reported times\<close>

text \<open>The arrival times a feedback packet describes, in microseconds; \<open>None\<close> for a packet not received.\<close>

fun fb_times :: "int \<Rightarrow> (u8 \<times> int) list \<Rightarrow> int option list" where
  "fb_times t [] = []"
| "fb_times t ((s, d) # es) =
     (if s = 0 then None # fb_times t es else Some (t + 250 * d) # fb_times (t + 250 * d) es)"

text \<open>Arrivals that never go back and never pause for longer than a one-byte delta can say.\<close>

fun steady :: "int \<Rightarrow> int list \<Rightarrow> bool" where
  "steady t [] \<longleftrightarrow> True"
| "steady t (a # as) \<longleftrightarrow> t \<le> a \<and> a - t < 64000 \<and> steady a as"

text \<open>The error of each reported time: below 250 microseconds for each packet so far.\<close>

fun close_times :: "int \<Rightarrow> int list \<Rightarrow> int option list \<Rightarrow> bool" where
  "close_times e [] [] \<longleftrightarrow> True"
| "close_times e (a # as) (t # ts) \<longleftrightarrow>
     (case t of None \<Rightarrow> False | Some u \<Rightarrow> 0 \<le> a - u \<and> a - u < e) \<and> close_times (e + 250) as ts"
| "close_times e _ _ \<longleftrightarrow> False"


lemma small_delta:
  assumes "0 \<le> x" "x < 64000"
  shows "fb_entry (tw_classify (cdiv x kTimeResolutionUs)) = (1, x div 250)"
proof -
  have d: "cdiv x kTimeResolutionUs = x div 250" using assms by (simp add: kTimeResolutionUs_def cdiv_nonneg)
  have r: "0 \<le> x div 250" "x div 250 \<le> 255" using assms by (simp_all add: pos_imp_zdiv_nonneg_iff)
  have "uint (ucast (of_int (x div 250) :: u16) :: u8) = x div 250"
    using r by (simp add: unsigned_ucast_eq unsigned_of_int take_bit_int_eq_self)
  with r show ?thesis by (simp add: d tw_classify_def kSmallDeltaMaxUnits_def fb_entry_def)
qed

lemma div_error: "x = 250 * (x div 250) + x mod (250 :: int)" "0 \<le> x mod 250" "x mod 250 < (250 :: int)"
  by simp_all

lemma scan_times:
  assumes "steady prev (map (\<lambda>i. tp_arrival_time_us (rs ! ring_index (base + of_nat i))) is)"
    and "\<forall>i \<in> set is. tp_received (rs ! ring_index (base + of_nat i))"
    and "0 \<le> prev - u" "prev - u < e"
  shows "close_times (e + 250) (map (\<lambda>i. tp_arrival_time_us (rs ! ring_index (base + of_nat i))) is)
    (fb_times u (map fb_entry (fst (tw_scan rs base is (Some (ref, prev))))))"
  using assms
proof (induction "is" arbitrary: prev u e)
  case (Cons i "is")
  define a where "a = tp_arrival_time_us (rs ! ring_index (base + of_nat i))"
  have rec: "tp_received (rs ! ring_index (base + of_nat i))" using Cons.prems(2) by simp
  have st: "prev \<le> a" "a - prev < 64000" using Cons.prems(1) by (simp_all add: a_def)
  define u' where "u' = u + 250 * ((a - prev) div 250)"
  have err: "0 \<le> a - u'" "a - u' < e + 250"
    using div_error [of "a - prev"] Cons.prems(3,4) unfolding u'_def by linarith+
  have "close_times (e + 250 + 250) (map (\<lambda>i. tp_arrival_time_us (rs ! ring_index (base + of_nat i))) is)
      (fb_times u' (map fb_entry (fst (tw_scan rs base is (Some (ref, a))))))"
    by (rule Cons.IH) (use Cons.prems err in \<open>simp_all add: a_def\<close>)
  moreover have "tw_status (rs ! ring_index (base + of_nat i)) (Some (ref, prev)) =
      (tw_classify (cdiv (a - prev) kTimeResolutionUs), Some (ref, a))"
    using rec by (simp add: tw_status_def a_def Let_def)
  moreover have "fb_entry (tw_classify (cdiv (a - prev) kTimeResolutionUs)) = (1, (a - prev) div 250)"
    using st by (intro small_delta) simp_all
  ultimately show ?case
    using err by (simp add: case_prod_beta Let_def a_def [symmetric] u'_def [symmetric])
qed simp

lemma scan_times_start:
  assumes "as = map (\<lambda>i. tp_arrival_time_us (rs ! ring_index (base + of_nat i))) is"
    and "\<forall>i \<in> set is. tp_received (rs ! ring_index (base + of_nat i))" "is \<noteq> []"
    and "0 \<le> hd as" "steady (hd as) as" "tw_scan rs base is None = (ss, Some (ref, prev))"
  shows "ref = hd as div 64000 * 64000 \<and> close_times 250 as (fb_times ref (map fb_entry ss))"
proof -
  obtain i js where i: "is = i # js" using assms(3) by (cases "is") auto
  define a where "a = tp_arrival_time_us (rs ! ring_index (base + of_nat i))"
  have as: "hd as = a" "as = a # map (\<lambda>i. tp_arrival_time_us (rs ! ring_index (base + of_nat i))) js"
    by (simp_all add: assms(1) i a_def)
  define r0 where "r0 = a div 64000 * 64000"
  have a0: "0 \<le> a" using assms(4) as by simp
  have r0: "0 \<le> a - r0" "a - r0 < 64000"
    using a0 pos_mod_sign [of 64000 a] pos_mod_bound [of 64000 a] unfolding r0_def minus_div_mult_eq_mod by simp_all
  have "cdiv a kRefTimeResolutionUs * kRefTimeResolutionUs = r0"
    using a0 by (simp add: cdiv_nonneg kRefTimeResolutionUs_def r0_def)
  moreover have "tp_received (rs ! ring_index (base + of_nat i))" using assms(2) by (simp add: i)
  ultimately have st: "tw_status (rs ! ring_index (base + of_nat i)) None =
      (tw_classify (cdiv (a - r0) kTimeResolutionUs), Some (r0, a))"
    by (simp add: tw_status_def a_def Let_def)
  define u where "u = r0 + 250 * ((a - r0) div 250)"
  have err: "0 \<le> a - u" "a - u < 250" using div_error [of "a - r0"] unfolding u_def by linarith+
  have "close_times (250 + 250) (map (\<lambda>i. tp_arrival_time_us (rs ! ring_index (base + of_nat i))) js)
      (fb_times u (map fb_entry (fst (tw_scan rs base js (Some (r0, a))))))"
    by (rule scan_times) (use assms(2,5) as i err in simp_all)
  moreover have "ss = fst (tw_scan rs base is None)" "Some (ref, prev) = snd (tw_scan rs base is None)"
    using assms(6) by simp_all
  moreover have "\<exists>q. snd (tw_scan rs base ks (Some (r0, c))) = Some (r0, q)" for ks c
    by (induction ks arbitrary: c) (auto simp: case_prod_beta Let_def tw_status_def)
  from this [of js a] obtain q where "snd (tw_scan rs base js (Some (r0, a))) = Some (r0, q)" by blast
  ultimately show ?thesis
    using err small_delta [OF r0] by (simp add: i as st case_prod_beta Let_def u_def [symmetric] r0_def [symmetric])
qed


section \<open>Finding the transport sequence number\<close>

text \<open>The elements of a one-byte header extension, and the sequence number a reader should find.\<close>

datatype ext = Pad | Element u8 bytes

fun ext_bytes :: "ext list \<Rightarrow> bytes" where
  "ext_bytes [] = []"
| "ext_bytes (Pad # es) = 0 # ext_bytes es"
| "ext_bytes (Element eid d # es) = (push_bit 4 eid OR of_nat (length d - 1)) # d @ ext_bytes es"

fun wf_ext :: "ext \<Rightarrow> bool" where
  "wf_ext Pad \<longleftrightarrow> True"
| "wf_ext (Element eid d) \<longleftrightarrow> 1 \<le> eid \<and> eid \<le> 14 \<and> 1 \<le> length d \<and> length d \<le> 16"

fun ext_sequence :: "u8 \<Rightarrow> ext list \<Rightarrow> u16 option" where
  "ext_sequence i [] = None"
| "ext_sequence i (Pad # es) = ext_sequence i es"
| "ext_sequence i (Element eid d # es) = (if eid = i \<and> 2 \<le> length d then Some (be16 d 0) else ext_sequence i es)"

lemma element_byte:
  assumes "1 \<le> eid" "eid \<le> (14 :: u8)" "m < 16"
  shows "drop_bit 4 (push_bit 4 eid OR of_nat m) AND 15 = eid" "(push_bit 4 eid OR of_nat m) AND 15 = (of_nat m :: u8)"
    "push_bit 4 eid OR of_nat m \<noteq> (0 :: u8)"
proof -
  have e: "eid AND mask 4 = eid" using and_mask_id [of eid 4] assms(2) by (simp add: word_le_nat_alt)
  have m: "(of_nat m :: u8) AND mask 4 = of_nat m" using and_mask_id [of "of_nat m :: u8" 4] assms(3) by (simp add: unat_of_nat)
  have eb: "bit eid k \<Longrightarrow> k < 4" for k using e by (metis bit_and_iff bit_mask_iff)
  have mb: "bit (of_nat m :: u8) k \<Longrightarrow> k < 4" for k using m by (metis bit_and_iff bit_mask_iff)
  have d: "drop_bit 4 (push_bit 4 eid OR of_nat m) AND mask 4 = eid"
  proof (rule bit_word_eqI)
    fix k assume "k < LENGTH(8)"
    show "bit (drop_bit 4 (push_bit 4 eid OR of_nat m) AND mask 4) k = bit eid k"
      using eb [of k] mb [of "4 + k"] by (auto simp: bit_simps)
  qed
  then show "drop_bit 4 (push_bit 4 eid OR of_nat m) AND 15 = eid" by (simp add: mask_eq_exp_minus_1)
  have "(push_bit 4 eid OR of_nat m) AND mask 4 = (of_nat m :: u8)"
  proof (rule bit_word_eqI)
    fix k assume "k < LENGTH(8)"
    show "bit ((push_bit 4 eid OR of_nat m) AND mask 4) k = bit (of_nat m :: u8) k"
      using mb [of k] by (auto simp: bit_simps)
  qed
  then show "(push_bit 4 eid OR of_nat m) AND 15 = (of_nat m :: u8)" by (simp add: mask_eq_exp_minus_1)
  show "push_bit 4 eid OR of_nat m \<noteq> (0 :: u8)"
  proof
    assume "push_bit 4 eid OR of_nat m = (0 :: u8)"
    with d have "eid = 0" by simp
    with assms(1) show False by simp
  qed
qed

lemma elements_find:
  "list_all wf_ext es \<Longrightarrow> 1 \<le> i \<Longrightarrow> i \<le> 14 \<Longrightarrow> e = length pre + length (ext_bytes es) \<Longrightarrow>
    tw_elements (pre @ ext_bytes es @ post) i (length pre) e = ext_sequence i es"
proof (induction es arbitrary: pre rule: ext_bytes.induct)
  case 1
  then show ?case by (subst tw_elements.simps) simp
next
  case (2 es)
  have "tw_elements ((pre @ [0]) @ ext_bytes es @ post) i (length (pre @ [0])) e = ext_sequence i es"
    by (rule "2.IH") (use "2.prems" in simp_all)
  then show ?case using "2.prems"(4) by (subst tw_elements.simps) simp
next
  case (3 eid d es)
  have d: "1 \<le> eid" "eid \<le> 14" "length d - 1 < 16" "1 \<le> length d" "length d \<le> 16" using "3.prems" by auto
  obtain byte where byte: "byte = (push_bit 4 eid OR of_nat (length d - 1) :: u8)" by blast
  note b = element_byte [OF d(1-3), folded byte]
  have len: "unat ((byte AND 15) + 1) = length d"
    unfolding b(2) using d by (simp add: of_nat_diff unat_of_nat)
  have ne: "eid \<noteq> 15" using d(2) by auto
  have "be16 ((pre @ [byte]) @ d @ ext_bytes es @ post) (length (pre @ [byte]) + 0) = be16 (d @ ext_bytes es @ post) 0"
    by (rule be16_append)
  moreover have "be16 (d @ ext_bytes es @ post) 0 = be16 d 0" if two: "2 \<le> length d"
  proof -
    obtain x y z where "d = x # y # z" using two by (metis Suc_le_length_iff numeral_2_eq_2)
    then show ?thesis by (simp add: be16_def)
  qed
  ultimately have r: "2 \<le> length d \<Longrightarrow> be16 (pre @ byte # d @ ext_bytes es @ post) (Suc (length pre)) = be16 d 0" by simp
  have "tw_elements ((pre @ byte # d) @ ext_bytes es @ post) i (length (pre @ byte # d)) e = ext_sequence i es"
    by (rule "3.IH") (use "3.prems" in simp_all)
  then show ?case
    using "3.prems"(4) b(1,3) ne r len unfolding ext_bytes.simps byte [symmetric]
    by (subst tw_elements.simps) (simp add: nth_append Let_def)
qed

lemma parse_transport:
  assumes "length hdr = 12 + 4 * unat (hdr ! 0 AND 15)" "drop_bit 6 (hdr ! 0) AND 3 = 2" "hdr ! 0 AND 16 \<noteq> 0"
    and "list_all wf_ext es" "length (ext_bytes es) = 4 * n" "n < 65536" "1 \<le> i" "i \<le> 14"
  shows "tw_ParseTransportSequence (Some (hdr @ put_be16 0xBEDE @ put_be16 (of_nat n) @ ext_bytes es @ payload)) i =
    ext_sequence i es"
proof -
  define b where "b = hdr @ put_be16 0xBEDE @ put_be16 (of_nat n) @ ext_bytes es @ payload"
  define pre where "pre = hdr @ put_be16 0xBEDE @ put_be16 (of_nat n)"
  have hdr0: "b ! 0 = hdr ! 0" using assms(1) by (simp add: b_def nth_append)
  have pre: "b = pre @ ext_bytes es @ payload" "length pre = length hdr + 4" by (simp_all add: b_def pre_def)
  have "be16 b (length hdr) = 0xBEDE" by (rule be16_at) (simp add: b_def)
  moreover have "be16 b (length hdr + 2) = of_nat n" by (rule be16_at) (simp add: b_def)
  moreover have "unat (of_nat n :: u16) = n" using assms(6) by (simp add: unat_of_nat)
  moreover have "12 + unat (b ! 0 AND 15) * 4 = length hdr" using assms(1) hdr0 by simp
  moreover have "tw_elements b i (length hdr + 4) (length hdr + 4 + n * 4) = ext_sequence i es"
    using elements_find [OF assms(4,7,8), of "length hdr + 4 + n * 4" pre payload] assms(5) pre by simp
  moreover have "12 \<le> length b" "length hdr + 4 + n * 4 \<le> length b" using assms(1,5) by (simp_all add: b_def)
  moreover have "\<not> i > 14" "i \<noteq> 0" using assms(7,8) by auto
  ultimately show ?thesis
    using assms(2,3) hdr0 unfolding b_def [symmetric] by (simp add: tw_ParseTransportSequence_def Let_def)
qed

text \<open>Four packets 249 microseconds apart, across the wrap of the sequence numbers.\<close>

definition twcc_example :: twcc where
  "twcc_example = tw_packets 65534 [(0, 1000000, 1000), (1, 1000249, 1000), (2, 1000498, 1000), (3, 1000747, 1000)] tw_init"

lemma twcc_example_state:
  "tw_hasPending twcc_example" "tw_pendingBaseSeq twcc_example = 65534" "tw_pendingEndSeq twcc_example = 2"
  "tw_count twcc_example = 4" "tw_fbPacketCount twcc_example = 0"
  by (simp_all add: twcc_example_def tw_packets_def tw_OnPacket_def tw_init_def Let_def tw_count_def)

lemma twcc_example_records:
  "tw_records twcc_example ! ring_index (65534 + of_nat 0) = \<lparr>tp_arrival_time_us = 1000000, tp_packet_size = 1000, tp_received = True\<rparr>"
  "tw_records twcc_example ! ring_index (65534 + of_nat 1) = \<lparr>tp_arrival_time_us = 1000249, tp_packet_size = 1000, tp_received = True\<rparr>"
  "tw_records twcc_example ! ring_index (65534 + of_nat 2) = \<lparr>tp_arrival_time_us = 1000498, tp_packet_size = 1000, tp_received = True\<rparr>"
  "tw_records twcc_example ! ring_index (65534 + of_nat 3) = \<lparr>tp_arrival_time_us = 1000747, tp_packet_size = 1000, tp_received = True\<rparr>"
  by (simp_all add: twcc_example_def tw_packets_def tw_OnPacket_def tw_init_def Let_def ring_index_def kRingSize_def nth_list_update)

lemma upt4: "[0..<4] = [0, 1, 2, 3 :: nat]"
  by (simp add: upt_rec)

lemma twcc_example_scan:
  "tw_scan (tw_records twcc_example) 65534 [0..<4] None =
    ([\<lparr>ps_status = 1, ps_delta_units = 160\<rparr>, \<lparr>ps_status = 1, ps_delta_units = 0\<rparr>,
      \<lparr>ps_status = 1, ps_delta_units = 0\<rparr>, \<lparr>ps_status = 1, ps_delta_units = 0\<rparr>], Some (960000, 1000747))"
  unfolding upt4 tw_scan.simps twcc_example_records
  by (simp add: tw_status_def tw_classify_def cdiv_def kRefTimeResolutionUs_def kTimeResolutionUs_def
      kSmallDeltaMaxUnits_def Let_def)

lemma twcc_example_built: "fst (tw_BuildFeedbackPacket 1 7 twcc_example) \<noteq> []"
  by (simp add: tw_BuildFeedbackPacket_def twcc_example_state twcc_example_scan Let_def tw_packet_def case_prod_beta)

text \<open>Deltas are taken from the true previous arrival, so the remainders add up: four packets 249
  microseconds apart are reported as four simultaneous arrivals.\<close>

lemma twcc_drift_example:
  "map_option (\<lambda>r. fb_times (64000 * uint (fb_reference r)) (fb_entries r))
     (fb_decode (fst (tw_BuildFeedbackPacket 1 7 twcc_example))) =
   Some [Some 1000000, Some 1000000, Some 1000000, Some 1000000]"
  by (rule build_cases [OF prod.collapse [symmetric] twcc_example_built])
    (simp add: twcc_example_state twcc_example_scan fb_entry_def kRefTimeResolutionUs_def cdiv_def)

section \<open>Properties\<close>



text \<open>C30: nothing is lost and nothing is invented: packets received in any order, all within 512
  sequence numbers, are reported by the next feedback packet, which reports exactly these, across
  the wrap of the numbers too; afterwards the receiver is as empty as before.\<close>

theorem twcc_reports_exactly:
  assumes "tw_clean s" "ps \<noteq> []" "list_all (\<lambda>x. fst x < 512) ps"
  shows "let (p, s') = tw_BuildFeedbackPacket sender media (tw_packets b ps s) in
    tw_clean s' \<and> map_option fb_reported (fb_decode p) = Some ((\<lambda>x. b + of_nat (fst x)) ` set ps)"
proof -
  have "tw_holds b (fst ` set ps) (tw_packets b ps s)"
    using assms by (intro holds_batch) (auto simp: list_all_iff)
  from holds_build [OF this, of sender media] show ?thesis
    by (auto simp: case_prod_beta image_image)
qed

lemma clean_init: "tw_clean tw_init"
  by (simp add: tw_clean_def tw_init_def tp_empty_def list_all_length)

theorem twcc_reports_exactly_witness:
  "map_option fb_reported (fb_decode (fst (tw_BuildFeedbackPacket 1 7 twcc_example))) = Some {65534, 65535, 0, 1}"
proof -
  let ?ps = "[(0 :: nat, 1000000 :: int, 1000 :: u16), (1, 1000249, 1000), (2, 1000498, 1000), (3, 1000747, 1000)]"
  have "map_option fb_reported (fb_decode (fst (tw_BuildFeedbackPacket 1 7 (tw_packets 65534 ?ps tw_init)))) =
      Some ((\<lambda>x. 65534 + of_nat (fst x)) ` set ?ps)"
    using twcc_reports_exactly [OF clean_init, of ?ps 1 7 65534] by (auto simp: case_prod_beta)
  moreover have "(\<lambda>x. 65534 + of_nat (fst x)) ` set ?ps = {65534, 65535, 0, 1 :: u16}"
  proof -
    have w: "(65536 :: u16) = 0" "(65537 :: u16) = 1" by (simp_all add: word_uint_eq_iff)
    have "(\<lambda>x. 65534 + of_nat (fst x)) ` set ?ps = {65534, 65535, 65536, 65537 :: u16}" by simp
    then show ?thesis unfolding w .
  qed
  ultimately show ?thesis by (simp only: twcc_example_def)
qed

text \<open>The reported arrival times are close: when every number of the range was received, the
  arrivals never go back and never pause for 64 ms, the time the packet describes for its n-th
  entry is never late and early by less than n * 250 microseconds. (The bound grows because each
  delta is rounded down against the true previous arrival; the example reaches it.)\<close>

theorem twcc_times_close:
  assumes "tw_BuildFeedbackPacket sender media s = (p, s')" "p \<noteq> []"
    and "as = map (\<lambda>i. tp_arrival_time_us (tw_records s ! ring_index (tw_pendingBaseSeq s + of_nat i))) [0..<unat (tw_count s)]"
    and "list_all (\<lambda>i. tp_received (tw_records s ! ring_index (tw_pendingBaseSeq s + of_nat i))) [0..<unat (tw_count s)]"
    and "steady (hd as) as" "0 \<le> hd as" "hd as < 2 ^ 24 * 64000"
  shows "\<exists>r. fb_decode p = Some r \<and> close_times 250 as (fb_times (64000 * uint (fb_reference r)) (fb_entries r))"
proof -
  obtain ss ref prev where b: "tw_scan (tw_records s) (tw_pendingBaseSeq s) [0..<unat (tw_count s)] None = (ss, Some (ref, prev))"
    "fb_decode p = Some \<lparr>fb_sender = sender, fb_media = media, fb_base = tw_pendingBaseSeq s,
      fb_reference = (of_int (cdiv ref kRefTimeResolutionUs) AND 0x00FFFFFF), fb_number = tw_fbPacketCount s,
      fb_entries = map fb_entry ss\<rparr>"
    using build_cases [OF assms(1,2)] by metis
  have "[0..<unat (tw_count s)] \<noteq> []" using b(1) by (metis tw_scan.simps(1) option.distinct(1) prod.inject)
  from scan_times_start [OF assms(3) _ this assms(6,5) b(1)] assms(4)
  have t: "ref = hd as div 64000 * 64000" "close_times 250 as (fb_times ref (map fb_entry ss))"
    unfolding list_all_iff by blast+
  define q where "q = hd as div 64000"
  have q: "0 \<le> q" "q < 2 ^ 24" using assms(6,7) unfolding q_def by (simp_all add: pos_imp_zdiv_nonneg_iff)
  have "cdiv ref kRefTimeResolutionUs = q"
    using q(1) by (simp add: t(1) q_def [symmetric] kRefTimeResolutionUs_def cdiv_nonneg)
  moreover have "uint ((of_int q :: u32) AND mask 24) = q"
    using q by (simp add: unsigned_take_bit_eq unsigned_of_int take_bit_int_eq_self flip: take_bit_eq_mask)
  ultimately have "64000 * uint ((of_int (cdiv ref kRefTimeResolutionUs) :: u32) AND 0x00FFFFFF) = ref"
    by (simp add: mask_eq_exp_minus_1 t(1) q_def)
  with b t show ?thesis by (simp add: mult.commute)
qed

theorem twcc_times_close_witness:
  "\<exists>r. fb_decode (fst (tw_BuildFeedbackPacket 1 7 twcc_example)) = Some r \<and>
     close_times 250 [1000000, 1000249, 1000498, 1000747] (fb_times (64000 * uint (fb_reference r)) (fb_entries r))"
  by (rule twcc_times_close [OF prod.collapse [symmetric] twcc_example_built])
    (simp_all add: twcc_example_state upt4 twcc_example_records [simplified])

text \<open>The transport sequence number is found: in every RTP packet with a one-byte header
  extension made of padding and elements of 1 to 16 bytes, whatever follows it, the parser returns
  the first two bytes of the first element with the wanted id that holds at least two.\<close>

theorem twcc_parse_finds:
  assumes "length hdr = 12 + 4 * unat (hdr ! 0 AND 15)" "drop_bit 6 (hdr ! 0) AND 3 = 2" "hdr ! 0 AND 16 \<noteq> 0"
    and "list_all wf_ext es" "length (ext_bytes es) = 4 * n" "n < 65536" "1 \<le> i" "i \<le> 14"
  shows "tw_ParseTransportSequence (Some (hdr @ put_be16 0xBEDE @ put_be16 (of_nat n) @ ext_bytes es @ payload)) i =
    ext_sequence i es"
  using parse_transport [OF assms] .

theorem twcc_parse_finds_witness:
  "tw_ParseTransportSequence (Some ([0x90, 0x60, 3, 0xE8, 0, 1, 0x5F, 0x90, 0x12, 0x34, 0x56, 0x78] @ put_be16 0xBEDE @
     put_be16 (of_nat 1) @ ext_bytes [Element 3 [5, 0x39], Pad] @ [0xAA])) 3 = Some 1337"
  by (subst twcc_parse_finds) (simp_all add: be16_def)

end
