(* ===== verification/EnhancedRtcp.thy ===== *)
theory EnhancedRtcp
  imports Floats Twcc
begin

text \<open>
  \<open>src/shared/receiver/rtc/enhanced_rtcp_session.{h,cpp}\<close>: the RTCP side of a receiving session.
  It records every RTP packet, and sends receiver reports, bitrate estimates (REMB), transport-wide
  feedback and keyframe requests. Each method body is one critical section, so it is one step; the
  messages it hands to the send callback after releasing the mutex are part of its result. The
  session knows \<open>rtc::Message\<close> by its type and bytes; the callback is known by its identity, the
  clock reading and the estimator's current bitrate are arguments. Counters that cannot reach
  \<open>2 ^ 64\<close> are natural numbers, with the subtractions that could wrap written out.
\<close>

section \<open>State\<close>

definition kSeenSize :: nat where
  "kSeenSize = 2048"

record rtcp_session =
  er_stopped :: bool
  er_started :: bool
  er_send :: "nat option"
  er_estimator :: bool
  er_twcc :: twcc
  er_twccId :: u8
  er_firSequence :: u8
  er_ssrc :: u32
  er_lastTimestamp :: u32
  er_clockRate :: u32
  er_base :: nat
  er_highest :: nat
  er_received :: nat
  er_previousExpected :: nat
  er_previousReceived :: nat
  er_seen :: "nat list"
  er_lastArrivalUs :: int
  er_jitter :: rat
  er_srNtp :: u64
  er_srArrivalMs :: int
  er_lastRr :: int
  er_lastRemb :: int
  er_lastTwcc :: int
  er_lastPli :: int

abbreviation seen_empty :: "nat list" where
  "seen_empty \<equiv> replicate kSeenSize (2 ^ 64 - 1)"

definition er_new :: "u32 \<Rightarrow> int \<Rightarrow> rtcp_session" where
  "er_new clockRate nowUs = \<lparr>er_stopped = False, er_started = False, er_send = None, er_estimator = False,
     er_twcc = tw_init, er_twccId = 0, er_firSequence = 0, er_ssrc = 0, er_lastTimestamp = 0,
     er_clockRate = clockRate, er_base = 0, er_highest = 0, er_received = 0, er_previousExpected = 0,
     er_previousReceived = 0, er_seen = seen_empty, er_lastArrivalUs = 0, er_jitter = 0, er_srNtp = 0,
     er_srArrivalMs = -1, er_lastRr = cdiv nowUs 1000, er_lastRemb = cdiv nowUs 1000,
     er_lastTwcc = cdiv nowUs 1000, er_lastPli = -1\<rparr>"

definition er_SetBandwidthEstimator :: "bool \<Rightarrow> rtcp_session \<Rightarrow> rtcp_session" where
  "er_SetBandwidthEstimator v s = s\<lparr>er_estimator := v\<rparr>"

definition er_SetTransportCcExtensionId :: "u8 \<Rightarrow> rtcp_session \<Rightarrow> rtcp_session" where
  "er_SetTransportCcExtensionId id0 s = s\<lparr>er_twccId := id0\<rparr>"

definition er_Stop :: "rtcp_session \<Rightarrow> rtcp_session" where
  "er_Stop s = s\<lparr>er_stopped := True, er_send := None, er_estimator := False\<rparr>"

definition er_resetSource :: "u32 \<Rightarrow> rtcp_session \<Rightarrow> rtcp_session" where
  "er_resetSource ssrc s = s\<lparr>er_ssrc := ssrc, er_started := False, er_seen := seen_empty,
     er_twcc := tw_Reset (er_twcc s), er_base := 0, er_highest := 0, er_received := 0, er_previousExpected := 0,
     er_previousReceived := 0, er_srNtp := 0, er_srArrivalMs := -1, er_jitter := 0\<rparr>"

section \<open>Recording a packet\<close>

definition er_transit :: "int \<Rightarrow> u32 \<Rightarrow> int \<Rightarrow> rat" where
  "er_transit arrivalDelta clockRate timestampDelta =
     fl64 (fl64 (fl64 (fl64 (of_int arrivalDelta) * fl64 (of_int (uint clockRate))) / 1000000) -
       fl64 (of_int timestampDelta))"

definition er_next_jitter :: "rat \<Rightarrow> rat \<Rightarrow> rat" where
  "er_next_jitter jitter transit = fl64 (jitter + fl64 (fl64 (\<bar>transit\<bar> - jitter) / 16))"

definition er_count :: "nat \<Rightarrow> u32 \<Rightarrow> int \<Rightarrow> rtcp_session \<Rightarrow> rtcp_session" where
  "er_count extended ts arrival s =
     s\<lparr>er_seen := (er_seen s)[extended mod kSeenSize := extended], er_received := er_received s + 1,
       er_lastTimestamp := ts, er_lastArrivalUs := arrival\<rparr>"

definition er_record :: "u16 \<Rightarrow> u32 \<Rightarrow> int \<Rightarrow> rtcp_session \<Rightarrow> rtcp_session" where
  "er_record seq ts arrival s =
     (if \<not> er_started s then
        er_count (unat seq) ts arrival (s\<lparr>er_base := unat seq, er_highest := unat seq, er_started := True,
          er_lastTimestamp := ts, er_lastArrivalUs := arrival\<rparr>)
      else
        let delta = sequenceDelta seq (of_nat (er_highest s)) in
        if delta < 0 \<and> nat (- delta) > er_highest s then s
        else
          let extended = (if delta \<ge> 0 then er_highest s + nat delta else er_highest s - nat (- delta)) in
          if extended < er_base s \<or> (er_highest s > extended \<and> er_highest s - extended \<ge> kSeenSize) then s
          else if er_seen s ! (extended mod kSeenSize) = extended then s
          else
            let transit = er_transit (arrival - er_lastArrivalUs s) (er_clockRate s) (wrap_delta ts (er_lastTimestamp s))
            in er_count extended ts arrival
                 (s\<lparr>er_highest := max (er_highest s) extended, er_jitter := er_next_jitter (er_jitter s) transit\<rparr>))"

section \<open>Messages to the sender\<close>

text \<open>\<open>packet(size, type, count)\<close>: the header and the sender SSRC 1.\<close>

definition er_header :: "nat \<Rightarrow> u8 \<Rightarrow> u8 \<Rightarrow> bytes" where
  "er_header size0 type count = [128 OR count, type] @ put_be16 (of_nat (size0 div 4 - 1)) @ put_be32 1"

definition er_rr_delay :: "int \<Rightarrow> int \<Rightarrow> nat" where
  "er_rr_delay now srArrivalMs =
     (if srArrivalMs \<ge> 0 \<and> now \<ge> srArrivalMs then nat (now - srArrivalMs) * 65536 mod 2 ^ 64 div 1000 else 0)"

definition put_be24 :: "nat \<Rightarrow> bytes" where
  "put_be24 v = [of_nat (v div 65536), of_nat (v div 256), of_nat v]"

definition er_lost :: "rtcp_session \<Rightarrow> nat" where
  "er_lost s = (let expected = er_highest s - er_base s + 1 in if expected > er_received s then expected - er_received s else 0)"

definition er_fraction :: "rtcp_session \<Rightarrow> nat" where
  "er_fraction s =
     (let expected = er_highest s - er_base s + 1;
          intervalExpected = size_sub expected (er_previousExpected s);
          intervalReceived = size_sub (er_received s) (er_previousReceived s);
          intervalLost = (if intervalExpected > intervalReceived then intervalExpected - intervalReceived else 0)
      in if intervalExpected \<noteq> 0 then min 255 (intervalLost * 256 div intervalExpected) else 0)"

definition er_report :: "int \<Rightarrow> rtcp_session \<Rightarrow> bytes \<times> rtcp_session" where
  "er_report now s =
     (er_header 32 201 1 @ put_be32 (er_ssrc s) @ [of_nat (er_fraction s)] @
        put_be24 (min 0x7fffff (er_lost s)) @ put_be32 (of_nat (er_highest s)) @
        put_be32 (of_int \<lfloor>min (max (er_jitter s) 0) 4294967295\<rfloor>) @ put_be32 (ucast (drop_bit 16 (er_srNtp s))) @
        put_be32 (of_nat (min 4294967295 (er_rr_delay now (er_srArrivalMs s)))),
      s\<lparr>er_previousExpected := er_highest s - er_base s + 1, er_previousReceived := er_received s\<rparr>)"

function remb_scale :: "nat \<Rightarrow> nat \<Rightarrow> nat \<times> nat" where
  "remb_scale exponent bitrate = (if bitrate > 0x3ffff then remb_scale (exponent + 1) (bitrate div 2) else (exponent, bitrate))"
  by pat_completeness auto
termination by (relation "measure (\<lambda>(e, b). b)") auto

declare remb_scale.simps [simp del]

definition er_remb :: "u32 \<Rightarrow> u32 \<Rightarrow> bytes" where
  "er_remb bitrate ssrc =
     (let (exponent, mantissa) = remb_scale 0 (unat bitrate) in
      er_header 24 206 15 @ put_be32 0 @ str ''REMB'' @
      [1, push_bit 2 (of_nat exponent) OR of_nat (mantissa div 65536), of_nat (mantissa div 256), of_nat mantissa] @
      put_be32 ssrc)"

definition er_feedback :: "int \<Rightarrow> u32 \<Rightarrow> rtcp_session \<Rightarrow> bytes list \<times> rtcp_session" where
  "er_feedback now rate s =
     (if er_ssrc s = 0 \<or> er_stopped s then ([], s)
      else
        let (out1, s1) =
              (if er_started s \<and> now - er_lastRr s \<ge> 500
               then let (m, t) = er_report now s in ([m], t\<lparr>er_lastRr := now\<rparr>) else ([], s));
            (out2, s2) =
              (if er_estimator s1 \<and> now - er_lastRemb s1 \<ge> 1000
               then ([er_remb rate (er_ssrc s1)], s1\<lparr>er_lastRemb := now\<rparr>) else ([], s1));
            (out3, s3) =
              (if er_twccId s2 \<noteq> 0 \<and> (now - er_lastTwcc s2 \<ge> 25 \<or> tw_GetPendingPacketCount (er_twcc s2) \<ge> 16)
               then let (b, t) = tw_BuildFeedbackPacket 1 (er_ssrc s2) (er_twcc s2)
                    in (if b \<noteq> [] then [b] else [], s2\<lparr>er_twcc := t, er_lastTwcc := now\<rparr>)
               else ([], s2))
        in (out1 @ out2 @ out3, s3))"

section \<open>Incoming messages\<close>

datatype message_type = Binary | Control | OtherMessage

type_synonym message = "message_type \<times> bytes"

text \<open>\<open>deliver\<close>: nothing happens without a callback.\<close>

definition er_deliver :: "nat option \<Rightarrow> bytes list \<Rightarrow> (nat \<times> bytes) list" where
  "er_deliver send ms = (case send of None \<Rightarrow> [] | Some c \<Rightarrow> map (Pair c) ms)"

definition er_sender_report :: "int \<Rightarrow> RtcpPacket \<Rightarrow> rtcp_session \<Rightarrow> rtcp_session" where
  "er_sender_report now part s =
     (if rtcp_type part = 200 then
        let source = be32 (rtcp_body part) 4 in
        if er_ssrc s \<noteq> 0 \<and> er_ssrc s \<noteq> source then s
        else s\<lparr>er_ssrc := source, er_srNtp := be64 (rtcp_body part) 8, er_srArrivalMs := cdiv now 1000\<rparr>
      else s)"

definition er_rtp :: "int \<Rightarrow> bytes \<Rightarrow> RtpPacket \<Rightarrow> rtcp_session \<Rightarrow> rtcp_session" where
  "er_rtp now b p s =
     (let s1 = (if er_ssrc s \<noteq> rtp_ssrc p then er_resetSource (rtp_ssrc p) s else s);
          s2 = er_record (rtp_sequence p) (rtp_timestamp p) now s1
      in if er_twccId s2 \<noteq> 0 then
           (case tw_ParseTransportSequence (Some b) (er_twccId s2) of
              None \<Rightarrow> s2
            | Some q \<Rightarrow> s2\<lparr>er_twcc := tw_OnPacket q now (of_nat (length b)) (er_twcc s2)\<rparr>)
         else s2)"

definition er_message :: "int \<Rightarrow> message \<Rightarrow> message list \<times> rtcp_session \<Rightarrow> message list \<times> rtcp_session" where
  "er_message now m os =
     (let (output, s) = os in
      case fst m of
        Binary \<Rightarrow> (case parseRtp (snd m) of None \<Rightarrow> os | Some p \<Rightarrow> (output @ [m], er_rtp now (snd m) p s))
      | Control \<Rightarrow> (case parseRtcp (snd m) of None \<Rightarrow> os
                    | Some parts \<Rightarrow> (output, fold (er_sender_report now) parts s))
      | OtherMessage \<Rightarrow> os)"

definition er_incoming :: "int \<Rightarrow> u32 \<Rightarrow> message list \<Rightarrow> nat option \<Rightarrow> rtcp_session \<Rightarrow>
    message list \<times> (nat \<times> bytes) list \<times> rtcp_session" where
  "er_incoming now rate messages send s =
     (if er_stopped s then ([], [], s)
      else
        let (output, s1) = fold (er_message now) messages ([], s\<lparr>er_send := send\<rparr>);
            (ms, s2) = er_feedback (cdiv now 1000) rate s1
        in (output, er_deliver send ms, s2))"

definition er_FlushFeedback :: "int \<Rightarrow> u32 \<Rightarrow> rtcp_session \<Rightarrow> (nat \<times> bytes) list \<times> rtcp_session" where
  "er_FlushFeedback now rate s =
     (if er_stopped s then ([], s)
      else let (ms, s1) = er_feedback (cdiv now 1000) rate s in (er_deliver (er_send s) ms, s1))"

definition er_requestBitrate :: "u32 \<Rightarrow> nat option \<Rightarrow> rtcp_session \<Rightarrow> bool \<times> (nat \<times> bytes) list \<times> rtcp_session" where
  "er_requestBitrate bitrate send s =
     (if er_stopped s then (False, [], s)
      else (True, er_deliver send (if er_ssrc s \<noteq> 0 then [er_remb bitrate (er_ssrc s)] else []), s\<lparr>er_send := send\<rparr>))"

definition er_pli :: "u32 \<Rightarrow> bytes" where
  "er_pli ssrc = er_header 12 206 1 @ put_be32 ssrc"

definition er_fir :: "u32 \<Rightarrow> u8 \<Rightarrow> bytes" where
  "er_fir ssrc q = er_header 20 206 4 @ put_be32 0 @ put_be32 ssrc @ [q, 0, 0, 0]"

definition er_requestKeyframe :: "int \<Rightarrow> nat option \<Rightarrow> rtcp_session \<Rightarrow> bool \<times> (nat \<times> bytes) list \<times> rtcp_session" where
  "er_requestKeyframe nowUs send s0 =
     (if er_stopped s0 then (False, [], s0)
      else
        let s = s0\<lparr>er_send := send\<rparr>; now = cdiv nowUs 1000 in
        if er_ssrc s \<noteq> 0 \<and> (er_lastPli s < 0 \<or> now - er_lastPli s \<ge> 50) then
          (True, er_deliver send [er_pli (er_ssrc s), er_fir (er_ssrc s) (er_firSequence s)],
           s\<lparr>er_lastPli := now, er_firSequence := er_firSequence s + 1\<rparr>)
        else (True, [], s))"

definition er_RequestKeyframeDirect :: "int \<Rightarrow> rtcp_session \<Rightarrow> (nat \<times> bytes) list \<times> rtcp_session" where
  "er_RequestKeyframeDirect nowUs s =
     (if er_stopped s then ([], s)
      else case er_send s of
        None \<Rightarrow> ([], s)
      | Some c \<Rightarrow> let (_, ms, s1) = er_requestKeyframe nowUs (Some c) s in (ms, s1))"

section \<open>What is counted\<close>

text \<open>
  The set of the accepted extended sequence numbers: the counter is its size, and the ring knows of
  every number of the last 2048 whether it was accepted.
\<close>

definition er_holds :: "nat set \<Rightarrow> rtcp_session \<Rightarrow> bool" where
  "er_holds S s \<longleftrightarrow> er_started s \<and> finite S \<and> card S = er_received s \<and> er_base s \<in> S \<and> er_highest s \<in> S \<and>
     (\<forall>x \<in> S. er_base s \<le> x \<and> x \<le> er_highest s) \<and> er_highest s < 2 ^ 63 \<and> length (er_seen s) = kSeenSize \<and>
     (\<forall>x \<le> er_highest s. er_highest s < x + kSeenSize \<longrightarrow> (er_seen s ! (x mod kSeenSize) = x \<longleftrightarrow> x \<in> S)) \<and>
     (\<forall>i < kSeenSize. er_seen s ! i = 2 ^ 64 - 1 \<or> er_seen s ! i \<in> S)"

lemma kSeenSize_pos [simp]: "0 < kSeenSize"
  by (simp add: kSeenSize_def)

lemma count_fields [simp]:
  "er_started (er_count e ts t s) = er_started s" "er_base (er_count e ts t s) = er_base s"
  "er_highest (er_count e ts t s) = er_highest s" "er_received (er_count e ts t s) = er_received s + 1"
  "er_seen (er_count e ts t s) = (er_seen s)[e mod kSeenSize := e]"
  by (simp_all add: er_count_def)

lemma holds_first_packet:
  assumes "\<not> er_started s" "er_seen s = seen_empty" "er_received s = 0"
  shows "er_holds {unat seq} (er_record seq ts t s)"
proof -
  have q: "unat seq < 65536" using uint_lt2p [of seq] by (simp add: unat_less_uint)
  have u: "unat seq mod kSeenSize < kSeenSize" by simp
  have n: "seen_empty[unat seq mod kSeenSize := unat seq] ! i = unat seq \<longleftrightarrow> i = unat seq mod kSeenSize" if "i < kSeenSize" for i
    using that q by (simp add: nth_list_update)
  have w: "x mod kSeenSize = unat seq mod kSeenSize \<longleftrightarrow> x = unat seq" if "x \<le> unat seq" "unat seq < x + kSeenSize" for x
    using that by (metis add.commute less_diff_conv2 mod_eq_dvd_iff_nat dvd_imp_le diff_is_0_eq le_antisym not_less zero_less_diff)
  have ring: "seen_empty[unat seq mod kSeenSize := unat seq] ! (x mod kSeenSize) = x \<longleftrightarrow> x = unat seq"
    if "x \<le> unat seq" "unat seq < x + kSeenSize" for x
  proof (cases "x = unat seq")
    case False
    then have "x mod kSeenSize \<noteq> unat seq mod kSeenSize" using w that by simp
    then show ?thesis using False that(1) q by (simp add: nth_list_update)
  qed (simp add: u)
  have e: "er_record seq ts t s = er_count (unat seq) ts t (s\<lparr>er_base := unat seq, er_highest := unat seq,
      er_started := True, er_lastTimestamp := ts, er_lastArrivalUs := t\<rparr>)"
    using assms(1) by (simp add: er_record_def)
  show ?thesis
    unfolding e er_holds_def using assms ring q
    by (auto simp: nth_list_update)
qed

lemma sequenceDelta_of_nat:
  assumes "a < b + 32768" "b < a + 32768"
  shows "sequenceDelta (of_nat a) (of_nat b) = int a - int b"
proof (cases "b \<le> a")
  case True
  then have "(of_nat a - of_nat b :: u16) = of_nat (a - b)" by (simp add: of_nat_diff)
  then have u: "unat (of_nat a - of_nat b :: u16) = a - b" using assms by (simp add: unat_of_nat)
  then show ?thesis unfolding sequenceDelta_def Let_def u using assms True by (simp add: of_nat_diff)
next
  case False
  then have l: "b - a < 32768" "0 < b - a" "a < b" using assms by simp_all
  then have e: "(of_nat a - of_nat b :: u16) = of_nat (65536 - (b - a))"
    by (simp add: of_nat_diff word_of_nat_eq_0_iff)
  have u: "unat (of_nat a - of_nat b :: u16) = 65536 - (b - a)" unfolding e by (subst unat_of_nat) (use l in simp)
  show ?thesis unfolding sequenceDelta_def Let_def u using l by (simp add: of_nat_diff)
qed

text \<open>The extended number that a packet has, given the highest one so far.\<close>

lemma record_extends:
  assumes "er_started s" "n < er_highest s + 32768" "er_highest s < n + 32768" "er_base s \<le> n"
  shows "er_record (of_nat n) ts t s =
     (if er_highest s > n \<and> er_highest s - n \<ge> kSeenSize \<or> er_seen s ! (n mod kSeenSize) = n then s
      else er_count n ts t (s\<lparr>er_highest := max (er_highest s) n,
         er_jitter := er_next_jitter (er_jitter s) (er_transit (t - er_lastArrivalUs s) (er_clockRate s)
           (wrap_delta ts (er_lastTimestamp s)))\<rparr>))"
proof -
  have d: "sequenceDelta (of_nat n) (of_nat (er_highest s)) = int n - int (er_highest s)"
    by (rule sequenceDelta_of_nat) (use assms(2,3) in simp_all)
  have "\<not> (int n - int (er_highest s) < 0 \<and> er_highest s < nat (- (int n - int (er_highest s))))" by linarith
  moreover have "(if int n - int (er_highest s) \<ge> 0 then er_highest s + nat (int n - int (er_highest s))
      else er_highest s - nat (- (int n - int (er_highest s)))) = n" by auto
  ultimately show ?thesis
    using assms(1,4) unfolding er_record_def d Let_def by (simp del: not_less) auto
qed

lemma holds_more_packet:
  assumes h: "er_holds S s" and n: "n < er_highest s + 32768" "er_highest s < n + kSeenSize" "er_base s \<le> n" "n < 2 ^ 63"
  shows "er_holds (insert n S) (er_record (of_nat n) ts t s)"
proof -
  let ?m = "kSeenSize" and ?H = "max (er_highest s) n"
  have len: "length (er_seen s) = ?m" and fin: "finite S" and S: "\<forall>x \<in> S. er_base s \<le> x \<and> x \<le> er_highest s"
    and win: "\<And>x. x \<le> er_highest s \<Longrightarrow> er_highest s < x + ?m \<Longrightarrow> er_seen s ! (x mod ?m) = x \<longleftrightarrow> x \<in> S"
    and ent: "\<And>i. i < ?m \<Longrightarrow> er_seen s ! i = 2 ^ 64 - 1 \<or> er_seen s ! i \<in> S"
    using h unfolding er_holds_def by blast+
  have seen: "er_seen s ! (n mod ?m) = n \<longleftrightarrow> n \<in> S"
  proof (cases "n \<le> er_highest s")
    case True
    then show ?thesis using win n(2) by simp
  next
    case False
    then have "n \<notin> S" using S by auto
    moreover have "er_seen s ! (n mod ?m) \<noteq> n" using ent [of "n mod ?m"] \<open>n \<notin> S\<close> n(4) by auto
    ultimately show ?thesis by simp
  qed
  have e: "er_record (of_nat n) ts t s = (if n \<in> S then s
      else er_count n ts t (s\<lparr>er_highest := ?H, er_jitter := er_next_jitter (er_jitter s)
         (er_transit (t - er_lastArrivalUs s) (er_clockRate s) (wrap_delta ts (er_lastTimestamp s)))\<rparr>))"
  proof -
    have st: "er_started s" using h by (simp add: er_holds_def)
    have le: "\<not> (er_highest s > n \<and> er_highest s - n \<ge> ?m)" using n(2) by auto
    have x: "er_highest s < n + 32768" using n(2) by (simp add: kSeenSize_def)
    have c: "(er_highest s > n \<and> er_highest s - n \<ge> ?m \<or> er_seen s ! (n mod ?m) = n) = (n \<in> S)"
      using le seen by blast
    show ?thesis unfolding record_extends [OF st n(1) x n(3)] c ..
  qed
  show ?thesis
  proof (cases "n \<in> S")
    case True
    then show ?thesis using h e by (simp add: insert_absorb)
  next
    case False
    have ring: "(er_seen s)[n mod ?m := n] ! (x mod ?m) = x \<longleftrightarrow> x = n \<or> x \<in> S" if x: "x \<le> ?H" "?H < x + ?m" for x
    proof (cases "x = n")
      case True
      then show ?thesis by (simp add: len)
    next
      case ne: False
      have "x mod ?m \<noteq> n mod ?m"
      proof
        assume "x mod ?m = n mod ?m"
        then have "?m dvd (if x \<le> n then n - x else x - n)" using mod_eq_dvd_iff_nat by (metis nat_le_linear)
        moreover have "(if x \<le> n then n - x else x - n) < ?m" using x n(2) by auto
        moreover have "0 < (if x \<le> n then n - x else x - n)" using ne by auto
        ultimately show False using dvd_imp_le not_less by blast
      qed
      then have l: "(er_seen s)[n mod ?m := n] ! (x mod ?m) = er_seen s ! (x mod ?m)" by simp
      show ?thesis
      proof (cases "x \<le> er_highest s")
        case True
        then show ?thesis using win [OF True] x(2) ne by (simp add: l)
      next
        case False
        then have "x \<notin> S" using S by auto
        moreover have "x < 2 ^ 63" using x(1) n(4) h by (auto simp: max_def er_holds_def split: if_splits)
        then have "er_seen s ! (x mod ?m) \<noteq> x" using ent [of "x mod ?m"] \<open>x \<notin> S\<close> by auto
        ultimately show ?thesis using ne by (simp add: l)
      qed
    qed
    have "\<forall>i < ?m. (er_seen s)[n mod ?m := n] ! i = 2 ^ 64 - 1 \<or> (er_seen s)[n mod ?m := n] ! i \<in> insert n S"
      using ent len by (auto simp: nth_list_update)
    then show ?thesis
      using h False fin S n ring unfolding e er_holds_def by (auto simp: max_def)
  qed
qed

text \<open>A source's packets by their extended sequence numbers, none more than 2047 behind the newest.\<close>

fun in_window :: "nat \<Rightarrow> nat \<Rightarrow> nat list \<Rightarrow> bool" where
  "in_window first high [] = True"
| "in_window first high (n # ns) \<longleftrightarrow> first \<le> n \<and> n < high + 32768 \<and> high < n + kSeenSize \<and> n < 2 ^ 63 \<and>
     in_window first (max high n) ns"

definition er_packets :: "(nat \<times> u32 \<times> int) list \<Rightarrow> rtcp_session \<Rightarrow> rtcp_session" where
  "er_packets ps s = fold (\<lambda>(n, ts, t). er_record (of_nat n) ts t) ps s"

lemma record_keeps:
  "er_started s \<Longrightarrow> er_base (er_record q ts t s) = er_base s"
  "er_ssrc (er_record q ts t s) = er_ssrc s"
  "er_previousExpected (er_record q ts t s) = er_previousExpected s"
  "er_previousReceived (er_record q ts t s) = er_previousReceived s"
  by (simp_all add: er_record_def er_count_def Let_def)

lemma packets_hold:
  "er_holds S s \<Longrightarrow> in_window (er_base s) (er_highest s) (map fst ps) \<Longrightarrow>
    er_holds (fst ` set ps \<union> S) (er_packets ps s) \<and> er_base (er_packets ps s) = er_base s \<and>
    er_ssrc (er_packets ps s) = er_ssrc s"
proof (induction ps arbitrary: S s)
  case (Cons p ps)
  obtain n ts t where p: "p = (n, ts, t)" by (metis prod_cases3)
  let ?s = "er_record (of_nat n) ts t s"
  have w: "er_base s \<le> n" "n < er_highest s + 32768" "er_highest s < n + kSeenSize" "n < 2 ^ 63"
    "in_window (er_base s) (max (er_highest s) n) (map fst ps)" using Cons.prems(2) by (simp_all add: p)
  note h = holds_more_packet [OF Cons.prems(1) w(2,3,1,4), of ts t]
  have b: "er_base ?s = er_base s" using Cons.prems(1) by (simp add: record_keeps er_holds_def)
  have "er_highest ?s = max (er_highest s) n"
  proof (rule antisym)
    have "er_highest ?s \<in> insert n S" using h by (simp add: er_holds_def)
    then show "er_highest ?s \<le> max (er_highest s) n" using Cons.prems(1) by (auto simp: er_holds_def)
    have "n \<le> er_highest ?s \<and> er_highest s \<le> er_highest ?s" using h Cons.prems(1) by (simp add: er_holds_def)
    then show "max (er_highest s) n \<le> er_highest ?s" by simp
  qed
  with Cons.IH [OF h] b w(5) show ?case
    by (simp add: er_packets_def p record_keeps insert_commute Un_commute)
qed (simp add: er_packets_def)

lemma holds_lost:
  assumes "er_holds S s"
  shows "er_lost s = card ({er_base s..er_highest s} - S)"
proof -
  have S: "S \<subseteq> {er_base s..er_highest s}" "finite S" "card S = er_received s" "er_base s \<le> er_highest s"
    using assms by (auto simp: er_holds_def)
  have "card ({er_base s..er_highest s} - S) = card {er_base s..er_highest s} - card S"
    using S(1,2) by (rule card_Diff_subset [rotated])
  moreover have "card S \<le> card {er_base s..er_highest s}" using S(1) by (intro card_mono) simp_all
  ultimately show ?thesis using S(3,4) by (simp add: er_lost_def Let_def)
qed

lemma holds_highest: "er_holds S s \<Longrightarrow> er_highest s = Max S"
  by (rule Max_eqI [symmetric]) (auto simp: er_holds_def)

section \<open>The messages read back\<close>

definition control_packet :: "bytes \<Rightarrow> RtcpPacket" where
  "control_packet b = \<lparr>rtcp_body = b, rtcp_type = b ! 1, rtcp_count = b ! 0 AND 31\<rparr>"

lemma parse_control:
  assumes "wf_rtcp (control_packet b)" "length b \<le> 65535"
  shows "parseRtcp b = Some [control_packet b]"
proof -
  have "parse_rtcp_loop ([] @ compound [control_packet b]) (length ([] :: bytes)) [] = Some ([] @ [control_packet b])"
    by (rule parse_rtcp_loop_compound) (use assms(1) in simp_all)
  moreover have "compound [control_packet b] = b" by (simp add: control_packet_def)
  moreover have "length b mod 4 = 0" "b \<noteq> []"
    using compound_length_mod [of "[control_packet b]"] assms(1) by (auto simp: control_packet_def wf_rtcp_def)
  ultimately show ?thesis using assms(2) by (simp add: parseRtcp_def)
qed

lemma header_nth: "er_header z ty k ! 0 = 128 OR k" "er_header z ty k ! 1 = ty" "length (er_header z ty k) = 8"
  by (simp_all add: er_header_def put_be16_def put_be32_def)

lemma header_control:
  assumes "ty \<in> {201, 206}" "k \<in> {1, 4, 15 :: u8}" "length b = z" "z mod 4 = 0" "8 \<le> z" "z < 65536"
    and "take 8 b = er_header z ty k" "rtcp_minimum ty k \<le> z"
  shows "parseRtcp b = Some [\<lparr>rtcp_body = b, rtcp_type = ty, rtcp_count = k\<rparr>]"
proof -
  have n: "b ! i = er_header z ty k ! i" if "i < 8" for i using that by (simp flip: assms(7))
  have "be16 b 2 = be16 (er_header z ty k) 2" using n [of 2] n [of 3] by (simp add: be16_def)
  also have "\<dots> = of_nat (z div 4 - 1)"
    by (rule be16_at [where ys = "put_be32 1"]) (simp add: er_header_def)
  finally have be: "be16 b 2 = of_nat (z div 4 - 1)" .
  have u: "unat (of_nat (z div 4 - 1) :: u16) = z div 4 - 1" using assms(6) by (subst unat_of_nat) simp
  have "z div 4 * 4 = z" using assms(4) by (metis add.right_neutral div_mult_mod_eq)
  then have len: "length b = (unat (be16 b 2) + 1) * 4" using assms(3,5) unfolding be u by simp
  have k: "drop_bit 6 (128 OR k) = 2" "(128 OR k) AND 32 = 0" "(128 OR k) AND 31 = k" using assms(2) by auto
  have c: "control_packet b = \<lparr>rtcp_body = b, rtcp_type = ty, rtcp_count = k\<rparr>"
    using n [of 0] n [of 1] k by (simp add: control_packet_def er_header_def)
  have "wf_rtcp (control_packet b)"
    using len n [of 0] n [of 1] k assms(1,3,8) unfolding c wf_rtcp_def by (auto simp: er_header_def)
  from parse_control [OF this] assms(3,6) show ?thesis unfolding c by simp
qed

lemma bytes24: "v div 65536 * 65536 + v div 256 mod 256 * 256 + v mod 256 = (v :: nat)"
proof -
  have "v div 65536 = v div 256 div 256" by (simp add: div_mult2_eq [symmetric])
  then have "v div 65536 * 65536 + v div 256 mod 256 * 256 = v div 256 * 256"
    using div_mult_mod_eq [of "v div 256" 256] by linarith
  then show ?thesis by (simp only: div_mult_mod_eq)
qed

definition get_be24 :: "bytes \<Rightarrow> nat \<Rightarrow> nat" where
  "get_be24 b p = unat (b ! p) * 65536 + unat (b ! (p + 1)) * 256 + unat (b ! (p + 2))"

lemma get_put_be24: "v < 16777216 \<Longrightarrow> get_be24 (put_be24 v @ ys) 0 = v"
  using bytes24 [of v] by (simp add: get_be24_def put_be24_def unat_of_nat numeral_2_eq_2)

lemma get_be24_at: "drop p b = put_be24 v @ ys \<Longrightarrow> v < 16777216 \<Longrightarrow> get_be24 b p = v"
proof -
  assume d: "drop p b = put_be24 v @ ys" and v: "v < 16777216"
  then have "length (drop p b) \<ge> 3" by (simp add: put_be24_def)
  then have "get_be24 b p = get_be24 (drop p b) 0" by (simp add: get_be24_def add.commute)
  with d get_put_be24 [OF v] show ?thesis by simp
qed

lemma length_put_be24 [simp]: "length (put_be24 v) = 3"
  by (simp add: put_be24_def)

lemma length_header [simp]: "length (er_header z ty k) = 8"
  by (simp add: er_header_def)

lemma report_reads:
  fixes now :: int and s :: rtcp_session
  defines "b \<equiv> fst (er_report now s)"
  shows "parseRtcp b = Some [\<lparr>rtcp_body = b, rtcp_type = 201, rtcp_count = 1\<rparr>]"
    "be32 b 8 = er_ssrc s" "b ! 12 = of_nat (er_fraction s)" "get_be24 b 13 = min 0x7fffff (er_lost s)"
    "be32 b 16 = of_nat (er_highest s)" "be32 b 20 = of_int \<lfloor>min (max (er_jitter s) 0) 4294967295\<rfloor>"
    "be32 b 24 = ucast (drop_bit 16 (er_srNtp s))" "be32 b 28 = of_nat (min 4294967295 (er_rr_delay now (er_srArrivalMs s)))"
proof -
  have d: "drop 8 b = put_be32 (er_ssrc s) @ drop 12 b" "drop 12 b = of_nat (er_fraction s) # drop 13 b"
    "drop 13 b = put_be24 (min 0x7fffff (er_lost s)) @ drop 16 b" "drop 16 b = put_be32 (of_nat (er_highest s)) @ drop 20 b"
    "drop 20 b = put_be32 (of_int \<lfloor>min (max (er_jitter s) 0) 4294967295\<rfloor>) @ drop 24 b"
    "drop 24 b = put_be32 (ucast (drop_bit 16 (er_srNtp s))) @ drop 28 b"
    "drop 28 b = put_be32 (of_nat (min 4294967295 (er_rr_delay now (er_srArrivalMs s)))) @ []"
    "take 8 b = er_header 32 201 1" "length b = 32"
    by (simp_all add: b_def er_report_def)
  show "parseRtcp b = Some [\<lparr>rtcp_body = b, rtcp_type = 201, rtcp_count = 1\<rparr>]"
    by (rule header_control [where z = 32]) (use d(8,9) in \<open>simp_all add: rtcp_minimum_def\<close>)
  show "be32 b 8 = er_ssrc s" "be32 b 16 = of_nat (er_highest s)"
    "be32 b 20 = of_int \<lfloor>min (max (er_jitter s) 0) 4294967295\<rfloor>" "be32 b 24 = ucast (drop_bit 16 (er_srNtp s))"
    "be32 b 28 = of_nat (min 4294967295 (er_rr_delay now (er_srArrivalMs s)))"
    using be32_at [OF d(1)] be32_at [OF d(4)] be32_at [OF d(5)] be32_at [OF d(6)] be32_at [OF d(7)] by simp_all
  have "b ! 12 = drop 12 b ! 0" using d(9) by simp
  then show "b ! 12 = of_nat (er_fraction s)" unfolding d(2) by simp
  show "get_be24 b 13 = min 0x7fffff (er_lost s)" by (rule get_be24_at [OF d(3)]) simp
qed

section \<open>REMB\<close>

lemma remb_scale_spec:
  "remb_scale e b = (e', m) \<Longrightarrow> e \<le> e' \<and> m < 262144 \<and> m * 2 ^ (e' - e) \<le> b \<and> b < (m + 1) * 2 ^ (e' - e) \<and>
    (e < e' \<longrightarrow> 131072 \<le> m)"
proof (induction e b rule: remb_scale.induct)
  case (1 e b)
  show ?case
  proof (cases "b > 0x3ffff")
    case False
    with "1.prems" show ?thesis by (subst (asm) remb_scale.simps) auto
  next
    case True
    then have "remb_scale (e + 1) (b div 2) = (e', m)" using "1.prems" by (subst (asm) remb_scale.simps) simp
    note ih = "1.IH" [OF True this]
    obtain k where k: "e' = e + 1 + k" using ih by (metis le_iff_add)
    have p: "(2::nat) ^ (e' - e) = 2 * 2 ^ (e' - (e + 1))" by (simp add: k)
    have "m * (2 * 2 ^ (e' - (e + 1))) \<le> b" "b < (m + 1) * (2 * 2 ^ (e' - (e + 1)))"
      using ih by (simp_all add: algebra_simps) linarith+
    moreover have "131072 \<le> b div 2" using True by simp
    then have "131072 \<le> m" using ih k by (cases "k = 0") simp_all
    ultimately show ?thesis unfolding p using ih by simp
  qed
qed

lemma remb_byte_all:
  "list_all (\<lambda>e. list_all (\<lambda>h. unat (drop_bit 2 (push_bit 2 (of_nat e) OR of_nat h :: u8)) = e \<and>
     unat ((push_bit 2 (of_nat e) OR of_nat h :: u8) AND 3) = h) [0..<4]) [0..<15]"
  by code_simp

lemma remb_byte:
  "e < 15 \<Longrightarrow> h < 4 \<Longrightarrow> unat (drop_bit 2 (push_bit 2 (of_nat e) OR of_nat h :: u8)) = e \<and>
     unat ((push_bit 2 (of_nat e) OR of_nat h :: u8) AND 3) = h"
  using remb_byte_all unfolding list_all_iff by auto

text \<open>The bitrate as the sender of the media reads it.\<close>

definition remb_exponent :: "bytes \<Rightarrow> nat" where
  "remb_exponent b = unat (drop_bit 2 (b ! 17))"

definition remb_mantissa :: "bytes \<Rightarrow> nat" where
  "remb_mantissa b = unat (b ! 17 AND 3) * 65536 + unat (b ! 18) * 256 + unat (b ! 19)"

lemma remb_reads:
  fixes rate ssrc :: u32
  defines "b \<equiv> er_remb rate ssrc"
  shows "parseRtcp b = Some [\<lparr>rtcp_body = b, rtcp_type = 206, rtcp_count = 15\<rparr>]"
    "be32 b 20 = ssrc" "subspan b 12 4 = str ''REMB''"
    "remb_mantissa b * 2 ^ remb_exponent b \<le> unat rate"
    "unat rate < (remb_mantissa b + 1) * 2 ^ remb_exponent b"
    "remb_exponent b \<noteq> 0 \<longrightarrow> 131072 \<le> remb_mantissa b"
proof -
  obtain e m where r: "remb_scale 0 (unat rate) = (e, m)" by fastforce
  note sp = remb_scale_spec [OF r]
  have h: "m div 65536 < 4" using sp by (simp add: less_mult_imp_div_less)
  have "e < 15"
  proof (rule ccontr)
    assume "\<not> e < 15"
    then have "(2::nat) ^ 15 \<le> 2 ^ e" by (intro power_increasing) simp_all
    moreover have "131072 \<le> m" using sp \<open>\<not> e < 15\<close> by simp
    ultimately have "131072 * 2 ^ 15 \<le> m * 2 ^ e" by (rule mult_le_mono [rotated])
    also have "\<dots> \<le> unat rate" using sp by simp
    finally show False using uint_lt2p [of rate] by (simp add: unat_less_uint flip: not_less)
  qed
  note q = remb_byte [OF this h]
  have d: "drop 8 b = [0, 0, 0, 0] @ str ''REMB'' @ [1, push_bit 2 (of_nat e) OR of_nat (m div 65536),
      of_nat (m div 256), of_nat m] @ put_be32 ssrc" "drop 20 b = put_be32 ssrc @ []" "take 8 b = er_header 24 206 15"
    "length b = 24"
    by (simp_all add: b_def er_remb_def r put_be32_def)
  have n: "b ! (8 + i) = drop 8 b ! i" if "i < 16" for i using that d(4) by simp
  have b: "b ! 17 = push_bit 2 (of_nat e) OR of_nat (m div 65536)" "b ! 18 = of_nat (m div 256)" "b ! 19 = of_nat m"
    using n [of 9] n [of 10] n [of 11] unfolding d(1) by simp_all
  have "unat (of_nat (m div 256) :: u8) = m div 256 mod 256" "unat (of_nat m :: u8) = m mod 256"
    by (simp_all add: unat_of_nat)
  then have v: "remb_exponent b = e" "remb_mantissa b = m"
    using q bytes24 [of m] unfolding remb_exponent_def remb_mantissa_def b by simp_all
  show "parseRtcp b = Some [\<lparr>rtcp_body = b, rtcp_type = 206, rtcp_count = 15\<rparr>]"
    by (rule header_control [where z = 24]) (use d(3,4) in \<open>simp_all add: rtcp_minimum_def\<close>)
  show "be32 b 20 = ssrc" by (rule be32_at [OF d(2)])
  have "subspan b 12 4 = take 4 (drop 4 (drop 8 b))" by (simp add: subspan_def)
  then show "subspan b 12 4 = str ''REMB''" unfolding d(1) by simp
  show "remb_mantissa b * 2 ^ remb_exponent b \<le> unat rate" "unat rate < (remb_mantissa b + 1) * 2 ^ remb_exponent b"
    "remb_exponent b \<noteq> 0 \<longrightarrow> 131072 \<le> remb_mantissa b" using sp by (simp_all add: v)
qed

section \<open>Runs\<close>

text \<open>
  Every call, with its clock reading in microseconds. \<open>RequestKeyframeDirect\<close> reads the stored
  callback in one critical section and then calls \<open>requestKeyframe\<close>, another one: between the two
  any other call may happen, so it is a keyframe request with an arbitrary callback.
\<close>

datatype er_op =
    ErIncoming int u32 "message list" "nat option"
  | ErFlush int u32
  | ErBitrate u32 "nat option"
  | ErKeyframe int "nat option"
  | ErEstimator bool
  | ErTwccId u8
  | ErStop

text \<open>The messages that a call sends, with the time of the call in milliseconds.\<close>

fun er_step :: "er_op \<Rightarrow> rtcp_session \<Rightarrow> (int \<times> nat \<times> bytes) list \<times> rtcp_session" where
  "er_step (ErIncoming now rate ms send) s =
     (let (_, es, s') = er_incoming now rate ms send s in (map (Pair (cdiv now 1000)) es, s'))"
| "er_step (ErFlush now rate) s = (let (es, s') = er_FlushFeedback now rate s in (map (Pair (cdiv now 1000)) es, s'))"
| "er_step (ErBitrate b send) s = (let (_, es, s') = er_requestBitrate b send s in (map (Pair 0) es, s'))"
| "er_step (ErKeyframe now send) s = (let (_, es, s') = er_requestKeyframe now send s in (map (Pair (cdiv now 1000)) es, s'))"
| "er_step (ErEstimator v) s = ([], er_SetBandwidthEstimator v s)"
| "er_step (ErTwccId i) s = ([], er_SetTransportCcExtensionId i s)"
| "er_step ErStop s = ([], er_Stop s)"

fun er_run :: "er_op list \<Rightarrow> rtcp_session \<Rightarrow> (int \<times> nat \<times> bytes) list \<times> rtcp_session" where
  "er_run [] s = ([], s)"
| "er_run (i # is) s = (let (es, s1) = er_step i s; (fs, s2) = er_run is s1 in (es @ fs, s2))"

lemma stopped_step: "er_stopped s \<Longrightarrow> fst (er_step i s) = [] \<and> er_stopped (snd (er_step i s))"
  by (cases i) (simp_all add: er_incoming_def er_FlushFeedback_def er_requestBitrate_def er_requestKeyframe_def
      er_SetBandwidthEstimator_def er_SetTransportCcExtensionId_def er_Stop_def)

lemma stopped_run: "er_stopped s \<Longrightarrow> fst (er_run is s) = []"
proof (induction "is" arbitrary: s)
  case (Cons i "is")
  with stopped_step [OF Cons.prems, of i] show ?case by (simp add: case_prod_beta Let_def)
qed simp

text \<open>A picture loss indication: payload-specific feedback of format 1.\<close>

definition is_pli :: "bytes \<Rightarrow> bool" where
  "is_pli b \<longleftrightarrow> b ! 0 = 129 \<and> b ! 1 = 206"

definition pli_times :: "(int \<times> nat \<times> bytes) list \<Rightarrow> int list" where
  "pli_times es = map fst (filter (\<lambda>(t, c, b). is_pli b) es)"

lemma not_pli: "\<not> is_pli (fst (er_report now s))" "\<not> is_pli (er_remb r q)" "\<not> is_pli (er_fir q k)" "is_pli (er_pli q)"
  by (simp_all add: is_pli_def er_report_def er_remb_def er_fir_def er_pli_def er_header_def case_prod_beta Let_def)

lemma twcc_not_pli: "b \<in> set (let (m, t) = tw_BuildFeedbackPacket u q w in if m \<noteq> [] then [m] else []) \<Longrightarrow> \<not> is_pli b"
  by (auto simp: tw_BuildFeedbackPacket_def tw_packet_def is_pli_def Let_def case_prod_beta split: if_splits option.splits)

lemma feedback_quiet:
  assumes "er_feedback now rate s = (ms, s')"
  shows "(\<forall>b \<in> set ms. \<not> is_pli b) \<and> er_lastPli s' = er_lastPli s"
proof -
  have "er_lastPli (snd (er_report now s)) = er_lastPli s" for s by (simp add: er_report_def)
  then show ?thesis
    using assms not_pli(1,2) twcc_not_pli
    by (fastforce simp: er_feedback_def Let_def case_prod_beta split: if_splits)
qed

lemma message_lastPli: "er_lastPli (snd (er_message now m os)) = er_lastPli (snd os)"
proof -
  have f: "er_lastPli (fold (er_sender_report now) parts s) = er_lastPli s" for parts s
    by (induction parts arbitrary: s) (simp_all add: er_sender_report_def Let_def)
  have r: "er_lastPli (er_record q ts t s) = er_lastPli s" for q ts t s
    by (simp add: er_record_def er_count_def Let_def)
  have "er_lastPli (er_rtp now b p s) = er_lastPli s" for b p s
    by (simp add: er_rtp_def Let_def r er_resetSource_def split: option.splits)
  with f show ?thesis by (simp add: er_message_def case_prod_beta split: message_type.splits option.splits)
qed

lemma messages_lastPli: "er_lastPli (snd (fold (er_message now) ms os)) = er_lastPli (snd os)"
  by (induction ms arbitrary: os) (simp_all add: message_lastPli)

lemma deliver_quiet: "\<forall>b \<in> set ms. \<not> is_pli b \<Longrightarrow> pli_times (map (Pair t) (er_deliver send ms)) = []"
  by (auto simp: pli_times_def er_deliver_def filter_empty_conv split: option.splits)

fun er_clock_ok :: "er_op \<Rightarrow> bool" where
  "er_clock_ok (ErIncoming now rate ms send) \<longleftrightarrow> 0 \<le> now"
| "er_clock_ok (ErFlush now rate) \<longleftrightarrow> 0 \<le> now"
| "er_clock_ok (ErKeyframe now send) \<longleftrightarrow> 0 \<le> now"
| "er_clock_ok _ \<longleftrightarrow> True"

text \<open>Times at least 50 ms apart, and after a time that does not count when it is negative.\<close>

fun spaced :: "int \<Rightarrow> int list \<Rightarrow> bool" where
  "spaced l [] = True"
| "spaced l (t # ts) \<longleftrightarrow> (l < 0 \<or> l + 50 \<le> t) \<and> 0 \<le> t \<and> spaced t ts"

lemma spaced_earlier: "spaced l' ts \<Longrightarrow> l < 0 \<or> 0 \<le> l' \<and> l \<le> l' \<Longrightarrow> spaced l ts"
  by (cases ts) auto

lemma spaced_successively: "spaced l ts \<Longrightarrow> successively (\<lambda>a b. a + 50 \<le> b) ts"
proof (induction ts arbitrary: l)
  case (Cons t ts)
  then show ?case by (cases ts) auto
qed simp

lemma pli_step:
  assumes "er_clock_ok i" "er_step i s = (es, s')"
  shows "pli_times es = [] \<and> (er_lastPli s' = er_lastPli s \<or> 0 \<le> er_lastPli s' \<and> er_lastPli s \<le> er_lastPli s') \<or>
    pli_times es = [er_lastPli s'] \<and> 0 \<le> er_lastPli s' \<and> (er_lastPli s < 0 \<or> er_lastPli s + 50 \<le> er_lastPli s')"
proof (cases i)
  case (ErIncoming now rate ms send)
  show ?thesis
  proof (cases "er_stopped s")
    case True
    then show ?thesis using assms(2) ErIncoming by (simp add: er_incoming_def pli_times_def)
  next
    case False
    obtain out s1 where f: "fold (er_message now) ms ([], s\<lparr>er_send := send\<rparr>) = (out, s1)" by fastforce
    obtain fs s2 where g: "er_feedback (cdiv now 1000) rate s1 = (fs, s2)" by fastforce
    have "es = map (Pair (cdiv now 1000)) (er_deliver send fs)" "s' = s2"
      using assms(2) ErIncoming False by (simp_all add: er_incoming_def f g)
    moreover have "er_lastPli s1 = er_lastPli s" using messages_lastPli [of now ms "([], s\<lparr>er_send := send\<rparr>)"] by (simp add: f)
    ultimately show ?thesis using feedback_quiet [OF g] deliver_quiet by simp
  qed
next
  case (ErFlush now rate)
  obtain fs s2 where g: "er_feedback (cdiv now 1000) rate s = (fs, s2)" by fastforce
  show ?thesis using assms(2) ErFlush feedback_quiet [OF g] deliver_quiet [of fs]
    by (auto simp: er_FlushFeedback_def g pli_times_def split: if_splits)
next
  case (ErBitrate b send)
  have "pli_times (map (Pair 0) (er_deliver send (if er_ssrc s \<noteq> 0 then [er_remb b (er_ssrc s)] else []))) = []"
    by (rule deliver_quiet) (simp add: not_pli)
  then show ?thesis using assms(2) ErBitrate
    by (auto simp: er_requestBitrate_def pli_times_def split: if_splits)
next
  case (ErKeyframe now send)
  then have "0 \<le> cdiv now 1000" using assms(1) by (simp add: cdiv_nonneg)
  then show ?thesis using assms(2) ErKeyframe not_pli(3,4)
    by (cases send) (auto simp: er_requestKeyframe_def pli_times_def er_deliver_def Let_def split: if_splits)
qed (use assms in \<open>auto simp: er_SetBandwidthEstimator_def er_SetTransportCcExtensionId_def er_Stop_def pli_times_def\<close>)

lemma pli_times_append: "pli_times (es @ fs) = pli_times es @ pli_times fs"
  by (simp add: pli_times_def)

lemma pli_run: "list_all er_clock_ok is \<Longrightarrow> spaced (er_lastPli s) (pli_times (fst (er_run is s)))"
proof (induction "is" arbitrary: s)
  case (Cons i "is")
  obtain es s1 where st: "er_step i s = (es, s1)" by fastforce
  obtain fs s2 where r: "er_run is s1 = (fs, s2)" by fastforce
  have "spaced (er_lastPli s1) (pli_times fs)" using Cons.IH [of s1] Cons.prems by (simp add: r)
  moreover have "er_clock_ok i" using Cons.prems by simp
  note pli_step [OF this st]
  ultimately show ?case by (auto simp: st r pli_times_append intro: spaced_earlier)
qed (simp add: pli_times_def)

section \<open>Properties\<close>

text \<open>C40: the receiver report tells the truth: after any packets of one source, in any order and with
  any duplicates as long as none is more than 2047 numbers behind the newest, the report parses as
  one RTCP receiver report for the source whose highest sequence number is the highest received,
  whose cumulative loss is the number of sequence numbers since the first packet that never
  arrived, and whose first loss fraction is their share in 256ths.\<close>

theorem er_report_truthful:
  fixes ps :: "(nat \<times> u32 \<times> int) list" and n :: nat and ts :: u32 and t :: int
  assumes "n < 65536" "in_window n n (map fst ps)"
    and "er_report now (er_packets ((n, ts, t) # ps) (er_resetSource ssrc s)) = (b, s')"
  shows "let got = insert n (fst ` set ps); missing = card ({n..Max got} - got) in
    parseRtcp b = Some [\<lparr>rtcp_body = b, rtcp_type = 201, rtcp_count = 1\<rparr>] \<and> be32 b 8 = ssrc \<and>
    be32 b 16 = of_nat (Max got) \<and> get_be24 b 13 = min 0x7fffff missing \<and>
    b ! 12 = of_nat (min 255 (missing * 256 div (Max got - n + 1)))"
proof -
  let ?fresh = "er_resetSource ssrc s" and ?got = "insert n (fst ` set ps)"
  let ?one = "er_record (of_nat n) ts t ?fresh" and ?s = "er_packets ((n, ts, t) # ps) ?fresh"
  have u: "unat (of_nat n :: u16) = n" using assms(1) by (subst unat_of_nat) simp
  have f: "\<not> er_started ?fresh" "er_seen ?fresh = seen_empty" "er_received ?fresh = 0" by (simp_all add: er_resetSource_def)
  note h1 = holds_first_packet [OF f, of "of_nat n" ts t, unfolded u]
  then have e1: "er_base ?one = n" "er_highest ?one = n" by (auto simp: er_holds_def)
  have p: "?s = er_packets ps ?one" by (simp add: er_packets_def)
  have h: "er_holds ?got ?s \<and> er_base ?s = n \<and> er_ssrc ?s = ssrc"
    using packets_hold [OF h1, of ps] assms(2) unfolding e1 p by (simp add: record_keeps er_resetSource_def)
  have pe: "er_previousExpected (er_packets qs x) = er_previousExpected x \<and> er_previousReceived (er_packets qs x) = er_previousReceived x"
    for qs x
    by (induction qs arbitrary: x) (auto simp: er_packets_def record_keeps)
  have z: "er_previousExpected ?s = 0" "er_previousReceived ?s = 0" using pe by (simp_all add: er_resetSource_def)
  have hi: "er_highest ?s = Max ?got" using holds_highest h by blast
  have lost: "er_lost ?s = card ({n..Max ?got} - ?got)" using holds_lost [of ?got ?s] h hi by simp
  have "er_fraction ?s = min 255 (er_lost ?s * 256 div (Max ?got - n + 1))"
    using h by (simp add: er_fraction_def er_lost_def Let_def z hi)
  moreover have b: "b = fst (er_report now ?s)" using assms(3) by simp
  moreover note rr = report_reads [of now ?s, folded b]
  ultimately have "b ! 12 = of_nat (min 255 (card ({n..Max ?got} - ?got) * 256 div (Max ?got - n + 1)))"
    unfolding lost by metis
  then show ?thesis unfolding Let_def using rr(1,2,4,5) h hi lost by metis
qed

theorem er_report_truthful_witness:
  "be32 (fst (er_report 700 (er_packets [(65534, 0, 5), (65537, 0, 6), (65536, 0, 7)] (er_resetSource 7 (er_new 90000 0))))) 16
     = 65537 \<and>
   get_be24 (fst (er_report 700 (er_packets [(65534, 0, 5), (65537, 0, 6), (65536, 0, 7)] (er_resetSource 7 (er_new 90000 0))))) 13
     = 1"
proof -
  let ?ps = "[(65537, 0, 6), (65536, 0, 7)] :: (nat \<times> u32 \<times> int) list"
  have m: "Max {65534, 65537, 65536 :: nat} = 65537" by simp
  have "{65534..65537 :: nat} - {65534, 65537, 65536} = {65535}" by auto
  then have c: "card ({65534..65537 :: nat} - {65534, 65537, 65536}) = 1" by simp
  obtain b s' where r: "er_report 700 (er_packets ((65534, 0, 5) # ?ps) (er_resetSource 7 (er_new 90000 0))) = (b, s')"
    by fastforce
  have w: "in_window 65534 65534 (map fst ?ps)" by (simp add: kSeenSize_def)
  from er_report_truthful [OF _ w r] show ?thesis unfolding r fst_conv by (simp add: Let_def m c)
qed

text \<open>The estimated bitrate survives its 18-bit mantissa: a REMB message for any 32-bit bitrate
  parses as payload-specific feedback of format 15, carries the media SSRC, and decodes to the
  largest value mantissa * 2 ^ exponent not above the bitrate, with all 18 bits in use once the
  exponent is not zero, so it is low by less than one part in 131072.\<close>

theorem er_remb_accurate:
  "let b = er_remb rate ssrc; v = remb_mantissa b * 2 ^ remb_exponent b in
   parseRtcp b = Some [\<lparr>rtcp_body = b, rtcp_type = 206, rtcp_count = 15\<rparr>] \<and> be32 b 20 = ssrc \<and>
   subspan b 12 4 = str ''REMB'' \<and> v \<le> unat rate \<and> 131072 * (unat rate - v) \<le> unat rate"
proof -
  let ?b = "er_remb rate ssrc" and ?m = "remb_mantissa (er_remb rate ssrc)" and ?p = "2 ^ remb_exponent (er_remb rate ssrc) :: nat"
  note r = remb_reads [where rate = rate and ssrc = ssrc]
  have "131072 * (unat rate - ?m * ?p) \<le> unat rate"
  proof (cases "remb_exponent ?b = 0")
    case True
    then show ?thesis using r(4,5) by simp
  next
    case False
    then have "131072 * ?p \<le> ?m * ?p" using r(6) by (intro mult_le_mono1) simp
    moreover have "unat rate - ?m * ?p \<le> ?p" using r(5) by (simp add: algebra_simps)
    then have "131072 * (unat rate - ?m * ?p) \<le> 131072 * ?p" by simp
    ultimately show ?thesis using r(4) by linarith
  qed
  then show ?thesis using r by (simp add: Let_def)
qed

text \<open>A stopped session is silent: after \<open>Stop\<close> no call ever sends a message.\<close>

theorem er_stop_silent:
  "fst (er_run is (er_Stop s)) = []"
  by (rule stopped_run) (simp add: er_Stop_def)

text \<open>Picture loss indications are at least 50 ms apart, whatever calls are made in whatever order,
  on any clock that does not go below zero.\<close>

theorem er_pli_spaced:
  assumes "list_all er_clock_ok is"
  shows "successively (\<lambda>a b. a + 50 \<le> b) (pli_times (fst (er_run is (er_new clockRate nowUs))))"
  by (rule spaced_successively [OF pli_run [OF assms]])

theorem er_pli_spaced_witness:
  "successively (\<lambda>a b. a + 50 \<le> b) (pli_times (fst (er_run
     [ErIncoming 1000 0 [] (Some 1), ErKeyframe 2000 (Some 1), ErKeyframe 30000 (Some 1)] (er_new 90000 0))))"
  by (rule er_pli_spaced) simp

text \<open>The session forwards exactly the RTP packets: of the messages that come in, those and only
  those of type Binary that parse as RTP go on to the application, unchanged and in order.\<close>

theorem er_forwards_rtp:
  assumes "\<not> er_stopped s"
  shows "fst (er_incoming now rate messages send s) = filter (\<lambda>m. fst m = Binary \<and> parseRtp (snd m) \<noteq> None) messages"
proof -
  have "fst (fold (er_message now) ms os) = fst os @ filter (\<lambda>m. fst m = Binary \<and> parseRtp (snd m) \<noteq> None) ms" for ms os
    by (induction ms arbitrary: os)
      (auto simp: er_message_def case_prod_beta Let_def split: message_type.splits option.splits)
  then show ?thesis using assms by (simp add: er_incoming_def case_prod_beta Let_def)
qed

theorem er_forwards_rtp_witness:
  "fst (er_incoming 5 0 [(OtherMessage, [1]), (Binary, [])] None (er_new 90000 0)) =
    filter (\<lambda>m. fst m = Binary \<and> parseRtp (snd m) \<noteq> None) [(OtherMessage, [1]), (Binary, [])]"
  by (rule er_forwards_rtp) (simp add: er_new_def)

end
