(* ===== verification/BandwidthEstimator.thy ===== *)
theory BandwidthEstimator
  imports Floats
begin

text \<open>
  \<open>src/shared/receiver/rtc/bandwidth_estimator.{h,cpp}\<close>: the estimate of the available bitrate,
  additive increase and multiplicative decrease over windows of received packets. Every method is
  one step on the state (the atomics are read and written with no other method in between; the
  evaluation holds a mutex). Integers have their width, the two \<open>float\<close> factors and the loss ratio
  are rounded as \<open>float\<close>s. A division by zero is the result \<open>None\<close>.
\<close>

section \<open>Configuration and state\<close>

record BandwidthEstimatorConfig =
  bc_minBitrateBps :: u32
  bc_maxBitrateBps :: u32
  bc_startBitrateBps :: u32
  bc_windowDurationMs :: int
  bc_lossThresholdDecrease :: rat

definition default_config :: BandwidthEstimatorConfig where
  "default_config = \<lparr>bc_minBitrateBps = 1000000, bc_maxBitrateBps = 2800000, bc_startBitrateBps = 2500000,
     bc_windowDurationMs = 1000, bc_lossThresholdDecrease = fl32 (4 / 100)\<rparr>"

record estimator =
  bw_currentBitrateEstimateBps :: u32
  bw_measuredThroughputBps :: u32
  bw_currentLossRatio :: rat
  bw_windowStartTimeMs :: int
  bw_lastEvaluationTimeMs :: int
  bw_windowBytesReceived :: u64
  bw_windowPacketsReceived :: u32
  bw_windowPacketsLost :: u32
  bw_hasLastSeq :: bool
  bw_lastSeqNum :: u16
  bw_consecutiveCleanWindows :: u32

definition bw_init :: "BandwidthEstimatorConfig \<Rightarrow> estimator" where
  "bw_init c = \<lparr>bw_currentBitrateEstimateBps = bc_startBitrateBps c, bw_measuredThroughputBps = 0,
     bw_currentLossRatio = 0, bw_windowStartTimeMs = 0, bw_lastEvaluationTimeMs = 0, bw_windowBytesReceived = 0,
     bw_windowPacketsReceived = 0, bw_windowPacketsLost = 0, bw_hasLastSeq = False, bw_lastSeqNum = 0,
     bw_consecutiveCleanWindows = 0\<rparr>"

section \<open>Operations\<close>

definition bw_Reset :: "BandwidthEstimatorConfig \<Rightarrow> estimator \<Rightarrow> estimator" where
  "bw_Reset c s = s\<lparr>bw_currentBitrateEstimateBps := bc_startBitrateBps c, bw_measuredThroughputBps := 0,
     bw_currentLossRatio := 0, bw_windowStartTimeMs := 0, bw_lastEvaluationTimeMs := 0, bw_windowBytesReceived := 0,
     bw_windowPacketsReceived := 0, bw_windowPacketsLost := 0, bw_hasLastSeq := False, bw_lastSeqNum := 0,
     bw_consecutiveCleanWindows := 0\<rparr>"

definition bw_OnRtpPacketReceived :: "u64 \<Rightarrow> u16 \<Rightarrow> int \<Rightarrow> estimator \<Rightarrow> estimator" where
  "bw_OnRtpPacketReceived packetSize seqNum arrivalTimeMs s =
     (let s1 = (if bw_windowStartTimeMs s = 0 then s\<lparr>bw_windowStartTimeMs := arrivalTimeMs\<rparr> else s);
          diff = seqNum - bw_lastSeqNum s1;
          s2 = (if bw_hasLastSeq s1 then
                  if diff > 1 \<and> diff < 3000
                  then s1\<lparr>bw_windowPacketsLost := bw_windowPacketsLost s1 + (ucast diff - 1)\<rparr> else s1
                else s1\<lparr>bw_hasLastSeq := True\<rparr>)
      in s2\<lparr>bw_lastSeqNum := seqNum, bw_windowPacketsReceived := bw_windowPacketsReceived s2 + 1,
           bw_windowBytesReceived := bw_windowBytesReceived s2 + packetSize\<rparr>)"

text \<open>\<open>static_cast<uint32_t>(current * factor)\<close>, where the factor is a \<open>float\<close> literal.\<close>

definition bw_scale :: "u32 \<Rightarrow> rat \<Rightarrow> u32" where
  "bw_scale current factor = of_int \<lfloor>fl32 (fl32 (of_int (uint current)) * fl32 factor)\<rfloor>"

definition bw_OnLossEventDetected :: "BandwidthEstimatorConfig \<Rightarrow> estimator \<Rightarrow> estimator" where
  "bw_OnLossEventDetected c s =
     s\<lparr>bw_currentBitrateEstimateBps := max (bc_minBitrateBps c) (bw_scale (bw_currentBitrateEstimateBps s) (85 / 100)),
       bw_consecutiveCleanWindows := 0\<rparr>"

definition bw_loss_ratio :: "u32 \<Rightarrow> u32 \<Rightarrow> rat" where
  "bw_loss_ratio lost totalPackets =
     (if totalPackets > 0 then fl32 (fl32 (of_int (uint lost)) / fl32 (of_int (uint totalPackets))) else 0)"

text \<open>The end of a window.\<close>

definition bw_adapt :: "BandwidthEstimatorConfig \<Rightarrow> rat \<Rightarrow> estimator \<Rightarrow> estimator" where
  "bw_adapt c lossRatio s =
     (let curEst = bw_currentBitrateEstimateBps s in
      if lossRatio \<ge> bc_lossThresholdDecrease c then
        s\<lparr>bw_currentBitrateEstimateBps := max (bc_minBitrateBps c) (bw_scale curEst (80 / 100)),
          bw_consecutiveCleanWindows := 0\<rparr>
      else if lossRatio = 0 then
        let cleanCount = bw_consecutiveCleanWindows s + 1; s1 = s\<lparr>bw_consecutiveCleanWindows := cleanCount\<rparr>
        in if sint cleanCount \<ge> 2
           then s1\<lparr>bw_currentBitrateEstimateBps := min (bc_maxBitrateBps c) (curEst + 100000)\<rparr> else s1
      else s)"

definition bw_close_window :: "BandwidthEstimatorConfig \<Rightarrow> int \<Rightarrow> int \<Rightarrow> estimator \<Rightarrow> estimator option" where
  "bw_close_window c now elapsed s =
     (if (of_int elapsed :: u64) = 0 then None
      else
        let throughput = ucast (bw_windowBytesReceived s * 8 * 1000 div of_int elapsed);
            lossRatio = bw_loss_ratio (bw_windowPacketsLost s) (bw_windowPacketsReceived s + bw_windowPacketsLost s);
            s1 = s\<lparr>bw_windowBytesReceived := 0, bw_windowPacketsReceived := 0, bw_windowPacketsLost := 0,
                   bw_measuredThroughputBps := throughput, bw_currentLossRatio := lossRatio\<rparr>
        in Some ((bw_adapt c lossRatio s1)\<lparr>bw_windowStartTimeMs := now, bw_lastEvaluationTimeMs := now\<rparr>))"

text \<open>The result, the value written to the out parameter (none when it is left alone), the state.\<close>

definition bw_EvaluateEstimation :: "BandwidthEstimatorConfig \<Rightarrow> int \<Rightarrow> estimator \<Rightarrow>
    (bool \<times> u32 option \<times> estimator) option" where
  "bw_EvaluateEstimation c now s =
     (if bw_windowStartTimeMs s = 0 then
        Some (False, Some (bw_currentBitrateEstimateBps s),
          s\<lparr>bw_windowStartTimeMs := now, bw_lastEvaluationTimeMs := now\<rparr>)
      else
        let elapsed = now - bw_windowStartTimeMs s in
        if elapsed \<ge> bc_windowDurationMs c then
          (case bw_close_window c now elapsed s of
             None \<Rightarrow> None
           | Some s' \<Rightarrow> Some (True, Some (bw_currentBitrateEstimateBps s'), s'))
        else if now - bw_lastEvaluationTimeMs s \<ge> 1000 then
          Some (True, Some (bw_currentBitrateEstimateBps s), s\<lparr>bw_lastEvaluationTimeMs := now\<rparr>)
        else Some (False, None, s))"

definition bw_GetCurrentEstimatedBitrate :: "estimator \<Rightarrow> u32" where
  "bw_GetCurrentEstimatedBitrate s = bw_currentBitrateEstimateBps s"

datatype bw_op = BwPacket u64 u16 int | BwLoss | BwEvaluate int | BwReset

fun bw_step :: "BandwidthEstimatorConfig \<Rightarrow> bw_op \<Rightarrow> estimator \<Rightarrow> estimator option" where
  "bw_step c (BwPacket n q t) s = Some (bw_OnRtpPacketReceived n q t s)"
| "bw_step c BwLoss s = Some (bw_OnLossEventDetected c s)"
| "bw_step c (BwEvaluate t) s = map_option (\<lambda>(_, _, s'). s') (bw_EvaluateEstimation c t s)"
| "bw_step c BwReset s = Some (bw_Reset c s)"

fun bw_run :: "BandwidthEstimatorConfig \<Rightarrow> bw_op list \<Rightarrow> estimator \<Rightarrow> estimator option" where
  "bw_run c [] s = Some s"
| "bw_run c (i # is) s = (case bw_step c i s of None \<Rightarrow> None | Some s' \<Rightarrow> bw_run c is s')"

section \<open>Scaling\<close>

lemma mult_error:
  fixes a b c f :: rat
  assumes "\<bar>a - c\<bar> \<le> c / 16777216" "\<bar>b - f\<bar> \<le> f / 16777216" "0 \<le> c" "0 \<le> f"
  shows "c * f * (1 - 2 / 16777216) \<le> a * b" "a * b \<le> c * f * (1 + 3 / 16777216)"
proof -
  have a: "c * (1 - 1 / 16777216) \<le> a" "a \<le> c * (1 + 1 / 16777216)" using assms(1) unfolding abs_le_iff by (simp_all add: field_simps)
  have b: "f * (1 - 1 / 16777216) \<le> b" "b \<le> f * (1 + 1 / 16777216)" using assms(2) unfolding abs_le_iff by (simp_all add: field_simps)
  have p: "0 \<le> c * (1 - 1 / 16777216)" "0 \<le> f * (1 - 1 / 16777216)" using assms(3,4) by simp_all
  then have q: "0 \<le> a" "0 \<le> b" using a b by linarith+
  have cf: "0 \<le> c * f" using assms(3,4) by simp
  have "c * f * (1 - 2 / 16777216) \<le> c * f * ((1 - 1 / 16777216) * (1 - 1 / 16777216))"
    using cf by (intro mult_left_mono) simp_all
  also have "\<dots> = (c * (1 - 1 / 16777216)) * (f * (1 - 1 / 16777216))" by (simp only: ac_simps)
  also have "\<dots> \<le> a * b" using a b p q by (intro mult_mono)
  finally show "c * f * (1 - 2 / 16777216) \<le> a * b" .
  have "a * b \<le> (c * (1 + 1 / 16777216)) * (f * (1 + 1 / 16777216))" using a b q assms(3) by (intro mult_mono) simp_all
  also have "\<dots> = c * f * ((1 + 1 / 16777216) * (1 + 1 / 16777216))" by (simp only: ac_simps)
  also have "\<dots> \<le> c * f * (1 + 3 / 16777216)" using cf by (intro mult_left_mono) simp_all
  finally show "a * b \<le> c * f * (1 + 3 / 16777216)" .
qed

lemma uint_of_floor:
  assumes "0 \<le> r" "r < 4294967296"
  shows "uint (of_int \<lfloor>r :: rat\<rfloor> :: u32) = \<lfloor>r\<rfloor>"
proof -
  have "\<lfloor>r\<rfloor> < 4294967296" "0 \<le> \<lfloor>r\<rfloor>" using assms by (simp_all add: floor_less_iff)
  then show ?thesis by (simp add: uint_word_of_int_eq take_bit_eq_mod)
qed

lemma bw_scale_close:
  fixes x :: u32
  assumes f: "1 / 2 \<le> f" "f \<le> 9 / 10"
  defines "c \<equiv> of_int (uint x) :: rat"
  shows "of_int (uint (bw_scale x f)) \<le> f * c * (1 + 5 / 16777216)"
    "f * c * (1 - 4 / 16777216) - 1 \<le> of_int (uint (bw_scale x f))"
    "bw_scale x f \<le> x"
proof -
  have all: "of_int (uint (bw_scale x f)) \<le> f * c * (1 + 5 / 16777216) \<and>
    f * c * (1 - 4 / 16777216) - 1 \<le> of_int (uint (bw_scale x f))"
  proof (cases "uint x = 0")
    case True
    then show ?thesis by (simp add: c_def bw_scale_def)
  next
    case False
    have x: "1 \<le> uint x" using False uint_ge_0 [of x] by linarith
    have c: "1 \<le> c" "c < 4294967296"
      using x uint_lt2p [of x] unfolding c_def by (simp_all only: of_int_1_le_iff of_int_less_numeral_iff) simp
    have a: "\<bar>fl32 c - c\<bar> \<le> c / 16777216" using c by (intro fl32_error) simp
    have b: "\<bar>fl32 f - f\<bar> \<le> f / 16777216" using f by (intro fl32_error) simp
    note m = mult_error [OF a b]
    let ?p = "fl32 c * fl32 f" and ?r = "fl32 (fl32 c * fl32 f)"
    have cf: "1 / 2 \<le> c * f" using c(1) f mult_mono [of 1 c "1/2" f] by simp
    have p: "c * f * (1 - 2 / 16777216) \<le> ?p" "?p \<le> c * f * (1 + 3 / 16777216)" using m c f by simp_all
    then have "1 / 4 \<le> ?p" using cf by simp
    then have "\<bar>?r - ?p\<bar> \<le> ?p / 16777216" by (intro fl32_error) simp
    then have r: "c * f * (1 - 4 / 16777216) \<le> ?r" "?r \<le> c * f * (1 + 5 / 16777216)"
      using p cf unfolding abs_le_iff by (simp_all add: field_simps)
    have "c * f \<le> c * (9 / 10)" using f(2) c(1) by (intro mult_left_mono) simp_all
    then have "?r < 4294967296" "0 \<le> ?r" using r cf c(2) by simp_all
    then have "uint (bw_scale x f) = \<lfloor>?r\<rfloor>" unfolding bw_scale_def c_def [symmetric] by (intro uint_of_floor)
    moreover have "of_int \<lfloor>?r\<rfloor> \<le> c * f * (1 + 5 / 16777216)" by (rule order_trans [OF of_int_floor_le r(2)])
    moreover have "?r - 1 \<le> of_int \<lfloor>?r\<rfloor>" by linarith
    then have "c * f * (1 - 4 / 16777216) - 1 \<le> of_int \<lfloor>?r\<rfloor>" using r(1) by linarith
    ultimately show ?thesis by (simp only: mult.commute [of f c] simp_thms)
  qed
  then show "of_int (uint (bw_scale x f)) \<le> f * c * (1 + 5 / 16777216)"
    "f * c * (1 - 4 / 16777216) - 1 \<le> of_int (uint (bw_scale x f))" by simp_all
  have "0 \<le> c" unfolding c_def by (simp only: of_int_0_le_iff uint_ge_0)
  then have "f * c * (1 + 5 / 16777216) \<le> 9 / 10 * c * (1 + 5 / 16777216)" using f by (intro mult_right_mono) simp_all
  also have "\<dots> \<le> c" using \<open>0 \<le> c\<close> by simp
  finally have "of_int (uint (bw_scale x f)) \<le> c" using all by simp
  then show "bw_scale x f \<le> x" unfolding c_def of_int_le_iff word_le_def .
qed

section \<open>The estimate stays in its range\<close>

definition config_ok :: "BandwidthEstimatorConfig \<Rightarrow> bool" where
  "config_ok c \<longleftrightarrow> bc_minBitrateBps c \<le> bc_startBitrateBps c \<and> bc_startBitrateBps c \<le> bc_maxBitrateBps c \<and>
     uint (bc_maxBitrateBps c) + 100000 < 2 ^ 32 \<and> 0 < bc_windowDurationMs c"

definition in_range :: "BandwidthEstimatorConfig \<Rightarrow> estimator \<Rightarrow> bool" where
  "in_range c s \<longleftrightarrow> bc_minBitrateBps c \<le> bw_currentBitrateEstimateBps s \<and> bw_currentBitrateEstimateBps s \<le> bc_maxBitrateBps c"

lemma scale_in_range:
  "in_range c s \<Longrightarrow> f = 85 / 100 \<or> f = 80 / 100 \<Longrightarrow>
    in_range c (s\<lparr>bw_currentBitrateEstimateBps := max (bc_minBitrateBps c) (bw_scale (bw_currentBitrateEstimateBps s) f)\<rparr>)"
  using bw_scale_close(3) [of f "bw_currentBitrateEstimateBps s"]
  by (auto simp: in_range_def max_def intro: order_trans)

lemma increase_in_range:
  assumes "config_ok c" "in_range c s"
  shows "in_range c (s\<lparr>bw_currentBitrateEstimateBps := min (bc_maxBitrateBps c) (bw_currentBitrateEstimateBps s + 100000)\<rparr>)"
proof -
  have "uint (bw_currentBitrateEstimateBps s) \<le> uint (bc_maxBitrateBps c)" using assms(2) by (simp add: in_range_def word_le_def)
  then have "uint (bw_currentBitrateEstimateBps s + 100000) = uint (bw_currentBitrateEstimateBps s) + uint (100000 :: u32)"
    using assms(1) by (intro uint_add_lem [THEN iffD1]) (simp add: config_ok_def)
  then show ?thesis using assms by (auto simp: in_range_def config_ok_def min_def word_le_def)
qed

lemma in_range_cong: "bw_currentBitrateEstimateBps s' = bw_currentBitrateEstimateBps s \<Longrightarrow> in_range c s' \<longleftrightarrow> in_range c s"
  by (simp add: in_range_def)

lemma adapt_in_range: "config_ok c \<Longrightarrow> in_range c s \<Longrightarrow> in_range c (bw_adapt c r s)"
  using scale_in_range [of c s "80 / 100"] increase_in_range [of c s]
  by (auto simp: bw_adapt_def Let_def in_range_def)

lemma close_window_in_range:
  assumes "config_ok c" "in_range c s" "bc_windowDurationMs c \<le> elapsed" "elapsed < 2 ^ 64"
  shows "\<exists>s'. bw_close_window c now elapsed s = Some s' \<and> in_range c s'"
proof -
  have "(of_int elapsed :: u64) \<noteq> 0"
    using assms(1,3,4) by (simp add: config_ok_def word_uint_eq_iff uint_word_of_int_eq take_bit_eq_mod)
  moreover have "in_range c s1 \<Longrightarrow> in_range c ((bw_adapt c r s1)\<lparr>bw_windowStartTimeMs := now, bw_lastEvaluationTimeMs := now\<rparr>)"
    for r s1
    using adapt_in_range [OF assms(1)] by (simp add: in_range_def)
  ultimately show ?thesis using assms(2) by (simp add: bw_close_window_def Let_def in_range_def)
qed

text \<open>Times are \<open>int64_t\<close>, and no difference of two leaves the type.\<close>

definition time_ok :: "int \<Rightarrow> bool" where
  "time_ok t \<longleftrightarrow> \<bar>t\<bar> < 2 ^ 62"

fun bw_op_ok :: "bw_op \<Rightarrow> bool" where
  "bw_op_ok (BwPacket n q t) \<longleftrightarrow> time_ok t"
| "bw_op_ok (BwEvaluate t) \<longleftrightarrow> time_ok t"
| "bw_op_ok _ \<longleftrightarrow> True"

definition times_small :: "estimator \<Rightarrow> bool" where
  "times_small s \<longleftrightarrow> time_ok (bw_windowStartTimeMs s)"

lemma evaluate_in_range:
  assumes "config_ok c" "in_range c s" "times_small s" "time_ok now"
  shows "\<exists>b out s'. bw_EvaluateEstimation c now s = Some (b, out, s') \<and> in_range c s' \<and> times_small s' \<and>
    (out \<noteq> None \<longrightarrow> out = Some (bw_currentBitrateEstimateBps s'))"
proof -
  let ?e = "now - bw_windowStartTimeMs s"
  have e: "?e < 2 ^ 64" using assms(3,4) by (simp add: times_small_def time_ok_def)
  have w: "bw_close_window c now ?e s = Some s' \<Longrightarrow> bw_windowStartTimeMs s' = now" for s'
    by (auto simp: bw_close_window_def Let_def split: if_splits)
  show ?thesis
  proof (cases "bw_windowStartTimeMs s = 0 \<or> \<not> bc_windowDurationMs c \<le> ?e")
    case True
    then show ?thesis using assms(2-4)
      by (auto simp: bw_EvaluateEstimation_def Let_def times_small_def in_range_def)
  next
    case False
    then obtain s' where "bw_close_window c now ?e s = Some s'" "in_range c s'"
      using close_window_in_range [OF assms(1,2) _ e] by blast
    then show ?thesis using False w assms(4) by (auto simp: bw_EvaluateEstimation_def Let_def times_small_def)
  qed
qed

lemma bw_step_in_range:
  assumes "config_ok c" "in_range c s" "times_small s" "bw_op_ok i"
  shows "\<exists>s'. bw_step c i s = Some s' \<and> in_range c s' \<and> times_small s'"
proof (cases i)
  case (BwPacket n q t)
  with assms show ?thesis by (auto simp: bw_OnRtpPacketReceived_def Let_def in_range_def times_small_def)
next
  case BwLoss
  then show ?thesis using assms scale_in_range [OF assms(2), of "85 / 100"]
    by (simp add: bw_OnLossEventDetected_def in_range_def times_small_def)
next
  case (BwEvaluate t)
  with evaluate_in_range [OF assms(1,2,3), of t] assms(4) show ?thesis by force
next
  case BwReset
  with assms show ?thesis by (auto simp: bw_Reset_def config_ok_def in_range_def times_small_def time_ok_def)
qed

lemma bw_run_in_range:
  "config_ok c \<Longrightarrow> in_range c s \<Longrightarrow> times_small s \<Longrightarrow> list_all bw_op_ok is \<Longrightarrow>
    \<exists>s'. bw_run c is s = Some s' \<and> in_range c s' \<and> times_small s'"
proof (induction "is" arbitrary: s)
  case (Cons i "is")
  then obtain s1 where "bw_step c i s = Some s1" "in_range c s1" "times_small s1"
    using bw_step_in_range [of c s i] by auto
  with Cons show ?case by simp
qed simp

section \<open>Losses of an in-order stream\<close>

text \<open>The packets of a stream: sequence numbers extended beyond 16 bits, with sizes and times.\<close>

definition packets_of :: "(nat \<times> u64 \<times> int) list \<Rightarrow> estimator \<Rightarrow> estimator" where
  "packets_of ps s = fold (\<lambda>(n, size0, t). bw_OnRtpPacketReceived size0 (of_nat n) t) ps s"

lemma packet_counts:
  assumes "bw_hasLastSeq s" "bw_lastSeqNum s = of_nat m" "m < n" "n < m + 3000"
  shows "bw_windowPacketsLost (bw_OnRtpPacketReceived size0 (of_nat n) t s) = bw_windowPacketsLost s + of_nat (n - m - 1)"
proof -
  have d: "(of_nat n :: u16) - of_nat m = of_nat (n - m)" using assms(3) by (simp add: of_nat_diff)
  have u: "unat (of_nat (n - m) :: u16) = n - m" using assms(4) by (simp add: unat_of_nat)
  have c: "(ucast (of_nat (n - m) :: u16) :: u32) - 1 = of_nat (n - m - 1)"
  proof -
    have "(ucast (of_nat (n - m) :: u16) :: u32) = of_nat (n - m)"
      using u by (metis of_nat_unat)
    then show ?thesis using assms(3) by (simp add: of_nat_diff)
  qed
  have g: "(of_nat (n - m) :: u16) > 1 \<and> (of_nat (n - m) :: u16) < 3000 \<longleftrightarrow> n - m > 1"
    using assms(3,4) u by (auto simp: word_less_nat_alt)
  have s: "bw_windowPacketsLost (bw_OnRtpPacketReceived size0 v t s) =
      (if v - bw_lastSeqNum s > 1 \<and> v - bw_lastSeqNum s < 3000
       then bw_windowPacketsLost s + (ucast (v - bw_lastSeqNum s) - 1) else bw_windowPacketsLost s)" for v
    using assms(1) by (simp add: bw_OnRtpPacketReceived_def Let_def)
  have z: "\<not> n - m > 1 \<Longrightarrow> n - m - 1 = 0" by simp
  show ?thesis unfolding s assms(2) d g c using z by simp
qed

definition gaps_ok :: "nat list \<Rightarrow> bool" where
  "gaps_ok ns \<longleftrightarrow> successively (\<lambda>m n. m < n \<and> n < m + 3000) ns"

lemma packets_count:
  assumes "bw_hasLastSeq s" "bw_lastSeqNum s = of_nat m" "gaps_ok (m # map fst ps)"
  shows "bw_windowPacketsLost (packets_of ps s) =
      bw_windowPacketsLost s + of_nat (last (m # map fst ps) - m - length ps) \<and>
    bw_windowPacketsReceived (packets_of ps s) = bw_windowPacketsReceived s + of_nat (length ps) \<and>
    m + length ps \<le> last (m # map fst ps)"
  using assms
proof (induction ps arbitrary: s m)
  case Nil
  then show ?case by (simp add: packets_of_def)
next
  case (Cons p ps)
  obtain n size0 t where p: "p = (n, size0, t)" by (metis prod_cases3)
  let ?s = "bw_OnRtpPacketReceived size0 (of_nat n) t s"
  have g: "m < n" "n < m + 3000" "gaps_ok (n # map fst ps)" using Cons.prems(3) by (simp_all add: p gaps_ok_def)
  have s: "bw_hasLastSeq ?s" "bw_lastSeqNum ?s = of_nat n" "bw_windowPacketsReceived ?s = bw_windowPacketsReceived s + 1"
    by (simp_all add: bw_OnRtpPacketReceived_def Let_def)
  note l = packet_counts [OF Cons.prems(1,2) g(1,2), of size0 t]
  note ih = Cons.IH [OF s(1,2) g(3)]
  let ?z = "last (n # map fst ps)"
  have e: "packets_of (p # ps) s = packets_of ps ?s" "last (m # map fst (p # ps)) = ?z"
    by (simp_all add: packets_of_def p)
  have k: "n - m - 1 + (?z - n - length ps) = ?z - m - length (p # ps)" using ih g(1) by simp
  have "bw_windowPacketsLost (packets_of ps ?s) = bw_windowPacketsLost s + of_nat (?z - m - length (p # ps))"
    using ih l unfolding k [symmetric] by (simp add: add.assoc)
  moreover have "m + length (p # ps) \<le> ?z" using ih g(1) by simp
  ultimately show ?case unfolding e using ih s(3) by simp
qed

section \<open>Properties\<close>

text \<open>The bitrate estimate never leaves its range: with a sane configuration (the default is
  one), after any sequence of packets, loss events, evaluations and resets at times of an
  \<open>int64_t\<close>, no evaluation has divided by zero and the estimate is between the configured bounds.\<close>

theorem bw_estimate_bounded:
  assumes "config_ok c" "list_all bw_op_ok is"
  shows "case bw_run c is (bw_init c) of
      None \<Rightarrow> False
    | Some s \<Rightarrow> bc_minBitrateBps c \<le> bw_GetCurrentEstimatedBitrate s \<and> bw_GetCurrentEstimatedBitrate s \<le> bc_maxBitrateBps c"
proof -
  have "in_range c (bw_init c)" "times_small (bw_init c)"
    using assms(1) by (auto simp: in_range_def bw_init_def config_ok_def times_small_def time_ok_def)
  from bw_run_in_range [OF assms(1) this assms(2)] show ?thesis
    by (auto simp: in_range_def bw_GetCurrentEstimatedBitrate_def)
qed

theorem bw_estimate_bounded_witness:
  "config_ok default_config \<and>
   (case bw_run default_config [BwPacket 1200 7 5, BwLoss, BwEvaluate 1005, BwLoss] (bw_init default_config) of
      None \<Rightarrow> False
    | Some s \<Rightarrow> bc_minBitrateBps default_config \<le> bw_GetCurrentEstimatedBitrate s \<and>
        bw_GetCurrentEstimatedBitrate s \<le> bc_maxBitrateBps default_config)"
proof -
  have c: "config_ok default_config" by (simp add: config_ok_def default_config_def)
  from c bw_estimate_bounded [OF c, of "[BwPacket 1200 7 5, BwLoss, BwEvaluate 1005, BwLoss]"] show ?thesis
    by (simp add: time_ok_def)
qed

text \<open>Losses are counted exactly: over packets that arrive in order with fewer than 3000 numbers
  between two of them, across the wrap of the 16-bit numbers too, the window counts every packet
  and exactly the numbers that are missing.\<close>

theorem bw_losses_exact:
  assumes "gaps_ok (map fst ps)" "ps \<noteq> []" "\<not> bw_hasLastSeq s"
  shows "bw_windowPacketsReceived (packets_of ps s) = bw_windowPacketsReceived s + of_nat (length ps) \<and>
    bw_windowPacketsLost (packets_of ps s) =
      bw_windowPacketsLost s + of_nat (fst (last ps) - fst (hd ps) + 1 - length ps)"
proof -
  obtain n size0 t qs where p: "ps = (n, size0, t) # qs" using assms(2) by (metis list.exhaust prod_cases3)
  let ?s = "bw_OnRtpPacketReceived size0 (of_nat n) t s"
  have s: "bw_hasLastSeq ?s" "bw_lastSeqNum ?s = of_nat n" "bw_windowPacketsReceived ?s = bw_windowPacketsReceived s + 1"
    "bw_windowPacketsLost ?s = bw_windowPacketsLost s"
    using assms(3) by (simp_all add: bw_OnRtpPacketReceived_def Let_def)
  have g: "gaps_ok (n # map fst qs)" using assms(1) by (simp add: p)
  have l: "last (n # map fst qs) = fst (last ps)" by (simp add: p last_map)
  note c = packets_count [OF s(1,2) g, unfolded l]
  have "packets_of ps s = packets_of qs ?s" by (simp add: packets_of_def p)
  moreover have "fst (last ps) - n + 1 - length ps = fst (last ps) - n - length qs" by (simp add: p)
  ultimately show ?thesis using c s(3,4) by (simp add: p)
qed

theorem bw_losses_exact_witness:
  "bw_windowPacketsLost (packets_of [(65535, 1200, 5), (65536, 1200, 6), (65540, 900, 7)] (bw_init default_config)) = 3"
  using bw_losses_exact [of "[(65535, 1200, 5), (65536, 1200, 6), (65540, 900, 7)]" "bw_init default_config"]
  by (simp add: gaps_ok_def bw_init_def)

text \<open>Congestion control: an evaluation lowers the estimate to 80 percent, up to the rounding of
  \<open>float\<close>s, exactly when its window closes with at least the threshold of losses, and not below
  the minimum; it raises it, by 100000 and not above the maximum, only when its window and the one
  before had no losses; nothing else changes it.\<close>

theorem bw_evaluate_adapts:
  fixes s :: estimator
  defines "e \<equiv> of_int (uint (bw_currentBitrateEstimateBps s)) :: rat"
  assumes "bw_EvaluateEstimation c now s = Some (b, out, s')"
  shows "let ratio = bw_loss_ratio (bw_windowPacketsLost s) (bw_windowPacketsReceived s + bw_windowPacketsLost s);
      closes = (bw_windowStartTimeMs s \<noteq> 0 \<and> now - bw_windowStartTimeMs s \<ge> bc_windowDurationMs c)
    in if closes \<and> ratio \<ge> bc_lossThresholdDecrease c then
         \<exists>r. bw_currentBitrateEstimateBps s' = max (bc_minBitrateBps c) r \<and>
           \<bar>of_int (uint r) - 4 / 5 * e\<bar> \<le> 1 + e / 4000000
       else if closes \<and> ratio = 0 \<and> sint (bw_consecutiveCleanWindows s + 1) \<ge> 2 then
         bw_currentBitrateEstimateBps s' = min (bc_maxBitrateBps c) (bw_currentBitrateEstimateBps s + 100000)
       else bw_currentBitrateEstimateBps s' = bw_currentBitrateEstimateBps s"
proof -
  let ?x = "bw_currentBitrateEstimateBps s" and ?r = "bw_scale (bw_currentBitrateEstimateBps s) (80 / 100)"
  note sc = bw_scale_close(1,2) [of "80 / 100" ?x, folded e_def]
  have "0 \<le> e" unfolding e_def by (simp only: of_int_0_le_iff uint_ge_0)
  then have r: "\<bar>of_int (uint ?r) - 4 / 5 * e\<bar> \<le> 1 + e / 4000000" using sc unfolding abs_le_iff by simp
  show ?thesis
    using assms(2) r
    by (auto simp: bw_EvaluateEstimation_def bw_close_window_def bw_adapt_def Let_def split: if_splits)
qed

theorem bw_evaluate_adapts_witness:
  "\<exists>s'. bw_EvaluateEstimation default_config 1000 (bw_init default_config) = Some (False, Some 2500000, s') \<and>
    bw_currentBitrateEstimateBps s' = 2500000"
proof -
  obtain s' where e: "bw_EvaluateEstimation default_config 1000 (bw_init default_config) = Some (False, Some 2500000, s')"
    by (simp add: bw_EvaluateEstimation_def bw_init_def default_config_def)
  from bw_evaluate_adapts [OF e] e show ?thesis by (simp add: bw_init_def default_config_def)
qed

end
