(* ===== verification/Json.thy ===== *)
theory Json
  imports Prelude
begin

text \<open>
  \<open>src/shared/km/json.h\<close>: the bounded JSON reader and the string quoter. The reader's
  \<open>position_\<close> is modelled by the input that remains, so \<open>input_[position_]\<close> is its head
  and the end of input is the empty list; \<open>nodes_\<close> is passed along. Every \<open>fail()\<close>
  throws the same exception and becomes \<open>Fail\<close>. The depth limit makes the nesting of
  \<open>value\<close> structural; its two loops take a fuel argument, whose end is the separate outcome
  \<open>NoFuel\<close>, and the fuel they are started with is proved to be enough for every input.
\<close>

abbreviation ch :: "char \<Rightarrow> u8" where
  "ch \<equiv> of_char"

section \<open>Values\<close>

text \<open>An object keeps its members in the order read; \<open>std::map\<close> is only searched by key.\<close>

datatype Value =
    JNull
  | JBool bool
  | JNumber bytes
  | JString bytes
  | JArray "Value list"
  | JObject "(bytes \<times> Value) list"

definition json_at :: "Value \<Rightarrow> bytes \<Rightarrow> Value res" where
  "json_at v name =
     (case v of
        JObject ms \<Rightarrow> (case map_of ms name of
            None \<Rightarrow> Inl (RuntimeError ''missing JSON field'')
          | Some x \<Rightarrow> Inr x)
      | _ \<Rightarrow> Inl (RuntimeError ''expected JSON object''))"

definition json_find :: "Value \<Rightarrow> bytes \<Rightarrow> Value option" where
  "json_find v name = (case v of JObject ms \<Rightarrow> map_of ms name | _ \<Rightarrow> None)"

definition json_string :: "Value \<Rightarrow> bytes res" where
  "json_string v = (case v of JString t \<Rightarrow> Inr t | _ \<Rightarrow> Inl (RuntimeError ''expected JSON string''))"

definition is_digit :: "u8 \<Rightarrow> bool" where
  "is_digit c \<longleftrightarrow> ch (CHR ''0'') \<le> c \<and> c \<le> ch (CHR ''9'')"

definition digits_value :: "bytes \<Rightarrow> nat" where
  "digits_value ds = foldl (\<lambda>n c. n * 10 + (unat c - 48)) 0 ds"

text \<open>\<open>std::from_chars\<close> for \<open>uint32_t\<close> in base 10: the parsed value and the end of the match.\<close>

definition from_chars_u32 :: "bytes \<Rightarrow> (nat \<times> nat) option" where
  "from_chars_u32 s =
     (let ds = takeWhile is_digit s in
      if ds = [] \<or> digits_value ds \<ge> 2 ^ 32 then None else Some (digits_value ds, length ds))"

definition json_uint32 :: "Value \<Rightarrow> nat res" where
  "json_uint32 v =
     (case v of
        JNumber t \<Rightarrow>
          (case from_chars_u32 t of
             Some (n, e) \<Rightarrow> if e = length t then Inr n else Inl (RuntimeError ''expected bounded unsigned integer'')
           | None \<Rightarrow> Inl (RuntimeError ''expected bounded unsigned integer''))
      | _ \<Rightarrow> Inl (RuntimeError ''expected bounded unsigned integer''))"

section \<open>UTF-8\<close>

definition appendUtf8 :: "bytes \<Rightarrow> nat \<Rightarrow> bytes" where
  "appendUtf8 out c =
     (if c \<le> 127 then out @ [of_nat c]
      else if c \<le> 2047 then out @ [of_nat (192 + c div 64), of_nat (128 + c mod 64)]
      else if c \<le> 65535 then
        out @ [of_nat (224 + c div 4096), of_nat (128 + (c div 64) mod 64), of_nat (128 + c mod 64)]
      else out @ [of_nat (240 + c div 262144), of_nat (128 + (c div 4096) mod 64),
                  of_nat (128 + (c div 64) mod 64), of_nat (128 + c mod 64)])"

text \<open>The lead byte of a multi-byte sequence: continuation bytes, least code point, payload.\<close>

definition utf8_lead :: "nat \<Rightarrow> (nat \<times> nat \<times> nat) option" where
  "utf8_lead c =
     (if c \<ge> 194 \<and> c \<le> 223 then Some (1, 128, c mod 32)
      else if c \<ge> 224 \<and> c \<le> 239 then Some (2, 2048, c mod 16)
      else if c \<ge> 240 \<and> c \<le> 244 then Some (3, 65536, c mod 8)
      else None)"

fun utf8_continue :: "nat \<Rightarrow> nat \<Rightarrow> bytes \<Rightarrow> (nat \<times> bytes) option" where
  "utf8_continue 0 c s = Some (c, s)"
| "utf8_continue (Suc k) c [] = None"
| "utf8_continue (Suc k) c (b # s) =
     (if b AND 192 \<noteq> 128 then None else utf8_continue k (c * 64 + unat (b AND 63)) s)"

lemma utf8_continue_code [code]:
  "utf8_continue k c s =
     (if k = 0 then Some (c, s)
      else case s of [] \<Rightarrow> None
           | b # t \<Rightarrow> if b AND 192 \<noteq> 128 then None else utf8_continue (k - 1) (c * 64 + unat (b AND 63)) t)"
  by (cases k; cases s) simp_all

lemma utf8_continue_length: "utf8_continue k c s = Some (d, t) \<Longrightarrow> length t \<le> length s"
  by (induction k c s rule: utf8_continue.induct) (auto split: if_splits)

function validUtf8 :: "bytes \<Rightarrow> bool" where
  "validUtf8 [] = True"
| "validUtf8 (b # s) =
     (if unat b < 128 then validUtf8 s
      else
        case utf8_lead (unat b) of
          None \<Rightarrow> False
        | Some (remaining, minimum, c) \<Rightarrow>
            if remaining > length s then False
            else
              case utf8_continue remaining c s of
                None \<Rightarrow> False
              | Some (c, rest) \<Rightarrow>
                  if c < minimum \<or> c > 0x10ffff \<or> (c \<ge> 0xd800 \<and> c \<le> 0xdfff) then False
                  else validUtf8 rest)"
  by pat_completeness auto
termination
  by (relation "measure length") (auto dest!: utf8_continue_length)

section \<open>The reader\<close>

datatype 'a outcome = Ok 'a bytes nat | Fail | NoFuel

definition is_space :: "u8 \<Rightarrow> bool" where
  "is_space c \<longleftrightarrow> c = ch (CHR '' '') \<or> c = 13 \<or> c = 10 \<or> c = 9"

definition spaces :: "bytes \<Rightarrow> bytes" where
  "spaces s = dropWhile is_space s"

definition take_char :: "u8 \<Rightarrow> bytes \<Rightarrow> bytes option" where
  "take_char c s = (case s of [] \<Rightarrow> None | x # xs \<Rightarrow> if x = c then Some xs else None)"

definition literal :: "bytes \<Rightarrow> bytes \<Rightarrow> bytes option" where
  "literal w s = (if take (length w) s = w then Some (drop (length w) s) else None)"

definition hex_digit :: "u8 \<Rightarrow> nat option" where
  "hex_digit c =
     (if ch (CHR ''0'') \<le> c \<and> c \<le> ch (CHR ''9'') then Some (unat (c - ch (CHR ''0'')))
      else if ch (CHR ''a'') \<le> c \<and> c \<le> ch (CHR ''f'') then Some (unat (c - ch (CHR ''a'')) + 10)
      else if ch (CHR ''A'') \<le> c \<and> c \<le> ch (CHR ''F'') then Some (unat (c - ch (CHR ''A'')) + 10)
      else None)"

fun hex_loop :: "nat \<Rightarrow> nat \<Rightarrow> bytes \<Rightarrow> (nat \<times> bytes) option" where
  "hex_loop 0 n s = Some (n, s)"
| "hex_loop (Suc k) n [] = None"
| "hex_loop (Suc k) n (c # s) = (case hex_digit c of None \<Rightarrow> None | Some d \<Rightarrow> hex_loop k (n * 16 + d) s)"

lemma hex_loop_code [code]:
  "hex_loop k n s =
     (if k = 0 then Some (n, s)
      else case s of [] \<Rightarrow> None
           | c # t \<Rightarrow> (case hex_digit c of None \<Rightarrow> None | Some d \<Rightarrow> hex_loop (k - 1) (n * 16 + d) t))"
  by (cases k; cases s) (auto split: option.splits)

definition hex :: "bytes \<Rightarrow> (nat \<times> bytes) option" where
  "hex s = (if length s < 4 then None else hex_loop 4 0 s)"

text \<open>The code point of a \<open>\\u\<close> escape, with the surrogate pair it may need.\<close>

definition unicode_escape :: "bytes \<Rightarrow> (nat \<times> bytes) option" where
  "unicode_escape s =
     (case hex s of
        None \<Rightarrow> None
      | Some (cp, s1) \<Rightarrow>
          if 0xd800 \<le> cp \<and> cp \<le> 0xdbff then
            (case take_char (ch (CHR 0x5C)) s1 of
               None \<Rightarrow> None
             | Some s2 \<Rightarrow>
                 (case take_char (ch (CHR ''u'')) s2 of
                    None \<Rightarrow> None
                  | Some s3 \<Rightarrow>
                      (case hex s3 of
                         None \<Rightarrow> None
                       | Some (low, s4) \<Rightarrow>
                           if low < 0xdc00 \<or> low > 0xdfff then None
                           else Some (0x10000 + (cp - 0xd800) * 1024 + (low - 0xdc00), s4))))
          else if 0xdc00 \<le> cp \<and> cp \<le> 0xdfff then None
          else Some (cp, s1))"

definition simple_escape :: "u8 \<Rightarrow> u8 option" where
  "simple_escape c =
     (if c = ch (CHR 0x22) \<or> c = ch (CHR 0x5C) \<or> c = ch (CHR ''/'') then Some c
      else if c = ch (CHR ''b'') then Some 8
      else if c = ch (CHR ''f'') then Some 12
      else if c = ch (CHR ''n'') then Some 10
      else if c = ch (CHR ''r'') then Some 13
      else if c = ch (CHR ''t'') then Some 9
      else None)"

lemma hex_loop_length: "hex_loop k n s = Some (m, t) \<Longrightarrow> length t + k = length s"
  by (induction k n s arbitrary: m rule: hex_loop.induct) (auto split: option.splits)

lemma hex_length: "hex s = Some (n, t) \<Longrightarrow> length t < length s"
  by (auto simp: hex_def dest: hex_loop_length split: if_splits)

lemma take_char_length: "take_char c s = Some t \<Longrightarrow> length t < length s"
  by (auto simp: take_char_def split: list.splits if_splits)

lemma unicode_escape_length: "unicode_escape s = Some (n, t) \<Longrightarrow> length t < length s"
  by (auto simp: unicode_escape_def dest!: hex_length take_char_length split: option.splits if_splits)

text \<open>The loop of \<open>string()\<close>, after the opening quote.\<close>

function string_loop :: "bytes \<Rightarrow> bytes \<Rightarrow> (bytes \<times> bytes) option" where
  "string_loop out [] = None"
| "string_loop out (c # s) =
     (if c = ch (CHR 0x22) then Some (out, s)
      else if unat c < 32 then None
      else if c \<noteq> ch (CHR 0x5C) then string_loop (out @ [c]) s
      else
        case s of
          [] \<Rightarrow> None
        | e # s' \<Rightarrow>
            if e = ch (CHR ''u'') then
              (case unicode_escape s' of
                 None \<Rightarrow> None
               | Some (cp, s'') \<Rightarrow> string_loop (appendUtf8 out cp) s'')
            else
              (case simple_escape e of
                 None \<Rightarrow> None
               | Some x \<Rightarrow> string_loop (out @ [x]) s'))"
  by pat_completeness auto
termination
  by (relation "measure (\<lambda>(out, s). length s)") (auto dest!: unicode_escape_length)

definition read_string :: "bytes \<Rightarrow> (bytes \<times> bytes) option" where
  "read_string s = (case take_char (ch (CHR 0x22)) s of None \<Rightarrow> None | Some t \<Rightarrow> string_loop [] t)"

text \<open>\<open>if (!digit()) fail(); while (digit()) ++position_;\<close>\<close>

definition digits1 :: "bytes \<Rightarrow> bytes option" where
  "digits1 s = (case s of [] \<Rightarrow> None | c # _ \<Rightarrow> if is_digit c then Some (dropWhile is_digit s) else None)"

definition opt_char :: "u8 \<Rightarrow> bytes \<Rightarrow> bytes" where
  "opt_char c s = (case take_char c s of None \<Rightarrow> s | Some t \<Rightarrow> t)"

definition skip_int :: "bytes \<Rightarrow> bytes option" where
  "skip_int s =
     (case take_char (ch (CHR ''0'')) s of
        Some t \<Rightarrow> if t \<noteq> [] \<and> is_digit (hd t) then None else Some t
      | None \<Rightarrow> digits1 s)"

definition skip_fraction :: "bytes \<Rightarrow> bytes option" where
  "skip_fraction s = (case take_char (ch (CHR ''.'')) s of Some t \<Rightarrow> digits1 t | None \<Rightarrow> Some s)"

definition skip_exponent :: "bytes \<Rightarrow> bytes option" where
  "skip_exponent s =
     (case (case take_char (ch (CHR ''e'')) s of Some t \<Rightarrow> Some t | None \<Rightarrow> take_char (ch (CHR ''E'')) s) of
        None \<Rightarrow> Some s
      | Some t \<Rightarrow> digits1 (case take_char (ch (CHR ''+'')) t of Some u \<Rightarrow> u | None \<Rightarrow> opt_char (ch (CHR ''-'')) t))"

definition skip_number :: "bytes \<Rightarrow> bytes option" where
  "skip_number s =
     (case skip_int (opt_char (ch (CHR ''-'')) s) of
        None \<Rightarrow> None
      | Some t \<Rightarrow> (case skip_fraction t of None \<Rightarrow> None | Some u \<Rightarrow> skip_exponent u))"

definition kMaxNodes :: nat where
  "kMaxNodes = 16384"

text \<open>
  The two loops of \<open>value()\<close>, over the reader \<open>pv\<close> of the nested values. A loop reads at
  least one character per round, so fuel equal to the input's length plus one is enough.
\<close>

type_synonym value_reader = "nat \<Rightarrow> bytes \<Rightarrow> Value outcome"

fun members_loop :: "value_reader \<Rightarrow> nat \<Rightarrow> (bytes \<times> Value) list \<Rightarrow> nat \<Rightarrow> bytes \<Rightarrow> Value outcome" where
  "members_loop pv 0 ms nodes s = NoFuel"
| "members_loop pv (Suc fuel) ms nodes s =
     (case read_string (spaces s) of
        None \<Rightarrow> Fail
      | Some (key, s1) \<Rightarrow>
          (case take_char (ch (CHR '':'')) (spaces s1) of
             None \<Rightarrow> Fail
           | Some s2 \<Rightarrow>
               (case pv nodes s2 of
                  Fail \<Rightarrow> Fail
                | NoFuel \<Rightarrow> NoFuel
                | Ok child s3 nodes' \<Rightarrow>
                    if key \<in> set (map fst ms) then Fail
                    else
                      let ms' = ms @ [(key, child)]; s4 = spaces s3 in
                      (case take_char (ch (CHR 0x7D)) s4 of
                         Some r \<Rightarrow> Ok (JObject ms') r nodes'
                       | None \<Rightarrow>
                           (case take_char (ch (CHR '','')) s4 of
                              None \<Rightarrow> Fail
                            | Some s5 \<Rightarrow> members_loop pv fuel ms' nodes' s5)))))"

fun elements_loop :: "value_reader \<Rightarrow> nat \<Rightarrow> Value list \<Rightarrow> nat \<Rightarrow> bytes \<Rightarrow> Value outcome" where
  "elements_loop pv 0 xs nodes s = NoFuel"
| "elements_loop pv (Suc fuel) xs nodes s =
     (case pv nodes s of
        Fail \<Rightarrow> Fail
      | NoFuel \<Rightarrow> NoFuel
      | Ok child s1 nodes' \<Rightarrow>
          let xs' = xs @ [child]; s2 = spaces s1 in
          (case take_char (ch (CHR 0x5D)) s2 of
             Some r \<Rightarrow> Ok (JArray xs') r nodes'
           | None \<Rightarrow>
               (case take_char (ch (CHR '','')) s2 of
                  None \<Rightarrow> Fail
                | Some s3 \<Rightarrow> elements_loop pv fuel xs' nodes' s3)))"

text \<open>A value that is neither an object nor an array.\<close>

definition parse_scalar :: "u8 \<Rightarrow> bytes \<Rightarrow> nat \<Rightarrow> Value outcome" where
  "parse_scalar c s nodes =
     (if c = ch (CHR 0x22) then
        (case read_string s of None \<Rightarrow> Fail | Some (t, r) \<Rightarrow> Ok (JString t) r nodes)
      else if c = ch (CHR ''n'') then
        (case literal (str ''null'') s of None \<Rightarrow> Fail | Some r \<Rightarrow> Ok JNull r nodes)
      else if c = ch (CHR ''t'') then
        (case literal (str ''true'') s of None \<Rightarrow> Fail | Some r \<Rightarrow> Ok (JBool True) r nodes)
      else if c = ch (CHR ''f'') then
        (case literal (str ''false'') s of None \<Rightarrow> Fail | Some r \<Rightarrow> Ok (JBool False) r nodes)
      else
        (case skip_number s of
           None \<Rightarrow> Fail
         | Some r \<Rightarrow> Ok (JNumber (take (length s - length r) s)) r nodes))"

text \<open>\<open>value(depth)\<close>; the first argument is \<open>33 - depth\<close>, so 0 is the depth that fails.\<close>

primrec parse_value :: "nat \<Rightarrow> value_reader" where
  "parse_value 0 nodes s = Fail"
| "parse_value (Suc levels) nodes s =
     (if nodes + 1 > kMaxNodes then Fail
      else
        case spaces s of
          [] \<Rightarrow> Fail
        | c # s1 \<Rightarrow>
            if c = ch (CHR 0x7B) then
              (case take_char (ch (CHR 0x7D)) (spaces s1) of
                 Some r \<Rightarrow> Ok (JObject []) r (nodes + 1)
               | None \<Rightarrow> members_loop (parse_value levels) (length s1 + 1) [] (nodes + 1) (spaces s1))
            else if c = ch (CHR 0x5B) then
              (case take_char (ch (CHR 0x5D)) (spaces s1) of
                 Some r \<Rightarrow> Ok (JArray []) r (nodes + 1)
               | None \<Rightarrow> elements_loop (parse_value levels) (length s1 + 1) [] (nodes + 1) (spaces s1))
            else parse_scalar c (c # s1) (nodes + 1))"

definition json_parse :: "bytes \<Rightarrow> Value res" where
  "json_parse input =
     (if length input > 1024 * 1024 \<or> \<not> validUtf8 input then Inl (RuntimeError ''invalid or oversized JSON'')
      else
        case parse_value 33 0 input of
          Ok v r _ \<Rightarrow> if spaces r = [] then Inr v else Inl (RuntimeError ''invalid or oversized JSON'')
        | Fail \<Rightarrow> Inl (RuntimeError ''invalid or oversized JSON'')
        | NoFuel \<Rightarrow> Inl (LogicError ''out of fuel''))"

section \<open>Quoting\<close>

definition hex_lower :: "nat \<Rightarrow> u8" where
  "hex_lower n = str ''0123456789abcdef'' ! n"

definition quote_char :: "u8 \<Rightarrow> bytes" where
  "quote_char c =
     (if c = ch (CHR 0x22) \<or> c = ch (CHR 0x5C) then [ch (CHR 0x5C), c]
      else if unat c < 32 then ch (CHR 0x5C) # str ''u00'' @ [hex_lower (unat c div 16), hex_lower (unat c mod 16)]
      else [c])"

definition json_quote :: "bytes \<Rightarrow> bytes res" where
  "json_quote s =
     (if \<not> validUtf8 s then Inl (RuntimeError ''invalid UTF-8'')
      else Inr (ch (CHR 0x22) # concat (map quote_char s) @ [ch (CHR 0x22)]))"

section \<open>The reader consumes its input\<close>

lemma spaces_length: "length (spaces s) \<le> length s"
  by (simp add: spaces_def length_dropWhile_le)

lemma literal_length: "literal w s = Some t \<Longrightarrow> w \<noteq> [] \<Longrightarrow> length t < length s"
  by (cases s) (auto simp: literal_def split: if_splits)

lemma string_loop_length: "string_loop out s = Some (t, r) \<Longrightarrow> length r < length s"
proof (induction out s rule: string_loop.induct)
  case (2 out c s)
  consider "c = ch (CHR 0x22)" | "c \<noteq> ch (CHR 0x22)" "\<not> unat c < 32" "c \<noteq> ch (CHR 0x5C)"
    | "c = ch (CHR 0x5C)" using "2.prems" by (auto split: if_splits)
  then show ?case
  proof cases
    case 3
    then obtain e s' where s: "s = e # s'" using "2.prems" by (cases s) auto
    show ?thesis
    proof (cases "e = ch (CHR ''u'')")
      case True
      with 3 s "2.prems" obtain cp s'' where u: "unicode_escape s' = Some (cp, s'')"
          and r: "string_loop (appendUtf8 out cp) s'' = Some (t, r)" by (auto split: option.splits)
      from "2.IH"(2) [OF _ _ _ s True u refl r] unicode_escape_length [OF u] 3 s show ?thesis by simp
    next
      case False
      with 3 s "2.prems" obtain x where u: "simple_escape e = Some x"
          and r: "string_loop (out @ [x]) s' = Some (t, r)" by (auto split: option.splits)
      from "2.IH"(3) [OF _ _ _ s False u r] 3 s show ?thesis by simp
    qed
  qed (use 2 in auto)
qed simp

lemma read_string_length: "read_string s = Some (t, r) \<Longrightarrow> length r < length s"
  by (auto simp: read_string_def dest!: take_char_length string_loop_length split: option.splits)

lemma digits1_length: "digits1 s = Some t \<Longrightarrow> length t < length s"
  by (auto simp: digits1_def less_Suc_eq_le length_dropWhile_le split: list.splits if_splits)

lemma opt_char_length: "length (opt_char c s) \<le> length s"
  by (auto simp: opt_char_def dest: take_char_length split: option.splits)

lemma skip_int_length: "skip_int s = Some t \<Longrightarrow> length t < length s"
  by (auto simp: skip_int_def dest: take_char_length digits1_length split: option.splits if_splits)

lemma skip_fraction_length: "skip_fraction s = Some t \<Longrightarrow> length t \<le> length s"
  by (auto simp: skip_fraction_def dest!: take_char_length digits1_length split: option.splits)

lemma sign_length: "length (case take_char c u of Some v \<Rightarrow> v | None \<Rightarrow> opt_char d u) \<le> length u"
  using opt_char_length [of d u] take_char_length [of c u] by (cases "take_char c u") auto

lemma skip_exponent_length:
  assumes "skip_exponent s = Some t"
  shows "length t \<le> length s"
proof (cases "(case take_char (ch (CHR ''e'')) s of Some t \<Rightarrow> Some t | None \<Rightarrow> take_char (ch (CHR ''E'')) s)")
  case None
  with assms show ?thesis by (simp add: skip_exponent_def)
next
  case (Some u)
  then have "length u < length s" by (auto dest: take_char_length split: option.splits)
  moreover have "length t < length u"
    using assms Some digits1_length sign_length less_le_trans by (fastforce simp: skip_exponent_def)
  ultimately show ?thesis by simp
qed

lemma skip_number_length: "skip_number s = Some t \<Longrightarrow> length t < length s"
  using opt_char_length [of "ch (CHR ''-'')" s]
  by (auto simp: skip_number_def dest!: skip_int_length skip_fraction_length skip_exponent_length split: option.splits)

lemma parse_scalar_length: "parse_scalar c s nodes = Ok v r n \<Longrightarrow> length r < length s"
  by (auto simp: parse_scalar_def dest: read_string_length literal_length skip_number_length
      split: if_splits option.splits)

lemma parse_scalar_fuel: "parse_scalar c s nodes \<noteq> NoFuel"
  by (auto simp: parse_scalar_def split: option.splits)

text \<open>What the loops need of the reader of nested values.\<close>

definition shrinks :: "value_reader \<Rightarrow> bool" where
  "shrinks pv \<longleftrightarrow> (\<forall>nodes s. pv nodes s \<noteq> NoFuel \<and> (\<forall>v r n. pv nodes s = Ok v r n \<longrightarrow> length r < length s))"

lemma shrinksD: "shrinks pv \<Longrightarrow> pv nodes s = Ok v r n \<Longrightarrow> length r < length s"
  "shrinks pv \<Longrightarrow> pv nodes s \<noteq> NoFuel"
  unfolding shrinks_def by blast+

lemma members_loop_shrinks:
  "shrinks pv \<Longrightarrow> length s < fuel \<Longrightarrow> members_loop pv fuel ms nodes s \<noteq> NoFuel \<and>
     (\<forall>v r n. members_loop pv fuel ms nodes s = Ok v r n \<longrightarrow> length r < length s)"
proof (induction pv fuel ms nodes s rule: members_loop.induct)
  case (2 pv fuel ms nodes s)
  show ?case
  proof (cases "read_string (spaces s)")
    case None
    then show ?thesis by simp
  next
    case (Some ks)
    then obtain key s1 where k: "read_string (spaces s) = Some (key, s1)" by (cases ks) auto
    have l1: "length (spaces s1) < length s"
      using read_string_length [OF k] spaces_length [of s] spaces_length [of s1] by linarith
    show ?thesis
    proof (cases "take_char (ch (CHR '':'')) (spaces s1)")
      case None
      with k show ?thesis by simp
    next
      case colon: (Some s2)
      note l2 = take_char_length [OF colon]
      show ?thesis
      proof (cases "pv nodes s2")
        case (Ok child s3 nodes')
        note l3 = shrinksD(1) [OF "2.prems"(1) Ok] and sp = spaces_length [of s3]
        have IH: "members_loop pv fuel (ms @ [(key, child)]) nodes' s5 \<noteq> NoFuel \<and>
            (\<forall>v r n. members_loop pv fuel (ms @ [(key, child)]) nodes' s5 = Ok v r n \<longrightarrow> length r < length s5)"
          if "key \<notin> set (map fst ms)" "take_char (ch (CHR 0x7D)) (spaces s3) = None"
            "take_char (ch (CHR '','')) (spaces s3) = Some s5" for s5
          using "2.IH" [OF k refl colon Ok that(1) refl refl that(2,3) "2.prems"(1)]
            take_char_length [OF that(3)] l1 l2 l3 sp "2.prems"(2) by simp
        show ?thesis
        proof (cases "key \<in> set (map fst ms)")
          case False
          show ?thesis
          proof (cases "take_char (ch (CHR 0x7D)) (spaces s3)")
            case None
            then show ?thesis
              using k colon Ok False l1 l2 l3 sp IH [OF False None] take_char_length [of "ch (CHR '','')" "spaces s3"]
              by (cases "take_char (ch (CHR '','')) (spaces s3)") (fastforce simp: Let_def)+
          qed (use k colon Ok False l1 l2 l3 sp take_char_length in \<open>fastforce simp: Let_def\<close>)
        qed (use k colon Ok in simp)
      qed (use k colon shrinksD(2) [OF "2.prems"(1)] in auto)
    qed
  qed
qed simp

lemma elements_loop_shrinks:
  "shrinks pv \<Longrightarrow> length s < fuel \<Longrightarrow> elements_loop pv fuel xs nodes s \<noteq> NoFuel \<and>
     (\<forall>v r n. elements_loop pv fuel xs nodes s = Ok v r n \<longrightarrow> length r < length s)"
proof (induction pv fuel xs nodes s rule: elements_loop.induct)
  case (2 pv fuel xs nodes s)
  show ?case
  proof (cases "pv nodes s")
    case (Ok child s1 nodes')
    note l1 = shrinksD(1) [OF "2.prems"(1) Ok] and sp = spaces_length [of s1]
    have IH: "elements_loop pv fuel (xs @ [child]) nodes' s3 \<noteq> NoFuel \<and>
        (\<forall>v r n. elements_loop pv fuel (xs @ [child]) nodes' s3 = Ok v r n \<longrightarrow> length r < length s3)"
      if "take_char (ch (CHR 0x5D)) (spaces s1) = None" "take_char (ch (CHR '','')) (spaces s1) = Some s3" for s3
      using "2.IH" [OF Ok refl refl that "2.prems"(1)] take_char_length [OF that(2)] l1 sp "2.prems"(2) by simp
    show ?thesis
      using Ok l1 sp IH by (fastforce simp: Let_def dest: take_char_length split: option.splits)
  qed (use shrinksD(2) [OF "2.prems"(1)] in auto)
qed simp

lemma parse_value_shrinks: "shrinks (parse_value levels)"
proof (induction levels)
  case 0
  then show ?case by (simp add: shrinks_def)
next
  case (Suc levels)
  have "parse_value (Suc levels) nodes s \<noteq> NoFuel \<and>
    (\<forall>v r n. parse_value (Suc levels) nodes s = Ok v r n \<longrightarrow> length r < length s)" for nodes s
  proof (cases "spaces s")
    case (Cons c s1)
    have l: "Suc (length s1) \<le> length s" using spaces_length [of s] Cons by simp
    note sp = spaces_length [of s1]
    have fuel: "length (spaces s1) < length s1 + 1" using sp by simp
    note ml = members_loop_shrinks [OF Suc fuel, of "[]" "nodes + 1"]
      and el = elements_loop_shrinks [OF Suc fuel, of "[]" "nodes + 1"]
    show ?thesis
      using Cons l sp ml el parse_scalar_fuel parse_scalar_length [of c "c # s1" "nodes + 1"]
      by (fastforce dest: take_char_length split: option.splits if_splits)
  qed simp
  then show ?case by (simp add: shrinks_def)
qed

lemma json_parse_fuel: "json_parse s \<noteq> Inl (LogicError e)"
  using parse_value_shrinks [of 33] by (auto simp: json_parse_def shrinks_def split: outcome.splits if_splits)

section \<open>What a parsed value looks like\<close>

text \<open>Nesting within the given number of levels, and objects without duplicate keys.\<close>

fun fits :: "nat \<Rightarrow> Value \<Rightarrow> bool" where
  "fits 0 v \<longleftrightarrow> False"
| "fits (Suc l) (JArray xs) \<longleftrightarrow> (\<forall>x \<in> set xs. fits l x)"
| "fits (Suc l) (JObject ms) \<longleftrightarrow> distinct (map fst ms) \<and> (\<forall>m \<in> set ms. fits l (snd m))"
| "fits (Suc l) v \<longleftrightarrow> True"

definition reads_fit :: "nat \<Rightarrow> value_reader \<Rightarrow> bool" where
  "reads_fit l pv \<longleftrightarrow> (\<forall>nodes s v r n. pv nodes s = Ok v r n \<longrightarrow> fits l v)"

lemma reads_fitD: "reads_fit l pv \<Longrightarrow> pv nodes s = Ok v r n \<Longrightarrow> fits l v"
  unfolding reads_fit_def by blast

lemma members_loop_fits:
  "reads_fit l pv \<Longrightarrow> distinct (map fst ms) \<Longrightarrow> \<forall>m \<in> set ms. fits l (snd m) \<Longrightarrow>
   members_loop pv fuel ms nodes s = Ok v r n \<Longrightarrow> fits (Suc l) v"
proof (induction pv fuel ms nodes s rule: members_loop.induct)
  case (2 pv fuel ms nodes s)
  from "2.prems"(4) obtain key s1 s2 child s3 nodes' where
      k: "read_string (spaces s) = Some (key, s1)" and c: "take_char (ch (CHR '':'')) (spaces s1) = Some s2"
      and p: "pv nodes s2 = Ok child s3 nodes'" and new: "key \<notin> set (map fst ms)"
    by (auto split: option.splits outcome.splits if_splits simp: Let_def)
  note fc = reads_fitD [OF "2.prems"(1) p]
  have ms': "distinct (map fst (ms @ [(key, child)]))" "\<forall>m \<in> set (ms @ [(key, child)]). fits l (snd m)"
    using "2.prems"(2,3) new fc by auto
  show ?case
  proof (cases "take_char (ch (CHR 0x7D)) (spaces s3)")
    case None
    then obtain s5 where "take_char (ch (CHR '','')) (spaces s3) = Some s5"
        "members_loop pv fuel (ms @ [(key, child)]) nodes' s5 = Ok v r n"
      using "2.prems"(4) k c p new by (auto simp: Let_def split: option.splits)
    then show ?thesis
      using "2.IH" [OF k refl c p new refl refl None _ "2.prems"(1) ms'] by blast
  next
    case (Some r')
    with "2.prems"(4) k c p new ms' show ?thesis by (auto simp: Let_def)
  qed
qed simp

lemma elements_loop_fits:
  "reads_fit l pv \<Longrightarrow> \<forall>x \<in> set xs. fits l x \<Longrightarrow> elements_loop pv fuel xs nodes s = Ok v r n \<Longrightarrow> fits (Suc l) v"
proof (induction pv fuel xs nodes s rule: elements_loop.induct)
  case (2 pv fuel xs nodes s)
  from "2.prems"(3) obtain child s1 nodes' where p: "pv nodes s = Ok child s1 nodes'"
    by (auto split: outcome.splits)
  have xs': "\<forall>x \<in> set (xs @ [child]). fits l x" using "2.prems"(2) reads_fitD [OF "2.prems"(1) p] by auto
  show ?case
  proof (cases "take_char (ch (CHR 0x5D)) (spaces s1)")
    case None
    then obtain s3 where "take_char (ch (CHR '','')) (spaces s1) = Some s3"
        "elements_loop pv fuel (xs @ [child]) nodes' s3 = Ok v r n"
      using "2.prems"(3) p by (auto simp: Let_def split: option.splits)
    then show ?thesis using "2.IH" [OF p refl refl None _ "2.prems"(1) xs'] by blast
  next
    case (Some r')
    with "2.prems"(3) p xs' show ?thesis by (auto simp: Let_def)
  qed
qed simp

lemma parse_scalar_fits: "parse_scalar c s nodes = Ok v r n \<Longrightarrow> fits (Suc l) v"
  by (auto simp: parse_scalar_def split: if_splits option.splits)

lemma parse_value_fits: "reads_fit levels (parse_value levels)"
proof (induction levels)
  case 0
  then show ?case by (simp add: reads_fit_def)
next
  case (Suc l)
  show ?case
    unfolding reads_fit_def
  proof (intro allI impI)
    fix nodes s v r n assume pv: "parse_value (Suc l) nodes s = Ok v r n"
    then obtain c s1 where s: "spaces s = c # s1" by (auto split: list.splits if_splits)
    show "fits (Suc l) v"
      using pv s
      by (auto simp del: members_loop.simps elements_loop.simps split: if_splits option.splits
          dest: members_loop_fits [OF Suc, rotated 2] elements_loop_fits [OF Suc, rotated] parse_scalar_fits)
  qed
qed

section \<open>Quoting and reading back\<close>

lemma hex_lower_table: "map hex_lower [0..<16] = [48, 49, 50, 51, 52, 53, 54, 55, 56, 57, 97, 98, 99, 100, 101, 102]"
  by code_simp

lemma hex_digit_table:
  "map hex_digit [48, 49, 50, 51, 52, 53, 54, 55, 56, 57, 97, 98, 99, 100, 101, 102] = map Some [0..<16]"
  by code_simp

lemma hex_digit_lower:
  assumes n: "n < 16"
  shows "hex_digit (hex_lower n) = Some n \<and> unat (hex_lower n) < 128"
proof
  have "map hex_digit (map hex_lower [0..<16]) = map Some [0..<16]" by (simp only: hex_lower_table hex_digit_table)
  from arg_cong [OF this, of "\<lambda>l. l ! n"] n show "hex_digit (hex_lower n) = Some n" by simp
  have "hex_lower n \<in> set (map hex_lower [0..<16])" using n by simp
  then have "hex_lower n \<in> {48, 49, 50, 51, 52, 53, 54, 55, 56, 57, 97, 98, 99, 100, 101, 102}"
    unfolding hex_lower_table by simp
  then show "unat (hex_lower n) < 128" by auto
qed

lemma hex_four:
  "hex_digit a = Some w \<Longrightarrow> hex_digit b = Some x \<Longrightarrow> hex_digit c = Some y \<Longrightarrow> hex_digit d = Some z \<Longrightarrow>
   hex (a # b # c # d # s) = Some (((w * 16 + x) * 16 + y) * 16 + z, s)"
  by (simp add: hex_def eval_nat_numeral)

lemma unicode_escape_control:
  assumes "unat c < 32"
  shows "unicode_escape (ch (CHR ''0'') # ch (CHR ''0'') # hex_lower (unat c div 16) # hex_lower (unat c mod 16) # s)
    = Some (unat c, s)"
proof -
  have z: "hex_digit (ch (CHR ''0'')) = Some 0" by code_simp
  have hi: "hex_digit (hex_lower (unat c div 16)) = Some (unat c div 16)"
    using assms hex_digit_lower [of "unat c div 16"] by simp
  have lo: "hex_digit (hex_lower (unat c mod 16)) = Some (unat c mod 16)"
    using hex_digit_lower [of "unat c mod 16"] by simp
  have "((0 * 16 + 0) * 16 + unat c div 16) * 16 + unat c mod 16 = unat c" by presburger
  then have "hex (ch (CHR ''0'') # ch (CHR ''0'') # hex_lower (unat c div 16) # hex_lower (unat c mod 16) # s)
      = Some (unat c, s)" using hex_four [OF z z hi lo, of s] by simp
  then show ?thesis using assms by (simp add: unicode_escape_def)
qed

lemma string_loop_quote_char: "string_loop out (quote_char c @ s) = string_loop (out @ [c]) s"
proof -
  consider "c = ch (CHR 0x22) \<or> c = ch (CHR 0x5C)" | "unat c < 32" "\<not> (c = ch (CHR 0x22) \<or> c = ch (CHR 0x5C))"
    | "\<not> unat c < 32" "\<not> (c = ch (CHR 0x22) \<or> c = ch (CHR 0x5C))" by blast
  then show ?thesis
  proof cases
    case 1
    then show ?thesis by (auto simp: quote_char_def simple_escape_def)
  next
    case 2
    then have "appendUtf8 out (unat c) = out @ [c]" by (simp add: appendUtf8_def)
    with 2 unicode_escape_control [of c s] show ?thesis by (simp add: quote_char_def)
  next
    case 3
    then show ?thesis by (simp add: quote_char_def)
  qed
qed

lemma string_loop_quoted:
  "string_loop out (concat (map quote_char s) @ ch (CHR 0x22) # r) = Some (out @ s, r)"
  by (induction s arbitrary: out) (simp_all add: string_loop_quote_char)

lemma utf8_continue_split:
  "utf8_continue k c s = Some (d, r) \<Longrightarrow> \<exists>cs. s = cs @ r \<and> length cs = k \<and>
     (\<forall>x \<in> set cs. 128 \<le> unat x) \<and> (\<forall>ys. utf8_continue k c (cs @ ys) = Some (d, ys))"
proof (induction k c s rule: utf8_continue.induct)
  case (3 k c b s)
  then have b: "b AND 192 = 128" by (auto split: if_splits)
  have "128 \<le> unat b"
  proof (rule ccontr)
    assume "\<not> 128 \<le> unat b"
    then have "b AND 128 = 0" by (intro byte_and_128) (simp add: word_less_nat_alt)
    moreover have "b AND 128 = (b AND 192) AND 128" by (simp add: and.assoc)
    ultimately show False using b by simp
  qed
  with 3 b obtain cs where "s = cs @ r" "length cs = k" "\<forall>x \<in> set cs. 128 \<le> unat x"
      "\<forall>ys. utf8_continue k (c * 64 + unat (b AND 63)) (cs @ ys) = Some (d, ys)" by auto
  with b \<open>128 \<le> unat b\<close> show ?case by (intro exI [of _ "b # cs"]) simp
qed simp_all

lemma quote_char_high: "128 \<le> unat c \<Longrightarrow> quote_char c = [c]"
  by (auto simp: quote_char_def)

lemma quote_high: "\<forall>x \<in> set cs. 128 \<le> unat x \<Longrightarrow> concat (map quote_char cs) = cs"
  by (induction cs) (simp_all add: quote_char_high)

lemma validUtf8_ascii: "\<forall>x \<in> set cs. unat x < 128 \<Longrightarrow> validUtf8 (cs @ s) = validUtf8 s"
  by (induction cs) simp_all

lemma quote_char_ascii: "unat c < 128 \<Longrightarrow> \<forall>x \<in> set (quote_char c). unat x < 128"
  using hex_digit_lower [of "unat c div 16"] hex_digit_lower [of "unat c mod 16"]
  by (auto simp: quote_char_def)

lemma validUtf8_quoted: "validUtf8 s \<Longrightarrow> validUtf8 t \<Longrightarrow> validUtf8 (concat (map quote_char s) @ t)"
proof (induction s rule: validUtf8.induct)
  case (2 b s)
  show ?case
  proof (cases "unat b < 128")
    case True
    with 2 show ?thesis by (simp add: validUtf8_ascii [OF quote_char_ascii])
  next
    case False
    obtain k m c where l0: "utf8_lead (unat b) = Some (k, m, c)" using False 2(3) by (cases "utf8_lead (unat b)") auto
    obtain d r where u0: "utf8_continue k c s = Some (d, r)" using False 2(3) l0
      by (cases "utf8_continue k c s") (auto split: if_splits)
    from l0 u0 False 2(3) have l: "utf8_lead (unat b) = Some (k, m, c)" and k: "\<not> k > length s"
        and u: "utf8_continue k c s = Some (d, r)" and d: "\<not> (d < m \<or> d > 0x10ffff \<or> (d \<ge> 0xd800 \<and> d \<le> 0xdfff))"
        and v: "validUtf8 r" by (auto split: if_splits)
    from utf8_continue_split [OF u] obtain cs where cs: "s = cs @ r" "length cs = k"
        "\<forall>x \<in> set cs. 128 \<le> unat x" "\<And>ys. utf8_continue k c (cs @ ys) = Some (d, ys)" by blast
    have "validUtf8 (concat (map quote_char r) @ t)"
      using 2(2) [OF False l refl refl k u refl d v "2.prems"(2)] .
    moreover have "concat (map quote_char (b # s)) @ t = b # cs @ (concat (map quote_char r) @ t)"
      using False cs by (simp add: quote_char_high quote_high)
    moreover have "validUtf8 (b # cs @ X) = validUtf8 X" for X using False l k d cs by auto
    ultimately show ?thesis by (simp only:)
  qed
qed simp

lemma validUtf8_quote:
  "validUtf8 s \<Longrightarrow> validUtf8 (ch (CHR 0x22) # concat (map quote_char s) @ [ch (CHR 0x22)])"
  using validUtf8_ascii [of "[ch (CHR 0x22)]"] validUtf8_quoted [of s "[ch (CHR 0x22)]"] by simp

lemma spaces_quote: "spaces (ch (CHR 0x22) # s) = ch (CHR 0x22) # s"
  by (simp add: spaces_def is_space_def)

lemma parse_quoted:
  "parse_value (Suc l) 0 (ch (CHR 0x22) # concat (map quote_char s) @ [ch (CHR 0x22)]) = Ok (JString s) [] 1"
proof -
  have q: "read_string (ch (CHR 0x22) # concat (map quote_char s) @ [ch (CHR 0x22)]) = Some (s, [])"
    using string_loop_quoted [of "[]" s "[]"] by (simp add: read_string_def take_char_def)
  show ?thesis
    unfolding parse_value.simps spaces_quote by (simp add: kMaxNodes_def parse_scalar_def q [simplified])
qed

section \<open>Numbers\<close>

lemma digits_value_snoc: "digits_value (ds @ [c]) = digits_value ds * 10 + (unat c - 48)"
  by (simp add: digits_value_def)

lemma from_chars_all:
  "from_chars_u32 t = Some (n, length t) \<longleftrightarrow>
     t \<noteq> [] \<and> list_all is_digit t \<and> n = digits_value t \<and> digits_value t < 2 ^ 32"
proof -
  have all: "length (takeWhile is_digit t) = length t \<longleftrightarrow> list_all is_digit t"
    by (metis list_all_iff takeWhile_eq_all_conv takeWhile_eq_take take_all_iff order_refl)
  show ?thesis
  proof (cases "list_all is_digit t")
    case True
    then have "takeWhile is_digit t = t" by (simp add: list_all_iff)
    then have "from_chars_u32 t =
        (if t = [] \<or> digits_value t \<ge> 2 ^ 32 then None else Some (digits_value t, length t))"
      by (simp only: from_chars_u32_def Let_def)
    with True show ?thesis by auto
  next
    case False
    with all show ?thesis by (auto simp: from_chars_u32_def Let_def)
  qed
qed

lemma json_uint32_iff:
  "json_uint32 (JNumber t) = Inr n \<longleftrightarrow>
     t \<noteq> [] \<and> list_all is_digit t \<and> n = digits_value t \<and> digits_value t < 2 ^ 32"
  using from_chars_all [of t n] by (auto simp: json_uint32_def split: option.splits)

section \<open>Properties\<close>

text \<open>Reading back a quoted string gives the string: for every valid UTF-8 text whose quoted
  form is within the reader's limit, \<open>parse(quote(s))\<close> is the string value \<open>s\<close>.\<close>

theorem json_quote_roundtrip:
  assumes "json_quote s = Inr q" and "length q \<le> 1024 * 1024"
  shows "json_parse q = Inr (JString s)"
proof -
  from assms(1) have v: "validUtf8 s" and q: "q = ch (CHR 0x22) # concat (map quote_char s) @ [ch (CHR 0x22)]"
    by (auto simp: json_quote_def split: if_splits)
  have "parse_value 33 0 q = Ok (JString s) [] 1" using parse_quoted [of 32 s] by (simp only: q) simp
  with assms(2) validUtf8_quote [OF v, folded q] show ?thesis by (simp add: json_parse_def spaces_def)
qed

theorem json_quote_roundtrip_witness:
  "json_parse [34, 92, 117, 48, 48, 49, 102, 195, 169, 92, 34, 34] = Inr (JString [31, 195, 169, 34])"
proof (rule json_quote_roundtrip)
  show "json_quote [31, 195, 169, 34] = Inr [34, 92, 117, 48, 48, 49, 102, 195, 169, 92, 34, 34]" by code_simp
qed simp

text \<open>The reader always comes to an end with a value or its one error: the fuel of the model's
  loops never runs out, and a value it returns nests at most 33 levels (depth 0 to 32) and has no
  object with a repeated key.\<close>

theorem json_parse_total:
  "(case json_parse s of
      Inl e \<Rightarrow> e = RuntimeError ''invalid or oversized JSON''
    | Inr v \<Rightarrow> fits 33 v)"
proof -
  have f: "parse_value 33 0 s \<noteq> NoFuel" using parse_value_shrinks [of 33] by (simp add: shrinks_def)
  have r: "parse_value 33 0 s = Ok v r n \<Longrightarrow> fits 33 v" for v r n
    using reads_fitD [OF parse_value_fits] .
  show ?thesis using f r by (auto simp: json_parse_def split: outcome.splits if_splits)
qed

text \<open>\<open>uint32()\<close> accepts exactly the non-empty runs of digits whose value is below
  \<open>2^32\<close>, and returns that value; a sign, fraction, exponent or larger number is refused.\<close>

theorem json_uint32_exact:
  "json_uint32 v =
     (case v of
        JNumber t \<Rightarrow>
          if t \<noteq> [] \<and> list_all is_digit t \<and> digits_value t < 2 ^ 32 then Inr (digits_value t)
          else Inl (RuntimeError ''expected bounded unsigned integer'')
      | _ \<Rightarrow> Inl (RuntimeError ''expected bounded unsigned integer''))"
proof (cases v)
  case (JNumber t)
  have "json_uint32 (JNumber t) = Inl (RuntimeError ''expected bounded unsigned integer'') \<or> (\<exists>n. json_uint32 (JNumber t) = Inr n)"
    by (auto simp: json_uint32_def split: option.splits)
  with JNumber json_uint32_iff [of t] show ?thesis by auto
qed (simp_all add: json_uint32_def)

end
