(* ===== verification/JsonPrint.thy ===== *)
theory JsonPrint
  imports Json
begin

text \<open>
  The reader of \<open>src/shared/km/json.h\<close> accepts what it should: a printer for JSON values, and the
  proof that reading its output gives the value back. The printer is not code of the repository;
  it states which texts the reader must accept, and the messages the repository builds by hand
  are instances of it.
\<close>

section \<open>A printer\<close>

definition json_token :: "bytes \<Rightarrow> bytes" where
  "json_token s = ch (CHR 0x22) # concat (map quote_char s) @ [ch (CHR 0x22)]"

fun json_join :: "bytes list \<Rightarrow> bytes" where
  "json_join [] = []"
| "json_join [x] = x"
| "json_join (x # y # xs) = x @ ch (CHR '','') # json_join (y # xs)"

fun json_print :: "Value \<Rightarrow> bytes" where
  "json_print JNull = str ''null''"
| "json_print (JBool b) = (if b then str ''true'' else str ''false'')"
| "json_print (JNumber t) = t"
| "json_print (JString s) = json_token s"
| "json_print (JArray xs) = ch (CHR 0x5B) # json_join (map json_print xs) @ [ch (CHR 0x5D)]"
| "json_print (JObject ms) =
     ch (CHR 0x7B) # json_join (map (\<lambda>m. json_token (fst m) @ ch (CHR '':'') # json_print (snd m)) ms) @ [ch (CHR 0x7D)]"

fun json_nodes :: "Value \<Rightarrow> nat" where
  "json_nodes (JArray xs) = 1 + sum_list (map json_nodes xs)"
| "json_nodes (JObject ms) = 1 + sum_list (map (\<lambda>m. json_nodes (snd m)) ms)"
| "json_nodes v = 1"

text \<open>Values with valid texts, distinct keys and at most the given number of levels.\<close>

fun json_wf :: "nat \<Rightarrow> Value \<Rightarrow> bool" where
  "json_wf 0 v \<longleftrightarrow> False"
| "json_wf (Suc l) (JNumber t) \<longleftrightarrow> skip_number t = Some [] \<and> validUtf8 t"
| "json_wf (Suc l) (JString s) \<longleftrightarrow> validUtf8 s"
| "json_wf (Suc l) (JArray xs) \<longleftrightarrow> list_all (json_wf l) xs"
| "json_wf (Suc l) (JObject ms) \<longleftrightarrow> distinct (map fst ms) \<and> list_all (\<lambda>m. validUtf8 (fst m) \<and> json_wf l (snd m)) ms"
| "json_wf (Suc l) v \<longleftrightarrow> True"

section \<open>Strings and marks\<close>

lemma quote_token: "json_quote s = Inr q \<Longrightarrow> q = json_token s \<and> validUtf8 s"
  by (auto simp: json_quote_def json_token_def split: if_splits)

lemma read_token: "read_string (json_token s @ t) = Some (s, t)"
  using string_loop_quoted [of "[]" s t] by (simp add: json_token_def read_string_def take_char_def)

lemma spaces_token: "spaces (json_token s @ t) = json_token s @ t"
  by (simp add: json_token_def spaces_def is_space_def)

lemma spaces_marks:
  "spaces (ch (CHR '':'') # s) = ch (CHR '':'') # s" "spaces (ch (CHR '','') # s) = ch (CHR '','') # s"
  "spaces (ch (CHR 0x7D) # s) = ch (CHR 0x7D) # s" "spaces (ch (CHR 0x7B) # s) = ch (CHR 0x7B) # s"
  "spaces (ch (CHR 0x5D) # s) = ch (CHR 0x5D) # s" "spaces (ch (CHR 0x5B) # s) = ch (CHR 0x5B) # s"
  by (simp_all add: spaces_def is_space_def)

lemma parse_token:
  assumes "n < kMaxNodes"
  shows "parse_value (Suc l) n (json_token s @ t) = Ok (JString s) t (n + 1)"
proof -
  have "json_token s @ t = ch (CHR 0x22) # concat (map quote_char s) @ ch (CHR 0x22) # t" by (simp add: json_token_def)
  with read_token [of s t] spaces_token [of s t] assms show ?thesis
    by (simp add: parse_scalar_def)
qed

section \<open>Numbers\<close>

text \<open>What may follow a value inside a text.\<close>

definition ends :: "bytes \<Rightarrow> bool" where
  "ends r \<longleftrightarrow> (case r of [] \<Rightarrow> True | c # _ \<Rightarrow> c \<in> {ch (CHR '',''), ch (CHR 0x5D), ch (CHR 0x7D)})"

lemma ends_digit: "ends r \<Longrightarrow> dropWhile is_digit r = r" "ends r \<Longrightarrow> r \<noteq> [] \<Longrightarrow> \<not> is_digit (hd r)"
  by (auto simp: ends_def is_digit_def split: list.splits)

lemma ends_take: "ends r \<Longrightarrow> c \<notin> {ch (CHR '',''), ch (CHR 0x5D), ch (CHR 0x7D)} \<Longrightarrow> take_char c r = None"
  by (auto simp: ends_def take_char_def split: list.splits)

lemma take_char_append: "take_char c s = Some t \<Longrightarrow> take_char c (s @ r) = Some (t @ r)"
  by (auto simp: take_char_def split: list.splits if_splits)

lemma take_char_append_None:
  assumes "take_char c s = None" "ends r" "c \<notin> {ch (CHR '',''), ch (CHR 0x5D), ch (CHR 0x7D)}"
  shows "take_char c (s @ r) = None"
proof (cases s)
  case Nil
  with ends_take [OF assms(2,3)] show ?thesis by simp
next
  case (Cons x xs)
  with assms(1) show ?thesis by (simp add: take_char_def split: if_splits)
qed

lemma digits1_append: "digits1 s = Some t \<Longrightarrow> ends r \<Longrightarrow> digits1 (s @ r) = Some (t @ r)"
  by (cases s) (auto simp: digits1_def dropWhile_append ends_digit dropWhile_eq_Nil_conv split: if_splits)

lemma opt_char_append: "ends r \<Longrightarrow> c \<notin> {ch (CHR '',''), ch (CHR 0x5D), ch (CHR 0x7D)} \<Longrightarrow> opt_char c (s @ r) = opt_char c s @ r"
  by (cases "take_char c s") (simp_all add: opt_char_def take_char_append take_char_append_None)

lemma skip_int_append: "skip_int s = Some t \<Longrightarrow> ends r \<Longrightarrow> skip_int (s @ r) = Some (t @ r)"
proof (cases "take_char (ch (CHR ''0'')) s")
  case None
  assume "skip_int s = Some t" "ends r"
  with None show ?thesis by (simp add: skip_int_def take_char_append_None digits1_append)
next
  case (Some u)
  assume a: "skip_int s = Some t" "ends r"
  with Some have "t = u" "u \<noteq> [] \<longrightarrow> \<not> is_digit (hd u)" by (auto simp: skip_int_def split: if_splits)
  with Some a ends_digit(2) show ?thesis
    by (cases u) (auto simp: skip_int_def take_char_append [OF Some, simplified])
qed

lemma skip_fraction_append: "skip_fraction s = Some t \<Longrightarrow> ends r \<Longrightarrow> skip_fraction (s @ r) = Some (t @ r)"
  by (cases "take_char (ch (CHR ''.'')) s")
    (simp_all add: skip_fraction_def take_char_append take_char_append_None digits1_append)

lemma sign_append:
  "ends r \<Longrightarrow> (case take_char (ch (CHR ''+'')) (t @ r) of Some u \<Rightarrow> u | None \<Rightarrow> opt_char (ch (CHR ''-'')) (t @ r)) =
    (case take_char (ch (CHR ''+'')) t of Some u \<Rightarrow> u | None \<Rightarrow> opt_char (ch (CHR ''-'')) t) @ r"
  by (cases "take_char (ch (CHR ''+'')) t") (simp_all add: take_char_append take_char_append_None opt_char_append)

lemma skip_exponent_append:
  assumes "skip_exponent s = Some t" "ends r"
  shows "skip_exponent (s @ r) = Some (t @ r)"
proof -
  define e where "e x = (case take_char (ch (CHR ''e'')) x of Some t \<Rightarrow> Some t | None \<Rightarrow> take_char (ch (CHR ''E'')) x)" for x
  have x: "e (s @ r) = (case e s of Some t \<Rightarrow> Some (t @ r) | None \<Rightarrow> None)"
    using assms(2) by (cases "take_char (ch (CHR ''e'')) s"; cases "take_char (ch (CHR ''E'')) s")
      (simp_all add: e_def take_char_append take_char_append_None)
  show ?thesis
    using assms(1) unfolding skip_exponent_def e_def [symmetric] x
    by (cases "e s") (simp_all add: sign_append [OF assms(2), simplified] digits1_append [OF _ assms(2)])
qed

lemma skip_number_append:
  assumes "skip_number s = Some t" "ends r"
  shows "skip_number (s @ r) = Some (t @ r)"
proof -
  from assms(1) obtain u v where u: "skip_int (opt_char (ch (CHR ''-'')) s) = Some u" "skip_fraction u = Some v"
      "skip_exponent v = Some t" by (auto simp: skip_number_def split: option.splits)
  have "opt_char (ch (CHR ''-'')) (s @ r) = opt_char (ch (CHR ''-'')) s @ r"
    using assms(2) by (rule opt_char_append) simp
  then show ?thesis
    using skip_int_append [OF u(1) assms(2)] skip_fraction_append [OF u(2) assms(2)] skip_exponent_append [OF u(3) assms(2)]
    by (simp add: skip_number_def)
qed

lemma number_start: "skip_number s = Some t \<Longrightarrow> \<exists>c u. s = c # u \<and> (c = ch (CHR ''-'') \<or> is_digit c)"
  by (cases s) (auto simp: skip_number_def opt_char_def skip_int_def digits1_def take_char_def is_digit_def split: option.splits if_splits)

section \<open>Values\<close>

lemma literal_append: "literal w (w @ r) = Some r"
  by (simp add: literal_def)

lemma parse_scalar_step:
  assumes "n < kMaxNodes" "\<not> is_space c" "c \<noteq> ch (CHR 0x7B)" "c \<noteq> ch (CHR 0x5B)"
  shows "parse_value (Suc l) n (c # s) = parse_scalar c (c # s) (n + 1)"
proof -
  have "spaces (c # s) = c # s" using assms(2) by (simp add: spaces_def)
  with assms show ?thesis by simp
qed

lemma parse_number:
  assumes "skip_number t = Some []" "ends r" "n < kMaxNodes"
  shows "parse_value (Suc l) n (t @ r) = Ok (JNumber t) r (n + 1)"
proof -
  obtain c u where t: "t = c # u" "c = ch (CHR ''-'') \<or> is_digit c" using number_start [OF assms(1)] by blast
  then have c: "\<not> is_space c" "c \<notin> {ch (CHR 0x7B), ch (CHR 0x5B), ch (CHR 0x22), ch (CHR ''n''), ch (CHR ''t''), ch (CHR ''f'')}"
    by (auto simp: is_digit_def is_space_def)
  have "skip_number (t @ r) = Some r" using skip_number_append [OF assms(1,2)] by simp
  then have "parse_scalar c (t @ r) (n + 1) = Ok (JNumber t) r (n + 1)"
    using c(2) by (simp add: parse_scalar_def)
  then show ?thesis using parse_scalar_step [OF assms(3) c(1)] c(2) by (simp add: t(1) del: parse_value.simps)
qed

definition prints_back :: "nat \<Rightarrow> Value \<Rightarrow> bool" where
  "prints_back l v \<longleftrightarrow> (\<forall>n r. n + json_nodes v \<le> kMaxNodes \<longrightarrow> ends r \<longrightarrow>
     parse_value l n (json_print v @ r) = Ok v r (n + json_nodes v))"

lemma prints_backD:
  "prints_back l v \<Longrightarrow> n + json_nodes v \<le> kMaxNodes \<Longrightarrow> ends r \<Longrightarrow>
    parse_value l n (json_print v @ r) = Ok v r (n + json_nodes v)"
  unfolding prints_back_def by blast

lemma ends_marks: "ends (ch (CHR '','') # r)" "ends (ch (CHR 0x5D) # r)" "ends (ch (CHR 0x7D) # r)"
  by (simp_all add: ends_def)

lemma join_cons: "xs \<noteq> [] \<Longrightarrow> json_join (x # xs) = x @ ch (CHR '','') # json_join xs"
  by (cases xs) simp_all

lemma take_marks:
  "take_char c (c # r) = Some r" "take_char (ch (CHR 0x5D)) (ch (CHR '','') # r) = None"
  "take_char (ch (CHR 0x7D)) (ch (CHR '','') # r) = None"
  by (simp_all add: take_char_def)

lemma elements_print:
  "xs \<noteq> [] \<Longrightarrow> list_all (prints_back l) xs \<Longrightarrow> length xs \<le> fuel \<Longrightarrow>
    n + sum_list (map json_nodes xs) \<le> kMaxNodes \<Longrightarrow>
    elements_loop (parse_value l) fuel acc n (json_join (map json_print xs) @ ch (CHR 0x5D) # r) =
      Ok (JArray (acc @ xs)) r (n + sum_list (map json_nodes xs))"
proof (induction xs arbitrary: fuel acc n)
  case (Cons x xs)
  obtain f where f: "fuel = Suc f" using Cons.prems(3) by (cases fuel) simp_all
  have x: "prints_back l x" "n + json_nodes x \<le> kMaxNodes" using Cons.prems by simp_all
  show ?case
  proof (cases "xs = []")
    case True
    then show ?thesis
      using prints_backD [OF x ends_marks(2)]
      by (simp add: f Let_def spaces_marks take_marks del: of_char_Char)
  next
    case False
    have "elements_loop (parse_value l) fuel acc n (json_join (map json_print (x # xs)) @ ch (CHR 0x5D) # r) =
        elements_loop (parse_value l) f (acc @ [x]) (n + json_nodes x) (json_join (map json_print xs) @ ch (CHR 0x5D) # r)"
      using prints_backD [OF x ends_marks(1)] False
      by (simp add: f Let_def spaces_marks take_marks join_cons del: of_char_Char)
    also have "\<dots> = Ok (JArray ((acc @ [x]) @ xs)) r (n + json_nodes x + sum_list (map json_nodes xs))"
      by (rule Cons.IH [OF False]) (use Cons.prems f in simp_all)
    finally show ?thesis by (simp add: add.assoc)
  qed
qed simp

lemma members_print:
  "ms \<noteq> [] \<Longrightarrow> list_all (\<lambda>m. prints_back l (snd m)) ms \<Longrightarrow> distinct (map fst (acc @ ms)) \<Longrightarrow> length ms \<le> fuel \<Longrightarrow>
    n + sum_list (map (\<lambda>m. json_nodes (snd m)) ms) \<le> kMaxNodes \<Longrightarrow>
    members_loop (parse_value l) fuel acc n
      (json_join (map (\<lambda>m. json_token (fst m) @ ch (CHR '':'') # json_print (snd m)) ms) @ ch (CHR 0x7D) # r) =
      Ok (JObject (acc @ ms)) r (n + sum_list (map (\<lambda>m. json_nodes (snd m)) ms))"
proof (induction ms arbitrary: fuel acc n)
  case (Cons m ms)
  obtain f where f: "fuel = Suc f" using Cons.prems(4) by (cases fuel) simp_all
  obtain k v where m: "m = (k, v)" by fastforce
  have x: "prints_back l v" "n + json_nodes v \<le> kMaxNodes" "k \<notin> set (map fst acc)" using Cons.prems m by auto
  show ?case
  proof (cases "ms = []")
    case True
    then show ?thesis
      using prints_backD [OF x(1,2) ends_marks(3)] x(3)
      by (simp add: f m Let_def spaces_token read_token spaces_marks take_marks del: of_char_Char)
  next
    case False
    have "members_loop (parse_value l) fuel acc n
        (json_join (map (\<lambda>m. json_token (fst m) @ ch (CHR '':'') # json_print (snd m)) (m # ms)) @ ch (CHR 0x7D) # r) =
      members_loop (parse_value l) f (acc @ [(k, v)]) (n + json_nodes v)
        (json_join (map (\<lambda>m. json_token (fst m) @ ch (CHR '':'') # json_print (snd m)) ms) @ ch (CHR 0x7D) # r)"
      using prints_backD [OF x(1,2) ends_marks(1)] x(3) False
      by (simp add: f m Let_def spaces_token read_token spaces_marks take_marks join_cons del: of_char_Char)
    also have "\<dots> = Ok (JObject ((acc @ [(k, v)]) @ ms)) r (n + json_nodes v + sum_list (map (\<lambda>m. json_nodes (snd m)) ms))"
      by (rule Cons.IH [OF False]) (use Cons.prems f m in simp_all)
    finally show ?thesis by (simp add: add.assoc m)
  qed
qed simp

lemma print_head: "json_wf l v \<Longrightarrow> \<exists>c u. json_print v = c # u \<and> \<not> is_space c \<and> c \<noteq> ch (CHR 0x5D)"
proof (cases v)
  case (JNumber t)
  assume "json_wf l v"
  with JNumber have "skip_number t = Some []" by (cases l) simp_all
  from number_start [OF this] obtain c u where "t = c # u" "c = ch (CHR ''-'') \<or> is_digit c" by blast
  with JNumber show ?thesis by (auto simp: is_digit_def is_space_def)
qed (simp_all add: json_token_def is_space_def)

lemma join_length: "\<forall>x \<in> set xs. x \<noteq> [] \<Longrightarrow> length xs \<le> length (json_join xs)"
  by (induction xs rule: json_join.induct) (auto simp: Suc_le_eq)

lemma spaces_head: "\<not> is_space c \<Longrightarrow> spaces (c # s) = c # s"
  by (simp add: spaces_def)

lemma prints_back_wf: "json_wf l v \<Longrightarrow> prints_back l v"
proof (induction l arbitrary: v)
  case (Suc l)
  show ?case
    unfolding prints_back_def
  proof (intro allI impI)
    fix n r assume n: "n + json_nodes v \<le> kMaxNodes" and r: "ends r"
    have n0: "n < kMaxNodes" "\<not> n + 1 > kMaxNodes" using n by (cases v; simp)+
    show "parse_value (Suc l) n (json_print v @ r) = Ok v r (n + json_nodes v)"
    proof (cases v)
      case JNull
      have "parse_value (Suc l) n (ch (CHR ''n'') # str ''ull'' @ r) =
          parse_scalar (ch (CHR ''n'')) (ch (CHR ''n'') # str ''ull'' @ r) (n + 1)"
        using n0 by (intro parse_scalar_step) (simp_all add: is_space_def)
      with JNull literal_append [of "str ''null''" r] show ?thesis by (simp add: parse_scalar_def del: parse_value.simps)
    next
      case (JBool b)
      have "parse_value (Suc l) n (ch (CHR ''t'') # str ''rue'' @ r) =
          parse_scalar (ch (CHR ''t'')) (ch (CHR ''t'') # str ''rue'' @ r) (n + 1)"
        "parse_value (Suc l) n (ch (CHR ''f'') # str ''alse'' @ r) =
          parse_scalar (ch (CHR ''f'')) (ch (CHR ''f'') # str ''alse'' @ r) (n + 1)"
        using n0 by (intro parse_scalar_step; simp add: is_space_def)+
      with JBool literal_append [of "str ''true''" r] literal_append [of "str ''false''" r] show ?thesis
        by (simp add: parse_scalar_def del: parse_value.simps)
    next
      case (JNumber t)
      with Suc.prems parse_number [OF _ r n0(1)] show ?thesis by (simp del: parse_value.simps)
    next
      case (JString s)
      with parse_token [OF n0(1)] show ?thesis by (simp del: parse_value.simps)
    next
      case (JArray xs)
      have pb: "list_all (prints_back l) xs" using Suc.prems Suc.IH JArray by (auto simp: list_all_iff)
      show ?thesis
      proof (cases xs)
        case Nil
        with JArray n0 show ?thesis by (simp add: spaces_marks [simplified] take_char_def)
      next
        case (Cons y ys)
        let ?rest = "json_join (map json_print xs) @ ch (CHR 0x5D) # r"
        from Suc.prems JArray Cons have "json_wf l y" by simp
        from print_head [OF this] obtain c u where y: "json_print y = c # u" "\<not> is_space c" "c \<noteq> ch (CHR 0x5D)" by blast
        then obtain u' where rest: "?rest = c # u'" using Cons by (cases ys) simp_all
        have "\<forall>x \<in> set (map json_print xs). x \<noteq> []"
          using Suc.prems JArray print_head by (fastforce simp: list_all_iff)
        from join_length [OF this] have len: "length xs \<le> length ?rest + 1" by simp
        have "parse_value (Suc l) n (ch (CHR 0x5B) # ?rest) = elements_loop (parse_value l) (length ?rest + 1) [] (n + 1) ?rest"
          using n0(2) y(2,3) unfolding rest by (simp add: spaces_marks [simplified] spaces_head take_char_def)
        also have "\<dots> = Ok (JArray ([] @ xs)) r (n + 1 + sum_list (map json_nodes xs))"
          by (rule elements_print [OF _ pb len]) (use n JArray Cons in simp_all)
        finally show ?thesis by (simp add: JArray del: parse_value.simps)
      qed
    next
      case (JObject ms)
      have pb: "list_all (\<lambda>m. prints_back l (snd m)) ms" and d: "distinct (map fst ([] @ ms))"
        using Suc.prems Suc.IH JObject by (auto simp: list_all_iff)
      let ?member = "\<lambda>m. json_token (fst m) @ ch (CHR '':'') # json_print (snd m)"
      show ?thesis
      proof (cases ms)
        case Nil
        with JObject n0 show ?thesis by (simp add: spaces_marks [simplified] take_char_def)
      next
        case (Cons y ys)
        let ?rest = "json_join (map ?member ms) @ ch (CHR 0x7D) # r"
        obtain u' where rest: "?rest = ch (CHR 0x22) # u'" using Cons by (cases ys) (simp_all add: json_token_def)
        have "\<forall>x \<in> set (map ?member ms). x \<noteq> []" by simp
        from join_length [OF this] have len: "length ms \<le> length ?rest + 1" by simp
        have "parse_value (Suc l) n (ch (CHR 0x7B) # ?rest) = members_loop (parse_value l) (length ?rest + 1) [] (n + 1) ?rest"
          using n0(2) unfolding rest by (simp add: spaces_marks [simplified] spaces_head is_space_def take_char_def)
        also have "\<dots> = Ok (JObject ([] @ ms)) r (n + 1 + sum_list (map (\<lambda>m. json_nodes (snd m)) ms))"
          by (rule members_print [OF _ pb d len]) (use n JObject Cons in simp_all)
        finally show ?thesis by (simp add: JObject del: parse_value.simps)
      qed
    qed
  qed
qed simp

section \<open>Valid UTF-8\<close>

lemma validUtf8_append: "validUtf8 s \<Longrightarrow> validUtf8 t \<Longrightarrow> validUtf8 (s @ t)"
proof (induction s rule: validUtf8.induct)
  case (2 b s)
  show ?case
  proof (cases "unat b < 128")
    case True
    with 2 show ?thesis by simp
  next
    case False
    obtain k m c where l: "utf8_lead (unat b) = Some (k, m, c)" using False 2(3) by (cases "utf8_lead (unat b)") auto
    obtain d r where u: "utf8_continue k c s = Some (d, r)" using False 2(3) l
      by (cases "utf8_continue k c s") (auto split: if_splits)
    from l u False 2(3) have k: "\<not> k > length s" and d: "\<not> (d < m \<or> d > 0x10ffff \<or> (d \<ge> 0xd800 \<and> d \<le> 0xdfff))"
        and v: "validUtf8 r" by (auto split: if_splits)
    from utf8_continue_split [OF u] obtain cs where cs: "s = cs @ r" "length cs = k"
        "\<And>ys. utf8_continue k c (cs @ ys) = Some (d, ys)" by blast
    have "validUtf8 (r @ t)" using 2(2) [OF False l refl refl k u refl d v "2.prems"(2)] .
    moreover have "validUtf8 (b # cs @ X) = validUtf8 X" for X using False l k d cs by auto
    ultimately show ?thesis by (simp add: cs(1) del: validUtf8.simps)
  qed
qed simp

lemma validUtf8_first: "unat c < 128 \<Longrightarrow> validUtf8 (c # s) = validUtf8 s"
  by simp

lemma validUtf8_token: "validUtf8 s \<Longrightarrow> validUtf8 (json_token s)"
  using validUtf8_quote [of s] by (simp add: json_token_def)

lemma validUtf8_join: "list_all validUtf8 xs \<Longrightarrow> validUtf8 (json_join xs)"
  by (induction xs rule: json_join.induct) (simp_all add: validUtf8_append)

lemma validUtf8_str: "list_all (\<lambda>c. unat (of_char c :: u8) < 128) w \<Longrightarrow> validUtf8 (str w)"
  by (induction w) simp_all

lemma validUtf8_print: "json_wf l v \<Longrightarrow> validUtf8 (json_print v)"
proof (induction l arbitrary: v)
  case (Suc l)
  show ?case
  proof (cases v)
    case (JArray xs)
    then have "list_all validUtf8 (map json_print xs)" using Suc by (auto simp: list_all_iff)
    from validUtf8_join [OF this] JArray show ?thesis by (simp add: validUtf8_append)
  next
    case (JObject ms)
    then have "list_all validUtf8 (map (\<lambda>m. json_token (fst m) @ ch (CHR '':'') # json_print (snd m)) ms)"
      using Suc by (auto simp: list_all_iff intro!: validUtf8_append validUtf8_token)
    from validUtf8_join [OF this] JObject show ?thesis by (simp add: validUtf8_append)
  qed (use Suc.prems in \<open>simp_all add: validUtf8_token\<close>)
qed simp

lemma parse_print:
  assumes "json_wf 33 v" "json_nodes v \<le> 16384" "length (json_print v) \<le> 1024 * 1024"
  shows "json_parse (json_print v) = Inr v"
proof -
  have "parse_value 33 0 (json_print v @ []) = Ok v [] (0 + json_nodes v)"
    by (rule prints_backD [OF prints_back_wf [OF assms(1)]]) (use assms(2) in \<open>simp_all add: kMaxNodes_def ends_def\<close>)
  with validUtf8_print [OF assms(1)] assms(3) show ?thesis by (simp add: json_parse_def spaces_def)
qed

section \<open>Properties\<close>

text \<open>C34: the reader accepts every JSON value within its limits: a value of at most 33 levels and
  16384 nodes with valid texts and distinct keys, printed within 1 MiB, reads back as itself; in
  particular every quoted string is read back as it was.\<close>

theorem json_print_roundtrip:
  assumes "json_wf 33 v" "json_nodes v \<le> 16384" "length (json_print v) \<le> 1024 * 1024"
  shows "json_parse (json_print v) = Inr v"
  using parse_print [OF assms] .

definition json_example :: Value where
  "json_example = JObject [(str ''a'', JArray [JNumber (str ''-1.5e3''), JNull, JBool True]), ([], JString [31, 195, 169])]"

lemma json_example_text: "json_print json_example =
    [123, 34, 97, 34, 58, 91, 45, 49, 46, 53, 101, 51, 44, 110, 117, 108, 108, 44, 116, 114, 117, 101, 93, 44,
     34, 34, 58, 34, 92, 117, 48, 48, 49, 102, 195, 169, 34, 125]"
  by code_simp

theorem json_print_roundtrip_witness:
  "json_parse [123, 34, 97, 34, 58, 91, 45, 49, 46, 53, 101, 51, 44, 110, 117, 108, 108, 44, 116, 114, 117, 101, 93, 44,
     34, 34, 58, 34, 92, 117, 48, 48, 49, 102, 195, 169, 34, 125] = Inr json_example"
proof -
  have t: "skip_number (str ''-1.5e3'') = Some []" "validUtf8 (str ''-1.5e3'')" "validUtf8 [31, 195, 169]" "validUtf8 (str ''a'')"
    by code_simp+
  have "json_wf (Suc (Suc (Suc l))) json_example" for l
    unfolding json_example_def by (simp add: t del: validUtf8.simps str_Cons) (simp add: str_def)
  from this [of 30] have "json_wf 33 json_example" by simp
  moreover have "json_nodes json_example \<le> 16384" by (simp add: json_example_def)
  ultimately show ?thesis
    using json_print_roundtrip [of json_example] by (simp add: json_example_text)
qed

end
