(* ===== verification/SessionCodec.thy ===== *)
theory SessionCodec
  imports JsonPrint
begin

text \<open>
  \<open>src/shared/receiver/signaling/signaling_models.h\<close> and \<open>session_codec.h\<close>: the messages of the
  signaling service and their validation. A C++ exception is the left side of the result; the
  checks and the fields are read in the order of the code, so the first failing one decides the
  message.
\<close>

section \<open>Messages\<close>

record IceServer =
  ice_urls :: "bytes list"
  ice_username :: bytes
  ice_credential :: bytes

record RtcConfiguration =
  rtc_iceServers :: "IceServer list"
  rtc_iceTransportPolicy :: bytes

record PollPolicy =
  poll_initialIntervalMs :: nat
  poll_backoffAfterMs :: nat
  poll_maxIntervalMs :: nat
  poll_timeoutMs :: nat

record CreateSessionResponse =
  cs_sessionId :: bytes
  cs_receiverToken :: bytes
  cs_joinUrl :: bytes
  cs_expiresAt :: bytes
  cs_poll :: PollPolicy
  cs_rtcConfiguration :: RtcConfiguration

record OfferDescription =
  offer_type :: bytes
  offer_sdp :: bytes

section \<open>Validation\<close>

definition safeHeader :: "bytes \<Rightarrow> bool" where
  "safeHeader s = list_all (\<lambda>c. \<not> (c < 32 \<or> c = 127)) s"

definition safe_id_char :: "u8 \<Rightarrow> bool" where
  "safe_id_char c \<longleftrightarrow> ch (CHR ''a'') \<le> c \<and> c \<le> ch (CHR ''z'') \<or> ch (CHR ''A'') \<le> c \<and> c \<le> ch (CHR ''Z'') \<or>
     ch (CHR ''0'') \<le> c \<and> c \<le> ch (CHR ''9'') \<or> c = ch (CHR ''_'') \<or> c = ch (CHR ''-'')"

definition safeSessionId :: "bytes \<Rightarrow> bool" where
  "safeSessionId s = (if s = [] \<or> length s > 128 then False else list_all safe_id_char s)"

definition starts_with :: "bytes \<Rightarrow> string \<Rightarrow> bool" where
  "starts_with s p \<longleftrightarrow> take (length p) s = str p"

definition supportedIceUrl :: "bytes \<Rightarrow> bool" where
  "supportedIceUrl s \<longleftrightarrow> length s \<le> 2048 \<and> safeHeader s \<and> ch (CHR '' '') \<notin> set s \<and>
     (starts_with s ''stun:'' \<or> starts_with s ''turn:'' \<or> starts_with s ''turns:'')"

section \<open>Decoding a session\<close>

abbreviation runtime_error :: "string \<Rightarrow> 'a res" where
  "runtime_error m \<equiv> Inl (RuntimeError m)"

definition string_at :: "Value \<Rightarrow> string \<Rightarrow> bytes res" where
  "string_at v name = bindR (json_at v (str name)) json_string"

definition uint32_at :: "Value \<Rightarrow> string \<Rightarrow> nat res" where
  "uint32_at v name = bindR (json_at v (str name)) json_uint32"

text \<open>\<open>if (const auto* x = v.find(name)) target = x->string();\<close>\<close>

definition string_or :: "bytes \<Rightarrow> Value \<Rightarrow> string \<Rightarrow> bytes res" where
  "string_or d v name = (case json_find v (str name) of None \<Rightarrow> Inr d | Some x \<Rightarrow> json_string x)"

fun strings_of :: "Value list \<Rightarrow> bytes list res" where
  "strings_of [] = Inr []"
| "strings_of (v # vs) = bindR (json_string v) (\<lambda>s. bindR (strings_of vs) (\<lambda>ss. Inr (s # ss)))"

definition decode_urls :: "Value \<Rightarrow> bytes list res" where
  "decode_urls urls =
     (case urls of
        JString s \<Rightarrow> Inr [s]
      | JArray vs \<Rightarrow> strings_of vs
      | _ \<Rightarrow> runtime_error ''invalid ICE URLs'')"

fun check_urls :: "bytes \<Rightarrow> bytes \<Rightarrow> bytes list \<Rightarrow> unit res" where
  "check_urls username credential [] = Inr ()"
| "check_urls username credential (url # urls) =
     (if \<not> supportedIceUrl url then runtime_error ''unsupported ICE URL''
      else if (starts_with url ''turn:'' \<or> starts_with url ''turns:'') \<and> (username = [] \<or> credential = [])
      then runtime_error ''missing TURN credentials''
      else check_urls username credential urls)"

text \<open>One server, with the count of URLs before and after it.\<close>

definition decode_server :: "nat \<Rightarrow> Value \<Rightarrow> (IceServer \<times> nat) res" where
  "decode_server urlCount item =
     bindR (json_at item (str ''urls'')) (\<lambda>v. bindR (decode_urls v) (\<lambda>urls.
       if urls = [] \<or> urlCount + length urls > 64 then runtime_error ''too many ICE URLs''
       else bindR (string_or [] item ''username'') (\<lambda>user. bindR (string_or [] item ''credential'') (\<lambda>password.
         if length user > 4096 \<or> length password > 4096 \<or> \<not> safeHeader user \<or> \<not> safeHeader password
         then runtime_error ''invalid ICE credentials''
         else bindR (string_or (str ''password'') item ''credentialType'') (\<lambda>kind.
           if kind \<noteq> str ''password'' then runtime_error ''unsupported ICE credential type''
           else bindR (check_urls user password urls) (\<lambda>_.
             Inr (\<lparr>ice_urls = urls, ice_username = user, ice_credential = password\<rparr>, urlCount + length urls)))))))"

fun decode_servers :: "nat \<Rightarrow> Value list \<Rightarrow> IceServer list res" where
  "decode_servers urlCount [] = Inr []"
| "decode_servers urlCount (item # items) =
     bindR (decode_server urlCount item) (\<lambda>(server, n). bindR (decode_servers n items) (\<lambda>rest. Inr (server # rest)))"

definition decode_poll :: "Value \<Rightarrow> PollPolicy res" where
  "decode_poll poll =
     bindR (uint32_at poll ''initialIntervalMs'') (\<lambda>initial. bindR (uint32_at poll ''backoffAfterMs'') (\<lambda>backoff.
       bindR (uint32_at poll ''maxIntervalMs'') (\<lambda>maximum. bindR (uint32_at poll ''timeoutMs'') (\<lambda>timeout.
         if initial < 20 \<or> maximum < initial \<or> maximum > 60000 \<or> timeout < maximum \<or> timeout > 3600000 \<or>
            backoff > timeout
         then runtime_error ''invalid poll policy''
         else Inr \<lparr>poll_initialIntervalMs = initial, poll_backoffAfterMs = backoff, poll_maxIntervalMs = maximum,
                poll_timeoutMs = timeout\<rparr>))))"

definition decode_rtc :: "Value \<Rightarrow> RtcConfiguration res" where
  "decode_rtc config =
     bindR (string_or (str ''all'') config ''iceTransportPolicy'') (\<lambda>policy.
       if policy \<noteq> str ''all'' \<and> policy \<noteq> str ''relay'' then runtime_error ''invalid ICE transport policy''
       else bindR (json_at config (str ''iceServers'')) (\<lambda>servers.
         case servers of
           JArray items \<Rightarrow>
             if length items > 32 then runtime_error ''invalid ICE server list''
             else bindR (decode_servers 0 items) (\<lambda>ss.
               Inr \<lparr>rtc_iceServers = ss, rtc_iceTransportPolicy = policy\<rparr>)
         | _ \<Rightarrow> runtime_error ''invalid ICE server list''))"

definition decodeSession :: "bytes \<Rightarrow> CreateSessionResponse res" where
  "decodeSession body =
     bindR (json_parse body) (\<lambda>root.
       bindR (string_at root ''sessionId'') (\<lambda>sessionId. bindR (string_at root ''receiverToken'') (\<lambda>token.
         bindR (string_at root ''joinUrl'') (\<lambda>joinUrl. bindR (string_at root ''expiresAt'') (\<lambda>expiresAt.
           if \<not> safeSessionId sessionId \<or> token = [] \<or> length token > 8192 \<or> \<not> safeHeader token \<or>
              \<not> safeHeader joinUrl \<or> length joinUrl > 8192 \<or>
              \<not> (starts_with joinUrl ''https://'' \<or> starts_with joinUrl ''http://'')
           then runtime_error ''invalid session identity or URL''
           else bindR (json_at root (str ''poll'')) (\<lambda>poll. bindR (decode_poll poll) (\<lambda>policy.
             bindR (json_at root (str ''rtcConfiguration'')) (\<lambda>config. bindR (decode_rtc config) (\<lambda>rtc.
               Inr \<lparr>cs_sessionId = sessionId, cs_receiverToken = token, cs_joinUrl = joinUrl,
                 cs_expiresAt = expiresAt, cs_poll = policy, cs_rtcConfiguration = rtc\<rparr>)))))))))"

definition decodeOffer :: "bytes \<Rightarrow> OfferDescription res" where
  "decodeOffer body =
     bindR (json_parse body) (\<lambda>root. bindR (string_at root ''type'') (\<lambda>type. bindR (string_at root ''sdp'') (\<lambda>sdp.
       if type \<noteq> str ''offer'' \<or> sdp = [] \<or> length sdp > 512 * 1024 \<or> 0 \<in> set sdp
       then runtime_error ''invalid SDP offer''
       else Inr \<lparr>offer_type = type, offer_sdp = sdp\<rparr>)))"

section \<open>What an accepted message satisfies\<close>

definition poll_ok :: "PollPolicy \<Rightarrow> bool" where
  "poll_ok p \<longleftrightarrow> 20 \<le> poll_initialIntervalMs p \<and> poll_initialIntervalMs p \<le> poll_maxIntervalMs p \<and>
     poll_maxIntervalMs p \<le> 60000 \<and> poll_maxIntervalMs p \<le> poll_timeoutMs p \<and> poll_timeoutMs p \<le> 3600000 \<and>
     poll_backoffAfterMs p \<le> poll_timeoutMs p"

definition url_ok :: "IceServer \<Rightarrow> bytes \<Rightarrow> bool" where
  "url_ok s url \<longleftrightarrow> supportedIceUrl url \<and>
     (if starts_with url ''stun:'' then True else ice_username s \<noteq> [] \<and> ice_credential s \<noteq> [])"

definition server_ok :: "IceServer \<Rightarrow> bool" where
  "server_ok s \<longleftrightarrow> ice_urls s \<noteq> [] \<and> list_all (url_ok s) (ice_urls s) \<and> safeHeader (ice_username s) \<and>
     safeHeader (ice_credential s) \<and> length (ice_username s) \<le> 4096 \<and> length (ice_credential s) \<le> 4096"

definition session_ok :: "CreateSessionResponse \<Rightarrow> bool" where
  "session_ok c \<longleftrightarrow> safeSessionId (cs_sessionId c) \<and> cs_receiverToken c \<noteq> [] \<and> length (cs_receiverToken c) \<le> 8192 \<and>
     safeHeader (cs_receiverToken c) \<and> safeHeader (cs_joinUrl c) \<and>
     (starts_with (cs_joinUrl c) ''https://'' \<or> starts_with (cs_joinUrl c) ''http://'') \<and> poll_ok (cs_poll c) \<and>
     rtc_iceTransportPolicy (cs_rtcConfiguration c) \<in> {str ''all'', str ''relay''} \<and>
     length (rtc_iceServers (cs_rtcConfiguration c)) \<le> 32 \<and> list_all server_ok (rtc_iceServers (cs_rtcConfiguration c)) \<and>
     sum_list (map (\<lambda>s. length (ice_urls s)) (rtc_iceServers (cs_rtcConfiguration c))) \<le> 64"

lemma if_error_Inr: "(if c then Inl e else r) = Inr x \<longleftrightarrow> \<not> c \<and> r = Inr x"
  by simp

lemma check_urls_ok:
  "check_urls user password urls = Inr () \<Longrightarrow> u \<in> set urls \<Longrightarrow>
    supportedIceUrl u \<and> (if starts_with u ''stun:'' then True else user \<noteq> [] \<and> password \<noteq> [])"
proof (induction urls)
  case (Cons v vs)
  show ?case
  proof (cases "u = v")
    case True
    with Cons.prems(1) show ?thesis by (auto simp: supportedIceUrl_def split: if_splits)
  next
    case False
    with Cons show ?thesis by (simp split: if_splits)
  qed
qed simp

lemma decode_server_ok:
  assumes "decode_server k item = Inr (s, n)"
  shows "server_ok s \<and> n = k + length (ice_urls s) \<and> n \<le> 64"
proof -
  from assms obtain urls user password where u: "urls \<noteq> []" "k + length urls \<le> 64"
      "length user \<le> 4096" "length password \<le> 4096" "safeHeader user" "safeHeader password"
      "check_urls user password urls = Inr ()"
      "s = \<lparr>ice_urls = urls, ice_username = user, ice_credential = password\<rparr>" "n = k + length urls"
    unfolding decode_server_def bindR_eq_Inr if_error_Inr by auto
  show ?thesis using u check_urls_ok [OF u(7)] by (simp add: server_ok_def url_ok_def list_all_iff)
qed

lemma decode_servers_ok:
  "decode_servers k items = Inr ss \<Longrightarrow> k \<le> 64 \<Longrightarrow>
    list_all server_ok ss \<and> length ss = length items \<and> k + sum_list (map (\<lambda>s. length (ice_urls s)) ss) \<le> 64"
proof (induction items arbitrary: k ss)
  case (Cons item items)
  from Cons.prems(1) obtain s n rest where d: "decode_server k item = Inr (s, n)" "decode_servers n items = Inr rest"
    "ss = s # rest" by (auto simp: bindR_eq_Inr)
  from decode_server_ok [OF d(1)] Cons.IH [OF d(2)] show ?case by (simp add: d(3))
qed simp

lemma decode_poll_ok: "decode_poll v = Inr p \<Longrightarrow> poll_ok p"
  by (auto simp: decode_poll_def bindR_eq_Inr if_error_Inr poll_ok_def)

lemma decode_rtc_ok:
  assumes "decode_rtc v = Inr c"
  shows "rtc_iceTransportPolicy c \<in> {str ''all'', str ''relay''} \<and> length (rtc_iceServers c) \<le> 32 \<and>
    list_all server_ok (rtc_iceServers c) \<and> sum_list (map (\<lambda>s. length (ice_urls s)) (rtc_iceServers c)) \<le> 64"
proof -
  from assms obtain policy servers where p: "policy \<in> {str ''all'', str ''relay''}"
      "(case servers of
         JArray items \<Rightarrow>
           if length items > 32 then runtime_error ''invalid ICE server list''
           else bindR (decode_servers 0 items) (\<lambda>ss. Inr \<lparr>rtc_iceServers = ss, rtc_iceTransportPolicy = policy\<rparr>)
       | _ \<Rightarrow> runtime_error ''invalid ICE server list'') = Inr c"
    unfolding decode_rtc_def bindR_eq_Inr if_error_Inr by blast
  from p(2) obtain items where items: "servers = JArray items" by (cases servers) simp_all
  from p(2) obtain ss where q: "length items \<le> 32" "decode_servers 0 items = Inr ss"
      "c = \<lparr>rtc_iceServers = ss, rtc_iceTransportPolicy = policy\<rparr>"
    unfolding items Value.case if_error_Inr bindR_eq_Inr by auto
  with p(1) decode_servers_ok [OF q(2)] show ?thesis by simp
qed

lemma decodeSession_ok: "decodeSession body = Inr c \<Longrightarrow> session_ok c"
  unfolding decodeSession_def bindR_eq_Inr if_error_Inr
  using decode_poll_ok decode_rtc_ok by (force simp: session_ok_def simp del: str_Cons)

lemma decodeOffer_ok:
  "decodeOffer body = Inr r \<Longrightarrow>
    offer_type r = str ''offer'' \<and> offer_sdp r \<noteq> [] \<and> length (offer_sdp r) \<le> 512 * 1024 \<and> 0 \<notin> set (offer_sdp r)"
  unfolding decodeOffer_def bindR_eq_Inr if_error_Inr by (auto simp del: str_Cons)

section \<open>An example message\<close>

definition session_message :: Value where
  "session_message = JObject
    [(str ''sessionId'', JString (str ''a'')), (str ''receiverToken'', JString (str ''t'')),
     (str ''joinUrl'', JString (str ''http://h'')), (str ''expiresAt'', JString []),
     (str ''poll'', JObject
       [(str ''initialIntervalMs'', JNumber (str ''20'')), (str ''backoffAfterMs'', JNumber (str ''0'')),
        (str ''maxIntervalMs'', JNumber (str ''20'')), (str ''timeoutMs'', JNumber (str ''40''))]),
     (str ''rtcConfiguration'', JObject
       [(str ''iceServers'', JArray [JObject [(str ''urls'', JString (str ''stun:h''))]])])]"

definition session_example :: CreateSessionResponse where
  "session_example = \<lparr>cs_sessionId = str ''a'', cs_receiverToken = str ''t'', cs_joinUrl = str ''http://h'',
     cs_expiresAt = [], cs_poll = \<lparr>poll_initialIntervalMs = 20, poll_backoffAfterMs = 0, poll_maxIntervalMs = 20,
       poll_timeoutMs = 40\<rparr>,
     cs_rtcConfiguration = \<lparr>rtc_iceServers = [\<lparr>ice_urls = [str ''stun:h''], ice_username = [], ice_credential = []\<rparr>],
       rtc_iceTransportPolicy = str ''all''\<rparr>\<rparr>"

lemma session_message_wf: "json_wf 33 session_message"
proof -
  have t: "skip_number (str ''20'') = Some []" "skip_number (str ''0'') = Some []" "skip_number (str ''40'') = Some []"
    by code_simp+
  have "json_wf (Suc (Suc (Suc (Suc (Suc l))))) session_message" for l
    unfolding session_message_def by (simp add: t [simplified])
  from this [of 28] show ?thesis by simp
qed

lemma session_message_length: "length (json_print session_message) \<le> 1024 * 1024"
  by (simp add: session_message_def json_token_def quote_char_def)

lemma session_message_parse: "json_parse (json_print session_message) = Inr session_message"
  by (rule parse_print [OF session_message_wf _ session_message_length]) (simp add: session_message_def)

lemma session_message_decode: "decodeSession (json_print session_message) = Inr session_example"
proof -
  have d: "from_chars_u32 (str ''20'') = Some (20, 2)" "from_chars_u32 (str ''0'') = Some (0, 1)"
    "from_chars_u32 (str ''40'') = Some (40, 2)" by code_simp+
  show ?thesis
    unfolding decodeSession_def session_message_parse bindR_Inr
    by (simp add: session_message_def session_example_def string_at_def uint32_at_def json_at_def json_find_def
        json_string_def json_uint32_def d [simplified] decode_poll_def decode_rtc_def decode_server_def decode_urls_def
        string_or_def safeSessionId_def safe_id_char_def safeHeader_def starts_with_def supportedIceUrl_def)
qed

end
