(* ===== verification/SessionClient.thy ===== *)
theory SessionClient
  imports SessionCodec
begin

text \<open>
  \<open>src/shared/receiver/signaling/session_client.h\<close> and the HTTP messages of
  \<open>src/shared/km/receiver_contracts.h\<close>. The transport is an interface of the platform: it is a
  parameter, a function from a request and the outside world to a response, or an exception, and
  the world after the call. The client's own state is its base URL and last error.
\<close>

section \<open>HTTP messages\<close>

record HttpRequest =
  rq_method :: bytes
  rq_url :: bytes
  rq_body :: bytes
  rq_headers :: "(bytes \<times> bytes) list"
  rq_timeoutMs :: nat
  rq_maxResponseBytes :: nat

record HttpResponse =
  rs_status :: int
  rs_body :: bytes
  rs_error :: bytes

type_synonym 'w transport = "HttpRequest \<Rightarrow> 'w \<Rightarrow> HttpResponse res \<times> 'w"

section \<open>The client\<close>

record client =
  sc_base :: bytes
  sc_error :: bytes

fun what :: "cpp_exception \<Rightarrow> bytes" where
  "what (RuntimeError m) = str m"
| "what (InvalidArgument m) = str m"
| "what (OverflowError m) = str m"
| "what (LogicError m) = str m"

definition sc_new :: "bytes \<Rightarrow> client res" where
  "sc_new baseUrl =
     (let base = rev (dropWhile (\<lambda>c. c = ch (CHR ''/'')) (rev baseUrl)) in
      if base = [] \<or> list_ex (\<lambda>c. c \<in> {ch (CHR ''?''), ch (CHR ''#''), 13, 10}) base
      then Inl (InvalidArgument ''invalid signaling base URL'')
      else Inr \<lparr>sc_base = base, sc_error = []\<rparr>)"

definition sc_build :: "client \<Rightarrow> string \<Rightarrow> bytes \<Rightarrow> bytes \<Rightarrow> bytes \<Rightarrow> HttpRequest" where
  "sc_build c method path token body =
     \<lparr>rq_method = str method, rq_url = sc_base c @ path, rq_body = body,
      rq_headers = [(str ''Accept'', str ''application/json'')] @
        (if body \<noteq> [] then [(str ''Content-Type'', str ''application/json'')] else []) @
        (if token \<noteq> [] then [(str ''Authorization'', str ''Bearer '' @ token)] else []),
      rq_timeoutMs = 10000, rq_maxResponseBytes = 1024 * 1024\<rparr>"

definition sc_request :: "'w transport \<Rightarrow> string \<Rightarrow> bytes \<Rightarrow> bytes \<Rightarrow> bytes \<Rightarrow> client \<Rightarrow> 'w \<Rightarrow>
    HttpResponse res \<times> client \<times> 'w" where
  "sc_request perform method path token body c w =
     (if \<not> safeHeader token \<or> length token > 8192 then
        (Inr \<lparr>rs_status = 0, rs_body = [], rs_error = str ''invalid bearer token''\<rparr>,
         c\<lparr>sc_error := str ''invalid bearer token''\<rparr>, w)
      else
        let request = sc_build c method path token body in
        case perform request w of
          (Inl e, w') \<Rightarrow> (Inl e, c\<lparr>sc_error := []\<rparr>, w')
        | (Inr r, w') \<Rightarrow>
            let response = (if length (rs_body r) > rq_maxResponseBytes request
                  then r\<lparr>rs_body := [], rs_status := 0, rs_error := str ''response exceeds byte limit''\<rparr> else r)
            in (Inr response, c\<lparr>sc_error := rs_error response\<rparr>, w'))"

text \<open>The \<open>try\<close> blocks: an exception of the request or of the decoder becomes the last error.\<close>

definition sc_caught :: "'a \<Rightarrow> ('b \<Rightarrow> 'a res) \<Rightarrow> 'b res \<times> client \<times> 'w \<Rightarrow> 'a \<times> client \<times> 'w" where
  "sc_caught d f r =
     (let (x, c, w) = r in
      case bindR x f of Inl e \<Rightarrow> (d, c\<lparr>sc_error := what e\<rparr>, w) | Inr a \<Rightarrow> (a, c, w))"

definition session_path :: "bytes \<Rightarrow> string \<Rightarrow> bytes" where
  "session_path sid suffix = str ''/v1/sessions/'' @ sid @ str suffix"

text \<open>A string literal with its double quotes.\<close>

definition quoted :: "string \<Rightarrow> bytes" where
  "quoted s = ch (CHR 0x22) # str s @ [ch (CHR 0x22)]"

definition sc_CreateSession :: "'w transport \<Rightarrow> bytes \<Rightarrow> client \<Rightarrow> 'w \<Rightarrow> CreateSessionResponse option \<times> client \<times> 'w" where
  "sc_CreateSession perform name c w =
     (case json_quote name of
        Inl e \<Rightarrow> (None, c\<lparr>sc_error := what e\<rparr>, w)
      | Inr q \<Rightarrow>
          sc_caught None (\<lambda>r. if rs_status r \<noteq> 201 then Inr None else bindR (decodeSession (rs_body r)) (\<lambda>s. Inr (Some s)))
            (sc_request perform ''POST'' (str ''/v1/sessions'') []
              (str ''{'' @ quoted ''client'' @ str '':{'' @ quoted ''name'' @ str '':'' @ q @ str '','' @
               quoted ''version'' @ str '':'' @ quoted ''0.2.0'' @ str ''}}'') c w))"

definition sc_PollOffer :: "'w transport \<Rightarrow> bytes \<Rightarrow> bytes \<Rightarrow> client \<Rightarrow> 'w \<Rightarrow> OfferDescription option \<times> client \<times> 'w" where
  "sc_PollOffer perform sid token c w =
     (if \<not> safeSessionId sid then (None, c\<lparr>sc_error := str ''invalid session ID''\<rparr>, w)
      else sc_caught None (\<lambda>r. if rs_status r \<noteq> 200 then Inr None else bindR (decodeOffer (rs_body r)) (\<lambda>s. Inr (Some s)))
             (sc_request perform ''GET'' (session_path sid ''/offer'') token [] c w))"

definition answer_body :: "bytes \<Rightarrow> bytes" where
  "answer_body q =
     str ''{'' @ quoted ''type'' @ str '':'' @ quoted ''answer'' @ str '','' @ quoted ''sdp'' @ str '':'' @ q @ str ''}''"

definition sc_PutAnswer :: "'w transport \<Rightarrow> bytes \<Rightarrow> bytes \<Rightarrow> bytes \<Rightarrow> client \<Rightarrow> 'w \<Rightarrow> bool \<times> client \<times> 'w" where
  "sc_PutAnswer perform sid token sdp c w =
     (if \<not> safeSessionId sid \<or> sdp = [] \<or> length sdp > 512 * 1024 then (False, c, w)
      else case json_quote sdp of
        Inl e \<Rightarrow> (False, c\<lparr>sc_error := what e\<rparr>, w)
      | Inr q \<Rightarrow> sc_caught False (\<lambda>r. Inr (rs_status r = 204))
                 (sc_request perform ''PUT'' (session_path sid ''/answer'') token (answer_body q) c w))"

definition sc_DeleteSession :: "'w transport \<Rightarrow> bytes \<Rightarrow> bytes \<Rightarrow> client \<Rightarrow> 'w \<Rightarrow> bool \<times> client \<times> 'w" where
  "sc_DeleteSession perform sid token c w =
     (if \<not> safeSessionId sid then (False, c, w)
      else sc_caught False (\<lambda>r. Inr (rs_status r = 204))
             (sc_request perform ''DELETE'' (session_path sid '''') token [] c w))"


section \<open>Every request is well formed\<close>

datatype client_op = OpCreate bytes | OpPoll bytes bytes | OpPut bytes bytes bytes | OpDelete bytes bytes

fun sc_step :: "'w transport \<Rightarrow> client_op \<Rightarrow> client \<times> 'w \<Rightarrow> client \<times> 'w" where
  "sc_step perform (OpCreate name) (c, w) = snd (sc_CreateSession perform name c w)"
| "sc_step perform (OpPoll sid token) (c, w) = snd (sc_PollOffer perform sid token c w)"
| "sc_step perform (OpPut sid token sdp) (c, w) = snd (sc_PutAnswer perform sid token sdp c w)"
| "sc_step perform (OpDelete sid token) (c, w) = snd (sc_DeleteSession perform sid token c w)"

text \<open>A transport that answers in any way that may depend on the history, and keeps the requests.\<close>

definition logging :: "(HttpRequest list \<Rightarrow> HttpRequest \<Rightarrow> HttpResponse res) \<Rightarrow> HttpRequest list transport" where
  "logging answer r log = (answer log r, log @ [r])"

definition path_ok :: "bytes \<Rightarrow> bool" where
  "path_ok p \<longleftrightarrow> p = str ''/v1/sessions'' \<or>
     (\<exists>sid suffix. safeSessionId sid \<and> suffix \<in> {'''', ''/offer'', ''/answer''} \<and> p = session_path sid suffix)"

definition request_ok :: "bytes \<Rightarrow> HttpRequest \<Rightarrow> bool" where
  "request_ok base r \<longleftrightarrow> (\<exists>p. path_ok p \<and> rq_url r = base @ p) \<and>
     list_all (\<lambda>(n, v). safeHeader n \<and> safeHeader v) (rq_headers r) \<and> rq_maxResponseBytes r = 1024 * 1024"

lemma safe_names:
  "safeHeader (str ''Accept'')" "safeHeader (str ''application/json'')" "safeHeader (str ''Content-Type'')"
  "safeHeader (str ''Authorization'')" "safeHeader (str ''Bearer '')"
  by (simp_all add: safeHeader_def)

lemma safeHeader_append: "safeHeader (a @ b) \<longleftrightarrow> safeHeader a \<and> safeHeader b"
  by (simp add: safeHeader_def)

lemma build_ok:
  "path_ok path \<Longrightarrow> safeHeader token \<Longrightarrow> request_ok (sc_base c) (sc_build c method path token body)"
  using safe_names unfolding request_ok_def sc_build_def
  by (auto simp: safeHeader_append simp del: str_Cons)

lemma caught_rest: "snd (sc_caught d f (x, c, w)) = (c', w') \<Longrightarrow> sc_base c' = sc_base c \<and> w' = w"
  by (auto simp: sc_caught_def Let_def split: sum.splits)

lemma request_logged:
  assumes "sc_request (logging answer) method path token body c log = (x, c', log')" "path_ok path"
  shows "sc_base c' = sc_base c \<and> (list_all (request_ok (sc_base c)) log \<longrightarrow> list_all (request_ok (sc_base c)) log')"
proof (cases "\<not> safeHeader token \<or> length token > 8192")
  case True
  with assms(1) show ?thesis by (auto simp: sc_request_def)
next
  case False
  then have "request_ok (sc_base c) (sc_build c method path token body)" using build_ok assms(2) by blast
  with False assms(1) show ?thesis
    by (auto simp: sc_request_def logging_def Let_def split: sum.splits)
qed

lemma paths_ok:
  "path_ok (str ''/v1/sessions'')"
  "safeSessionId sid \<Longrightarrow> suffix \<in> {'''', ''/offer'', ''/answer''} \<Longrightarrow> path_ok (session_path sid suffix)"
  unfolding path_ok_def by blast+

lemma caught_logged:
  assumes "path_ok path" "list_all (request_ok (sc_base c)) log"
    and "snd (sc_caught d f (sc_request (logging answer) method path token body c log)) = (c', log')"
  shows "sc_base c' = sc_base c \<and> list_all (request_ok (sc_base c)) log'"
proof -
  obtain x c1 log1 where r: "sc_request (logging answer) method path token body c log = (x, c1, log1)"
    by (cases "sc_request (logging answer) method path token body c log") auto
  show ?thesis using request_logged [OF r assms(1)] caught_rest [OF assms(3) [unfolded r]] assms(2) by simp
qed

lemma step_logged:
  assumes "list_all (request_ok (sc_base c)) log" "sc_step (logging answer) i (c, log) = (c', log')"
  shows "sc_base c' = sc_base c \<and> list_all (request_ok (sc_base c)) log'"
proof (cases i)
  case (OpCreate name)
  show ?thesis
  proof (cases "json_quote name")
    case (Inl e)
    with OpCreate assms show ?thesis by (auto simp: sc_CreateSession_def)
  next
    case (Inr q)
    note e = assms(2) [unfolded OpCreate sc_step.simps sc_CreateSession_def Inr sum.case]
    show ?thesis by (rule caught_logged [OF paths_ok(1) assms(1) e])
  qed
next
  case (OpPoll sid token)
  show ?thesis
  proof (cases "safeSessionId sid")
    case True
    then have p: "path_ok (session_path sid ''/offer'')" by (rule paths_ok) simp
    have "\<not> \<not> safeSessionId sid" using True by simp
    note e = assms(2) [unfolded OpPoll sc_step.simps sc_PollOffer_def if_not_P [OF this]]
    show ?thesis by (rule caught_logged [OF p assms(1) e])
  qed (use OpPoll assms in \<open>auto simp: sc_PollOffer_def\<close>)
next
  case (OpPut sid token sdp)
  show ?thesis
  proof (cases "\<not> safeSessionId sid \<or> sdp = [] \<or> length sdp > 512 * 1024")
    case False
    then have p: "path_ok (session_path sid ''/answer'')" by (intro paths_ok) simp_all
    show ?thesis
    proof (cases "json_quote sdp")
      case (Inl e)
      with OpPut assms False show ?thesis by (auto simp: sc_PutAnswer_def)
    next
      case (Inr q)
      note e = assms(2) [unfolded OpPut sc_step.simps sc_PutAnswer_def if_not_P [OF False] Inr sum.case]
      show ?thesis by (rule caught_logged [OF p assms(1) e])
    qed
  qed (use OpPut assms in \<open>auto simp: sc_PutAnswer_def\<close>)
next
  case (OpDelete sid token)
  show ?thesis
  proof (cases "safeSessionId sid")
    case True
    then have p: "path_ok (session_path sid '''')" by (rule paths_ok) simp
    have "\<not> \<not> safeSessionId sid" using True by simp
    note e = assms(2) [unfolded OpDelete sc_step.simps sc_DeleteSession_def if_not_P [OF this]]
    show ?thesis by (rule caught_logged [OF p assms(1) e])
  qed (use OpDelete assms in \<open>auto simp: sc_DeleteSession_def\<close>)
qed

lemma run_logged:
  "list_all (request_ok (sc_base c)) log \<Longrightarrow>
    list_all (request_ok (sc_base c)) (snd (fold (sc_step (logging answer)) ops (c, log)))"
proof (induction ops arbitrary: c log)
  case (Cons i ops)
  obtain c' log' where st: "sc_step (logging answer) i (c, log) = (c', log')" by fastforce
  from step_logged [OF Cons.prems st] Cons.IH [of c' log'] show ?case by (simp add: st)
qed simp


section \<open>The body of an answer\<close>

lemma quoted_token:
  "quoted ''type'' = json_token (str ''type'')" "quoted ''answer'' = json_token (str ''answer'')"
  "quoted ''sdp'' = json_token (str ''sdp'')"
  by (simp_all add: quoted_def json_token_def quote_char_def)

definition answer_value :: "bytes \<Rightarrow> Value" where
  "answer_value sdp = JObject [(str ''type'', JString (str ''answer'')), (str ''sdp'', JString sdp)]"

lemma answer_body_print: "answer_body (json_token sdp) = json_print (answer_value sdp)"
  by (simp add: answer_body_def answer_value_def quoted_token del: str_Cons) (simp add: str_def)

lemma answer_value_wf: "validUtf8 sdp \<Longrightarrow> json_wf (Suc (Suc l)) (answer_value sdp)"
  by (simp add: answer_value_def)

lemma answer_body_reads:
  assumes "json_quote sdp = Inr q" "length (answer_body q) \<le> 1024 * 1024"
  shows "json_parse (answer_body q) = Inr (answer_value sdp)"
proof -
  have q: "answer_body q = json_print (answer_value sdp)" and v: "validUtf8 sdp"
    using quote_token [OF assms(1)] by (simp_all add: answer_body_print)
  show ?thesis unfolding q by (rule parse_print [OF answer_value_wf [OF v, of 31, simplified]])
      (use assms(2) q in \<open>simp_all add: answer_value_def\<close>)
qed

lemma created_session_ok:
  "sc_CreateSession perform name c w = (Some s, c', w') \<Longrightarrow> session_ok s"
  by (auto simp: sc_CreateSession_def sc_caught_def case_prod_beta Let_def bindR_eq_Inr
      split: sum.splits if_splits dest: decodeSession_ok)

lemma polled_offer_ok:
  "sc_PollOffer perform sid token c w = (Some r, c', w') \<Longrightarrow>
    offer_sdp r \<noteq> [] \<and> length (offer_sdp r) \<le> 512 * 1024 \<and> 0 \<notin> set (offer_sdp r)"
  by (auto simp: sc_PollOffer_def sc_caught_def case_prod_beta Let_def bindR_eq_Inr
      split: sum.splits if_splits dest: decodeOffer_ok)

section \<open>Properties\<close>

text \<open>C37: no header or path injection: whatever names, identifiers, tokens and SDP texts the client
  is called with, and however the server answers, every request it makes has the base URL, without
  query, fragment or line break, followed by one of the paths of the protocol with a safe session
  identifier, and no control character in any header.\<close>

theorem sc_requests_safe:
  assumes "sc_new baseUrl = Inr c"
  shows "list_all (request_ok (sc_base c)) (snd (fold (sc_step (logging answer)) ops (c, []))) \<and>
    list_all (\<lambda>x. x \<notin> {ch (CHR ''?''), ch (CHR ''#''), 13, 10}) (sc_base c)"
  using run_logged [of c "[]" answer ops] assms
  by (auto simp: sc_new_def Let_def list_ex_iff list_all_iff split: if_splits)

theorem sc_requests_safe_witness:
  "list_all (request_ok (str ''http://h'')) (snd (fold (sc_step (logging (\<lambda>log r. Inl (RuntimeError ''down''))))
     [OpPoll (str ''a/b'') [13, 10], OpPoll (str ''ab'') (str ''t'')] (\<lparr>sc_base = str ''http://h'', sc_error = []\<rparr>, [])))"
proof -
  define c where "c = \<lparr>sc_base = str ''http://h'', sc_error = []\<rparr>"
  have b: "sc_base c = str ''http://h''" by (simp add: c_def)
  have "sc_new (str ''http://h//'') = Inr c" by (simp add: sc_new_def c_def)
  from sc_requests_safe [OF this, unfolded b] show ?thesis unfolding c_def by blast
qed



text \<open>The answer that is sent is the answer that was made: the body of the PUT request, within
  the reader's limit, reads back as an object of type answer with exactly the given SDP, whatever
  bytes of valid UTF-8 it holds.\<close>

theorem sc_answer_reads:
  assumes "json_quote sdp = Inr q" "length (answer_body q) \<le> 1024 * 1024"
  shows "json_parse (answer_body q) =
    Inr (JObject [(str ''type'', JString (str ''answer'')), (str ''sdp'', JString sdp)])"
  using answer_body_reads [OF assms] unfolding answer_value_def .

theorem sc_answer_reads_witness:
  "json_parse (answer_body [34, 118, 92, 117, 48, 48, 48, 100, 92, 34, 34]) =
    Inr (JObject [(str ''type'', JString (str ''answer'')), (str ''sdp'', JString [118, 13, 34])])"
proof (rule sc_answer_reads)
  show "json_quote [118, 13, 34] = Inr [34, 118, 92, 117, 48, 48, 48, 100, 92, 34, 34]" by code_simp
qed (simp add: answer_body_def quoted_def)

end
