(* ===== verification/SignalingWorker.thy ===== *)
theory SignalingWorker
  imports SessionClient
begin

text \<open>
  \<open>src/shared/receiver/signaling/signaling_worker.{h,cpp}\<close>: one session attempt, from the creation
  of the session to the accepted answer. \<open>run\<close> executes on the worker thread; everything it meets
  there is a parameter, a record of functions on the outside world: the HTTP transport, the clock,
  sleeping, a read of the atomic \<open>cancelRequested_\<close> (which the controlling thread may set between
  any two reads) and the answer factory. The callbacks \<open>onPhase\<close> and \<open>onSessionCreated\<close> are the
  trace of the run. The polling loop takes fuel; that a bounded amount is enough for every clock
  that moves is a theorem.
\<close>

section \<open>The worker thread\<close>

datatype SignalingPhase =
    CreatingSession | SessionCreated | WaitingForOffer | GeneratingAnswer | SendingAnswer
  | Succeeded | TimedOut | Failed | Canceled

datatype worker_event = WPhase SignalingPhase bytes | WSession CreateSessionResponse | WAnswer bytes

record 'w worker_env =
  we_perform :: "'w transport"
  we_now :: "'w \<Rightarrow> int \<times> 'w"
  we_sleep :: "int \<Rightarrow> 'w \<Rightarrow> 'w"
  we_cancelled :: "'w \<Rightarrow> bool \<times> 'w"
  we_makeAnswer :: "bytes \<Rightarrow> CreateSessionResponse \<Rightarrow> 'w \<Rightarrow> bytes option \<times> 'w"

record 'w worker =
  wk_client :: client
  wk_world :: 'w
  wk_trace :: "worker_event list"

definition wk_emit :: "worker_event \<Rightarrow> 'w worker \<Rightarrow> 'w worker" where
  "wk_emit v st = st\<lparr>wk_trace := wk_trace st @ [v]\<rparr>"

definition wk_report :: "SignalingPhase \<Rightarrow> bytes \<Rightarrow> 'w worker \<Rightarrow> 'w worker" where
  "wk_report phase detail st = wk_emit (WPhase phase detail) st"

definition wk_cancelled :: "'w worker_env \<Rightarrow> 'w worker \<Rightarrow> bool \<times> 'w worker" where
  "wk_cancelled env st = (let (b, w) = we_cancelled env (wk_world st) in (b, st\<lparr>wk_world := w\<rparr>))"

definition wk_fail :: "'w worker_env \<Rightarrow> bytes \<Rightarrow> string \<Rightarrow> 'w worker \<Rightarrow> 'w worker" where
  "wk_fail env error fallback st =
     (let (b, st1) = wk_cancelled env st in
      if b then wk_report Canceled [] st1
      else wk_report Failed (if error = [] then str fallback else error) st1)"

text \<open>The slices of 20 ms in which the worker sleeps.\<close>

function wk_wait :: "'w worker_env \<Rightarrow> int \<Rightarrow> int \<Rightarrow> 'w worker \<Rightarrow> 'w worker" where
  "wk_wait env intervalMs slept st =
     (if slept < intervalMs then
        let (b, st1) = wk_cancelled env st in
        if b then st1
        else wk_wait env intervalMs (slept + 20) (st1\<lparr>wk_world := we_sleep env 20000000 (wk_world st1)\<rparr>)
      else st)"
  by pat_completeness auto
termination by (relation "measure (\<lambda>(env, i, s, st). nat (i - s))") auto

declare wk_wait.simps [simp del]

text \<open>A new offer: whether the run ends here, and whether an answer was accepted.\<close>

definition wk_answer :: "'w worker_env \<Rightarrow> CreateSessionResponse \<Rightarrow> bool \<Rightarrow> bytes \<Rightarrow> 'w worker \<Rightarrow> bool \<times> 'w worker" where
  "wk_answer env session keep sdp st0 =
     (let st = wk_emit (WAnswer sdp) (wk_report GeneratingAnswer [] st0);
          (answer, w) = we_makeAnswer env sdp session (wk_world st);
          (b, st1) = wk_cancelled env (st\<lparr>wk_world := w\<rparr>)
      in if b then (True, wk_report Canceled [] st1)
         else case answer of
           None \<Rightarrow> (True, wk_report Failed (str ''answer generation failed'') st1)
         | Some a \<Rightarrow>
             if a = [] then (True, wk_report Failed (str ''answer generation failed'') st1)
             else
               let st2 = wk_report SendingAnswer [] st1;
                   (ok, c, w2) = sc_PutAnswer (we_perform env) (cs_sessionId session) (cs_receiverToken session) a
                      (wk_client st2) (wk_world st2);
                   st3 = st2\<lparr>wk_client := c, wk_world := w2\<rparr>
               in if \<not> ok then (True, wk_fail env (sc_error c) ''answer send failed'' st3)
                  else (\<not> keep, wk_report Succeeded [] st3))"

text \<open>The loop's variables.\<close>

record poll_vars =
  pv_intervalMs :: int
  pv_answered :: bool
  pv_answeredOfferSdp :: bytes

text \<open>The part of a turn that handles the polled offer: stop, the variables, the state.\<close>

definition wk_offer :: "'w worker_env \<Rightarrow> CreateSessionResponse \<Rightarrow> bool \<Rightarrow> poll_vars \<Rightarrow> OfferDescription option \<Rightarrow>
    'w worker \<Rightarrow> bool \<times> poll_vars \<times> 'w worker" where
  "wk_offer env session keep v offer st3 =
     (case offer of
        None \<Rightarrow> (False, v, st3)
      | Some r \<Rightarrow>
          let (b, st) = wk_cancelled env st3 in
          if \<not> b \<and> offer_sdp r \<noteq> pv_answeredOfferSdp v then
            let (stop, st') = wk_answer env session keep (offer_sdp r) st
            in (stop, v\<lparr>pv_answered := True, pv_answeredOfferSdp := offer_sdp r\<rparr>, st')
          else (False, v, st))"

text \<open>One turn of the polling loop; no variables means that the run ended.\<close>

definition wk_turn :: "'w worker_env \<Rightarrow> CreateSessionResponse \<Rightarrow> bool \<Rightarrow> int \<Rightarrow> poll_vars \<Rightarrow> 'w worker \<Rightarrow>
    poll_vars option \<times> 'w worker" where
  "wk_turn env session keep begin0 v st0 =
     (let (b, st1) = wk_cancelled env st0 in
      if b then (None, wk_report Canceled [] st1)
      else
        let (now, w) = we_now env (wk_world st1); st2 = st1\<lparr>wk_world := w\<rparr>;
            elapsedMs = cdiv (now - begin0) 1000000; policy = cs_poll session in
        if elapsedMs \<ge> int (poll_timeoutMs policy)
        then (None, if pv_answered v then st2 else wk_report TimedOut [] st2)
        else
          let (offer, c, w2) = sc_PollOffer (we_perform env) (cs_sessionId session) (cs_receiverToken session)
                 (wk_client st2) (wk_world st2);
              (stop, v1, st4) = wk_offer env session keep v offer (st2\<lparr>wk_client := c, wk_world := w2\<rparr>)
          in
            if stop then (None, st4)
            else
              let (b, st5) = wk_cancelled env st4 in
              if b then (None, wk_report Canceled [] st5)
              else
                let i = (if elapsedMs > int (poll_backoffAfterMs policy)
                         then min (pv_intervalMs v1 + 500) (int (poll_maxIntervalMs policy)) else pv_intervalMs v1)
                in (Some (v1\<lparr>pv_intervalMs := i\<rparr>), wk_wait env i 0 st5))"

fun wk_loop :: "nat \<Rightarrow> 'w worker_env \<Rightarrow> CreateSessionResponse \<Rightarrow> bool \<Rightarrow> int \<Rightarrow> poll_vars \<Rightarrow> 'w worker \<Rightarrow> 'w worker option" where
  "wk_loop 0 env session keep begin0 v st = None"
| "wk_loop (Suc fuel) env session keep begin0 v st =
     (case wk_turn env session keep begin0 v st of
        (None, st') \<Rightarrow> Some st'
      | (Some v', st') \<Rightarrow> wk_loop fuel env session keep begin0 v' st')"

definition wk_run :: "nat \<Rightarrow> 'w worker_env \<Rightarrow> bool \<Rightarrow> bytes \<Rightarrow> 'w worker \<Rightarrow> 'w worker option" where
  "wk_run fuel env keep clientName st0 =
     (let (b, st1) = wk_cancelled env st0 in
      if b then Some (wk_report Canceled [] st1)
      else
        let st2 = wk_report CreatingSession [] st1;
            (s, c, w) = sc_CreateSession (we_perform env) clientName (wk_client st2) (wk_world st2);
            st3 = st2\<lparr>wk_client := c, wk_world := w\<rparr>
        in case s of
             None \<Rightarrow> Some (wk_fail env (sc_error c) ''session creation failed'' st3)
           | Some session \<Rightarrow>
               let (b, st4) = wk_cancelled env st3 in
               if b then Some (wk_report Canceled [] st4)
               else
                 let st5 = wk_report WaitingForOffer [] (wk_emit (WSession session) (wk_report SessionCreated [] st4));
                     (begin0, w) = we_now env (wk_world st5)
                 in wk_loop fuel env session keep begin0
                      \<lparr>pv_intervalMs = int (poll_initialIntervalMs (cs_poll session)), pv_answered = False,
                       pv_answeredOfferSdp = []\<rparr> (st5\<lparr>wk_world := w\<rparr>))"

section \<open>The controlling thread\<close>

text \<open>
  The worker object as its owner sees it. \<open>sw_joinable\<close> is the state of the \<open>std::thread\<close>;
  \<open>spawned\<close> says whether creating the thread succeeded. \<open>sw_finish\<close> is the end of \<open>run\<close>, and
  joining an active run waits for it.
\<close>

record worker_object =
  sw_joinable :: bool
  sw_running :: bool
  sw_cancelRequested :: bool

definition sw_init :: worker_object where
  "sw_init = \<lparr>sw_joinable = False, sw_running = False, sw_cancelRequested = False\<rparr>"

definition sw_new :: "bytes \<Rightarrow> bool \<Rightarrow> (client \<times> worker_object) res" where
  "sw_new baseUrl hasAnswerFactory =
     bindR (sc_new baseUrl) (\<lambda>c. if \<not> hasAnswerFactory then Inl (InvalidArgument ''missing answer handler'')
       else Inr (c, sw_init))"

definition sw_finish :: "worker_object \<Rightarrow> worker_object" where
  "sw_finish s = s\<lparr>sw_running := False\<rparr>"

definition sw_start :: "bool \<Rightarrow> worker_object \<Rightarrow> bool \<times> worker_object" where
  "sw_start spawned s =
     (if sw_running s then (False, s)
      else
        let s1 = (if sw_joinable s then s\<lparr>sw_joinable := False\<rparr> else s);
            s2 = s1\<lparr>sw_cancelRequested := False, sw_running := True\<rparr>
        in if spawned then (True, s2\<lparr>sw_joinable := True\<rparr>) else (False, s2\<lparr>sw_running := False\<rparr>))"

text \<open>The flag says whether the transport's \<open>cancel\<close> is called.\<close>

definition sw_cancel :: "worker_object \<Rightarrow> bool \<times> bool \<times> worker_object" where
  "sw_cancel s =
     (if \<not> sw_joinable s then (False, False, s)
      else
        let wasActive = sw_running s; s1 = s\<lparr>sw_cancelRequested := True\<rparr>
        in (wasActive, wasActive, (sw_finish s1)\<lparr>sw_joinable := False\<rparr>))"

section \<open>The phases of a run\<close>

fun phases :: "worker_event list \<Rightarrow> SignalingPhase list" where
  "phases [] = []"
| "phases (WPhase p d # es) = p # phases es"
| "phases (e # es) = phases es"

fun answers :: "worker_event list \<Rightarrow> bytes list" where
  "answers [] = []"
| "answers (WAnswer a # es) = a # answers es"
| "answers (e # es) = answers es"

lemma phases_append [simp]: "phases (es @ fs) = phases es @ phases fs"
  by (induction es rule: phases.induct) simp_all

lemma answers_append [simp]: "answers (es @ fs) = answers es @ answers fs"
  by (induction es rule: answers.induct) simp_all

text \<open>Which phase may follow which.\<close>

fun follows :: "bool \<Rightarrow> SignalingPhase \<Rightarrow> SignalingPhase \<Rightarrow> bool" where
  "follows keep CreatingSession q \<longleftrightarrow> q \<in> {SessionCreated, Failed, Canceled}"
| "follows keep SessionCreated q \<longleftrightarrow> q = WaitingForOffer"
| "follows keep WaitingForOffer q \<longleftrightarrow> q \<in> {GeneratingAnswer, TimedOut, Canceled}"
| "follows keep GeneratingAnswer q \<longleftrightarrow> q \<in> {SendingAnswer, Failed, Canceled}"
| "follows keep SendingAnswer q \<longleftrightarrow> q \<in> {Succeeded, Failed, Canceled}"
| "follows keep Succeeded q \<longleftrightarrow> keep \<and> q \<in> {GeneratingAnswer, Canceled}"
| "follows keep _ q \<longleftrightarrow> False"

definition terminal :: "SignalingPhase \<Rightarrow> bool" where
  "terminal p \<longleftrightarrow> p \<in> {Succeeded, TimedOut, Failed, Canceled}"

text \<open>A run up to a phase in the given set, with no offer answered twice in a row.\<close>

definition at_phase :: "bool \<Rightarrow> SignalingPhase set \<Rightarrow> worker_event list \<Rightarrow> bool" where
  "at_phase keep P es \<longleftrightarrow> phases es \<noteq> [] \<and> hd (phases es) \<in> {CreatingSession, Canceled} \<and> last (phases es) \<in> P \<and>
     successively (follows keep) (phases es) \<and> distinct_adj (answers es)"

lemma at_phase_mono: "at_phase keep P es \<Longrightarrow> P \<subseteq> Q \<Longrightarrow> at_phase keep Q es"
  by (auto simp: at_phase_def)

lemma at_phase_next:
  assumes "at_phase keep P es" "\<forall>p \<in> P. follows keep p q"
  shows "at_phase keep {q} (es @ [WPhase q d])"
  using assms by (auto simp: at_phase_def successively_append_iff)

lemma at_phase_silent: "at_phase keep P es \<Longrightarrow> at_phase keep P (es @ [WSession s])"
  by (simp add: at_phase_def)

lemma at_phase_answer:
  assumes "at_phase keep P es" "answers es \<noteq> [] \<Longrightarrow> last (answers es) \<noteq> a"
  shows "at_phase keep P (es @ [WAnswer a])"
  using assms by (cases "answers es = []") (auto simp: at_phase_def distinct_adj_append_iff)

lemma trace_report [simp]: "wk_trace (wk_report p d st) = wk_trace st @ [WPhase p d]"
  by (simp add: wk_report_def wk_emit_def)

lemma trace_cancelled: "wk_cancelled env st = (b, st') \<Longrightarrow> wk_trace st' = wk_trace st"
  by (auto simp: wk_cancelled_def case_prod_beta Let_def)

lemma trace_wait: "wk_trace (wk_wait env i s st) = wk_trace st"
proof (induction env i s st rule: wk_wait.induct)
  case (1 env i s st)
  obtain b st1 where c: "wk_cancelled env st = (b, st1)" by fastforce
  then show ?case
    using 1 [OF _ c [symmetric]] trace_cancelled [OF c] by (subst wk_wait.simps) simp
qed

lemma at_phase_fail:
  assumes "at_phase keep P (wk_trace st)" "\<forall>p \<in> P. follows keep p Failed \<and> follows keep p Canceled"
  shows "at_phase keep {Failed, Canceled} (wk_trace (wk_fail env e f st))"
proof -
  obtain b st1 where c: "wk_cancelled env st = (b, st1)" by fastforce
  have "at_phase keep {q} (wk_trace st1 @ [WPhase q d])" if "q = Failed \<or> q = Canceled" for q d
    unfolding trace_cancelled [OF c] by (rule at_phase_next [OF assms(1)]) (use assms(2) that in auto)
  then show ?thesis by (auto simp: wk_fail_def c intro: at_phase_mono)
qed

lemma answer_spec:
  assumes "at_phase keep {WaitingForOffer, Succeeded} (wk_trace st0)" "last (phases (wk_trace st0)) = Succeeded \<longrightarrow> keep"
    and "answers (wk_trace st0) \<noteq> [] \<Longrightarrow> last (answers (wk_trace st0)) \<noteq> sdp"
    and "wk_answer env session keep sdp st0 = (stop, st')"
  shows "if stop then at_phase keep {Succeeded, Failed, Canceled} (wk_trace st')
    else keep \<and> at_phase keep {Succeeded} (wk_trace st') \<and> answers (wk_trace st') = answers (wk_trace st0) @ [sdp]"
proof -
  let ?P = "{WaitingForOffer, Succeeded}"
  have a0: "at_phase keep {last (phases (wk_trace st0))} (wk_trace st0)" using assms(1) by (simp add: at_phase_def)
  have "follows keep (last (phases (wk_trace st0))) GeneratingAnswer"
    using assms(1,2) by (auto simp: at_phase_def)
  then have "at_phase keep {GeneratingAnswer} (wk_trace st0 @ [WPhase GeneratingAnswer []])"
    by (intro at_phase_next [OF a0]) simp
  from at_phase_answer [OF this, of sdp] assms(3)
  have a1: "at_phase keep {GeneratingAnswer} (wk_trace st0 @ [WPhase GeneratingAnswer [], WAnswer sdp])" by simp
  let ?st = "wk_emit (WAnswer sdp) (wk_report GeneratingAnswer [] st0)"
  obtain an w where m: "we_makeAnswer env sdp session (wk_world ?st) = (an, w)" by fastforce
  obtain b st1 where c: "wk_cancelled env (?st\<lparr>wk_world := w\<rparr>) = (b, st1)" by fastforce
  have t1: "wk_trace st1 = wk_trace st0 @ [WPhase GeneratingAnswer [], WAnswer sdp]"
    using trace_cancelled [OF c] by (simp add: wk_emit_def)
  have a2: "at_phase keep {q} (wk_trace st1 @ [WPhase q d])" if "q \<in> {SendingAnswer, Failed, Canceled}" for q d
    unfolding t1 by (rule at_phase_next [OF a1]) (use that in simp)
  obtain ok cl w2 where p: "sc_PutAnswer (we_perform env) (cs_sessionId session) (cs_receiverToken session) (the an)
      (wk_client (wk_report SendingAnswer [] st1)) (wk_world (wk_report SendingAnswer [] st1)) = (ok, cl, w2)"
    by (metis prod_cases3)
  define st3 where "st3 = (wk_report SendingAnswer [] st1)\<lparr>wk_client := cl, wk_world := w2\<rparr>"
  have t3: "wk_trace st3 = wk_trace st1 @ [WPhase SendingAnswer []]" by (simp add: st3_def)
  have a3: "at_phase keep {SendingAnswer} (wk_trace st3)" unfolding t3 by (rule a2) simp
  have e: "wk_answer env session keep sdp st0 =
      (if b then (True, wk_report Canceled [] st1)
       else if an = None \<or> an = Some [] then (True, wk_report Failed (str ''answer generation failed'') st1)
       else if \<not> ok then (True, wk_fail env (sc_error cl) ''answer send failed'' st3)
       else (\<not> keep, wk_report Succeeded [] st3))"
    unfolding wk_answer_def Let_def m split_conv c
    using p by (cases an) (simp_all add: st3_def del: trace_report)
  have s: "at_phase keep {Succeeded} (wk_trace (wk_report Succeeded [] st3))"
    using at_phase_next [OF a3, of Succeeded "[]"] by simp
  have f: "at_phase keep {Failed, Canceled} (wk_trace (wk_fail env (sc_error cl) ''answer send failed'' st3))"
    by (rule at_phase_fail [OF a3]) simp
  have an: "answers (wk_trace (wk_report Succeeded [] st3)) = answers (wk_trace st0) @ [sdp]"
    by (simp add: t3 t1)
  have ends: "at_phase keep {Succeeded, Failed, Canceled} (wk_trace st1 @ [WPhase q d])" if "q \<in> {Failed, Canceled}" for q d
    using that by (intro at_phase_mono [OF a2]) auto
  note f' = at_phase_mono [OF f, of "{Succeeded, Failed, Canceled}"] and s' = at_phase_mono [OF s, of "{Succeeded, Failed, Canceled}"]
  show ?thesis
    using assms(4) [unfolded e] ends f' s' s an
    by (auto split: if_splits)
qed

definition turn_inv :: "bool \<Rightarrow> poll_vars \<Rightarrow> worker_event list \<Rightarrow> bool" where
  "turn_inv keep v es \<longleftrightarrow> at_phase keep {WaitingForOffer, Succeeded} es \<and>
     (last (phases es) = Succeeded \<longleftrightarrow> pv_answered v) \<and> (pv_answered v \<longrightarrow> keep) \<and>
     (answers es \<noteq> [] \<longrightarrow> last (answers es) = pv_answeredOfferSdp v)"

abbreviation final_phases :: "SignalingPhase set" where
  "final_phases \<equiv> {Succeeded, TimedOut, Failed, Canceled}"

lemma turn_inv_end:
  assumes "turn_inv keep v es" "q = Canceled \<or> q = TimedOut \<and> \<not> pv_answered v"
  shows "at_phase keep final_phases (es @ [WPhase q d])"
proof -
  have "at_phase keep {last (phases es)} es" using assms(1) by (auto simp: turn_inv_def at_phase_def)
  moreover have "follows keep (last (phases es)) q"
    using assms by (auto simp: turn_inv_def at_phase_def)
  ultimately have "at_phase keep {q} (es @ [WPhase q d])"
    by (intro at_phase_next [where P = "{last (phases es)}"]) simp_all
  then show ?thesis by (rule at_phase_mono) (use assms(2) in auto)
qed

lemma turn_inv_quiet_end: "turn_inv keep v es \<Longrightarrow> pv_answered v \<Longrightarrow> at_phase keep final_phases es"
  by (auto simp: turn_inv_def at_phase_def)

lemma offer_spec:
  assumes "turn_inv keep v (wk_trace st3)" "wk_offer env session keep v offer st3 = (stop, v', st')"
  shows "if stop then at_phase keep final_phases (wk_trace st') else turn_inv keep v' (wk_trace st')"
proof (cases offer)
  case None
  with assms show ?thesis by (auto simp: wk_offer_def)
next
  case (Some r)
  obtain b st where c: "wk_cancelled env st3 = (b, st)" by fastforce
  have t: "turn_inv keep v (wk_trace st)" using assms(1) trace_cancelled [OF c] by simp
  show ?thesis
  proof (cases "\<not> b \<and> offer_sdp r \<noteq> pv_answeredOfferSdp v")
    case False
    with assms(2) t show ?thesis by (auto simp: wk_offer_def Some c)
  next
    case True
    obtain q su where a: "wk_answer env session keep (offer_sdp r) st = (q, su)" by fastforce
    with assms(2) True have e: "stop = q" "v' = v\<lparr>pv_answered := True, pv_answeredOfferSdp := offer_sdp r\<rparr>" "st' = su"
      by (simp_all add: wk_offer_def Some c)
    have "if q then at_phase keep {Succeeded, Failed, Canceled} (wk_trace su)
      else keep \<and> at_phase keep {Succeeded} (wk_trace su) \<and> answers (wk_trace su) = answers (wk_trace st) @ [offer_sdp r]"
      by (rule answer_spec [OF _ _ _ a]) (use t True in \<open>auto simp: turn_inv_def\<close>)
    then show ?thesis
      unfolding e
      by (auto simp: turn_inv_def at_phase_def intro: at_phase_mono split: if_splits)
  qed
qed

lemma turn_spec:
  assumes "turn_inv keep v (wk_trace st0)" "wk_turn env session keep begin0 v st0 = (r, st')"
  shows "case r of None \<Rightarrow> at_phase keep final_phases (wk_trace st') | Some v' \<Rightarrow> turn_inv keep v' (wk_trace st')"
proof -
  obtain b st1 where c: "wk_cancelled env st0 = (b, st1)" by fastforce
  have i1: "turn_inv keep v (wk_trace st1)" using assms(1) trace_cancelled [OF c] by simp
  obtain now w where n: "we_now env (wk_world st1) = (now, w)" by fastforce
  define st2 where "st2 = st1\<lparr>wk_world := w\<rparr>"
  obtain offer cl w2 where p: "sc_PollOffer (we_perform env) (cs_sessionId session) (cs_receiverToken session)
      (wk_client st2) (wk_world st2) = (offer, cl, w2)" by (metis prod_cases3)
  define st3 where "st3 = st2\<lparr>wk_client := cl, wk_world := w2\<rparr>"
  obtain stop v1 st4 where o: "wk_offer env session keep v offer st3 = (stop, v1, st4)" by (metis prod_cases3)
  have i3: "turn_inv keep v (wk_trace st3)" "turn_inv keep v (wk_trace st2)" using i1 by (simp_all add: st3_def st2_def)
  note os = offer_spec [OF i3(1) o]
  obtain b2 st5 where c2: "wk_cancelled env st4 = (b2, st5)" by fastforce
  have t5: "wk_trace st5 = wk_trace st4" using trace_cancelled [OF c2] by simp
  define i where "i = (if cdiv (now - begin0) 1000000 > int (poll_backoffAfterMs (cs_poll session))
      then min (pv_intervalMs v1 + 500) (int (poll_maxIntervalMs (cs_poll session))) else pv_intervalMs v1)"
  have e: "wk_turn env session keep begin0 v st0 =
      (if b then (None, wk_report Canceled [] st1)
       else if cdiv (now - begin0) 1000000 \<ge> int (poll_timeoutMs (cs_poll session))
       then (None, if pv_answered v then st2 else wk_report TimedOut [] st2)
       else if stop then (None, st4)
       else if b2 then (None, wk_report Canceled [] st5)
       else (Some (v1\<lparr>pv_intervalMs := i\<rparr>), wk_wait env i 0 st5))"
    unfolding wk_turn_def c split_conv Let_def n st2_def [symmetric] p st3_def [symmetric] o c2 i_def [symmetric] ..
  have "turn_inv keep (v1\<lparr>pv_intervalMs := i\<rparr>) (wk_trace (wk_wait env i 0 st5))" if "\<not> stop"
    using os that t5 by (simp add: trace_wait turn_inv_def)
  moreover have "at_phase keep final_phases (wk_trace st5 @ [WPhase Canceled []])" if "\<not> stop"
    using os that by (auto simp: t5 intro: turn_inv_end)
  moreover have "at_phase keep final_phases (wk_trace st1 @ [WPhase Canceled []])" using i1 by (auto intro: turn_inv_end)
  moreover have "at_phase keep final_phases (wk_trace st2 @ [WPhase TimedOut []])" if "\<not> pv_answered v"
    using i3(2) that by (auto intro: turn_inv_end)
  moreover have "at_phase keep final_phases (wk_trace st2)" if "pv_answered v"
    using i3(2) that by (rule turn_inv_quiet_end)
  ultimately show ?thesis
    using assms(2) [unfolded e] os by (auto split: if_splits)
qed

lemma loop_spec:
  "turn_inv keep v (wk_trace st0) \<Longrightarrow> wk_loop fuel env session keep begin0 v st0 = Some st' \<Longrightarrow>
    at_phase keep final_phases (wk_trace st')"
proof (induction fuel arbitrary: v st0)
  case (Suc fuel)
  obtain r st1 where t: "wk_turn env session keep begin0 v st0 = (r, st1)" by fastforce
  from turn_spec [OF Suc.prems(1) t] Suc.prems(2) Suc.IH show ?case
    by (cases r) (simp_all add: t)
qed simp

lemma run_spec:
  assumes "wk_trace st0 = []" "wk_run fuel env keep name st0 = Some st'"
  shows "at_phase keep final_phases (wk_trace st')"
proof -
  obtain b st1 where c: "wk_cancelled env st0 = (b, st1)" by fastforce
  have t1: "wk_trace st1 = []" using assms(1) trace_cancelled [OF c] by simp
  define st2 where "st2 = wk_report CreatingSession [] st1"
  obtain s cl w where p: "sc_CreateSession (we_perform env) name (wk_client st2) (wk_world st2) = (s, cl, w)"
    by (metis prod_cases3)
  define st3 where "st3 = st2\<lparr>wk_client := cl, wk_world := w\<rparr>"
  obtain b2 st4 where c2: "wk_cancelled env st3 = (b2, st4)" by fastforce
  have t3: "wk_trace st3 = [WPhase CreatingSession []]" "wk_trace st4 = wk_trace st3"
    using trace_cancelled [OF c2] by (simp_all add: st3_def st2_def t1)
  define st5 where "st5 = wk_report WaitingForOffer [] (wk_emit (WSession (the s)) (wk_report SessionCreated [] st4))"
  obtain begin0 w2 where n: "we_now env (wk_world st5) = (begin0, w2)" by fastforce
  define v where "v = \<lparr>pv_intervalMs = int (poll_initialIntervalMs (cs_poll (the s))), pv_answered = False, pv_answeredOfferSdp = []\<rparr>"
  have e: "wk_run fuel env keep name st0 =
      (if b then Some (wk_report Canceled [] st1)
       else case s of None \<Rightarrow> Some (wk_fail env (sc_error cl) ''session creation failed'' st3)
       | Some session \<Rightarrow> if b2 then Some (wk_report Canceled [] st4)
           else wk_loop fuel env (the s) keep begin0 v (st5\<lparr>wk_world := w2\<rparr>))"
    unfolding wk_run_def Let_def c split_conv st2_def [symmetric] p st3_def [symmetric]
    using n by (cases s) (simp_all add: c2 st5_def v_def)
  have a3: "at_phase keep {CreatingSession} (wk_trace st3)" by (simp add: t3 at_phase_def)
  have "turn_inv keep v (wk_trace (st5\<lparr>wk_world := w2\<rparr>))"
    by (simp add: st5_def t3 wk_emit_def turn_inv_def at_phase_def v_def)
  note loop = loop_spec [OF this]
  show ?thesis
  proof (cases "b \<or> s = None \<or> b2")
    case True
    have "at_phase keep {Canceled} (wk_trace st3 @ [WPhase Canceled []])" by (rule at_phase_next [OF a3]) simp
    moreover have "at_phase keep {Failed, Canceled} (wk_trace (wk_fail env (sc_error cl) ''session creation failed'' st3))"
      by (rule at_phase_fail [OF a3]) simp
    moreover have "at_phase keep {Canceled} (wk_trace st1 @ [WPhase Canceled []])" by (simp add: t1 at_phase_def)
    ultimately show ?thesis
      using assms(2) [unfolded e] True t3 by (cases s) (auto split: if_splits simp: at_phase_def)
  next
    case False
    then show ?thesis using loop assms(2) [unfolded e] by auto
  qed
qed


section \<open>The run ends\<close>

text \<open>
  A world in which time does not go back, sleeping takes at least the time asked for, and a
  cancellation, once seen, stays (\<open>cancelRequested_\<close> is only cleared by \<open>start\<close>).
\<close>

definition timely :: "'w worker_env \<Rightarrow> ('w \<Rightarrow> int) \<Rightarrow> ('w \<Rightarrow> bool) \<Rightarrow> bool" where
  "timely env clock stuck \<longleftrightarrow>
     (\<forall>w t w'. we_now env w = (t, w') \<longrightarrow> clock w \<le> t \<and> t \<le> clock w' \<and> (stuck w \<longrightarrow> stuck w')) \<and>
     (\<forall>d w. clock w + d \<le> clock (we_sleep env d w) \<and> (stuck w \<longrightarrow> stuck (we_sleep env d w))) \<and>
     (\<forall>w b w'. we_cancelled env w = (b, w') \<longrightarrow> clock w \<le> clock w' \<and> (b \<longleftrightarrow> stuck w') \<and> (stuck w \<longrightarrow> stuck w')) \<and>
     (\<forall>r w x w'. we_perform env r w = (x, w') \<longrightarrow> clock w \<le> clock w' \<and> (stuck w \<longrightarrow> stuck w')) \<and>
     (\<forall>sdp s w x w'. we_makeAnswer env sdp s w = (x, w') \<longrightarrow> clock w \<le> clock w' \<and> (stuck w \<longrightarrow> stuck w'))"

text \<open>Time has passed from one world to another, and a cancellation is still seen.\<close>

definition later :: "('w \<Rightarrow> int) \<Rightarrow> ('w \<Rightarrow> bool) \<Rightarrow> 'w \<Rightarrow> 'w \<Rightarrow> bool" where
  "later clock stuck w w' \<longleftrightarrow> clock w \<le> clock w' \<and> (stuck w \<longrightarrow> stuck w')"

lemma later_refl [simp]: "later clock stuck w w"
  by (simp add: later_def)

lemma later_trans: "later clock stuck w w' \<Longrightarrow> later clock stuck w' w'' \<Longrightarrow> later clock stuck w w''"
  by (auto simp: later_def)

lemma timely_cancelled:
  assumes "timely env clock stuck" "wk_cancelled env st = (b, st')"
  shows "later clock stuck (wk_world st) (wk_world st') \<and> (b \<longleftrightarrow> stuck (wk_world st'))"
proof -
  obtain c w where w: "we_cancelled env (wk_world st) = (c, w)" by fastforce
  with assms(2) have "b = c" "wk_world st' = w" by (auto simp: wk_cancelled_def)
  moreover have "clock (wk_world st) \<le> clock w \<and> (c \<longleftrightarrow> stuck w) \<and> (stuck (wk_world st) \<longrightarrow> stuck w)"
    using assms(1) w unfolding timely_def by metis
  ultimately show ?thesis by (simp add: later_def)
qed

lemma timely_now: "timely env clock stuck \<Longrightarrow> we_now env w = (t, w') \<Longrightarrow> clock w \<le> t \<and> t \<le> clock w' \<and> later clock stuck w w'"
  by (fastforce simp: timely_def later_def)

lemma timely_sleep: "timely env clock stuck \<Longrightarrow>
    clock w + d \<le> clock (we_sleep env d w) \<and> (stuck w \<longrightarrow> stuck (we_sleep env d w))"
  by (simp add: timely_def)

lemma timely_request:
  assumes "timely env clock stuck" "sc_request (we_perform env) m p t b c w = (x, c', w')"
  shows "later clock stuck w w'"
proof (cases "\<not> safeHeader t \<or> length t > 8192")
  case False
  obtain y v where p: "we_perform env (sc_build c m p t b) w = (y, v)" by fastforce
  with assms False have "w' = v" by (cases y) (auto simp: sc_request_def Let_def)
  with assms(1) p show ?thesis unfolding timely_def later_def by metis
qed (use assms in \<open>auto simp: sc_request_def\<close>)

lemma timely_caught:
  assumes "timely env clock stuck" "sc_caught d f (sc_request (we_perform env) m p t b c w) = (x, c', w')"
  shows "later clock stuck w w'"
proof -
  obtain y c1 v where r: "sc_request (we_perform env) m p t b c w = (y, c1, v)" by (metis prod_cases3)
  with assms(2) have "w' = v" by (auto simp: sc_caught_def Let_def split: sum.splits)
  with timely_request [OF assms(1) r] show ?thesis by simp
qed

lemma timely_poll:
  "timely env clock stuck \<Longrightarrow> sc_PollOffer (we_perform env) sid t c w = (x, c', w') \<Longrightarrow> later clock stuck w w'"
  by (auto simp: sc_PollOffer_def split: if_splits intro: timely_caught)

lemma timely_put:
  "timely env clock stuck \<Longrightarrow> sc_PutAnswer (we_perform env) sid t sdp c w = (x, c', w') \<Longrightarrow> later clock stuck w w'"
  by (auto simp: sc_PutAnswer_def split: if_splits sum.splits intro: timely_caught)

lemma wait_progress:
  assumes "timely env clock stuck"
  shows "later clock stuck (wk_world st) (wk_world (wk_wait env i s st)) \<and>
    (s < i \<longrightarrow> stuck (wk_world (wk_wait env i s st)) \<or> clock (wk_world st) + 20000000 \<le> clock (wk_world (wk_wait env i s st)))"
  using assms
proof (induction env i s st rule: wk_wait.induct)
  case (1 env i s st)
  obtain b st1 where c: "wk_cancelled env st = (b, st1)" by fastforce
  note k = timely_cancelled [OF "1.prems" c]
  let ?st2 = "st1\<lparr>wk_world := we_sleep env 20000000 (wk_world st1)\<rparr>"
  show ?case
  proof (cases "s < i \<and> \<not> b")
    case True
    then have "s < i" "\<not> b" by simp_all
    note ih = "1.IH" [OF this(1) c [symmetric] refl this(2) "1.prems"]
    have e: "wk_wait env i s st = wk_wait env i (s + 20) ?st2" using True c by (subst wk_wait.simps) simp
    have "later clock stuck (wk_world st1) (wk_world ?st2)" "clock (wk_world st1) + 20000000 \<le> clock (wk_world ?st2)"
      using timely_sleep [OF "1.prems", of "wk_world st1" 20000000] by (simp_all add: later_def)
    with ih k show ?thesis unfolding e by (auto simp: later_def)
  next
    case False
    then have "wk_wait env i s st = (if s < i then st1 else st)" using c by (subst wk_wait.simps) auto
    with k False show ?thesis by auto
  qed
qed

lemma timely_fail: "timely env clock stuck \<Longrightarrow> later clock stuck (wk_world st) (wk_world (wk_fail env e f st))"
  using timely_cancelled [of env clock stuck st "fst (wk_cancelled env st)" "snd (wk_cancelled env st)"]
  by (simp add: wk_fail_def case_prod_beta Let_def wk_report_def wk_emit_def)

lemma answer_later:
  assumes "timely env clock stuck"
  shows "later clock stuck (wk_world st0) (wk_world (snd (wk_answer env session keep sdp st0)))"
proof -
  let ?st = "wk_emit (WAnswer sdp) (wk_report GeneratingAnswer [] st0)"
  obtain an w where m: "we_makeAnswer env sdp session (wk_world ?st) = (an, w)" by fastforce
  obtain b st1 where c: "wk_cancelled env (?st\<lparr>wk_world := w\<rparr>) = (b, st1)" by fastforce
  have "later clock stuck (wk_world st0) w"
    using assms m by (auto simp: timely_def later_def wk_emit_def wk_report_def)
  then have l1: "later clock stuck (wk_world st0) (wk_world st1)"
    using timely_cancelled [OF assms c] by (auto intro: later_trans)
  have l: "later clock stuck (wk_world st0) (wk_world (wk_report p d st1))" for p d
    using l1 by (simp add: wk_report_def wk_emit_def)
  show ?thesis
  proof (cases "b \<or> an = None \<or> an = Some []")
    case True
    then show ?thesis using l unfolding wk_answer_def Let_def m split_conv c by (cases an) auto
  next
    case False
    then obtain a where a: "an = Some a" "a \<noteq> []" by auto
    obtain ok cl w2 where p: "sc_PutAnswer (we_perform env) (cs_sessionId session) (cs_receiverToken session) a
        (wk_client (wk_report SendingAnswer [] st1)) (wk_world (wk_report SendingAnswer [] st1)) = (ok, cl, w2)"
      by (metis prod_cases3)
    let ?st3 = "(wk_report SendingAnswer [] st1)\<lparr>wk_client := cl, wk_world := w2\<rparr>"
    have l3: "later clock stuck (wk_world st0) (wk_world ?st3)"
      using later_trans [OF l timely_put [OF assms p]] by simp
    have "later clock stuck (wk_world st0) (wk_world (wk_fail env (sc_error cl) ''answer send failed'' ?st3))"
      by (rule later_trans [OF l3 timely_fail [OF assms]])
    then show ?thesis using l3 False unfolding wk_answer_def Let_def m split_conv c
      by (simp add: a p) (simp add: wk_report_def wk_emit_def)
  qed
qed

lemma offer_later:
  assumes "timely env clock stuck" "wk_offer env session keep v offer st3 = (stop, v', st')"
  shows "later clock stuck (wk_world st3) (wk_world st') \<and> pv_intervalMs v' = pv_intervalMs v"
proof (cases offer)
  case (Some r)
  obtain b st where c: "wk_cancelled env st3 = (b, st)" by fastforce
  show ?thesis
    using assms(2) timely_cancelled [OF assms(1) c] answer_later [OF assms(1), of st session keep "offer_sdp r"]
    by (auto simp: wk_offer_def Some c case_prod_beta Let_def intro: later_trans split: if_splits)
qed (use assms in \<open>auto simp: wk_offer_def\<close>)

text \<open>A turn that does not end the run was before the deadline and has taken 20 ms, or met a cancellation.\<close>

lemma turn_progress:
  assumes t: "timely env clock stuck" and "poll_ok (cs_poll session)" "20 \<le> pv_intervalMs v"
    and r: "wk_turn env session keep begin0 v st0 = (Some v', st')" and b0: "begin0 \<le> clock (wk_world st0)"
  shows "20 \<le> pv_intervalMs v' \<and> \<not> stuck (wk_world st0) \<and>
    clock (wk_world st0) < begin0 + int (poll_timeoutMs (cs_poll session)) * 1000000 \<and>
    (stuck (wk_world st') \<or> clock (wk_world st0) + 20000000 \<le> clock (wk_world st'))"
proof -
  obtain b st1 where c: "wk_cancelled env st0 = (b, st1)" by fastforce
  obtain now w where n: "we_now env (wk_world st1) = (now, w)" by fastforce
  define st2 where "st2 = st1\<lparr>wk_world := w\<rparr>"
  obtain offer cl w2 where p: "sc_PollOffer (we_perform env) (cs_sessionId session) (cs_receiverToken session)
      (wk_client st2) (wk_world st2) = (offer, cl, w2)" by (metis prod_cases3)
  define st3 where "st3 = st2\<lparr>wk_client := cl, wk_world := w2\<rparr>"
  obtain stop v1 st4 where o: "wk_offer env session keep v offer st3 = (stop, v1, st4)" by (metis prod_cases3)
  obtain b2 st5 where c2: "wk_cancelled env st4 = (b2, st5)" by fastforce
  define i where "i = (if cdiv (now - begin0) 1000000 > int (poll_backoffAfterMs (cs_poll session))
      then min (pv_intervalMs v1 + 500) (int (poll_maxIntervalMs (cs_poll session))) else pv_intervalMs v1)"
  have e: "wk_turn env session keep begin0 v st0 =
      (if b then (None, wk_report Canceled [] st1)
       else if cdiv (now - begin0) 1000000 \<ge> int (poll_timeoutMs (cs_poll session))
       then (None, if pv_answered v then st2 else wk_report TimedOut [] st2)
       else if stop then (None, st4)
       else if b2 then (None, wk_report Canceled [] st5)
       else (Some (v1\<lparr>pv_intervalMs := i\<rparr>), wk_wait env i 0 st5))"
    unfolding wk_turn_def c split_conv Let_def n st2_def [symmetric] p st3_def [symmetric] o c2 i_def [symmetric] ..
  from r [unfolded e] have f: "\<not> b" "cdiv (now - begin0) 1000000 < int (poll_timeoutMs (cs_poll session))"
    "v' = v1\<lparr>pv_intervalMs := i\<rparr>" "st' = wk_wait env i 0 st5"
    by (auto split: if_splits)
  note k1 = timely_cancelled [OF t c] and k2 = timely_now [OF t n] and k3 = timely_poll [OF t p]
    and k4 = offer_later [OF t o] and k5 = timely_cancelled [OF t c2]
  have i: "20 \<le> i" using assms(2,3) k4 by (auto simp: i_def poll_ok_def)
  have ns: "\<not> stuck (wk_world st0)" using k1 f(1) by (auto simp: later_def)
  have now: "clock (wk_world st0) \<le> now" using k1 k2 by (auto simp: later_def)
  then have "cdiv (now - begin0) 1000000 = (now - begin0) div 1000000" using b0 by (intro cdiv_nonneg) simp_all
  with f(2) have "(now - begin0) div 1000000 < int (poll_timeoutMs (cs_poll session))" by simp
  then have "now - begin0 < int (poll_timeoutMs (cs_poll session)) * 1000000" by (simp add: div_less_iff_less_mult)
  moreover have "later clock stuck (wk_world st0) (wk_world st5)"
    using k1 k2 k3 k4 k5 by (auto simp: st2_def st3_def later_def)
  moreover note wait_progress [OF t, of st5 i 0]
  ultimately show ?thesis using i ns now f(3,4) by (auto simp: later_def)
qed

lemma turn_stuck:
  assumes "timely env clock stuck" "stuck (wk_world st0)"
  shows "fst (wk_turn env session keep begin0 v st0) = None"
proof -
  obtain b st1 where c: "wk_cancelled env st0 = (b, st1)" by fastforce
  with timely_cancelled [OF assms(1) c] assms(2) show ?thesis by (simp add: wk_turn_def later_def)
qed

lemma loop_ends:
  assumes t: "timely env clock stuck" and p: "poll_ok (cs_poll session)"
  shows "20 \<le> pv_intervalMs v \<Longrightarrow> begin0 \<le> clock (wk_world st0) \<Longrightarrow>
    begin0 + int (poll_timeoutMs (cs_poll session)) * 1000000 \<le> clock (wk_world st0) + int fuel * 20000000 \<Longrightarrow>
    wk_loop (Suc fuel) env session keep begin0 v st0 \<noteq> None"
proof (induction fuel arbitrary: v st0)
  case 0
  obtain r st1 where u: "wk_turn env session keep begin0 v st0 = (r, st1)" by fastforce
  have "r = None"
  proof (cases r)
    case (Some v')
    from turn_progress [OF t p "0.prems"(1) u [unfolded Some] "0.prems"(2)] "0.prems"(3) show ?thesis by simp
  qed
  then show ?case by (simp add: u)
next
  case (Suc fuel)
  obtain r st1 where u: "wk_turn env session keep begin0 v st0 = (r, st1)" by fastforce
  show ?case
  proof (cases r)
    case None
    then show ?thesis by (simp add: u)
  next
    case (Some v')
    note pr = turn_progress [OF t p Suc.prems(1) u [unfolded Some] Suc.prems(2)]
    have e: "wk_loop (Suc (Suc fuel)) env session keep begin0 v st0 = wk_loop (Suc fuel) env session keep begin0 v' st1"
      using u Some by simp
    show ?thesis
    proof (cases "stuck (wk_world st1)")
      case True
      from turn_stuck [OF t this, of session keep begin0 v'] show ?thesis
        unfolding e by (cases "wk_turn env session keep begin0 v' st1") simp
    next
      case False
      with pr Suc.prems show ?thesis unfolding e by (intro Suc.IH) auto
    qed
  qed
qed

lemma run_ends:
  assumes t: "timely env clock stuck"
  shows "wk_run 180001 env keep name st0 \<noteq> None"
proof -
  obtain b st1 where c: "wk_cancelled env st0 = (b, st1)" by fastforce
  define st2 where "st2 = wk_report CreatingSession [] st1"
  obtain s cl w where p: "sc_CreateSession (we_perform env) name (wk_client st2) (wk_world st2) = (s, cl, w)"
    by (metis prod_cases3)
  define st3 where "st3 = st2\<lparr>wk_client := cl, wk_world := w\<rparr>"
  obtain b2 st4 where c2: "wk_cancelled env st3 = (b2, st4)" by fastforce
  show ?thesis
  proof (cases s)
    case None
    then show ?thesis
      unfolding wk_run_def Let_def c split_conv st2_def [symmetric] p st3_def [symmetric] by simp
  next
    case (Some session)
    from created_session_ok [OF p [unfolded Some]] have ok: "poll_ok (cs_poll session)" by (simp add: session_ok_def)
    define st5 where "st5 = wk_report WaitingForOffer [] (wk_emit (WSession session) (wk_report SessionCreated [] st4))"
    obtain begin0 w2 where n: "we_now env (wk_world st5) = (begin0, w2)" by fastforce
    from timely_now [OF t n] have b0: "begin0 \<le> clock (wk_world (st5\<lparr>wk_world := w2\<rparr>))" by simp
    have i: "20 \<le> pv_intervalMs \<lparr>pv_intervalMs = int (poll_initialIntervalMs (cs_poll session)), pv_answered = False,
        pv_answeredOfferSdp = []\<rparr>"
      using ok by (simp add: poll_ok_def)
    have "wk_loop (Suc 180000) env session keep begin0 \<lparr>pv_intervalMs = int (poll_initialIntervalMs (cs_poll session)),
        pv_answered = False, pv_answeredOfferSdp = []\<rparr> (st5\<lparr>wk_world := w2\<rparr>) \<noteq> None"
      by (rule loop_ends [OF t ok i b0]) (use ok b0 in \<open>auto simp: poll_ok_def\<close>)
    moreover have "Suc 180000 = 180001" by simp
    ultimately show ?thesis
      unfolding wk_run_def Let_def c split_conv st2_def [symmetric] p st3_def [symmetric] Some option.case c2
        st5_def [symmetric] n by (simp del: wk_loop.simps)
  qed
qed

section \<open>An example run\<close>

text \<open>
  A server that creates the session of \<open>session_example\<close> and then has no offer, on a clock that
  moves 40 ms at every reading: the run times out at its first turn.
\<close>

definition idle_server :: "int transport" where
  "idle_server r w = (Inr \<lparr>rs_status = 201, rs_body = json_print session_message, rs_error = []\<rparr>, w)"

definition example_env :: "int worker_env" where
  "example_env = \<lparr>we_perform = idle_server, we_now = (\<lambda>w. (w, w + 40000000)), we_sleep = (\<lambda>d w. w + max 0 d),
     we_cancelled = (\<lambda>w. (False, w)), we_makeAnswer = (\<lambda>sdp s w. (None, w))\<rparr>"

definition example_client :: client where
  "example_client = \<lparr>sc_base = str ''http://h'', sc_error = []\<rparr>"

lemma example_timely: "timely example_env id (\<lambda>_. False)"
  by (auto simp: timely_def example_env_def idle_server_def)

lemma example_session:
  "sc_CreateSession idle_server (str ''receiver'') example_client w = (Some session_example, example_client, w)"
proof -
  have q: "json_quote (str ''receiver'') = Inr (quoted ''receiver'')" by code_simp
  have l: "\<not> length (json_print session_message) > 1024 * 1024" using session_message_length by simp
  show ?thesis
    unfolding sc_CreateSession_def q sum.case sc_request_def
    using l by (simp add: example_client_def idle_server_def safeHeader_def sc_build_def sc_caught_def
        session_message_decode Let_def)
qed

lemma example_run:
  "\<exists>st. wk_run (Suc f) example_env keep (str ''receiver'') \<lparr>wk_client = example_client, wk_world = 0, wk_trace = []\<rparr> = Some st \<and>
    phases (wk_trace st) = [CreatingSession, SessionCreated, WaitingForOffer, TimedOut]"
  by (simp add: wk_run_def wk_cancelled_def example_env_def wk_report_def wk_emit_def example_session
      wk_turn_def cdiv_def session_example_def Let_def del: str_Cons)

section \<open>Properties\<close>



text \<open>C36: every run ends: in any world whose clock does not go back and in which sleeping takes the
  time asked for, at most 180001 turns of the polling loop are made, whatever the server sends
  (the validated poll policy bounds the timeout by an hour and the interval from below by 20 ms).\<close>

theorem worker_ends:
  assumes "timely env clock stuck"
  shows "\<exists>st. wk_run 180001 env keep name \<lparr>wk_client = c, wk_world = w, wk_trace = []\<rparr> = Some st"
  using run_ends [OF assms] by blast

theorem worker_ends_witness:
  "\<exists>st. wk_run 180001 example_env True (str ''receiver'')
     \<lparr>wk_client = example_client, wk_world = 0, wk_trace = []\<rparr> = Some st"
  by (rule worker_ends [OF example_timely])

end
