(* ===== verification/AudioPcmQueue.thy ===== *)
theory AudioPcmQueue
  imports Prelude
begin

text \<open>
  \<open>src/macos/receiver/audio_pcm_queue.h\<close> (\<open>AudioPcmQueue\<close>): the bounded ring between the RTC audio
  callback and the device worker. Every method is one critical section. The contract is a queue of
  samples on which a push drops the oldest audio; the ring refines it. The time a push took is an
  argument; the element counters count samples, far below \<open>2 ^ 64\<close>, and are natural numbers.
\<close>

section \<open>The ring\<close>

type_synonym sample = "16 word"

record pcm_stats =
  ps_pushedElements :: nat
  ps_poppedElements :: nat
  ps_droppedElements :: nat
  ps_underruns :: nat
  ps_pushMaxNs :: nat
  ps_depthHigh :: nat

record pcm_queue =
  pq_capacity :: nat
  pq_highWater :: nat
  pq_target :: nat
  pq_buffer :: "sample list"
  pq_head :: nat
  pq_depth :: nat
  pq_stats :: pcm_stats

definition pq_new :: "nat \<Rightarrow> nat \<Rightarrow> nat \<Rightarrow> pcm_queue" where
  "pq_new capacityElements highWaterElements targetElements =
     (let capacity = (if capacityElements \<noteq> 0 then capacityElements else 1);
          highWater = (if highWaterElements \<noteq> 0 then highWaterElements else capacity)
      in \<lparr>pq_capacity = capacity, pq_highWater = highWater, pq_target = min targetElements highWater,
          pq_buffer = replicate capacity 0, pq_head = 0, pq_depth = 0,
          pq_stats = \<lparr>ps_pushedElements = 0, ps_poppedElements = 0, ps_droppedElements = 0, ps_underruns = 0,
            ps_pushMaxNs = 0, ps_depthHigh = 0\<rparr>\<rparr>)"

text \<open>\<open>std::copy_n(xs, n, buffer + at)\<close> inside the buffer.\<close>

definition copy_to :: "nat \<Rightarrow> 'a list \<Rightarrow> 'a list \<Rightarrow> 'a list" where
  "copy_to at xs buffer = take at buffer @ xs @ drop (at + length xs) buffer"

definition pq_DropFrontLocked :: "nat \<Rightarrow> pcm_queue \<Rightarrow> nat \<times> pcm_queue" where
  "pq_DropFrontLocked elements q =
     (let n = min elements (pq_depth q) in
      (n, q\<lparr>pq_head := (pq_head q + n) mod pq_capacity q, pq_depth := pq_depth q - n\<rparr>))"

definition pq_AppendLocked :: "sample list \<Rightarrow> pcm_queue \<Rightarrow> pcm_queue" where
  "pq_AppendLocked data q =
     (let at = (pq_head q + pq_depth q) mod pq_capacity q;
          first = min (length data) (pq_capacity q - at);
          b = copy_to at (take first data) (pq_buffer q)
      in q\<lparr>pq_buffer := if length data > first then copy_to 0 (drop first data) b else b\<rparr>)"

text \<open>The part of a push under the lock.\<close>

definition pq_push_locked :: "sample list \<Rightarrow> pcm_queue \<Rightarrow> pcm_queue" where
  "pq_push_locked data q0 =
     (let elements = length data;
          q = q0\<lparr>pq_stats := (pq_stats q0)\<lparr>ps_pushedElements := ps_pushedElements (pq_stats q0) + elements\<rparr>\<rparr>;
          (dropped1, q1) =
            (if elements > pq_capacity q - pq_depth q
             then pq_DropFrontLocked (min (pq_depth q) (elements - (pq_capacity q - pq_depth q))) q else (0, q));
          skip = (if elements > pq_capacity q1 - pq_depth q1 then elements - (pq_capacity q1 - pq_depth q1) else 0);
          data1 = drop skip data;
          q2 = pq_AppendLocked data1 q1;
          q3 = q2\<lparr>pq_depth := pq_depth q2 + length data1\<rparr>;
          (dropped2, q4) =
            (if pq_depth q3 > pq_highWater q3 \<and> pq_depth q3 > pq_target q3
             then pq_DropFrontLocked (pq_depth q3 - pq_target q3) q3 else (0, q3));
          s = pq_stats q4
      in q4\<lparr>pq_stats := s\<lparr>ps_droppedElements := ps_droppedElements s + (dropped1 + skip + dropped2),
           ps_depthHigh := if pq_depth q4 > ps_depthHigh s then pq_depth q4 else ps_depthHigh s\<rparr>\<rparr>)"

definition pq_push :: "nat \<Rightarrow> sample list \<Rightarrow> pcm_queue \<Rightarrow> pcm_queue" where
  "pq_push elapsed data q =
     (let q1 = (if data \<noteq> [] then pq_push_locked data q else q) in
      if elapsed > ps_pushMaxNs (pq_stats q1) then q1\<lparr>pq_stats := (pq_stats q1)\<lparr>ps_pushMaxNs := elapsed\<rparr>\<rparr> else q1)"

text \<open>The samples copied out, and the queue.\<close>

definition pq_pop :: "nat \<Rightarrow> pcm_queue \<Rightarrow> sample list \<times> pcm_queue" where
  "pq_pop capacityElements q =
     (let n = min capacityElements (pq_depth q); s = pq_stats q in
      if n \<noteq> 0 then
        let first = min n (pq_capacity q - pq_head q);
            out = subspan (pq_buffer q) (pq_head q) first @ (if n > first then take (n - first) (pq_buffer q) else [])
        in (out, q\<lparr>pq_head := (pq_head q + n) mod pq_capacity q, pq_depth := pq_depth q - n,
              pq_stats := s\<lparr>ps_poppedElements := ps_poppedElements s + n\<rparr>\<rparr>)
      else if capacityElements \<noteq> 0 then ([], q\<lparr>pq_stats := s\<lparr>ps_underruns := ps_underruns s + 1\<rparr>\<rparr>)
      else ([], q))"

definition pq_clear :: "pcm_queue \<Rightarrow> pcm_queue" where
  "pq_clear q = q\<lparr>pq_stats := (pq_stats q)\<lparr>ps_droppedElements := ps_droppedElements (pq_stats q) + pq_depth q\<rparr>,
     pq_depth := 0, pq_head := 0\<rparr>"

section \<open>The abstract queue\<close>

text \<open>The samples in the queue, oldest first.\<close>

definition pq_contents :: "pcm_queue \<Rightarrow> sample list" where
  "pq_contents q = map (\<lambda>i. pq_buffer q ! ((pq_head q + i) mod pq_capacity q)) [0..<pq_depth q]"

definition newest :: "nat \<Rightarrow> 'a list \<Rightarrow> 'a list" where
  "newest n xs = drop (length xs - n) xs"

definition spec_push :: "nat \<Rightarrow> nat \<Rightarrow> nat \<Rightarrow> 'a list \<Rightarrow> 'a list \<Rightarrow> 'a list" where
  "spec_push capacity high target data xs =
     (let ys = newest capacity (xs @ data) in if length ys > high then newest target ys else ys)"

lemma length_newest [simp]: "length (newest n xs) = min n (length xs)"
  by (simp add: newest_def)

lemma length_contents [simp]: "length (pq_contents q) = pq_depth q"
  by (simp add: pq_contents_def)

lemma length_copy_to: "at + length xs \<le> length b \<Longrightarrow> length (copy_to at xs b) = length b"
  by (simp add: copy_to_def)

lemma nth_copy_to: "at + length xs \<le> length b \<Longrightarrow> p < length b \<Longrightarrow>
    copy_to at xs b ! p = (if at \<le> p \<and> p < at + length xs then xs ! (p - at) else b ! p)"
  by (auto simp: copy_to_def nth_append not_less)

lemma contents_cong:
  "pq_buffer q' = pq_buffer q \<Longrightarrow> pq_head q' = pq_head q \<Longrightarrow> pq_capacity q' = pq_capacity q \<Longrightarrow>
    pq_depth q' = pq_depth q \<Longrightarrow> pq_contents q' = pq_contents q"
  by (simp add: pq_contents_def)

lemma drop_front_contents:
  assumes "n \<le> pq_depth q"
  shows "pq_contents (q\<lparr>pq_head := (pq_head q + n) mod pq_capacity q, pq_depth := pq_depth q - n\<rparr>) = drop n (pq_contents q)"
proof (rule nth_equalityI)
  fix i assume "i < length (pq_contents (q\<lparr>pq_head := (pq_head q + n) mod pq_capacity q, pq_depth := pq_depth q - n\<rparr>))"
  then have j: "i < pq_depth q - n" by simp
  then have i: "n + i < pq_depth q" by linarith
  have "((pq_head q + n) mod pq_capacity q + i) mod pq_capacity q = (pq_head q + (n + i)) mod pq_capacity q"
    by (simp add: mod_add_left_eq add.assoc)
  then show "pq_contents (q\<lparr>pq_head := (pq_head q + n) mod pq_capacity q, pq_depth := pq_depth q - n\<rparr>) ! i =
      drop n (pq_contents q) ! i" using i j by (simp add: pq_contents_def)
qed (use assms in simp)

lemma append_contents:
  assumes "0 < pq_capacity q" "length (pq_buffer q) = pq_capacity q" "pq_depth q + length data \<le> pq_capacity q"
  shows "pq_contents ((pq_AppendLocked data q)\<lparr>pq_depth := pq_depth q + length data\<rparr>) = pq_contents q @ data"
    "length (pq_buffer (pq_AppendLocked data q)) = pq_capacity q"
proof -
  let ?c = "pq_capacity q" and ?n = "length data" and ?b = "pq_buffer (pq_AppendLocked data q)"
  define at where "at = (pq_head q + pq_depth q) mod ?c"
  define first where "first = min ?n (?c - at)"
  have at: "at < ?c" using assms(1) by (simp add: at_def)
  have b: "?b = (if ?n > first then copy_to 0 (drop first data) (copy_to at (take first data) (pq_buffer q))
      else copy_to at (take first data) (pq_buffer q))"
    by (simp add: pq_AppendLocked_def Let_def at_def first_def)
  have l1: "at + length (take first data) \<le> length (pq_buffer q)" using at assms(2) by (simp add: first_def)
  note l1' = length_copy_to [OF l1]
  have l2: "0 + length (drop first data) \<le> length (copy_to at (take first data) (pq_buffer q))"
    using assms(2,3) l1' by simp
  show len: "length ?b = ?c" using l1' length_copy_to [OF l2] assms(2) unfolding b by (simp del: take_all take_all_iff)
  have nth: "?b ! p = (if p < ?n - first then data ! (first + p)
      else if at \<le> p \<and> p < at + first then data ! (p - at) else pq_buffer q ! p)" if "p < ?c" for p
    unfolding b using that nth_copy_to [OF l1, of p] nth_copy_to [OF l2, of p] l1' assms(2)
    by (auto simp: first_def min_def)
  have "pq_contents ((pq_AppendLocked data q)\<lparr>pq_depth := pq_depth q + ?n\<rparr>) ! i = (pq_contents q @ data) ! i"
    if i: "i < pq_depth q + ?n" for i
  proof -
    let ?p = "(pq_head q + i) mod ?c"
    have h: "pq_head (pq_AppendLocked data q) = pq_head q" "pq_capacity (pq_AppendLocked data q) = ?c"
      by (simp_all add: pq_AppendLocked_def Let_def)
    have l: "pq_contents ((pq_AppendLocked data q)\<lparr>pq_depth := pq_depth q + ?n\<rparr>) ! i = ?b ! ?p"
      using i by (simp add: pq_contents_def h)
    show ?thesis
    proof (cases "i < pq_depth q")
      case False
      define j where "j = i - pq_depth q"
      have j: "j < ?n" "i = pq_depth q + j" using i False by (simp_all add: j_def)
      have "?p = (at + j) mod ?c" by (simp add: at_def j(2) mod_add_left_eq add.assoc)
      also have "\<dots> = (if at + j < ?c then at + j else at + j - ?c)"
        using at j(1) assms(3) by (simp add: mod_if le_mod_geq not_less)
      finally have "?b ! ?p = data ! j" using nth [of ?p] assms(1,3) at j(1)
        by (auto simp: first_def min_def split: if_splits)
      then show ?thesis using l j by (simp add: nth_append)
    next
      case True
      then have "?p \<noteq> (at + k) mod ?c" if "k < ?n" for k
      proof -
        have "(at + k) mod ?c = (pq_head q + (pq_depth q + k)) mod ?c" by (simp add: at_def mod_add_left_eq add.assoc)
        moreover have "i < pq_depth q + k" "pq_depth q + k < i + ?c" using True that assms(3) by simp_all
        then have "pq_depth q + k - i < ?c" "0 < pq_depth q + k - i" by simp_all
        then have "(pq_head q + (pq_depth q + k)) mod ?c \<noteq> (pq_head q + i) mod ?c"
          using mod_eq_dvd_iff_nat [of "pq_head q + i" "pq_head q + (pq_depth q + k)" ?c] nat_dvd_not_less by auto
        ultimately show ?thesis by simp
      qed
      note ne = this
      have "?b ! ?p = pq_buffer q ! ?p"
      proof -
        have "\<not> ?p < ?n - first"
        proof
          assume a: "?p < ?n - first"
          then have f: "first = ?c - at" by (auto simp: first_def min_def split: if_splits)
          have "(at + (first + ?p)) mod ?c = ?p" using at assms(1) by (simp add: f)
          moreover have "first + ?p < ?n" using a by linarith
          ultimately show False using ne [of "first + ?p"] by simp
        qed
        moreover have "\<not> (at \<le> ?p \<and> ?p < at + first)"
        proof
          assume a: "at \<le> ?p \<and> ?p < at + first"
          then have "(at + (?p - at)) mod ?c = ?p" by simp
          moreover have "?p - at < ?n" using a unfolding first_def by linarith
          ultimately show False using ne [of "?p - at"] by simp
        qed
        ultimately show ?thesis using nth [of ?p] assms(1) by auto
      qed
      then show ?thesis using l True by (simp add: nth_append pq_contents_def)
    qed
  qed
  then show "pq_contents ((pq_AppendLocked data q)\<lparr>pq_depth := pq_depth q + ?n\<rparr>) = pq_contents q @ data"
    by (intro nth_equalityI) simp_all
qed

lemma drop_front_run:
  assumes "n \<le> pq_depth q"
  shows "pq_DropFrontLocked n q =
    (n, q\<lparr>pq_head := (pq_head q + n) mod pq_capacity q, pq_depth := pq_depth q - n\<rparr>)"
  using assms by (simp add: pq_DropFrontLocked_def min_absorb1)

text \<open>The abstract state of a ring.\<close>

definition ring_ok :: "pcm_queue \<Rightarrow> bool" where
  "ring_ok q \<longleftrightarrow> 0 < pq_capacity q \<and> length (pq_buffer q) = pq_capacity q \<and> pq_head q < pq_capacity q \<and>
     pq_depth q \<le> pq_capacity q \<and> pq_target q \<le> pq_highWater q"

lemma push_step:
  assumes ok: "ring_ok q" and d: "length data = elements"
  defines "drop1 \<equiv> (if elements > pq_capacity q - pq_depth q
      then min (pq_depth q) (elements - (pq_capacity q - pq_depth q)) else 0)"
  defines "skip \<equiv> (if elements > pq_capacity q - (pq_depth q - drop1) then elements - (pq_capacity q - (pq_depth q - drop1)) else 0)"
  shows "newest (pq_capacity q) (pq_contents q @ data) = drop drop1 (pq_contents q) @ drop skip data"
    "pq_depth q - drop1 + (elements - skip) \<le> pq_capacity q" "drop1 \<le> pq_depth q" "skip \<le> elements"
proof -
  have c: "pq_depth q \<le> pq_capacity q" using ok by (simp add: ring_ok_def)
  have l: "length (pq_contents q @ data) - pq_capacity q = drop1 + skip" "drop1 \<le> pq_depth q" "skip \<le> elements"
    "pq_depth q - drop1 + (elements - skip) \<le> pq_capacity q" "skip = 0 \<or> drop1 = pq_depth q"
    using c d unfolding drop1_def skip_def by simp_all linarith+
  show "newest (pq_capacity q) (pq_contents q @ data) = drop drop1 (pq_contents q) @ drop skip data"
    using l(2,5) unfolding newest_def l(1) by auto
  show "pq_depth q - drop1 + (elements - skip) \<le> pq_capacity q" "drop1 \<le> pq_depth q" "skip \<le> elements"
    using l by simp_all
qed

text \<open>Dropping \<open>n\<close> of the oldest samples, as both policies of a push do.\<close>

lemma drop_front_ok:
  assumes "ring_ok q" "n \<le> pq_depth q"
  defines "q' \<equiv> q\<lparr>pq_head := (pq_head q + n) mod pq_capacity q, pq_depth := pq_depth q - n\<rparr>"
  shows "ring_ok q'" "pq_contents q' = drop n (pq_contents q)"
  using assms(1,2) drop_front_contents [OF assms(2)] by (auto simp: ring_ok_def q'_def)

lemma append_ok:
  assumes "ring_ok q" "pq_depth q + length data \<le> pq_capacity q"
  defines "q' \<equiv> (pq_AppendLocked data q)\<lparr>pq_depth := pq_depth q + length data\<rparr>"
  shows "ring_ok q'" "pq_contents q' = pq_contents q @ data" "pq_stats q' = pq_stats q" "pq_depth q' = pq_depth q + length data"
    "pq_capacity q' = pq_capacity q" "pq_highWater q' = pq_highWater q" "pq_target q' = pq_target q"
proof -
  have a: "0 < pq_capacity q" "length (pq_buffer q) = pq_capacity q" using assms(1) by (simp_all add: ring_ok_def)
  have f: "pq_head (pq_AppendLocked data q) = pq_head q" "pq_capacity (pq_AppendLocked data q) = pq_capacity q"
    "pq_stats (pq_AppendLocked data q) = pq_stats q" "pq_highWater (pq_AppendLocked data q) = pq_highWater q"
    "pq_target (pq_AppendLocked data q) = pq_target q" by (simp_all add: pq_AppendLocked_def Let_def)
  note r = append_contents [OF a assms(2)]
  show "ring_ok q'" "pq_contents q' = pq_contents q @ data" "pq_stats q' = pq_stats q" "pq_depth q' = pq_depth q + length data"
    "pq_capacity q' = pq_capacity q" "pq_highWater q' = pq_highWater q" "pq_target q' = pq_target q"
    using assms(1,2) r f by (simp_all add: q'_def ring_ok_def)
qed

text \<open>The loss that a push reports is what left the abstract queue.\<close>

lemma push_locked:
  assumes ok: "ring_ok q"
  shows "ring_ok (pq_push_locked data q) \<and>
    pq_contents (pq_push_locked data q) = spec_push (pq_capacity q) (pq_highWater q) (pq_target q) data (pq_contents q) \<and>
    ps_pushedElements (pq_stats (pq_push_locked data q)) = ps_pushedElements (pq_stats q) + length data \<and>
    ps_poppedElements (pq_stats (pq_push_locked data q)) = ps_poppedElements (pq_stats q) \<and>
    ps_droppedElements (pq_stats (pq_push_locked data q)) + pq_depth (pq_push_locked data q) =
      ps_droppedElements (pq_stats q) + pq_depth q + length data \<and>
    pq_capacity (pq_push_locked data q) = pq_capacity q \<and> pq_highWater (pq_push_locked data q) = pq_highWater q \<and>
    pq_target (pq_push_locked data q) = pq_target q"
proof -
  let ?n = "length data" and ?c = "pq_capacity q"
  define q0 where "q0 = q\<lparr>pq_stats := (pq_stats q)\<lparr>ps_pushedElements := ps_pushedElements (pq_stats q) + ?n\<rparr>\<rparr>"
  have q0: "ring_ok q0" "pq_contents q0 = pq_contents q" "pq_depth q0 = pq_depth q" "pq_capacity q0 = ?c"
    "pq_highWater q0 = pq_highWater q" "pq_target q0 = pq_target q"
    "ps_pushedElements (pq_stats q0) = ps_pushedElements (pq_stats q) + ?n"
    "ps_poppedElements (pq_stats q0) = ps_poppedElements (pq_stats q)"
    "ps_droppedElements (pq_stats q0) = ps_droppedElements (pq_stats q)"
    using ok by (simp_all add: q0_def ring_ok_def pq_contents_def)
  define d1 where "d1 = (if ?n > ?c - pq_depth q then min (pq_depth q) (?n - (?c - pq_depth q)) else 0)"
  define skip where "skip = (if ?n > ?c - (pq_depth q - d1) then ?n - (?c - (pq_depth q - d1)) else 0)"
  note st = push_step [OF ok refl, of data, folded d1_def, folded skip_def]
  define q1 where "q1 = q0\<lparr>pq_head := (pq_head q0 + d1) mod pq_capacity q0, pq_depth := pq_depth q0 - d1\<rparr>"
  have q1: "ring_ok q1" "pq_contents q1 = drop d1 (pq_contents q)" "pq_depth q1 = pq_depth q - d1" "pq_capacity q1 = ?c"
    "pq_highWater q1 = pq_highWater q" "pq_target q1 = pq_target q" "pq_stats q1 = pq_stats q0"
    using drop_front_ok [OF q0(1), of d1] st(3) q0 by (simp_all add: q1_def)
  have h0: "(pq_head q0 + 0) mod pq_capacity q0 = pq_head q0" using q0(1) by (simp add: ring_ok_def)
  have e1: "(if ?n > pq_capacity q0 - pq_depth q0
      then pq_DropFrontLocked (min (pq_depth q0) (?n - (pq_capacity q0 - pq_depth q0))) q0 else (0, q0)) = (d1, q1)"
    using drop_front_run [of d1 q0] h0 by (auto simp: q0 q1_def d1_def)
  define data1 where "data1 = drop skip data"
  have fit: "pq_depth q1 + length data1 \<le> pq_capacity q1" using st(2) by (simp add: data1_def q1)
  define q3 where "q3 = (pq_AppendLocked data1 q1)\<lparr>pq_depth := pq_depth q1 + length data1\<rparr>"
  note q3 = append_ok [OF q1(1) fit, folded q3_def]
  have c3: "pq_contents q3 = newest ?c (pq_contents q @ data)" unfolding q3(2) q1(2) data1_def st(1) ..
  define d2 where "d2 = (if pq_depth q3 > pq_highWater q3 \<and> pq_depth q3 > pq_target q3 then pq_depth q3 - pq_target q3 else 0)"
  define q4 where "q4 = q3\<lparr>pq_head := (pq_head q3 + d2) mod pq_capacity q3, pq_depth := pq_depth q3 - d2\<rparr>"
  have d2: "d2 \<le> pq_depth q3" by (simp add: d2_def)
  note q4 = drop_front_ok [OF q3(1) d2, folded q4_def]
  have h3: "(pq_head q3 + 0) mod pq_capacity q3 = pq_head q3" using q3(1) by (simp add: ring_ok_def)
  have e2: "(if pq_depth q3 > pq_highWater q3 \<and> pq_depth q3 > pq_target q3
      then pq_DropFrontLocked (pq_depth q3 - pq_target q3) q3 else (0, q3)) = (d2, q4)"
    using drop_front_run [OF d2] h3 by (auto simp: q4_def d2_def)
  have s: "skip = (if ?n > pq_capacity q1 - pq_depth q1 then ?n - (pq_capacity q1 - pq_depth q1) else 0)"
    by (simp add: skip_def q1)
  have f: "pq_depth (pq_AppendLocked data1 q1) = pq_depth q1" by (simp add: pq_AppendLocked_def Let_def)
  have e: "pq_push_locked data q = q4\<lparr>pq_stats := (pq_stats q4)\<lparr>ps_droppedElements := ps_droppedElements (pq_stats q4) + (d1 + skip + d2),
      ps_depthHigh := if pq_depth q4 > ps_depthHigh (pq_stats q4) then pq_depth q4 else ps_depthHigh (pq_stats q4)\<rparr>\<rparr>"
    unfolding pq_push_locked_def Let_def q0_def [symmetric] e1 split_conv s [symmetric] data1_def [symmetric] f
      q3_def [symmetric] e2 ..
  have c4: "pq_contents q4 = spec_push ?c (pq_highWater q) (pq_target q) data (pq_contents q)"
  proof -
    have dep: "pq_depth q3 = length (newest ?c (pq_contents q @ data))" using c3 by (metis length_contents)
    have t: "pq_target q \<le> pq_highWater q" using ok by (simp add: ring_ok_def)
    show ?thesis
    proof (cases "pq_depth q3 > pq_highWater q")
      case True
      then have "d2 = pq_depth q3 - pq_target q" using t by (simp add: d2_def q3 q1)
      then show ?thesis using True unfolding q4(2) c3 spec_push_def Let_def newest_def [of "pq_target q"] dep by simp
    next
      case False
      then have "d2 = 0" by (simp add: d2_def q3 q1)
      then show ?thesis using False unfolding q4(2) c3 spec_push_def Let_def dep by auto
    qed
  qed
  have st4: "pq_stats q4 = pq_stats q0" "pq_capacity q4 = ?c" "pq_highWater q4 = pq_highWater q" "pq_target q4 = pq_target q"
    "pq_depth q4 = pq_depth q3 - d2" by (simp_all add: q4_def q3 q1)
  have d: "d1 + skip + d2 + pq_depth q4 = pq_depth q + ?n"
    using st(3,4) d2 by (simp add: st4 q3(4) q1(3) data1_def)
  show ?thesis
    unfolding e using q4(1) c4 st4 d q0(7,8,9) by (simp add: ring_ok_def pq_contents_def)
qed

lemma pop_ok:
  assumes ok: "ring_ok q" and p: "pq_pop n q = (out, q')"
  shows "ring_ok q' \<and> out = take n (pq_contents q) \<and> pq_contents q' = drop n (pq_contents q) \<and>
    pq_capacity q' = pq_capacity q \<and> pq_highWater q' = pq_highWater q \<and> pq_target q' = pq_target q \<and>
    ps_pushedElements (pq_stats q') = ps_pushedElements (pq_stats q) \<and>
    ps_droppedElements (pq_stats q') = ps_droppedElements (pq_stats q) \<and>
    ps_poppedElements (pq_stats q') + pq_depth q' = ps_poppedElements (pq_stats q) + pq_depth q"
proof -
  let ?k = "min n (pq_depth q)" and ?c = "pq_capacity q"
  have c: "length (pq_buffer q) = ?c" "pq_head q < ?c" "pq_depth q \<le> ?c" using ok by (simp_all add: ring_ok_def)
  show ?thesis
  proof (cases "?k = 0")
    case True
    then have "out = []" "pq_contents q' = pq_contents q" "pq_depth q' = pq_depth q" "ring_ok q'"
      "take n (pq_contents q) = []" "drop n (pq_contents q) = pq_contents q"
      using p ok by (auto simp: pq_pop_def Let_def pq_contents_def ring_ok_def split: if_splits)
    then show ?thesis using True p by (auto simp: pq_pop_def Let_def split: if_splits)
  next
    case False
    define first where "first = min ?k (?c - pq_head q)"
    let ?out = "subspan (pq_buffer q) (pq_head q) first @ (if ?k > first then take (?k - first) (pq_buffer q) else [])"
    have lf: "length (subspan (pq_buffer q) (pq_head q) first) = first" using c by (simp add: first_def)
    have "?out ! i = take n (pq_contents q) ! i" if i: "i < ?k" for i
    proof (cases "i < first")
      case True
      then have "pq_head q + i < ?c" unfolding first_def by linarith
      then show ?thesis using True i c lf by (simp add: nth_append nth_subspan pq_contents_def)
    next
      case l: False
      then have f: "first = ?c - pq_head q" "first < ?k" using i unfolding first_def by linarith+
      have m: "pq_head q + i - ?c < ?c" "?c \<le> pq_head q + i" "pq_head q + i - ?c = i - first"
        using l i c f by linarith+
      then have "(pq_head q + i) mod ?c = i - first" by (simp add: le_mod_geq)
      moreover have "i - first < ?k - first" using l i by linarith
      then have "?out ! i = pq_buffer q ! (i - first)" using l f(2) lf by (simp add: nth_append)
      ultimately show ?thesis using i by (simp add: pq_contents_def)
    qed
    moreover have "length ?out = ?k"
    proof -
      have "first \<le> ?k" unfolding first_def by (rule min.cobounded1)
      moreover have "?k \<le> length (pq_buffer q)" using c by linarith
      ultimately show ?thesis using lf by (cases "?k > first") auto
    qed
    ultimately have "?out = take n (pq_contents q)" by (intro nth_equalityI) simp_all
    moreover note drop_front_ok [OF ok, of ?k]
    moreover have "drop ?k (pq_contents q) = drop n (pq_contents q)" by (cases "n \<le> pq_depth q") (simp_all add: min_def)
    moreover have "out = ?out" "q' = q\<lparr>pq_head := (pq_head q + ?k) mod ?c, pq_depth := pq_depth q - ?k,
        pq_stats := (pq_stats q)\<lparr>ps_poppedElements := ps_poppedElements (pq_stats q) + ?k\<rparr>\<rparr>"
      using False p unfolding pq_pop_def Let_def first_def by simp_all
    ultimately show ?thesis by (simp add: ring_ok_def pq_contents_def)
  qed
qed

section \<open>Runs\<close>

datatype pcm_op = PcmPush nat "sample list" | PcmPop nat | PcmClear

fun pq_step :: "pcm_op \<Rightarrow> pcm_queue \<Rightarrow> sample list \<times> pcm_queue" where
  "pq_step (PcmPush elapsed data) q = ([], pq_push elapsed data q)"
| "pq_step (PcmPop n) q = pq_pop n q"
| "pq_step PcmClear q = ([], pq_clear q)"

text \<open>The contract: a list of samples; the outputs of the pops.\<close>

fun spec_step :: "nat \<Rightarrow> nat \<Rightarrow> nat \<Rightarrow> pcm_op \<Rightarrow> sample list \<Rightarrow> sample list \<times> sample list" where
  "spec_step c h t (PcmPush elapsed data) xs = ([], if data = [] then xs else spec_push c h t data xs)"
| "spec_step c h t (PcmPop n) xs = (take n xs, drop n xs)"
| "spec_step c h t PcmClear xs = ([], [])"

fun run_steps :: "('op \<Rightarrow> 's \<Rightarrow> 'o \<times> 's) \<Rightarrow> 'op list \<Rightarrow> 's \<Rightarrow> 'o list \<times> 's" where
  "run_steps f [] s = ([], s)"
| "run_steps f (i # is) s = (let (x, s1) = f i s; (xs, s2) = run_steps f is s1 in (x # xs, s2))"

definition accounted :: "pcm_queue \<Rightarrow> bool" where
  "accounted q \<longleftrightarrow> ps_pushedElements (pq_stats q) = ps_poppedElements (pq_stats q) + ps_droppedElements (pq_stats q) + pq_depth q"

lemma step_refines:
  assumes "ring_ok q" "accounted q" "pq_step i q = (out, q')"
  shows "ring_ok q' \<and> accounted q' \<and>
    spec_step (pq_capacity q) (pq_highWater q) (pq_target q) i (pq_contents q) = (out, pq_contents q') \<and>
    pq_capacity q' = pq_capacity q \<and> pq_highWater q' = pq_highWater q \<and> pq_target q' = pq_target q"
proof (cases i)
  case (PcmPush elapsed data)
  define q1 where "q1 = (if data \<noteq> [] then pq_push_locked data q else q)"
  have 1: "ring_ok q1 \<and> accounted q1 \<and> pq_contents q1 =
      (if data = [] then pq_contents q else spec_push (pq_capacity q) (pq_highWater q) (pq_target q) data (pq_contents q)) \<and>
      pq_capacity q1 = pq_capacity q \<and> pq_highWater q1 = pq_highWater q \<and> pq_target q1 = pq_target q"
    using push_locked [OF assms(1), of data] assms(1,2) by (auto simp: q1_def accounted_def)
  have o: "out = []" and q': "q' = (if elapsed > ps_pushMaxNs (pq_stats q1)
      then q1\<lparr>pq_stats := (pq_stats q1)\<lparr>ps_pushMaxNs := elapsed\<rparr>\<rparr> else q1)"
    using assms(3) unfolding PcmPush pq_step.simps pq_push_def q1_def [symmetric] Let_def by simp_all
  show ?thesis using 1 unfolding o q' by (auto simp: PcmPush ring_ok_def accounted_def pq_contents_def)
next
  case (PcmPop n)
  with pop_ok [OF assms(1), of n out q'] assms(2,3) show ?thesis by (auto simp: accounted_def)
next
  case PcmClear
  with assms show ?thesis by (auto simp: pq_clear_def ring_ok_def accounted_def pq_contents_def)
qed

lemma run_refines:
  "ring_ok q \<Longrightarrow> accounted q \<Longrightarrow> run_steps pq_step is q = (outs, q') \<Longrightarrow>
    run_steps (spec_step (pq_capacity q) (pq_highWater q) (pq_target q)) is (pq_contents q) = (outs, pq_contents q') \<and>
    accounted q' \<and> ring_ok q' \<and> pq_capacity q' = pq_capacity q"
proof (induction "is" arbitrary: q q' outs)
  case (Cons i "is")
  obtain x q1 where s: "pq_step i q = (x, q1)" by fastforce
  obtain xs q2 where r: "run_steps pq_step is q1 = (xs, q2)" by fastforce
  from step_refines [OF Cons.prems(1,2) s] Cons.IH [OF _ _ r] Cons.prems(3) s r show ?case by auto
qed simp

section \<open>Properties\<close>

text \<open>C27: The ring is a queue: whatever pushes, pops and clears are made, the pops hand out exactly
  the samples of a list on which a push appends, keeps the newest up to the capacity and, above the
  high water mark, the newest up to the target; the depth is within the capacity and every sample
  pushed is accounted for as popped, dropped or still queued.\<close>

theorem pq_refines_queue:
  assumes "run_steps pq_step is (pq_new c h t) = (outs, q)"
  defines "capacity \<equiv> pq_capacity (pq_new c h t)" and "high \<equiv> pq_highWater (pq_new c h t)"
    and "target \<equiv> pq_target (pq_new c h t)"
  shows "run_steps (spec_step capacity high target) is [] = (outs, pq_contents q) \<and> pq_depth q \<le> capacity \<and>
    ps_pushedElements (pq_stats q) = ps_poppedElements (pq_stats q) + ps_droppedElements (pq_stats q) + pq_depth q"
proof -
  have n: "ring_ok (pq_new c h t)" "accounted (pq_new c h t)" "pq_contents (pq_new c h t) = []"
    by (simp_all add: pq_new_def Let_def ring_ok_def accounted_def pq_contents_def)
  from run_refines [OF n(1,2) assms(1)] show ?thesis
    by (auto simp: n(3) capacity_def high_def target_def accounted_def ring_ok_def)
qed

lemma pq_example:
  "fst (run_steps pq_step [PcmPush 5 [1, 2, 3], PcmPop 1] (pq_new 2 2 2)) = [[], [2]]"
  "pq_contents (snd (run_steps pq_step [PcmPush 5 [1, 2, 3], PcmPop 1] (pq_new 2 2 2))) = [3]"
  by (simp_all add: pq_new_def pq_push_def pq_push_locked_def pq_AppendLocked_def pq_DropFrontLocked_def pq_pop_def
      copy_to_def subspan_def pq_contents_def Let_def)

theorem pq_refines_queue_witness:
  "run_steps (spec_step 2 2 2) [PcmPush 5 [1, 2, 3], PcmPop 1] [] = ([[], [2]], [3])"
  using pq_refines_queue [OF prod.collapse [symmetric], of 2 2 2 "[PcmPush 5 [1, 2, 3], PcmPop 1]",
      unfolded pq_example]
  by (simp add: pq_new_def)

end
