(* ===== verification/PixelConverter.thy ===== *)
theory PixelConverter
  imports Nv12 Floats
begin

text \<open>
  The frame format of the Windows receiver and its pixel routines:
  \<open>src/windows/common/frame_pipe_protocol.h\<close> (\<open>FillBlackNv12\<close> and the sizes),
  \<open>src/windows/receiver/media/nv12_converter.cpp\<close> (\<open>Nv12Converter\<close>) and
  \<open>test_pattern_generator.cpp\<close> (\<open>TestPatternGenerator\<close>). A pointer is a byte list and an offset; a
  read or write outside the list is \<open>None\<close>. A null pointer is an absent list. The aspect ratios are
  \<open>float\<close>s, rounded as in \<open>Floats\<close>; the \<open>int\<close> products stay far below \<open>2 ^ 31\<close> for images of at
  most 8192 by 8192 and are mathematical integers.
\<close>

section \<open>The frame format\<close>

definition kWidth :: int where
  "kWidth = 1280"

definition kHeight :: int where
  "kHeight = 720"

definition kPayloadBytes :: int where
  "kPayloadBytes = kWidth * kHeight + kWidth * (kHeight div 2)"

section \<open>Loops over pixels\<close>

definition load_at :: "bytes \<Rightarrow> int \<Rightarrow> u8 option" where
  "load_at b i = (if 0 \<le> i then load b (nat i) else None)"

definition store_at :: "int \<Rightarrow> u8 option \<Rightarrow> bytes \<Rightarrow> bytes option" where
  "store_at i v b = (case v of None \<Rightarrow> None | Some w \<Rightarrow> if 0 \<le> i then store (nat i) w b else None)"

text \<open>The assignments of one iteration, then \<open>for (y < h) for (x < w)\<close> around them.\<close>

definition assign :: "(int \<times> u8 option) list \<Rightarrow> bytes \<Rightarrow> bytes option" where
  "assign = for_each (\<lambda>(i, v). store_at i v)"

definition draw :: "int \<Rightarrow> int \<Rightarrow> (int \<Rightarrow> int \<Rightarrow> (int \<times> u8 option) list) \<Rightarrow> bytes \<Rightarrow> bytes option" where
  "draw h w body = for_each (\<lambda>y. for_each (\<lambda>x. assign (body (int y) (int x))) [0..<nat w]) [0..<nat h]"

definition bind_draw :: "bytes option \<Rightarrow> (bytes \<Rightarrow> bytes option) \<Rightarrow> bytes option" where
  "bind_draw r f = (case r of None \<Rightarrow> None | Some b \<Rightarrow> f b)"

text \<open>\<open>memset(dst + dst0, value, n)\<close> and \<open>memcpy(dst + dst0, src + from, n)\<close>, byte by byte.\<close>

definition memset_at :: "int \<Rightarrow> u8 \<Rightarrow> int \<Rightarrow> bytes \<Rightarrow> bytes option" where
  "memset_at dst0 value n = draw 1 n (\<lambda>_ x. [(dst0 + x, Some value)])"

definition memcpy_at :: "int \<Rightarrow> bytes \<Rightarrow> int \<Rightarrow> int \<Rightarrow> bytes \<Rightarrow> bytes option" where
  "memcpy_at dst0 src from n = draw 1 n (\<lambda>_ x. [(dst0 + x, load_at src (from + x))])"

text \<open>The span handed over by the converter has \<open>kPayloadBytes\<close> bytes whatever the buffer has.\<close>

definition FillBlackNv12 :: "int \<Rightarrow> bytes \<Rightarrow> bytes option" where
  "FillBlackNv12 spanSize dst =
     (if spanSize < kPayloadBytes then Some dst
      else bind_draw (memset_at 0 0x10 (kWidth * kHeight) dst)
             (memset_at (kWidth * kHeight) 0x80 (kWidth * (kHeight div 2))))"

section \<open>Aspect fit\<close>

definition aspect :: "int \<Rightarrow> int \<Rightarrow> rat" where
  "aspect w h = fl32 (fl32 (of_int w) / fl32 (of_int h))"

text \<open>\<open>static_cast<int>\<close> truncates towards zero.\<close>

definition trunc :: "rat \<Rightarrow> int" where
  "trunc x = (if 0 \<le> x then \<lfloor>x\<rfloor> else \<lceil>x\<rceil>)"

definition aspect_fit :: "int \<Rightarrow> int \<Rightarrow> int \<Rightarrow> int \<Rightarrow> int \<times> int" where
  "aspect_fit srcW srcH dstW dstH =
     (let srcAspect = aspect srcW srcH; dstAspect = aspect dstW dstH;
          (fitW, fitH) =
            (if srcAspect > dstAspect then (dstW, trunc (fl32 (fl32 (of_int dstW) / srcAspect)))
             else (trunc (fl32 (fl32 (of_int dstH) * srcAspect)), dstH))
      in (cdiv fitW 2 * 2, cdiv fitH 2 * 2))"

definition letterbox_offset :: "int \<Rightarrow> int \<Rightarrow> int" where
  "letterbox_offset whole fit = cdiv (whole - fit) 4 * 2"

section \<open>The converters\<close>

definition ConvertI420ToNv12 ::
  "bytes option \<Rightarrow> int \<Rightarrow> bytes option \<Rightarrow> int \<Rightarrow> bytes option \<Rightarrow> int \<Rightarrow> int \<Rightarrow> int \<Rightarrow> bytes \<Rightarrow> int \<Rightarrow> int \<Rightarrow> bytes option" where
  "ConvertI420ToNv12 srcY strideY srcU strideU srcV strideV srcW srcH dst dstW dstH =
     (case (srcY, srcU, srcV) of
        (Some ys, Some us, Some vs) \<Rightarrow>
          if srcW \<le> 0 \<or> srcH \<le> 0 then Some dst
          else bind_draw (FillBlackNv12 kPayloadBytes dst) (\<lambda>d.
            let (fitW, fitH) = aspect_fit srcW srcH dstW dstH in
            if fitW \<le> 0 \<or> fitH \<le> 0 then Some d
            else
              let offsetX = letterbox_offset dstW fitW; offsetY = letterbox_offset dstH fitH;
                  uvPlane = dstW * dstH;
                  srcHalfW = cdiv (srcW + 1) 2; srcHalfH = cdiv (srcH + 1) 2;
                  fitHalfW = cdiv fitW 2; fitHalfH = cdiv fitH 2;
                  offsetHalfX = cdiv offsetX 2; offsetHalfY = cdiv offsetY 2
              in bind_draw
                   (draw fitH fitW (\<lambda>y x.
                      [((offsetY + y) * dstW + offsetX + x,
                        load_at ys (cdiv (y * srcH) fitH * strideY + cdiv (x * srcW) fitW))]) d)
                   (draw fitHalfH fitHalfW (\<lambda>y x.
                      let row = cdiv (y * srcHalfH) fitHalfH; col = cdiv (x * srcHalfW) fitHalfW;
                          dst0 = uvPlane + (offsetHalfY + y) * dstW + offsetHalfX * 2 + x * 2
                      in [(dst0, load_at us (row * strideU + col)), (dst0 + 1, load_at vs (row * strideV + col))])))
      | _ \<Rightarrow> Some dst)"

text \<open>BT.601; \<open>>> 8\<close> of a negative \<open>int\<close> is an arithmetic shift, the floor of the quotient.\<close>

definition clamp_byte :: "int \<Rightarrow> int \<Rightarrow> int \<Rightarrow> u8" where
  "clamp_byte v lo hi = of_int (max lo (min hi v))"

definition bgra_y :: "u8 \<Rightarrow> u8 \<Rightarrow> u8 \<Rightarrow> u8" where
  "bgra_y b g r = clamp_byte ((66 * uint r + 129 * uint g + 25 * uint b + 128) div 256 + 16) 16 235"

definition bgra_u :: "u8 \<Rightarrow> u8 \<Rightarrow> u8 \<Rightarrow> u8" where
  "bgra_u b g r = clamp_byte ((- 38 * uint r - 74 * uint g + 112 * uint b + 128) div 256 + 128) 16 240"

definition bgra_v :: "u8 \<Rightarrow> u8 \<Rightarrow> u8 \<Rightarrow> u8" where
  "bgra_v b g r = clamp_byte ((112 * uint r - 94 * uint g - 18 * uint b + 128) div 256 + 128) 16 240"

definition pixel_fn :: "(u8 \<Rightarrow> u8 \<Rightarrow> u8 \<Rightarrow> u8) \<Rightarrow> bytes \<Rightarrow> int \<Rightarrow> u8 option" where
  "pixel_fn f src p =
     (case (load_at src p, load_at src (p + 1), load_at src (p + 2)) of
        (Some b, Some g, Some r) \<Rightarrow> Some (f b g r) | _ \<Rightarrow> None)"

definition ConvertBgraToNv12 :: "bytes option \<Rightarrow> int \<Rightarrow> int \<Rightarrow> int \<Rightarrow> bytes \<Rightarrow> int \<Rightarrow> int \<Rightarrow> bytes option" where
  "ConvertBgraToNv12 srcBgra srcW srcH stride dst dstW dstH =
     (case srcBgra of
        None \<Rightarrow> Some dst
      | Some src \<Rightarrow>
          if srcW \<le> 0 \<or> srcH \<le> 0 then Some dst
          else bind_draw (FillBlackNv12 kPayloadBytes dst) (\<lambda>d.
            let (fitW, fitH) = aspect_fit srcW srcH dstW dstH in
            if fitW \<le> 0 \<or> fitH \<le> 0 then Some d
            else
              let offsetX = letterbox_offset dstW fitW; offsetY = letterbox_offset dstH fitH; uvPlane = dstW * dstH in
              draw fitH fitW (\<lambda>y x.
                let p = cdiv (y * srcH) fitH * stride + cdiv (x * srcW) fitW * 4;
                    uv = uvPlane + cdiv (offsetY + y) 2 * dstW + (offsetX + x)
                in ((offsetY + y) * dstW + offsetX + x, pixel_fn bgra_y src p) #
                   (if Prelude.cmod y 2 = 0 \<and> Prelude.cmod x 2 = 0
                    then [(uv, pixel_fn bgra_u src p), (uv + 1, pixel_fn bgra_v src p)] else [])) d))"

definition normal_rotation :: "int \<Rightarrow> int" where
  "normal_rotation degrees = cdiv (Prelude.cmod (Prelude.cmod degrees 360 + 360) 360) 90 * 90"

definition sample_size :: "int \<Rightarrow> int" where
  "sample_size n = (if n > 16 then even_down n else n)"

text \<open>The two plane loops of each rotation, with the column and row tables written as functions.\<close>

definition nv_luma :: "int \<Rightarrow> int \<Rightarrow> int \<Rightarrow> int \<Rightarrow> int \<Rightarrow> int \<Rightarrow> int \<Rightarrow> int \<Rightarrow> int" where
  "nv_luma rot pitch sampleW sampleH fitW fitH y x =
     (if rot = 0 then cdiv (y * sampleH) fitH * pitch + cdiv (x * sampleW) fitW
      else if rot = 90 then ((sampleH - 1) - cdiv (x * sampleH) fitW) * pitch + cdiv (y * sampleW) fitH
      else if rot = 180 then ((sampleH - 1) - cdiv (y * sampleH) fitH) * pitch + ((sampleW - 1) - cdiv (x * sampleW) fitW)
      else cdiv (x * sampleH) fitW * pitch + ((sampleW - 1) - cdiv (y * sampleW) fitH))"

definition nv_chroma :: "int \<Rightarrow> int \<Rightarrow> int \<Rightarrow> int \<Rightarrow> int \<Rightarrow> int \<Rightarrow> int \<Rightarrow> int \<Rightarrow> int" where
  "nv_chroma rot pitch halfW halfH fitHalfW fitHalfH y x =
     (if rot = 0 then cdiv (y * halfH) fitHalfH * pitch + cdiv (x * halfW) fitHalfW * 2
      else if rot = 90 then ((halfH - 1) - cdiv (x * halfH) fitHalfW) * pitch + cdiv (y * halfW) fitHalfH * 2
      else if rot = 180 then ((halfH - 1) - cdiv (y * halfH) fitHalfH) * pitch + ((halfW - 1) - cdiv (x * halfW) fitHalfW) * 2
      else cdiv (x * halfH) fitHalfW * pitch + ((halfW - 1) - cdiv (y * halfW) fitHalfH) * 2)"

definition kMaxFitDim :: int where
  "kMaxFitDim = 3840"

definition nv_scaled :: "bytes \<Rightarrow> int \<Rightarrow> int \<Rightarrow> int \<Rightarrow> int \<Rightarrow> int \<Rightarrow> int \<Rightarrow> int \<Rightarrow> bytes \<Rightarrow> bytes option" where
  "nv_scaled src pitch srcH rot sampleW sampleH dstW dstH d =
     (let effW = (if rot = 90 \<or> rot = 270 then sampleH else sampleW);
          effH = (if rot = 90 \<or> rot = 270 then sampleW else sampleH);
          (fw, fh) = aspect_fit effW effH dstW dstH in
      if fw \<le> 0 \<or> fh \<le> 0 then Some d
      else
        let offsetX = letterbox_offset dstW fw; offsetY = letterbox_offset dstH fh;
            srcUv = pitch * srcH; uvPlane = dstW * dstH;
            halfW = cdiv sampleW 2; halfH = cdiv sampleH 2;
            offsetHalfX = cdiv offsetX 2; offsetHalfY = cdiv offsetY 2;
            fitW = min fw kMaxFitDim; fitH = min fh kMaxFitDim;
            fitHalfW = cdiv fitW 2; fitHalfH = cdiv fitH 2
        in bind_draw
             (draw fitH fitW (\<lambda>y x.
                [((offsetY + y) * dstW + offsetX + x, load_at src (nv_luma rot pitch sampleW sampleH fitW fitH y x))]) d)
             (draw fitHalfH fitHalfW (\<lambda>y x.
                let dst0 = uvPlane + (offsetHalfY + y) * dstW + offsetHalfX * 2 + x * 2;
                    p = srcUv + nv_chroma rot pitch halfW halfH fitHalfW fitHalfH y x
                in [(dst0, load_at src p), (dst0 + 1, load_at src (p + 1))])))"

definition ConvertNv12ToNv12Letterbox ::
  "bytes option \<Rightarrow> int \<Rightarrow> int \<Rightarrow> int \<Rightarrow> bytes \<Rightarrow> int \<Rightarrow> int \<Rightarrow> int \<Rightarrow> bytes option" where
  "ConvertNv12ToNv12Letterbox srcNv12 srcPitch srcW srcH dst dstW dstH rotationDegrees =
     (case srcNv12 of
        None \<Rightarrow> Some dst
      | Some src \<Rightarrow>
          if srcW \<le> 0 \<or> srcH \<le> 0 then Some dst
          else
            let pitch = (if srcPitch \<le> 0 then srcW else srcPitch); rot = normal_rotation rotationDegrees in
            bind_draw (FillBlackNv12 kPayloadBytes dst) (\<lambda>d.
              if rot = 0 \<and> srcW = dstW \<and> srcH = dstH \<and> pitch = dstW then memcpy_at 0 src 0 kPayloadBytes d
              else
                let sampleW = sample_size srcW; sampleH = sample_size srcH in
                if rot = 0 \<and> sampleW = dstW \<and> sampleH = dstH then
                  if pitch = dstW then memcpy_at 0 src 0 (cdiv (dstW * dstH * 3) 2) d
                  else bind_draw
                         (for_each (\<lambda>y. memcpy_at (int y * dstW) src (int y * pitch) dstW) [0..<nat dstH] d)
                         (for_each (\<lambda>y. memcpy_at (dstW * dstH + int y * dstW) src (pitch * srcH + int y * pitch) dstW)
                            [0..<nat (cdiv dstH 2)])
                else bind_draw (FillBlackNv12 kPayloadBytes d)
                       (nv_scaled src pitch srcH rot sampleW sampleH dstW dstH)))"

section \<open>What a drawing loop leaves behind\<close>

lemma bind_draw_simps [simp]: "bind_draw (Some b) f = f b" "bind_draw None f = None"
  by (simp_all add: bind_draw_def)

text \<open>The assignments of all iterations, in the order of the loop.\<close>

definition drawing :: "int \<Rightarrow> int \<Rightarrow> (int \<Rightarrow> int \<Rightarrow> (int \<times> u8 option) list) \<Rightarrow> (int \<times> u8 option) list" where
  "drawing h w body = concat (map (\<lambda>(y, x). body (int y) (int x)) (List.product [0..<nat h] [0..<nat w]))"

lemma assign_append: "assign (ps @ qs) b = (case assign ps b of None \<Rightarrow> None | Some b' \<Rightarrow> assign qs b')"
  unfolding assign_def by (rule for_each_append)

lemma assign_Nil [simp]: "assign [] b = Some b"
  by (simp add: assign_def)

lemma assign_concat: "assign (concat pss) b = for_each assign pss b"
  by (induction pss arbitrary: b) (auto simp: assign_append split: option.splits)

lemma draw_assign: "draw h w body b = assign (drawing h w body) b"
  using for_each_nested [of "\<lambda>(y, x). assign (body (int y) (int x))" "[0..<nat w]" "[0..<nat h]" b]
  by (simp add: draw_def drawing_def assign_concat for_each_map case_prod_unfold)

lemma set_drawing: "p \<in> set (drawing h w body) \<longleftrightarrow> (\<exists>y x. 0 \<le> y \<and> y < h \<and> 0 \<le> x \<and> x < w \<and> p \<in> set (body y x))"
proof
  assume "p \<in> set (drawing h w body)"
  then obtain y x where "y < nat h" "x < nat w" "p \<in> set (body (int y) (int x))" by (auto simp: drawing_def)
  then show "\<exists>y x. 0 \<le> y \<and> y < h \<and> 0 \<le> x \<and> x < w \<and> p \<in> set (body y x)"
    by (intro exI [of _ "int y"] exI [of _ "int x"]) auto
next
  assume "\<exists>y x. 0 \<le> y \<and> y < h \<and> 0 \<le> x \<and> x < w \<and> p \<in> set (body y x)"
  then obtain y x where yx: "0 \<le> y" "y < h" "0 \<le> x" "x < w" "p \<in> set (body y x)" by blast
  have "\<exists>y \<in> {0..<nat h}. \<exists>x \<in> {0..<nat w}. p \<in> set (body (int y) (int x))"
    by (rule bexI [of _ "nat y"], rule bexI [of _ "nat x"]) (use yx in simp_all)
  then show "p \<in> set (drawing h w body)" by (simp add: drawing_def)
qed

lemma distinct_concat_map:
  assumes "distinct ps" "\<And>p. p \<in> set ps \<Longrightarrow> distinct (map fst (f p))"
    and "\<And>p q i. p \<in> set ps \<Longrightarrow> q \<in> set ps \<Longrightarrow> i \<in> fst ` set (f p) \<Longrightarrow> i \<in> fst ` set (f q) \<Longrightarrow> p = q"
  shows "distinct (map fst (concat (map f ps)))"
  using assms
proof (induction ps)
  case (Cons p ps)
  have "fst ` set (f p) \<inter> fst ` set (concat (map f ps)) = {}"
  proof -
    have False if "q \<in> set ps" "i \<in> fst ` set (f p)" "i \<in> fst ` set (f q)" for q i
      using Cons.prems(3) [of p q i] Cons.prems(1) that by auto
    then show ?thesis by auto
  qed
  moreover have "distinct (map fst (concat (map f ps)))"
    by (rule Cons.IH) (use Cons.prems in \<open>auto dest: Cons.prems(3) [rotated 2]\<close>)
  ultimately show ?case using Cons.prems(2) [of p] by (simp add: disjoint_iff)
qed simp

text \<open>Assignments at distinct places inside the buffer, of bytes that were read.\<close>

lemma assign_result:
  assumes "\<forall>(i, v) \<in> set ps. 0 \<le> i \<and> nat i < length b \<and> v \<noteq> None" "distinct (map fst ps)"
  shows "\<exists>b'. assign ps b = Some b' \<and> length b' = length b \<and> (\<forall>(i, v) \<in> set ps. Some (b' ! nat i) = v) \<and>
    (\<forall>j. int j \<notin> fst ` set ps \<longrightarrow> b' ! j = b ! j)"
  using assms
proof (induction ps arbitrary: b)
  case (Cons p ps)
  obtain i v where p: "p = (i, Some v)" "0 \<le> i" "nat i < length b" using Cons.prems(1) by (cases p) auto
  let ?b = "b[nat i := v]"
  have "\<forall>(i, v) \<in> set ps. 0 \<le> i \<and> nat i < length ?b \<and> v \<noteq> None" "distinct (map fst ps)" using Cons.prems by auto
  from Cons.IH [OF this] obtain b' where b': "assign ps ?b = Some b'" "length b' = length b"
    "\<forall>(i, v) \<in> set ps. Some (b' ! nat i) = v" "\<forall>j. int j \<notin> fst ` set ps \<longrightarrow> b' ! j = ?b ! j" by auto
  have "i \<notin> fst ` set ps" using Cons.prems(2) by (simp add: p)
  then have "b' ! nat i = v" using b'(4) [rule_format, of "nat i"] p(2,3) by simp
  moreover have "assign (p # ps) b = assign ps ?b" using p by (simp add: assign_def store_at_def store_def)
  moreover have "b' ! j = b ! j" if "int j \<notin> fst ` set (p # ps)" for j
  proof -
    have "nat i \<noteq> j" using that p(1,2) by auto
    then show ?thesis using b'(4) that by simp
  qed
  ultimately show ?case using b' p(1) by (intro exI [of _ b']) auto
qed (simp add: assign_def)

text \<open>The loop: the places of different iterations are different.\<close>

lemma draw_result:
  assumes "\<And>y x i v. 0 \<le> y \<Longrightarrow> y < h \<Longrightarrow> 0 \<le> x \<Longrightarrow> x < w \<Longrightarrow> (i, v) \<in> set (body y x) \<Longrightarrow>
      0 \<le> i \<and> nat i < length b \<and> v \<noteq> None"
    and "\<And>y x. 0 \<le> y \<Longrightarrow> y < h \<Longrightarrow> 0 \<le> x \<Longrightarrow> x < w \<Longrightarrow> distinct (map fst (body y x))"
    and "\<And>y x y' x' i. 0 \<le> y \<Longrightarrow> y < h \<Longrightarrow> 0 \<le> x \<Longrightarrow> x < w \<Longrightarrow> 0 \<le> y' \<Longrightarrow> y' < h \<Longrightarrow> 0 \<le> x' \<Longrightarrow> x' < w \<Longrightarrow>
      i \<in> fst ` set (body y x) \<Longrightarrow> i \<in> fst ` set (body y' x') \<Longrightarrow> y = y' \<and> x = x'"
  obtains b' where "draw h w body b = Some b'" "length b' = length b"
    "\<And>y x i v. 0 \<le> y \<Longrightarrow> y < h \<Longrightarrow> 0 \<le> x \<Longrightarrow> x < w \<Longrightarrow> (i, v) \<in> set (body y x) \<Longrightarrow> Some (b' ! nat i) = v"
    "\<And>j. (\<And>y x. 0 \<le> y \<Longrightarrow> y < h \<Longrightarrow> 0 \<le> x \<Longrightarrow> x < w \<Longrightarrow> int j \<notin> fst ` set (body y x)) \<Longrightarrow> b' ! j = b ! j"
proof -
  let ?ps = "drawing h w body"
  have "0 \<le> i \<and> nat i < length b \<and> v \<noteq> None" if "(i, v) \<in> set ?ps" for i v
    using that assms(1) unfolding set_drawing by blast
  then have "\<forall>(i, v) \<in> set ?ps. 0 \<le> i \<and> nat i < length b \<and> v \<noteq> None" by blast
  moreover have "distinct (map fst ?ps)"
    unfolding drawing_def
  proof (rule distinct_concat_map)
    fix p q :: "nat \<times> nat" and i
    assume pq: "p \<in> set (List.product [0..<nat h] [0..<nat w])" "q \<in> set (List.product [0..<nat h] [0..<nat w])"
      "i \<in> fst ` set (case p of (y, x) \<Rightarrow> body (int y) (int x))" "i \<in> fst ` set (case q of (y, x) \<Rightarrow> body (int y) (int x))"
    obtain y x y' x' where p: "p = (y, x)" "q = (y', x')" by fastforce
    have "y < nat h" "x < nat w" "y' < nat h" "x' < nat w" using pq(1,2) by (auto simp: p)
    moreover have "i \<in> fst ` set (body (int y) (int x))" "i \<in> fst ` set (body (int y') (int x'))" using pq(3,4) by (simp_all add: p)
    ultimately have "int y = int y' \<and> int x = int x'" using assms(3) [of "int y" "int x" "int y'" "int x'" i] by simp
    then show "p = q" by (simp add: p)
  qed (use assms(2) in \<open>auto simp: distinct_product\<close>)
  ultimately obtain b' where b': "assign ?ps b = Some b'" "length b' = length b" "\<forall>(i, v) \<in> set ?ps. Some (b' ! nat i) = v"
    "\<forall>j. int j \<notin> fst ` set ?ps \<longrightarrow> b' ! j = b ! j" using assign_result by blast
  show thesis
  proof (rule that [of b'])
    show "draw h w body b = Some b'" using b'(1) by (simp add: draw_assign)
    show "Some (b' ! nat i) = v" if "0 \<le> y" "y < h" "0 \<le> x" "x < w" "(i, v) \<in> set (body y x)" for y x i v
    proof -
      have "(i, v) \<in> set ?ps" using that unfolding set_drawing by blast
      then show ?thesis using bspec [OF b'(3), of "(i, v)"] by simp
    qed
    show "b' ! j = b ! j" if "\<And>y x. 0 \<le> y \<Longrightarrow> y < h \<Longrightarrow> 0 \<le> x \<Longrightarrow> x < w \<Longrightarrow> int j \<notin> fst ` set (body y x)" for j
    proof -
      have "int j \<notin> fst ` set ?ps"
      proof
        assume "int j \<in> fst ` set ?ps"
        then obtain v where "(int j, v) \<in> set ?ps" by (metis imageE prod.collapse)
        then obtain y x where yx: "0 \<le> y" "y < h" "0 \<le> x" "x < w" "(int j, v) \<in> set (body y x)"
          unfolding set_drawing by blast
        then have "int j \<in> fst ` set (body y x)" by (intro image_eqI [of _ _ "(int j, v)"]) simp_all
        with that [OF yx(1-4)] show False by blast
      qed
      then show ?thesis using b'(4) by blast
    qed
  qed (rule b'(2))
qed

section \<open>Rectangles\<close>

lemma place_unique:
  fixes y x :: int
  assumes "y * W + x = y' * W + x'" "0 \<le> x" "x < W" "0 \<le> x'" "x' < W"
  shows "y = y' \<and> x = x'"
proof -
  have "(y * W + x) div W = y" "(y' * W + x') div W = y'" using assms(2-5) by simp_all
  with assms(1) have "y = y'" by metis
  with assms(1) show ?thesis by simp
qed

lemma place_bound:
  fixes y x :: int
  assumes "0 \<le> y" "y < h" "0 \<le> x" "x < W" "0 \<le> base" "base + (oy + h) * W \<le> n" "0 \<le> oy"
  shows "0 \<le> base + (oy + y) * W + x \<and> base + (oy + y) * W + x < n"
proof -
  have "(oy + y + 1) * W \<le> (oy + h) * W" using assms(2-4) by (intro mult_right_mono) simp_all
  moreover have "0 \<le> (oy + y) * W" using assms by simp
  ultimately show ?thesis using assms by (simp add: distrib_right)
qed

text \<open>One byte per pixel.\<close>

lemma draw_bytes:
  assumes "0 \<le> base" "0 \<le> ox" "0 \<le> oy" "ox + w \<le> W" "base + (oy + h) * W \<le> int (length b)"
    and "\<And>y x. 0 \<le> y \<Longrightarrow> y < h \<Longrightarrow> 0 \<le> x \<Longrightarrow> x < w \<Longrightarrow> v y x \<noteq> None"
  obtains b' where "draw h w (\<lambda>y x. [(base + (oy + y) * W + ox + x, v y x)]) b = Some b'" "length b' = length b"
    "\<And>y x. 0 \<le> y \<Longrightarrow> y < h \<Longrightarrow> 0 \<le> x \<Longrightarrow> x < w \<Longrightarrow> Some (b' ! nat (base + (oy + y) * W + ox + x)) = v y x"
    "\<And>j. (\<And>y x. 0 \<le> y \<Longrightarrow> y < h \<Longrightarrow> 0 \<le> x \<Longrightarrow> x < w \<Longrightarrow> int j \<noteq> base + (oy + y) * W + ox + x) \<Longrightarrow> b' ! j = b ! j"
proof -
  let ?body = "\<lambda>y x. [(base + (oy + y) * W + ox + x, v y x)]"
  have bound: "0 \<le> base + (oy + y) * W + ox + x \<and> nat (base + (oy + y) * W + ox + x) < length b"
    if "0 \<le> y" "y < h" "0 \<le> x" "x < w" for y x
  proof -
    have "0 \<le> base + (oy + y) * W + (ox + x) \<and> base + (oy + y) * W + (ox + x) < int (length b)"
      by (rule place_bound [of y h "ox + x" W]) (use that assms(1-5) in linarith)+
    then show ?thesis by linarith
  qed
  have inj: "y = y' \<and> x = x'"
    if "0 \<le> x" "x < w" "0 \<le> x'" "x' < w" "base + (oy + y) * W + ox + x = base + (oy + y') * W + ox + x'" for y x y' x'
  proof -
    have "oy + y = oy + y' \<and> ox + x = ox + x'"
      by (rule place_unique [of "oy + y" W "ox + x" "oy + y'" "ox + x'"]) (use that assms(2,4) in linarith)+
    then show ?thesis by linarith
  qed
  have once: "y = y' \<and> x = x'" if "0 \<le> x" "x < w" "0 \<le> x'" "x' < w"
    "i \<in> fst ` set (?body y x)" "i \<in> fst ` set (?body y' x')" for y x y' x' i
    by (rule inj [OF that(1-4)]) (use that(5,6) in simp)
  have good: "0 \<le> i \<and> nat i < length b \<and> z \<noteq> None"
    if "0 \<le> y" "y < h" "0 \<le> x" "x < w" "(i, z) \<in> set (?body y x)" for y x i z
    using bound [OF that(1-4)] assms(6) [OF that(1-4)] that(5) by (metis Pair_inject empty_iff empty_set set_ConsD)
  obtain b' where b': "draw h w ?body b = Some b'" "length b' = length b"
    "\<And>y x i u. 0 \<le> y \<Longrightarrow> y < h \<Longrightarrow> 0 \<le> x \<Longrightarrow> x < w \<Longrightarrow> (i, u) \<in> set (?body y x) \<Longrightarrow> Some (b' ! nat i) = u"
    "\<And>j. (\<And>y x. 0 \<le> y \<Longrightarrow> y < h \<Longrightarrow> 0 \<le> x \<Longrightarrow> x < w \<Longrightarrow> int j \<notin> fst ` set (?body y x)) \<Longrightarrow> b' ! j = b ! j"
  proof (rule draw_result [of h w ?body b])
    show "\<And>y x. distinct (map fst (?body y x))" by simp
  qed (use good once in blast)+
  show thesis
  proof (rule that [of b'])
    show "Some (b' ! nat (base + (oy + y) * W + ox + x)) = v y x" if "0 \<le> y" "y < h" "0 \<le> x" "x < w" for y x
      by (rule b'(3) [OF that]) simp
    show "b' ! j = b ! j" if "\<And>y x. 0 \<le> y \<Longrightarrow> y < h \<Longrightarrow> 0 \<le> x \<Longrightarrow> x < w \<Longrightarrow> int j \<noteq> base + (oy + y) * W + ox + x" for j
      by (rule b'(4)) (use that in simp)
  qed (rule b'(1,2))+
qed

text \<open>Two bytes per pixel, the chroma pair.\<close>

lemma draw_pairs:
  assumes "0 \<le> base" "0 \<le> ox" "0 \<le> oy" "ox + 2 * w \<le> W" "base + (oy + h) * W \<le> int (length b)"
    and "\<And>y x. 0 \<le> y \<Longrightarrow> y < h \<Longrightarrow> 0 \<le> x \<Longrightarrow> x < w \<Longrightarrow> u y x \<noteq> None \<and> v y x \<noteq> None"
  obtains b' where "draw h w (\<lambda>y x. [(base + (oy + y) * W + ox + x * 2, u y x),
      (base + (oy + y) * W + ox + x * 2 + 1, v y x)]) b = Some b'" "length b' = length b"
    "\<And>y x. 0 \<le> y \<Longrightarrow> y < h \<Longrightarrow> 0 \<le> x \<Longrightarrow> x < w \<Longrightarrow> Some (b' ! nat (base + (oy + y) * W + ox + x * 2)) = u y x \<and>
      Some (b' ! nat (base + (oy + y) * W + ox + x * 2 + 1)) = v y x"
    "\<And>j. (\<And>y x. 0 \<le> y \<Longrightarrow> y < h \<Longrightarrow> 0 \<le> x \<Longrightarrow> x < w \<Longrightarrow> int j \<noteq> base + (oy + y) * W + ox + x * 2 \<and>
      int j \<noteq> base + (oy + y) * W + ox + x * 2 + 1) \<Longrightarrow> b' ! j = b ! j"
proof -
  let ?body = "\<lambda>y x. [(base + (oy + y) * W + ox + x * 2, u y x), (base + (oy + y) * W + ox + x * 2 + 1, v y x)]"
  have bound: "0 \<le> base + (oy + y) * W + ox + x * 2 + c \<and> nat (base + (oy + y) * W + ox + x * 2 + c) < length b"
    if "0 \<le> y" "y < h" "0 \<le> x" "x < w" "c = 0 \<or> c = 1" for y x c
  proof -
    have "0 \<le> base + (oy + y) * W + (ox + x * 2 + c) \<and> base + (oy + y) * W + (ox + x * 2 + c) < int (length b)"
      by (rule place_bound [of y h "ox + x * 2 + c" W]) (use that assms(1-5) in linarith)+
    then show ?thesis by linarith
  qed
  note bound0 = bound [where c = 0, simplified] and bound1 = bound [where c = 1, simplified]
  have inj: "y = y' \<and> x = x' \<and> c = c'"
    if "0 \<le> x" "x < w" "0 \<le> x'" "x' < w" "c = 0 \<or> c = 1" "c' = 0 \<or> c' = 1"
      "base + (oy + y) * W + ox + x * 2 + c = base + (oy + y') * W + ox + x' * 2 + c'" for y x y' x' c c'
  proof -
    have "oy + y = oy + y' \<and> ox + x * 2 + c = ox + x' * 2 + c'"
      by (rule place_unique [of "oy + y" W "ox + x * 2 + c" "oy + y'" "ox + x' * 2 + c'"]) (use that assms(2,4) in linarith)+
    then show ?thesis using that(5,6) by presburger
  qed
  have once: "y = y' \<and> x = x'" if r: "0 \<le> x" "x < w" "0 \<le> x'" "x' < w"
    and i: "i \<in> fst ` set (?body y x)" "i \<in> fst ` set (?body y' x')" for y x y' x' i
  proof -
    obtain c c' where "c = 0 \<or> c = 1" "c' = 0 \<or> c' = 1" "i = base + (oy + y) * W + ox + x * 2 + c"
      "i = base + (oy + y') * W + ox + x' * 2 + c'" using i by fastforce
    then show ?thesis using inj [OF r, of c c' y y'] by blast
  qed
  have good: "0 \<le> i \<and> nat i < length b \<and> z \<noteq> None"
    if "0 \<le> y" "y < h" "0 \<le> x" "x < w" "(i, z) \<in> set (?body y x)" for y x i z
    using bound0 [OF that(1-4)] bound1 [OF that(1-4)] assms(6) [OF that(1-4)] that(5) by auto
  obtain b' where b': "draw h w ?body b = Some b'" "length b' = length b"
    "\<And>y x i z. 0 \<le> y \<Longrightarrow> y < h \<Longrightarrow> 0 \<le> x \<Longrightarrow> x < w \<Longrightarrow> (i, z) \<in> set (?body y x) \<Longrightarrow> Some (b' ! nat i) = z"
    "\<And>j. (\<And>y x. 0 \<le> y \<Longrightarrow> y < h \<Longrightarrow> 0 \<le> x \<Longrightarrow> x < w \<Longrightarrow> int j \<notin> fst ` set (?body y x)) \<Longrightarrow> b' ! j = b ! j"
  proof (rule draw_result [of h w ?body b])
    show "\<And>y x. distinct (map fst (?body y x))" by simp
  qed (use good once in blast)+
  show thesis
  proof (rule that [of b'])
    show "Some (b' ! nat (base + (oy + y) * W + ox + x * 2)) = u y x \<and> Some (b' ! nat (base + (oy + y) * W + ox + x * 2 + 1)) = v y x"
      if "0 \<le> y" "y < h" "0 \<le> x" "x < w" for y x
      using b'(3) [OF that, of "base + (oy + y) * W + ox + x * 2" "u y x"]
        b'(3) [OF that, of "base + (oy + y) * W + ox + x * 2 + 1" "v y x"] by simp
    show "b' ! j = b ! j" if "\<And>y x. 0 \<le> y \<Longrightarrow> y < h \<Longrightarrow> 0 \<le> x \<Longrightarrow> x < w \<Longrightarrow> int j \<noteq> base + (oy + y) * W + ox + x * 2 \<and>
      int j \<noteq> base + (oy + y) * W + ox + x * 2 + 1" for j
      by (rule b'(4)) (use that in simp)
  qed (rule b'(1,2))+
qed

section \<open>The black frame\<close>

text \<open>One row of bytes.\<close>

lemma draw_row_eq: "draw 1 n (\<lambda>y x. [(p + (0 + y) * n + 0 + x, v x)]) b = draw 1 n (\<lambda>_ x. [(p + x, v x)]) b"
  by (simp add: draw_def split: option.splits)

lemma row_result:
  assumes "0 \<le> p" "p + n \<le> int (length b)" "0 \<le> n" "\<And>x. 0 \<le> x \<Longrightarrow> x < n \<Longrightarrow> v x \<noteq> None"
  obtains b' where "draw 1 n (\<lambda>_ x. [(p + x, v x)]) b = Some b'" "length b' = length b"
    "\<And>x. 0 \<le> x \<Longrightarrow> x < n \<Longrightarrow> Some (b' ! nat (p + x)) = v x"
    "\<And>j. \<not> (p \<le> int j \<and> int j < p + n) \<Longrightarrow> b' ! j = b ! j"
proof -
  obtain b' where b': "draw 1 n (\<lambda>y x. [(p + (0 + y) * n + 0 + x, v x)]) b = Some b'" "length b' = length b"
    "\<And>y x. 0 \<le> y \<Longrightarrow> y < 1 \<Longrightarrow> 0 \<le> x \<Longrightarrow> x < n \<Longrightarrow> Some (b' ! nat (p + (0 + y) * n + 0 + x)) = v x"
    "\<And>j. (\<And>y x. 0 \<le> y \<Longrightarrow> y < 1 \<Longrightarrow> 0 \<le> x \<Longrightarrow> x < n \<Longrightarrow> int j \<noteq> p + (0 + y) * n + 0 + x) \<Longrightarrow> b' ! j = b ! j"
    by (rule draw_bytes [of p 0 0 n n 1 b "\<lambda>_ x. v x"]) (use assms in auto)
  show thesis
  proof (rule that [of b'])
    show "draw 1 n (\<lambda>_ x. [(p + x, v x)]) b = Some b'" using b'(1) unfolding draw_row_eq .
    show "Some (b' ! nat (p + x)) = v x" if "0 \<le> x" "x < n" for x using b'(3) [of 0 x] that by simp
    show "b' ! j = b ! j" if out: "\<not> (p \<le> int j \<and> int j < p + n)" for j
    proof (rule b'(4))
      show "int j \<noteq> p + (0 + y) * n + 0 + x" if "0 \<le> y" "y < 1" "0 \<le> x" "x < n" for y x
      proof -
        have "y = 0" using that(1,2) by linarith
        then show ?thesis using out that(3,4) by auto
      qed
    qed
  qed (rule b'(2))
qed

lemma memset_result:
  assumes "0 \<le> p" "p + n \<le> int (length b)" "0 \<le> n"
  obtains b' where "memset_at p value n b = Some b'" "length b' = length b"
    "\<And>j. b' ! j = (if p \<le> int j \<and> int j < p + n then value else b ! j)"
proof -
  obtain b' where b': "draw 1 n (\<lambda>_ x. [(p + x, Some value)]) b = Some b'" "length b' = length b"
    "\<And>x. 0 \<le> x \<Longrightarrow> x < n \<Longrightarrow> Some (b' ! nat (p + x)) = Some value"
    "\<And>j. \<not> (p \<le> int j \<and> int j < p + n) \<Longrightarrow> b' ! j = b ! j"
    by (rule row_result [of p n b "\<lambda>_. Some value"]) (use assms in auto)
  have "b' ! j = (if p \<le> int j \<and> int j < p + n then value else b ! j)" for j
    using b'(3) [of "int j - p"] b'(4) [of j] by simp
  with b'(1,2) that show thesis by (simp add: memset_at_def)
qed

text \<open>Any buffer of the payload's size can be painted black.\<close>

lemma black_result:
  assumes "int (length b) = kPayloadBytes"
  obtains b' where "FillBlackNv12 kPayloadBytes b = Some b'" "length b' = length b"
    "\<And>j. j < length b \<Longrightarrow> b' ! j = (if int j < kWidth * kHeight then 16 else 128)"
proof -
  have n: "kWidth * kHeight = 921600" "kWidth * (kHeight div 2) = 460800" "int (length b) = 1382400"
    using assms by (simp_all add: kWidth_def kHeight_def kPayloadBytes_def)
  obtain b1 where b1: "memset_at 0 0x10 921600 b = Some b1" "length b1 = length b"
    "\<And>j. b1 ! j = (if 0 \<le> int j \<and> int j < 0 + 921600 then 0x10 else b ! j)"
    by (rule memset_result [of 0 921600 b "0x10"]) (use n in simp_all)
  obtain b2 where b2: "memset_at 921600 0x80 460800 b1 = Some b2" "length b2 = length b1"
    "\<And>j. b2 ! j = (if 921600 \<le> int j \<and> int j < 921600 + 460800 then 0x80 else b1 ! j)"
    by (rule memset_result [of 921600 460800 b1 "0x80"]) (use n b1(2) in simp_all)
  show thesis
  proof (rule that [of b2])
    show "FillBlackNv12 kPayloadBytes b = Some b2" using b1(1) b2(1) by (simp add: FillBlackNv12_def n)
    show "length b2 = length b" using b1(2) b2(2) by simp
    show "b2 ! j = (if int j < kWidth * kHeight then 16 else 128)" if "j < length b" for j
    proof -
      have "int j < 1382400" using that n(3) by linarith
      then show ?thesis unfolding n(1) b2(3) b1(3) by simp
    qed
  qed
qed

section \<open>The fitted rectangle\<close>

lemma fl32_int: "\<bar>n\<bar> \<le> 8192 \<Longrightarrow> fl32 (of_int n) = of_int n"
  unfolding fl32_def by (rule ieee_int) simp_all

lemma relative_error:
  fixes a q f y m :: rat
  shows "\<bar>a - q\<bar> \<le> q / 16777216 \<Longrightarrow> 1 / 8192 \<le> q \<Longrightarrow> 1 / 16384 \<le> a"
    and "f \<le> y + y / 16777216 \<Longrightarrow> y \<le> m * (1 + 1 / 1048576) \<Longrightarrow> m \<le> 8192 \<Longrightarrow> f < m + 1"
  by linarith (simp add: field_simps)

text \<open>An aspect ratio is off by at most one part in \<open>2 ^ 24\<close>.\<close>

lemma aspect_close:
  assumes "1 \<le> w" "w \<le> 8192" "1 \<le> h" "h \<le> 8192"
  shows "\<bar>aspect w h - of_int w / of_int h\<bar> \<le> of_int w / of_int h / 16777216" "1 / 16384 \<le> aspect w h"
proof -
  have r: "aspect w h = fl32 (of_int w / of_int h)" using assms by (simp add: aspect_def fl32_int)
  have h: "(0::rat) < of_int h" "(1::rat) \<le> of_int w" "(of_int h :: rat) \<le> 8192" using assms by simp_all
  then have q: "(1::rat) / 8192 \<le> of_int w / of_int h" by (intro frac_le) simp_all
  show e: "\<bar>aspect w h - of_int w / of_int h\<bar> \<le> of_int w / of_int h / 16777216"
    unfolding r by (rule fl32_error) (use q in linarith)
  from e q show "1 / 16384 \<le> aspect w h" by (rule relative_error(1))
qed

lemma trunc_le: "0 \<le> x \<Longrightarrow> x < of_int n + 1 \<Longrightarrow> 0 \<le> trunc x \<and> trunc x \<le> n"
  by (simp add: trunc_def floor_le_iff)

lemma abs_le: "1 \<le> n \<Longrightarrow> n \<le> m \<Longrightarrow> \<bar>n :: int\<bar> \<le> m"
  by simp

lemma halve: "0 \<le> n \<Longrightarrow> n \<le> m \<Longrightarrow> 0 \<le> cdiv n 2 * 2 \<and> cdiv n 2 * 2 \<le> m \<and> cdiv n 2 * 2 mod 2 = 0"
  by (simp add: cdiv_nonneg)

text \<open>Rounding cannot push the scaled side past the frame: it would have to be off by a whole pixel.\<close>

lemma fit_side:
  assumes "1 \<le> n" "n \<le> 8192" "0 \<le> y" "y \<le> of_int n * (1 + 1 / 1048576)"
  shows "0 \<le> trunc (fl32 y) \<and> trunc (fl32 y) \<le> n"
proof (rule trunc_le)
  show "0 \<le> fl32 y" by (rule fl32_nonneg) (rule assms(3))
  have n: "(of_int n :: rat) \<le> 8192" using assms(2) by simp
  show "fl32 y < of_int n + 1"
  proof (cases "1 / 18446744073709551616 \<le> y")
    case True
    from fl32_error [OF this] have "fl32 y \<le> y + y / 16777216" by linarith
    then show ?thesis using assms(4) n by (rule relative_error(2))
  next
    case False
    have "fl32 y \<le> 1"
    proof (cases "y = 0")
      case False
      then have y: "0 < y" using assms(3) by simp
      have "\<bar>fl32 y - y\<bar> \<le> 2 powi max (ilog2 \<bar>y\<bar> + 1 - int 24) (- 149) / 2" unfolding fl32_def by (rule ieee_close) (rule False)
      moreover have "(2::rat) powi max (ilog2 \<bar>y\<bar> + 1 - int 24) (- 149) \<le> 2 powi 0"
      proof (rule power_int_increasing)
        have "(2::rat) powi ilog2 y \<le> y" using ilog2_bounds [OF y] by simp
        also have "\<dots> < 1" using \<open>\<not> 1 / 18446744073709551616 \<le> y\<close> by linarith
        finally have "(2::rat) powi ilog2 y < 2 powi 0" by simp
        then have "ilog2 y < 0" by (rule powi_less_exp)
        then show "max (ilog2 \<bar>y\<bar> + 1 - int 24) (- 149) \<le> 0" using y by simp
      qed simp
      moreover have "(2::rat) powi 0 = 1" by simp
      ultimately have "\<bar>fl32 y - y\<bar> \<le> 1 / 2" by linarith
      then show ?thesis using \<open>\<not> 1 / 18446744073709551616 \<le> y\<close> by linarith
    qed simp
    moreover have "(1::rat) \<le> of_int n" using assms(1) by simp
    ultimately show ?thesis by linarith
  qed
qed

lemma aspect_fit_bounds:
  assumes src: "1 \<le> srcW" "srcW \<le> 8192" "1 \<le> srcH" "srcH \<le> 8192"
    and dst: "1 \<le> dstW" "dstW \<le> 8192" "1 \<le> dstH" "dstH \<le> 8192"
    and f: "aspect_fit srcW srcH dstW dstH = (fw, fh)"
  shows "0 \<le> fw \<and> fw \<le> dstW \<and> fw mod 2 = 0 \<and> 0 \<le> fh \<and> fh \<le> dstH \<and> fh mod 2 = 0"
proof -
  let ?s = "aspect srcW srcH" and ?d = "aspect dstW dstH"
  have d: "\<bar>?d - of_int dstW / of_int dstH\<bar> \<le> of_int dstW / of_int dstH / 16777216" by (rule aspect_close) (rule dst)+
  have s: "0 < ?s" using aspect_close(2) [OF src] by linarith
  have p: "(0::rat) < of_int dstW" "(0::rat) < of_int dstH" using dst by simp_all
  show ?thesis
  proof (cases "?s > ?d")
    case True
    have "of_int dstW / ?s \<le> of_int dstH * (1 + 1 / 1048576)"
    proof -
      have "of_int dstW / of_int dstH * (1 - 1 / 16777216) \<le> ?s" using d True by (simp add: right_diff_distrib)
      then have "of_int dstW * (1 - 1 / 16777216) \<le> ?s * of_int dstH" using p by (simp add: field_simps)
      then have "of_int dstW * (1 - 1 / 16777216) * (1 + 1 / 1048576) \<le> ?s * of_int dstH * (1 + 1 / 1048576)"
        by (rule mult_right_mono) simp
      moreover have "(of_int dstW :: rat) \<le> of_int dstW * (1 - 1 / 16777216) * (1 + 1 / 1048576)" using p by simp
      ultimately have "of_int dstW \<le> of_int dstH * (1 + 1 / 1048576) * ?s" by (simp add: mult.commute mult.left_commute)
      then show ?thesis using s by (simp add: pos_divide_le_eq)
    qed
    then have "0 \<le> trunc (fl32 (of_int dstW / ?s)) \<and> trunc (fl32 (of_int dstW / ?s)) \<le> dstH"
      using dst s p by (intro fit_side) simp_all
    from halve [OF this [THEN conjunct1] this [THEN conjunct2]] halve [of dstW dstW] dst show ?thesis
      using f unfolding aspect_fit_def Let_def fl32_int [OF abs_le [OF dst(1,2)]] if_P [OF True] by auto
  next
    case False
    have "of_int dstH * ?s \<le> of_int dstW * (1 + 1 / 1048576)"
    proof -
      have "?s \<le> of_int dstW / of_int dstH * (1 + 1 / 16777216)" using d False by (simp add: distrib_left)
      then have "?s * of_int dstH \<le> of_int dstW * (1 + 1 / 16777216)" using p by (simp add: field_simps)
      moreover have "(of_int dstW :: rat) * (1 + 1 / 16777216) \<le> of_int dstW * (1 + 1 / 1048576)" using p by simp
      ultimately show ?thesis by (simp add: mult.commute)
    qed
    then have "0 \<le> trunc (fl32 (of_int dstH * ?s)) \<and> trunc (fl32 (of_int dstH * ?s)) \<le> dstW"
      using dst s p by (intro fit_side) simp_all
    from halve [OF this [THEN conjunct1] this [THEN conjunct2]] halve [of dstH dstH] dst show ?thesis
      using f unfolding aspect_fit_def Let_def fl32_int [OF abs_le [OF dst(3,4)]] if_not_P [OF False] by auto
  qed
qed

section \<open>Two planes\<close>

text \<open>The rectangle of the frame that is drawn.\<close>

definition fits_frame :: "int \<Rightarrow> int \<Rightarrow> int \<Rightarrow> int \<Rightarrow> int \<Rightarrow> int \<Rightarrow> bool" where
  "fits_frame dstW dstH offsetX offsetY fitW fitH \<longleftrightarrow>
     0 \<le> offsetX \<and> offsetX mod 2 = 0 \<and> 0 \<le> offsetY \<and> offsetY mod 2 = 0 \<and> 0 < fitW \<and> fitW mod 2 = 0 \<and>
     0 < fitH \<and> fitH mod 2 = 0 \<and> offsetX + fitW \<le> dstW \<and> offsetY + fitH \<le> dstH \<and> dstW mod 2 = 0 \<and> dstH mod 2 = 0"

lemma letterbox_fits:
  assumes "0 < fw" "fw \<le> dstW" "fw mod 2 = 0" "0 < fh" "fh \<le> dstH" "fh mod 2 = 0" "dstW mod 2 = 0" "dstH mod 2 = 0"
  shows "fits_frame dstW dstH (letterbox_offset dstW fw) (letterbox_offset dstH fh) fw fh"
proof -
  have o: "0 \<le> letterbox_offset whole fit \<and> letterbox_offset whole fit mod 2 = 0 \<and> letterbox_offset whole fit + fit \<le> whole"
    if "fit \<le> whole" for whole fit
    using that by (simp add: letterbox_offset_def cdiv_nonneg)
  show ?thesis using o [OF assms(2)] o [OF assms(5)] assms by (simp add: fits_frame_def)
qed

lemma planes_result:
  assumes f: "fits_frame W H ox oy fw fh" and len: "W * H + W * (H div 2) \<le> int (length d)"
    and lum: "\<And>y x. 0 \<le> y \<Longrightarrow> y < fh \<Longrightarrow> 0 \<le> x \<Longrightarrow> x < fw \<Longrightarrow> v y x \<noteq> None"
    and chr: "\<And>y x. 0 \<le> y \<Longrightarrow> y < fh div 2 \<Longrightarrow> 0 \<le> x \<Longrightarrow> x < fw div 2 \<Longrightarrow> p y x \<noteq> None \<and> q y x \<noteq> None"
  obtains d' where "bind_draw (draw fh fw (\<lambda>y x. [((oy + y) * W + ox + x, v y x)]) d)
      (draw (fh div 2) (fw div 2) (\<lambda>y x. [(W * H + (oy div 2 + y) * W + ox div 2 * 2 + x * 2, p y x),
         (W * H + (oy div 2 + y) * W + ox div 2 * 2 + x * 2 + 1, q y x)])) = Some d'" "length d' = length d"
    "\<And>y x. 0 \<le> y \<Longrightarrow> y < fh \<Longrightarrow> 0 \<le> x \<Longrightarrow> x < fw \<Longrightarrow> Some (d' ! nat ((oy + y) * W + ox + x)) = v y x"
    "\<And>y x. 0 \<le> y \<Longrightarrow> y < fh div 2 \<Longrightarrow> 0 \<le> x \<Longrightarrow> x < fw div 2 \<Longrightarrow>
       Some (d' ! nat (W * H + (oy div 2 + y) * W + ox + x * 2)) = p y x \<and>
       Some (d' ! nat (W * H + (oy div 2 + y) * W + ox + x * 2 + 1)) = q y x"
    "\<And>j. int j < W * H \<Longrightarrow> (\<And>y x. 0 \<le> y \<Longrightarrow> y < fh \<Longrightarrow> 0 \<le> x \<Longrightarrow> x < fw \<Longrightarrow> int j \<noteq> (oy + y) * W + ox + x) \<Longrightarrow>
       d' ! j = d ! j"
    "\<And>j. W * H \<le> int j \<Longrightarrow> (\<And>y x. 0 \<le> y \<Longrightarrow> y < fh div 2 \<Longrightarrow> 0 \<le> x \<Longrightarrow> x < fw div 2 \<Longrightarrow>
         int j \<noteq> W * H + (oy div 2 + y) * W + ox + x * 2 \<and> int j \<noteq> W * H + (oy div 2 + y) * W + ox + x * 2 + 1) \<Longrightarrow>
       d' ! j = d ! j"
proof -
  have f': "0 \<le> ox" "0 \<le> oy" "ox + fw \<le> W" "oy + fh \<le> H" "0 < fw" "0 < fh" "ox mod 2 = 0" "oy mod 2 = 0"
    "fw mod 2 = 0" "fh mod 2 = 0" "W mod 2 = 0" "H mod 2 = 0" using f by (simp_all add: fits_frame_def)
  have ox: "ox div 2 * 2 = ox" using f'(7) by presburger
  have WH: "0 \<le> W * H" "0 \<le> W * (H div 2)" using f' by simp_all
  have below: "(oy + y) * W + ox + x < W * H" if "0 \<le> y" "y < fh" "0 \<le> x" "x < fw" for y x
  proof -
    have "(oy + fh) * W \<le> H * W" by (rule mult_right_mono) (use f'(1,3,4,5) in linarith)+
    then have "0 + (oy + fh) * W \<le> W * H" unfolding mult.commute [of W H] by simp
    from place_bound [OF that(1,2) _ _ order_refl this f'(2), of "ox + x"] that f'(1,3)
    have "0 \<le> 0 + (oy + y) * W + (ox + x) \<and> 0 + (oy + y) * W + (ox + x) < W * H" by linarith
    then show ?thesis by linarith
  qed
  have l1: "0 + (oy + fh) * W \<le> int (length d)"
  proof -
    have "(oy + fh) * W \<le> H * W" using f' by (intro mult_right_mono) simp_all
    then show ?thesis using len WH by (simp add: mult.commute)
  qed
  obtain d1 where d1: "draw fh fw (\<lambda>y x. [(0 + (oy + y) * W + ox + x, v y x)]) d = Some d1" "length d1 = length d"
    "\<And>y x. 0 \<le> y \<Longrightarrow> y < fh \<Longrightarrow> 0 \<le> x \<Longrightarrow> x < fw \<Longrightarrow> Some (d1 ! nat (0 + (oy + y) * W + ox + x)) = v y x"
    "\<And>j. (\<And>y x. 0 \<le> y \<Longrightarrow> y < fh \<Longrightarrow> 0 \<le> x \<Longrightarrow> x < fw \<Longrightarrow> int j \<noteq> 0 + (oy + y) * W + ox + x) \<Longrightarrow> d1 ! j = d ! j"
    by (rule draw_bytes [where v = v, OF order_refl [of "0::int"] f'(1,2,3) l1 lum]) blast+
  have l2: "W * H + (oy div 2 + fh div 2) * W \<le> int (length d1)"
  proof -
    have "oy div 2 + fh div 2 \<le> H div 2" using f'(4,8,10,12) by presburger
    then have "(oy div 2 + fh div 2) * W \<le> H div 2 * W" by (rule mult_right_mono) (use f'(1,3,5) in linarith)
    also have "\<dots> = W * (H div 2)" by (rule mult.commute)
    finally show ?thesis using len unfolding d1(2) by linarith
  qed
  have "2 * (fw div 2) = fw" using f'(9) by presburger
  then have l3: "ox + 2 * (fw div 2) \<le> W" "0 \<le> oy div 2" using f'(2,3) by simp_all
  obtain d2 where d2: "draw (fh div 2) (fw div 2) (\<lambda>y x. [(W * H + (oy div 2 + y) * W + ox + x * 2, p y x),
      (W * H + (oy div 2 + y) * W + ox + x * 2 + 1, q y x)]) d1 = Some d2" "length d2 = length d1"
    "\<And>y x. 0 \<le> y \<Longrightarrow> y < fh div 2 \<Longrightarrow> 0 \<le> x \<Longrightarrow> x < fw div 2 \<Longrightarrow>
      Some (d2 ! nat (W * H + (oy div 2 + y) * W + ox + x * 2)) = p y x \<and>
      Some (d2 ! nat (W * H + (oy div 2 + y) * W + ox + x * 2 + 1)) = q y x"
    "\<And>j. (\<And>y x. 0 \<le> y \<Longrightarrow> y < fh div 2 \<Longrightarrow> 0 \<le> x \<Longrightarrow> x < fw div 2 \<Longrightarrow> int j \<noteq> W * H + (oy div 2 + y) * W + ox + x * 2 \<and>
      int j \<noteq> W * H + (oy div 2 + y) * W + ox + x * 2 + 1) \<Longrightarrow> d2 ! j = d1 ! j"
    by (rule draw_pairs [where u = p and v = q, OF WH(1) f'(1) l3(2,1) l2 chr]) blast+
  have low: "d2 ! j = d1 ! j" if j: "int j < W * H" for j
  proof (rule d2(4))
    show "int j \<noteq> W * H + (oy div 2 + y) * W + ox + x * 2 \<and> int j \<noteq> W * H + (oy div 2 + y) * W + ox + x * 2 + 1"
      if "0 \<le> y" "0 \<le> x" for y x
    proof -
      have "0 \<le> (oy div 2 + y) * W" using that f' by simp
      then show ?thesis using j that f'(1) by linarith
    qed
  qed
  show thesis
  proof (rule that [of d2])
    show "bind_draw (draw fh fw (\<lambda>y x. [((oy + y) * W + ox + x, v y x)]) d)
      (draw (fh div 2) (fw div 2) (\<lambda>y x. [(W * H + (oy div 2 + y) * W + ox div 2 * 2 + x * 2, p y x),
         (W * H + (oy div 2 + y) * W + ox div 2 * 2 + x * 2 + 1, q y x)])) = Some d2"
      using d1(1) d2(1) by (simp add: ox)
    show "length d2 = length d" using d1(2) d2(2) by simp
    show "Some (d2 ! nat ((oy + y) * W + ox + x)) = v y x" if r: "0 \<le> y" "y < fh" "0 \<le> x" "x < fw" for y x
    proof -
      have "0 \<le> (oy + y) * W" using r f' by simp
      then have "int (nat ((oy + y) * W + ox + x)) < W * H" using below [OF r] r f'(1) by simp
      then show ?thesis using low d1(3) [OF r] by simp
    qed
    show "d2 ! j = d ! j" if j: "int j < W * H"
      "\<And>y x. 0 \<le> y \<Longrightarrow> y < fh \<Longrightarrow> 0 \<le> x \<Longrightarrow> x < fw \<Longrightarrow> int j \<noteq> (oy + y) * W + ox + x" for j
      using low [OF j(1)] d1(4) [of j] j(2) by simp
    show "d2 ! j = d ! j" if j: "W * H \<le> int j"
      "\<And>y x. 0 \<le> y \<Longrightarrow> y < fh div 2 \<Longrightarrow> 0 \<le> x \<Longrightarrow> x < fw div 2 \<Longrightarrow>
         int j \<noteq> W * H + (oy div 2 + y) * W + ox + x * 2 \<and> int j \<noteq> W * H + (oy div 2 + y) * W + ox + x * 2 + 1" for j
    proof -
      have "d1 ! j = d ! j"
      proof (rule d1(4))
        show "int j \<noteq> 0 + (oy + y) * W + ox + x" if "0 \<le> y" "y < fh" "0 \<le> x" "x < fw" for y x
          using below [OF that] j(1) by linarith
      qed
      then show ?thesis using d2(4) [of j] j(2) by simp
    qed
  qed (rule d2(3))
qed

section \<open>What the converters draw\<close>

lemma scale_range:
  assumes "0 \<le> x" "x < w" "0 < r"
  shows "0 \<le> cdiv (x * r) w \<and> cdiv (x * r) w < r"
proof -
  have "cdiv (x * r) w = x * r div w" using assms by (simp add: cdiv_nonneg)
  then show ?thesis using scaled_in_range [of "nat x" w r] assms by simp
qed

lemma normal_rotation_right: "normal_rotation degrees \<in> {0, 90, 180, 270}"
proof -
  have c: "- 360 < Prelude.cmod degrees 360"
  proof (cases "0 \<le> degrees")
    case False
    then have "cdiv degrees 360 = - ((- degrees) div 360)" by (simp add: cdiv_def)
    then have "Prelude.cmod degrees 360 = - ((- degrees) mod 360)"
      unfolding Prelude.cmod_def minus_mult_div_eq_mod [symmetric] by simp
    then show ?thesis by simp
  qed (simp add: cmod_nonneg)
  then have r: "normal_rotation degrees = (Prelude.cmod degrees 360 + 360) mod 360 div 90 * 90"
    by (simp add: normal_rotation_def cmod_nonneg cdiv_nonneg)
  let ?k = "(Prelude.cmod degrees 360 + 360) mod 360 div 90"
  have "0 \<le> (Prelude.cmod degrees 360 + 360) mod 360" "(Prelude.cmod degrees 360 + 360) mod 360 < 360"
    by (rule pos_mod_sign, simp, rule pos_mod_bound, simp)
  then have "0 \<le> ?k \<and> ?k < 4" by linarith
  then have "?k = 0 \<or> ?k = 1 \<or> ?k = 2 \<or> ?k = 3" by linarith
  then show ?thesis unfolding r by (elim disjE) simp_all
qed

text \<open>Every source index is a row and a column of the plane.\<close>

lemma nv_luma_in_plane:
  assumes "rot \<in> {0, 90, 180, 270}" "0 \<le> y" "y < fitH" "0 \<le> x" "x < fitW" "0 < sampleW" "0 < sampleH"
  obtains row col where "nv_luma rot pitch sampleW sampleH fitW fitH y x = row * pitch + col"
    "0 \<le> row" "row < sampleH" "0 \<le> col" "col < sampleW"
proof -
  note r = scale_range [OF assms(2,3,6)] scale_range [OF assms(2,3,7)] scale_range [OF assms(4,5,6)] scale_range [OF assms(4,5,7)]
  show thesis
    using assms(1) r that by (fastforce simp: nv_luma_def)
qed

lemma if_pred: "P a \<Longrightarrow> P b \<Longrightarrow> P (if c then a else b)"
  by simp

lemma nv_chroma_in_plane:
  assumes "rot \<in> {0, 90, 180, 270}" "0 \<le> y" "y < fitH" "0 \<le> x" "x < fitW" "0 < halfW" "0 < halfH"
  obtains row col where "nv_chroma rot pitch halfW halfH fitW fitH y x = row * pitch + col * 2"
    "0 \<le> row" "row < halfH" "0 \<le> col" "col < halfW"
proof -
  note r = scale_range [OF assms(2,3,6)] scale_range [OF assms(2,3,7)] scale_range [OF assms(4,5,6)] scale_range [OF assms(4,5,7)]
  let ?goal = "\<lambda>p. \<exists>row col. p = row * pitch + col * 2 \<and> 0 \<le> row \<and> row < halfH \<and> 0 \<le> col \<and> col < halfW"
  have g: "?goal (row * pitch + col * 2)" if "0 \<le> row" "row < halfH" "0 \<le> col" "col < halfW" for row col
    using that by blast
  have "?goal (nv_chroma rot pitch halfW halfH fitW fitH y x)"
    unfolding nv_chroma_def by (intro if_pred [where P = ?goal] g) (use r in simp_all)
  with that show thesis by blast
qed

lemma load_in_plane:
  assumes "0 \<le> base" "0 \<le> row" "row < rows" "0 \<le> col" "col < pitch" "base + rows * pitch \<le> int (length src)"
  shows "load_at src (base + row * pitch + col) \<noteq> None"
proof -
  have "0 \<le> base + row * pitch + col \<and> base + row * pitch + col < int (length src)"
    using place_bound [of row rows col pitch base 0 "int (length src)"] assms by simp
  then have "0 \<le> base + row * pitch + col" "nat (base + row * pitch + col) < length src" by linarith+
  then show ?thesis by (simp add: load_at_def load_def)
qed

text \<open>An NV12 image of \<open>srcW\<close> by \<open>srcH\<close> with its planes one after the other.\<close>

definition nv12_image :: "bytes \<Rightarrow> int \<Rightarrow> int \<Rightarrow> int \<Rightarrow> bool" where
  "nv12_image src pitch srcW srcH \<longleftrightarrow> 2 \<le> srcW \<and> srcW \<le> 8192 \<and> 2 \<le> srcH \<and> srcH \<le> 8192 \<and> srcW \<le> pitch \<and>
     pitch * srcH + pitch * ((srcH + 1) div 2) \<le> int (length src)"

lemma nv12_loads:
  assumes i: "nv12_image src pitch srcW srcH" and rot: "rot \<in> {0, 90, 180, 270}"
    and s: "2 \<le> sampleW" "sampleW \<le> srcW" "2 \<le> sampleH" "sampleH \<le> srcH"
    and yx: "0 \<le> y" "y < fitH" "0 \<le> x" "x < fitW"
  shows "load_at src (nv_luma rot pitch sampleW sampleH fitW fitH y x) \<noteq> None"
    "load_at src (pitch * srcH + nv_chroma rot pitch (sampleW div 2) (sampleH div 2) fitW fitH y x) \<noteq> None"
    "load_at src (pitch * srcH + nv_chroma rot pitch (sampleW div 2) (sampleH div 2) fitW fitH y x + 1) \<noteq> None"
proof -
  have i': "srcW \<le> pitch" "0 < pitch" "0 \<le> pitch * srcH" "0 \<le> pitch * ((srcH + 1) div 2)"
    "pitch * srcH + pitch * ((srcH + 1) div 2) \<le> int (length src)" using i by (simp_all add: nv12_image_def)
  obtain row col where l: "nv_luma rot pitch sampleW sampleH fitW fitH y x = row * pitch + col"
    "0 \<le> row" "row < sampleH" "0 \<le> col" "col < sampleW"
    using nv_luma_in_plane [OF rot yx, of sampleW sampleH] s by auto
  have "srcH * pitch \<le> int (length src)" using i'(4,5) by (simp add: mult.commute)
  then have "load_at src (0 + row * pitch + col) \<noteq> None"
    by (intro load_in_plane [of 0 row srcH]) (use l s i' in simp_all)
  then show "load_at src (nv_luma rot pitch sampleW sampleH fitW fitH y x) \<noteq> None" by (simp add: l(1))
  have half: "0 < sampleW div 2" "0 < sampleH div 2" using s(1,3) by linarith+
  obtain r c where c: "nv_chroma rot pitch (sampleW div 2) (sampleH div 2) fitW fitH y x = r * pitch + c * 2"
    "0 \<le> r" "r < sampleH div 2" "0 \<le> c" "c < sampleW div 2"
    by (rule nv_chroma_in_plane [OF rot yx half])
  have r: "r < (srcH + 1) div 2" using c(3) s(4) by linarith
  have fit: "pitch * srcH + (srcH + 1) div 2 * pitch \<le> int (length src)"
    using i'(5) unfolding mult.commute [of "(srcH + 1) div 2" pitch] .
  have "load_at src (pitch * srcH + r * pitch + (c * 2 + k)) \<noteq> None" if "k = 0 \<or> k = 1" for k
    by (rule load_in_plane [OF i'(3) c(2) r _ _ fit]) (use that c(4,5) s(1,2) i'(1) in linarith)+
  from this [of 0] this [of 1]
  show "load_at src (pitch * srcH + nv_chroma rot pitch (sampleW div 2) (sampleH div 2) fitW fitH y x) \<noteq> None"
    "load_at src (pitch * srcH + nv_chroma rot pitch (sampleW div 2) (sampleH div 2) fitW fitH y x + 1) \<noteq> None"
    by (simp_all add: c(1) add.assoc)
qed

text \<open>The picture a call leaves: inside the rectangle the source, outside black.\<close>

definition nv_shows ::
  "int \<Rightarrow> bytes \<Rightarrow> int \<Rightarrow> int \<Rightarrow> int \<times> int \<Rightarrow> int \<times> int \<Rightarrow> int \<times> int \<Rightarrow> bytes \<Rightarrow> bool" where
  "nv_shows rot src pitch srcH sample fit offset frame \<longleftrightarrow>
     (let (sampleW, sampleH) = sample; (fitW, fitH) = fit; (ox, oy) = offset in
      int (length frame) = kPayloadBytes \<and>
      (\<forall>y x. 0 \<le> y \<and> y < kHeight \<and> 0 \<le> x \<and> x < kWidth \<longrightarrow>
         Some (frame ! nat (y * kWidth + x)) =
           (if oy \<le> y \<and> y < oy + fitH \<and> ox \<le> x \<and> x < ox + fitW
            then load_at src (nv_luma rot pitch sampleW sampleH fitW fitH (y - oy) (x - ox)) else Some 16)) \<and>
      (\<forall>y x c. 0 \<le> y \<and> y < kHeight div 2 \<and> 0 \<le> x \<and> x < kWidth div 2 \<and> (c = 0 \<or> c = 1) \<longrightarrow>
         Some (frame ! nat (kWidth * kHeight + y * kWidth + x * 2 + c)) =
           (if oy div 2 \<le> y \<and> y < oy div 2 + fitH div 2 \<and> ox div 2 \<le> x \<and> x < ox div 2 + fitW div 2
            then load_at src (pitch * srcH + nv_chroma rot pitch (sampleW div 2) (sampleH div 2)
                   (fitW div 2) (fitH div 2) (y - oy div 2) (x - ox div 2) + c)
            else Some 128)))"

lemma nv_showsI:
  assumes "int (length frame) = kPayloadBytes"
    and "\<And>y x. 0 \<le> y \<Longrightarrow> y < kHeight \<Longrightarrow> 0 \<le> x \<Longrightarrow> x < kWidth \<Longrightarrow> Some (frame ! nat (y * kWidth + x)) =
      (if oy \<le> y \<and> y < oy + fitH \<and> ox \<le> x \<and> x < ox + fitW
       then load_at src (nv_luma rot pitch sampleW sampleH fitW fitH (y - oy) (x - ox)) else Some 16)"
    and "\<And>y x c. 0 \<le> y \<Longrightarrow> y < kHeight div 2 \<Longrightarrow> 0 \<le> x \<Longrightarrow> x < kWidth div 2 \<Longrightarrow> c = 0 \<or> c = 1 \<Longrightarrow>
      Some (frame ! nat (kWidth * kHeight + y * kWidth + x * 2 + c)) =
      (if oy div 2 \<le> y \<and> y < oy div 2 + fitH div 2 \<and> ox div 2 \<le> x \<and> x < ox div 2 + fitW div 2
       then load_at src (pitch * srcH + nv_chroma rot pitch (sampleW div 2) (sampleH div 2)
              (fitW div 2) (fitH div 2) (y - oy div 2) (x - ox div 2) + c)
       else Some 128)"
  shows "nv_shows rot src pitch srcH (sampleW, sampleH) (fitW, fitH) (ox, oy) frame"
  unfolding nv_shows_def Let_def prod.case
  by (intro conjI allI impI assms(1) assms(2,3); elim conjE; assumption)

lemma nv_scaled_shows:
  assumes i: "nv12_image src pitch srcW srcH" and rot: "rot \<in> {0, 90, 180, 270}"
    and s: "2 \<le> sampleW" "sampleW \<le> srcW" "2 \<le> sampleH" "sampleH \<le> srcH"
    and d: "int (length d) = kPayloadBytes" "\<And>j. j < length d \<Longrightarrow> d ! j = (if int j < kWidth * kHeight then 16 else 128)"
    and f: "aspect_fit (if rot = 90 \<or> rot = 270 then sampleH else sampleW) (if rot = 90 \<or> rot = 270 then sampleW else sampleH)
      kWidth kHeight = (fw, fh)"
  obtains d' where "nv_scaled src pitch srcH rot sampleW sampleH kWidth kHeight d = Some d'" "length d' = length d"
    "0 < fw \<Longrightarrow> 0 < fh \<Longrightarrow> nv_shows rot src pitch srcH (sampleW, sampleH) (fw, fh)
      (letterbox_offset kWidth fw, letterbox_offset kHeight fh) d'"
proof (cases "fw \<le> 0 \<or> fh \<le> 0")
  case True
  then have "nv_scaled src pitch srcH rot sampleW sampleH kWidth kHeight d = Some d"
    by (simp add: nv_scaled_def Let_def f)
  with True that show thesis by auto
next
  case False
  let ?W = kWidth and ?H = kHeight
  have K: "?W = 1280" "?H = 720" "kPayloadBytes = 1382400" by (simp_all add: kWidth_def kHeight_def kPayloadBytes_def)
  have b: "0 \<le> fw \<and> fw \<le> ?W \<and> fw mod 2 = 0 \<and> 0 \<le> fh \<and> fh \<le> ?H \<and> fh mod 2 = 0"
    by (rule aspect_fit_bounds [OF _ _ _ _ _ _ _ _ f]) (use s i K in \<open>auto simp: nv12_image_def\<close>)
  define ox where "ox = letterbox_offset ?W fw"
  define oy where "oy = letterbox_offset ?H fh"
  have fit: "fits_frame ?W ?H ox oy fw fh" unfolding ox_def oy_def
    by (rule letterbox_fits) (use b False in \<open>simp_all add: K\<close>)
  have fit': "0 \<le> ox" "0 \<le> oy" "ox mod 2 = 0" "oy mod 2 = 0" "ox + fw \<le> ?W" "oy + fh \<le> ?H"
    using fit by (simp_all add: fits_frame_def)
  let ?v = "\<lambda>y x. load_at src (nv_luma rot pitch sampleW sampleH fw fh y x)"
  let ?c = "\<lambda>k y x. load_at src (pitch * srcH + nv_chroma rot pitch (sampleW div 2) (sampleH div 2) (fw div 2) (fh div 2) y x + k)"
  have len: "?W * ?H + ?W * (?H div 2) \<le> int (length d)" using d(1) by (simp add: K)
  obtain d' where d': "bind_draw (draw fh fw (\<lambda>y x. [((oy + y) * ?W + ox + x, ?v y x)]) d)
      (draw (fh div 2) (fw div 2) (\<lambda>y x. [(?W * ?H + (oy div 2 + y) * ?W + ox div 2 * 2 + x * 2, ?c 0 y x),
         (?W * ?H + (oy div 2 + y) * ?W + ox div 2 * 2 + x * 2 + 1, ?c 1 y x)])) = Some d'" "length d' = length d"
    "\<And>y x. 0 \<le> y \<Longrightarrow> y < fh \<Longrightarrow> 0 \<le> x \<Longrightarrow> x < fw \<Longrightarrow> Some (d' ! nat ((oy + y) * ?W + ox + x)) = ?v y x"
    "\<And>y x. 0 \<le> y \<Longrightarrow> y < fh div 2 \<Longrightarrow> 0 \<le> x \<Longrightarrow> x < fw div 2 \<Longrightarrow>
       Some (d' ! nat (?W * ?H + (oy div 2 + y) * ?W + ox + x * 2)) = ?c 0 y x \<and>
       Some (d' ! nat (?W * ?H + (oy div 2 + y) * ?W + ox + x * 2 + 1)) = ?c 1 y x"
    "\<And>j. int j < ?W * ?H \<Longrightarrow> (\<And>y x. 0 \<le> y \<Longrightarrow> y < fh \<Longrightarrow> 0 \<le> x \<Longrightarrow> x < fw \<Longrightarrow> int j \<noteq> (oy + y) * ?W + ox + x) \<Longrightarrow>
       d' ! j = d ! j"
    "\<And>j. ?W * ?H \<le> int j \<Longrightarrow> (\<And>y x. 0 \<le> y \<Longrightarrow> y < fh div 2 \<Longrightarrow> 0 \<le> x \<Longrightarrow> x < fw div 2 \<Longrightarrow>
         int j \<noteq> ?W * ?H + (oy div 2 + y) * ?W + ox + x * 2 \<and> int j \<noteq> ?W * ?H + (oy div 2 + y) * ?W + ox + x * 2 + 1) \<Longrightarrow>
       d' ! j = d ! j"
  proof (rule planes_result [where v = ?v and p = "?c 0" and q = "?c 1", OF fit len])
    show "?v y x \<noteq> None" if "0 \<le> y" "y < fh" "0 \<le> x" "x < fw" for y x
      by (rule nv12_loads(1) [OF i rot s that])
    show "?c 0 y x \<noteq> None \<and> ?c 1 y x \<noteq> None" if "0 \<le> y" "y < fh div 2" "0 \<le> x" "x < fw div 2" for y x
      using nv12_loads(2,3) [OF i rot s that] by simp
  qed blast
  show thesis
  proof (rule that [of d'])
    have m: "min fw kMaxFitDim = fw" "min fh kMaxFitDim = fh" using b K by (simp_all add: kMaxFitDim_def)
    have h: "cdiv fw 2 = fw div 2" "cdiv fh 2 = fh div 2" "cdiv sampleW 2 = sampleW div 2" "cdiv sampleH 2 = sampleH div 2"
      "cdiv ox 2 = ox div 2" "cdiv oy 2 = oy div 2"
      using b s fit' by (simp_all add: cdiv_nonneg)
    show "nv_scaled src pitch srcH rot sampleW sampleH ?W ?H d = Some d'"
      using d'(1) False by (simp add: nv_scaled_def Let_def f m ox_def [symmetric] oy_def [symmetric] h)
    show "length d' = length d" by (rule d'(2))
    show "nv_shows rot src pitch srcH (sampleW, sampleH) (fw, fh) (letterbox_offset ?W fw, letterbox_offset ?H fh) d'"
      unfolding ox_def [symmetric] oy_def [symmetric]
    proof (rule nv_showsI)
      show "int (length d') = kPayloadBytes" using d(1) d'(2) by simp
      fix y x :: int assume yx: "0 \<le> y" "y < ?H" "0 \<le> x" "x < ?W"
      show "Some (d' ! nat (y * ?W + x)) =
        (if oy \<le> y \<and> y < oy + fh \<and> ox \<le> x \<and> x < ox + fw then ?v (y - oy) (x - ox) else Some 16)"
      proof (cases "oy \<le> y \<and> y < oy + fh \<and> ox \<le> x \<and> x < ox + fw")
        case True
        then show ?thesis using d'(3) [of "y - oy" "x - ox"] by simp
      next
        case out: False
        let ?j = "nat (y * ?W + x)"
        have j: "int ?j = y * ?W + x" "int ?j < ?W * ?H" using yx by (simp_all add: K)
        have "d' ! ?j = d ! ?j"
        proof (rule d'(5) [OF j(2)])
          show "int ?j \<noteq> (oy + y') * ?W + ox + x'" if "0 \<le> y'" "y' < fh" "0 \<le> x'" "x' < fw" for y' x'
          proof
            assume "int ?j = (oy + y') * ?W + ox + x'"
            then have "y = oy + y' \<and> x = ox + x'"
              using place_unique [of y ?W x "oy + y'" "ox + x'"] that yx fit' unfolding j(1) by simp
            then show False using out that by simp
          qed
        qed
        moreover have "int ?j < int (length d)" using j(2) d(1) unfolding K by linarith
        then have "?j < length d" by (simp only: of_nat_less_iff)
        ultimately show ?thesis using d(2) j(2) out by auto
      qed
    next
      fix y x c :: int assume yx: "0 \<le> y" "y < ?H div 2" "0 \<le> x" "x < ?W div 2" "c = 0 \<or> c = 1"
      show "Some (d' ! nat (?W * ?H + y * ?W + x * 2 + c)) =
        (if oy div 2 \<le> y \<and> y < oy div 2 + fh div 2 \<and> ox div 2 \<le> x \<and> x < ox div 2 + fw div 2
         then ?c c (y - oy div 2) (x - ox div 2) else Some 128)"
      proof (cases "oy div 2 \<le> y \<and> y < oy div 2 + fh div 2 \<and> ox div 2 \<le> x \<and> x < ox div 2 + fw div 2")
        case True
        have "ox + (x - ox div 2) * 2 = x * 2" using fit'(3) by presburger
        then have e: "?W * ?H + (oy div 2 + (y - oy div 2)) * ?W + ox + (x - ox div 2) * 2 = ?W * ?H + y * ?W + x * 2" by simp
        have "0 \<le> y - oy div 2" "y - oy div 2 < fh div 2" "0 \<le> x - ox div 2" "x - ox div 2 < fw div 2" using True by linarith+
        from d'(4) [OF this, unfolded e] have "Some (d' ! nat (?W * ?H + y * ?W + x * 2 + c)) = ?c c (y - oy div 2) (x - ox div 2)"
          using yx(5) by (elim disjE) (simp_all only: add_0_right)
        then show ?thesis unfolding if_P [OF True] .
      next
        case out: False
        let ?j = "nat (?W * ?H + y * ?W + x * 2 + c)"
        have j: "int ?j = ?W * ?H + y * ?W + x * 2 + c" "?W * ?H \<le> int ?j" "int ?j < kPayloadBytes" using yx by (auto simp: K)
        have "d' ! ?j = d ! ?j"
        proof (rule d'(6) [OF j(2)])
          show "int ?j \<noteq> ?W * ?H + (oy div 2 + y') * ?W + ox + x' * 2 \<and> int ?j \<noteq> ?W * ?H + (oy div 2 + y') * ?W + ox + x' * 2 + 1"
            if "0 \<le> y'" "y' < fh div 2" "0 \<le> x'" "x' < fw div 2" for y' x'
          proof (rule ccontr)
            assume "\<not> ?thesis"
            then obtain k where k: "k = 0 \<or> k = 1" "int ?j = ?W * ?H + (oy div 2 + y') * ?W + (ox + x' * 2 + k)" by fastforce
            have "0 \<le> k" "k \<le> 1" "0 \<le> c" "c \<le> 1" "fw div 2 * 2 = fw" using k(1) yx(5) b by auto
            then have "0 \<le> ox + x' * 2 + k" "ox + x' * 2 + k < ?W" "0 \<le> x * 2 + c" "x * 2 + c < ?W"
              using that(3,4) yx(3,4) fit'(1,5) unfolding K by linarith+
            then have e: "y = oy div 2 + y'" "x * 2 + c = ox + x' * 2 + k"
              using place_unique [of y ?W "x * 2 + c" "oy div 2 + y'" "ox + x' * 2 + k"] k(2) unfolding j(1) by simp_all
            have "x = ox div 2 + x'" using e(2) k(1) yx(5) fit'(3) by presburger
            then show False using out that e(1) by simp
          qed
        qed
        moreover have "int ?j < int (length d)" using j(3) d(1) by linarith
        then have "?j < length d" by (simp only: of_nat_less_iff)
        ultimately show ?thesis using d(2) j(2) out by auto
      qed
    qed
  qed
qed

text \<open>The direct copies: one block, or row by row.\<close>

lemma memcpy_result:
  assumes "0 \<le> n" "n \<le> int (length src)" "n \<le> int (length b)"
  obtains b' where "memcpy_at 0 src 0 n b = Some b'" "length b' = length b" "\<And>j. int j < n \<Longrightarrow> b' ! j = src ! j"
proof -
  have l: "load_at src (0 + x) = Some (src ! nat x)" if "0 \<le> x" "x < n" for x
    using that assms(2) by (simp add: load_at_def load_def)
  obtain b' where b': "draw 1 n (\<lambda>_ x. [(0 + x, load_at src (0 + x))]) b = Some b'" "length b' = length b"
    "\<And>x. 0 \<le> x \<Longrightarrow> x < n \<Longrightarrow> Some (b' ! nat (0 + x)) = load_at src (0 + x)"
    by (rule row_result [of 0 n b "\<lambda>x. load_at src (0 + x)"]) (use assms l in auto)
  have "b' ! j = src ! j" if "int j < n" for j using b'(3) [of "int j"] l [of "int j"] that by simp
  with b'(1,2) that show thesis by (simp add: memcpy_at_def)
qed

lemma for_each_single: "for_each f [i] = f i"
  by (rule ext) (simp split: option.split)

lemma memcpy_rows:
  "for_each (\<lambda>y. memcpy_at (base + int y * W) src (from + int y * pitch) W) [0..<nat h] b =
   draw h W (\<lambda>y x. [(base + (0 + y) * W + 0 + x, load_at src (from + y * pitch + x))]) b"
  by (simp add: memcpy_at_def draw_def for_each_single)

lemma rows_result:
  assumes "0 \<le> base" "base + h * W \<le> int (length b)" "0 \<le> from" "from + h * pitch \<le> int (length src)" "W \<le> pitch"
  obtains b' where "for_each (\<lambda>y. memcpy_at (base + int y * W) src (from + int y * pitch) W) [0..<nat h] b = Some b'"
    "length b' = length b"
    "\<And>y x. 0 \<le> y \<Longrightarrow> y < h \<Longrightarrow> 0 \<le> x \<Longrightarrow> x < W \<Longrightarrow> Some (b' ! nat (base + y * W + x)) = load_at src (from + y * pitch + x)"
    "\<And>j. int j < base \<or> base + h * W \<le> int j \<Longrightarrow> b' ! j = b ! j"
proof -
  have l: "load_at src (from + y * pitch + x) \<noteq> None" if "0 \<le> y" "y < h" "0 \<le> x" "x < W" for y x
    by (rule load_in_plane [OF assms(3) that(1,2,3) _ assms(4)]) (use that(4) assms(5) in linarith)
  have b: "base + (0 + h) * W \<le> int (length b)" using assms(2) by simp
  obtain b' where b': "draw h W (\<lambda>y x. [(base + (0 + y) * W + 0 + x, load_at src (from + y * pitch + x))]) b = Some b'"
    "length b' = length b"
    "\<And>y x. 0 \<le> y \<Longrightarrow> y < h \<Longrightarrow> 0 \<le> x \<Longrightarrow> x < W \<Longrightarrow> Some (b' ! nat (base + (0 + y) * W + 0 + x)) = load_at src (from + y * pitch + x)"
    "\<And>j. (\<And>y x. 0 \<le> y \<Longrightarrow> y < h \<Longrightarrow> 0 \<le> x \<Longrightarrow> x < W \<Longrightarrow> int j \<noteq> base + (0 + y) * W + 0 + x) \<Longrightarrow> b' ! j = b ! j"
  proof (rule draw_bytes [where v = "\<lambda>y x. load_at src (from + y * pitch + x)", OF assms(1) order_refl order_refl _ b])
    show "0 + W \<le> W" by simp
  qed (use l in blast)+
  show thesis
  proof (rule that [of b'])
    show "b' ! j = b ! j" if out: "int j < base \<or> base + h * W \<le> int j" for j
    proof (rule b'(4))
      show "int j \<noteq> base + (0 + y) * W + 0 + x" if "0 \<le> y" "y < h" "0 \<le> x" "x < W" for y x
      proof -
        have "0 \<le> y * W" using that by simp
        moreover have "base + y * W + x < base + h * W"
          using place_bound [of y h x W base 0 "base + h * W"] that assms(1) by simp
        ultimately have "\<not> int j = base + y * W + x" using out that(3) by (elim disjE) linarith+
        then show ?thesis by simp
      qed
    qed
    show "for_each (\<lambda>y. memcpy_at (base + int y * W) src (from + int y * pitch) W) [0..<nat h] b = Some b'"
      using b'(1) unfolding memcpy_rows .
    show "length b' = length b" by (rule b'(2))
  qed (use b'(3) in simp)
qed

text \<open>A frame-sized picture drawn upright is drawn at its own size.\<close>

lemma aspect_fit_frame: "aspect_fit kWidth kHeight kWidth kHeight = (kWidth, kHeight)"
proof -
  have a: "aspect kWidth kHeight = 14913081 / 8388608" by code_simp
  have f: "fl32 (fl32 (of_int kHeight) * (14913081 / 8388608)) = 1280" by code_simp
  show ?thesis unfolding aspect_fit_def Let_def a f by (simp add: trunc_def kWidth_def kHeight_def cdiv_nonneg)
qed

lemma nv_upright:
  assumes "0 < fitH" "0 < fitW"
  shows "nv_luma 0 pitch fitW fitH fitW fitH y x = y * pitch + x" "nv_chroma 0 pitch fitW fitH fitW fitH y x = y * pitch + x * 2"
proof -
  have c: "cdiv (a * b) b = a" if "0 < b" for a b :: int
    using that by (auto simp: cdiv_def abs_mult sgn_mult mult_sgn_abs)
  show "nv_luma 0 pitch fitW fitH fitW fitH y x = y * pitch + x" "nv_chroma 0 pitch fitW fitH fitW fitH y x = y * pitch + x * 2"
    using assms by (simp_all add: nv_luma_def nv_chroma_def c)
qed

lemma nv_shows_upright:
  assumes "int (length frame) = kPayloadBytes"
    and "\<And>y x. 0 \<le> y \<Longrightarrow> y < kHeight \<Longrightarrow> 0 \<le> x \<Longrightarrow> x < kWidth \<Longrightarrow> Some (frame ! nat (y * kWidth + x)) = load_at src (y * pitch + x)"
    and "\<And>y x. 0 \<le> y \<Longrightarrow> y < kHeight div 2 \<Longrightarrow> 0 \<le> x \<Longrightarrow> x < kWidth \<Longrightarrow>
      Some (frame ! nat (kWidth * kHeight + y * kWidth + x)) = load_at src (pitch * kHeight + y * pitch + x)"
  shows "nv_shows 0 src pitch kHeight (kWidth, kHeight) (kWidth, kHeight) (letterbox_offset kWidth kWidth, letterbox_offset kHeight kHeight) frame"
proof -
  have o: "letterbox_offset kWidth kWidth = 0" "letterbox_offset kHeight kHeight = 0" by (simp_all add: letterbox_offset_def cdiv_def)
  have p: "0 < kHeight" "0 < kWidth" "0 < kHeight div 2" "0 < kWidth div 2" "kWidth div 2 * 2 = kWidth"
    by (simp_all add: kHeight_def kWidth_def)
  show ?thesis unfolding o
  proof (rule nv_showsI [OF assms(1)])
    fix y x :: int assume yx: "0 \<le> y" "y < kHeight" "0 \<le> x" "x < kWidth"
    then show "Some (frame ! nat (y * kWidth + x)) = (if 0 \<le> y \<and> y < 0 + kHeight \<and> 0 \<le> x \<and> x < 0 + kWidth
        then load_at src (nv_luma 0 pitch kWidth kHeight kWidth kHeight (y - 0) (x - 0)) else Some 16)"
      using assms(2) [OF yx] by (simp add: nv_upright p)
  next
    fix y x c :: int assume yx: "0 \<le> y" "y < kHeight div 2" "0 \<le> x" "x < kWidth div 2" "c = 0 \<or> c = 1"
    then have "0 \<le> x * 2 + c" "x * 2 + c < kWidth" using p(5) by auto
    from assms(3) [OF yx(1,2) this] yx
    show "Some (frame ! nat (kWidth * kHeight + y * kWidth + x * 2 + c)) =
        (if 0 div 2 \<le> y \<and> y < 0 div 2 + kHeight div 2 \<and> 0 div 2 \<le> x \<and> x < 0 div 2 + kWidth div 2
         then load_at src (pitch * kHeight + nv_chroma 0 pitch (kWidth div 2) (kHeight div 2) (kWidth div 2) (kHeight div 2)
                (y - 0 div 2) (x - 0 div 2) + c) else Some 128)"
      by (simp add: nv_upright p add.assoc)
  qed
qed

lemma sample_size_range: "2 \<le> n \<Longrightarrow> 2 \<le> sample_size n \<and> sample_size n \<le> n \<and> n \<le> sample_size n + 1"
  using even_down_bounds [of n] by (auto simp: sample_size_def)

text \<open>The converter on an NV12 image: it stays inside both buffers, and for even sizes it leaves the
  upright, rotated or scaled source on black.\<close>

lemma ConvertNv12_result:
  assumes i: "nv12_image src pitch srcW srcH" and d: "int (length dst) = kPayloadBytes"
    and rot: "rot = normal_rotation degrees"
    and f: "aspect_fit (if rot = 90 \<or> rot = 270 then srcH else srcW) (if rot = 90 \<or> rot = 270 then srcW else srcH)
      kWidth kHeight = (fw, fh)"
  obtains frame where "ConvertNv12ToNv12Letterbox (Some src) pitch srcW srcH dst kWidth kHeight degrees = Some frame"
    "length frame = length dst"
    "srcW mod 2 = 0 \<Longrightarrow> srcH mod 2 = 0 \<Longrightarrow> 0 < fw \<Longrightarrow> 0 < fh \<Longrightarrow>
       nv_shows rot src pitch srcH (srcW, srcH) (fw, fh) (letterbox_offset kWidth fw, letterbox_offset kHeight fh) frame"
proof -
  let ?run = "ConvertNv12ToNv12Letterbox (Some src) pitch srcW srcH dst kWidth kHeight degrees"
  have K: "kWidth = 1280" "kHeight = 720" "kPayloadBytes = 1382400" by (simp_all add: kWidth_def kHeight_def kPayloadBytes_def)
  have i': "2 \<le> srcW" "2 \<le> srcH" "srcW \<le> pitch" "pitch * srcH + pitch * ((srcH + 1) div 2) \<le> int (length src)"
    using i by (simp_all add: nv12_image_def)
  have even: "sample_size n = n" if "n mod 2 = 0" for n using that by (simp add: sample_size_def even_down_def)
  have right: "rot \<in> {0, 90, 180, 270}" unfolding rot by (rule normal_rotation_right)
  obtain d1 where d1: "FillBlackNv12 kPayloadBytes dst = Some d1" "length d1 = length dst"
    "\<And>j. j < length dst \<Longrightarrow> d1 ! j = (if int j < kWidth * kHeight then 16 else 128)"
    by (rule black_result [OF d]) blast
  have len: "kPayloadBytes \<le> int (length d1)" using d d1(2) by simp
  show thesis
  proof (cases "rot = 0 \<and> sample_size srcW = kWidth \<and> sample_size srcH = kHeight")
    case True
    have W: "1280 \<le> srcW" "720 \<le> srcH" using True sample_size_range [OF i'(1)] sample_size_range [OF i'(2)] K by simp_all
    have uv: "pitch * 360 \<le> pitch * ((srcH + 1) div 2)" using W i'(3) by (intro mult_left_mono) simp_all
    have ys: "pitch * 720 \<le> pitch * srcH" using W i'(3) by (intro mult_left_mono) simp_all
    have src: "kPayloadBytes \<le> int (length src)" using uv ys i'(3,4) W(1) unfolding K by linarith
    have fit: "fw = kWidth \<and> fh = kHeight \<and> srcW = kWidth \<and> srcH = kHeight" if "srcW mod 2 = 0" "srcH mod 2 = 0"
      using f True even [OF that(1)] even [OF that(2)] aspect_fit_frame by simp
    show ?thesis
    proof (cases "pitch = kWidth")
      case p: True
      obtain frame where m: "memcpy_at 0 src 0 kPayloadBytes d1 = Some frame" "length frame = length d1"
        "\<And>j. int j < kPayloadBytes \<Longrightarrow> frame ! j = src ! j" by (rule memcpy_result [OF _ src len]) (use K in simp_all)
      have l: "Some (frame ! nat k) = load_at src k" if "0 \<le> k" "k < kPayloadBytes" for k
        using m(3) [of "nat k"] that src by (simp add: load_at_def load_def)
      show ?thesis
      proof (rule that [of frame])
        have "cdiv (kWidth * kHeight * 3) 2 = kPayloadBytes" by (simp add: K cdiv_def)
        then show "?run = Some frame" using d1(1) m(1) True p i' K
          by (simp add: ConvertNv12ToNv12Letterbox_def Let_def rot [symmetric])
        show "nv_shows rot src pitch srcH (srcW, srcH) (fw, fh) (letterbox_offset kWidth fw, letterbox_offset kHeight fh) frame"
          if "srcW mod 2 = 0" "srcH mod 2 = 0"
        proof -
          have "nv_shows 0 src kWidth kHeight (kWidth, kHeight) (kWidth, kHeight)
            (letterbox_offset kWidth kWidth, letterbox_offset kHeight kHeight) frame"
          proof (rule nv_shows_upright)
            fix y x :: int assume yx: "0 \<le> y" "0 \<le> x" "x < kWidth"
            show "Some (frame ! nat (y * kWidth + x)) = load_at src (y * kWidth + x)" if "y < kHeight"
              by (rule l) (use yx that in \<open>simp_all add: K\<close>)
            show "Some (frame ! nat (kWidth * kHeight + y * kWidth + x)) = load_at src (kWidth * kHeight + y * kWidth + x)"
              if "y < kHeight div 2" by (rule l) (use yx that in \<open>simp_all add: K\<close>)
          qed (use d d1(2) m(2) in simp)
          then show ?thesis using fit [OF that] True p by simp
        qed
      qed (use m(2) d1(2) in simp)
    next
      case p: False
      have rows: "0 + 720 * pitch \<le> int (length src)" "pitch * srcH + 360 * pitch \<le> int (length src)" "1280 \<le> pitch"
        "0 \<le> pitch * srcH"
        using uv ys i'(3,4) W by linarith+
      obtain f1 where f1: "for_each (\<lambda>y. memcpy_at (0 + int y * kWidth) src (0 + int y * pitch) kWidth) [0..<nat kHeight] d1 = Some f1"
        "length f1 = length d1"
        "\<And>y x. 0 \<le> y \<Longrightarrow> y < kHeight \<Longrightarrow> 0 \<le> x \<Longrightarrow> x < kWidth \<Longrightarrow> Some (f1 ! nat (0 + y * kWidth + x)) = load_at src (0 + y * pitch + x)"
        by (rule rows_result [of 0 kHeight kWidth d1 0 pitch src]) (use len rows in \<open>simp_all add: K\<close>)
      obtain f2 where f2: "for_each (\<lambda>y. memcpy_at (kWidth * kHeight + int y * kWidth) src (pitch * srcH + int y * pitch) kWidth)
          [0..<nat (kHeight div 2)] f1 = Some f2" "length f2 = length f1"
        "\<And>y x. 0 \<le> y \<Longrightarrow> y < kHeight div 2 \<Longrightarrow> 0 \<le> x \<Longrightarrow> x < kWidth \<Longrightarrow>
           Some (f2 ! nat (kWidth * kHeight + y * kWidth + x)) = load_at src (pitch * srcH + y * pitch + x)"
        "\<And>j. int j < kWidth * kHeight \<or> kWidth * kHeight + kHeight div 2 * kWidth \<le> int j \<Longrightarrow> f2 ! j = f1 ! j"
        by (rule rows_result [of "kWidth * kHeight" "kHeight div 2" kWidth f1 "pitch * srcH" pitch src])
          (use len rows f1(2) in \<open>simp_all add: K\<close>)
      show ?thesis
      proof (rule that [of f2])
        show "?run = Some f2" using d1(1) f1(1) f2(1) True p i' K
          by (simp add: ConvertNv12ToNv12Letterbox_def Let_def rot [symmetric] cdiv_nonneg)
        show "nv_shows rot src pitch srcH (srcW, srcH) (fw, fh) (letterbox_offset kWidth fw, letterbox_offset kHeight fh) f2"
          if "srcW mod 2 = 0" "srcH mod 2 = 0"
        proof -
          have "nv_shows 0 src pitch kHeight (kWidth, kHeight) (kWidth, kHeight)
            (letterbox_offset kWidth kWidth, letterbox_offset kHeight kHeight) f2"
          proof (rule nv_shows_upright)
            fix y x :: int assume yx: "0 \<le> y" "0 \<le> x" "x < kWidth"
            show "Some (f2 ! nat (y * kWidth + x)) = load_at src (y * pitch + x)" if "y < kHeight"
              using f1(3) [OF yx(1) that yx(2,3)] f2(4) [of "nat (y * kWidth + x)"] yx that by (simp add: K)
            show "Some (f2 ! nat (kWidth * kHeight + y * kWidth + x)) = load_at src (pitch * kHeight + y * pitch + x)"
              if "y < kHeight div 2" using f2(3) [OF yx(1) that yx(2,3)] fit [OF \<open>srcW mod 2 = 0\<close> \<open>srcH mod 2 = 0\<close>] by simp
          qed (use d d1(2) f1(2) f2(2) in simp)
          then show ?thesis using fit [OF that] True by simp
        qed
      qed (use d1(2) f1(2) f2(2) in simp)
    qed
  next
    case False
    let ?w = "sample_size srcW" and ?h = "sample_size srcH"
    obtain fw' fh' where f': "aspect_fit (if rot = 90 \<or> rot = 270 then ?h else ?w) (if rot = 90 \<or> rot = 270 then ?w else ?h)
      kWidth kHeight = (fw', fh')" by fastforce
    have dl: "int (length d1) = kPayloadBytes" using d d1(2) by simp
    obtain d2 where d2: "FillBlackNv12 kPayloadBytes d1 = Some d2" "length d2 = length d1"
      "\<And>j. j < length d1 \<Longrightarrow> d2 ! j = (if int j < kWidth * kHeight then 16 else 128)"
      by (rule black_result [OF dl]) blast
    have dl2: "int (length d2) = kPayloadBytes" "\<And>j. j < length d2 \<Longrightarrow> d2 ! j = (if int j < kWidth * kHeight then 16 else 128)"
      using dl d2(2,3) by simp_all
    have s: "2 \<le> ?w" "?w \<le> srcW" "2 \<le> ?h" "?h \<le> srcH" using sample_size_range i'(1,2) by blast+
    obtain d3 where d3: "nv_scaled src pitch srcH rot ?w ?h kWidth kHeight d2 = Some d3" "length d3 = length d2"
      "0 < fw' \<Longrightarrow> 0 < fh' \<Longrightarrow> nv_shows rot src pitch srcH (?w, ?h) (fw', fh')
         (letterbox_offset kWidth fw', letterbox_offset kHeight fh') d3"
      by (rule nv_scaled_shows [OF i right s dl2 f']) blast+
    show ?thesis
    proof (rule that [of d3])
      have "\<not> (rot = 0 \<and> srcW = kWidth \<and> srcH = kHeight \<and> pitch = kWidth)" using False even [of kWidth] even [of kHeight] by (auto simp: K)
      then have "?run = bind_draw (Some d1) (\<lambda>d. bind_draw (FillBlackNv12 kPayloadBytes d)
          (nv_scaled src pitch srcH rot ?w ?h kWidth kHeight))"
        using i'(1-3) by (simp only: ConvertNv12ToNv12Letterbox_def option.case Let_def rot [symmetric] d1(1) if_not_P [OF False]
          if_not_P if_False not_le not_less) (simp add: rot)
      then show "?run = Some d3" by (simp add: d2(1) d3(1))
      show "nv_shows rot src pitch srcH (srcW, srcH) (fw, fh) (letterbox_offset kWidth fw, letterbox_offset kHeight fh) d3"
        if "srcW mod 2 = 0" "srcH mod 2 = 0" "0 < fw" "0 < fh"
      proof -
        have "(fw', fh') = (fw, fh)" using f' f unfolding even [OF that(1)] even [OF that(2)] by simp
        then show ?thesis using d3(3) that(3,4) unfolding even [OF that(1)] even [OF that(2)] by simp
      qed
    qed (use d1(2) d2(2) d3(2) in simp)
  qed
qed

section \<open>Agreement with the reference transform\<close>

lemma nv_source:
  assumes rot: "rot \<in> {0, 90, 180, 270}" and wh: "0 < w" "0 < h"
    and yx: "0 \<le> y" "y < fh" "0 \<le> x" "x < fw"
  obtains u v where "source_pixel rot w h (x * (if rot mod 180 \<noteq> 0 then h else w) div fw) (y * (if rot mod 180 \<noteq> 0 then w else h) div fh) = (u, v)"
    "0 \<le> u" "0 \<le> v" "nv_luma rot pitch w h fw fh y x = v * pitch + u" "nv_chroma rot pitch w h fw fh y x = v * pitch + u * 2"
proof -
  note r = scale_range [OF yx(1,2) wh(1)] scale_range [OF yx(1,2) wh(2)] scale_range [OF yx(3,4) wh(1)] scale_range [OF yx(3,4) wh(2)]
  have d: "y * n div fh = cdiv (y * n) fh" "x * n div fw = cdiv (x * n) fw" if "0 < n" for n
    using that yx by (simp_all add: cdiv_nonneg)
  have d': "y * w div fh = cdiv (y * w) fh" "x * w div fw = cdiv (x * w) fw" "y * h div fh = cdiv (y * h) fh"
    "x * h div fw = cdiv (x * h) fw" by (rule d, rule wh)+
  consider "rot = 0" | "rot = 90" | "rot = 180" | "rot = 270" using rot by blast
  then show thesis
  proof cases
    case 1
    with that [of "cdiv (x * w) fw" "cdiv (y * h) fh"] r show ?thesis by (simp add: source_pixel_def d' nv_luma_def nv_chroma_def)
  next
    case 2
    with that [of "cdiv (y * w) fh" "h - 1 - cdiv (x * h) fw"] r show ?thesis
      by (simp add: source_pixel_def d' nv_luma_def nv_chroma_def)
  next
    case 3
    with that [of "w - 1 - cdiv (x * w) fw" "h - 1 - cdiv (y * h) fh"] r show ?thesis
      by (simp add: source_pixel_def d' nv_luma_def nv_chroma_def)
  next
    case 4
    with that [of "w - 1 - cdiv (y * w) fh" "cdiv (x * h) fw"] r show ?thesis
      by (simp add: source_pixel_def d' nv_luma_def nv_chroma_def)
  qed
qed

lemma nv_drawn:
  assumes s: "0 < nv_width s div int unit" "0 < nv_height s div int unit" "0 \<le> pitch" and rot: "rot \<in> {0, 90, 180, 270}"
    and yx: "0 \<le> y" "y < fh div int unit" "0 \<le> x" "x < fw div int unit" and o: "0 \<le> ox" "0 \<le> oy" and u: "unit = 1 \<or> unit = 2"
  shows "int (drawn rot unit (nat pitch) s (ox, oy) (fw, fh) (nat (oy div int unit + y)) (nat (ox div int unit + x)) c) =
    (if unit = 1 then nv_luma rot pitch (nv_width s div int unit) (nv_height s div int unit) (fw div int unit) (fh div int unit) y x
     else nv_chroma rot pitch (nv_width s div int unit) (nv_height s div int unit) (fw div int unit) (fh div int unit) y x) + int c"
proof -
  let ?w = "nv_width s div int unit" and ?h = "nv_height s div int unit"
  obtain a b where n: "source_pixel rot ?w ?h (x * (if rot mod 180 \<noteq> 0 then ?h else ?w) div (fw div int unit))
      (y * (if rot mod 180 \<noteq> 0 then ?w else ?h) div (fh div int unit)) = (a, b)"
    "0 \<le> a" "0 \<le> b" "nv_luma rot pitch ?w ?h (fw div int unit) (fh div int unit) y x = b * pitch + a"
    "nv_chroma rot pitch ?w ?h (fw div int unit) (fh div int unit) y x = b * pitch + a * 2"
    by (rule nv_source [OF rot s(1,2) yx])
  have op: "0 \<le> oy div int unit" "0 \<le> ox div int unit" using u o by auto
  have k: "int (nat (oy div int unit + y) - nat (oy div int unit)) = y" "int (nat (ox div int unit + x) - nat (ox div int unit)) = x"
    using yx(1,3) op by simp_all
  have r: "fst (rotated_size s rot) div int unit = (if rot mod 180 \<noteq> 0 then ?h else ?w)"
    "snd (rotated_size s rot) div int unit = (if rot mod 180 \<noteq> 0 then ?w else ?h)" by (simp_all add: rotated_size_def)
  have "drawn rot unit (nat pitch) s (ox, oy) (fw, fh) (nat (oy div int unit + y)) (nat (ox div int unit + x)) c =
    nat b * nat pitch + nat a * unit + c"
    unfolding drawn_def src_index_def Let_def fst_conv snd_conv prod.case k r n(1) ..
  then show ?thesis using u n(2-5) s(3) by auto
qed

text \<open>A view whose planes are stored without gaps, and the frame a caller hands over.\<close>

definition packed_view :: "Nv12View \<Rightarrow> bool" where
  "packed_view v \<longleftrightarrow> ValidNv12 v \<and> nv_strideY v = nv_strideUV v \<and>
     int (length (nv_y v)) = int (nv_strideY v) * nv_height v \<and>
     int (length (nv_uv v)) = int (nv_strideY v) * (nv_height v div 2)"

definition frame_view :: "Nv12View \<Rightarrow> bool" where
  "frame_view v \<longleftrightarrow> packed_view v \<and> nv_width v = kWidth \<and> nv_height v = kHeight \<and> nv_strideY v = nat kWidth"

lemma fit_offset_same:
  assumes "fit \<le> whole"
  shows "fit_offset whole fit = letterbox_offset whole fit"
proof -
  have "cdiv (whole - fit) 4 = (whole - fit) div 4" using assms by (simp add: cdiv_nonneg)
  moreover have "(whole - fit) div 2 div 2 = (whole - fit) div 4" by (simp add: zdiv_zmult2_eq [symmetric])
  then have "(whole - fit) div 2 - (whole - fit) div 2 mod 2 = (whole - fit) div 4 * 2"
    unfolding minus_mod_eq_div_mult by simp
  ultimately show ?thesis by (simp only: fit_offset_def letterbox_offset_def even_down_def)
qed

lemma load_at_append:
  "load_at xs i \<noteq> None \<Longrightarrow> load_at (xs @ ys) i = load_at xs i"
  "0 \<le> i \<Longrightarrow> load_at (xs @ ys) (int (length xs) + i) = load_at ys i"
  by (auto simp: load_at_def load_def nth_append nat_add_distrib split: if_splits)

lemma load_at_nat: "load_at xs (int i) \<noteq> None \<Longrightarrow> load_at xs (int i) = Some (xs ! i)"
  by (auto simp: load_at_def load_def split: if_splits)

lemma nat_interval: "0 \<le> a \<Longrightarrow> 0 \<le> n \<Longrightarrow> 0 \<le> y \<Longrightarrow> (nat a \<le> nat y \<and> nat y < nat a + nat n) = (a \<le> y \<and> y < a + n)"
  by auto

lemma in_rect_int:
  assumes "0 \<le> y" "0 \<le> x" "0 \<le> snd off div int unit" "0 \<le> fst off div int unit" "0 \<le> snd fsize div int unit" "0 \<le> fst fsize div int unit"
  shows "in_rect unit off fsize (nat y) (nat x) = (snd off div int unit \<le> y \<and> y < snd off div int unit + snd fsize div int unit \<and>
    fst off div int unit \<le> x \<and> x < fst off div int unit + fst fsize div int unit)"
  using nat_interval [OF assms(3,5,1)] nat_interval [OF assms(4,6,2)] unfolding in_rect_def by blast

text \<open>What the reference draws, in the terms of \<open>nv_shows\<close>.\<close>

lemma letterbox_shows:
  assumes s: "packed_view s" and d: "frame_view d" and rot: "rot \<in> {0, 90, 180, 270}"
    and f: "fit_size (rotated_size s rot) d = (fw, fh)" "2 \<le> fw" "2 \<le> fh"
  obtains d' where "Letterbox s d rot = Some (True, d')" "length (nv_y d') = length (nv_y d)" "length (nv_uv d') = length (nv_uv d)"
    "nv_shows rot (nv_y s @ nv_uv s) (int (nv_strideY s)) (nv_height s) (nv_width s, nv_height s) (fw, fh)
      (letterbox_offset kWidth fw, letterbox_offset kHeight fh) (nv_y d' @ nv_uv d')"
proof -
  have V: "ValidNv12 s" "ValidNv12 d" using s d by (simp_all add: packed_view_def frame_view_def)
  obtain rw rh where r: "rotated_size s rot = (rw, rh)" by fastforce
  have "0 < rw" "0 < rh" using r V(1) by (auto simp: rotated_size_def ValidNv12_def split: if_splits)
  from fit_size_bounds [OF this, of d fw fh] V(2) f r have
    b: "fw \<le> nv_width d" "fh \<le> nv_height d" "fw mod 2 = 0" "fh mod 2 = 0" by (auto simp: ValidNv12_def)
  have W: "nv_width d = kWidth" "nv_height d = kHeight" "nv_strideY d = nat kWidth" "nv_strideUV d = nat kWidth"
    using d by (simp_all add: frame_view_def packed_view_def)
  have K: "kWidth = 1280" "kHeight = 720" "kPayloadBytes = 1382400" by (simp_all add: kWidth_def kHeight_def kPayloadBytes_def)
  define ox where "ox = letterbox_offset kWidth fw"
  define oy where "oy = letterbox_offset kHeight fh"
  have off: "fit_offset kWidth fw = ox" "fit_offset kHeight fh = oy"
    using fit_offset_same b(1,2) unfolding W ox_def oy_def by blast+
  have o: "0 \<le> ox" "0 \<le> oy" "ox mod 2 = 0" "oy mod 2 = 0"
    using b unfolding W ox_def oy_def K letterbox_offset_def by (simp_all add: cdiv_nonneg)
  obtain d' where d': "Letterbox s d rot = Some (True, d')"
    "\<And>i j. i < nat (nv_height d) \<Longrightarrow> j < nat (nv_width d) \<Longrightarrow> nv_y d' ! (i * nv_strideY d + j) =
       (if in_rect 1 (ox, oy) (fw, fh) i j then nv_y s ! drawn rot 1 (nv_strideY s) s (ox, oy) (fw, fh) i j 0 else 16)"
    "\<And>i j c. i < nat (nv_height d div 2) \<Longrightarrow> j < nat (nv_width d div 2) \<Longrightarrow> c < 2 \<Longrightarrow>
       nv_uv d' ! (i * nv_strideUV d + j * 2 + c) =
       (if in_rect 2 (ox, oy) (fw, fh) i j then nv_uv s ! drawn rot 2 (nv_strideUV s) s (ox, oy) (fw, fh) i j c else 128)"
    "length (nv_y d') = length (nv_y d)" "length (nv_uv d') = length (nv_uv d)"
    by (rule letterbox_result [OF V rot f(1), of "(ox, oy)"]) (use f(2,3) W off in \<open>simp_all\<close>)
  let ?p = "int (nv_strideY s)"
  have S: "nv_strideUV s = nv_strideY s" "int (length (nv_y s)) = ?p * nv_height s" "int (length (nv_uv s)) = ?p * (nv_height s div 2)"
    using s by (simp_all add: packed_view_def)
  have "nat (nv_width s) \<le> nv_strideY s" "2 \<le> nv_width s" "2 \<le> nv_height s"
    using V(1) by (auto simp: ValidNv12_def PlaneFits_def split: if_splits)
  then have wh: "2 \<le> nv_width s" "2 \<le> nv_height s" "nv_width s \<le> ?p" by linarith+
  have D: "length (nv_y d) = 921600" "length (nv_uv d) = 460800"
  proof -
    have "int (length (nv_y d)) = 1280 * 720" "int (length (nv_uv d)) = 1280 * (720 div 2)"
      using d W K by (simp_all only: frame_view_def packed_view_def int_nat_eq) simp_all
    then show "length (nv_y d) = 921600" "length (nv_uv d) = 460800" by simp_all
  qed
  show thesis
  proof (rule that [of d'])
    show "nv_shows rot (nv_y s @ nv_uv s) ?p (nv_height s) (nv_width s, nv_height s) (fw, fh)
      (letterbox_offset kWidth fw, letterbox_offset kHeight fh) (nv_y d' @ nv_uv d')"
      unfolding ox_def [symmetric] oy_def [symmetric]
    proof (rule nv_showsI)
      show "int (length (nv_y d' @ nv_uv d')) = kPayloadBytes" using d'(4,5) D K by simp
      fix y x :: int assume yx: "0 \<le> y" "y < kHeight" "0 \<le> x" "x < kWidth"
      let ?in = "oy \<le> y \<and> y < oy + fh \<and> ox \<le> x \<and> x < ox + fw"
      let ?l = "nv_luma rot ?p (nv_width s) (nv_height s) fw fh (y - oy) (x - ox)"
      have i: "in_rect 1 (ox, oy) (fw, fh) (nat y) (nat x) = ?in" using in_rect_int [of y x "(ox, oy)" 1 "(fw, fh)"] yx(1,3) o(1,2) f(2,3) by simp
      have e: "nat (y * kWidth + x) = nat y * nv_strideY d + nat x" using yx W by (simp add: nat_add_distrib nat_mult_distrib)
      have "y * kWidth + x < 921600" using yx unfolding K by linarith
      then have "nat (y * kWidth + x) < length (nv_y d')" unfolding d'(4) D by linarith
      then have n: "(nv_y d' @ nv_uv d') ! nat (y * kWidth + x) = nv_y d' ! (nat y * nv_strideY d + nat x)"
        by (simp add: nth_append e)
      have v: "nv_y d' ! (nat y * nv_strideY d + nat x) =
          (if ?in then nv_y s ! drawn rot 1 (nv_strideY s) s (ox, oy) (fw, fh) (nat y) (nat x) 0 else 16)"
        using d'(2) [of "nat y" "nat x"] yx W unfolding i by simp
      have l: "load_at (nv_y s @ nv_uv s) ?l = Some (nv_y s ! drawn rot 1 (nv_strideY s) s (ox, oy) (fw, fh) (nat y) (nat x) 0)" if ?in
      proof -
        have q: "0 \<le> y - oy" "y - oy < fh" "0 \<le> x - ox" "x - ox < fw" using that by simp_all
        have dr: "int (drawn rot 1 (nv_strideY s) s (ox, oy) (fw, fh) (nat y) (nat x) 0) = ?l"
          using nv_drawn [of s 1 ?p rot "y - oy" fh "x - ox" fw ox oy 0] wh rot q o by simp
        obtain row col where rc: "?l = row * ?p + col" "0 \<le> row" "row < nv_height s" "0 \<le> col" "col < nv_width s"
          using nv_luma_in_plane [OF rot q, of "nv_width s" "nv_height s" ?p] wh by auto
        have "load_at (nv_y s) (0 + row * ?p + col) \<noteq> None"
          by (rule load_in_plane [of 0 row "nv_height s"]) (use rc wh S(2) in \<open>simp_all add: mult.commute\<close>)
        then have ne: "load_at (nv_y s) ?l \<noteq> None" by (simp add: rc(1))
        show ?thesis unfolding load_at_append(1) [OF ne] using ne unfolding dr [symmetric] by (rule load_at_nat)
      qed
      show "Some ((nv_y d' @ nv_uv d') ! nat (y * kWidth + x)) = (if ?in then load_at (nv_y s @ nv_uv s) ?l else Some 16)"
      proof (cases ?in)
        case True
        show ?thesis unfolding n v if_P [OF True] l [OF True] ..
      next
        case False
        show ?thesis unfolding n v if_not_P [OF False] ..
      qed
    next
      fix y x c :: int assume yx: "0 \<le> y" "y < kHeight div 2" "0 \<le> x" "x < kWidth div 2" "c = 0 \<or> c = 1"
      let ?in = "oy div 2 \<le> y \<and> y < oy div 2 + fh div 2 \<and> ox div 2 \<le> x \<and> x < ox div 2 + fw div 2"
      let ?l = "nv_chroma rot ?p (nv_width s div 2) (nv_height s div 2) (fw div 2) (fh div 2) (y - oy div 2) (x - ox div 2) + c"
      have o2: "0 \<le> ox div 2" "0 \<le> oy div 2" "0 \<le> fw div 2" "0 \<le> fh div 2" using o f(2,3) by simp_all
      have i: "in_rect 2 (ox, oy) (fw, fh) (nat y) (nat x) = ?in"
        by (rule in_rect_int [of y x "(ox, oy)" 2 "(fw, fh)", simplified]) (use yx(1,3) o2 in linarith)+
      have c: "nat c < 2" "int (nat c) = c" "0 \<le> c" using yx(5) by auto
      have e: "nat (kWidth * kHeight + y * kWidth + x * 2 + c) = 921600 + (nat y * nv_strideUV d + nat x * 2 + nat c)"
        using yx(1,3) c(3) W by (simp add: K nat_add_distrib nat_mult_distrib)
      have n: "(nv_y d' @ nv_uv d') ! nat (kWidth * kHeight + y * kWidth + x * 2 + c) = nv_uv d' ! (nat y * nv_strideUV d + nat x * 2 + nat c)"
        unfolding e using d'(4) D by (simp add: nth_append)
      have v: "nv_uv d' ! (nat y * nv_strideUV d + nat x * 2 + nat c) =
          (if ?in then nv_uv s ! drawn rot 2 (nv_strideY s) s (ox, oy) (fw, fh) (nat y) (nat x) (nat c) else 128)"
      proof -
        have "nat y < nat (nv_height d div 2)" "nat x < nat (nv_width d div 2)"
          unfolding W using yx(1-4) by (simp_all only: nat_less_eq_zless)
        from d'(3) [OF this c(1)] show ?thesis unfolding i S(1) .
      qed
      have l: "load_at (nv_y s @ nv_uv s) (?p * nv_height s + ?l) =
          Some (nv_uv s ! drawn rot 2 (nv_strideY s) s (ox, oy) (fw, fh) (nat y) (nat x) (nat c))" if ?in
      proof -
        have q: "0 \<le> y - oy div 2" "y - oy div 2 < fh div 2" "0 \<le> x - ox div 2" "x - ox div 2 < fw div 2" using that by simp_all
        have h: "0 < nv_width s div 2" "0 < nv_height s div 2" using wh by linarith+
        have dr: "int (drawn rot 2 (nv_strideY s) s (ox, oy) (fw, fh) (nat y) (nat x) (nat c)) = ?l"
        proof -
          have undo: "oy div 2 + (y - oy div 2) = y" "ox div 2 + (x - ox div 2) = x" by simp_all
          from nv_drawn [where unit = "2::nat" and s = s and pitch = ?p and c = "nat c", unfolded of_nat_numeral,
              OF h of_nat_0_le_iff rot q o(1,2) disjI2 [OF refl], unfolded undo nat_int c(2)]
          show ?thesis by (simp only: num.distinct one_eq_numeral_iff numeral_eq_one_iff if_False)
        qed
        obtain row col where rc: "nv_chroma rot ?p (nv_width s div 2) (nv_height s div 2) (fw div 2) (fh div 2) (y - oy div 2) (x - ox div 2) =
          row * ?p + col * 2" "0 \<le> row" "row < nv_height s div 2" "0 \<le> col" "col < nv_width s div 2"
          by (rule nv_chroma_in_plane [OF rot q h])
        have "load_at (nv_uv s) (0 + row * ?p + (col * 2 + c)) \<noteq> None"
        proof (rule load_in_plane [OF order_refl rc(2,3)])
          show "0 \<le> col * 2 + c" "col * 2 + c < ?p" using rc(4,5) wh(3) yx(5) by linarith+
          show "0 + nv_height s div 2 * ?p \<le> int (length (nv_uv s))" unfolding S(3) mult.commute [of ?p] by simp
        qed
        then have ne: "load_at (nv_uv s) ?l \<noteq> None" by (simp add: rc(1) add.assoc)
        have nonneg: "0 \<le> ?l" unfolding dr [symmetric] by simp
        show ?thesis unfolding S(2) [symmetric] load_at_append(2) [OF nonneg] using ne unfolding dr [symmetric]
          by (rule load_at_nat)
      qed
      show "Some ((nv_y d' @ nv_uv d') ! nat (kWidth * kHeight + y * kWidth + x * 2 + c)) =
          (if ?in then load_at (nv_y s @ nv_uv s) (?p * nv_height s +
             nv_chroma rot ?p (nv_width s div 2) (nv_height s div 2) (fw div 2) (fh div 2) (y - oy div 2) (x - ox div 2) + c) else Some 128)"
      proof (cases ?in)
        case True
        show ?thesis unfolding n v if_P [OF True] using l [OF True] by (simp add: add.assoc)
      next
        case False
        show ?thesis unfolding n v if_not_P [OF False] ..
      qed
    qed
  qed (use d' in simp_all)
qed

text \<open>Two pictures of the same rectangle are the same frame.\<close>

lemma chroma_place:
  fixes n :: int
  assumes "0 \<le> n" "n < 460800"
  shows "0 \<le> n div 1280 \<and> n div 1280 < 720 div 2 \<and> 0 \<le> n mod 1280 div 2 \<and> n mod 1280 div 2 < 1280 div 2 \<and>
    (n mod 1280 mod 2 = 0 \<or> n mod 1280 mod 2 = 1)"
proof (intro conjI)
  define m where "m = n mod 1280"
  have "0 \<le> m" "m < 1280" unfolding m_def by (rule pos_mod_sign, simp, rule pos_mod_bound, simp)
  then have "0 \<le> m div 2" "m div 2 < 1280 div 2" by simp_all
  then show "0 \<le> n mod 1280 div 2" "n mod 1280 div 2 < 1280 div 2" unfolding m_def .
  have "0 \<le> n div 1280" "n div 1280 < 360" using assms by linarith+
  then show "0 \<le> n div 1280" "n div 1280 < 720 div 2" by simp_all
  show "n mod 1280 mod 2 = 0 \<or> n mod 1280 mod 2 = 1" by presburger
qed

lemma nv_shows_unique:
  assumes "nv_shows rot src pitch srcH sample fit offset f" "nv_shows rot src pitch srcH sample fit offset g"
  shows "f = g"
proof (rule nth_equalityI)
  obtain sw sh fw fh ox oy where p: "sample = (sw, sh)" "fit = (fw, fh)" "offset = (ox, oy)" by (metis prod.exhaust)
  note u = assms [unfolded nv_shows_def Let_def p prod.case]
  show "length f = length g" using u(1) [THEN conjunct1] u(2) [THEN conjunct1] by simp
  have K: "kWidth = 1280" "kHeight = 720" "kPayloadBytes = 1382400" by (simp_all add: kWidth_def kHeight_def kPayloadBytes_def)
  show "f ! k = g ! k" if "k < length f" for k
  proof (cases "int k < kWidth * kHeight")
    case True
    let ?y = "int k div kWidth" and ?x = "int k mod kWidth"
    have k: "?y * kWidth + ?x = int k" by (rule div_mult_mod_eq)
    have r: "0 \<le> ?y \<and> ?y < kHeight \<and> 0 \<le> ?x \<and> ?x < kWidth" using True unfolding K by auto
    have "Some (f ! nat (?y * kWidth + ?x)) = Some (g ! nat (?y * kWidth + ?x))"
      using u [THEN conjunct2, THEN conjunct1, rule_format, OF r] by (rule trans_sym)
    then show ?thesis unfolding k by simp
  next
    case False
    let ?n = "int k - kWidth * kHeight"
    let ?y = "?n div kWidth" and ?x = "?n mod kWidth div 2" and ?c = "?n mod kWidth mod 2"
    have k: "kWidth * kHeight + ?y * kWidth + ?x * 2 + ?c = int k"
      using div_mult_mod_eq [of ?n kWidth] div_mult_mod_eq [of "?n mod kWidth" 2] by linarith
    have "int k < 1382400" using that u(1) [THEN conjunct1] unfolding K by linarith
    then have "0 \<le> ?n" "?n < 460800" using False unfolding K by linarith+
    from chroma_place [OF this] have r: "0 \<le> ?y \<and> ?y < kHeight div 2 \<and> 0 \<le> ?x \<and> ?x < kWidth div 2 \<and> (?c = 0 \<or> ?c = 1)"
      unfolding K .
    have "Some (f ! nat (kWidth * kHeight + ?y * kWidth + ?x * 2 + ?c)) = Some (g ! nat (kWidth * kHeight + ?y * kWidth + ?x * 2 + ?c))"
      using u [THEN conjunct2, THEN conjunct2, rule_format, OF r] by (rule trans_sym)
    then show ?thesis unfolding k by simp
  qed
qed

section \<open>Properties\<close>

text \<open>An NV12 conversion reads inside the source and writes inside the frame, for every size
  from 2 by 2 to 8192 by 8192, any pitch that holds a row and any rotation; it always hands back a
  full frame.\<close>

theorem ConvertNv12_in_bounds:
  assumes "nv12_image src (if srcPitch \<le> 0 then srcW else srcPitch) srcW srcH" and "int (length dst) = kPayloadBytes"
  shows "\<exists>frame. ConvertNv12ToNv12Letterbox (Some src) srcPitch srcW srcH dst kWidth kHeight degrees = Some frame \<and>
    int (length frame) = kPayloadBytes"
proof -
  let ?p = "if srcPitch \<le> 0 then srcW else srcPitch" and ?rot = "normal_rotation degrees"
  have "0 < ?p" using assms(1) by (simp add: nv12_image_def)
  then have "ConvertNv12ToNv12Letterbox (Some src) srcPitch srcW srcH dst kWidth kHeight degrees =
    ConvertNv12ToNv12Letterbox (Some src) ?p srcW srcH dst kWidth kHeight degrees"
    by (simp add: ConvertNv12ToNv12Letterbox_def)
  moreover obtain fw fh where "aspect_fit (if ?rot = 90 \<or> ?rot = 270 then srcH else srcW) (if ?rot = 90 \<or> ?rot = 270 then srcW else srcH)
      kWidth kHeight = (fw, fh)" by fastforce
  from ConvertNv12_result [OF assms refl this] obtain frame where
    "ConvertNv12ToNv12Letterbox (Some src) ?p srcW srcH dst kWidth kHeight degrees = Some frame" "length frame = length dst" by blast
  ultimately show ?thesis using assms(2) by simp
qed

theorem ConvertNv12_in_bounds_witness:
  "\<exists>frame. ConvertNv12ToNv12Letterbox (Some (replicate 10 7)) 0 2 3 (replicate 1382400 0) kWidth kHeight (- 90) = Some frame \<and>
    int (length frame) = kPayloadBytes"
proof (rule ConvertNv12_in_bounds)
  show "nv12_image (replicate 10 7) (if 0 \<le> (0::int) then 2 else 0) 2 3" by (simp add: nv12_image_def)
  show "int (length (replicate 1382400 (0::u8))) = kPayloadBytes"
    unfolding length_replicate by (simp add: kPayloadBytes_def kWidth_def kHeight_def)
qed

text \<open>C25: The optimised converter and the reference \<open>Letterbox\<close> of \<open>nv12.h\<close> produce the same
  frame, byte for byte, for every right-angle rotation, whenever the \<open>float\<close> aspect ratio gives the
  rectangle of the exact integer computation.\<close>

theorem ConvertNv12_equals_Letterbox:
  assumes "packed_view s" and "frame_view d" and "normal_rotation degrees = rot"
    and "aspect_fit (fst (rotated_size s rot)) (snd (rotated_size s rot)) kWidth kHeight = fit_size (rotated_size s rot) d"
    and "2 \<le> fst (fit_size (rotated_size s rot) d)" "2 \<le> snd (fit_size (rotated_size s rot) d)"
    and "int (length dst) = kPayloadBytes"
  shows "\<exists>d'. Letterbox s d rot = Some (True, d') \<and>
    ConvertNv12ToNv12Letterbox (Some (nv_y s @ nv_uv s)) (int (nv_strideY s)) (nv_width s) (nv_height s) dst kWidth kHeight degrees =
      Some (nv_y d' @ nv_uv d')"
proof -
  obtain fw fh where f: "fit_size (rotated_size s rot) d = (fw, fh)" by fastforce
  have right: "rot \<in> {0, 90, 180, 270}" using normal_rotation_right [of degrees] assms(3) by simp
  have fwh: "2 \<le> fw" "2 \<le> fh" using assms(5,6) f by simp_all
  obtain d' where d': "Letterbox s d rot = Some (True, d')"
    "nv_shows rot (nv_y s @ nv_uv s) (int (nv_strideY s)) (nv_height s) (nv_width s, nv_height s) (fw, fh)
      (letterbox_offset kWidth fw, letterbox_offset kHeight fh) (nv_y d' @ nv_uv d')"
    by (rule letterbox_shows [OF assms(1,2) right f fwh])
  have "ValidNv12 s" using assms(1) by (simp add: packed_view_def)
  then have V: "0 < nv_width s" "0 < nv_height s" "nv_width s \<le> 8192" "nv_height s \<le> 8192" "nv_width s mod 2 = 0"
    "nv_height s mod 2 = 0" "nat (nv_width s) \<le> nv_strideY s"
    by (auto simp: ValidNv12_def PlaneFits_def split: if_splits)
  have "(nv_height s + 1) div 2 = nv_height s div 2" "2 \<le> nv_width s" "2 \<le> nv_height s" using V by presburger+
  then have i: "nv12_image (nv_y s @ nv_uv s) (int (nv_strideY s)) (nv_width s) (nv_height s)"
    using assms(1) V(3,4,7) by (simp add: nv12_image_def packed_view_def)
  have r: "rotated_size s rot = (if rot = 90 \<or> rot = 270 then nv_height s else nv_width s, if rot = 90 \<or> rot = 270 then nv_width s else nv_height s)"
    using right by (auto simp: rotated_size_def)
  from ConvertNv12_result [OF i assms(7) assms(3) [symmetric] assms(4) [unfolded f, unfolded r fst_conv snd_conv]] obtain frame where
    "ConvertNv12ToNv12Letterbox (Some (nv_y s @ nv_uv s)) (int (nv_strideY s)) (nv_width s) (nv_height s) dst kWidth kHeight degrees = Some frame"
    "nv_shows rot (nv_y s @ nv_uv s) (int (nv_strideY s)) (nv_height s) (nv_width s, nv_height s) (fw, fh)
      (letterbox_offset kWidth fw, letterbox_offset kHeight fh) frame" using V(5,6) fwh by auto
  with d' show ?thesis using nv_shows_unique by blast
qed

definition black_view :: Nv12View where
  "black_view = \<lparr>nv_y = replicate 921600 0, nv_uv = replicate 460800 0, nv_strideY = 1280, nv_strideUV = 1280,
     nv_width = 1280, nv_height = 720\<rparr>"

theorem ConvertNv12_equals_Letterbox_witness:
  "\<exists>d'. Letterbox nv12_small black_view 90 = Some (True, d') \<and>
    ConvertNv12ToNv12Letterbox (Some (nv_y nv12_small @ nv_uv nv12_small)) (int (nv_strideY nv12_small)) (nv_width nv12_small)
      (nv_height nv12_small) (replicate 1382400 0) kWidth kHeight (- 270) = Some (nv_y d' @ nv_uv d')"
proof (rule ConvertNv12_equals_Letterbox)
  show "packed_view nv12_small" by code_simp
  have l: "length (nv_y black_view) = 921600" "length (nv_uv black_view) = 460800" by (simp_all only: black_view_def Nv12View.simps length_replicate)
  have w: "nv_strideY black_view = 1280" "nv_strideUV black_view = 1280" "nv_width black_view = 1280" "nv_height black_view = 720"
    by (simp_all add: black_view_def)
  have "ValidNv12 black_view" unfolding ValidNv12_def PlaneFits_def l w by simp
  then show "frame_view black_view" unfolding frame_view_def packed_view_def l w by (simp add: kWidth_def kHeight_def)
  show "normal_rotation (- 270) = 90" by code_simp
  have r: "rotated_size nv12_small 90 = (2, 2)" by code_simp
  have f: "fit_size (2, 2) black_view = (720, 720)" by (simp add: fit_size_def w even_down_def)
  have a: "aspect 2 2 = 1" "aspect kWidth kHeight = 14913081 / 8388608" "fl32 (fl32 (of_int kHeight) * 1) = 720" by code_simp+
  have "aspect_fit 2 2 kWidth kHeight = (720, 720)"
    unfolding aspect_fit_def Let_def a by (simp add: trunc_def kHeight_def cdiv_nonneg)
  then show "aspect_fit (fst (rotated_size nv12_small 90)) (snd (rotated_size nv12_small 90)) kWidth kHeight =
    fit_size (rotated_size nv12_small 90) black_view" by (simp add: r f)
  show "2 \<le> fst (fit_size (rotated_size nv12_small 90) black_view)" "2 \<le> snd (fit_size (rotated_size nv12_small 90) black_view)"
    by (simp_all add: r f)
  show "int (length (replicate 1382400 (0::u8))) = kPayloadBytes"
    unfolding length_replicate by (simp add: kPayloadBytes_def kWidth_def kHeight_def)
qed

text \<open>The other two converters stay inside their buffers as well.\<close>

theorem ConvertI420_in_bounds:
  assumes "1 \<le> srcW" "srcW \<le> 8192" "1 \<le> srcH" "srcH \<le> 8192" and "int (length dst) = kPayloadBytes"
    and "srcW \<le> strideY" "srcH * strideY \<le> int (length ys)"
    and "(srcW + 1) div 2 \<le> strideU" "(srcH + 1) div 2 * strideU \<le> int (length us)"
    and "(srcW + 1) div 2 \<le> strideV" "(srcH + 1) div 2 * strideV \<le> int (length vs)"
  shows "\<exists>frame. ConvertI420ToNv12 (Some ys) strideY (Some us) strideU (Some vs) strideV srcW srcH dst kWidth kHeight = Some frame \<and>
    int (length frame) = kPayloadBytes"
proof -
  have K: "kWidth = 1280" "kHeight = 720" "kPayloadBytes = 1382400" by (simp_all add: kWidth_def kHeight_def kPayloadBytes_def)
  obtain fw fh where f: "aspect_fit srcW srcH kWidth kHeight = (fw, fh)" by fastforce
  have b: "0 \<le> fw \<and> fw \<le> kWidth \<and> fw mod 2 = 0 \<and> 0 \<le> fh \<and> fh \<le> kHeight \<and> fh mod 2 = 0"
    by (rule aspect_fit_bounds [OF assms(1-4) _ _ _ _ f]) (simp_all add: K)
  obtain d1 where d1: "FillBlackNv12 kPayloadBytes dst = Some d1" "length d1 = length dst"
    by (rule black_result [OF assms(5)]) blast
  show ?thesis
  proof (cases "fw \<le> 0 \<or> fh \<le> 0")
    case True
    then have "ConvertI420ToNv12 (Some ys) strideY (Some us) strideU (Some vs) strideV srcW srcH dst kWidth kHeight = Some d1"
      using assms(1,3) by (simp add: ConvertI420ToNv12_def d1(1) f Let_def)
    then show ?thesis using d1(2) assms(5) by simp
  next
    case False
    define ox where "ox = letterbox_offset kWidth fw"
    define oy where "oy = letterbox_offset kHeight fh"
    have fit: "fits_frame kWidth kHeight ox oy fw fh" unfolding ox_def oy_def
      by (rule letterbox_fits) (use b False in \<open>simp_all add: K\<close>)
    let ?hw = "cdiv (srcW + 1) 2" and ?hh = "cdiv (srcH + 1) 2"
    have h: "?hw = (srcW + 1) div 2" "?hh = (srcH + 1) div 2" using assms(1,3) by (simp_all add: cdiv_nonneg)
    have hp: "0 < ?hw" "0 < ?hh" unfolding h using assms(1,3) by linarith+
    have hf: "cdiv fw 2 = fw div 2" "cdiv fh 2 = fh div 2" "cdiv ox 2 = ox div 2" "cdiv oy 2 = oy div 2"
      using b fit by (simp_all add: cdiv_nonneg fits_frame_def)
    have len: "kWidth * kHeight + kWidth * (kHeight div 2) \<le> int (length d1)" using assms(5) d1(2) by (simp add: K)
    have lum: "load_at ys (cdiv (y * srcH) fh * strideY + cdiv (x * srcW) fw) \<noteq> None"
      if "0 \<le> y" "y < fh" "0 \<le> x" "x < fw" for y x
      using load_in_plane [of 0 "cdiv (y * srcH) fh" srcH "cdiv (x * srcW) fw" strideY ys] assms(1,3,6,7)
        scale_range [OF that(1,2), of srcH] scale_range [OF that(3,4), of srcW] by simp
    have chr: "load_at p (cdiv (y * ?hh) (fh div 2) * stride + cdiv (x * ?hw) (fw div 2)) \<noteq> None"
      if "0 \<le> y" "y < fh div 2" "0 \<le> x" "x < fw div 2" "?hw \<le> stride" "?hh * stride \<le> int (length p)" for y x stride p
      using load_in_plane [of 0 "cdiv (y * ?hh) (fh div 2)" ?hh "cdiv (x * ?hw) (fw div 2)" stride p] that(5,6)
        scale_range [OF that(1,2) hp(2)] scale_range [OF that(3,4) hp(1)] by simp
    obtain d' where "bind_draw (draw fh fw (\<lambda>y x. [((oy + y) * kWidth + ox + x,
          load_at ys (cdiv (y * srcH) fh * strideY + cdiv (x * srcW) fw))]) d1)
      (draw (fh div 2) (fw div 2) (\<lambda>y x. [(kWidth * kHeight + (oy div 2 + y) * kWidth + ox div 2 * 2 + x * 2,
            load_at us (cdiv (y * ?hh) (fh div 2) * strideU + cdiv (x * ?hw) (fw div 2))),
         (kWidth * kHeight + (oy div 2 + y) * kWidth + ox div 2 * 2 + x * 2 + 1,
            load_at vs (cdiv (y * ?hh) (fh div 2) * strideV + cdiv (x * ?hw) (fw div 2)))])) = Some d'" "length d' = length d1"
    proof (rule planes_result [where v = "\<lambda>y x. load_at ys (cdiv (y * srcH) fh * strideY + cdiv (x * srcW) fw)", OF fit len])
      show "load_at ys (cdiv (y * srcH) fh * strideY + cdiv (x * srcW) fw) \<noteq> None"
        if "0 \<le> y" "y < fh" "0 \<le> x" "x < fw" for y x by (rule lum [OF that])
      show "load_at us (cdiv (y * ?hh) (fh div 2) * strideU + cdiv (x * ?hw) (fw div 2)) \<noteq> None \<and>
        load_at vs (cdiv (y * ?hh) (fh div 2) * strideV + cdiv (x * ?hw) (fw div 2)) \<noteq> None"
        if "0 \<le> y" "y < fh div 2" "0 \<le> x" "x < fw div 2" for y x
        using chr [OF that] assms(8-11) unfolding h by blast
    qed blast
    then have "ConvertI420ToNv12 (Some ys) strideY (Some us) strideU (Some vs) strideV srcW srcH dst kWidth kHeight = Some d'"
      using False assms(1,3) by (simp add: ConvertI420ToNv12_def d1(1) f Let_def ox_def [symmetric] oy_def [symmetric] hf)
    then show ?thesis using \<open>length d' = length d1\<close> d1(2) assms(5) by simp
  qed
qed

text \<open>The BT.601 sums of eight-bit colours are in range before the clamp.\<close>

theorem bgra_needs_no_clamp:
  "uint (bgra_y b g r) = (66 * uint r + 129 * uint g + 25 * uint b + 128) div 256 + 16 \<and> 16 \<le> uint (bgra_y b g r) \<and> uint (bgra_y b g r) \<le> 235 \<and>
   uint (bgra_u b g r) = (- 38 * uint r - 74 * uint g + 112 * uint b + 128) div 256 + 128 \<and> 16 \<le> uint (bgra_u b g r) \<and> uint (bgra_u b g r) \<le> 240 \<and>
   uint (bgra_v b g r) = (112 * uint r - 94 * uint g - 18 * uint b + 128) div 256 + 128 \<and> 16 \<le> uint (bgra_v b g r) \<and> uint (bgra_v b g r) \<le> 240"
proof -
  have u: "0 \<le> uint c \<and> uint c \<le> 255" for c :: u8 using uint_lt2p [of c] by simp
  have c: "uint (clamp_byte n lo hi) = n" if "lo \<le> n" "n \<le> hi" "0 \<le> lo" "hi \<le> 255" for n lo hi
    using that by (simp add: clamp_byte_def uint_word_of_int)
  note u3 = u [of r] u [of g] u [of b]
  have y: "16 \<le> (66 * uint r + 129 * uint g + 25 * uint b + 128) div 256 + 16" "(66 * uint r + 129 * uint g + 25 * uint b + 128) div 256 + 16 \<le> 235"
    using u3 by linarith+
  have cu: "16 \<le> (- 38 * uint r - 74 * uint g + 112 * uint b + 128) div 256 + 128" "(- 38 * uint r - 74 * uint g + 112 * uint b + 128) div 256 + 128 \<le> 240"
    using u3 by linarith+
  have cv: "16 \<le> (112 * uint r - 94 * uint g - 18 * uint b + 128) div 256 + 128" "(112 * uint r - 94 * uint g - 18 * uint b + 128) div 256 + 128 \<le> 240"
    using u3 by linarith+
  show ?thesis
    unfolding bgra_y_def bgra_u_def bgra_v_def using c [OF y] c [OF cu] c [OF cv] y cu cv by simp
qed

end
