(* ===== verification/TestPattern.thy ===== *)
theory TestPattern
  imports PixelConverter
begin

text \<open>
  \<open>src/windows/receiver/media/test_pattern_generator.cpp\<close>: the colour bars with a moving box and the
  calibration pattern. The loops are those of \<open>PixelConverter\<close>; a write outside a vector would be
  \<open>None\<close>, and that it never is part of the theorems.
\<close>

section \<open>Patterns\<close>

definition kSmpte75 :: "(u8 \<times> u8 \<times> u8) list" where
  "kSmpte75 = [(180, 128, 128), (162, 44, 142), (131, 156, 44), (112, 72, 58), (84, 184, 198), (65, 100, 212),
     (35, 212, 114), (16, 128, 128)]"

definition bar_index :: "int \<Rightarrow> nat" where
  "bar_index x = nat (min (x div (kWidth div 8)) 7)"

definition ramp :: "int \<Rightarrow> u8" where
  "ramp x = of_int (16 + x * (235 - 16) div kWidth)"

definition topHeight :: int where
  "topHeight = 480"

definition base_luma :: "int \<Rightarrow> int \<Rightarrow> u8" where
  "base_luma y x = (if y < topHeight then fst (kSmpte75 ! bar_index x) else ramp x)"

definition base_chroma :: "int \<Rightarrow> int \<Rightarrow> u8 \<times> u8" where
  "base_chroma uvY uvX = (if uvY < topHeight div 2 then snd (kSmpte75 ! bar_index (uvX * 2)) else (128, 128))"

text \<open>\<open>v.resize(n)\<close>.\<close>

definition resize :: "int \<Rightarrow> bytes \<Rightarrow> bytes" where
  "resize n v = (if int (length v) \<noteq> n then take (nat n) v @ replicate (nat n - length v) 0 else v)"

record TestPatternGenerator =
  tp_baseBarsY :: bytes
  tp_baseBarsUV :: bytes

definition TestPatternGenerator_init :: "TestPatternGenerator option" where
  "TestPatternGenerator_init =
     (case draw kHeight kWidth (\<lambda>y x. [(y * kWidth + x, Some (base_luma y x))]) (resize (kWidth * kHeight) []) of
        None \<Rightarrow> None
      | Some barsY \<Rightarrow>
          (case draw (kHeight div 2) (kWidth div 2) (\<lambda>uvY uvX.
                  let uvIdx = (uvY * (kWidth div 2) + uvX) * 2
                  in [(uvIdx, Some (fst (base_chroma uvY uvX))), (uvIdx + 1, Some (snd (base_chroma uvY uvX)))])
                (resize (kWidth * (kHeight div 2)) []) of
             None \<Rightarrow> None
           | Some barsUV \<Rightarrow> Some \<lparr>tp_baseBarsY = barsY, tp_baseBarsUV = barsUV\<rparr>))"

definition box_x :: "u64 \<Rightarrow> int" where
  "box_x frameIndex = uint (ucast ((frameIndex * 12) mod (of_int kWidth - 80)) :: u32)"

text \<open>A row loop that is left when \<open>stop\<close> holds.\<close>

definition draw_until :: "(int \<Rightarrow> bool) \<Rightarrow> int \<Rightarrow> int \<Rightarrow> (int \<Rightarrow> int \<Rightarrow> (int \<times> u8 option) list) \<Rightarrow> bytes \<Rightarrow> bytes option" where
  "draw_until stop h w body =
     for_each (\<lambda>y. for_each (\<lambda>x. assign (body (int y) (int x))) [0..<nat w]) (takeWhile (\<lambda>r. \<not> stop (int r)) [0..<nat h])"

definition GenerateFrame :: "TestPatternGenerator \<Rightarrow> bytes \<Rightarrow> u64 \<Rightarrow> bytes option" where
  "GenerateFrame g outNv12 frameIndex =
     (let n = int (length (tp_baseBarsY g)); boxX = box_x frameIndex; boxY = 650; pUV = kWidth * kHeight in
      bind_draw (memcpy_at 0 (tp_baseBarsY g) 0 n (resize kPayloadBytes outNv12)) (\<lambda>d.
      bind_draw (memcpy_at n (tp_baseBarsUV g) 0 (int (length (tp_baseBarsUV g))) d) (\<lambda>d.
      bind_draw (draw_until (\<lambda>r. boxY + r \<ge> kHeight) 40 80 (\<lambda>r c. [((boxY + r) * kWidth + (boxX + c), Some 235)]) d)
        (draw_until (\<lambda>r. boxY div 2 + r \<ge> kHeight div 2) 20 40 (\<lambda>r c.
           let uvIdx = ((boxY div 2 + r) * (kWidth div 2) + (boxX div 2 + c)) * 2
           in [(pUV + uvIdx, Some 128), (pUV + uvIdx + 1, Some 128)])))))"

definition GenerateCalibrationPattern :: "bytes \<Rightarrow> u32 \<Rightarrow> bytes option" where
  "GenerateCalibrationPattern outNv12 patternId =
     (let p = uint patternId; pUV = kWidth * kHeight in
      bind_draw (draw kHeight kWidth (\<lambda>y x. [(y * kWidth + x, Some (of_int (x * 17 + y * 31 + p * 101)))]) (resize kPayloadBytes outNv12))
        (draw (kHeight div 2) (kWidth div 2) (\<lambda>uvY uvX.
           let uvIdx = (uvY * (kWidth div 2) + uvX) * 2
           in [(pUV + uvIdx, Some (of_int (uvX * 13 + uvY * 23 + p * 47))),
               (pUV + uvIdx + 1, Some (of_int (uvX * 29 + uvY * 7 + p * 83)))])))"

section \<open>What they draw\<close>

lemma sizes: "kWidth = 1280" "kHeight = 720" "kPayloadBytes = 1382400" "topHeight = 480"
  by (simp_all add: kWidth_def kHeight_def kPayloadBytes_def topHeight_def)

lemma length_resize: "0 \<le> n \<Longrightarrow> int (length (resize n v)) = n"
  by (auto simp: resize_def)

lemma draw_until_all:
  assumes "\<And>r. 0 \<le> r \<Longrightarrow> r < h \<Longrightarrow> \<not> stop r"
  shows "draw_until stop h w body = draw h w body"
proof -
  have "takeWhile (\<lambda>r. \<not> stop (int r)) [0..<nat h] = [0..<nat h]"
    unfolding takeWhile_eq_all_conv using assms by auto
  then show ?thesis by (simp only: draw_until_def draw_def)
qed

lemma box_x_range: "0 \<le> box_x i \<and> box_x i < 1200"
proof -
  have "(i * 12) mod 1200 < (1200 :: u64)" by (simp add: word_mod_less_divisor)
  then have "uint ((i * 12) mod 1200 :: u64) < 1200" by (simp add: word_less_def)
  moreover have "uint (ucast ((i * 12) mod 1200 :: u64) :: u32) = uint ((i * 12) mod 1200 :: u64)"
    using calculation by (simp add: unsigned_ucast_eq take_bit_int_eq_self)
  ultimately show ?thesis by (simp add: box_x_def sizes)
qed

text \<open>The chroma index of the code is the row and column of a plane of \<open>kWidth\<close> bytes.\<close>

lemma uv_index: "(y * (kWidth div 2) + x) * 2 = y * kWidth + x * 2"
  by (simp add: sizes)

lemma bars_result:
  obtains g where "TestPatternGenerator_init = Some g" "int (length (tp_baseBarsY g)) = kWidth * kHeight"
    "int (length (tp_baseBarsUV g)) = kWidth * (kHeight div 2)"
    "\<And>y x. 0 \<le> y \<Longrightarrow> y < kHeight \<Longrightarrow> 0 \<le> x \<Longrightarrow> x < kWidth \<Longrightarrow> tp_baseBarsY g ! nat (y * kWidth + x) = base_luma y x"
    "\<And>y x. 0 \<le> y \<Longrightarrow> y < kHeight div 2 \<Longrightarrow> 0 \<le> x \<Longrightarrow> x < kWidth div 2 \<Longrightarrow>
       tp_baseBarsUV g ! nat (y * kWidth + x * 2) = fst (base_chroma y x) \<and> tp_baseBarsUV g ! nat (y * kWidth + x * 2 + 1) = snd (base_chroma y x)"
proof -
  have l1: "int (length (resize (kWidth * kHeight) [])) = kWidth * kHeight" by (rule length_resize) (simp add: sizes)
  have l2: "int (length (resize (kWidth * (kHeight div 2)) [])) = kWidth * (kHeight div 2)" by (rule length_resize) (simp add: sizes)
  obtain ys where ys: "draw kHeight kWidth (\<lambda>y x. [(0 + (0 + y) * kWidth + 0 + x, Some (base_luma y x))]) (resize (kWidth * kHeight) []) = Some ys"
    "length ys = length (resize (kWidth * kHeight) [])"
    "\<And>y x. 0 \<le> y \<Longrightarrow> y < kHeight \<Longrightarrow> 0 \<le> x \<Longrightarrow> x < kWidth \<Longrightarrow> Some (ys ! nat (0 + (0 + y) * kWidth + 0 + x)) = Some (base_luma y x)"
    by (rule draw_bytes [where v = "\<lambda>y x. Some (base_luma y x)" and base = 0 and ox = 0 and oy = 0 and W = kWidth and h = kHeight and w = kWidth
          and b = "resize (kWidth * kHeight) []"]) (use l1 in \<open>auto simp: sizes\<close>)
  obtain us where us: "draw (kHeight div 2) (kWidth div 2) (\<lambda>y x. [(0 + (0 + y) * kWidth + 0 + x * 2, Some (fst (base_chroma y x))),
      (0 + (0 + y) * kWidth + 0 + x * 2 + 1, Some (snd (base_chroma y x)))]) (resize (kWidth * (kHeight div 2)) []) = Some us"
    "length us = length (resize (kWidth * (kHeight div 2)) [])"
    "\<And>y x. 0 \<le> y \<Longrightarrow> y < kHeight div 2 \<Longrightarrow> 0 \<le> x \<Longrightarrow> x < kWidth div 2 \<Longrightarrow>
       Some (us ! nat (0 + (0 + y) * kWidth + 0 + x * 2)) = Some (fst (base_chroma y x)) \<and>
       Some (us ! nat (0 + (0 + y) * kWidth + 0 + x * 2 + 1)) = Some (snd (base_chroma y x))"
    by (rule draw_pairs [where u = "\<lambda>y x. Some (fst (base_chroma y x))" and v = "\<lambda>y x. Some (snd (base_chroma y x))" and base = 0 and ox = 0
          and oy = 0 and W = kWidth and h = "kHeight div 2" and w = "kWidth div 2" and b = "resize (kWidth * (kHeight div 2)) []"])
      (use l2 in \<open>auto simp: sizes\<close>)
  show thesis
  proof (rule that [of "\<lparr>tp_baseBarsY = ys, tp_baseBarsUV = us\<rparr>"])
    show "TestPatternGenerator_init = Some \<lparr>tp_baseBarsY = ys, tp_baseBarsUV = us\<rparr>"
      unfolding TestPatternGenerator_init_def Let_def uv_index using ys(1) us(1) by simp
  qed (use ys(2,3) us(2,3) l1 l2 in simp_all)
qed

lemma beyond_luma:
  fixes j k x y :: int
  shows "0 \<le> y \<Longrightarrow> 0 \<le> x \<Longrightarrow> 0 \<le> k \<Longrightarrow> j < 921600 \<Longrightarrow>
    j \<noteq> 921600 + (325 + y) * 1280 + k + x * 2 \<and> j \<noteq> 921600 + (325 + y) * 1280 + k + x * 2 + 1"
  by auto

section \<open>Properties\<close>

text \<open>The frames are complete whatever buffer is passed in: the bars and the grey ramp everywhere, but
  the peak-white box of 80 by 40 at row 650, whose column follows the frame number.\<close>

theorem GenerateFrame_luma:
  assumes "TestPatternGenerator_init = Some g"
  obtains f where "GenerateFrame g out frameIndex = Some f" "int (length f) = kPayloadBytes"
    "\<And>y x. 0 \<le> y \<Longrightarrow> y < kHeight \<Longrightarrow> 0 \<le> x \<Longrightarrow> x < kWidth \<Longrightarrow> f ! nat (y * kWidth + x) =
       (if 650 \<le> y \<and> y < 690 \<and> box_x frameIndex \<le> x \<and> x < box_x frameIndex + 80 then 235 else base_luma y x)"
proof -
  obtain g' where g': "TestPatternGenerator_init = Some g'" "int (length (tp_baseBarsY g')) = kWidth * kHeight"
    "int (length (tp_baseBarsUV g')) = kWidth * (kHeight div 2)"
    "\<And>y x. 0 \<le> y \<Longrightarrow> y < kHeight \<Longrightarrow> 0 \<le> x \<Longrightarrow> x < kWidth \<Longrightarrow> tp_baseBarsY g' ! nat (y * kWidth + x) = base_luma y x"
    by (rule bars_result) blast
  have gg: "g' = g" using g'(1) assms by (metis option.inject)
  note g = g'(2-4) [unfolded gg]
  define bx where "bx = box_x frameIndex"
  have bx: "0 \<le> bx" "bx < 1200" using box_x_range by (simp_all add: bx_def)
  have l0: "int (length (resize kPayloadBytes out)) = 1382400" by (subst length_resize) (simp_all add: sizes)
  have n: "int (length (tp_baseBarsY g)) = 921600" "int (length (tp_baseBarsUV g)) = 460800" using g(1,2) by (simp_all add: sizes)
  obtain d1 where d1: "memcpy_at 0 (tp_baseBarsY g) 0 921600 (resize kPayloadBytes out) = Some d1" "length d1 = length (resize kPayloadBytes out)"
    "\<And>j. int j < 921600 \<Longrightarrow> d1 ! j = tp_baseBarsY g ! j"
    by (rule memcpy_result [of 921600 "tp_baseBarsY g" "resize kPayloadBytes out"]) (use n l0 in simp_all)
  have v2: "load_at (tp_baseBarsUV g) (0 + x) \<noteq> None" if "0 \<le> x" "x < 460800" for x
    using that n(2) by (simp add: load_at_def load_def)
  obtain d2 where d2: "draw 1 460800 (\<lambda>_ x. [(921600 + x, load_at (tp_baseBarsUV g) (0 + x))]) d1 = Some d2" "length d2 = length d1"
    "\<And>j. \<not> (921600 \<le> int j \<and> int j < 921600 + 460800) \<Longrightarrow> d2 ! j = d1 ! j"
    by (rule row_result [where v = "\<lambda>x. load_at (tp_baseBarsUV g) (0 + x)" and p = 921600 and n = 460800 and b = d1]) (use v2 d1(2) l0 in auto)
  obtain d3 where d3: "draw 40 80 (\<lambda>y x. [(0 + (650 + y) * 1280 + bx + x, Some 235)]) d2 = Some d3" "length d3 = length d2"
    "\<And>y x. 0 \<le> y \<Longrightarrow> y < 40 \<Longrightarrow> 0 \<le> x \<Longrightarrow> x < 80 \<Longrightarrow> Some (d3 ! nat (0 + (650 + y) * 1280 + bx + x)) = Some 235"
    "\<And>j. (\<And>y x. 0 \<le> y \<Longrightarrow> y < 40 \<Longrightarrow> 0 \<le> x \<Longrightarrow> x < 80 \<Longrightarrow> int j \<noteq> 0 + (650 + y) * 1280 + bx + x) \<Longrightarrow> d3 ! j = d2 ! j"
    by (rule draw_bytes [where v = "\<lambda>_ _. Some 235" and base = 0 and oy = 650 and ox = bx and W = 1280 and h = 40 and w = 80 and b = d2])
      (use bx d2(2) d1(2) l0 in auto)
  have hb: "0 \<le> bx div 2 * 2" "bx div 2 * 2 + 2 * 40 \<le> 1280" using bx by simp_all
  obtain d4 where d4: "draw 20 40 (\<lambda>y x. [(921600 + (325 + y) * 1280 + bx div 2 * 2 + x * 2, Some 128), (921600 + (325 + y) * 1280 + bx div 2 * 2 + x * 2 + 1, Some 128)]) d3 = Some d4"
    "length d4 = length d3"
    "\<And>j. (\<And>y x. 0 \<le> y \<Longrightarrow> y < 20 \<Longrightarrow> 0 \<le> x \<Longrightarrow> x < 40 \<Longrightarrow> int j \<noteq> 921600 + (325 + y) * 1280 + bx div 2 * 2 + x * 2 \<and>
      int j \<noteq> 921600 + (325 + y) * 1280 + bx div 2 * 2 + x * 2 + 1) \<Longrightarrow> d4 ! j = d3 ! j"
    by (rule draw_pairs [where u = "\<lambda>_ _. Some 128" and v = "\<lambda>_ _. Some 128" and base = 921600 and oy = 325 and ox = "bx div 2 * 2" and W = 1280
          and h = 20 and w = 40 and b = d3]) (use hb d3(2) d2(2) d1(2) l0 in auto)
  show thesis
  proof (rule that [of d4])
    have uv: "921600 + ((650 div 2 + r) * (kWidth div 2) + (bx div 2 + c)) * 2 = 921600 + (325 + r) * 1280 + bx div 2 * 2 + c * 2" for r c
      by (simp add: sizes)
    have b1: "draw_until (\<lambda>r. 650 + r \<ge> kHeight) 40 80 body = draw 40 80 body" "draw_until (\<lambda>r. 650 div 2 + r \<ge> kHeight div 2) 20 40 body = draw 20 40 body" for body
      by (rule draw_until_all; simp add: sizes)+
    have "memcpy_at 921600 (tp_baseBarsUV g) 0 460800 d1 = Some d2" using d2(1) unfolding memcpy_at_def .
    then show "GenerateFrame g out frameIndex = Some d4"
      unfolding GenerateFrame_def Let_def b1 n bx_def [symmetric] using d1(1) d3(1) d4(1) uv by (simp add: sizes add.assoc mult.commute)
    show "int (length d4) = kPayloadBytes" using d4(2) d3(2) d2(2) d1(2) l0 by (simp add: sizes)
    show "d4 ! nat (y * kWidth + x) =
        (if 650 \<le> y \<and> y < 690 \<and> box_x frameIndex \<le> x \<and> x < box_x frameIndex + 80 then 235 else base_luma y x)"
      if yx: "0 \<le> y" "y < kHeight" "0 \<le> x" "x < kWidth" for y x
    proof -
      let ?j = "nat (y * kWidth + x)"
      have j: "int ?j = y * 1280 + x" "int ?j < 921600" using yx by (simp_all add: sizes)
      have "d4 ! ?j = d3 ! ?j"
      proof (rule d4(3))
        show "int ?j \<noteq> 921600 + (325 + y') * 1280 + bx div 2 * 2 + x' * 2 \<and> int ?j \<noteq> 921600 + (325 + y') * 1280 + bx div 2 * 2 + x' * 2 + 1"
          if "0 \<le> y'" "0 \<le> x'" for y' x'
          by (rule beyond_luma [OF that hb(1) j(2)])
      qed
      moreover have "d3 ! ?j = (if 650 \<le> y \<and> y < 690 \<and> bx \<le> x \<and> x < bx + 80 then 235 else d2 ! ?j)"
      proof (cases "650 \<le> y \<and> y < 690 \<and> bx \<le> x \<and> x < bx + 80")
        case True
        then show ?thesis using d3(3) [of "y - 650" "x - bx"] by (simp add: sizes)
      next
        case False
        have "d3 ! ?j = d2 ! ?j"
        proof (rule d3(4))
          show "int ?j \<noteq> 0 + (650 + y') * 1280 + bx + x'" if "0 \<le> y'" "y' < 40" "0 \<le> x'" "x' < 80" for y' x'
          proof
            assume "int ?j = 0 + (650 + y') * 1280 + bx + x'"
            then have "y = 650 + y' \<and> x = bx + x'"
              using place_unique [of y 1280 x "650 + y'" "bx + x'"] that yx bx unfolding j(1) by (simp add: sizes)
            then show False using False that by simp
          qed
        qed
        then show ?thesis using False by auto
      qed
      moreover have "d2 ! ?j = base_luma y x"
      proof -
        have "d2 ! ?j = d1 ! ?j" by (rule d2(3)) (use j(2) in simp)
        then show ?thesis using d1(3) [OF j(2)] g(3) [OF yx] by simp
      qed
      ultimately show ?thesis unfolding bx_def by auto
    qed
  qed
qed

end
