(* ===== verification/FramePipe.thy ===== *)
theory FramePipe
  imports PixelConverter "HOL-Library.Sublist"
begin

text \<open>
  The frame pipe between the Windows receiver and the virtual camera: the 64-byte header of
  \<open>src/windows/common/frame_pipe_protocol.h\<close>, the publisher
  \<open>src/windows/receiver/media/pipe_publisher.cpp\<close> and the reader
  \<open>src/windows/virtual-camera/media-source/pipe_frame_receiver.cpp\<close>. The operating system is an
  environment: every call to it takes its answer from the environment of the step. Each
  thread is a program counter with one step per pass of its loop; the critical sections are
  atomic. A connected pipe is the sequence of bytes the server has put into it, of which the client
  has read a prefix.
\<close>

section \<open>The frame header\<close>

text \<open>\<open>int64_t\<close> as its 64 bits. Both machines are little-endian, and the structure is packed.\<close>

record FrameHeader =
  fh_magic :: bytes
  fh_version :: u16
  fh_headerSize :: u16
  fh_flags :: u32
  fh_sequence :: u64
  fh_captureTimeUs :: u64
  fh_width :: u32
  fh_height :: u32
  fh_fourcc :: u32
  fh_strideY :: u32
  fh_strideUV :: u32
  fh_payloadBytes :: u32
  fh_headerCrc32 :: u32
  fh_payloadCrc32 :: u32

definition kMagic :: bytes where
  "kMagic = str ''WRTCVF01''"

definition kHeaderSize :: nat where
  "kHeaderSize = 64"

fun put_le :: "nat \<Rightarrow> 'w::len word \<Rightarrow> bytes" where
  "put_le 0 v = []"
| "put_le (Suc n) v = ucast v # put_le n (drop_bit 8 v)"

fun get_le :: "bytes \<Rightarrow> 'w::len word" where
  "get_le [] = 0"
| "get_le (b # bs) = ucast b OR push_bit 8 (get_le bs)"

definition SerializeHeader :: "FrameHeader \<Rightarrow> bytes" where
  "SerializeHeader h =
     fh_magic h @ put_le 2 (fh_version h) @ put_le 2 (fh_headerSize h) @ put_le 4 (fh_flags h) @
     put_le 8 (fh_sequence h) @ put_le 8 (fh_captureTimeUs h) @ put_le 4 (fh_width h) @ put_le 4 (fh_height h) @
     put_le 4 (fh_fourcc h) @ put_le 4 (fh_strideY h) @ put_le 4 (fh_strideUV h) @ put_le 4 (fh_payloadBytes h) @
     put_le 4 (fh_headerCrc32 h) @ put_le 4 (fh_payloadCrc32 h)"

text \<open>\<open>memcpy(&header, buffer.data(), kHeaderSize)\<close>.\<close>

definition read_header :: "bytes \<Rightarrow> FrameHeader" where
  "read_header b = \<lparr>fh_magic = subspan b 0 8, fh_version = get_le (subspan b 8 2), fh_headerSize = get_le (subspan b 10 2),
     fh_flags = get_le (subspan b 12 4), fh_sequence = get_le (subspan b 16 8), fh_captureTimeUs = get_le (subspan b 24 8),
     fh_width = get_le (subspan b 32 4), fh_height = get_le (subspan b 36 4), fh_fourcc = get_le (subspan b 40 4),
     fh_strideY = get_le (subspan b 44 4), fh_strideUV = get_le (subspan b 48 4), fh_payloadBytes = get_le (subspan b 52 4),
     fh_headerCrc32 = get_le (subspan b 56 4), fh_payloadCrc32 = get_le (subspan b 60 4)\<rparr>"

definition DeserializeAndValidateHeader :: "bytes \<Rightarrow> FrameHeader option" where
  "DeserializeAndValidateHeader buffer =
     (if length buffer < kHeaderSize then None
      else
        let header = read_header buffer in
        if fh_magic header \<noteq> kMagic then None
        else if fh_version header \<noteq> 1 \<or> fh_headerSize header \<noteq> of_nat kHeaderSize then None
        else if fh_width header \<noteq> of_int kWidth \<or> fh_height header \<noteq> of_int kHeight then None
        else if fh_fourcc header \<noteq> 0x3231564E then None
        else if fh_strideY header \<noteq> 1280 \<or> fh_strideUV header \<noteq> 1280 then None
        else if fh_payloadBytes header \<noteq> of_int kPayloadBytes then None
        else if fh_flags header AND NOT 0x0F \<noteq> 0 then None
        else Some header)"

definition CreateDefaultHeader :: "u64 \<Rightarrow> u64 \<Rightarrow> u32 \<Rightarrow> FrameHeader" where
  "CreateDefaultHeader sequence captureTimeUs flags =
     \<lparr>fh_magic = kMagic, fh_version = 1, fh_headerSize = of_nat kHeaderSize, fh_flags = flags, fh_sequence = sequence,
      fh_captureTimeUs = captureTimeUs, fh_width = of_int kWidth, fh_height = of_int kHeight, fh_fourcc = 0x3231564E,
      fh_strideY = 1280, fh_strideUV = 1280, fh_payloadBytes = of_int kPayloadBytes, fh_headerCrc32 = 0,
      fh_payloadCrc32 = 0\<rparr>"

section \<open>Overlapped input and output\<close>

text \<open>
  The answer of one \<open>WriteFile\<close> or \<open>ReadFile\<close>: completed at once (with the count of
  \<open>GetOverlappedResult\<close>, or its failure), completed after a wait, interrupted by the stop event
  (\<open>CancelIo\<close>, with the bytes that went through before), or refused. The list of answers ends when
  \<open>isRunning_\<close> is found false at the loop's test. A transfer never exceeds the request.
\<close>

datatype io = IoDone "nat option" | IoPending "nat option" | IoCancelled nat | IoError

definition transferred :: "io \<Rightarrow> nat option" where
  "transferred a = (case a of IoDone r \<Rightarrow> r | IoPending r \<Rightarrow> r | IoCancelled n \<Rightarrow> None | IoError \<Rightarrow> None)"

definition cancelled :: "io \<Rightarrow> nat" where
  "cancelled a = (case a of IoCancelled n \<Rightarrow> n | _ \<Rightarrow> 0)"

text \<open>\<open>WriteExact\<close>: the bytes that reach the pipe and the result.\<close>

fun WriteExact :: "io list \<Rightarrow> bytes \<Rightarrow> bytes \<times> bool" where
  "WriteExact answers [] = ([], True)"
| "WriteExact [] (b # bs) = ([], False)"
| "WriteExact (a # answers) (b # bs) =
     (case transferred a of
        None \<Rightarrow> (take (cancelled a) (b # bs), False)
      | Some n \<Rightarrow>
          if n = 0 then ([], False)
          else (case WriteExact answers (drop n (b # bs)) of (sent, ok) \<Rightarrow> (take n (b # bs) @ sent, ok)))"

text \<open>\<open>ReadExact\<close>: what was read of the \<open>need\<close> bytes, the result and what is left in the pipe.\<close>

fun ReadExact :: "io list \<Rightarrow> nat \<Rightarrow> bytes \<Rightarrow> bytes \<times> bool \<times> bytes" where
  "ReadExact answers 0 s = ([], True, s)"
| "ReadExact [] (Suc need) s = ([], False, s)"
| "ReadExact (a # answers) (Suc need) s =
     (case transferred a of
        None \<Rightarrow> (take (min (cancelled a) (Suc need)) s, False, drop (min (cancelled a) (Suc need)) s)
      | Some n \<Rightarrow>
          let got = take (min n (Suc need)) s in
          if got = [] then ([], False, s)
          else (case ReadExact answers (Suc need - length got) (drop (length got) s) of (b, ok, rest) \<Rightarrow> (got @ b, ok, rest)))"

section \<open>The publisher\<close>

text \<open>\<open>PipePublisher\<close>. \<open>pp_device\<close>: \<open>d3dDevice_\<close> and \<open>d3dContext_\<close> are set; they, the DXGI texture
  and the video processor are other components, called with the frames listed in the results. The
  frame event only shortens the server's wait of 33 ms and is part of that wait's answer.\<close>

record PipePublisher =
  pp_running :: bool
  pp_device :: bool
  pp_payload :: bytes
  pp_sequence :: u64
  pp_time :: u64

datatype pub_call = ShmOpen | ShmPublish bytes u64 | ShmClose | DxgiInit | DxgiPublish bytes u64 | DxgiClose

definition black_frame :: bytes where
  "black_frame = the (FillBlackNv12 kPayloadBytes (replicate (nat kPayloadBytes) 0))"

definition PipePublisher_init :: PipePublisher where
  "PipePublisher_init = \<lparr>pp_running = False, pp_device = False, pp_payload = black_frame, pp_sequence = 0, pp_time = 0\<rparr>"

text \<open>\<open>deviceOk\<close>: \<open>D3D11CreateDevice\<close> succeeds.\<close>

definition pp_Start :: "bool \<Rightarrow> PipePublisher \<Rightarrow> PipePublisher \<times> pub_call list" where
  "pp_Start deviceOk p =
     (if pp_running p then (p, [])
      else if pp_device p then (p\<lparr>pp_running := True\<rparr>, [ShmOpen])
      else if deviceOk then (p\<lparr>pp_running := True, pp_device := True\<rparr>, [ShmOpen, DxgiInit])
      else (p\<lparr>pp_running := True\<rparr>, [ShmOpen]))"

definition pp_Stop :: "PipePublisher \<Rightarrow> PipePublisher \<times> pub_call list" where
  "pp_Stop p = (if \<not> pp_running p then (p, []) else (p\<lparr>pp_running := False, pp_device := False\<rparr>, [DxgiClose, ShmClose]))"

definition pp_PublishFrame :: "bool \<Rightarrow> bytes option \<Rightarrow> u64 \<Rightarrow> PipePublisher \<Rightarrow> PipePublisher \<times> pub_call list" where
  "pp_PublishFrame dxgiReady nv12Data captureTimeUs p =
     (case nv12Data of
        None \<Rightarrow> (p, [])
      | Some data \<Rightarrow>
          if int (length data) \<noteq> kPayloadBytes \<or> \<not> pp_running p then (p, [])
          else
            (p\<lparr>pp_payload := data, pp_sequence := pp_sequence p + 1, pp_time := captureTimeUs\<rparr>,
             (if dxgiReady \<and> pp_device p then [DxgiPublish data captureTimeUs] else []) @ [ShmPublish data captureTimeUs]))"

text \<open>\<open>slot\<close>: the free slot has a texture and could be locked; \<open>processed\<close>: the video processor is
  supported and drew into it.\<close>

definition pp_PublishGpuTexture :: "bool \<Rightarrow> bool \<Rightarrow> bool \<Rightarrow> bool \<Rightarrow> u64 \<Rightarrow> PipePublisher \<Rightarrow> PipePublisher \<times> bool" where
  "pp_PublishGpuTexture texture dxgiReady slot processed captureTimeUs p =
     (if \<not> texture \<or> \<not> pp_running p then (p, False)
      else (p\<lparr>pp_sequence := pp_sequence p + 1, pp_time := captureTimeUs\<rparr>, dxgiReady \<and> pp_device p \<and> slot \<and> processed))"

section \<open>The server thread\<close>

datatype server_pc = AtCreate | AtConnect | AtServe | AtExit

record PipeServer =
  sv_pc :: server_pc
  sv_standby :: u64
  sv_sent :: bytes

text \<open>The answers of one pass: \<open>isRunning_\<close> at the loop's test, whether \<open>CreateNamedPipeW\<close> gave a
  handle, whether the wait ended because of a stop, the answer of \<open>ConnectNamedPipe\<close>, the clock, and
  those of the two writes.\<close>

datatype connect_answer = Connected | ConnectPending | ConnectAlready | ConnectError

record ServerEnv =
  se_running :: bool
  se_pipe :: bool
  se_stop :: bool
  se_connect :: connect_answer
  se_tick :: u64
  se_header :: "io list"
  se_payload :: "io list"

definition serve_frame :: "ServerEnv \<Rightarrow> PipePublisher \<Rightarrow> PipeServer \<Rightarrow> PipeServer" where
  "serve_frame e p s =
     (let framePayload = pp_payload p;
          standby = (pp_sequence p = 0);
          standbySeq = (if standby then sv_standby s + 1 else sv_standby s);
          seq = (if standby then standbySeq else pp_sequence p);
          tsUs = (if standby then se_tick e * 1000 else pp_time p);
          (sentH, okH) = WriteExact (se_header e) (SerializeHeader (CreateDefaultHeader seq tsUs 0)) in
      if \<not> okH then s\<lparr>sv_standby := standbySeq, sv_sent := sv_sent s @ sentH, sv_pc := AtCreate\<rparr>
      else
        let (sentP, okP) = WriteExact (se_payload e) framePayload in
        s\<lparr>sv_standby := standbySeq, sv_sent := sv_sent s @ sentH @ sentP, sv_pc := (if okP then AtServe else AtCreate)\<rparr>)"

definition server_step :: "ServerEnv \<Rightarrow> PipePublisher \<Rightarrow> PipeServer \<Rightarrow> PipeServer" where
  "server_step e p s =
     (case sv_pc s of
        AtCreate \<Rightarrow>
          if \<not> se_running e then s\<lparr>sv_pc := AtExit\<rparr>
          else if \<not> se_pipe e then s\<lparr>sv_pc := (if se_stop e then AtExit else AtCreate)\<rparr>
          else s\<lparr>sv_pc := AtConnect, sv_sent := []\<rparr>
      | AtConnect \<Rightarrow>
          (case se_connect e of
             Connected \<Rightarrow> s\<lparr>sv_pc := AtServe\<rparr>
           | ConnectPending \<Rightarrow> s\<lparr>sv_pc := (if se_stop e then AtExit else AtServe)\<rparr>
           | ConnectAlready \<Rightarrow> s\<lparr>sv_pc := AtServe\<rparr>
           | ConnectError \<Rightarrow> s\<lparr>sv_pc := AtCreate\<rparr>)
      | AtServe \<Rightarrow>
          if \<not> se_running e \<or> se_stop e then s\<lparr>sv_pc := AtCreate\<rparr>
          else serve_frame e p s
      | AtExit \<Rightarrow> s)"

section \<open>The reader\<close>

datatype reader_pc = AtOpen | AtRead | AtDone

text \<open>\<open>pr_got\<close> is everything that has arrived on the present connection, \<open>pr_in\<close> what of it is unread.\<close>

record PipeFrameReceiver =
  pr_pc :: reader_pc
  pr_buffer :: bytes
  pr_sequence :: u64
  pr_time :: u64
  pr_arrival :: u64
  pr_valid :: bool
  pr_got :: bytes
  pr_in :: bytes

record ReaderEnv =
  re_running :: bool
  re_open :: bool
  re_stop :: bool
  re_arrived :: bytes
  re_tick :: u64
  re_header :: "io list"
  re_payload :: "io list"

definition PipeFrameReceiver_init :: PipeFrameReceiver where
  "PipeFrameReceiver_init = \<lparr>pr_pc = AtOpen, pr_buffer = black_frame, pr_sequence = 0, pr_time = 0, pr_arrival = 0,
     pr_valid = False, pr_got = [], pr_in = []\<rparr>"

definition close_pipe :: "PipeFrameReceiver \<Rightarrow> PipeFrameReceiver" where
  "close_pipe r = r\<lparr>pr_pc := AtOpen, pr_valid := False\<rparr>"

text \<open>One pass of the inner loop; any failure leaves it and closes the handle.\<close>

definition receive_frame :: "ReaderEnv \<Rightarrow> PipeFrameReceiver \<Rightarrow> PipeFrameReceiver" where
  "receive_frame e r =
     (let (headerBuffer, okH, rest) = ReadExact (re_header e) kHeaderSize (pr_in r) in
      if \<not> okH then close_pipe r
      else case DeserializeAndValidateHeader headerBuffer of
        None \<Rightarrow> close_pipe r
      | Some header \<Rightarrow>
          let (scratchPayload, okP, rest') = ReadExact (re_payload e) (nat kPayloadBytes) rest in
          if \<not> okP then close_pipe r
          else r\<lparr>pr_in := rest', pr_buffer := scratchPayload, pr_sequence := fh_sequence header,
                 pr_time := fh_captureTimeUs header, pr_arrival := re_tick e, pr_valid := True\<rparr>)"

definition reader_step :: "ReaderEnv \<Rightarrow> PipeFrameReceiver \<Rightarrow> PipeFrameReceiver" where
  "reader_step e r =
     (case pr_pc r of
        AtOpen \<Rightarrow>
          if \<not> re_running e then r\<lparr>pr_pc := AtDone\<rparr>
          else if \<not> re_open e then r\<lparr>pr_pc := (if re_stop e then AtDone else AtOpen)\<rparr>
          else r\<lparr>pr_pc := AtRead, pr_got := [], pr_in := []\<rparr>
      | AtRead \<Rightarrow>
          if \<not> re_running e then close_pipe r
          else receive_frame e (r\<lparr>pr_got := pr_got r @ re_arrived e, pr_in := pr_in r @ re_arrived e\<rparr>)
      | AtDone \<Rightarrow> r)"

text \<open>\<open>GetLatestFrame\<close>: the result, the buffer, the sequence number and the time.\<close>

definition pr_GetLatestFrame :: "u64 \<Rightarrow> PipeFrameReceiver \<Rightarrow> bool \<times> bytes \<times> u64 \<times> u64" where
  "pr_GetLatestFrame now r =
     (if \<not> pr_valid r \<or> now - pr_arrival r > 2000 then (False, black_frame, pr_sequence r, pr_time r)
      else (True, pr_buffer r, pr_sequence r, pr_time r))"

section \<open>Headers round trip\<close>

lemma length_put_le [simp]: "length (put_le n v) = n"
  by (induction n v rule: put_le.induct) simp_all

lemma get_put_le: "get_le (put_le n (v :: 'w::len word)) = take_bit (8 * n) v"
proof (induction n v rule: put_le.induct)
  case (2 n v)
  have "ucast (ucast v :: u8) OR push_bit 8 (take_bit (8 * n) (drop_bit 8 v)) = take_bit (8 * Suc n) v"
    by (rule bit_word_eqI) (auto simp: bit_simps)
  then show ?case using 2 by simp
qed simp

lemma get_put_le_id [simp]:
  "get_le (put_le 2 (v2 :: u16)) = v2" "get_le (put_le 4 (v4 :: u32)) = v4" "get_le (put_le 8 (v8 :: u64)) = v8"
  by (simp_all only: get_put_le) (simp_all add: take_bit_word_eq_self)

lemma length_SerializeHeader: "length (fh_magic h) = 8 \<Longrightarrow> length (SerializeHeader h) = kHeaderSize"
  by (simp add: SerializeHeader_def kHeaderSize_def)

lemma subspan_skip: "length xs \<le> p \<Longrightarrow> subspan (xs @ ys) p n = subspan ys (p - length xs) n"
  by (simp add: subspan_def)

lemma subspan_front: "length xs = n \<Longrightarrow> subspan (xs @ ys) 0 n = xs"
  by (simp add: subspan_def)

lemma read_SerializeHeader:
  assumes "length (fh_magic h) = 8"
  shows "read_header (SerializeHeader h @ rest) = h"
  using assms unfolding read_header_def SerializeHeader_def append_assoc
  by (simp add: subspan_skip subspan_front)

definition valid_header :: "FrameHeader \<Rightarrow> bool" where
  "valid_header h \<longleftrightarrow> h = CreateDefaultHeader (fh_sequence h) (fh_captureTimeUs h) (fh_flags h)
     \<lparr>fh_headerCrc32 := fh_headerCrc32 h, fh_payloadCrc32 := fh_payloadCrc32 h\<rparr> \<and> fh_flags h AND NOT 0x0F = 0"

lemma valid_header_iff:
  "valid_header h \<longleftrightarrow> fh_magic h = kMagic \<and> fh_version h = 1 \<and> fh_headerSize h = of_nat kHeaderSize \<and> fh_width h = of_int kWidth \<and>
     fh_height h = of_int kHeight \<and> fh_fourcc h = 0x3231564E \<and> fh_strideY h = 1280 \<and> fh_strideUV h = 1280 \<and>
     fh_payloadBytes h = of_int kPayloadBytes \<and> fh_flags h AND NOT 0x0F = 0"
  unfolding valid_header_def by (cases h) (auto simp: CreateDefaultHeader_def)

lemma length_kMagic: "length kMagic = 8"
  by (simp add: kMagic_def)

lemma Deserialize_Serialize:
  assumes "length (fh_magic h) = 8"
  shows "DeserializeAndValidateHeader (SerializeHeader h @ rest) = (if valid_header h then Some h else None)"
  unfolding DeserializeAndValidateHeader_def read_SerializeHeader [OF assms] Let_def valid_header_iff
  using length_SerializeHeader [OF assms] by simp

section \<open>Transfers\<close>

lemma WriteExact_prefix: "WriteExact answers b = (sent, ok) \<Longrightarrow> prefix sent b \<and> (ok \<longrightarrow> sent = b)"
proof (induction answers b arbitrary: sent ok rule: WriteExact.induct)
  case (3 a answers b bs)
  show ?case
  proof (cases "transferred a")
    case None
    with 3(2) have "sent = take (cancelled a) (b # bs)" "\<not> ok" by simp_all
    then show ?thesis by (simp add: take_is_prefix)
  next
    case (Some n)
    show ?thesis
    proof (cases "n = 0")
      case True
      with 3(2) Some show ?thesis by simp
    next
      case False
      obtain s' ok' where w: "WriteExact answers (drop n (b # bs)) = (s', ok')" by fastforce
      then have "sent = take n (b # bs) @ s'" "ok = ok'" using 3(2) Some False by simp_all
      moreover have "take n (b # bs) @ drop n (b # bs) = b # bs" by (rule append_take_drop_id)
      ultimately show ?thesis using 3(1) [OF Some False w] by (metis same_prefix_prefix)
    qed
  qed
qed auto

lemma ReadExact_splits: "ReadExact answers need s = (b, ok, rest) \<Longrightarrow> s = b @ rest \<and> length b \<le> need \<and> (ok \<longrightarrow> length b = need)"
proof (induction answers need s arbitrary: b ok rest rule: ReadExact.induct)
  case (3 a answers need s)
  show ?case
  proof (cases "transferred a")
    case None
    with 3(2) have "b = take (min (cancelled a) (Suc need)) s" "rest = drop (min (cancelled a) (Suc need)) s" "\<not> ok" by auto
    then show ?thesis by simp
  next
    case (Some n)
    define got where "got = take (min n (Suc need)) s"
    have l: "length got \<le> Suc need" and d: "s = got @ drop (length got) s"
      unfolding got_def by (simp, metis append_eq_conv_conj append_take_drop_id)
    have r: "(if got = [] then ([], False, s)
      else (case ReadExact answers (Suc need - length got) (drop (length got) s) of (b, ok, rest) \<Rightarrow> (got @ b, ok, rest))) = (b, ok, rest)"
      using 3(2) unfolding ReadExact.simps(3) Some option.case Let_def got_def .
    show ?thesis
    proof (cases "got = []")
      case True
      with r show ?thesis by auto
    next
      case False
      obtain b' ok' rest' where w: "ReadExact answers (Suc need - length got) (drop (length got) s) = (b', ok', rest')" by (metis prod_cases3)
      have e: "b = got @ b'" "ok = ok'" "rest = rest'" using r [unfolded if_not_P [OF False] w] by simp_all
      from 3(1) [OF Some got_def False w] have "drop (length got) s = b' @ rest'"
        "length b' \<le> Suc need - length got" "ok' \<longrightarrow> length b' = Suc need - length got" by simp_all
      then show ?thesis using e d l by (metis append.assoc le_add_diff_inverse length_append nat_add_left_cancel_le)
    qed
  qed
qed auto

section \<open>What the server writes\<close>

type_synonym frame = "u64 \<times> u64 \<times> bytes"

definition frame_record :: "frame \<Rightarrow> bytes" where
  "frame_record f = (case f of (seq, time, payload) \<Rightarrow> SerializeHeader (CreateDefaultHeader seq time 0) @ payload)"

definition good_frame :: "bytes set \<Rightarrow> frame \<Rightarrow> bool" where
  "good_frame P f \<longleftrightarrow> snd (snd f) \<in> P \<and> int (length (snd (snd f))) = kPayloadBytes"

text \<open>The stream of a connection: whole frames whose payloads are from \<open>P\<close>, the last perhaps cut off.\<close>

definition pipe_stream :: "bytes set \<Rightarrow> bytes \<Rightarrow> bool" where
  "pipe_stream P s \<longleftrightarrow> (\<exists>fs. prefix s (concat (map frame_record fs)) \<and> list_all (good_frame P) fs)"

definition whole_frames :: "bytes set \<Rightarrow> bytes \<Rightarrow> bool" where
  "whole_frames P s \<longleftrightarrow> (\<exists>fs. s = concat (map frame_record fs) \<and> list_all (good_frame P) fs)"

lemma good_frame_mono: "P \<subseteq> Q \<Longrightarrow> list_all (good_frame P) fs \<Longrightarrow> list_all (good_frame Q) fs"
  by (induction fs) (auto simp: good_frame_def)

lemma pipe_stream_mono: "P \<subseteq> Q \<Longrightarrow> pipe_stream P s \<Longrightarrow> pipe_stream Q s"
  using good_frame_mono unfolding pipe_stream_def by blast

lemma whole_frames_mono: "P \<subseteq> Q \<Longrightarrow> whole_frames P s \<Longrightarrow> whole_frames Q s"
  using good_frame_mono unfolding whole_frames_def by blast

lemma whole_frames_stream: "whole_frames P s \<Longrightarrow> pipe_stream P s"
  unfolding whole_frames_def pipe_stream_def by blast

lemma pipe_stream_prefix: "pipe_stream P s \<Longrightarrow> prefix t s \<Longrightarrow> pipe_stream P t"
  unfolding pipe_stream_def by (meson prefix_order.trans)

lemma whole_frames_empty [simp]: "whole_frames P []"
  unfolding whole_frames_def by (intro exI [of _ "[]"]) simp

lemma whole_frames_snoc:
  assumes "whole_frames P s" "good_frame P f"
  shows "whole_frames P (s @ frame_record f)" "prefix t (frame_record f) \<Longrightarrow> pipe_stream P (s @ t)"
proof -
  obtain fs where fs: "s = concat (map frame_record fs)" "list_all (good_frame P) fs" using assms(1) by (auto simp: whole_frames_def)
  then have "s @ frame_record f = concat (map frame_record (fs @ [f]))" "list_all (good_frame P) (fs @ [f])" using assms(2) by simp_all
  then show w: "whole_frames P (s @ frame_record f)" unfolding whole_frames_def by blast
  show "pipe_stream P (s @ t)" if "prefix t (frame_record f)"
    by (rule pipe_stream_prefix [OF whole_frames_stream [OF w]]) (simp add: that)
qed

definition server_inv :: "bytes set \<Rightarrow> PipeServer \<Rightarrow> bool" where
  "server_inv P s \<longleftrightarrow> pipe_stream P (sv_sent s) \<and> (sv_pc s \<in> {AtConnect, AtServe} \<longrightarrow> whole_frames P (sv_sent s))"

lemma serve_frame_inv:
  assumes "whole_frames P (sv_sent s)" "pp_payload p \<in> P" "int (length (pp_payload p)) = kPayloadBytes"
  shows "server_inv P (serve_frame e p s)"
proof -
  let ?standby = "if pp_sequence p = 0 then sv_standby s + 1 else sv_standby s"
  let ?f = "(if pp_sequence p = 0 then ?standby else pp_sequence p, if pp_sequence p = 0 then se_tick e * 1000 else pp_time p, pp_payload p)"
  let ?h = "SerializeHeader (CreateDefaultHeader (fst ?f) (fst (snd ?f)) 0)"
  have f: "good_frame P ?f" "frame_record ?f = ?h @ pp_payload p" using assms(2,3) by (simp_all add: good_frame_def frame_record_def)
  obtain sentH okH where h: "WriteExact (se_header e) ?h = (sentH, okH)" by fastforce
  obtain sentP okP where q: "WriteExact (se_payload e) (pp_payload p) = (sentP, okP)" by fastforce
  note hp = WriteExact_prefix [OF h] and qp = WriteExact_prefix [OF q]
  have r: "serve_frame e p s =
      (if \<not> okH then s\<lparr>sv_standby := ?standby, sv_sent := sv_sent s @ sentH, sv_pc := AtCreate\<rparr>
       else s\<lparr>sv_standby := ?standby, sv_sent := sv_sent s @ sentH @ sentP, sv_pc := (if okP then AtServe else AtCreate)\<rparr>)"
    using h q by (simp add: serve_frame_def Let_def)
  have pre: "prefix sentH (frame_record ?f)" "okH \<Longrightarrow> prefix (sentH @ sentP) (frame_record ?f)" "okH \<Longrightarrow> okP \<Longrightarrow> sentH @ sentP = frame_record ?f"
    using hp qp unfolding f(2) by (auto simp: prefix_append)
  show ?thesis
    using whole_frames_snoc [OF assms(1) f(1)] pre unfolding r server_inv_def by auto
qed

lemma server_step_inv:
  assumes "server_inv P s" "pp_payload p \<in> P" "int (length (pp_payload p)) = kPayloadBytes"
  shows "server_inv P (server_step e p s)"
proof (cases "sv_pc s = AtServe \<and> se_running e \<and> \<not> se_stop e")
  case True
  then have "whole_frames P (sv_sent s)" using assms(1) by (simp add: server_inv_def)
  from serve_frame_inv [OF this assms(2,3)] show ?thesis using True by (simp add: server_step_def)
next
  case False
  then show ?thesis using assms(1) whole_frames_stream [OF whole_frames_empty, of P]
    by (auto simp: server_step_def server_inv_def split: server_pc.splits connect_answer.splits)
qed

section \<open>What the reader makes of it\<close>

lemma block_nth:
  "\<forall>x \<in> set xs. length x = L \<Longrightarrow> k < length xs \<Longrightarrow> take L (drop (k * L) (concat xs)) = xs ! k"
proof (induction xs arbitrary: k)
  case (Cons x xs)
  then show ?case by (cases k) (auto simp: add.commute)
qed simp

lemma block_length: "\<forall>x \<in> set xs. length x = L \<Longrightarrow> length (concat xs) = length xs * L"
  by (induction xs) auto

lemma prefix_block:
  assumes "prefix g (concat xs)" "\<forall>x \<in> set xs. length x = L" "k * L + L \<le> length g" "0 < L"
  shows "k < length xs \<and> take L (drop (k * L) g) = xs ! k"
proof -
  obtain z where z: "concat xs = g @ z" using assms(1) by (auto simp: prefix_def)
  have "Suc k * L \<le> length xs * L" using assms(3) block_length [OF assms(2)] z by simp
  then have k: "k < length xs" using assms(4) by (meson Suc_le_eq mult_le_cancel2)
  have "take L (drop (k * L) (g @ z)) = take L (drop (k * L) g)" using assms(3) by simp
  with block_nth [OF assms(2) k] z k show ?thesis by simp
qed

definition record_size :: nat where
  "record_size = kHeaderSize + nat kPayloadBytes"

lemma frame_record_length: "good_frame P f \<Longrightarrow> length (frame_record f) = record_size"
  by (cases f) (auto simp: frame_record_def good_frame_def record_size_def length_SerializeHeader CreateDefaultHeader_def length_kMagic)

lemma Deserialize_frame:
  "DeserializeAndValidateHeader (SerializeHeader (CreateDefaultHeader seq time 0)) = Some (CreateDefaultHeader seq time 0)"
proof -
  have "length (fh_magic (CreateDefaultHeader seq time 0)) = 8" by (simp add: CreateDefaultHeader_def length_kMagic)
  from Deserialize_Serialize [OF this, of "[]"] show ?thesis by (simp add: valid_header_iff CreateDefaultHeader_def)
qed

definition reader_inv :: "bytes set \<Rightarrow> PipeFrameReceiver \<Rightarrow> bool" where
  "reader_inv P r \<longleftrightarrow> (pr_pc r = AtRead \<longrightarrow> (\<exists>k. k * record_size \<le> length (pr_got r) \<and> drop (k * record_size) (pr_got r) = pr_in r)) \<and>
     (pr_valid r \<longrightarrow> pr_pc r = AtRead \<and> pr_buffer r \<in> P \<and> int (length (pr_buffer r)) = kPayloadBytes)"

lemma close_pipe_inv: "reader_inv P (close_pipe r)"
  by (simp add: reader_inv_def close_pipe_def)

text \<open>A complete header and payload read from such a stream are those of the next frame: the header
  is accepted and the payload is the publisher's, whole.\<close>

lemma receive_frame_inv:
  assumes inv: "reader_inv P r" "pr_pc r = AtRead" and st: "pipe_stream P (pr_got r)"
  shows "reader_inv P (receive_frame e r)"
    and "ReadExact (re_header e) kHeaderSize (pr_in r) = (b, True, rest) \<Longrightarrow> pr_valid (receive_frame e r) \<or>
      \<not> fst (snd (ReadExact (re_payload e) (nat kPayloadBytes) rest))"
proof -
  obtain k where k: "k * record_size \<le> length (pr_got r)" "drop (k * record_size) (pr_got r) = pr_in r"
    using inv by (auto simp: reader_inv_def)
  obtain fs where fs: "prefix (pr_got r) (concat (map frame_record fs))" "list_all (good_frame P) fs"
    using st by (auto simp: pipe_stream_def)
  have bl: "\<forall>x \<in> set (map frame_record fs). length x = record_size" using fs(2) by (auto simp: list_all_iff frame_record_length)
  obtain hb okH rest where h: "ReadExact (re_header e) kHeaderSize (pr_in r) = (hb, okH, rest)" by (metis prod_cases3)
  obtain sp okP rest' where q: "ReadExact (re_payload e) (nat kPayloadBytes) rest = (sp, okP, rest')" by (metis prod_cases3)
  note hs = ReadExact_splits [OF h] and qs = ReadExact_splits [OF q]
  have step: "receive_frame e r = (if \<not> okH then close_pipe r
      else case DeserializeAndValidateHeader hb of None \<Rightarrow> close_pipe r
      | Some header \<Rightarrow> if \<not> okP then close_pipe r
          else r\<lparr>pr_in := rest', pr_buffer := sp, pr_sequence := fh_sequence header,
                 pr_time := fh_captureTimeUs header, pr_arrival := re_tick e, pr_valid := True\<rparr>)"
    unfolding receive_frame_def h Let_def prod.case q ..
  have next_frame: "\<exists>f. good_frame P f \<and> hb = SerializeHeader (CreateDefaultHeader (fst f) (fst (snd f)) 0) \<and> sp = snd (snd f) \<and>
      (k + 1) * record_size \<le> length (pr_got r) \<and> drop ((k + 1) * record_size) (pr_got r) = rest'" if "okH" "okP"
  proof -
    have l: "length hb = kHeaderSize" "length sp = nat kPayloadBytes" "pr_in r = hb @ sp @ rest'" using hs qs that by auto
    have len: "k * record_size + record_size \<le> length (pr_got r)"
    proof -
      have "length (drop (k * record_size) (pr_got r)) = length (pr_in r)" by (simp add: k(2))
      then show ?thesis using k(1) l by (simp add: record_size_def)
    qed
    have pos: "0 < record_size" by (simp add: record_size_def kHeaderSize_def)
    from prefix_block [OF fs(1) bl len pos] have b: "k < length fs" "take record_size (pr_in r) = frame_record (fs ! k)"
      by (simp_all add: k(2))
    have g: "good_frame P (fs ! k)" using fs(2) b(1) by (simp add: list_all_length)
    obtain q0 t0 p0 where f: "fs ! k = (q0, t0, p0)" by (metis prod_cases3)
    have "hb @ sp = SerializeHeader (CreateDefaultHeader q0 t0 0) @ p0"
      using b(2) l by (simp add: f frame_record_def record_size_def)
    moreover have "length hb = length (SerializeHeader (CreateDefaultHeader q0 t0 0))"
      by (simp add: l(1) length_SerializeHeader CreateDefaultHeader_def length_kMagic)
    ultimately have hp: "hb = SerializeHeader (CreateDefaultHeader q0 t0 0)" "sp = p0" by simp_all
    have "drop record_size (drop (k * record_size) (pr_got r)) = rest'" unfolding k(2) using l by (simp add: record_size_def)
    then have "drop ((k + 1) * record_size) (pr_got r) = rest'" by (simp add: add.commute)
    then show ?thesis using g hp len f by (intro exI [of _ "fs ! k"]) (simp add: add.commute)
  qed
  have accepted: "DeserializeAndValidateHeader hb \<noteq> None" if "okH" "okP" using next_frame [OF that] Deserialize_frame by force
  show "reader_inv P (receive_frame e r)"
  proof (cases "okH \<and> okP")
    case True
    then obtain f header where f: "good_frame P f" "sp = snd (snd f)" "(k + 1) * record_size \<le> length (pr_got r)"
      "drop ((k + 1) * record_size) (pr_got r) = rest'" and hd: "DeserializeAndValidateHeader hb = Some header"
      using next_frame accepted by blast
    have "receive_frame e r = r\<lparr>pr_in := rest', pr_buffer := sp, pr_sequence := fh_sequence header,
                 pr_time := fh_captureTimeUs header, pr_arrival := re_tick e, pr_valid := True\<rparr>"
      using True hd by (simp add: step)
    moreover have "\<exists>k. k * record_size \<le> length (pr_got r) \<and> drop (k * record_size) (pr_got r) = rest'" using f(3,4) by blast
    ultimately show ?thesis using f(1,2) inv(2) unfolding reader_inv_def good_frame_def by simp
  next
    case False
    then have "receive_frame e r = close_pipe r" unfolding step by (auto split: option.splits)
    then show ?thesis by (simp add: close_pipe_inv)
  qed
  show "pr_valid (receive_frame e r) \<or> \<not> fst (snd (ReadExact (re_payload e) (nat kPayloadBytes) rest2))"
    if "ReadExact (re_header e) kHeaderSize (pr_in r) = (b, True, rest2)" for b rest2
  proof -
    have "okH" "rest2 = rest" using that h by simp_all
    then show ?thesis using accepted by (auto simp: step q split: option.splits)
  qed
qed

lemma reader_inv_mono: "P \<subseteq> Q \<Longrightarrow> reader_inv P r \<Longrightarrow> reader_inv Q r"
  unfolding reader_inv_def by blast

lemma reader_step_inv:
  assumes "reader_inv P r" "pipe_stream P (pr_got (reader_step e r))"
  shows "reader_inv P (reader_step e r)"
proof (cases "pr_pc r = AtRead \<and> re_running e")
  case True
  let ?r = "r\<lparr>pr_got := pr_got r @ re_arrived e, pr_in := pr_in r @ re_arrived e\<rparr>"
  have s: "reader_step e r = receive_frame e ?r" using True by (simp add: reader_step_def)
  have "pr_got (receive_frame e x) = pr_got x" for x
    by (simp add: receive_frame_def close_pipe_def Let_def split: prod.splits option.splits)
  then have "pipe_stream P (pr_got ?r)" using assms(2) unfolding s by simp
  moreover obtain k where "k * record_size \<le> length (pr_got r)" "drop (k * record_size) (pr_got r) = pr_in r"
    using assms(1) True by (auto simp: reader_inv_def)
  then have "reader_inv P ?r" using assms(1) unfolding reader_inv_def by (auto intro!: exI [of _ k])
  ultimately show ?thesis unfolding s using True by (intro receive_frame_inv(1)) simp_all
next
  case False
  then show ?thesis using assms(1) close_pipe_inv
    by (auto simp: reader_step_def reader_inv_def split: reader_pc.splits)
qed

section \<open>Publisher, server and reader together\<close>

text \<open>The threads of both programs. \<open>sy_streams\<close> are the streams of all pipe instances so far and
  \<open>sy_published\<close> the frames handed to \<open>PublishFrame\<close>; the bytes a connection delivers are a
  prefix of the stream of one of the instances. \<open>Start\<close> creates a server thread after \<open>Stop\<close> has
  joined the previous one.\<close>

record PipeSystem =
  sy_pub :: PipePublisher
  sy_server :: PipeServer
  sy_reader :: PipeFrameReceiver
  sy_streams :: "bytes list"
  sy_published :: "bytes list"

inductive pipe_system :: "PipeSystem \<Rightarrow> bool" where
  init: "pipe_system \<lparr>sy_pub = PipePublisher_init, sy_server = \<lparr>sv_pc = AtExit, sv_standby = 0, sv_sent = []\<rparr>,
     sy_reader = PipeFrameReceiver_init, sy_streams = [], sy_published = []\<rparr>"
| start: "pipe_system y \<Longrightarrow> sv_pc (sy_server y) = AtExit \<Longrightarrow>
     pipe_system (y\<lparr>sy_pub := fst (pp_Start deviceOk (sy_pub y)), sy_server := \<lparr>sv_pc = AtCreate, sv_standby = 0, sv_sent = []\<rparr>,
       sy_streams := sv_sent (sy_server y) # sy_streams y\<rparr>)"
| stop: "pipe_system y \<Longrightarrow> pipe_system (y\<lparr>sy_pub := fst (pp_Stop (sy_pub y))\<rparr>)"
| publish: "pipe_system y \<Longrightarrow>
     pipe_system (y\<lparr>sy_pub := fst (pp_PublishFrame dxgiReady nv12Data time (sy_pub y)),
       sy_published := (case nv12Data of None \<Rightarrow> sy_published y | Some d \<Rightarrow> d # sy_published y)\<rparr>)"
| gpu: "pipe_system y \<Longrightarrow> pipe_system (y\<lparr>sy_pub := fst (pp_PublishGpuTexture texture dxgiReady slot processed time (sy_pub y))\<rparr>)"
| serve: "pipe_system y \<Longrightarrow>
     pipe_system (y\<lparr>sy_server := server_step e (sy_pub y) (sy_server y), sy_streams := sv_sent (sy_server y) # sy_streams y\<rparr>)"
| read: "pipe_system y \<Longrightarrow> s \<in> set (sv_sent (sy_server y) # sy_streams y) \<Longrightarrow>
     prefix (pr_got (reader_step re (sy_reader y))) s \<Longrightarrow>
     pipe_system (y\<lparr>sy_reader := reader_step re (sy_reader y)\<rparr>)"

definition sy_frames :: "PipeSystem \<Rightarrow> bytes set" where
  "sy_frames y = insert black_frame (set (sy_published y))"

definition system_inv :: "PipeSystem \<Rightarrow> bool" where
  "system_inv y \<longleftrightarrow> pp_payload (sy_pub y) \<in> sy_frames y \<and> int (length (pp_payload (sy_pub y))) = kPayloadBytes \<and>
     server_inv (sy_frames y) (sy_server y) \<and> list_all (pipe_stream (sy_frames y)) (sy_streams y) \<and>
     reader_inv (sy_frames y) (sy_reader y)"

lemma black_frame: "int (length black_frame) = kPayloadBytes" "j < length black_frame \<Longrightarrow>
  black_frame ! j = (if int j < kWidth * kHeight then 16 else 128)"
proof -
  have "int (length (replicate (nat kPayloadBytes) (0::u8))) = kPayloadBytes"
    unfolding length_replicate by (simp add: kPayloadBytes_def kWidth_def kHeight_def)
  then obtain b where b: "FillBlackNv12 kPayloadBytes (replicate (nat kPayloadBytes) 0) = Some b"
    "int (length b) = kPayloadBytes" "\<And>j. j < length b \<Longrightarrow> b ! j = (if int j < kWidth * kHeight then 16 else 128)"
    by (metis black_result)
  then show "int (length black_frame) = kPayloadBytes" "j < length black_frame \<Longrightarrow>
    black_frame ! j = (if int j < kWidth * kHeight then 16 else 128)" by (simp_all add: black_frame_def)
qed

lemma system_inv_pub:
  assumes "system_inv y" "pp_payload p \<in> sy_frames (y\<lparr>sy_pub := p, sy_published := ps\<rparr>)" "int (length (pp_payload p)) = kPayloadBytes"
    "set (sy_published y) \<subseteq> set ps"
  shows "system_inv (y\<lparr>sy_pub := p, sy_published := ps\<rparr>)"
proof -
  have sub: "sy_frames y \<subseteq> sy_frames (y\<lparr>sy_pub := p, sy_published := ps\<rparr>)" using assms(4) by (auto simp: sy_frames_def)
  show ?thesis
    using assms(1-3) pipe_stream_mono [OF sub] whole_frames_mono [OF sub] reader_inv_mono [OF sub]
    by (auto simp: system_inv_def server_inv_def list_all_iff)
qed

lemma system_inv_server:
  assumes "system_inv y" "server_inv (sy_frames y) s"
  shows "system_inv (y\<lparr>sy_server := s, sy_streams := sv_sent (sy_server y) # sy_streams y\<rparr>)"
  using assms by (simp add: system_inv_def sy_frames_def server_inv_def)

lemma system_inv_flags:
  assumes "system_inv y" "pp_payload p = pp_payload (sy_pub y)"
  shows "system_inv (y\<lparr>sy_pub := p\<rparr>)"
  using assms by (simp add: system_inv_def sy_frames_def)

lemma pipe_system_inv: "pipe_system y \<Longrightarrow> system_inv y"
proof (induction rule: pipe_system.induct)
  case init
  have "pipe_stream P []" for P using whole_frames_stream [OF whole_frames_empty] .
  then show ?case
    by (simp add: system_inv_def PipePublisher_init_def PipeFrameReceiver_init_def server_inv_def reader_inv_def sy_frames_def black_frame(1))
next
  case (start y deviceOk)
  have s: "server_inv P \<lparr>sv_pc = AtCreate, sv_standby = 0, sv_sent = []\<rparr>" for P
    using whole_frames_stream [OF whole_frames_empty, of P] by (simp add: server_inv_def)
  have p: "pp_payload (fst (pp_Start deviceOk (sy_pub y))) = pp_payload (sy_pub y)" by (simp add: pp_Start_def)
  from system_inv_server [OF system_inv_flags [OF start.IH p] s] show ?case by simp
next
  case (stop y)
  have p: "pp_payload (fst (pp_Stop (sy_pub y))) = pp_payload (sy_pub y)" by (simp add: pp_Stop_def)
  from system_inv_flags [OF stop.IH p] show ?case .
next
  case (publish y nv12Data dxgiReady time)
  have "pp_payload (fst (pp_PublishFrame dxgiReady nv12Data time (sy_pub y))) \<in>
      insert (pp_payload (sy_pub y)) {d. nv12Data = Some d \<and> int (length d) = kPayloadBytes}"
    by (auto simp: pp_PublishFrame_def split: option.splits)
  with publish.IH show ?case
    by (intro system_inv_pub) (auto simp: system_inv_def sy_frames_def split: option.splits)
next
  case (gpu y texture dxgiReady slot processed time)
  have p: "pp_payload (fst (pp_PublishGpuTexture texture dxgiReady slot processed time (sy_pub y))) = pp_payload (sy_pub y)"
    by (simp add: pp_PublishGpuTexture_def)
  from system_inv_flags [OF gpu.IH p] show ?case .
next
  case (serve y e)
  then show ?case by (intro system_inv_server server_step_inv) (simp_all add: system_inv_def)
next
  case (read y s re)
  have "pipe_stream (sy_frames y) s" using read.IH read.hyps(2) by (auto simp: system_inv_def server_inv_def list_all_iff)
  from pipe_stream_prefix [OF this read.hyps(3)] have "reader_inv (sy_frames y) (reader_step re (sy_reader y))"
    using read.IH by (intro reader_step_inv) (simp_all add: system_inv_def)
  with read.IH show ?case by (simp add: system_inv_def sy_frames_def)
qed

section \<open>Properties\<close>

text \<open>Header bytes round trip. A serialised header is 64 bytes, and reading it back gives the same
  header exactly when it carries the magic, version, sizes and format of the protocol and no
  reserved flag; any other header is refused.\<close>

theorem header_roundtrip:
  assumes "length (fh_magic h) = 8"
  shows "length (SerializeHeader h) = kHeaderSize \<and>
    DeserializeAndValidateHeader (SerializeHeader h @ rest) = (if valid_header h then Some h else None)"
  using length_SerializeHeader [OF assms] Deserialize_Serialize [OF assms] by blast

theorem header_roundtrip_witness:
  "length (SerializeHeader (CreateDefaultHeader 7 99 4)) = kHeaderSize \<and>
    DeserializeAndValidateHeader (SerializeHeader (CreateDefaultHeader 7 99 4) @ [1]) = Some (CreateDefaultHeader 7 99 4)"
proof -
  have "valid_header (CreateDefaultHeader 7 99 4)" by (simp add: valid_header_iff CreateDefaultHeader_def)
  then show ?thesis using header_roundtrip [of "CreateDefaultHeader 7 99 4" "[1]"] by (simp add: CreateDefaultHeader_def length_kMagic)
qed

text \<open>C24: End to end. Whatever the interleaving of publisher, server and reader, however the
  transfers are split, interrupted or reconnected, the frame the camera presents as valid is byte for
  byte one that was handed to \<open>PublishFrame\<close>, or the publisher's initial black frame; an invalid or
  stale one is replaced by black.\<close>

theorem pipe_end_to_end:
  assumes "pipe_system y" and "pr_GetLatestFrame now (sy_reader y) = (ok, frame, seq, time)"
  shows "int (length frame) = kPayloadBytes \<and>
    (if ok then frame \<in> insert black_frame (set (sy_published y)) \<and> pr_pc (sy_reader y) = AtRead \<and> now - pr_arrival (sy_reader y) \<le> 2000
     else frame = black_frame)"
proof -
  have i: "reader_inv (sy_frames y) (sy_reader y)" using pipe_system_inv [OF assms(1)] by (simp add: system_inv_def)
  show ?thesis
  proof (cases "\<not> pr_valid (sy_reader y) \<or> now - pr_arrival (sy_reader y) > 2000")
    case True
    with assms(2) have "ok = False" "frame = black_frame" by (simp_all add: pr_GetLatestFrame_def)
    then show ?thesis by (simp add: black_frame(1))
  next
    case False
    with assms(2) have "ok = True" "frame = pr_buffer (sy_reader y)" by (simp_all add: pr_GetLatestFrame_def)
    then show ?thesis using i False by (simp add: reader_inv_def sy_frames_def not_less)
  qed
qed

text \<open>A run: the publisher is started, hands over a frame, a client connects and reads it.\<close>

lemma WriteExact_all: "b \<noteq> [] \<Longrightarrow> WriteExact [IoDone (Some (length b))] b = (b, True)"
  by (cases b) (simp_all add: transferred_def)

lemma ReadExact_all:
  assumes "length b = Suc n"
  shows "ReadExact [IoPending (Some (Suc n))] (Suc n) (b @ rest) = (b, True, rest)"
proof -
  have "take (min (Suc n) (Suc n)) (b @ rest) = b" using assms by simp
  moreover have "b \<noteq> []" using assms by auto
  ultimately show ?thesis using assms by (simp add: transferred_def Let_def del: take_append)
qed

definition demo_frame :: bytes where
  "demo_frame = replicate 1382400 5"

definition demo_header :: bytes where
  "demo_header = SerializeHeader (CreateDefaultHeader 1 42 0)"

definition demo_serve :: "connect_answer \<Rightarrow> ServerEnv" where
  "demo_serve c = \<lparr>se_running = True, se_pipe = True, se_stop = False, se_connect = c, se_tick = 0,
     se_header = [IoDone (Some 64)], se_payload = [IoDone (Some 1382400)]\<rparr>"

definition demo_read :: "bytes \<Rightarrow> ReaderEnv" where
  "demo_read b = \<lparr>re_running = True, re_open = True, re_stop = False, re_arrived = b, re_tick = 7,
     re_header = [IoPending (Some 64)], re_payload = [IoPending (Some 1382400)]\<rparr>"

lemma demo_lengths: "length demo_frame = 1382400" "length demo_header = 64" "nat kPayloadBytes = 1382400" "kPayloadBytes = 1382400" "kHeaderSize = 64"
  using length_SerializeHeader [of "CreateDefaultHeader 1 42 0"]
  by (simp_all only: demo_frame_def length_replicate demo_header_def)
    (simp_all add: kPayloadBytes_def kWidth_def kHeight_def CreateDefaultHeader_def length_kMagic kHeaderSize_def)

lemma demo_run:
  obtains y where "pipe_system y" "pr_GetLatestFrame 100 (sy_reader y) = (True, demo_frame, 1, 42)" "sy_published y = [demo_frame]"
proof -
  let ?p = "\<lparr>pp_running = True, pp_device = False, pp_payload = demo_frame, pp_sequence = 1, pp_time = 42\<rparr>"
  let ?sv = "\<lambda>pc sent. \<lparr>sv_pc = pc, sv_standby = 0, sv_sent = sent\<rparr>"
  have pub: "fst (pp_PublishFrame False (Some demo_frame) 42 (fst (pp_Start False PipePublisher_init))) = ?p"
    by (simp add: pp_PublishFrame_def pp_Start_def PipePublisher_init_def demo_lengths)
  from pipe_system.publish [OF pipe_system.start [OF pipe_system.init, of False], of "Some demo_frame" False 42]
  have "pipe_system \<lparr>sy_pub = ?p, sy_server = ?sv AtCreate [], sy_reader = PipeFrameReceiver_init, sy_streams = [[]], sy_published = [demo_frame]\<rparr>"
    by (simp add: pub)
  from pipe_system.serve [OF pipe_system.serve [OF this, of "demo_serve Connected"], of "demo_serve Connected"]
  have "pipe_system \<lparr>sy_pub = ?p, sy_server = ?sv AtServe [], sy_reader = PipeFrameReceiver_init, sy_streams = [[], [], []], sy_published = [demo_frame]\<rparr>"
    by (simp add: server_step_def demo_serve_def)
  moreover have "server_step (demo_serve Connected) ?p (?sv AtServe []) = ?sv AtServe (demo_header @ demo_frame)"
  proof -
    have "WriteExact [IoDone (Some 64)] demo_header = (demo_header, True)"
      using WriteExact_all [of demo_header] demo_lengths(2) by fastforce
    moreover have "WriteExact [IoDone (Some 1382400)] demo_frame = (demo_frame, True)"
      using WriteExact_all [of demo_frame] demo_lengths(1) by fastforce
    ultimately show ?thesis by (simp add: server_step_def serve_frame_def demo_serve_def Let_def demo_header_def [symmetric])
  qed
  ultimately have s: "pipe_system \<lparr>sy_pub = ?p, sy_server = ?sv AtServe (demo_header @ demo_frame), sy_reader = PipeFrameReceiver_init,
      sy_streams = [[], [], [], []], sy_published = [demo_frame]\<rparr>" (is "pipe_system ?y")
    using pipe_system.serve [of _ "demo_serve Connected"] by fastforce
  let ?r1 = "PipeFrameReceiver_init\<lparr>pr_pc := AtRead, pr_got := [], pr_in := []\<rparr>"
  have r1: "reader_step (demo_read []) PipeFrameReceiver_init = ?r1"
    by (simp add: reader_step_def demo_read_def PipeFrameReceiver_init_def)
  have "pipe_system (?y\<lparr>sy_reader := ?r1\<rparr>)"
    using pipe_system.read [OF s, of "[]" "demo_read []"] r1 by simp
  moreover let ?r2 = "reader_step (demo_read (demo_header @ demo_frame)) ?r1"
  have r2: "?r2 = ?r1\<lparr>pr_got := demo_header @ demo_frame, pr_in := [], pr_buffer := demo_frame, pr_sequence := 1, pr_time := 42,
      pr_arrival := 7, pr_valid := True\<rparr>"
  proof -
    have h: "ReadExact [IoPending (Some 64)] 64 (demo_header @ demo_frame) = (demo_header, True, demo_frame)"
      using ReadExact_all [of demo_header 63 demo_frame] demo_lengths(2) by (simp del: ReadExact.simps)
    have q: "ReadExact [IoPending (Some 1382400)] 1382400 demo_frame = (demo_frame, True, [])"
      using ReadExact_all [of demo_frame 1382399 "[]"] demo_lengths(1) by (simp del: ReadExact.simps)
    have d: "DeserializeAndValidateHeader demo_header = Some (CreateDefaultHeader 1 42 0)"
      unfolding demo_header_def by (rule Deserialize_frame)
    show ?thesis
      by (simp add: reader_step_def receive_frame_def demo_read_def demo_lengths h q d CreateDefaultHeader_def del: ReadExact.simps)
  qed
  ultimately have "pipe_system (?y\<lparr>sy_reader := ?r2\<rparr>)"
    using pipe_system.read [of "?y\<lparr>sy_reader := ?r1\<rparr>" "demo_header @ demo_frame" "demo_read (demo_header @ demo_frame)"] by (simp add: r2)
  then show thesis by (rule that) (simp_all add: r2 pr_GetLatestFrame_def)
qed

theorem pipe_end_to_end_witness:
  "\<exists>y. pipe_system y \<and> pr_GetLatestFrame 100 (sy_reader y) = (True, demo_frame, 1, 42) \<and>
    demo_frame \<in> insert black_frame (set (sy_published y))"
proof -
  obtain y where y: "pipe_system y" "pr_GetLatestFrame 100 (sy_reader y) = (True, demo_frame, 1, 42)" by (rule demo_run)
  from pipe_end_to_end [OF y] y show ?thesis by auto
qed

text \<open>A frame that went through \<open>PublishGpuTexture\<close> never reaches the pipe: its clients get the previous
  picture again, under the new frame's sequence number and time.\<close>

theorem gpu_frame_not_piped:
  assumes "pp_running p" "pp_sequence p \<noteq> - 1" and "p' = fst (pp_PublishGpuTexture True dxgiReady slot processed time p)"
    and "WriteExact (se_header e) (SerializeHeader (CreateDefaultHeader (pp_sequence p + 1) time 0)) =
      (SerializeHeader (CreateDefaultHeader (pp_sequence p + 1) time 0), True)"
    and "WriteExact (se_payload e) (pp_payload p) = (pp_payload p, True)"
  shows "sv_sent (serve_frame e p' s) = sv_sent s @ SerializeHeader (CreateDefaultHeader (pp_sequence p + 1) time 0) @ pp_payload p"
proof -
  have "pp_sequence p + 1 \<noteq> 0" using assms(2) by (metis add_eq_0_iff2 eq_neg_iff_add_eq_0)
  then show ?thesis using assms by (simp add: pp_PublishGpuTexture_def serve_frame_def Let_def)
qed

text \<open>A header whose flags announce a checksum is accepted whatever the checksum fields hold.\<close>

theorem crc_not_verified:
  "DeserializeAndValidateHeader (SerializeHeader (CreateDefaultHeader seq time 4 \<lparr>fh_headerCrc32 := c, fh_payloadCrc32 := d\<rparr>)) =
    Some (CreateDefaultHeader seq time 4 \<lparr>fh_headerCrc32 := c, fh_payloadCrc32 := d\<rparr>)"
  using Deserialize_Serialize [of "CreateDefaultHeader seq time 4 \<lparr>fh_headerCrc32 := c, fh_payloadCrc32 := d\<rparr>" "[]"]
  by (simp add: valid_header_iff CreateDefaultHeader_def length_kMagic)

end
