(* ===== verification/SharedFrame.thy ===== *)
theory SharedFrame
  imports PixelConverter
begin

text \<open>
  \<open>src/windows/common/shared_memory_frame.h\<close>: the double-buffered frame that the receiver publishes
  in a file mapping (\<open>SharedMemoryPublisher\<close>) and the virtual camera reads
  (\<open>SharedMemoryConsumer\<close>). The mapping is one memory that both programs see; the Windows calls
  answer from an environment. A publication is the list of its single stores, down to the bytes of
  the payload, so that a reader may look at the memory between any two of them.
\<close>

section \<open>The mapping\<close>

record FrameSlot =
  sl_sequence :: u64
  sl_captureTimeUs :: u64
  sl_writeTick :: u64
  sl_payload :: bytes

record SharedMemory =
  sm_magic :: bytes
  sm_version :: u32
  sm_width :: u32
  sm_height :: u32
  sm_strideY :: u32
  sm_strideUV :: u32
  sm_payloadBytes :: u32
  sm_activeSlot :: u32
  sm_slot0 :: FrameSlot
  sm_slot1 :: FrameSlot

definition kSharedMemoryVersion :: u32 where
  "kSharedMemoryVersion = 3"

definition slot_of :: "u32 \<Rightarrow> SharedMemory \<Rightarrow> FrameSlot" where
  "slot_of i m = (if i = 0 then sm_slot0 m else sm_slot1 m)"

definition upd_slot :: "u32 \<Rightarrow> (FrameSlot \<Rightarrow> FrameSlot) \<Rightarrow> SharedMemory \<Rightarrow> SharedMemory" where
  "upd_slot i f m = (if i = 0 then m\<lparr>sm_slot0 := f (sm_slot0 m)\<rparr> else m\<lparr>sm_slot1 := f (sm_slot1 m)\<rparr>)"

section \<open>The publisher\<close>

text \<open>Which handles are held: \<open>hEvent_\<close>, \<open>hMap_\<close> and \<open>pBuffer_\<close>; and how many event handles were
  overwritten without having been closed.\<close>

record ShmHandles =
  sh_event :: bool
  sh_lost :: nat
  sh_map :: bool
  sh_view :: bool

text \<open>\<open>oe_event\<close>: \<open>CreateEventW\<close> gives a handle; \<open>oe_openEvent\<close>: it failed with
  \<open>ERROR_ALREADY_EXISTS\<close> and \<open>OpenEventW\<close> gives one; then the file, the mapping and the view; the
  clock when each slot is initialised.\<close>

record OpenEnv =
  oe_event :: bool
  oe_openEvent :: bool
  oe_file :: bool
  oe_mapping :: bool
  oe_view :: bool
  oe_tick0 :: u64
  oe_tick1 :: u64

definition blank_slot :: "u64 \<Rightarrow> FrameSlot \<Rightarrow> FrameSlot" where
  "blank_slot tick s = \<lparr>sl_sequence = 0, sl_captureTimeUs = 0, sl_writeTick = tick,
     sl_payload = (case FillBlackNv12 kPayloadBytes (sl_payload s) of None \<Rightarrow> [] | Some b \<Rightarrow> b)\<rparr>"

definition init_memory :: "u64 \<Rightarrow> u64 \<Rightarrow> SharedMemory \<Rightarrow> SharedMemory" where
  "init_memory t0 t1 m = \<lparr>sm_magic = str ''WRTCVF03'', sm_version = kSharedMemoryVersion, sm_width = of_int kWidth,
     sm_height = of_int kHeight, sm_strideY = 1280, sm_strideUV = 1280, sm_payloadBytes = of_int kPayloadBytes,
     sm_activeSlot = 0, sm_slot0 = blank_slot t0 (sm_slot0 m), sm_slot1 = blank_slot t1 (sm_slot1 m)\<rparr>"

text \<open>The steps that both sides' \<open>Open\<close> share: event, file, mapping and view.\<close>

definition open_handles :: "OpenEnv \<Rightarrow> ShmHandles \<Rightarrow> ShmHandles \<times> bool" where
  "open_handles e h =
     (let h1 = h\<lparr>sh_lost := (if sh_event h then sh_lost h + 1 else sh_lost h), sh_event := oe_event e \<or> oe_openEvent e\<rparr> in
      if \<not> oe_file e then (h1, False)
      else if \<not> oe_mapping e then (h1\<lparr>sh_map := False\<rparr>, False)
      else if \<not> oe_view e then (h1\<lparr>sh_map := False, sh_view := False\<rparr>, False)
      else (h1\<lparr>sh_map := True, sh_view := True\<rparr>, True))"

definition sp_Open :: "OpenEnv \<Rightarrow> ShmHandles \<Rightarrow> SharedMemory \<Rightarrow> ShmHandles \<times> SharedMemory \<times> bool" where
  "sp_Open e h m =
     (if sh_view h then (h, m, True)
      else case open_handles e h of
        (h', ok) \<Rightarrow> if ok then (h', init_memory (oe_tick0 e) (oe_tick1 e) m, True) else (h', m, False))"

text \<open>The stores of one publication, in order. \<open>memcpy\<close> may store its bytes one by one.\<close>

definition publish_steps :: "u32 \<Rightarrow> bytes \<Rightarrow> u64 \<Rightarrow> u64 \<Rightarrow> (SharedMemory \<Rightarrow> SharedMemory) list" where
  "publish_steps currentActive nv12Data captureTimeUs tick =
     (let writeSlotIdx = (if currentActive = 0 then 1 else 0) in
      [upd_slot writeSlotIdx (\<lambda>s. s\<lparr>sl_sequence := sl_sequence s + 1\<rparr>)] @
      map (\<lambda>i. upd_slot writeSlotIdx (\<lambda>s. s\<lparr>sl_payload := (sl_payload s)[i := nv12Data ! i]\<rparr>)) [0..<length nv12Data] @
      [upd_slot writeSlotIdx (\<lambda>s. s\<lparr>sl_captureTimeUs := captureTimeUs\<rparr>),
       upd_slot writeSlotIdx (\<lambda>s. s\<lparr>sl_writeTick := tick\<rparr>),
       upd_slot writeSlotIdx (\<lambda>s. s\<lparr>sl_sequence := sl_sequence s + 1\<rparr>),
       (\<lambda>m. m\<lparr>sm_activeSlot := writeSlotIdx\<rparr>)])"

definition shm_run :: "(SharedMemory \<Rightarrow> SharedMemory) list \<Rightarrow> SharedMemory \<Rightarrow> SharedMemory" where
  "shm_run fs m = fold (\<lambda>f. f) fs m"

text \<open>The last component: the consumer's event is set.\<close>

definition sp_PublishFrame ::
  "OpenEnv \<Rightarrow> u64 \<Rightarrow> bytes option \<Rightarrow> u64 \<Rightarrow> ShmHandles \<Rightarrow> SharedMemory \<Rightarrow> ShmHandles \<times> SharedMemory \<times> bool" where
  "sp_PublishFrame e tick nv12Data captureTimeUs h m =
     (case (if sh_view h then (h, m, True) else sp_Open e h m) of
        (h', m', ok) \<Rightarrow>
          if \<not> ok then (h', m', False)
          else case nv12Data of
            None \<Rightarrow> (h', m', False)
          | Some data \<Rightarrow>
              if int (length data) \<noteq> kPayloadBytes then (h', m', False)
              else (h', shm_run (publish_steps (sm_activeSlot m') data captureTimeUs tick) m', sh_event h'))"

definition shm_Close :: "ShmHandles \<Rightarrow> ShmHandles" where
  "shm_Close h = h\<lparr>sh_event := False, sh_view := False, sh_map := False\<rparr>"

section \<open>The consumer\<close>

definition sc_Open :: "OpenEnv \<Rightarrow> ShmHandles \<Rightarrow> ShmHandles \<times> bool" where
  "sc_Open e h = (if sh_view h then (h, True) else open_handles e h)"

definition header_ok :: "SharedMemory \<Rightarrow> bool" where
  "header_ok m \<longleftrightarrow> sm_magic m = str ''WRTCVF03'' \<and> sm_version m = kSharedMemoryVersion \<and> sm_width m = of_int kWidth \<and>
     sm_height m = of_int kHeight \<and> sm_strideY m = 1280 \<and> sm_strideUV m = 1280 \<and> sm_payloadBytes m = of_int kPayloadBytes"

text \<open>The reader's looks at the memory, one after the other: the header and the active slot, the slot's
  tick, its sequence number and its time; the payload is returned as a pointer, here the slot's
  number.\<close>

definition sc_GetLatestFrameDirect ::
  "u64 \<Rightarrow> SharedMemory \<Rightarrow> SharedMemory \<Rightarrow> SharedMemory \<Rightarrow> SharedMemory \<Rightarrow> (u32 \<times> u64 \<times> u64) option" where
  "sc_GetLatestFrameDirect now m0 m1 m2 m3 =
     (if \<not> header_ok m0 then None
      else
        let activeIdx = (if sm_activeSlot m0 > 1 then 0 else sm_activeSlot m0);
            writeTick = sl_writeTick (slot_of activeIdx m1) in
        if now < writeTick \<or> now - writeTick > 2000 then None
        else Some (activeIdx, word_of_int (cdiv (sint (sl_sequence (slot_of activeIdx m2))) 2),
                   sl_captureTimeUs (slot_of activeIdx m3)))"

text \<open>\<open>memcpy\<close> out of the slot: byte \<open>i\<close> is read from the memory as it is at the \<open>i\<close>-th look.\<close>

definition copy_out :: "u32 \<Rightarrow> SharedMemory list \<Rightarrow> bytes" where
  "copy_out a ms = map (\<lambda>(i, m). sl_payload (slot_of a m) ! i) (enumerate 0 ms)"

definition sc_GetLatestFrame :: "bool \<Rightarrow> u64 \<Rightarrow> SharedMemory list \<Rightarrow> (bytes \<times> u64 \<times> u64) option" where
  "sc_GetLatestFrame opened now looks =
     (if \<not> opened then None
      else case sc_GetLatestFrameDirect now (looks ! 0) (looks ! 1) (looks ! 2) (looks ! 3) of
        None \<Rightarrow> None
      | Some (a, seq, time) \<Rightarrow> Some (copy_out a (drop 4 looks), seq, time))"

definition sc_GetActiveSlotIndex :: "bool \<Rightarrow> SharedMemory \<Rightarrow> u32" where
  "sc_GetActiveSlotIndex opened m = (if \<not> opened then 0 else if sm_activeSlot m > 1 then 0 else sm_activeSlot m)"

section \<open>What a publication does\<close>

definition other_slot :: "u32 \<Rightarrow> u32" where
  "other_slot a = (if a = 0 then 1 else 0)"

lemma shm_run_simps [simp]: "shm_run [] m = m" "shm_run (f # fs) m = shm_run fs (f m)" "shm_run (fs @ gs) m = shm_run gs (shm_run fs m)"
  by (simp_all add: shm_run_def)

text \<open>Everything but the slot that is written, and its number.\<close>

definition same_rest :: "u32 \<Rightarrow> SharedMemory \<Rightarrow> SharedMemory \<Rightarrow> bool" where
  "same_rest w m m' \<longleftrightarrow> header_ok m' = header_ok m \<and> sm_activeSlot m' = sm_activeSlot m \<and> slot_of (other_slot w) m' = slot_of (other_slot w) m"

lemma same_rest_upd: "w \<in> {0, 1} \<Longrightarrow> same_rest w m m' \<Longrightarrow> same_rest w m (upd_slot w f m')"
  by (auto simp: same_rest_def upd_slot_def slot_of_def other_slot_def header_ok_def)

lemma same_rest_run: "w \<in> {0, 1} \<Longrightarrow> \<forall>f \<in> set fs. \<exists>g. f = upd_slot w g \<Longrightarrow> same_rest w m m' \<Longrightarrow> same_rest w m (shm_run fs m')"
  by (induction fs arbitrary: m') (auto simp: same_rest_upd)

lemma slot_active [simp]: "slot_of i (m\<lparr>sm_activeSlot := a\<rparr>) = slot_of i m"
  by (simp add: slot_of_def)

lemma slot_upd: "w \<in> {0, 1} \<Longrightarrow> slot_of w (upd_slot w f m) = f (slot_of w m)"
  by (auto simp: upd_slot_def slot_of_def)

lemma run_bytes:
  assumes "w \<in> {0, 1}" "n \<le> length data" "length (sl_payload (slot_of w m)) = length data"
  shows "slot_of w (shm_run (map (\<lambda>i. upd_slot w (\<lambda>s. s\<lparr>sl_payload := (sl_payload s)[i := data ! i]\<rparr>)) [0..<n]) m) =
    (slot_of w m)\<lparr>sl_payload := take n data @ drop n (sl_payload (slot_of w m))\<rparr>"
  using assms(2)
proof (induction n)
  case (Suc n)
  have "(take n data @ drop n (sl_payload (slot_of w m)))[n := data ! n] = take (Suc n) data @ drop (Suc n) (sl_payload (slot_of w m))"
    using Suc.prems assms(3) by (simp add: list_update_append take_Suc_conv_app_nth Cons_nth_drop_Suc [symmetric])
  with Suc assms(1) show ?case by (simp add: slot_upd)
qed simp

text \<open>All stores but the last touch only the back slot; the last one makes it the active one.\<close>

lemma publish_steps_split:
  obtains fs where "publish_steps a data time tick = fs @ [\<lambda>m. m\<lparr>sm_activeSlot := other_slot a\<rparr>]"
    "\<forall>f \<in> set fs. \<exists>g. f = upd_slot (other_slot a) g"
    "\<And>m. length (sl_payload (slot_of (other_slot a) m)) = length data \<Longrightarrow>
       slot_of (other_slot a) (shm_run fs m) = \<lparr>sl_sequence = sl_sequence (slot_of (other_slot a) m) + 2,
         sl_captureTimeUs = time, sl_writeTick = tick, sl_payload = data\<rparr>"
proof -
  let ?w = "other_slot a"
  have w: "?w \<in> {0, 1}" by (simp add: other_slot_def)
  let ?fs = "[upd_slot ?w (\<lambda>s. s\<lparr>sl_sequence := sl_sequence s + 1\<rparr>)] @
      map (\<lambda>i. upd_slot ?w (\<lambda>s. s\<lparr>sl_payload := (sl_payload s)[i := data ! i]\<rparr>)) [0..<length data] @
      [upd_slot ?w (\<lambda>s. s\<lparr>sl_captureTimeUs := time\<rparr>), upd_slot ?w (\<lambda>s. s\<lparr>sl_writeTick := tick\<rparr>),
       upd_slot ?w (\<lambda>s. s\<lparr>sl_sequence := sl_sequence s + 1\<rparr>)]"
  show thesis
  proof (rule that [of ?fs])
    show "publish_steps a data time tick = ?fs @ [\<lambda>m. m\<lparr>sm_activeSlot := ?w\<rparr>]"
      by (simp add: publish_steps_def other_slot_def Let_def)
    show "\<forall>f \<in> set ?fs. \<exists>g. f = upd_slot ?w g" by auto
    show "slot_of ?w (shm_run ?fs m) = \<lparr>sl_sequence = sl_sequence (slot_of ?w m) + 2, sl_captureTimeUs = time, sl_writeTick = tick, sl_payload = data\<rparr>"
      if "length (sl_payload (slot_of ?w m)) = length data" for m
      using run_bytes [OF w order_refl, of "upd_slot ?w (\<lambda>s. s\<lparr>sl_sequence := sl_sequence s + 1\<rparr>) m" data] that w
      by (simp add: slot_upd)
  qed
qed

lemma publish_result:
  assumes "a \<in> {0, 1}" "sm_activeSlot m = a" "length (sl_payload (slot_of (other_slot a) m)) = length data"
    and m'_def: "m' = shm_run (publish_steps a data time tick) m"
  shows "slot_of (other_slot a) m' = \<lparr>sl_sequence = sl_sequence (slot_of (other_slot a) m) + 2,
      sl_captureTimeUs = time, sl_writeTick = tick, sl_payload = data\<rparr>"
    "slot_of a m' = slot_of a m" "sm_activeSlot m' = other_slot a" "header_ok m' = header_ok m"
proof -
  obtain fs where fs: "publish_steps a data time tick = fs @ [\<lambda>m. m\<lparr>sm_activeSlot := other_slot a\<rparr>]"
    "\<forall>f \<in> set fs. \<exists>g. f = upd_slot (other_slot a) g"
    "\<And>m. length (sl_payload (slot_of (other_slot a) m)) = length data \<Longrightarrow>
       slot_of (other_slot a) (shm_run fs m) = \<lparr>sl_sequence = sl_sequence (slot_of (other_slot a) m) + 2,
         sl_captureTimeUs = time, sl_writeTick = tick, sl_payload = data\<rparr>" by (rule publish_steps_split [of a data time tick]) blast
  have w: "other_slot a \<in> {0, 1}" and oo: "other_slot (other_slot a) = a" using assms(1) by (auto simp: other_slot_def)
  have r: "same_rest (other_slot a) m (shm_run fs m)" by (rule same_rest_run [OF w fs(2)]) (simp add: same_rest_def)
  have m': "m' = (shm_run fs m)\<lparr>sm_activeSlot := other_slot a\<rparr>" by (simp add: m'_def fs(1))
  show "slot_of (other_slot a) m' = \<lparr>sl_sequence = sl_sequence (slot_of (other_slot a) m) + 2,
      sl_captureTimeUs = time, sl_writeTick = tick, sl_payload = data\<rparr>"
    using fs(3) [OF assms(3)] by (simp add: m')
  show "slot_of a m' = slot_of a m" "header_ok m' = header_ok m" using r by (simp_all add: m' same_rest_def oo header_ok_def)
  show "sm_activeSlot m' = other_slot a" by (simp add: m')
qed

text \<open>Between the stores the active slot and its number stay as they were.\<close>

lemma publish_prefix:
  assumes "a \<in> {0, 1}" "k < length (publish_steps a data time tick)"
  shows "same_rest (other_slot a) m (shm_run (take k (publish_steps a data time tick)) m)"
proof -
  obtain fs where fs: "publish_steps a data time tick = fs @ [\<lambda>m. m\<lparr>sm_activeSlot := other_slot a\<rparr>]"
    "\<forall>f \<in> set fs. \<exists>g. f = upd_slot (other_slot a) g" by (rule publish_steps_split [of a data time tick]) blast
  have "take k (publish_steps a data time tick) = take k fs" using assms(2) fs(1) by simp
  moreover have "\<forall>f \<in> set (take k fs). \<exists>g. f = upd_slot (other_slot a) g" using fs(2) by (meson in_set_takeD)
  ultimately show ?thesis using same_rest_run [of "other_slot a" "take k fs" m m] by (simp add: same_rest_def other_slot_def)
qed

section \<open>Reading\<close>

lemma copy_out_same:
  assumes "\<forall>m \<in> set ms. sl_payload (slot_of a m) = p" "length p = length ms"
  shows "copy_out a ms = p"
proof (rule nth_equalityI)
  show "length (copy_out a ms) = length p" using assms(2) by (simp add: copy_out_def)
  show "copy_out a ms ! i = p ! i" if "i < length (copy_out a ms)" for i
    using that assms by (simp add: copy_out_def nth_enumerate_eq)
qed

section \<open>Properties\<close>

text \<open>C26: While one frame is being published, a reader that looks at the memory at any moments, in the
  order of its code, gets a whole frame: the one that was active before, or the new one, with the
  time that belongs to it. The back buffer keeps the half-written frame out of sight.\<close>

theorem one_publish_no_tear:
  assumes "sm_activeSlot m \<in> {0, 1}" and "int (length data) = kPayloadBytes"
    and "int (length (sl_payload (sm_slot0 m))) = kPayloadBytes" "int (length (sl_payload (sm_slot1 m))) = kPayloadBytes"
    and "steps = publish_steps (sm_activeSlot m) data captureTime tick"
    and "looks = map (\<lambda>k. shm_run (take k steps) m) ks" "sorted ks" "length ks = 4 + nat kPayloadBytes"
    and "sc_GetLatestFrame True now looks = Some (frame, seq, time)"
  shows "frame = sl_payload (slot_of (sm_activeSlot m) m) \<and> time = sl_captureTimeUs (slot_of (sm_activeSlot m) m) \<or>
    frame = data \<and> time = captureTime"
proof -
  let ?a = "sm_activeSlot m" and ?w = "other_slot (sm_activeSlot m)" and ?M = "shm_run steps m"
  have aw: "?a \<noteq> ?w" "?w \<in> {0, 1}" "other_slot ?w = ?a" using assms(1) by (auto simp: other_slot_def)
  have len: "length (sl_payload (slot_of i m)) = length data" for i using assms(2-4) by (simp add: slot_of_def)
  have M: "?M = shm_run (publish_steps ?a data captureTime tick) m" by (simp add: assms(5))
  note pr = publish_result [OF assms(1) refl len M]
  have L: "length looks = 4 + nat kPayloadBytes" using assms(6,8) by simp
  have look: "looks ! j = shm_run (take (ks ! j) steps) m" if "j < length ks" for j using that assms(6) by simp
  obtain b where dir: "sc_GetLatestFrameDirect now (looks ! 0) (looks ! 1) (looks ! 2) (looks ! 3) = Some (b, seq, time)"
    and fr: "frame = copy_out b (drop 4 looks)"
    using assms(9) by (auto simp: sc_GetLatestFrame_def split: option.splits)
  have b: "b = (if sm_activeSlot (looks ! 0) > 1 then 0 else sm_activeSlot (looks ! 0))" "time = sl_captureTimeUs (slot_of b (looks ! 3))"
    using dir by (auto simp: sc_GetLatestFrameDirect_def Let_def split: if_splits)
  have mono: "ks ! 0 \<le> ks ! j" if "j < length ks" for j using assms(7) that by (simp add: sorted_nth_mono)
  have P: "length (drop 4 looks) = length data" using L assms(2) by simp
  show ?thesis
  proof (cases "ks ! 0 < length steps")
    case True
    have "sm_activeSlot (looks ! 0) = ?a"
      using publish_prefix [OF assms(1), of "ks ! 0" data captureTime tick m] True assms(5,8) look [of 0] by (simp add: same_rest_def)
    then have ba: "b = ?a" using b(1) assms(1) by auto
    have s: "slot_of ?a (looks ! j) = slot_of ?a m" if "j < length ks" for j
    proof (cases "ks ! j < length steps")
      case True
      then show ?thesis using publish_prefix [OF assms(1), of "ks ! j" data captureTime tick m] assms(5) aw(3) look [OF that]
        by (simp add: same_rest_def)
    next
      case False
      then show ?thesis using pr(2) look [OF that] by simp
    qed
    have "sl_payload (slot_of ?a l) = sl_payload (slot_of ?a m)" if "l \<in> set (drop 4 looks)" for l
    proof -
      from in_set_dropD [OF that] obtain j where j: "j < length looks" "l = looks ! j" unfolding in_set_conv_nth by blast
      then have "j < length ks" using L assms(8) by simp
      from s [OF this] j(2) show ?thesis by simp
    qed
    then have "frame = sl_payload (slot_of ?a m)" unfolding fr ba using P len by (intro copy_out_same) auto
    moreover have "time = sl_captureTimeUs (slot_of ?a m)" using b(2) s [of 3] assms(8) unfolding ba by simp
    ultimately show ?thesis by simp
  next
    case False
    have s: "looks ! j = ?M" if "j < length ks" for j
    proof -
      have "take (ks ! j) steps = steps" using mono [OF that] False by simp
      then show ?thesis using look [OF that] by simp
    qed
    have "0 < length ks" "3 < length ks" using assms(8) by simp_all
    note s03 = s [OF this(1)] s [OF this(2)]
    then have "sm_activeSlot (looks ! 0) = ?w" using pr(3) by simp
    then have bw: "b = ?w" using b(1) aw(2) by auto
    have "sl_payload (slot_of ?w l) = data" if "l \<in> set (drop 4 looks)" for l
    proof -
      from in_set_dropD [OF that] obtain j where j: "j < length looks" "l = looks ! j" unfolding in_set_conv_nth by blast
      then have "j < length ks" using L assms(8) by simp
      from s [OF this] j(2) pr(1) show ?thesis by simp
    qed
    then have "frame = data" unfolding fr bw using P by (intro copy_out_same) auto
    moreover have "time = captureTime" using b(2) pr(1) unfolding bw s03 by simp
    ultimately show ?thesis by simp
  qed
qed

definition demo_slot :: FrameSlot where
  "demo_slot = \<lparr>sl_sequence = 0, sl_captureTimeUs = 3, sl_writeTick = 1, sl_payload = replicate (nat kPayloadBytes) 0\<rparr>"

definition demo_memory :: SharedMemory where
  "demo_memory = \<lparr>sm_magic = str ''WRTCVF03'', sm_version = 3, sm_width = 1280, sm_height = 720, sm_strideY = 1280,
     sm_strideUV = 1280, sm_payloadBytes = of_int kPayloadBytes, sm_activeSlot = 0, sm_slot0 = demo_slot, sm_slot1 = demo_slot\<rparr>"

definition demo_data :: bytes where
  "demo_data = replicate (nat kPayloadBytes) 5"

lemma demo_simps:
  "sm_activeSlot demo_memory = 0" "slot_of i demo_memory = demo_slot" "sm_slot0 demo_memory = demo_slot" "sm_slot1 demo_memory = demo_slot"
  "int (length demo_data) = kPayloadBytes" "int (length (sl_payload demo_slot)) = kPayloadBytes" "header_ok demo_memory"
  by (simp_all add: demo_memory_def demo_data_def demo_slot_def slot_of_def header_ok_def kSharedMemoryVersion_def
      kWidth_def kHeight_def kPayloadBytes_def)

theorem one_publish_no_tear_witness:
  "\<exists>ks frame. length ks = 4 + nat kPayloadBytes \<and> sorted ks \<and>
    sc_GetLatestFrame True 9 (map (\<lambda>k. shm_run (take k (publish_steps (sm_activeSlot demo_memory) demo_data 7 8)) demo_memory) ks) =
      Some (frame, 0, 3) \<and> frame = sl_payload demo_slot"
proof -
  let ?ks = "replicate (4 + nat kPayloadBytes) (0::nat)"
  let ?looks = "map (\<lambda>k. shm_run (take k (publish_steps (sm_activeSlot demo_memory) demo_data 7 8)) demo_memory) ?ks"
  have looks: "?looks ! 0 = demo_memory" "?looks ! 1 = demo_memory" "?looks ! 2 = demo_memory" "?looks ! 3 = demo_memory"
    by simp_all
  have "sc_GetLatestFrameDirect 9 demo_memory demo_memory demo_memory demo_memory = Some (0, 0, 3)"
    by (simp add: sc_GetLatestFrameDirect_def demo_simps demo_slot_def cdiv_def)
  then have r: "sc_GetLatestFrame True 9 ?looks = Some (copy_out 0 (drop 4 ?looks), 0, 3)"
    unfolding sc_GetLatestFrame_def looks by (simp only: if_not_P not_True_eq_False not_False_eq_True if_False option.case prod.case)
  have "copy_out 0 (drop 4 ?looks) = sl_payload (slot_of (sm_activeSlot demo_memory) demo_memory) \<and>
      3 = sl_captureTimeUs (slot_of (sm_activeSlot demo_memory) demo_memory) \<or>
    copy_out 0 (drop 4 ?looks) = demo_data \<and> (3 :: u64) = 7"
    by (rule one_publish_no_tear [OF _ _ _ _ refl refl _ _ r]) (simp_all only: demo_simps length_replicate sorted_replicate insertI1)
  then have "copy_out 0 (drop 4 ?looks) = sl_payload demo_slot" by (simp add: demo_simps)
  with r show ?thesis by (intro exI [of _ ?ks] exI [of _ "copy_out 0 (drop 4 ?looks)"]) (simp only: length_replicate sorted_replicate simp_thms)
qed

text \<open>Two further publications are enough to tear a frame that is being read: the reader never looks
  at the slot's sequence number, which was odd or has moved on meanwhile.\<close>

theorem two_publishes_tear:
  assumes "header_ok m" "sm_activeSlot m = 0"
    and len: "length f = nat kPayloadBytes" "length g = nat kPayloadBytes" "length h = nat kPayloadBytes"
      "length (sl_payload (sm_slot0 m)) = nat kPayloadBytes" "length (sl_payload (sm_slot1 m)) = nat kPayloadBytes"
    and m1: "m1 = shm_run (publish_steps 0 f 1 0) m" and m2: "m2 = shm_run (publish_steps 1 g 2 0) m1"
    and m3: "m3 = shm_run (publish_steps 0 h 3 0) m2"
    and looks: "looks = replicate 5 m1 @ replicate (nat kPayloadBytes - 1) m3"
  shows "\<exists>seq. sc_GetLatestFrame True 0 looks = Some (hd f # tl h, seq, 1)"
proof -
  have n: "0 < nat kPayloadBytes" by (simp add: kPayloadBytes_def kWidth_def kHeight_def)
  have o: "other_slot 0 = 1" "other_slot 1 = 0" by (simp_all add: other_slot_def)
  have p1: "slot_of 1 m1 = \<lparr>sl_sequence = sl_sequence (slot_of 1 m) + 2, sl_captureTimeUs = 1, sl_writeTick = 0, sl_payload = f\<rparr>"
    "slot_of 0 m1 = slot_of 0 m" "sm_activeSlot m1 = 1" "header_ok m1"
    using publish_result [of 0 m f m1 1 0] assms(1,2) len m1 by (simp_all add: o slot_of_def)
  have p2: "slot_of 0 m2 = \<lparr>sl_sequence = sl_sequence (slot_of 0 m1) + 2, sl_captureTimeUs = 2, sl_writeTick = 0, sl_payload = g\<rparr>"
    "slot_of 1 m2 = slot_of 1 m1" "sm_activeSlot m2 = 0"
    using publish_result [of 1 m1 g m2 2 0] p1 len m2 by (simp_all add: o slot_of_def)
  have p3: "slot_of 1 m3 = \<lparr>sl_sequence = sl_sequence (slot_of 1 m2) + 2, sl_captureTimeUs = 3, sl_writeTick = 0, sl_payload = h\<rparr>"
    using publish_result [of 0 m2 h m3 3 0] p1 p2 len m3 by (simp add: o)
  have d: "drop 4 looks = m1 # replicate (nat kPayloadBytes - 1) m3" unfolding looks by (simp add: eval_nat_numeral)
  have "copy_out 1 (m1 # replicate (nat kPayloadBytes - 1) m3) = hd f # tl h"
  proof (rule nth_equalityI)
    show "length (copy_out 1 (m1 # replicate (nat kPayloadBytes - 1) m3)) = length (hd f # tl h)" using len(3) n by (simp add: copy_out_def)
    show "copy_out 1 (m1 # replicate (nat kPayloadBytes - 1) m3) ! i = (hd f # tl h) ! i"
      if "i < length (copy_out 1 (m1 # replicate (nat kPayloadBytes - 1) m3))" for i
    proof -
      have "f \<noteq> []" "h \<noteq> []" using len(1,3) n by auto
      then have "(hd f # tl h) ! i = (if i = 0 then f ! 0 else h ! i)" using that len n
        by (cases i) (auto simp: copy_out_def hd_conv_nth nth_tl)
      moreover have "(m1 # replicate (nat kPayloadBytes - 1) m3) ! i = (if i = 0 then m1 else m3)"
        using that by (cases i) (auto simp: copy_out_def)
      ultimately show ?thesis using that by (simp add: copy_out_def nth_enumerate_eq p1 p2 p3)
    qed
  qed
  then show ?thesis using p1 d
    by (simp add: sc_GetLatestFrame_def sc_GetLatestFrameDirect_def looks eval_nat_numeral)
qed

text \<open>A published frame is what the consumer reads back, while the publisher is alive; after two
  seconds without a frame it reads nothing.\<close>

theorem publish_then_read:
  assumes "header_ok m" "sm_activeSlot m \<in> {0, 1}" "sh_view h" "int (length data) = kPayloadBytes"
    and "int (length (sl_payload (sm_slot0 m))) = kPayloadBytes" "int (length (sl_payload (sm_slot1 m))) = kPayloadBytes"
    and "sp_PublishFrame e tick (Some data) captureTime h m = (h', m', signalled)" and "tick \<le> now"
  shows "h' = h \<and> signalled = sh_event h \<and> sc_GetActiveSlotIndex True m' = other_slot (sm_activeSlot m) \<and>
    map_option (\<lambda>(b, _, t). (b, t)) (sc_GetLatestFrame True now (replicate (4 + nat kPayloadBytes) m')) =
      (if now - tick > 2000 then None else Some (data, captureTime))"
proof -
  have r: "h' = h" "m' = shm_run (publish_steps (sm_activeSlot m) data captureTime tick) m" "signalled = sh_event h"
    using assms(3,4,7) by (auto simp: sp_PublishFrame_def)
  have "length (sl_payload (slot_of (other_slot (sm_activeSlot m)) m)) = length data" using assms(4-6) by (simp add: slot_of_def)
  note p = publish_result [OF assms(2) refl this r(2)]
  obtain w where w: "other_slot (sm_activeSlot m) = w" "\<not> 1 < w" by (simp add: other_slot_def)
  note q = p [unfolded w(1)]
  have c: "copy_out w (replicate (nat kPayloadBytes) m') = data"
    using assms(4) q(1) by (intro copy_out_same) auto
  have "\<not> now < tick" using assms(8) by simp
  let ?n = "word_of_int (cdiv (sint (sl_sequence (slot_of w m'))) 2) :: u64"
  have d: "sc_GetLatestFrameDirect now m' m' m' m' = (if now - tick > 2000 then None else Some (w, ?n, captureTime))"
    using \<open>\<not> now < tick\<close> assms(1) q w(2) by (simp add: sc_GetLatestFrameDirect_def Let_def)
  have l: "replicate (4 + nat kPayloadBytes) m' = [m', m', m', m'] @ replicate (nat kPayloadBytes) m'"
    by (simp add: eval_nat_numeral)
  have "sc_GetLatestFrame True now (replicate (4 + nat kPayloadBytes) m') =
      (if now - tick > 2000 then None else Some (data, ?n, captureTime))"
    unfolding sc_GetLatestFrame_def l by (simp add: d c)
  moreover have "sc_GetActiveSlotIndex True m' = w" using q(3) w(2) by (simp add: sc_GetActiveSlotIndex_def)
  ultimately show ?thesis using r(1,3) w(1) by simp
qed

theorem publish_then_read_witness:
  "\<exists>h' m' signalled. sp_PublishFrame undefined 8 (Some demo_data) 7 \<lparr>sh_event = True, sh_lost = 0, sh_map = True, sh_view = True\<rparr> demo_memory =
      (h', m', signalled) \<and> signalled \<and>
    map_option (\<lambda>(b, _, t). (b, t)) (sc_GetLatestFrame True 9 (replicate (4 + nat kPayloadBytes) m')) = Some (demo_data, 7)"
proof -
  let ?h = "\<lparr>sh_event = True, sh_lost = 0, sh_map = True, sh_view = True\<rparr>"
  obtain h' m' signalled where r: "sp_PublishFrame undefined 8 (Some demo_data) 7 ?h demo_memory = (h', m', signalled)" by (metis prod_cases3)
  have "h' = ?h \<and> signalled = sh_event ?h \<and> sc_GetActiveSlotIndex True m' = other_slot (sm_activeSlot demo_memory) \<and>
    map_option (\<lambda>(b, _, t). (b, t)) (sc_GetLatestFrame True 9 (replicate (4 + nat kPayloadBytes) m')) =
      (if (9 :: u64) - 8 > 2000 then None else Some (demo_data, 7))"
    by (rule publish_then_read [OF _ _ _ _ _ _ r]) (simp_all add: demo_simps)
  then show ?thesis using r by (intro exI [of _ h'] exI [of _ m'] exI [of _ signalled]) simp
qed

text \<open>An \<open>Open\<close> that fails after creating the event leaves the handle behind, and the next attempt
  overwrites it: a consumer that polls while there is no publisher loses one event handle per poll.\<close>

theorem open_retry_loses_handles:
  assumes "oe_event e" "\<not> oe_file e" "\<not> sh_view h"
  shows "sh_lost (fst (((\<lambda>x. sc_Open e (fst x)) ^^ (n + 1)) (h, False))) = sh_lost h + n + (if sh_event h then 1 else 0) \<and>
    \<not> sh_view (fst (((\<lambda>x. sc_Open e (fst x)) ^^ (n + 1)) (h, False))) \<and>
    sh_event (fst (((\<lambda>x. sc_Open e (fst x)) ^^ (n + 1)) (h, False)))"
  using assms by (induction n) (auto simp: sc_Open_def open_handles_def Let_def)

end
