(* ===== verification/OpusRtp.thy ===== *)
theory OpusRtp
  imports RtpWire
begin

text \<open>
  \<open>src/shared/receiver/audio/opus_rtp_decoder.cpp\<close> as built with \<open>KM_ENABLE_OPUS\<close>: the jitter buffer in
  front of the Opus decoder. libopus is a parameter: \<open>create\<close> is the handle and error code of
  \<open>opus_decoder_create\<close>, \<open>samples\<close> is \<open>opus_packet_get_nb_samples\<close> at 48 kHz, and \<open>decode\<close> gives the
  result of \<open>opus_decode\<close>, the samples it stores and the decoder's next state. Times are
  microseconds far from the ends of \<open>int64_t\<close>. The frames handed to the callback are returned in order.
\<close>

record Pending =
  pe_bytes :: bytes
  pe_timestamp :: u32
  pe_arrival :: int

text \<open>\<open>std::map\<close> as an association list without repeated keys; no step depends on its order.\<close>

record 'd OpusRtpDecoder =
  od_pending :: "(u16 \<times> Pending) list"
  od_callback :: bool
  od_payloadType :: u8
  od_expected :: u16
  od_ssrc :: "u32 option"
  od_end :: "u32 option"
  od_played :: bool
  od_decoder :: "'d option"

type_synonym pcm = "int list"

record 'd Opus =
  opus_create :: "'d option \<times> int"
  opus_samples :: "bytes \<Rightarrow> int"
  opus_decode :: "'d \<Rightarrow> bytes option \<Rightarrow> int \<Rightarrow> int \<times> pcm \<times> 'd"

definition OpusRtpDecoder_init :: "'d OpusRtpDecoder" where
  "OpusRtpDecoder_init = \<lparr>od_pending = [], od_callback = False, od_payloadType = 111, od_expected = 0, od_ssrc = None,
     od_end = None, od_played = False, od_decoder = None\<rparr>"

definition od_recreate :: "'d Opus \<Rightarrow> 'd OpusRtpDecoder \<Rightarrow> 'd OpusRtpDecoder \<times> bool" where
  "od_recreate opus s =
     (case opus_create opus of (handle, error) \<Rightarrow> (s\<lparr>od_decoder := handle\<rparr>, handle \<noteq> None \<and> error = 0))"

text \<open>The vector has \<open>capacity * 2\<close> samples, of which the decoder overwrites the first ones.\<close>

definition od_decode :: "'d Opus \<Rightarrow> bytes option \<Rightarrow> int \<Rightarrow> 'd OpusRtpDecoder \<Rightarrow> 'd OpusRtpDecoder \<times> bool \<times> pcm list" where
  "od_decode opus data capacity s0 =
     (case (if od_decoder s0 = None then od_recreate opus s0 else (s0, True)) of
        (s, ready) \<Rightarrow>
          if \<not> ready then (s, False, [])
          else case od_decoder s of
            None \<Rightarrow> (s, False, [])
          | Some d \<Rightarrow>
              (case opus_decode opus d data capacity of
                 (frames, stored, d') \<Rightarrow>
                   let s' = s\<lparr>od_decoder := Some d'\<rparr>;
                       pcm = take (nat (capacity * 2)) (stored @ replicate (nat (capacity * 2)) 0) in
                   if frames \<le> 0 \<or> frames > capacity then (s', False, [])
                   else (s', True, if od_callback s' then [take (nat (frames * 2)) pcm] else [])))"

definition od_Reset :: "'d OpusRtpDecoder \<Rightarrow> 'd OpusRtpDecoder" where
  "od_Reset s = s\<lparr>od_pending := [], od_ssrc := None, od_end := None, od_played := False, od_decoder := None\<rparr>"

definition od_Configure :: "'d Opus \<Rightarrow> u8 \<Rightarrow> bool \<Rightarrow> 'd OpusRtpDecoder \<Rightarrow> 'd OpusRtpDecoder \<times> bool" where
  "od_Configure opus payloadType callback s =
     od_recreate opus (od_Reset (s\<lparr>od_payloadType := payloadType, od_callback := callback\<rparr>))"

text \<open>The search for the nearest packet from \<open>expected\<close> on.\<close>

definition od_nearest :: "u16 \<Rightarrow> (u16 \<times> Pending) list \<Rightarrow> (int \<times> (u16 \<times> Pending) option)" where
  "od_nearest expected pending =
     fold (\<lambda>c (nearest, it). let distance = sequenceDelta (fst c) expected in
             if distance \<ge> 0 \<and> distance < nearest then (distance, Some c) else (nearest, it))
       pending (32768, None)"

text \<open>Which packet this pass of the loop takes, if it does not leave the loop.\<close>

definition od_pick :: "int \<Rightarrow> 'd OpusRtpDecoder \<Rightarrow> (u16 \<times> Pending) option" where
  "od_pick now s =
     (case map_of (od_pending s) (od_expected s) of
        Some p \<Rightarrow> if now - pe_arrival p < 20000 then None else Some (od_expected s, p)
      | None \<Rightarrow>
          (case snd (od_nearest (od_expected s) (od_pending s)) of
             None \<Rightarrow> None
           | Some (q, p) \<Rightarrow>
               if now - pe_arrival p < 40000 then None
               else if now - pe_arrival p < 20000 then None
               else Some (q, p)))"

definition od_restart :: "'d Opus \<Rightarrow> 'd OpusRtpDecoder \<Rightarrow> 'd OpusRtpDecoder" where
  "od_restart opus s = (fst (od_recreate opus s))\<lparr>od_end := None\<rparr>"

definition timestamp_gap :: "u32 \<Rightarrow> u32 \<Rightarrow> int" where
  "timestamp_gap a b = (let raw = a - b in if uint raw \<le> 2147483647 then uint raw else uint raw - 4294967296)"

text \<open>Playing the packet that was taken.\<close>

definition od_play :: "'d Opus \<Rightarrow> int \<Rightarrow> Pending \<Rightarrow> 'd OpusRtpDecoder \<Rightarrow> 'd OpusRtpDecoder \<times> pcm list" where
  "od_play opus now packet s =
     (if now - pe_arrival packet > 120000 then (od_restart opus s, [])
      else
        let duration = opus_samples opus (pe_bytes packet) in
        if duration \<le> 0 \<or> duration > 5760 then (od_restart opus s, [])
        else
          let gap = (case od_end s of None \<Rightarrow> 0 | Some e \<Rightarrow> timestamp_gap (pe_timestamp packet) e) in
          if gap < 0 then (s, [])
          else
            let (s1, out1) =
              (if gap > 0 then
                 if gap \<le> 5760 \<and> gap mod 120 = 0
                 then (case od_decode opus None gap s of (s', _, out) \<Rightarrow> (s', out))
                 else (fst (od_recreate opus s), [])
               else (s, []));
                (s2, ok, out2) = od_decode opus (Some (pe_bytes packet)) 5760 s1
            in if ok then (s2\<lparr>od_end := Some (pe_timestamp packet + of_int duration)\<rparr>, out1 @ out2)
               else (od_restart opus s2, out1 @ out2))"

fun od_tick_loop :: "'d Opus \<Rightarrow> int \<Rightarrow> nat \<Rightarrow> 'd OpusRtpDecoder \<Rightarrow> 'd OpusRtpDecoder \<times> pcm list" where
  "od_tick_loop opus now 0 s = (s, [])"
| "od_tick_loop opus now (Suc budget) s =
     (case od_pick now s of
        None \<Rightarrow> (s, [])
      | Some (q, packet) \<Rightarrow>
          let s1 = s\<lparr>od_pending := filter (\<lambda>c. fst c \<noteq> q) (od_pending s), od_expected := q + 1, od_played := True\<rparr>;
              (s2, out) = od_play opus now packet s1;
              (s3, out') = od_tick_loop opus now budget s2
          in (s3, out @ out'))"

definition od_Tick :: "'d Opus \<Rightarrow> int \<Rightarrow> 'd OpusRtpDecoder \<Rightarrow> 'd OpusRtpDecoder \<times> pcm list" where
  "od_Tick opus now s = od_tick_loop opus now 16 s"

definition od_Receive :: "'d Opus \<Rightarrow> bytes \<Rightarrow> int \<Rightarrow> 'd OpusRtpDecoder \<Rightarrow> 'd OpusRtpDecoder \<times> pcm list" where
  "od_Receive opus data now s =
     (case parseRtp data of
        None \<Rightarrow> (s, [])
      | Some packet \<Rightarrow>
          if rtp_payloadType packet \<noteq> od_payloadType s \<or> length (rtp_payload packet) > 8192 \<or> now < 0 then (s, [])
          else
            let s1 = (if od_ssrc s \<noteq> None \<and> od_ssrc s \<noteq> Some (rtp_ssrc packet) then od_Reset s else s);
                s2 = (if od_ssrc s1 = None then s1\<lparr>od_ssrc := Some (rtp_ssrc packet), od_expected := rtp_sequence packet\<rparr> else s1);
                delta = sequenceDelta (rtp_sequence packet) (od_expected s2) in
            if delta < 0 \<and> (od_played s2 \<or> delta < - 16) then (s2, [])
            else
              let s3 = (if delta < 0 then s2\<lparr>od_expected := rtp_sequence packet\<rparr> else s2) in
              if rtp_sequence packet \<in> fst ` set (od_pending s3) then (s3, [])
              else
                let s4 = (if length (od_pending s3) \<ge> 16
                          then (od_Reset s3)\<lparr>od_ssrc := Some (rtp_ssrc packet), od_expected := rtp_sequence packet\<rparr> else s3);
                    s5 = s4\<lparr>od_pending := (rtp_sequence packet,
                             \<lparr>pe_bytes = rtp_payload packet, pe_timestamp = rtp_timestamp packet, pe_arrival = now\<rparr>) # od_pending s4\<rparr>
                in od_Tick opus now s5)"

section \<open>The buffer\<close>

definition od_inv :: "'d OpusRtpDecoder \<Rightarrow> bool" where
  "od_inv s \<longleftrightarrow> distinct (map fst (od_pending s)) \<and> length (od_pending s) \<le> 16"

text \<open>Playing leaves the buffer and the next sequence number alone.\<close>

lemma od_recreate_buffer: "od_pending (fst (od_recreate opus s)) = od_pending s" "od_expected (fst (od_recreate opus s)) = od_expected s"
  "od_callback (fst (od_recreate opus s)) = od_callback s"
  by (simp_all add: od_recreate_def split: prod.split)

lemma od_decode_result:
  assumes "od_decode opus data capacity s = (s', ok, out)"
  shows "od_pending s' = od_pending s \<and> od_expected s' = od_expected s \<and>
    (\<forall>pcm \<in> set out. \<exists>frames. 1 \<le> frames \<and> frames \<le> capacity \<and> length pcm = 2 * nat frames) \<and> length out \<le> 1"
proof -
  obtain s1 ready where r: "(if od_decoder s = None then od_recreate opus s else (s, True)) = (s1, ready)" by fastforce
  have b: "od_pending s1 = od_pending s" "od_expected s1 = od_expected s"
    using r od_recreate_buffer [of opus s] by (auto split: if_splits)
  note e = assms [unfolded od_decode_def r prod.case]
  show ?thesis
  proof (cases "\<not> ready \<or> od_decoder s1 = None")
    case True
    then show ?thesis using e b by (auto split: if_splits option.splits)
  next
    case False
    then obtain d where d: "ready" "od_decoder s1 = Some d" by auto
    obtain frames stored d' where f: "opus_decode opus d data capacity = (frames, stored, d')" by (metis prod_cases3)
    have len: "length (take (nat (frames * 2)) (take (nat (capacity * 2)) (stored @ replicate (nat (capacity * 2)) 0))) = 2 * nat frames"
      if "0 < frames" "frames \<le> capacity"
    proof -
      let ?pcm = "take (nat (capacity * 2)) (stored @ replicate (nat (capacity * 2)) 0)"
      have "nat (frames * 2) \<le> nat (capacity * 2)" using that by simp
      then have "nat (frames * 2) \<le> length ?pcm" by simp
      then have "length (take (nat (frames * 2)) ?pcm) = nat (frames * 2)" by (simp only: length_take min.absorb2)
      then show ?thesis using that(1) by (simp add: nat_mult_distrib)
    qed
    let ?pcm = "take (nat (frames * 2)) (take (nat (capacity * 2)) (stored @ replicate (nat (capacity * 2)) 0))"
    have "(if \<not> ready then (s1, False, [])
          else case od_decoder s1 of None \<Rightarrow> (s1, False, [])
          | Some d \<Rightarrow> (case opus_decode opus d data capacity of (frames, stored, d') \<Rightarrow>
              let s' = s1\<lparr>od_decoder := Some d'\<rparr>; pcm = take (nat (capacity * 2)) (stored @ replicate (nat (capacity * 2)) 0) in
              if frames \<le> 0 \<or> frames > capacity then (s', False, [])
              else (s', True, if od_callback s' then [take (nat (frames * 2)) pcm] else []))) =
        (if frames \<le> 0 \<or> frames > capacity then (s1\<lparr>od_decoder := Some d'\<rparr>, False, [])
         else (s1\<lparr>od_decoder := Some d'\<rparr>, True, if od_callback s1 then [?pcm] else []))"
      using d f by (simp add: Let_def)
    with e have r: "(s', ok, out) = (if frames \<le> 0 \<or> frames > capacity then (s1\<lparr>od_decoder := Some d'\<rparr>, False, [])
         else (s1\<lparr>od_decoder := Some d'\<rparr>, True, if od_callback s1 then [?pcm] else []))" by (rule trans [OF sym])
    show ?thesis
    proof (cases "frames \<le> 0 \<or> frames > capacity")
      case True
      then show ?thesis using r b by simp
    next
      case False
      then have f: "1 \<le> frames" "frames \<le> capacity" "length ?pcm = 2 * nat frames" using len by auto
      have "s' = s1\<lparr>od_decoder := Some d'\<rparr>" "out = [] \<or> out = [?pcm]" using r False by simp_all
      moreover have "\<exists>fr. 1 \<le> fr \<and> fr \<le> capacity \<and> length p = 2 * nat fr" if "p = ?pcm" for p
        using f unfolding that by blast
      ultimately show ?thesis using b by (elim disjE) (simp, force)
    qed
  qed
qed

lemma od_play_result:
  assumes "od_play opus now packet s = (s', out)"
  shows "od_pending s' = od_pending s \<and> od_expected s' = od_expected s \<and>
    (\<forall>pcm \<in> set out. \<exists>frames. 1 \<le> frames \<and> frames \<le> 5760 \<and> length pcm = 2 * nat frames) \<and> length out \<le> 2"
proof -
  have rs: "od_pending (od_restart opus x) = od_pending x" "od_expected (od_restart opus x) = od_expected x" for x
    by (simp_all add: od_restart_def od_recreate_buffer)
  let ?gap = "case od_end s of None \<Rightarrow> 0 | Some e \<Rightarrow> timestamp_gap (pe_timestamp packet) e"
  let ?dur = "opus_samples opus (pe_bytes packet)"
  show ?thesis
  proof (cases "now - pe_arrival packet > 120000 \<or> ?dur \<le> 0 \<or> ?dur > 5760 \<or> ?gap < 0")
    case True
    then show ?thesis using assms rs by (auto simp: od_play_def Let_def split: if_splits)
  next
    case False
    obtain s1 out1 where c: "(if ?gap > 0 then if ?gap \<le> 5760 \<and> ?gap mod 120 = 0
        then (case od_decode opus None ?gap s of (s', _, out) \<Rightarrow> (s', out)) else (fst (od_recreate opus s), []) else (s, [])) = (s1, out1)"
      by fastforce
    obtain s2 ok out2 where d: "od_decode opus (Some (pe_bytes packet)) 5760 s1 = (s2, ok, out2)" by (metis prod_cases3)
    have r: "(s', out) = (if ok then (s2\<lparr>od_end := Some (pe_timestamp packet + of_int ?dur)\<rparr>, out1 @ out2) else (od_restart opus s2, out1 @ out2))"
      using False assms c d by (simp add: od_play_def Let_def)
    have one: "od_pending s1 = od_pending s \<and> od_expected s1 = od_expected s \<and>
      (\<forall>pcm \<in> set out1. \<exists>frames. 1 \<le> frames \<and> frames \<le> 5760 \<and> length pcm = 2 * nat frames) \<and> length out1 \<le> 1"
    proof (cases "?gap > 0 \<and> ?gap \<le> 5760 \<and> ?gap mod 120 = 0")
      case True
      obtain s0 okk out0 where e: "od_decode opus None ?gap s = (s0, okk, out0)" by (metis prod_cases3)
      from od_decode_result [OF e] True c e show ?thesis by (auto dest: order_trans)
    next
      case False
      then show ?thesis using c od_recreate_buffer [of opus s] by (auto split: if_splits)
    qed
    from od_decode_result [OF d] one r rs show ?thesis by (auto split: if_splits)
  qed
qed

text \<open>The search finds the packet at the least distance ahead.\<close>

lemma od_nearest_fold:
  assumes "fold (\<lambda>c (nearest, it). let distance = sequenceDelta (fst c) expected in
             if distance \<ge> 0 \<and> distance < nearest then (distance, Some c) else (nearest, it)) cs (n0, it0) = (n, it)"
  shows "n \<le> n0 \<and> (\<forall>c \<in> set cs. sequenceDelta (fst c) expected \<ge> 0 \<longrightarrow> n \<le> sequenceDelta (fst c) expected) \<and>
    (it = it0 \<and> n = n0 \<or> (\<exists>c \<in> set cs. it = Some c \<and> n = sequenceDelta (fst c) expected \<and> 0 \<le> n))"
  using assms
proof (induction cs arbitrary: n0 it0)
  case (Cons c cs)
  let ?d = "sequenceDelta (fst c) expected"
  let ?n = "if ?d \<ge> 0 \<and> ?d < n0 then ?d else n0" and ?it = "if ?d \<ge> 0 \<and> ?d < n0 then Some c else it0"
  have "fold (\<lambda>c (nearest, it). let distance = sequenceDelta (fst c) expected in
             if distance \<ge> 0 \<and> distance < nearest then (distance, Some c) else (nearest, it)) cs (?n, ?it) = (n, it)"
    using Cons.prems by (auto simp: Let_def)
  from Cons.IH [OF this] show ?case by (auto split: if_splits)
qed simp

lemma sequenceDelta_uint: "sequenceDelta a b = (if uint (a - b) < 32768 then uint (a - b) else uint (a - b) - 65536)"
  by (simp add: sequenceDelta_def Let_def unat_less_uint)

lemma sequenceDelta_self [simp]: "sequenceDelta a a = 0"
  by (simp add: sequenceDelta_def)

lemma od_pick_result:
  assumes "od_pick now s = Some (q, p)" "distinct (map fst (od_pending s))"
  shows "(q, p) \<in> set (od_pending s) \<and> 0 \<le> sequenceDelta q (od_expected s) \<and>
    (\<forall>c \<in> set (od_pending s). sequenceDelta (fst c) (od_expected s) \<ge> 0 \<longrightarrow> sequenceDelta q (od_expected s) \<le> sequenceDelta (fst c) (od_expected s)) \<and>
    now - pe_arrival p \<ge> (if q = od_expected s then 20000 else 40000)"
proof (cases "map_of (od_pending s) (od_expected s)")
  case (Some p')
  with assms(1) have "q = od_expected s" "p = p'" "now - pe_arrival p \<ge> 20000" by (auto simp: od_pick_def split: if_splits)
  then show ?thesis using map_of_SomeD [OF Some] by simp
next
  case None
  obtain n it where f: "od_nearest (od_expected s) (od_pending s) = (n, it)" by fastforce
  from assms(1) None f have it: "it = Some (q, p)" "now - pe_arrival p \<ge> 40000" by (auto simp: od_pick_def split: option.splits if_splits)
  note r = od_nearest_fold [OF f [unfolded od_nearest_def]]
  from r it(1) have q: "(q, p) \<in> set (od_pending s)" "n = sequenceDelta q (od_expected s)" "0 \<le> n" by auto
  moreover have "q \<noteq> od_expected s" using None q(1) by (metis map_of_eq_None_iff fst_conv image_eqI)
  ultimately show ?thesis using r it(2) by auto
qed

lemma od_inv_remove:
  assumes "od_inv s"
  shows "od_inv (s\<lparr>od_pending := filter (\<lambda>c. fst c \<noteq> q) (od_pending s), od_expected := e, od_played := b\<rparr>)"
  using assms by (auto simp: od_inv_def distinct_map_filter intro: le_trans [OF length_filter_le])

lemma od_tick_loop_result:
  "od_tick_loop opus now budget s = (s', out) \<Longrightarrow> od_inv s \<Longrightarrow>
    od_inv s' \<and> set (od_pending s') \<subseteq> set (od_pending s) \<and> length out \<le> 2 * budget \<and>
    (\<forall>pcm \<in> set out. \<exists>frames. 1 \<le> frames \<and> frames \<le> 5760 \<and> length pcm = 2 * nat frames)"
proof (induction opus now budget s arbitrary: s' out rule: od_tick_loop.induct)
  case (2 opus now budget s)
  show ?case
  proof (cases "od_pick now s")
    case None
    with 2(2,3) show ?thesis by simp
  next
    case (Some c)
    obtain q packet where c: "c = (q, packet)" by fastforce
    let ?s1 = "s\<lparr>od_pending := filter (\<lambda>c. fst c \<noteq> q) (od_pending s), od_expected := q + 1, od_played := True\<rparr>"
    obtain s2 out1 where p: "od_play opus now packet ?s1 = (s2, out1)" by fastforce
    obtain s3 out2 where l: "od_tick_loop opus now budget s2 = (s3, out2)" by fastforce
    have r: "s' = s3" "out = out1 @ out2" using 2(2) Some c p l by (simp_all add: Let_def)
    note pr = od_play_result [OF p]
    have i: "od_inv s2" using pr od_inv_remove [OF 2(3), where q = q] by (simp add: od_inv_def)
    from 2(1) [OF Some c [symmetric] refl p [symmetric] refl l i] show ?thesis using pr r by auto
  qed
qed simp

lemma fold_range:
  fixes x y :: int
  shows "x < 65536 \<Longrightarrow> y < 65536 \<Longrightarrow> 0 \<le> x \<Longrightarrow> 0 \<le> y \<Longrightarrow>
    (if x < 32768 then x else x - 65536) = (if y < 32768 then y else y - 65536) \<Longrightarrow> x = y"
  by (auto split: if_splits)

section \<open>Properties\<close>

text \<open>C29: The jitter buffer never holds more than 16 packets nor two of the same number, whatever
  arrives and however libopus answers, and every callback gets a whole number of stereo frames,
  at most 5760 of them, in at most 32 calls per packet or tick.\<close>

theorem od_buffer_bounded:
  assumes "od_inv s"
  shows "od_inv (od_Reset s) \<and> od_inv (fst (od_Configure opus pt cb s)) \<and>
    od_inv (fst (od_Tick opus now s)) \<and> od_inv (fst (od_Receive opus data now s)) \<and>
    (\<forall>pcm \<in> set (snd (od_Receive opus data now s)) \<union> set (snd (od_Tick opus now s)).
       \<exists>frames. 1 \<le> frames \<and> frames \<le> 5760 \<and> length pcm = 2 * nat frames) \<and>
    length (snd (od_Tick opus now s)) \<le> 32 \<and> length (snd (od_Receive opus data now s)) \<le> 32"
proof -
  have tick: "od_inv (fst (od_Tick opus now x)) \<and> length (snd (od_Tick opus now x)) \<le> 32 \<and>
    (\<forall>pcm \<in> set (snd (od_Tick opus now x)). \<exists>frames. 1 \<le> frames \<and> frames \<le> 5760 \<and> length pcm = 2 * nat frames)"
    if "od_inv x" for x
    using od_tick_loop_result [of opus now 16 x, OF surjective_pairing that] unfolding od_Tick_def by simp
  have reset: "od_inv (od_Reset x)" for x :: "'a OpusRtpDecoder" by (simp add: od_Reset_def od_inv_def)
  have conf: "od_inv (fst (od_Configure opus pt cb s))"
    by (simp add: od_Configure_def od_inv_def od_recreate_buffer) (simp add: od_Reset_def)
  have recv: "od_inv (fst (od_Receive opus data now s)) \<and> length (snd (od_Receive opus data now s)) \<le> 32 \<and>
    (\<forall>pcm \<in> set (snd (od_Receive opus data now s)). \<exists>frames. 1 \<le> frames \<and> frames \<le> 5760 \<and> length pcm = 2 * nat frames)"
  proof (cases "parseRtp data")
    case None
    then show ?thesis using assms by (simp add: od_Receive_def)
  next
    case (Some packet)
    let ?q = "rtp_sequence packet"
    define s1 where "s1 = (if od_ssrc s \<noteq> None \<and> od_ssrc s \<noteq> Some (rtp_ssrc packet) then od_Reset s else s)"
    define s2 where "s2 = (if od_ssrc s1 = None then s1\<lparr>od_ssrc := Some (rtp_ssrc packet), od_expected := ?q\<rparr> else s1)"
    define delta where "delta = sequenceDelta ?q (od_expected s2)"
    define s3 where "s3 = (if delta < 0 then s2\<lparr>od_expected := ?q\<rparr> else s2)"
    define s4 where "s4 = (if length (od_pending s3) \<ge> 16
      then (od_Reset s3)\<lparr>od_ssrc := Some (rtp_ssrc packet), od_expected := ?q\<rparr> else s3)"
    define s5 where "s5 = s4\<lparr>od_pending := (?q, \<lparr>pe_bytes = rtp_payload packet, pe_timestamp = rtp_timestamp packet, pe_arrival = now\<rparr>) # od_pending s4\<rparr>"
    have r: "od_Receive opus data now s =
      (if rtp_payloadType packet \<noteq> od_payloadType s \<or> length (rtp_payload packet) > 8192 \<or> now < 0 then (s, [])
       else if delta < 0 \<and> (od_played s2 \<or> delta < - 16) then (s2, [])
       else if ?q \<in> fst ` set (od_pending s3) then (s3, [])
       else od_Tick opus now s5)"
      unfolding od_Receive_def Some option.case Let_def s1_def [symmetric] s2_def [symmetric] delta_def [symmetric]
        s3_def [symmetric] s4_def [symmetric] s5_def [symmetric] ..
    have i2: "od_inv s2" using assms reset by (auto simp: s2_def s1_def od_inv_def)
    have i3: "od_inv s3" using i2 by (simp add: s3_def od_inv_def)
    have i5: "od_inv s5" if "?q \<notin> fst ` set (od_pending s3)" using i3 that by (auto simp: s5_def s4_def od_inv_def od_Reset_def)
    show ?thesis unfolding r using assms i2 i3 tick [OF i5] by simp
  qed
  show ?thesis using reset conf tick [OF assms] recv by blast
qed

text \<open>A decoder that plays 120 samples of silence for every packet.\<close>

definition demo_opus :: "unit Opus" where
  "demo_opus = \<lparr>opus_create = (Some (), 0), opus_samples = (\<lambda>_. 120), opus_decode = (\<lambda>_ _ _. (120, [], ()))\<rparr>"

definition demo_od :: "unit OpusRtpDecoder" where
  "demo_od = OpusRtpDecoder_init\<lparr>od_callback := True, od_ssrc := Some 7, od_expected := 65535,
     od_pending := [(0, \<lparr>pe_bytes = [1], pe_timestamp = 120, pe_arrival = 0\<rparr>), (65535, \<lparr>pe_bytes = [2], pe_timestamp = 0, pe_arrival = 0\<rparr>)]\<rparr>"

theorem od_buffer_bounded_witness:
  "od_inv (fst (od_Tick demo_opus 50000 demo_od)) \<and> length (snd (od_Tick demo_opus 50000 demo_od)) \<le> 32 \<and>
    od_pending demo_od \<noteq> []"
proof -
  have "od_inv demo_od" by (simp add: demo_od_def OpusRtpDecoder_init_def od_inv_def)
  note r = od_buffer_bounded [OF this, of demo_opus 111 True 50000 "[]"]
  have "od_pending demo_od \<noteq> []" by (simp add: demo_od_def)
  then show ?thesis using r by blast
qed



end
