(* ===== verification/AudioOutput.thy ===== *)
theory AudioOutput
  imports AudioPcmQueue Floats
begin

text \<open>
  \<open>src/macos/receiver/audio_output.cpp\<close>: the device worker between the PCM queue and Core Audio. The
  threads are the worker, one control thread that calls \<open>start\<close>, \<open>setDevice\<close> and \<open>stop\<close>, the
  completion callbacks of the device, and any number of callers of \<open>push\<close> and \<open>setMuted\<close>. A step is
  one critical section of \<open>m_\<close> or the code between two of them; the program counters say which
  comes next. Core Audio is a parameter: the answers of its calls are arguments of the worker's steps,
  and of a queue it is assumed that a new one differs from all earlier ones and that completion
  callbacks come only for buffers the device holds, of a queue that was started and not yet disposed.
  The 64-bit counters are natural numbers.
\<close>

section \<open>State\<close>

datatype ao_error =
  AlreadyRunning | CommandInFlight | TimedOut | EndpointGone | OutputStopped | UnknownCommand
| NoOutputDevice | OSError string int | NoUID

datatype command = CmdNone | CmdStart | CmdSetDevice

type_synonym queue_ref = nat
type_synonym buffer_ref = "queue_ref \<times> nat"

definition kBufferCount :: nat where
  "kBufferCount = 4"

text \<open>\<open>size_t(sampleRate * seconds) * channels\<close> with a \<open>double\<close> product.\<close>

definition elements_of :: "u32 \<Rightarrow> u32 \<Rightarrow> rat \<Rightarrow> nat" where
  "elements_of sampleRate channels seconds = nat \<lfloor>fl64 (of_int (uint sampleRate) * fl64 seconds)\<rfloor> * unat channels"

record AudioOutput =
  ao_rate :: u32
  ao_channels :: u32
  ao_queue :: pcm_queue
  ao_bufferElements :: nat
  ao_free :: "buffer_ref list"
  ao_stopRequested :: bool
  ao_workerAlive :: bool
  ao_running :: bool
  ao_muted :: bool
  ao_cmdPending :: bool
  ao_cmdDone :: bool
  ao_cmdKind :: command
  ao_cmdDevice :: u32
  ao_cmdOk :: bool
  ao_cmdError :: "ao_error option"
  ao_aq :: "queue_ref option"
  ao_deviceID :: u32
  ao_startAt :: "int option"
  ao_buffersCompleted :: nat
  ao_mutedBuffers :: nat
  ao_enqueuedFrames :: nat
  ao_underruns :: nat
  ao_enqueueErrors :: nat

definition AudioOutput_init :: "u32 \<Rightarrow> u32 \<Rightarrow> AudioOutput" where
  "AudioOutput_init sampleRate channels =
     \<lparr>ao_rate = sampleRate, ao_channels = channels,
      ao_queue = pq_new (elements_of sampleRate channels 0.4) (elements_of sampleRate channels 0.12)
        (elements_of sampleRate channels 0.04),
      ao_bufferElements = elements_of sampleRate channels 0.02, ao_free = [], ao_stopRequested = False,
      ao_workerAlive = False, ao_running = False, ao_muted = False, ao_cmdPending = False, ao_cmdDone = False,
      ao_cmdKind = CmdNone, ao_cmdDevice = 0, ao_cmdOk = False, ao_cmdError = None, ao_aq = None, ao_deviceID = 0,
      ao_startAt = None, ao_buffersCompleted = 0, ao_mutedBuffers = 0, ao_enqueuedFrames = 0, ao_underruns = 0,
      ao_enqueueErrors = 0\<rparr>"

section \<open>The control thread's critical sections\<close>

text \<open>\<open>Start\<close> up to the creation of the thread; \<open>joinable\<close> is \<open>worker_.joinable()\<close>.\<close>

definition ao_start_locked :: "bool \<Rightarrow> AudioOutput \<Rightarrow> AudioOutput \<times> ao_error option" where
  "ao_start_locked joinable s =
     (if joinable then (s, Some AlreadyRunning) else (s\<lparr>ao_stopRequested := False, ao_workerAlive := True\<rparr>, None))"

definition ao_stop_request :: "AudioOutput \<Rightarrow> AudioOutput" where
  "ao_stop_request s =
     (let s1 = s\<lparr>ao_stopRequested := True\<rparr> in
      if ao_cmdPending s1
      then s1\<lparr>ao_cmdOk := False, ao_cmdError := Some OutputStopped, ao_cmdPending := False, ao_cmdDone := True\<rparr>
      else s1)"

definition ao_stop_finish :: "AudioOutput \<Rightarrow> AudioOutput" where
  "ao_stop_finish s = s\<lparr>ao_free := [], ao_running := False, ao_startAt := None\<rparr>"

text \<open>\<open>RunCommand\<close> up to its wait, the wait's condition, and what it returns after it.\<close>

definition ao_submit :: "command \<Rightarrow> u32 \<Rightarrow> AudioOutput \<Rightarrow> AudioOutput \<times> ao_error option" where
  "ao_submit kind device s =
     (if ao_cmdPending s then (s, Some CommandInFlight)
      else (s\<lparr>ao_cmdKind := kind, ao_cmdDevice := device, ao_cmdPending := True, ao_cmdDone := False, ao_cmdOk := False,
              ao_cmdError := None\<rparr>, None))"

definition ao_answered :: "AudioOutput \<Rightarrow> bool" where
  "ao_answered s \<longleftrightarrow> ao_cmdDone s \<or> \<not> ao_workerAlive s"

definition ao_result :: "AudioOutput \<Rightarrow> ao_error option" where
  "ao_result s =
     (if \<not> ao_answered s then Some TimedOut
      else if \<not> ao_cmdOk s then Some (case ao_cmdError s of None \<Rightarrow> EndpointGone | Some e \<Rightarrow> e)
      else None)"

definition ao_SetMuted :: "bool \<Rightarrow> AudioOutput \<Rightarrow> AudioOutput" where
  "ao_SetMuted muted s = s\<lparr>ao_muted := muted\<rparr>"

definition ao_push :: "nat \<Rightarrow> sample list option \<Rightarrow> AudioOutput \<Rightarrow> AudioOutput" where
  "ao_push elapsed pcm s =
     (case pcm of
        None \<Rightarrow> s
      | Some data \<Rightarrow> if data = [] then s else s\<lparr>ao_queue := pq_push elapsed data (ao_queue s)\<rparr>)"

text \<open>\<open>GetStats\<close>, without the name and the rate of the device; times in nanoseconds.\<close>

record AudioStats =
  as_pushedElements :: nat
  as_poppedElements :: nat
  as_droppedElements :: nat
  as_depth :: nat
  as_depthHigh :: nat
  as_pushMaxNs :: nat
  as_underruns :: nat
  as_mutedBuffers :: nat
  as_buffersCompleted :: nat
  as_enqueuedFrames :: nat
  as_enqueueErrors :: nat
  as_deviceID :: u32
  as_playSeconds :: rat
  as_wallSeconds :: rat
  as_running :: bool
  as_muted :: bool

definition ao_GetStats :: "int \<Rightarrow> AudioOutput \<Rightarrow> AudioStats" where
  "ao_GetStats now s =
     (let q = pq_stats (ao_queue s) in
      \<lparr>as_pushedElements = ps_pushedElements q, as_poppedElements = ps_poppedElements q,
       as_droppedElements = ps_droppedElements q, as_depth = pq_depth (ao_queue s), as_depthHigh = ps_depthHigh q,
       as_pushMaxNs = ps_pushMaxNs q, as_underruns = ao_underruns s, as_mutedBuffers = ao_mutedBuffers s,
       as_buffersCompleted = ao_buffersCompleted s, as_enqueuedFrames = ao_enqueuedFrames s,
       as_enqueueErrors = ao_enqueueErrors s, as_deviceID = ao_deviceID s,
       as_playSeconds = fl64 (fl64 (of_nat (ao_buffersCompleted s)) * fl64 0.02),
       as_wallSeconds =
         (case ao_startAt s of
            None \<Rightarrow> 0
          | Some t \<Rightarrow> if ao_running s then fl64 (fl64 (of_int (now - t)) / 1000000000) else 0),
       as_running = ao_running s, as_muted = ao_muted s\<rparr>)"

section \<open>The device\<close>

text \<open>Which queues exist and were started, which buffers the device holds, and their samples.\<close>

record Device =
  dv_next :: queue_ref
  dv_live :: "queue_ref set"
  dv_started :: "queue_ref set"
  dv_held :: "buffer_ref set"
  dv_data :: "buffer_ref \<Rightarrow> sample list"

definition dv_dispose :: "queue_ref option \<Rightarrow> Device \<Rightarrow> Device" where
  "dv_dispose queue d =
     (case queue of
        None \<Rightarrow> d
      | Some q \<Rightarrow> d\<lparr>dv_live := dv_live d - {q}, dv_started := dv_started d - {q}, dv_held := {b \<in> dv_held d. fst b \<noteq> q}\<rparr>)"

text \<open>The answers while a queue is built: the default device (asked twice), \<open>AudioQueueNewOutput\<close>, the
  device's UID, \<open>AudioQueueSetProperty\<close>, the statuses of the allocations and of the first
  \<open>AudioQueueEnqueueBuffer\<close> calls, and \<open>AudioQueueStart\<close>; the status of a later enqueue; the time a push
  took and the clock.\<close>

record Answers =
  an_default :: u32
  an_newOutput :: int
  an_uid :: bool
  an_setProperty :: int
  an_allocate :: "nat \<Rightarrow> int"
  an_prime :: "nat \<Rightarrow> int"
  an_start :: int
  an_enqueue :: int
  an_elapsed :: nat
  an_now :: int

definition buffers_of :: "queue_ref \<Rightarrow> buffer_ref list" where
  "buffers_of q = map (\<lambda>i. (q, i)) [0..<kBufferCount]"

text \<open>From \<open>AudioQueueNewOutput\<close> to the primed queue; a queue that cannot be completed is disposed.\<close>

definition ao_build :: "Answers \<Rightarrow> u32 \<Rightarrow> nat \<Rightarrow> Device \<Rightarrow> Device \<times> (ao_error + queue_ref)" where
  "ao_build a target elements d =
     (if an_newOutput a \<noteq> 0 then (d, Inl (OSError ''AudioQueueNewOutput'' (an_newOutput a)))
      else
        let q = dv_next d; d1 = d\<lparr>dv_next := q + 1, dv_live := insert q (dv_live d)\<rparr> in
        if target \<noteq> an_default a \<and> \<not> an_uid a then (dv_dispose (Some q) d1, Inl NoUID)
        else if target \<noteq> an_default a \<and> an_setProperty a \<noteq> 0
        then (dv_dispose (Some q) d1, Inl (OSError ''AudioQueueSetProperty(CurrentDevice)'' (an_setProperty a)))
        else
          (case find (\<lambda>i. an_allocate a i \<noteq> 0) [0..<kBufferCount] of
             Some i \<Rightarrow> (dv_dispose (Some q) d1, Inl (OSError ''AudioQueueAllocateBuffer'' (an_allocate a i)))
           | None \<Rightarrow>
               let d2 = d1\<lparr>dv_data := (\<lambda>b. if b \<in> set (buffers_of q) then replicate elements 0 else dv_data d1 b)\<rparr> in
               (case find (\<lambda>i. an_prime a i \<noteq> 0) [0..<kBufferCount] of
                  Some i \<Rightarrow> (dv_dispose (Some q) d2, Inl (OSError ''AudioQueueEnqueueBuffer'' (an_prime a i)))
                | None \<Rightarrow> (d2\<lparr>dv_held := dv_held d2 \<union> set (buffers_of q)\<rparr>, Inr q))))"

section \<open>The worker\<close>

text \<open>Where the worker is: in \<open>WorkerLoop\<close> (at its wait, in \<open>FillBuffer\<close>, before the enqueue), in
  \<open>ExecuteCommand\<close> and \<open>CreateQueue\<close>, and after the loop.\<close>

datatype worker_pc =
  NotStarted | AtWait | Filling buffer_ref | Enqueueing buffer_ref
| ReadCommand | ChooseTarget command u32 | Build u32 | Swap queue_ref u32
| DisposePrevious queue_ref u32 "queue_ref option" | StartQueue queue_ref u32 | GiveUp queue_ref ao_error
| Reservoir u32 | Publish u32 | Finish "ao_error option"
| DisposeLast "queue_ref option" | LastSection | Exited

text \<open>\<open>FillBuffer\<close>: the samples for the buffer. The mute flag is read in a critical section of its own,
  but nothing between the pop and that reads it, so the two are one step.\<close>

definition ao_FillBuffer :: "AudioOutput \<Rightarrow> AudioOutput \<times> sample list" where
  "ao_FillBuffer s =
     (let (got, q) = pq_pop (ao_bufferElements s) (ao_queue s);
          short = length got < ao_bufferElements s;
          dst = (if short then got @ replicate (ao_bufferElements s - length got) 0 else got);
          s1 = s\<lparr>ao_queue := q, ao_underruns := ao_underruns s + (if short then 1 else 0),
                 ao_mutedBuffers := ao_mutedBuffers s + (if ao_muted s then 1 else 0),
                 ao_enqueuedFrames := ao_enqueuedFrames s + ao_bufferElements s div unat (ao_channels s)\<rparr>
      in (s1, if ao_muted s then replicate (ao_bufferElements s) 0 else dst))"

text \<open>The section after the loop.\<close>

definition ao_end :: "AudioOutput \<Rightarrow> AudioOutput" where
  "ao_end s = s\<lparr>ao_aq := None, ao_free := [], ao_running := False, ao_cmdPending := False, ao_cmdDone := True\<rparr>"

definition ao_reset_counters :: "nat \<Rightarrow> AudioOutput \<Rightarrow> AudioOutput" where
  "ao_reset_counters elapsed s =
     (let silence = replicate (elements_of (ao_rate s) (ao_channels s) 0.04) 0 in
      s\<lparr>ao_queue := pq_push elapsed silence (pq_clear (ao_queue s)), ao_buffersCompleted := 0, ao_mutedBuffers := 0,
        ao_enqueuedFrames := 0, ao_underruns := 0, ao_enqueueErrors := 0\<rparr>)"

fun worker_step :: "Answers \<Rightarrow> AudioOutput \<Rightarrow> Device \<Rightarrow> worker_pc \<Rightarrow> AudioOutput \<times> Device \<times> worker_pc" where
  "worker_step a s d NotStarted = (s, d, NotStarted)"
| "worker_step a s d AtWait =
     (if ao_stopRequested s then (ao_end s, d, DisposeLast (ao_aq s))
      else if ao_cmdPending s then (s, d, ReadCommand)
      else if ao_free s \<noteq> [] then (s\<lparr>ao_free := butlast (ao_free s)\<rparr>, d, Filling (last (ao_free s)))
      else (s, d, AtWait))"
| "worker_step a s d (Filling b) =
     (case ao_FillBuffer s of (s', dst) \<Rightarrow> (s', d\<lparr>dv_data := (dv_data d)(b := dst)\<rparr>, Enqueueing b))"
| "worker_step a s d (Enqueueing b) =
     (if ao_stopRequested s then (ao_end s, d, DisposeLast (ao_aq s))
      else if ao_aq s = None then (s, d, AtWait)
      else if an_enqueue a \<noteq> 0
      then (ao_end (s\<lparr>ao_enqueueErrors := ao_enqueueErrors s + 1\<rparr>), d, DisposeLast (ao_aq s))
      else (s, d\<lparr>dv_held := insert b (dv_held d)\<rparr>, AtWait))"
| "worker_step a s d ReadCommand = (s, d, ChooseTarget (ao_cmdKind s) (ao_cmdDevice s))"
| "worker_step a s d (ChooseTarget kind device) =
     (if kind = CmdNone then (s, d, Finish (Some UnknownCommand))
      else
        let target = (if device \<noteq> 0 then device else if ao_deviceID s \<noteq> 0 then ao_deviceID s else an_default a) in
        if target = 0 then (s, d, Finish (Some NoOutputDevice)) else (s, d, Build target))"
| "worker_step a s d (Build target) =
     (case ao_build a target (ao_bufferElements s) d of
        (d', Inl e) \<Rightarrow> (s, d', Finish (Some e))
      | (d', Inr q) \<Rightarrow> (s, d', Swap q target))"
| "worker_step a s d (Swap q target) = (s\<lparr>ao_aq := Some q, ao_free := []\<rparr>, d, DisposePrevious q target (ao_aq s))"
| "worker_step a s d (DisposePrevious q target previous) = (s, dv_dispose previous d, StartQueue q target)"
| "worker_step a s d (StartQueue q target) =
     (if an_start a \<noteq> 0
      then (s\<lparr>ao_aq := None\<rparr>, d, GiveUp q (OSError ''AudioQueueStart'' (an_start a)))
      else (s, d\<lparr>dv_started := insert q (dv_started d)\<rparr>, Reservoir target))"
| "worker_step a s d (Reservoir target) = (ao_reset_counters (an_elapsed a) s, d, Publish target)"
| "worker_step a s d (GiveUp q e) = (s, dv_dispose (Some q) d, Finish (Some e))"
| "worker_step a s d (Publish target) =
     (s\<lparr>ao_deviceID := target, ao_startAt := Some (an_now a), ao_running := True\<rparr>, d, Finish None)"
| "worker_step a s d (Finish e) =
     (s\<lparr>ao_cmdOk := (e = None), ao_cmdError := e, ao_cmdPending := False, ao_cmdDone := True\<rparr>, d, AtWait)"
| "worker_step a s d (DisposeLast queue) = (s, dv_dispose queue d, LastSection)"
| "worker_step a s d LastSection = (s\<lparr>ao_workerAlive := False\<rparr>, d, Exited)"
| "worker_step a s d Exited = (s, d, Exited)"

section \<open>The threads together\<close>

text \<open>Where the control thread is; \<open>Ready\<close> holds what the last call returned, \<open>None\<close> for success. The
  flag says whether the command was sent by \<open>Start\<close>.\<close>

datatype control_pc =
  Ready "ao_error option" | Spawning | Submitting bool command u32 | Awaiting bool
| StopAsk "ao_error option" | Joining "ao_error option"

datatype control_call = CallStart | CallSetDevice u32 | CallStop

record World =
  wd_out :: AudioOutput
  wd_dev :: Device
  wd_worker :: worker_pc
  wd_control :: control_pc

definition world_init :: "u32 \<Rightarrow> u32 \<Rightarrow> World" where
  "world_init sampleRate channels =
     \<lparr>wd_out = AudioOutput_init sampleRate channels,
      wd_dev = \<lparr>dv_next = 0, dv_live = {}, dv_started = {}, dv_held = {}, dv_data = (\<lambda>_. [])\<rparr>,
      wd_worker = NotStarted, wd_control = Ready None\<rparr>"

definition run_worker :: "Answers \<Rightarrow> World \<Rightarrow> World" where
  "run_worker a w =
     (case worker_step a (wd_out w) (wd_dev w) (wd_worker w) of
        (s, d, pc) \<Rightarrow> w\<lparr>wd_out := s, wd_dev := d, wd_worker := pc\<rparr>)"

text \<open>A command that fails makes \<open>Start\<close> stop the output before it returns.\<close>

definition answer_command :: "bool \<Rightarrow> ao_error option \<Rightarrow> control_pc" where
  "answer_command from_start r = (if from_start \<and> r \<noteq> None then StopAsk r else Ready r)"

text \<open>\<open>timeout\<close>: ten seconds of waiting are over.\<close>

fun control_step :: "control_call \<Rightarrow> bool \<Rightarrow> World \<Rightarrow> World" where
  "control_step call timeout w =
     (case wd_control w of
        Ready _ \<Rightarrow>
          (case call of
             CallStart \<Rightarrow>
               (case ao_start_locked (wd_worker w \<noteq> NotStarted) (wd_out w) of
                  (s, r) \<Rightarrow> w\<lparr>wd_out := s, wd_control := (if r = None then Spawning else Ready r)\<rparr>)
           | CallSetDevice device \<Rightarrow> w\<lparr>wd_control := Submitting False CmdSetDevice device\<rparr>
           | CallStop \<Rightarrow> w\<lparr>wd_control := StopAsk None\<rparr>)
      | Spawning \<Rightarrow> w\<lparr>wd_worker := AtWait, wd_control := Submitting True CmdStart 0\<rparr>
      | Submitting from_start kind device \<Rightarrow>
          (case ao_submit kind device (wd_out w) of
             (s, None) \<Rightarrow> w\<lparr>wd_out := s, wd_control := Awaiting from_start\<rparr>
           | (s, Some e) \<Rightarrow> w\<lparr>wd_out := s, wd_control := answer_command from_start (Some e)\<rparr>)
      | Awaiting from_start \<Rightarrow>
          if ao_answered (wd_out w) \<or> timeout
          then w\<lparr>wd_control := answer_command from_start (ao_result (wd_out w))\<rparr> else w
      | StopAsk r \<Rightarrow> w\<lparr>wd_out := ao_stop_request (wd_out w), wd_control := Joining r\<rparr>
      | Joining r \<Rightarrow>
          if wd_worker w \<in> {NotStarted, Exited}
          then w\<lparr>wd_out := ao_stop_finish (wd_out w), wd_worker := NotStarted, wd_control := Ready r\<rparr> else w)"

text \<open>\<open>OnBufferDone\<close>, when the device has finished buffer \<open>b\<close>.\<close>

definition ao_OnBufferDone :: "buffer_ref \<Rightarrow> AudioOutput \<Rightarrow> AudioOutput" where
  "ao_OnBufferDone b s =
     (if Some (fst b) \<noteq> ao_aq s then s
      else s\<lparr>ao_free := ao_free s @ [b], ao_buffersCompleted := ao_buffersCompleted s + 1\<rparr>)"

inductive ao_reachable :: "World \<Rightarrow> bool" where
  init: "ao_reachable (world_init sampleRate channels)"
| control: "ao_reachable w \<Longrightarrow> ao_reachable (control_step call timeout w)"
| worker: "ao_reachable w \<Longrightarrow> ao_reachable (run_worker a w)"
| callback: "ao_reachable w \<Longrightarrow> b \<in> dv_held (wd_dev w) \<Longrightarrow> fst b \<in> dv_started (wd_dev w) \<Longrightarrow>
     ao_reachable (w\<lparr>wd_out := ao_OnBufferDone b (wd_out w), wd_dev := (wd_dev w)\<lparr>dv_held := dv_held (wd_dev w) - {b}\<rparr>\<rparr>)"
| push: "ao_reachable w \<Longrightarrow> ao_reachable (w\<lparr>wd_out := ao_push elapsed pcm (wd_out w)\<rparr>)"
| mute: "ao_reachable w \<Longrightarrow> ao_reachable (w\<lparr>wd_out := ao_SetMuted m (wd_out w)\<rparr>)"

section \<open>Buffers\<close>

text \<open>The queues the worker's counter mentions while a queue is being replaced.\<close>

fun pc_ok :: "AudioOutput \<Rightarrow> Device \<Rightarrow> worker_pc \<Rightarrow> bool" where
  "pc_ok s d (Filling b) \<longleftrightarrow> ao_aq s = Some (fst b) \<and> b \<notin> dv_held d \<and> b \<notin> set (ao_free s)"
| "pc_ok s d (Enqueueing b) \<longleftrightarrow> ao_aq s = Some (fst b) \<and> b \<notin> dv_held d \<and> b \<notin> set (ao_free s)"
| "pc_ok s d (Swap q t) \<longleftrightarrow> q \<in> dv_live d \<and> q \<notin> dv_started d \<and> ao_aq s \<noteq> Some q"
| "pc_ok s d (DisposePrevious q t p) \<longleftrightarrow> ao_aq s = Some q \<and> q \<notin> dv_started d \<and> ao_free s = [] \<and> p \<noteq> Some q"
| "pc_ok s d (StartQueue q t) \<longleftrightarrow> ao_aq s = Some q \<and> q \<notin> dv_started d \<and> ao_free s = []"
| "pc_ok s d (GiveUp q e) \<longleftrightarrow> ao_aq s = None \<and> ao_free s = []"
| "pc_ok s d (DisposeLast p) \<longleftrightarrow> ao_aq s = None \<and> ao_free s = []"
| "pc_ok s d LastSection \<longleftrightarrow> ao_aq s = None \<and> ao_free s = []"
| "pc_ok s d Exited \<longleftrightarrow> ao_aq s = None \<and> ao_free s = []"
| "pc_ok s d NotStarted \<longleftrightarrow> ao_aq s = None \<and> ao_free s = []"
| "pc_ok s d pc \<longleftrightarrow> True"

definition device_ok :: "Device \<Rightarrow> bool" where
  "device_ok d \<longleftrightarrow> (\<forall>q \<in> dv_live d. q < dv_next d) \<and> dv_started d \<subseteq> dv_live d \<and> (\<forall>b \<in> dv_held d. fst b \<in> dv_live d)"

definition buffers_ok :: "AudioOutput \<Rightarrow> Device \<Rightarrow> bool" where
  "buffers_ok s d \<longleftrightarrow> (\<forall>q. ao_aq s = Some q \<longrightarrow> q \<in> dv_live d) \<and> distinct (ao_free s) \<and>
     (\<forall>b \<in> set (ao_free s). ao_aq s = Some (fst b) \<and> b \<notin> dv_held d)"

definition world_ok :: "World \<Rightarrow> bool" where
  "world_ok w \<longleftrightarrow> device_ok (wd_dev w) \<and> buffers_ok (wd_out w) (wd_dev w) \<and> pc_ok (wd_out w) (wd_dev w) (wd_worker w)"

text \<open>Fields the buffers do not depend on.\<close>

definition same_buffers :: "AudioOutput \<Rightarrow> AudioOutput \<Rightarrow> bool" where
  "same_buffers s s' \<longleftrightarrow> ao_aq s' = ao_aq s \<and> ao_free s' = ao_free s"

lemma same_buffers_ops:
  "same_buffers s (ao_push elapsed pcm s)" "same_buffers s (ao_SetMuted m s)" "same_buffers s (ao_stop_request s)"
  "same_buffers s (fst (ao_start_locked j s))" "same_buffers s (fst (ao_submit kind device s))"
  "same_buffers s (ao_reset_counters e s)" "same_buffers s (fst (ao_FillBuffer s))"
  by (simp_all add: same_buffers_def ao_push_def ao_SetMuted_def ao_stop_request_def ao_start_locked_def ao_submit_def
      ao_reset_counters_def ao_FillBuffer_def Let_def split: option.split prod.split)

lemma same_buffers_ok: "same_buffers s s' \<Longrightarrow> buffers_ok s' d = buffers_ok s d \<and> pc_ok s' d pc = pc_ok s d pc"
  by (cases "(s, d, pc)" rule: pc_ok.cases) (simp_all add: same_buffers_def buffers_ok_def)

lemma same_buffers_eqs:
  "ao_start_locked j s = (s', r) \<Longrightarrow> same_buffers s s'" "ao_submit kind device s = (s', r) \<Longrightarrow> same_buffers s s'"
  "ao_FillBuffer s = (s', dst) \<Longrightarrow> same_buffers s s'"
  using same_buffers_ops(4) [of s j] same_buffers_ops(5) [of s kind device] same_buffers_ops(7) [of s] by auto

lemma dispose_ok: "device_ok d \<Longrightarrow> device_ok (dv_dispose queue d)"
  by (auto simp: device_ok_def dv_dispose_def split: option.splits)

lemma dispose_buffers: "buffers_ok s d \<Longrightarrow> (\<And>q. queue = Some q \<Longrightarrow> ao_aq s \<noteq> Some q) \<Longrightarrow> buffers_ok s (dv_dispose queue d)"
  by (auto simp: buffers_ok_def dv_dispose_def split: option.splits)

text \<open>A queue that is new to the device.\<close>

lemma new_queue:
  assumes "device_ok d" "buffers_ok s d"
  defines "q \<equiv> dv_next d"
  shows "q \<notin> dv_started d" "ao_aq s \<noteq> Some q" "\<forall>b \<in> set (ao_free s). fst b \<noteq> q"
    "device_ok (d\<lparr>dv_next := q + 1, dv_live := insert q (dv_live d)\<rparr>)"
    "buffers_ok s (d\<lparr>dv_next := q + 1, dv_live := insert q (dv_live d)\<rparr>)"
proof -
  have "q \<notin> dv_live d" using assms(1) by (auto simp: device_ok_def q_def)
  then show "q \<notin> dv_started d" "ao_aq s \<noteq> Some q" "\<forall>b \<in> set (ao_free s). fst b \<noteq> q"
    "device_ok (d\<lparr>dv_next := q + 1, dv_live := insert q (dv_live d)\<rparr>)"
    "buffers_ok s (d\<lparr>dv_next := q + 1, dv_live := insert q (dv_live d)\<rparr>)"
    using assms by (auto simp: device_ok_def buffers_ok_def)
qed

lemma queue_build_ok:
  assumes "device_ok d" "buffers_ok s d" "ao_build a target n d = (d', r)"
  shows "device_ok d' \<and> buffers_ok s d' \<and> (\<forall>q. r = Inr q \<longrightarrow> q \<in> dv_live d' \<and> q \<notin> dv_started d' \<and> ao_aq s \<noteq> Some q)"
proof -
  let ?q = "dv_next d"
  let ?d1 = "d\<lparr>dv_next := ?q + 1, dv_live := insert ?q (dv_live d)\<rparr>"
  let ?d2 = "?d1\<lparr>dv_data := (\<lambda>b. if b \<in> set (buffers_of ?q) then replicate n 0 else dv_data ?d1 b)\<rparr>"
  note new = new_queue [OF assms(1,2)]
  have 2: "device_ok ?d2" "buffers_ok s ?d2" using new(4,5) by (simp_all add: device_ok_def buffers_ok_def)
  have 3: "device_ok (?d2\<lparr>dv_held := dv_held ?d2 \<union> set (buffers_of ?q)\<rparr>)"
    "buffers_ok s (?d2\<lparr>dv_held := dv_held ?d2 \<union> set (buffers_of ?q)\<rparr>)"
    using 2 new(3) by (auto simp: device_ok_def buffers_ok_def buffers_of_def)
  have bad: "device_ok (dv_dispose (Some ?q) x) \<and> buffers_ok s (dv_dispose (Some ?q) x)" if "x = ?d1 \<or> x = ?d2" for x
    using that 2 new dispose_ok dispose_buffers [of s x "Some ?q"] by auto
  let ?fail = "\<lambda>p. (\<exists>e. snd p = Inl e) \<and> fst p \<in> {d, dv_dispose (Some ?q) ?d1, dv_dispose (Some ?q) ?d2}"
  have cases: "?fail (ao_build a target n d) \<or>
    ao_build a target n d = (?d2\<lparr>dv_held := dv_held ?d2 \<union> set (buffers_of ?q)\<rparr>, Inr ?q)"
    unfolding ao_build_def Let_def
    by (split if_split option.split | rule conjI impI allI | (rule disjI1, simp; fail) | (rule disjI2, simp; fail))+
  consider "\<exists>e. r = Inl e \<and> (d' = d \<or> d' = dv_dispose (Some ?q) ?d1 \<or> d' = dv_dispose (Some ?q) ?d2)"
    | "r = Inr ?q" "d' = ?d2\<lparr>dv_held := dv_held ?d2 \<union> set (buffers_of ?q)\<rparr>"
    using cases unfolding assms(3) by auto
  then show ?thesis
  proof cases
    case 1
    then show ?thesis using assms(1,2) bad by auto
  next
    case 2
    then show ?thesis using 3 new(1,2) by simp
  qed
qed

lemma started_dispose: "q \<in> dv_started (dv_dispose queue d) \<Longrightarrow> q \<in> dv_started d"
  by (auto simp: dv_dispose_def split: option.splits)

lemma device_ok_data: "device_ok (d\<lparr>dv_data := x\<rparr>) = device_ok d"
  by (simp add: device_ok_def)

lemma worker_ok:
  assumes "device_ok d" "buffers_ok s d" "pc_ok s d pc" "worker_step a s d pc = (s', d', pc')"
  shows "device_ok d' \<and> buffers_ok s' d' \<and> pc_ok s' d' pc'"
proof (cases pc)
  case AtWait
  have b: "butlast (ao_free s) @ [last (ao_free s)] = ao_free s" if "ao_free s \<noteq> []" using that by simp
  have "distinct (butlast (ao_free s)) \<and> last (ao_free s) \<notin> set (butlast (ao_free s)) \<and>
      set (butlast (ao_free s)) \<subseteq> set (ao_free s) \<and> last (ao_free s) \<in> set (ao_free s)" if "ao_free s \<noteq> []"
    using assms(2) b [OF that] unfolding buffers_ok_def by (metis distinct_append distinct.simps(2) in_set_conv_decomp
        append_Nil2 disjoint_iff last_in_set set_append subsetI that Un_iff list.set_intros(1))
  then show ?thesis using assms AtWait by (auto simp: ao_end_def buffers_ok_def split: if_splits)
next
  case (Filling b)
  then show ?thesis
    using assms by (auto simp: device_ok_data buffers_ok_def same_buffers_def dest!: same_buffers_eqs(3) split: prod.splits)
next
  case (Enqueueing b)
  then have h: "ao_aq s = Some (fst b)" "b \<notin> dv_held d" "b \<notin> set (ao_free s)" using assms(3) by simp_all
  have "device_ok (d\<lparr>dv_held := insert b (dv_held d)\<rparr>)" "buffers_ok s (d\<lparr>dv_held := insert b (dv_held d)\<rparr>)"
    using assms(1,2) h by (simp_all add: device_ok_def buffers_ok_def) blast
  moreover have "buffers_ok (ao_end x) d" "pc_ok (ao_end x) d (DisposeLast p)" for x p
    by (simp_all add: ao_end_def buffers_ok_def)
  ultimately show ?thesis using assms(1,2,4) h(1) unfolding Enqueueing by (auto split: if_splits)
next
  case (Build t)
  obtain d1 r where b: "ao_build a t (ao_bufferElements s) d = (d1, r)" by fastforce
  from queue_build_ok [OF assms(1,2) b] assms(4) Build b show ?thesis by (cases r) auto
next
  case (Swap q t)
  then show ?thesis using assms by (auto simp: buffers_ok_def)
next
  case (DisposePrevious q t p)
  then show ?thesis using assms dispose_ok dispose_buffers [of s d p] by (auto dest: started_dispose)
next
  case (StartQueue q t)
  have "device_ok (d\<lparr>dv_started := insert q (dv_started d)\<rparr>)" if "q \<in> dv_live d" using assms(1) that by (simp add: device_ok_def)
  with StartQueue show ?thesis using assms by (auto simp: buffers_ok_def split: if_splits)
next
  case (Reservoir t)
  then show ?thesis using assms same_buffers_ok [OF same_buffers_ops(6)] by auto
next
  case (GiveUp q e)
  then show ?thesis using assms dispose_ok dispose_buffers [of s d "Some q"] by auto
next
  case (DisposeLast p)
  then show ?thesis using assms dispose_ok dispose_buffers [of s d p] by auto
qed (use assms in \<open>auto simp: buffers_ok_def Let_def split: if_splits\<close>)

lemma control_ok:
  assumes "world_ok w"
  shows "world_ok (control_step call timeout w)"
proof (cases "wd_control w")
  case (Ready r)
  then show ?thesis using assms
    by (cases call) (auto simp: world_ok_def same_buffers_ok dest!: same_buffers_eqs(1) split: prod.splits)
next
  case (Submitting f k dev)
  then show ?thesis using assms
    by (auto simp: world_ok_def same_buffers_ok dest!: same_buffers_eqs(2) split: prod.splits option.splits)
next
  case (Joining r)
  then show ?thesis using assms by (auto simp: world_ok_def ao_stop_finish_def buffers_ok_def split: worker_pc.splits)
qed (use assms same_buffers_ok [OF same_buffers_ops(3)] in \<open>auto simp: world_ok_def\<close>)

lemma callback_ok:
  assumes "world_ok w" "b \<in> dv_held (wd_dev w)" "fst b \<in> dv_started (wd_dev w)"
  shows "world_ok (w\<lparr>wd_out := ao_OnBufferDone b (wd_out w), wd_dev := (wd_dev w)\<lparr>dv_held := dv_held (wd_dev w) - {b}\<rparr>\<rparr>)"
proof -
  let ?s' = "ao_OnBufferDone b (wd_out w)" and ?d' = "(wd_dev w)\<lparr>dv_held := dv_held (wd_dev w) - {b}\<rparr>"
  have "device_ok ?d'" using assms(1) by (auto simp: world_ok_def device_ok_def)
  moreover have "buffers_ok ?s' ?d'" using assms by (auto simp: world_ok_def buffers_ok_def ao_OnBufferDone_def)
  moreover have "pc_ok ?s' ?d' (wd_worker w)"
    using assms by (cases "wd_worker w") (auto simp: world_ok_def ao_OnBufferDone_def)
  ultimately show ?thesis by (simp add: world_ok_def)
qed

lemma ao_reachable_ok: "ao_reachable w \<Longrightarrow> world_ok w"
proof (induction rule: ao_reachable.induct)
  case (init sampleRate channels)
  show ?case by (simp add: world_ok_def world_init_def AudioOutput_init_def device_ok_def buffers_ok_def)
next
  case (worker w a)
  then show ?case using worker_ok [of "wd_dev w" "wd_out w" "wd_worker w" a]
    by (auto simp: world_ok_def run_worker_def split: prod.splits)
next
  case (push w elapsed pcm)
  then show ?case using same_buffers_ok [OF same_buffers_ops(1)] by (auto simp: world_ok_def)
next
  case (mute w m)
  then show ?case using same_buffers_ok [OF same_buffers_ops(2)] by (auto simp: world_ok_def)
qed (simp_all only: control_ok callback_ok)

section \<open>Commands\<close>

text \<open>How many steps of the worker bring the answer of a pending command, and the end of the worker
  after a stop request.\<close>

fun answer_rank :: "worker_pc \<Rightarrow> nat" where
  "answer_rank (Filling b) = 12"
| "answer_rank (Enqueueing b) = 11"
| "answer_rank AtWait = 10"
| "answer_rank ReadCommand = 9"
| "answer_rank (ChooseTarget k d) = 8"
| "answer_rank (Build t) = 7"
| "answer_rank (Swap q t) = 6"
| "answer_rank (DisposePrevious q t p) = 5"
| "answer_rank (StartQueue q t) = 4"
| "answer_rank (Reservoir t) = 3"
| "answer_rank (Publish t) = 2"
| "answer_rank (GiveUp q e) = 2"
| "answer_rank (Finish e) = 1"
| "answer_rank (DisposeLast p) = 2"
| "answer_rank LastSection = 1"
| "answer_rank pc = 0"

fun exit_rank :: "worker_pc \<Rightarrow> nat" where
  "exit_rank ReadCommand = 12"
| "exit_rank (ChooseTarget k d) = 11"
| "exit_rank (Build t) = 10"
| "exit_rank (Swap q t) = 9"
| "exit_rank (DisposePrevious q t p) = 8"
| "exit_rank (StartQueue q t) = 7"
| "exit_rank (Reservoir t) = 6"
| "exit_rank (Publish t) = 5"
| "exit_rank (GiveUp q e) = 5"
| "exit_rank (Finish e) = 4"
| "exit_rank (Filling b) = 4"
| "exit_rank (Enqueueing b) = 3"
| "exit_rank AtWait = 3"
| "exit_rank (DisposeLast p) = 2"
| "exit_rank LastSection = 1"
| "exit_rank pc = 0"

text \<open>A waiting command is pending until it is answered, a stopping output has its flag set, and the flag
  of a worker that has not been created or has ended is down, except while it is being created.\<close>

definition command_ok :: "World \<Rightarrow> bool" where
  "command_ok w \<longleftrightarrow>
     (case wd_control w of
        Awaiting f \<Rightarrow> ao_cmdDone (wd_out w) \<or> ao_cmdPending (wd_out w)
      | Joining r \<Rightarrow> ao_stopRequested (wd_out w)
      | Spawning \<Rightarrow> wd_worker w = NotStarted
      | _ \<Rightarrow> True) \<and>
     (wd_worker w \<in> {NotStarted, Exited} \<and> wd_control w \<noteq> Spawning \<longrightarrow> \<not> ao_workerAlive (wd_out w))"

text \<open>What the worker does to the flags of commands.\<close>

lemma worker_flags:
  assumes "worker_step a s d pc = (s', d', pc')"
  shows "ao_cmdDone s \<longrightarrow> ao_cmdDone s'" "ao_workerAlive s' \<longrightarrow> ao_workerAlive s" "ao_stopRequested s' = ao_stopRequested s"
    "ao_cmdPending s \<longrightarrow> ao_cmdDone s' \<or> ao_cmdPending s'"
    "pc' = NotStarted \<longleftrightarrow> pc = NotStarted" "pc' = Exited \<longrightarrow> pc = Exited \<or> \<not> ao_workerAlive s'"
    "ao_cmdPending s \<Longrightarrow> pc \<notin> {NotStarted, Exited} \<Longrightarrow> ao_answered s' \<or> answer_rank pc' < answer_rank pc"
    "ao_stopRequested s \<Longrightarrow> pc \<notin> {NotStarted, Exited} \<Longrightarrow> exit_rank pc' < exit_rank pc"
  using assms
  by (cases pc; auto simp: ao_end_def ao_FillBuffer_def ao_reset_counters_def ao_answered_def Let_def split: if_splits prod.splits sum.splits)+

lemma command_worker: "command_ok w \<Longrightarrow> command_ok (run_worker a w)"
proof -
  assume ok: "command_ok w"
  obtain s d pc where r: "worker_step a (wd_out w) (wd_dev w) (wd_worker w) = (s, d, pc)" by (metis prod_cases3)
  from worker_flags [OF r] ok show ?thesis by (auto simp: command_ok_def run_worker_def r split: control_pc.splits)
qed

lemma command_control: "command_ok w \<Longrightarrow> command_ok (control_step call timeout w)"
  by (cases "wd_control w"; cases call)
    (auto simp: command_ok_def ao_start_locked_def ao_submit_def ao_stop_request_def ao_stop_finish_def answer_command_def
      Let_def split: if_splits)

lemma command_same:
  assumes "command_ok w" "wd_control w' = wd_control w" "wd_worker w' = wd_worker w"
    "ao_cmdDone (wd_out w') = ao_cmdDone (wd_out w)" "ao_cmdPending (wd_out w') = ao_cmdPending (wd_out w)"
    "ao_stopRequested (wd_out w') = ao_stopRequested (wd_out w)" "ao_workerAlive (wd_out w') = ao_workerAlive (wd_out w)"
  shows "command_ok w'"
  using assms by (simp add: command_ok_def split: control_pc.splits)

lemma ao_reachable_command: "ao_reachable w \<Longrightarrow> command_ok w"
proof (induction rule: ao_reachable.induct)
  case (init sampleRate channels)
  show ?case by (simp add: command_ok_def world_init_def AudioOutput_init_def)
next
  case (callback w b)
  from callback.IH show ?case by (rule command_same) (simp_all add: ao_OnBufferDone_def)
next
  case (push w elapsed pcm)
  from push.IH show ?case by (rule command_same) (simp_all add: ao_push_def split: option.split)
next
  case (mute w m)
  from mute.IH show ?case by (rule command_same) (simp_all add: ao_SetMuted_def)
qed (simp_all only: command_worker command_control)

definition run_workers :: "Answers list \<Rightarrow> World \<Rightarrow> World" where
  "run_workers as w = fold run_worker as w"

lemma workers_answer:
  assumes "command_ok w" "wd_control w = Awaiting f" "ao_answered (wd_out w) \<or> answer_rank (wd_worker w) \<le> length as"
  shows "ao_answered (wd_out (run_workers as w))"
  using assms
proof (induction as arbitrary: w)
  case Nil
  then have "answer_rank (wd_worker w) = 0 \<or> ao_answered (wd_out w)" by auto
  then have "ao_answered (wd_out w)"
    using Nil.prems by (cases "wd_worker w") (auto simp: command_ok_def ao_answered_def)
  then show ?case by (simp add: run_workers_def)
next
  case (Cons a as)
  obtain s d pc where r: "worker_step a (wd_out w) (wd_dev w) (wd_worker w) = (s, d, pc)" by (metis prod_cases3)
  have w': "wd_out (run_worker a w) = s" "wd_worker (run_worker a w) = pc" "wd_control (run_worker a w) = Awaiting f"
    using r Cons.prems(2) by (simp_all add: run_worker_def)
  have "ao_answered s \<or> answer_rank pc \<le> length as"
  proof (cases "ao_answered (wd_out w)")
    case True
    then show ?thesis using worker_flags(1,2) [OF r] by (auto simp: ao_answered_def)
  next
    case False
    then have "ao_cmdPending (wd_out w)" "wd_worker w \<notin> {NotStarted, Exited}"
      using Cons.prems(1,2) by (auto simp: command_ok_def ao_answered_def)
    from worker_flags(7) [OF r this] Cons.prems(3) False show ?thesis by auto
  qed
  with Cons.IH [OF command_worker [OF Cons.prems(1), of a] w'(3)] show ?case by (simp add: w' run_workers_def)
qed

lemma workers_exit:
  assumes "ao_stopRequested (wd_out w)" "exit_rank (wd_worker w) \<le> length as"
  shows "wd_worker (run_workers as w) \<in> {NotStarted, Exited}"
  using assms
proof (induction as arbitrary: w)
  case Nil
  then show ?case by (cases "wd_worker w") (simp_all add: run_workers_def)
next
  case (Cons a as)
  obtain s d pc where r: "worker_step a (wd_out w) (wd_dev w) (wd_worker w) = (s, d, pc)" by (metis prod_cases3)
  have w': "wd_out (run_worker a w) = s" "wd_worker (run_worker a w) = pc" using r by (simp_all add: run_worker_def)
  have "exit_rank pc \<le> length as"
  proof (cases "wd_worker w \<in> {NotStarted, Exited}")
    case True
    then show ?thesis using r by auto
  next
    case False
    from worker_flags(8) [OF r Cons.prems(1) this] Cons.prems(2) show ?thesis by simp
  qed
  with Cons.IH [of "run_worker a w"] show ?case
    using worker_flags(3) [OF r] Cons.prems(1) by (simp add: w' run_workers_def)
qed

lemma ranks: "answer_rank pc \<le> 12" "exit_rank pc \<le> 12"
  by (cases pc; simp)+

section \<open>Samples\<close>

definition queue_ok :: "AudioOutput \<Rightarrow> bool" where
  "queue_ok s \<longleftrightarrow> ring_ok (ao_queue s) \<and> accounted (ao_queue s)"

lemma queue_step: "ring_ok q \<Longrightarrow> accounted q \<Longrightarrow> ring_ok (snd (pq_step i q)) \<and> accounted (snd (pq_step i q))"
  using step_refines [of q i "fst (pq_step i q)" "snd (pq_step i q)"] by simp

lemmas queue_steps = queue_step [of _ "PcmPush elapsed data" for elapsed data, simplified]
  queue_step [of _ "PcmPop n" for n, simplified] queue_step [of _ PcmClear, simplified]

lemma queue_new: "ring_ok (pq_new c h t)" "accounted (pq_new c h t)"
  by (simp_all add: pq_new_def Let_def ring_ok_def accounted_def)

lemma queue_worker:
  assumes "queue_ok s" "worker_step a s d pc = (s', d', pc')"
  shows "queue_ok s'"
proof (cases pc)
  case (Filling b)
  have "queue_ok (fst (ao_FillBuffer s))"
    using assms(1) queue_steps(2) [of "ao_queue s"] by (simp add: queue_ok_def ao_FillBuffer_def Let_def split_beta)
  then show ?thesis using assms(2) Filling by (auto split: prod.splits)
next
  case (Reservoir t)
  then show ?thesis using assms queue_steps(1,3) by (auto simp: queue_ok_def ao_reset_counters_def Let_def)
qed (use assms in \<open>auto simp: queue_ok_def ao_end_def Let_def split: if_splits prod.splits sum.splits\<close>)

lemma queue_control: "ao_queue (wd_out (control_step call timeout w)) = ao_queue (wd_out w)"
  by (cases "wd_control w"; cases call)
    (simp_all add: ao_start_locked_def ao_submit_def ao_stop_request_def ao_stop_finish_def Let_def)

lemma ao_reachable_queue: "ao_reachable w \<Longrightarrow> queue_ok (wd_out w)"
proof (induction rule: ao_reachable.induct)
  case (init sampleRate channels)
  show ?case by (simp add: queue_ok_def world_init_def AudioOutput_init_def queue_new)
next
  case (control w call timeout)
  then show ?case by (simp only: queue_ok_def queue_control)
next
  case (worker w a)
  then show ?case using queue_worker by (auto simp: run_worker_def split: prod.splits)
next
  case (push w elapsed pcm)
  then show ?case using queue_steps(1) by (auto simp: queue_ok_def ao_push_def split: option.splits)
qed (simp_all add: queue_ok_def ao_OnBufferDone_def ao_SetMuted_def)

lemma length_pop: "ring_ok q \<Longrightarrow> pq_pop n q = (out, q') \<Longrightarrow> out = take n (pq_contents q) \<and> pq_contents q' = drop n (pq_contents q)"
  using pop_ok by blast

section \<open>Properties\<close>

definition in_hand :: "worker_pc \<Rightarrow> buffer_ref list" where
  "in_hand pc = (case pc of Filling b \<Rightarrow> [b] | Enqueueing b \<Rightarrow> [b] | _ \<Rightarrow> [])"

text \<open>C13: buffers are never used after their queue is disposed nor queued twice. In every
  interleaving of worker, control thread and device callbacks, whatever Core Audio answers, the free
  buffers and the one the worker fills or enqueues are distinct, belong to the current queue, which
  has not been disposed, and are not held by the device.\<close>

theorem ao_buffers_safe:
  assumes "ao_reachable w"
  shows "distinct (ao_free (wd_out w) @ in_hand (wd_worker w)) \<and>
    list_all (\<lambda>b. ao_aq (wd_out w) = Some (fst b) \<and> fst b \<in> dv_live (wd_dev w) \<and> b \<notin> dv_held (wd_dev w))
      (ao_free (wd_out w) @ in_hand (wd_worker w))"
  using ao_reachable_ok [OF assms]
  by (cases "wd_worker w") (auto simp: world_ok_def buffers_ok_def list_all_iff in_hand_def)

text \<open>A run: the output is started on device 7, and the device finishes a buffer.\<close>

definition demo_answers :: Answers where
  "demo_answers = \<lparr>an_default = 7, an_newOutput = 0, an_uid = True, an_setProperty = 0, an_allocate = (\<lambda>_. 0),
     an_prime = (\<lambda>_. 0), an_start = 0, an_enqueue = 0, an_elapsed = 0, an_now = 5\<rparr>"

definition demo_elements :: nat where
  "demo_elements = elements_of 1000 1 0.02"

definition demo_primed :: Device where
  "demo_primed = \<lparr>dv_next = 1, dv_live = {0}, dv_started = {}, dv_held = {(0, 0), (0, 1), (0, 2), (0, 3)},
     dv_data = (\<lambda>b. if b \<in> {(0, 0), (0, 1), (0, 2), (0, 3)} then replicate demo_elements 0 else [])\<rparr>"

lemma demo_build: "ao_build demo_answers 7 demo_elements (wd_dev (world_init 1000 1)) = (demo_primed, Inr 0)"
proof -
  have "[0..<kBufferCount] = [0, 1, 2, 3]" by (simp add: kBufferCount_def upt_rec)
  then show ?thesis
    by (simp add: ao_build_def demo_answers_def buffers_of_def demo_primed_def world_init_def Let_def cong: if_cong)
qed

definition demo_output :: AudioOutput where
  "demo_output = (AudioOutput_init 1000 1)\<lparr>ao_workerAlive := True, ao_cmdKind := CmdStart, ao_cmdPending := True\<rparr>"

lemma demo_asked:
  "(control_step CallStart False ^^ 3) (world_init 1000 1) =
    \<lparr>wd_out = demo_output, wd_dev = wd_dev (world_init 1000 1), wd_worker = AtWait, wd_control = Awaiting True\<rparr>"
  by (simp add: eval_nat_numeral world_init_def AudioOutput_init_def ao_submit_def ao_start_locked_def demo_output_def)

definition demo_started :: World where
  "demo_started = run_workers (replicate 10 demo_answers) ((control_step CallStart False ^^ 3) (world_init 1000 1))"

lemma demo_output_reachable: "ao_reachable demo_started"
proof -
  have c: "ao_reachable ((control_step call t ^^ n) w)" if "ao_reachable w" for call t n w
    using that by (induction n) (simp_all del: control_step.simps add: ao_reachable.control)
  have r: "ao_reachable (run_workers as w)" if "ao_reachable w" for as w
    using that unfolding run_workers_def by (induction as arbitrary: w) (simp_all add: ao_reachable.worker)
  show ?thesis unfolding demo_started_def by (intro r c ao_reachable.init)
qed

lemma demo_started_eq:
  "demo_started =
    \<lparr>wd_out = (ao_reset_counters 0 (demo_output\<lparr>ao_aq := Some 0, ao_free := []\<rparr>))
       \<lparr>ao_deviceID := 7, ao_startAt := Some 5, ao_running := True, ao_cmdOk := True, ao_cmdError := None,
        ao_cmdPending := False, ao_cmdDone := True\<rparr>,
     wd_dev = demo_primed\<lparr>dv_started := {0}\<rparr>, wd_worker = AtWait, wd_control = Awaiting True\<rparr>"
proof -
  let ?d = "wd_dev (world_init 1000 1)"
  have s: "\<not> ao_stopRequested demo_output" "ao_cmdPending demo_output" "ao_cmdKind demo_output = CmdStart"
    "ao_cmdDevice demo_output = 0" "ao_deviceID demo_output = 0" "ao_aq demo_output = None"
    "ao_bufferElements demo_output = demo_elements"
    by (simp_all add: demo_output_def AudioOutput_init_def demo_elements_def)
  have a: "an_default demo_answers = 7" "an_start demo_answers = 0" "an_elapsed demo_answers = 0" "an_now demo_answers = 5"
    by (simp_all add: demo_answers_def)
  have d: "dv_started demo_primed = {}" by (simp add: demo_primed_def)
  have l: "replicate 10 demo_answers = [demo_answers, demo_answers, demo_answers, demo_answers, demo_answers,
      demo_answers, demo_answers, demo_answers, demo_answers, demo_answers]" by (simp add: eval_nat_numeral)
  show ?thesis unfolding demo_started_def demo_asked l
    by (simp add: run_workers_def run_worker_def s a d demo_build dv_dispose_def)
qed

lemma demo_output_fields:
  "ao_aq (wd_out demo_started) = Some 0" "ao_free (wd_out demo_started) = []" "dv_started (wd_dev demo_started) = {0}"
  "dv_held (wd_dev demo_started) = {(0, 0), (0, 1), (0, 2), (0, 3)}" "wd_control demo_started = Awaiting True"
  by (simp_all add: demo_started_eq ao_reset_counters_def Let_def demo_primed_def)

theorem ao_buffers_safe_witness:
  "\<exists>w. ao_reachable w \<and> ao_free (wd_out w) = [(0, 2)] \<and> ao_aq (wd_out w) = Some 0 \<and> (0, 2) \<notin> dv_held (wd_dev w)"
proof -
  let ?w = "demo_started\<lparr>wd_out := ao_OnBufferDone (0, 2) (wd_out demo_started),
    wd_dev := (wd_dev demo_started)\<lparr>dv_held := dv_held (wd_dev demo_started) - {(0, 2)}\<rparr>\<rparr>"
  have r: "ao_reachable ?w" by (rule ao_reachable.callback [OF demo_output_reachable]) (simp_all add: demo_output_fields)
  have f: "ao_free (wd_out ?w) = [(0, 2)]" by (simp add: ao_OnBufferDone_def demo_output_fields)
  from ao_buffers_safe [OF r] f have "ao_aq (wd_out ?w) = Some 0 \<and> (0, 2) \<notin> dv_held (wd_dev ?w)" by (simp add: list_all_iff)
  with r f show ?thesis by blast
qed

text \<open>C14: no call of the control thread waits for ever. A command that is waited for is
  answered, and a worker that is being stopped ends, within twelve steps of the worker, whatever
  Core Audio answers.\<close>

theorem ao_control_returns:
  assumes "ao_reachable w" "12 \<le> length as"
  shows "case wd_control w of
    Awaiting f \<Rightarrow> ao_answered (wd_out (run_workers as w)) \<and>
      wd_control (control_step call False (run_workers as w)) = answer_command f (ao_result (wd_out (run_workers as w)))
  | Joining r \<Rightarrow> wd_control (control_step call False (run_workers as w)) = Ready r
  | _ \<Rightarrow> True"
proof -
  have c: "wd_control (run_workers as w) = wd_control w"
    unfolding run_workers_def by (induction as arbitrary: w) (simp_all add: run_worker_def split: prod.splits)
  note ok = ao_reachable_command [OF assms(1)]
  show ?thesis
  proof (cases "wd_control w")
    case (Awaiting f)
    have "answer_rank (wd_worker w) \<le> length as" using ranks(1) [of "wd_worker w"] assms(2) by simp
    with workers_answer [OF ok Awaiting] have a: "ao_answered (wd_out (run_workers as w))" by blast
    then show ?thesis using c Awaiting by simp
  next
    case (Joining r)
    have "exit_rank (wd_worker w) \<le> length as" using ranks(2) [of "wd_worker w"] assms(2) by simp
    with workers_exit [of w as] ok Joining have "wd_worker (run_workers as w) \<in> {NotStarted, Exited}"
      by (simp add: command_ok_def)
    then show ?thesis using c Joining by simp
  qed simp_all
qed

theorem ao_control_returns_witness:
  "ao_answered (wd_out (run_workers (replicate 12 demo_answers) demo_started)) \<and> wd_control demo_started = Awaiting True"
  using ao_control_returns [OF demo_output_reachable, of "replicate 12 demo_answers"] by (simp add: demo_output_fields)

text \<open>A buffer the worker fills has the device's size and holds the oldest samples of the queue, padded
  with silence, or only silence while muted; the samples leave the queue either way, and an underrun
  is counted exactly when the queue was short.\<close>

theorem ao_fill_buffer:
  assumes "ao_reachable w" "wd_worker w = Filling b" and "w' = run_worker a w"
  defines "n \<equiv> ao_bufferElements (wd_out w)" and "xs \<equiv> pq_contents (ao_queue (wd_out w))"
  shows "wd_worker w' = Enqueueing b \<and> length (dv_data (wd_dev w') b) = n \<and>
    dv_data (wd_dev w') b = (if ao_muted (wd_out w) then replicate n 0 else take n xs @ replicate (n - length xs) 0) \<and>
    pq_contents (ao_queue (wd_out w')) = drop n xs \<and>
    ao_underruns (wd_out w') = ao_underruns (wd_out w) + (if length xs < n then 1 else 0)"
proof -
  have q: "ring_ok (ao_queue (wd_out w))" using ao_reachable_queue [OF assms(1)] by (simp add: queue_ok_def)
  obtain out q' where p: "pq_pop n (ao_queue (wd_out w)) = (out, q')" by fastforce
  from length_pop [OF q p] have o: "out = take n xs" "pq_contents q' = drop n xs" by (simp_all add: xs_def)
  show ?thesis using assms(2) p o by (auto simp: assms(3) run_worker_def ao_FillBuffer_def n_def [symmetric] Let_def)
qed

text \<open>A device change that fails in \<open>AudioQueueStart\<close> has already disposed the endpoint that was playing:
  afterwards there is no queue, but the output still counts as running.\<close>

theorem failed_switch_reports_running:
  assumes "ao_running s" "ao_aq s = Some p" "an_start a \<noteq> 0" "p \<noteq> q" and "\<not> ao_stopRequested s"
    and w: "w = \<lparr>wd_out = s, wd_dev = d, wd_worker = Swap q target, wd_control = c\<rparr>" and w': "w' = run_workers (replicate 5 a) w"
  shows "ao_running (wd_out w') \<and> ao_aq (wd_out w') = None \<and> p \<notin> dv_live (wd_dev w') \<and> q \<notin> dv_live (wd_dev w') \<and>
    ao_cmdError (wd_out w') = Some (OSError ''AudioQueueStart'' (an_start a)) \<and> wd_worker w' = AtWait"
  using assms by (simp add: run_workers_def run_worker_def eval_nat_numeral dv_dispose_def)

text \<open>A device chosen while the output is stopped is refused but leaves its command pending, and the
  next start is refused because of it.\<close>

theorem set_device_blocks_start:
  "wd_control ((control_step (CallSetDevice device) False ^^ 3) (world_init r c)) = Ready (Some EndpointGone) \<and>
    wd_control ((control_step CallStart False ^^ 3) ((control_step (CallSetDevice device) False ^^ 3) (world_init r c))) =
      StopAsk (Some CommandInFlight)"
  by (simp add: eval_nat_numeral world_init_def AudioOutput_init_def ao_submit_def ao_start_locked_def ao_answered_def ao_result_def
      answer_command_def)

text \<open>At 48 kHz stereo: 400 ms of capacity, 120 ms of high water, a 40 ms target and 20 ms buffers.\<close>

lemma default_sizes:
  "elements_of 48000 2 0.4 = 38400" "elements_of 48000 2 0.12 = 11520" "elements_of 48000 2 0.04 = 3840"
  "elements_of 48000 2 0.02 = 1920"
  by code_simp+

end
