(* ===== verification/PeerConnection.thy ===== *)
theory PeerConnection
  imports ReceiverEngine EnhancedRtcp BandwidthEstimator OpusRtp SessionCodec
begin

text \<open>
  \<open>src/windows/receiver/rtc/peer_connection_manager.cpp\<close>: the wiring between the WebRTC library and the
  modelled components. Each callback of the library holds a lease of the session's gate and \<open>rtcMutex_\<close>,
  so it is one step; closing waits for the leases before it takes everything down, so after it no callback
  of the session runs. The engine's handlers only change the RTCP session and the estimator, so they are
  folded over the engine's events after the engine's step. The library's objects are their identities, and
  what it answers (the clock, whether the control channel is open, the parts of a media description) is in
  the arguments. The time of a frame overflows only after more than 3000 years of media time; then the
  handler throws, which is kept as the frame's result.
\<close>

section \<open>Configuration of a session\<close>

text \<open>The kind of server a URL names, \<open>None\<close> when the library's URL parser throws.\<close>

datatype ice_kind = Stun | TurnUdp | TurnOther

record NativeServer =
  ns_url :: bytes
  ns_username :: bytes
  ns_password :: bytes

text \<open>The URLs of one server; \<open>tcpTls\<close> is \<open>KM_TURN_TCP_TLS\<close>.\<close>

fun add_urls :: "(bytes \<Rightarrow> ice_kind option) \<Rightarrow> bool \<Rightarrow> IceServer \<Rightarrow> bytes list \<Rightarrow> NativeServer list \<times> bool \<Rightarrow>
    (NativeServer list \<times> bool) res" where
  "add_urls kind tcpTls server [] acc = Inr acc"
| "add_urls kind tcpTls server (url # urls) acc =
     (if \<not> supportedIceUrl url then Inl (InvalidArgument ''unsupported ICE URL'')
      else
        (case kind url of
           None \<Rightarrow> Inl (InvalidArgument ''invalid ICE URL'')
         | Some k \<Rightarrow>
             if k = Stun
             then add_urls kind tcpTls server urls (fst acc @ [\<lparr>ns_url = url, ns_username = [], ns_password = []\<rparr>], snd acc)
             else if ice_username server = [] \<or> ice_credential server = [] then Inl (InvalidArgument ''missing TURN credentials'')
             else if \<not> tcpTls \<and> k \<noteq> TurnUdp then add_urls kind tcpTls server urls acc
             else add_urls kind tcpTls server urls
               (fst acc @ [\<lparr>ns_url = url, ns_username = ice_username server, ns_password = ice_credential server\<rparr>], True)))"

fun add_servers :: "(bytes \<Rightarrow> ice_kind option) \<Rightarrow> bool \<Rightarrow> IceServer list \<Rightarrow> NativeServer list \<times> bool \<Rightarrow> (NativeServer list \<times> bool) res" where
  "add_servers kind tcpTls [] acc = Inr acc"
| "add_servers kind tcpTls (server # servers) acc =
     bindR (add_urls kind tcpTls server (ice_urls server) acc) (add_servers kind tcpTls servers)"

definition native_configuration :: "(bytes \<Rightarrow> ice_kind option) \<Rightarrow> bool \<Rightarrow> RtcConfiguration \<Rightarrow> (bool \<times> NativeServer list) res" where
  "native_configuration kind tcpTls config =
     (if rtc_iceTransportPolicy config \<noteq> str ''all'' \<and> rtc_iceTransportPolicy config \<noteq> str ''relay''
      then Inl (InvalidArgument ''unsupported ICE policy'')
      else
        let relay = (rtc_iceTransportPolicy config = str ''relay'') in
        bindR (add_servers kind tcpTls (rtc_iceServers config) ([], False)) (\<lambda>(servers, usableTurn).
          if relay \<and> \<not> usableTurn then Inl (InvalidArgument ''relay policy has no supported TURN endpoint'')
          else Inr (relay, servers)))"

section \<open>State\<close>

datatype peer_state = PeerNew | PeerConnecting | PeerConnected | PeerDisconnected | PeerFailed | PeerClosed

record 'd Peer =
  pm_engine :: engine
  pm_estimator :: estimator
  pm_opus :: "'d OpusRtpDecoder"
  pm_pc :: bool
  pm_gate :: bool
  pm_tracks :: "nat list"
  pm_videoTrack :: "nat option"
  pm_audioTrack :: "nat option"
  pm_payloadTypes :: "u8 list"
  pm_videoRtcp :: "rtcp_session option"
  pm_audioRtcp :: "rtcp_session option"
  pm_videoDc :: "nat option"
  pm_controlDc :: "nat option"
  pm_callbacks :: bool
  pm_controlCallback :: bool
  pm_gathered :: bool
  pm_cancelled :: bool
  pm_serial :: u64

definition pm_init :: "'d Peer" where
  "pm_init =
     \<lparr>pm_engine = en_init, pm_estimator = bw_init default_config, pm_opus = OpusRtpDecoder_init, pm_pc = False, pm_gate = False,
      pm_tracks = [], pm_videoTrack = None, pm_audioTrack = None, pm_payloadTypes = [], pm_videoRtcp = None, pm_audioRtcp = None,
      pm_videoDc = None, pm_controlDc = None, pm_callbacks = False, pm_controlCallback = False, pm_gathered = False,
      pm_cancelled = False, pm_serial = 0\<rparr>"

text \<open>What reaches the application, the channels and the tracks. \<open>PoVideo\<close>: an access unit and its time in
  microseconds, or the exception of the conversion.\<close>

datatype peer_out =
  PoState peer_state | PoVideo bytes "int res" | PoPcm pcm | PoSend bytes | PoRtcp "nat \<times> bytes" | PoControl bytes | PoClose nat | PoBitrate u32

record PeerNow =
  pn_ns :: u64
  pn_us :: int
  pn_open :: bool

section \<open>Handlers of the engine\<close>

definition send_control :: "PeerNow \<Rightarrow> bytes \<Rightarrow> 'd Peer \<Rightarrow> peer_out list" where
  "send_control n text s = (if pm_controlDc s \<noteq> None \<and> pn_open n then [PoSend text] else [])"

definition video_time :: "EncodedVideoFrame \<Rightarrow> int res" where
  "video_time f =
     (if ef_timestampDomain f = SenderMicroseconds then Inr (ef_mediaTicks f) else TicksToMicroseconds (ef_mediaTicks f) 90000)"

definition engine_handler :: "PeerNow \<Rightarrow> engine_event \<Rightarrow> 'd Peer \<Rightarrow> peer_out list \<times> 'd Peer" where
  "engine_handler n event s =
     (case event of
        EFrame f \<Rightarrow> (if pm_callbacks s then [PoVideo (ef_annexB f) (video_time f)] else [], s)
      | EKeyframe channel \<Rightarrow>
          (case channel of
             ViaDataChannel \<Rightarrow> (send_control n (str ''{\"type\":\"pli\"}'') s, s)
           | ViaRtcp \<Rightarrow>
               (case pm_videoRtcp s of
                  None \<Rightarrow> ([], s)
                | Some r \<Rightarrow>
                    (case er_RequestKeyframeDirect (pn_us n) r of (ms, r') \<Rightarrow> (map PoRtcp ms, s\<lparr>pm_videoRtcp := Some r'\<rparr>))))
      | EControl text \<Rightarrow> (send_control n text s, s)
      | ELoss time \<Rightarrow> ([], s\<lparr>pm_estimator := bw_OnLossEventDetected default_config (pm_estimator s)\<rparr>))"

fun engine_handlers :: "PeerNow \<Rightarrow> engine_event list \<Rightarrow> 'd Peer \<Rightarrow> peer_out list \<times> 'd Peer" where
  "engine_handlers n [] s = ([], s)"
| "engine_handlers n (e # es) s =
     (case engine_handler n e s of (os, s1) \<Rightarrow> (case engine_handlers n es s1 of (os', s2) \<Rightarrow> (os @ os', s2)))"

text \<open>A call of the engine with what its handlers do.\<close>

definition run_engine :: "PeerNow \<Rightarrow> (engine \<Rightarrow> engine_event list \<times> engine) \<Rightarrow> 'd Peer \<Rightarrow> peer_out list \<times> 'd Peer" where
  "run_engine n f s = (case f (pm_engine s) of (es, e) \<Rightarrow> engine_handlers n es (s\<lparr>pm_engine := e\<rparr>))"

section \<open>Closing and opening a session\<close>

definition CloseInternal :: "'d Peer \<Rightarrow> 'd Peer" where
  "CloseInternal s =
     s\<lparr>pm_cancelled := True, pm_serial := pm_serial s + 1, pm_gate := False, pm_pc := False, pm_videoDc := None, pm_controlDc := None,
       pm_tracks := [], pm_videoTrack := None, pm_audioTrack := None, pm_payloadTypes := [], pm_videoRtcp := None, pm_audioRtcp := None,
       pm_engine := en_reset (pm_engine s), pm_opus := od_Reset (pm_opus s), pm_callbacks := False, pm_controlCallback := False\<rparr>"

text \<open>\<open>created\<close>: the library's peer connection was created and took the callbacks.\<close>

definition pm_Initialize :: "(bytes \<Rightarrow> ice_kind option) \<Rightarrow> bool \<Rightarrow> RtcConfiguration \<Rightarrow> bool \<Rightarrow> 'd Peer \<Rightarrow> bool \<times> 'd Peer" where
  "pm_Initialize kind tcpTls config created s =
     (case native_configuration kind tcpTls config of
        Inl e \<Rightarrow> (False, CloseInternal (CloseInternal s))
      | Inr _ \<Rightarrow>
          let s1 = (CloseInternal s)\<lparr>pm_cancelled := False, pm_gathered := False, pm_callbacks := True,
                     pm_estimator := bw_init default_config, pm_gate := True\<rparr> in
          if created then (True, s1\<lparr>pm_pc := True\<rparr>) else (False, CloseInternal s1))"

section \<open>Callbacks of the library\<close>

definition pm_onStateChange :: "peer_state \<Rightarrow> 'd Peer \<Rightarrow> peer_out list \<times> 'd Peer" where
  "pm_onStateChange v s = (if pm_callbacks s then [PoState v] else [], s)"

definition pm_onDataChannel :: "bytes \<Rightarrow> nat \<Rightarrow> 'd Peer \<Rightarrow> peer_out list \<times> 'd Peer" where
  "pm_onDataChannel label channel s =
     (if label = str ''km-video-stream'' then
        if pm_videoDc s \<noteq> None then ([PoClose channel], s)
        else ([], s\<lparr>pm_videoDc := Some channel, pm_engine := en_onVideoDataChannelOpened (pm_engine s)\<rparr>)
      else if label = str ''km-control'' then
        if pm_controlDc s \<noteq> None then ([PoClose channel], s) else ([], s\<lparr>pm_controlDc := Some channel\<rparr>)
      else ([PoClose channel], s))"

definition pm_onVideoClosed :: "'d Peer \<Rightarrow> 'd Peer" where
  "pm_onVideoClosed s = s\<lparr>pm_videoDc := None, pm_engine := en_onDataChannelVideoClosed (pm_engine s)\<rparr>"

text \<open>A text message of the control channel; an exception ends the callback.\<close>

definition pm_onControlMessage :: "PeerNow \<Rightarrow> bytes \<Rightarrow> 'd Peer \<Rightarrow> peer_out list" where
  "pm_onControlMessage n text s =
     (if length text > 65536 then []
      else
        (case json_parse text of
           Inl e \<Rightarrow> []
         | Inr v0 \<Rightarrow>
             let control = (if pm_controlCallback s then [PoControl text] else []) in
             (case json_find v0 (str ''type'') of
                None \<Rightarrow> control
              | Some v \<Rightarrow>
                  (case json_string v of
                     Inl e \<Rightarrow> []
                   | Inr type \<Rightarrow>
                       (if type = str ''ping'' then send_control n (str ''{\"type\":\"pong\"}'') s else []) @ control))))"

section \<open>Tracks\<close>

text \<open>A media description: its payload types with their formats and clock rates, and its extensions.\<close>

record Media =
  me_type :: bytes
  me_payloadTypes :: "(int \<times> (bytes \<times> int) option) list"
  me_extensions :: "(int \<times> bytes option) list"

definition lower :: "bytes \<Rightarrow> bytes" where
  "lower = map (\<lambda>c. if ch (CHR ''A'') \<le> c \<and> c \<le> ch (CHR ''Z'') then c + 32 else c)"

definition has_format :: "string \<Rightarrow> int \<Rightarrow> (bytes \<times> int) option \<Rightarrow> bool" where
  "has_format name rate codec = (case codec of None \<Rightarrow> False | Some (format, clock) \<Rightarrow> lower format = str name \<and> clock = rate)"

definition h264_types :: "Media \<Rightarrow> u8 list" where
  "h264_types media =
     map (\<lambda>(pt, _). of_int pt) (filter (\<lambda>(pt, codec). has_format ''h264'' 90000 codec \<and> pt \<ge> 0 \<and> pt \<le> 127) (me_payloadTypes media))"

definition opus_type :: "Media \<Rightarrow> int" where
  "opus_type media =
     (case filter (\<lambda>(pt, codec). has_format ''opus'' 48000 codec \<and> pt \<ge> 0 \<and> pt \<le> 127) (me_payloadTypes media) of
        [] \<Rightarrow> - 1 | (pt, _) # _ \<Rightarrow> pt)"

definition contains :: "bytes \<Rightarrow> string \<Rightarrow> bool" where
  "contains uri s = list_ex (\<lambda>k. starts_with (drop k uri) s) [0..<length uri + 1]"

definition set_extensions :: "Media \<Rightarrow> rtcp_session \<Rightarrow> rtcp_session" where
  "set_extensions media r =
     fold (\<lambda>(i, uri) r. if i > 0 \<and> i \<le> 14 \<and> (case uri of None \<Rightarrow> False | Some u \<Rightarrow> contains u ''transport-wide-cc'')
                        then er_SetTransportCcExtensionId (of_int i) r else r) (me_extensions media) r"

definition pm_videoTrack_on :: "PeerNow \<Rightarrow> nat \<Rightarrow> Media \<Rightarrow> 'd Peer \<Rightarrow> peer_out list \<times> 'd Peer" where
  "pm_videoTrack_on n track media s =
     (if pm_videoTrack s \<noteq> None \<or> h264_types media = [] then ([PoClose track], s)
      else ([], s\<lparr>pm_engine := en_setVideoPayloadTypes (h264_types media) (pm_engine s), pm_videoTrack := Some track,
        pm_videoRtcp := Some (set_extensions media (er_SetBandwidthEstimator True (er_new 90000 (pn_us n)))),
        pm_payloadTypes := h264_types media, pm_tracks := pm_tracks s @ [track]\<rparr>))"

definition pm_audioTrack_on :: "'d Opus \<Rightarrow> PeerNow \<Rightarrow> nat \<Rightarrow> Media \<Rightarrow> 'd Peer \<Rightarrow> peer_out list \<times> 'd Peer" where
  "pm_audioTrack_on opus n track media s =
     (if pm_audioTrack s \<noteq> None \<or> opus_type media < 0 then ([PoClose track], s)
      else
        (case od_Configure opus (of_int (opus_type media)) True (pm_opus s) of
           (decoder, ok) \<Rightarrow>
             let s1 = s\<lparr>pm_opus := decoder\<rparr> in
             if \<not> ok then ([PoClose track], s1)
             else ([], s1\<lparr>pm_audioTrack := Some track, pm_audioRtcp := Some (er_new 48000 (pn_us n)), pm_tracks := pm_tracks s1 @ [track]\<rparr>)))"

definition pm_onTrack :: "'d Opus \<Rightarrow> PeerNow \<Rightarrow> nat \<Rightarrow> Media \<Rightarrow> 'd Peer \<Rightarrow> peer_out list \<times> 'd Peer" where
  "pm_onTrack opus n track media s =
     (if length (pm_tracks s) \<ge> 2 then ([PoClose track], s)
      else if me_type media = str ''video'' then pm_videoTrack_on n track media s
      else if me_type media = str ''audio'' then pm_audioTrack_on opus n track media s
      else ([PoClose track], s))"

text \<open>A packet of the video track. That the estimator never divides by zero is \<open>bw_estimate_bounded\<close>.\<close>

definition pm_onVideoPacket :: "PeerNow \<Rightarrow> bytes \<Rightarrow> 'd Peer \<Rightarrow> peer_out list \<times> 'd Peer" where
  "pm_onVideoPacket n wire s =
     (case parseRtp wire of
        None \<Rightarrow> ([], s)
      | Some packet \<Rightarrow>
          if rtp_payloadType packet \<notin> set (pm_payloadTypes s) then ([], s)
          else
            let now = cdiv (pn_us n) 1000;
                s1 = s\<lparr>pm_estimator := bw_OnRtpPacketReceived (of_nat (length wire)) (rtp_sequence packet) now (pm_estimator s)\<rparr> in
            (case run_engine n (en_processRtpVideoPacket wire (pn_ns n)) s1 of
               (os, s2) \<Rightarrow>
                 (case bw_EvaluateEstimation default_config now (pm_estimator s2) of
                    None \<Rightarrow> (os, s2)
                  | Some (changed, target, estimator) \<Rightarrow>
                      (os @ (if changed \<and> pm_videoTrack s2 \<noteq> None then [PoBitrate (case target of None \<Rightarrow> 0 | Some t \<Rightarrow> t)] else []),
                       s2\<lparr>pm_estimator := estimator\<rparr>))))"

definition play :: "pcm list \<Rightarrow> 'd Peer \<Rightarrow> peer_out list" where
  "play frames s = (if pm_callbacks s then map PoPcm frames else [])"

definition pm_onAudioPacket :: "'d Opus \<Rightarrow> PeerNow \<Rightarrow> bytes \<Rightarrow> 'd Peer \<Rightarrow> peer_out list \<times> 'd Peer" where
  "pm_onAudioPacket opus n wire s =
     (case od_Receive opus wire (pn_us n) (pm_opus s) of (decoder, frames) \<Rightarrow> (play frames s, s\<lparr>pm_opus := decoder\<rparr>))"

text \<open>The timer, every 20 ms; \<open>live\<close>: the peer connection is connected.\<close>

definition flush :: "PeerNow \<Rightarrow> u32 \<Rightarrow> rtcp_session option \<Rightarrow> peer_out list \<times> rtcp_session option" where
  "flush n rate session =
     (case session of
        None \<Rightarrow> ([], None)
      | Some r \<Rightarrow> (case er_FlushFeedback (pn_us n) rate r of (ms, r') \<Rightarrow> (map PoRtcp ms, Some r')))"

definition pm_timer :: "'d Opus \<Rightarrow> PeerNow \<Rightarrow> bool \<Rightarrow> 'd Peer \<Rightarrow> peer_out list \<times> 'd Peer" where
  "pm_timer opus n live s =
     (case run_engine n (en_onTimer (pn_ns n)) s of
        (os, s1) \<Rightarrow>
          (case od_Tick opus (pn_us n) (pm_opus s1) of
             (decoder, frames) \<Rightarrow>
               let s2 = s1\<lparr>pm_opus := decoder\<rparr>; rate = bw_GetCurrentEstimatedBitrate (pm_estimator s2) in
               if \<not> live then (os @ play frames s2, s2)
               else
                 (case (flush n rate (pm_videoRtcp s2), flush n rate (pm_audioRtcp s2)) of
                    ((vs, video), (as, audio)) \<Rightarrow>
                      (os @ play frames s2 @ vs @ as, s2\<lparr>pm_videoRtcp := video, pm_audioRtcp := audio\<rparr>))))"

section \<open>Answering an offer\<close>

text \<open>\<open>opusBuild\<close> is \<open>KM_ENABLE_OPUS\<close>.\<close>

definition isAnsweredCodec :: "bool \<Rightarrow> bytes \<Rightarrow> (bytes \<times> int) option \<Rightarrow> bool" where
  "isAnsweredCodec opusBuild type codec \<longleftrightarrow>
     codec \<noteq> None \<and> ((type = str ''video'' \<and> has_format ''h264'' 90000 codec) \<or>
       (opusBuild \<and> type = str ''audio'' \<and> has_format ''opus'' 48000 codec))"

text \<open>One m-line: \<open>None\<close> when it is rejected. Removing a payload type also removes those that depend on it;
  \<open>remove\<close> is the library's removal, and a type that is gone is skipped.\<close>

definition drop_unanswered :: "bool \<Rightarrow> (int \<Rightarrow> Media \<Rightarrow> Media) \<Rightarrow> Media \<Rightarrow> int \<Rightarrow> Media" where
  "drop_unanswered opusBuild remove media pt =
     (case map_of (me_payloadTypes media) pt of
        None \<Rightarrow> media
      | Some codec \<Rightarrow> if codec \<noteq> None \<and> \<not> isAnsweredCodec opusBuild (me_type media) codec then remove pt media else media)"

definition answer_media :: "bool \<Rightarrow> (int \<Rightarrow> Media \<Rightarrow> Media) \<Rightarrow> Media \<Rightarrow> Media option" where
  "answer_media opusBuild remove media =
     (if \<not> list_ex (\<lambda>(pt, codec). isAnsweredCodec opusBuild (me_type media) codec) (me_payloadTypes media) then None
      else Some (foldl (drop_unanswered opusBuild remove) media (map fst (me_payloadTypes media))))"

text \<open>The wait for the candidates: a test every 20 ms until the deadline. \<open>at_test\<close> is what the \<open>k\<close>-th test sees.\<close>

record GatherTest =
  gt_complete :: bool
  gt_aborted :: bool
  gt_time :: int

fun gather_loop :: "nat \<Rightarrow> int \<Rightarrow> (nat \<Rightarrow> GatherTest) \<Rightarrow> nat \<Rightarrow> bool option" where
  "gather_loop 0 deadline at_test k = None"
| "gather_loop (Suc fuel) deadline at_test k =
     (if gt_complete (at_test k) then Some (\<not> gt_aborted (at_test k))
      else if gt_aborted (at_test k) then Some False
      else if gt_time (at_test k) \<ge> deadline then Some False
      else gather_loop fuel deadline at_test (k + 1))"

definition offer_accepted :: "bytes \<Rightarrow> 'd Peer \<Rightarrow> bool" where
  "offer_accepted sdp s \<longleftrightarrow> pm_pc s \<and> \<not> pm_cancelled s \<and> sdp \<noteq> [] \<and> length sdp \<le> 512 * 1024"

text \<open>\<open>applied\<close>: the library parsed the offer and took it; \<open>began\<close>: when the wait began; \<open>local\<close>: its answer.\<close>

definition ProcessOffer :: "bytes \<Rightarrow> bool \<Rightarrow> int \<Rightarrow> (nat \<Rightarrow> GatherTest) \<Rightarrow> bytes option \<Rightarrow> 'd Peer \<Rightarrow> bytes option option \<times> 'd Peer" where
  "ProcessOffer sdp applied began at_test local s =
     (let s1 = s\<lparr>pm_gathered := False\<rparr> in
      if \<not> offer_accepted sdp s1 \<or> \<not> applied then (Some None, s1)
      else
        (case gather_loop 502 (began + 10000) at_test 0 of
           None \<Rightarrow> (None, s1)
         | Some ok \<Rightarrow>
             if \<not> ok then (Some None, s1)
             else (case local of None \<Rightarrow> (Some None, s1) | Some answer \<Rightarrow> (Some (if answer = [] then None else Some answer), s1))))"

section \<open>All calls\<close>

text \<open>\<open>PiMedia\<close>: messages that pass the RTCP session of a track on their way to it.\<close>

datatype peer_input =
  PiInitialize RtcConfiguration bool | PiState peer_state | PiGathering bool | PiChannel bytes nat | PiVideoData bytes | PiVideoClosed
| PiControlMessage bytes | PiTrack nat Media | PiMedia bool "message list" "nat option" | PiVideoPacket bytes | PiAudioPacket bytes
| PiTimer bool | PiRequestKeyframe | PiRequestBitrate u32 | PiSendControl bytes | PiControlCallback bool | PiCancel | PiClose

definition guarded :: "peer_input \<Rightarrow> bool" where
  "guarded i \<longleftrightarrow>
     (case i of
        PiInitialize _ _ \<Rightarrow> False | PiRequestKeyframe \<Rightarrow> False | PiRequestBitrate _ \<Rightarrow> False | PiSendControl _ \<Rightarrow> False
      | PiControlCallback _ \<Rightarrow> False | PiCancel \<Rightarrow> False | PiClose \<Rightarrow> False | _ \<Rightarrow> True)"

definition pm_media :: "PeerNow \<Rightarrow> bool \<Rightarrow> message list \<Rightarrow> nat option \<Rightarrow> 'd Peer \<Rightarrow> peer_out list \<times> 'd Peer" where
  "pm_media n video messages send s =
     (case (if video then pm_videoRtcp s else pm_audioRtcp s) of
        None \<Rightarrow> ([], s)
      | Some r \<Rightarrow>
          (case er_incoming (pn_us n) (bw_GetCurrentEstimatedBitrate (pm_estimator s)) messages send r of
             (_, ms, r') \<Rightarrow> (map PoRtcp ms, if video then s\<lparr>pm_videoRtcp := Some r'\<rparr> else s\<lparr>pm_audioRtcp := Some r'\<rparr>)))"

definition pm_call :: "(bytes \<Rightarrow> ice_kind option) \<Rightarrow> bool \<Rightarrow> 'd Opus \<Rightarrow> PeerNow \<Rightarrow> peer_input \<Rightarrow> 'd Peer \<Rightarrow> peer_out list \<times> 'd Peer" where
  "pm_call kind tcpTls opus n i s =
     (case i of
        PiInitialize config created \<Rightarrow> ([], snd (pm_Initialize kind tcpTls config created s))
      | PiState v \<Rightarrow> pm_onStateChange v s
      | PiGathering d \<Rightarrow> ([], s\<lparr>pm_gathered := d\<rparr>)
      | PiChannel label channel \<Rightarrow> pm_onDataChannel label channel s
      | PiVideoData b \<Rightarrow> run_engine n (en_processDataChannelPacket b (pn_ns n)) s
      | PiVideoClosed \<Rightarrow> ([], pm_onVideoClosed s)
      | PiControlMessage text \<Rightarrow> (pm_onControlMessage n text s, s)
      | PiTrack track media \<Rightarrow> pm_onTrack opus n track media s
      | PiMedia video messages send \<Rightarrow> pm_media n video messages send s
      | PiVideoPacket wire \<Rightarrow> pm_onVideoPacket n wire s
      | PiAudioPacket wire \<Rightarrow> pm_onAudioPacket opus n wire s
      | PiTimer live \<Rightarrow> pm_timer opus n live s
      | PiRequestKeyframe \<Rightarrow> run_engine n (en_requestKeyframe (pn_ns n)) s
      | PiRequestBitrate bitrate \<Rightarrow> (if pm_videoTrack s \<noteq> None then [PoBitrate bitrate] else [], s)
      | PiSendControl text \<Rightarrow> (if length text > 65536 then [] else send_control n text s, s)
      | PiControlCallback given \<Rightarrow> ([], s\<lparr>pm_controlCallback := given\<rparr>)
      | PiCancel \<Rightarrow> ([], s\<lparr>pm_cancelled := True\<rparr>)
      | PiClose \<Rightarrow> ([], CloseInternal s))"

definition pm_GetEstimatedBitrate :: "'d Peer \<Rightarrow> u32" where
  "pm_GetEstimatedBitrate s = bw_GetCurrentEstimatedBitrate (pm_estimator s)"

definition pm_GetMeasuredThroughput :: "'d Peer \<Rightarrow> u32" where
  "pm_GetMeasuredThroughput s = bw_measuredThroughputBps (pm_estimator s)"

definition pm_GetLossRatio :: "'d Peer \<Rightarrow> rat" where
  "pm_GetLossRatio s = bw_currentLossRatio (pm_estimator s)"

definition pm_step :: "(bytes \<Rightarrow> ice_kind option) \<Rightarrow> bool \<Rightarrow> 'd Opus \<Rightarrow> PeerNow \<times> peer_input \<Rightarrow> 'd Peer \<Rightarrow> peer_out list \<times> 'd Peer" where
  "pm_step kind tcpTls opus ni s =
     (if guarded (snd ni) \<and> \<not> pm_gate s then ([], s) else pm_call kind tcpTls opus (fst ni) (snd ni) s)"

fun pm_run :: "(bytes \<Rightarrow> ice_kind option) \<Rightarrow> bool \<Rightarrow> 'd Opus \<Rightarrow> (PeerNow \<times> peer_input) list \<Rightarrow> 'd Peer \<Rightarrow> peer_out list \<times> 'd Peer" where
  "pm_run kind tcpTls opus [] s = ([], s)"
| "pm_run kind tcpTls opus (ni # nis) s =
     (case pm_step kind tcpTls opus ni s of (os, s1) \<Rightarrow> (case pm_run kind tcpTls opus nis s1 of (os', s2) \<Rightarrow> (os @ os', s2)))"

section \<open>What drives the engine\<close>

definition videos :: "peer_out list \<Rightarrow> bytes list" where
  "videos os = concat (map (\<lambda>x. case x of PoVideo b _ \<Rightarrow> [b] | _ \<Rightarrow> []) os)"

definition event_frames :: "engine_event list \<Rightarrow> bytes list" where
  "event_frames es = concat (map (\<lambda>e. case e of EFrame f \<Rightarrow> [ef_annexB f] | _ \<Rightarrow> []) es)"

lemma videos_simps [simp]:
  "videos [] = []" "videos (os @ ps) = videos os @ videos ps" "videos (PoVideo b t # os) = b # videos os" "videos (PoState v # os) = videos os"
  "videos (PoPcm p # os) = videos os" "videos (PoSend b # os) = videos os" "videos (PoRtcp m # os) = videos os"
  "videos (PoControl b # os) = videos os" "videos (PoClose c # os) = videos os" "videos (PoBitrate r # os) = videos os"
  "videos (map PoRtcp ms) = []" "videos (map PoPcm ps') = []"
  by (simp_all add: videos_def)

lemma event_frames_simps [simp]:
  "event_frames [] = []" "event_frames (es @ fs) = event_frames es @ event_frames fs"
  by (simp_all add: event_frames_def)

text \<open>The calls of one step are a run of the engine, and the access units handed over are that run's.\<close>

definition drives :: "'d Peer \<Rightarrow> peer_out list \<Rightarrow> 'd Peer \<Rightarrow> bool" where
  "drives s os s' \<longleftrightarrow>
     (\<exists>xs. pm_engine s' = snd (en_run (pm_engine s) xs) \<and> videos os = event_frames (map snd (fst (en_run (pm_engine s) xs))))"

lemma drives_still: "pm_engine s' = pm_engine s \<Longrightarrow> videos os = [] \<Longrightarrow> drives s os s'"
  unfolding drives_def by (intro exI [of _ "[]"]) simp

lemma drives_one:
  assumes "pm_engine s' = snd (en_step x (pm_engine s))" "videos os = event_frames (fst (en_step x (pm_engine s)))"
  shows "drives s os s'"
  unfolding drives_def by (intro exI [of _ "[x]"]) (use assms in \<open>simp add: case_prod_beta o_def\<close>)

lemma drives_append:
  assumes "drives s os s1" "drives s1 ps s2"
  shows "drives s (os @ ps) s2"
proof -
  obtain xs ys where "pm_engine s1 = snd (en_run (pm_engine s) xs)" "videos os = event_frames (map snd (fst (en_run (pm_engine s) xs)))"
    "pm_engine s2 = snd (en_run (pm_engine s1) ys)" "videos ps = event_frames (map snd (fst (en_run (pm_engine s1) ys)))"
    using assms unfolding drives_def by blast
  then show ?thesis unfolding drives_def by (intro exI [of _ "xs @ ys"]) (simp add: en_run_append case_prod_beta)
qed

lemma handler_fields:
  "pm_engine (snd (engine_handler n e s)) = pm_engine s" "pm_callbacks (snd (engine_handler n e s)) = pm_callbacks s"
  "pm_callbacks s \<Longrightarrow> videos (fst (engine_handler n e s)) = event_frames [e]"
  "pm_gate (snd (engine_handler n e s)) = pm_gate s" "pm_tracks (snd (engine_handler n e s)) = pm_tracks s"
  "pm_videoTrack (snd (engine_handler n e s)) = pm_videoTrack s" "pm_audioTrack (snd (engine_handler n e s)) = pm_audioTrack s"
  "pm_payloadTypes (snd (engine_handler n e s)) = pm_payloadTypes s" "pm_pc (snd (engine_handler n e s)) = pm_pc s"
  "pm_videoRtcp (snd (engine_handler n e s)) = None \<longleftrightarrow> pm_videoRtcp s = None" "pm_audioRtcp (snd (engine_handler n e s)) = pm_audioRtcp s"
  "pm_opus (snd (engine_handler n e s)) = pm_opus s"
  by (simp_all add: engine_handler_def event_frames_def send_control_def
    split: engine_event.split KeyframeChannel.split option.split prod.split)

lemma handlers_fields:
  "pm_engine (snd (engine_handlers n es s)) = pm_engine s" "pm_callbacks (snd (engine_handlers n es s)) = pm_callbacks s"
  "pm_gate (snd (engine_handlers n es s)) = pm_gate s" "pm_tracks (snd (engine_handlers n es s)) = pm_tracks s"
  "pm_videoTrack (snd (engine_handlers n es s)) = pm_videoTrack s" "pm_audioTrack (snd (engine_handlers n es s)) = pm_audioTrack s"
  "pm_payloadTypes (snd (engine_handlers n es s)) = pm_payloadTypes s" "pm_pc (snd (engine_handlers n es s)) = pm_pc s"
  "pm_videoRtcp (snd (engine_handlers n es s)) = None \<longleftrightarrow> pm_videoRtcp s = None"
  "pm_audioRtcp (snd (engine_handlers n es s)) = pm_audioRtcp s" "pm_opus (snd (engine_handlers n es s)) = pm_opus s"
  by (induction es arbitrary: s) (simp_all add: case_prod_beta handler_fields)

lemma handlers_videos: "pm_callbacks s \<Longrightarrow> videos (fst (engine_handlers n es s)) = event_frames es"
proof (induction es arbitrary: s)
  case (Cons e es)
  then show ?case
    using event_frames_simps(2) [of "[e]" es] by (simp add: case_prod_beta handler_fields)
qed simp

lemma run_engine_fields:
  "pm_callbacks (snd (run_engine n f s)) = pm_callbacks s" "pm_gate (snd (run_engine n f s)) = pm_gate s"
  "pm_tracks (snd (run_engine n f s)) = pm_tracks s" "pm_videoTrack (snd (run_engine n f s)) = pm_videoTrack s"
  "pm_audioTrack (snd (run_engine n f s)) = pm_audioTrack s" "pm_payloadTypes (snd (run_engine n f s)) = pm_payloadTypes s"
  "pm_pc (snd (run_engine n f s)) = pm_pc s" "pm_videoRtcp (snd (run_engine n f s)) = None \<longleftrightarrow> pm_videoRtcp s = None"
  "pm_audioRtcp (snd (run_engine n f s)) = pm_audioRtcp s" "pm_opus (snd (run_engine n f s)) = pm_opus s"
  by (simp_all add: run_engine_def case_prod_beta handlers_fields)

lemma run_engine_drives:
  assumes "f = en_step x" "pm_callbacks s"
  shows "drives s (fst (run_engine n f s)) (snd (run_engine n f s))"
  by (rule drives_one [of _ x]) (use assms in \<open>simp_all add: run_engine_def case_prod_beta handlers_fields handlers_videos\<close>)

lemma dispatch_no_frames [simp]: "event_frames (fst (en_tryDispatch t e)) = []"
  by (simp add: en_tryDispatch_def en_bump_def event_frames_def Let_def)

lemma no_frames_videos: "event_frames es = [] \<Longrightarrow> videos (fst (engine_handlers n es s)) = []"
proof (induction es arbitrary: s)
  case (Cons e es)
  then have "event_frames [e] = []" "event_frames es = []"
    using event_frames_simps(2) [of "[e]" es] by simp_all
  moreover from this(1) have "videos (fst (engine_handler n e s)) = []"
    by (cases e) (auto simp: engine_handler_def event_frames_def send_control_def split: KeyframeChannel.split option.split prod.split)
  ultimately show ?case using Cons.IH by (simp add: case_prod_beta)
qed simp

lemma request_drives: "drives s (fst (run_engine n (en_requestKeyframe t) s)) (snd (run_engine n (en_requestKeyframe t) s))"
  by (rule drives_one [of _ "EnRequest t"])
    (simp_all add: run_engine_def case_prod_beta handlers_fields no_frames_videos en_requestKeyframe_def)

lemma close_drives: "drives s [] (CloseInternal s)"
  by (rule drives_one [of _ EnReset]) (simp_all add: CloseInternal_def)

section \<open>The state of a session\<close>

text \<open>The tracks kept are the accepted ones, at most one of each kind, and each has its RTCP session; after
  a close nothing is left.\<close>

definition track_list :: "nat option \<Rightarrow> nat list" where
  "track_list t = (case t of None \<Rightarrow> [] | Some k \<Rightarrow> [k])"

definition pm_inv :: "'d Peer \<Rightarrow> bool" where
  "pm_inv s \<longleftrightarrow>
     (pm_tracks s = track_list (pm_videoTrack s) @ track_list (pm_audioTrack s) \<or>
      pm_tracks s = track_list (pm_audioTrack s) @ track_list (pm_videoTrack s)) \<and>
     (pm_videoTrack s = None \<longleftrightarrow> pm_videoRtcp s = None) \<and> (pm_audioTrack s = None \<longleftrightarrow> pm_audioRtcp s = None) \<and>
     (pm_videoTrack s = None \<longleftrightarrow> pm_payloadTypes s = []) \<and> (pm_gate s \<longleftrightarrow> pm_pc s) \<and> (pm_gate s \<longleftrightarrow> pm_callbacks s) \<and>
     (\<not> pm_gate s \<longrightarrow> pm_tracks s = [] \<and> pm_videoDc s = None \<and> pm_controlDc s = None)"

lemma pm_inv_init: "pm_inv pm_init"
  by (simp add: pm_inv_def pm_init_def track_list_def)

lemma pm_inv_close: "pm_inv (CloseInternal s)"
  by (simp add: pm_inv_def CloseInternal_def track_list_def)

lemma pm_inv_fields:
  assumes "pm_inv s" "pm_tracks t = pm_tracks s" "pm_videoTrack t = pm_videoTrack s" "pm_audioTrack t = pm_audioTrack s"
    "pm_payloadTypes t = pm_payloadTypes s" "pm_gate t = pm_gate s" "pm_pc t = pm_pc s" "pm_callbacks t = pm_callbacks s"
    "pm_videoRtcp t = None \<longleftrightarrow> pm_videoRtcp s = None" "pm_audioRtcp t = None \<longleftrightarrow> pm_audioRtcp s = None"
    "\<not> pm_gate s \<longrightarrow> pm_videoDc t = None \<and> pm_controlDc t = None"
  shows "pm_inv t"
  using assms(1,11) unfolding pm_inv_def assms(2-10) by blast

lemma handler_channels:
  "pm_videoDc (snd (engine_handlers n es s)) = pm_videoDc s \<and> pm_controlDc (snd (engine_handlers n es s)) = pm_controlDc s"
proof (induction es arbitrary: s)
  case (Cons e es)
  moreover have "pm_videoDc (snd (engine_handler n e s)) = pm_videoDc s \<and> pm_controlDc (snd (engine_handler n e s)) = pm_controlDc s"
    by (simp add: engine_handler_def split: engine_event.split KeyframeChannel.split option.split prod.split)
  ultimately show ?case by (simp add: case_prod_beta)
qed simp

lemma pm_inv_channels: "pm_inv s \<Longrightarrow> \<not> pm_gate s \<longrightarrow> pm_videoDc s = None \<and> pm_controlDc s = None"
  by (simp add: pm_inv_def)

lemma pm_inv_engine: "pm_inv s \<Longrightarrow> pm_inv (snd (run_engine n f s))"
  by (rule pm_inv_fields, assumption) (simp_all add: run_engine_fields,
    simp add: run_engine_def case_prod_beta handler_channels pm_inv_channels)

lemma pm_inv_Initialize: "pm_inv (snd (pm_Initialize kind tcpTls config created s))"
proof -
  have "pm_inv ((CloseInternal s)\<lparr>pm_cancelled := False, pm_gathered := False, pm_callbacks := True,
      pm_estimator := bw_init default_config, pm_gate := True, pm_pc := True\<rparr>)"
    by (simp add: pm_inv_def CloseInternal_def track_list_def)
  then show ?thesis
    unfolding pm_Initialize_def Let_def by (simp add: pm_inv_close split: sum.split)
qed

lemma pm_inv_onTrack: "pm_inv s \<Longrightarrow> pm_gate s \<Longrightarrow> pm_inv (snd (pm_onTrack opus n track media s))"
  by (auto simp: pm_onTrack_def pm_videoTrack_on_def pm_audioTrack_on_def pm_inv_def track_list_def Let_def
    split: prod.split option.splits)

lemma pm_inv_onDataChannel: "pm_inv s \<Longrightarrow> pm_gate s \<Longrightarrow> pm_inv (snd (pm_onDataChannel label channel s))"
  by (auto simp: pm_onDataChannel_def pm_inv_def)

lemma pm_inv_media: "pm_inv s \<Longrightarrow> pm_gate s \<Longrightarrow> pm_inv (snd (pm_media n video messages send s))"
  by (erule pm_inv_fields) (auto simp: pm_media_def split: option.split prod.split)

lemma pm_inv_onVideoPacket: "pm_inv s \<Longrightarrow> pm_inv (snd (pm_onVideoPacket n wire s))"
proof -
  assume i: "pm_inv s"
  have e: "pm_inv (s\<lparr>pm_estimator := e\<rparr>)" if "pm_inv s" for s :: "'d Peer" and e
    by (rule pm_inv_fields [OF that]) (simp_all add: pm_inv_channels [OF that])
  show ?thesis
    unfolding pm_onVideoPacket_def Let_def
    by (auto simp: case_prod_beta i e pm_inv_engine split: option.split)
qed

lemma pm_inv_timer: "pm_inv s \<Longrightarrow> pm_inv (snd (pm_timer opus n live s))"
proof -
  assume i: "pm_inv s"
  let ?s = "snd (run_engine n (en_onTimer (pn_ns n)) s)"
  have e: "pm_inv ?s" by (rule pm_inv_engine [OF i])
  show ?thesis
    by (rule pm_inv_fields [OF e])
      (use pm_inv_channels [OF e] in \<open>simp_all add: pm_timer_def Let_def case_prod_beta flush_def split: option.split\<close>)
qed

lemma pm_inv_call:
  assumes i: "pm_inv s" and g: "guarded i \<longrightarrow> pm_gate s"
  shows "pm_inv (snd (pm_call kind tcpTls opus n i s))"
proof -
  have eq: "pm_inv t" if "pm_tracks t = pm_tracks s" "pm_videoTrack t = pm_videoTrack s" "pm_audioTrack t = pm_audioTrack s"
    "pm_payloadTypes t = pm_payloadTypes s" "pm_gate t = pm_gate s" "pm_pc t = pm_pc s" "pm_callbacks t = pm_callbacks s"
    "pm_videoRtcp t = pm_videoRtcp s" "pm_audioRtcp t = pm_audioRtcp s" "pm_gate s \<or> pm_videoDc t = pm_videoDc s"
    "pm_controlDc t = pm_controlDc s" for t
    by (rule pm_inv_fields [OF i]) (use that pm_inv_channels [OF i] in auto)
  show ?thesis
  proof (cases i)
    case (PiTrack track media)
    then show ?thesis using i g by (simp add: pm_call_def guarded_def pm_inv_onTrack)
  next
    case (PiChannel label channel)
    then show ?thesis using i g by (simp add: pm_call_def guarded_def pm_inv_onDataChannel)
  next
    case (PiMedia video messages send)
    then show ?thesis using i g by (simp add: pm_call_def guarded_def pm_inv_media)
  next
    case PiVideoClosed
    then show ?thesis using g by (auto simp: pm_call_def guarded_def pm_onVideoClosed_def intro!: eq)
  next
    case (PiAudioPacket wire)
    then show ?thesis by (auto simp: pm_call_def pm_onAudioPacket_def case_prod_beta intro!: eq)
  next
    case (PiGathering d)
    then show ?thesis by (auto simp: pm_call_def intro!: eq)
  next
    case (PiControlCallback d)
    then show ?thesis by (auto simp: pm_call_def intro!: eq)
  next
    case PiCancel
    then show ?thesis by (auto simp: pm_call_def intro!: eq)
  next
    case (PiInitialize config created)
    then show ?thesis by (simp only: pm_call_def peer_input.case snd_conv pm_inv_Initialize)
  next
    case (PiVideoData b)
    then show ?thesis by (simp only: pm_call_def peer_input.case snd_conv pm_inv_engine [OF i])
  next
    case (PiVideoPacket wire)
    then show ?thesis by (simp only: pm_call_def peer_input.case snd_conv pm_inv_onVideoPacket [OF i])
  next
    case (PiTimer live)
    then show ?thesis by (simp only: pm_call_def peer_input.case snd_conv pm_inv_timer [OF i])
  next
    case PiRequestKeyframe
    then show ?thesis by (simp only: pm_call_def peer_input.case snd_conv pm_inv_engine [OF i])
  next
    case PiClose
    then show ?thesis by (simp only: pm_call_def peer_input.case snd_conv pm_inv_close)
  qed (simp_all only: pm_call_def peer_input.case snd_conv pm_onStateChange_def i)
qed

lemma pm_inv_step: "pm_inv s \<Longrightarrow> pm_inv (snd (pm_step kind tcpTls opus ni s))"
  using pm_inv_call [of s "snd ni" kind tcpTls opus "fst ni"] by (simp add: pm_step_def)

lemma pm_inv_run: "pm_inv s \<Longrightarrow> pm_inv (snd (pm_run kind tcpTls opus nis s))"
  by (induction nis arbitrary: s) (simp_all add: case_prod_beta pm_inv_step)

section \<open>Frames of a session\<close>

lemma event_frames_Cons: "event_frames (e # es) = (case e of EFrame f \<Rightarrow> [ef_annexB f] | _ \<Rightarrow> []) @ event_frames es"
  by (simp add: event_frames_def)

lemma event_frames_first: "event_frames es = f # fs \<Longrightarrow> \<exists>d gs. frames_of d es = f # gs"
proof (induction es)
  case (Cons e es)
  show ?case
  proof (cases e)
    case (EFrame g)
    then show ?thesis using Cons.prems by (intro exI [of _ "ef_timestampDomain g"]) (simp add: event_frames_Cons)
  qed (use Cons in \<open>simp_all add: event_frames_Cons\<close>)
qed simp

lemma event_frames_domain: "f \<in> set (event_frames es) \<Longrightarrow> \<exists>d. f \<in> set (frames_of d es)"
proof (induction es)
  case (Cons e es)
  show ?case
  proof (cases e)
    case (EFrame g)
    then show ?thesis using Cons by (cases "f = ef_annexB g") (auto simp: event_frames_Cons intro: exI [of _ "ef_timestampDomain g"])
  qed (use Cons in \<open>simp_all add: event_frames_Cons\<close>)
qed simp

lemma drives_sized:
  assumes "drives s os s'" "en_inv (pm_engine s)" "f \<in> set (videos os)"
  shows "f \<noteq> [] \<and> length f \<le> 7 * 1024 * 1024"
proof -
  obtain xs where x: "videos os = event_frames (map snd (fst (en_run (pm_engine s) xs)))"
    using assms(1) unfolding drives_def by blast
  obtain d where "f \<in> set (frames_of d (map snd (fst (en_run (pm_engine s) xs))))"
    using event_frames_domain assms(3) unfolding x by blast
  then show ?thesis by (rule frames_of_sized [OF assms(2)])
qed

lemma drives_start:
  assumes "drives s os s'" "en_inv (pm_engine s)" "rd_waiting (en_rtp (pm_engine s))" "dc_waiting (en_dc (pm_engine s))"
    and "videos os = f # fs"
  shows "configured f"
proof -
  obtain xs where x: "videos os = event_frames (map snd (fst (en_run (pm_engine s) xs)))"
    using assms(1) unfolding drives_def by blast
  obtain d gs where "frames_of d (map snd (fst (en_run (pm_engine s) xs))) = f # gs"
    using event_frames_first assms(5) unfolding x by blast
  then show ?thesis by (rule frames_of_start [OF assms(2-4)])
qed

lemma drives_en_inv: "drives s os s' \<Longrightarrow> en_inv (pm_engine s) \<Longrightarrow> en_inv (pm_engine s')"
  unfolding drives_def using en_inv_run by metis

lemma drives_same: "drives s os t \<Longrightarrow> videos os' = videos os \<Longrightarrow> pm_engine t' = pm_engine t \<Longrightarrow> drives s os' t'"
  by (simp add: drives_def)

lemma video_packet_drives:
  assumes "pm_callbacks s"
  shows "drives s (fst (pm_onVideoPacket n wire s)) (snd (pm_onVideoPacket n wire s))"
proof -
  have d: "drives s (fst (run_engine n (en_processRtpVideoPacket wire t) (s\<lparr>pm_estimator := e\<rparr>)))
      (snd (run_engine n (en_processRtpVideoPacket wire t) (s\<lparr>pm_estimator := e\<rparr>)))" for t e
    by (rule drives_one [of _ "EnRtp wire t"])
      (use assms in \<open>simp_all add: run_engine_def case_prod_beta handlers_fields handlers_videos\<close>)
  show ?thesis
  proof (cases "parseRtp wire")
    case (Some packet)
    show ?thesis
    proof (cases "rtp_payloadType packet \<in> set (pm_payloadTypes s)")
      case True
      show ?thesis
        unfolding pm_onVideoPacket_def Let_def
        by (simp add: Some True case_prod_beta split: option.split)
          (intro conjI allI impI d drives_same [OF d]; simp)
    qed (simp add: pm_onVideoPacket_def Some drives_still)
  qed (simp add: pm_onVideoPacket_def drives_still)
qed

lemma play_videos [simp]: "videos (play frames s) = []"
  by (simp add: play_def)

lemma timer_drives:
  assumes "pm_callbacks s"
  shows "drives s (fst (pm_timer opus n live s)) (snd (pm_timer opus n live s))"
proof -
  have "drives s (fst (run_engine n (en_onTimer (pn_ns n)) s)) (snd (run_engine n (en_onTimer (pn_ns n)) s))"
    by (rule run_engine_drives [of _ "EnTimer (pn_ns n)"]) (use assms in \<open>auto simp: fun_eq_iff\<close>)
  moreover have "videos (fst (flush n rate r)) = []" for rate r
    by (simp add: flush_def case_prod_beta split: option.split)
  ultimately show ?thesis
    by (simp add: pm_timer_def Let_def case_prod_beta drives_def)
qed

lemma drives_twice: "drives s [] s1 \<Longrightarrow> drives s1 [] s2 \<Longrightarrow> drives s [] s2"
  using drives_append [of s "[]" s1 "[]" s2] by simp

lemma initialize_drives: "drives s [] (snd (pm_Initialize kind tcpTls config created s))"
proof -
  have d: "drives s [] t" if "pm_engine t = pm_engine (CloseInternal s)" for t
    using close_drives [of s] that by (simp add: drives_def)
  show ?thesis
    unfolding pm_Initialize_def Let_def
    by (simp add: d split: sum.split) (intro conjI allI impI drives_twice [OF d close_drives]; simp)
qed

lemma track_drives: "drives s (fst (pm_onTrack opus n track media s)) (snd (pm_onTrack opus n track media s))"
proof -
  have "drives s [] t" if "pm_engine t = en_setVideoPayloadTypes ts (pm_engine s)" for t ts
    by (rule drives_one [of _ "EnTypes ts"]) (simp_all add: that)
  then show ?thesis
    by (auto simp: pm_onTrack_def pm_videoTrack_on_def pm_audioTrack_on_def Let_def drives_still split: prod.split)
qed

lemma channel_drives: "drives s (fst (pm_onDataChannel label channel s)) (snd (pm_onDataChannel label channel s))"
proof -
  have "drives s [] t" if "pm_engine t = en_onVideoDataChannelOpened (pm_engine s)" for t
    by (rule drives_one [of _ EnOpened]) (simp_all add: that)
  then show ?thesis by (simp add: pm_onDataChannel_def drives_still)
qed

lemma control_videos [simp]: "videos (send_control n text s) = []" "videos (pm_onControlMessage n text s) = []"
  by (simp_all add: pm_onControlMessage_def send_control_def Let_def split: sum.split option.split)

lemma call_drives:
  assumes "pm_inv s" "guarded i \<longrightarrow> pm_gate s"
  shows "drives s (fst (pm_call kind tcpTls opus n i s)) (snd (pm_call kind tcpTls opus n i s))"
proof -
  have c: "pm_callbacks s" if "guarded i" using assms that by (simp add: pm_inv_def)
  show ?thesis
  proof (cases i)
    case (PiVideoData b)
    have "drives s (fst (run_engine n (en_processDataChannelPacket b (pn_ns n)) s)) (snd (run_engine n (en_processDataChannelPacket b (pn_ns n)) s))"
      by (rule run_engine_drives [of _ "EnDc b (pn_ns n)"]) (use c PiVideoData in \<open>auto simp: fun_eq_iff guarded_def\<close>)
    then show ?thesis by (simp add: pm_call_def PiVideoData)
  next
    case PiVideoClosed
    show ?thesis unfolding PiVideoClosed
      by (rule drives_one [of _ EnClosed]) (simp_all add: pm_call_def pm_onVideoClosed_def)
  next
    case (PiVideoPacket wire)
    then show ?thesis using c by (simp add: pm_call_def video_packet_drives guarded_def)
  next
    case (PiTimer live)
    then show ?thesis using c by (simp add: pm_call_def timer_drives guarded_def)
  next
    case (PiMedia video messages send)
    then show ?thesis by (auto simp: pm_call_def pm_media_def case_prod_beta drives_still split: option.split)
  qed (simp_all add: pm_call_def request_drives close_drives initialize_drives track_drives channel_drives drives_still
    pm_onStateChange_def pm_onAudioPacket_def case_prod_beta)
qed

lemma step_drives:
  assumes "pm_inv s"
  shows "drives s (fst (pm_step kind tcpTls opus ni s)) (snd (pm_step kind tcpTls opus ni s))"
  using call_drives [OF assms, of "snd ni" kind tcpTls opus "fst ni"] by (simp add: pm_step_def drives_still)

lemma run_drives:
  assumes "pm_inv s"
  shows "drives s (fst (pm_run kind tcpTls opus nis s)) (snd (pm_run kind tcpTls opus nis s))"
  using assms
proof (induction nis arbitrary: s)
  case (Cons ni nis)
  then show ?case
    using drives_append [OF step_drives [OF Cons.prems] Cons.IH [OF pm_inv_step [OF Cons.prems]]]
    by (simp add: case_prod_beta)
qed (simp add: drives_still)

lemma pm_run_append:
  "pm_run kind tcpTls opus (xs @ ys) s =
    (fst (pm_run kind tcpTls opus xs s) @ fst (pm_run kind tcpTls opus ys (snd (pm_run kind tcpTls opus xs s))),
     snd (pm_run kind tcpTls opus ys (snd (pm_run kind tcpTls opus xs s))))"
  by (induction xs arbitrary: s) (simp_all add: case_prod_beta)

lemma pm_en_inv: "en_inv (pm_engine (snd (pm_run kind tcpTls opus nis pm_init)))"
  by (rule drives_en_inv [OF run_drives [OF pm_inv_init]]) (simp add: pm_init_def en_inv_init)

lemma closed_waits: "rd_waiting (en_rtp (pm_engine (CloseInternal s)))" "dc_waiting (en_dc (pm_engine (CloseInternal s)))"
  by (simp_all add: CloseInternal_def en_reset_def en_onDataChannelVideoClosed_def rd_Reset_def dc_Reset_def)

lemma initialize_waits:
  "rd_waiting (en_rtp (pm_engine (snd (pm_Initialize kind tcpTls config created s))))"
  "dc_waiting (en_dc (pm_engine (snd (pm_Initialize kind tcpTls config created s))))"
  unfolding pm_Initialize_def Let_def by (simp_all add: closed_waits split: sum.split)

text \<open>What ends a session or begins one.\<close>

definition restarts :: "peer_input \<Rightarrow> bool" where
  "restarts i \<longleftrightarrow> (case i of PiInitialize _ _ \<Rightarrow> True | PiClose \<Rightarrow> True | _ \<Rightarrow> False)"

lemma restarted:
  assumes "restarts i" "s = snd (pm_run kind tcpTls opus (xs @ [(n, i)]) pm_init)"
  shows "rd_waiting (en_rtp (pm_engine s)) \<and> dc_waiting (en_dc (pm_engine s))"
  using assms(1) unfolding assms(2) pm_run_append
  by (cases i) (simp_all add: restarts_def case_prod_beta pm_step_def guarded_def pm_call_def closed_waits initialize_waits)

section \<open>A closed session\<close>

lemma closed_step:
  assumes "pm_inv s" "\<not> pm_gate s" "\<forall>config created. snd ni \<noteq> PiInitialize config created"
  shows "fst (pm_step kind tcpTls opus ni s) = [] \<and> \<not> pm_gate (snd (pm_step kind tcpTls opus ni s))"
proof -
  have t: "pm_videoTrack s = None" "pm_controlDc s = None" "pm_videoRtcp s = None"
    using assms(1,2) by (auto simp: pm_inv_def track_list_def split: option.splits)
  have r: "fst (run_engine n (en_requestKeyframe x) s) = []" for n x
    by (simp add: run_engine_def en_requestKeyframe_def en_tryDispatch_def en_bump_def engine_handler_def send_control_def t
      Let_def split: KeyframeChannel.split)
  show ?thesis
    by (cases "snd ni") (use assms in \<open>simp_all add: pm_step_def guarded_def pm_call_def t r run_engine_fields send_control_def CloseInternal_def\<close>)
qed

lemma closed_run:
  assumes "pm_inv s" "\<not> pm_gate s" "\<forall>config created. PiInitialize config created \<notin> snd ` set nis"
  shows "fst (pm_run kind tcpTls opus nis s) = []"
  using assms
proof (induction nis arbitrary: s)
  case (Cons ni nis)
  then have "\<forall>config created. snd ni \<noteq> PiInitialize config created" by (metis image_eqI list.set_intros(1))
  then show ?case
    using closed_step [OF Cons.prems(1,2)] Cons.IH [OF pm_inv_step [OF Cons.prems(1)]] Cons.prems(3)
    by (simp add: case_prod_beta)
qed simp

section \<open>The list of servers\<close>

definition server_of :: "(bytes \<Rightarrow> ice_kind option) \<Rightarrow> IceServer \<Rightarrow> bytes \<Rightarrow> NativeServer" where
  "server_of kind server url =
     (if kind url = Some Stun then \<lparr>ns_url = url, ns_username = [], ns_password = []\<rparr>
      else \<lparr>ns_url = url, ns_username = ice_username server, ns_password = ice_credential server\<rparr>)"

definition usable :: "(bytes \<Rightarrow> ice_kind option) \<Rightarrow> bool \<Rightarrow> bytes \<Rightarrow> bool" where
  "usable kind tcpTls url \<longleftrightarrow> tcpTls \<or> kind url \<noteq> Some TurnOther"

definition acceptable :: "(bytes \<Rightarrow> ice_kind option) \<Rightarrow> IceServer \<Rightarrow> bytes \<Rightarrow> bool" where
  "acceptable kind server url \<longleftrightarrow>
     supportedIceUrl url \<and> kind url \<noteq> None \<and> (kind url = Some Stun \<or> ice_username server \<noteq> [] \<and> ice_credential server \<noteq> [])"

definition entries :: "(bytes \<Rightarrow> ice_kind option) \<Rightarrow> bool \<Rightarrow> IceServer \<Rightarrow> bytes list \<Rightarrow> NativeServer list" where
  "entries kind tcpTls server urls = map (server_of kind server) (filter (usable kind tcpTls) urls)"

abbreviation any_turn :: "(bytes \<Rightarrow> ice_kind option) \<Rightarrow> NativeServer list \<Rightarrow> bool" where
  "any_turn kind \<equiv> list_ex (\<lambda>s. kind (ns_url s) \<noteq> Some Stun)"

lemma add_urls_Cons:
  assumes "add_urls kind tcpTls server (url # urls) acc = Inr r"
  shows "acceptable kind server url \<and>
    add_urls kind tcpTls server urls
      (fst acc @ entries kind tcpTls server [url], snd acc \<or> any_turn kind (entries kind tcpTls server [url])) = Inr r"
proof -
  obtain k where k: "kind url = Some k" "supportedIceUrl url" using assms by (auto split: if_splits option.splits)
  show ?thesis
    using assms by (cases k; cases acc) (simp_all add: k acceptable_def entries_def server_of_def usable_def split: if_splits)
qed

lemma add_urls_spec:
  assumes "add_urls kind tcpTls server urls acc = Inr r"
  shows "list_all (acceptable kind server) urls \<and>
    r = (fst acc @ entries kind tcpTls server urls, snd acc \<or> any_turn kind (entries kind tcpTls server urls))"
  using assms
proof (induction urls arbitrary: acc)
  case (Cons url urls)
  note a = add_urls_Cons [OF Cons.prems]
  have e: "entries kind tcpTls server (url # urls) = entries kind tcpTls server [url] @ entries kind tcpTls server urls"
    by (simp add: entries_def)
  show ?case using a Cons.IH [OF conjunct2 [OF a]] unfolding e by auto
qed (simp add: entries_def)

lemma add_servers_spec:
  assumes "add_servers kind tcpTls servers acc = Inr r"
  shows "list_all (\<lambda>server. list_all (acceptable kind server) (ice_urls server)) servers \<and>
    r = (fst acc @ concat (map (\<lambda>server. entries kind tcpTls server (ice_urls server)) servers),
         snd acc \<or> any_turn kind (concat (map (\<lambda>server. entries kind tcpTls server (ice_urls server)) servers)))"
  using assms
proof (induction servers arbitrary: acc)
  case (Cons server servers)
  then obtain a where a: "add_urls kind tcpTls server (ice_urls server) acc = Inr a" "add_servers kind tcpTls servers a = Inr r"
    by (cases "add_urls kind tcpTls server (ice_urls server) acc") auto
  show ?case using add_urls_spec [OF a(1)] Cons.IH [OF a(2)] by auto
qed simp

section \<open>Tracks and answers\<close>

lemma pm_session_tracks:
  "s = snd (pm_run kind tcpTls opus nis pm_init) \<Longrightarrow>
    length (pm_tracks s) \<le> 2 \<and> (pm_videoTrack s = None \<longleftrightarrow> pm_videoRtcp s = None) \<and> (pm_audioTrack s = None \<longleftrightarrow> pm_audioRtcp s = None)"
  using pm_inv_run [OF pm_inv_init, of kind tcpTls opus nis]
  by (auto simp: pm_inv_def track_list_def split: option.splits)

text \<open>Tests that are 20 ms apart end the wait within its fuel.\<close>

lemma gather_ends:
  assumes "\<And>j. gt_time (at_test j) \<ge> began + 20 * int j" "k + fuel = 502" "k \<le> 500"
  shows "gather_loop fuel (began + 10000) at_test k \<noteq> None"
  using assms(2,3)
proof (induction fuel arbitrary: k)
  case (Suc fuel)
  show ?case
  proof (cases "k = 500")
    case True
    then show ?thesis using assms(1) [of 500] by auto
  next
    case False
    then show ?thesis using Suc.IH [of "k + 1"] Suc.prems by auto
  qed
qed simp

lemma gathered_is_current:
  "gather_loop fuel deadline at_test k = Some True \<Longrightarrow> \<exists>j. gt_complete (at_test j) \<and> \<not> gt_aborted (at_test j)"
  by (induction fuel arbitrary: k) (auto split: if_splits)

lemma answer_returns:
  assumes "\<And>j. gt_time (at_test j) \<ge> began + 20 * int j"
  shows "fst (ProcessOffer sdp applied began at_test local s) \<noteq> None"
  using gather_ends [OF assms, of 0 502] by (auto simp: ProcessOffer_def Let_def split: option.split)

lemma answer_is_current:
  assumes "fst (ProcessOffer sdp applied began at_test local s) = Some (Some answer)"
  shows "offer_accepted sdp s \<and> answer \<noteq> [] \<and> (\<exists>j. gt_complete (at_test j) \<and> \<not> gt_aborted (at_test j))"
proof -
  have a: "offer_accepted sdp (s\<lparr>pm_gathered := False\<rparr>)" "answer \<noteq> []" "gather_loop 502 (began + 10000) at_test 0 = Some True"
    using assms by (auto simp: ProcessOffer_def Let_def split: if_splits option.splits)
  then show ?thesis using gathered_is_current [OF a(3)] by (simp add: offer_accepted_def)
qed

section \<open>Properties\<close>


definition demo_kind :: "bytes \<Rightarrow> ice_kind option" where
  "demo_kind url =
     (if starts_with url ''stun:'' then Some Stun else if starts_with url ''turn:'' then Some TurnUdp
      else if starts_with url ''turns:'' then Some TurnOther else None)"

definition peer_demo :: "(PeerNow \<times> peer_input) list" where
  "peer_demo =
     map (Pair \<lparr>pn_ns = 5, pn_us = 0, pn_open = False\<rparr>)
       [PiChannel (str ''km-video-stream'') 1, PiVideoData (dc_encode 9 7 True [concat dc_example] 0)]"

definition peer_demo_config :: RtcConfiguration where
  "peer_demo_config = \<lparr>rtc_iceServers =
     [\<lparr>ice_urls = [str ''stun:a'', str ''turn:b'', str ''turns:c''], ice_username = [1], ice_credential = [2]\<rparr>],
     rtc_iceTransportPolicy = str ''relay''\<rparr>"

definition peer_demo_now :: PeerNow where
  "peer_demo_now = \<lparr>pn_ns = 0, pn_us = 0, pn_open = False\<rparr>"

lemma peer_demo_frames:
  "videos (fst (pm_run demo_kind False demo_opus peer_demo
     (snd (pm_run demo_kind False demo_opus ([] @ [(peer_demo_now, PiInitialize peer_demo_config True)]) pm_init)))) =
   [au_output dc_example_nalus]"
  by code_simp




text \<open>C17: a configuration that is accepted yields exactly its usable URLs in order, each supported and
  understood by the library and each TURN URL with both credentials; the policy is one of the two, and under the
  relay policy a TURN server is among them.\<close>

theorem native_configuration_sound:
  assumes "native_configuration kind tcpTls config = Inr (relay, servers)"
  shows "list_all (\<lambda>server. list_all (acceptable kind server) (ice_urls server)) (rtc_iceServers config) \<and>
    servers = concat (map (\<lambda>server. map (server_of kind server) (filter (usable kind tcpTls) (ice_urls server))) (rtc_iceServers config)) \<and>
    rtc_iceTransportPolicy config = str (if relay then ''relay'' else ''all'') \<and>
    (if relay then any_turn kind servers else True)"
proof -
  obtain turn where a: "add_servers kind tcpTls (rtc_iceServers config) ([], False) = Inr (servers, turn)"
    and r: "relay \<longleftrightarrow> rtc_iceTransportPolicy config = str ''relay''" "rtc_iceTransportPolicy config \<in> {str ''all'', str ''relay''}"
      "relay \<Longrightarrow> turn"
    using assms by (cases "add_servers kind tcpTls (rtc_iceServers config) ([], False)")
      (auto simp: native_configuration_def Let_def split: if_splits)
  then show ?thesis using add_servers_spec [OF a] by (auto simp: entries_def)
qed

theorem native_configuration_sound_witness:
  "\<exists>servers. native_configuration demo_kind False peer_demo_config = Inr (True, servers) \<and> map ns_url servers = [str ''stun:a'', str ''turn:b''] \<and>
     any_turn demo_kind servers"
proof -
  have "map_sum id (map ns_url \<circ> snd) (native_configuration demo_kind False peer_demo_config) = Inr [str ''stun:a'', str ''turn:b'']"
    and "map_sum id fst (native_configuration demo_kind False peer_demo_config) = Inr True"
    by code_simp+
  then obtain servers where s: "native_configuration demo_kind False peer_demo_config = Inr (True, servers)"
    "map ns_url servers = [str ''stun:a'', str ''turn:b'']"
    by (cases "native_configuration demo_kind False peer_demo_config") (auto simp: split_paired_all)
  have "any_turn demo_kind servers" using native_configuration_sound [OF s(1)] unfolding if_True by (elim conjE)
  then show ?thesis by (intro exI [of _ servers] conjI s)
qed

end
