(* ===== verification/AppController.thy ===== *)
theory AppController
  imports BoundedVideoQueue Pacer TestPattern FramePipe PeerConnection
begin

text \<open>
  \<open>src/windows/receiver/app/app_controller.cpp\<close>: the threads of the Windows receiver around the compressed
  video queue. RTC callbacks push access units; the video worker pops them, owns the decoder and
  letterboxes the pictures; the output worker publishes a frame 30 times a second, live or the test
  pattern; the UI thread starts sessions and shuts everything down. A step is one critical section
  (\<open>videoQueue_\<close>, \<open>frameMutex_\<close>) or one access of an atomic, with the thread-local code around it. The
  decoder is a parameter: whether \<open>Initialize\<close> succeeds and what \<open>DecodeAccessUnit\<close> yields are arguments.
  Three fields are not the code's: \<open>ac_fed\<close>, the units the decoder was given since it was last
  initialised, \<open>ac_made\<close>, the frames that were converted and from what, and \<open>ac_linked\<close>, whether the
  queue was left uncleared since the last pop.
\<close>

section \<open>State\<close>

datatype video_pc =
  VwPop | VwCheck QueuedAccessUnit | VwReinit QueuedAccessUnit | VwInvalidate | VwDecode QueuedAccessUnit
| VwLast QueuedAccessUnit bytes | VwStore QueuedAccessUnit bytes | VwEnd | VwFault

datatype output_pc = OwPace | OwWait nat | OwSelect nat | OwShow nat "bytes option" | OwEnd | OwFault

datatype ui_pc =
  UiIdle | StJoin | StClose | StReset | StForget u64 | StSpawn u64
| SdFlags | SdJoinSignaling | SdClose | SdReset | SdVideoFlag | SdJoinVideo | SdOutputFlag | SdJoinOutput | SdStop | SdDone

record Made =
  md_unit :: QueuedAccessUnit
  md_picture :: bytes
  md_width :: int
  md_height :: int
  md_degrees :: int
  md_frame :: bytes

record App =
  ac_queue :: video_queue
  ac_latest :: "bytes option"
  ac_latestGeneration :: u64
  ac_latestReset :: u64
  ac_arrival :: u64
  ac_testPattern :: bool
  ac_rotation :: int
  ac_signaling :: bool
  ac_video :: bool
  ac_output :: bool
  ac_accepting :: bool
  ac_shutting :: bool
  ac_rtc :: "u64 option"
  ac_signalingThread :: "u64 option"
  ac_keyframes :: nat
  ac_activeGeneration :: u64
  ac_activeReset :: u64
  ac_noOutput :: nat
  ac_vpc :: video_pc
  ac_pacer :: pacer
  ac_pattern :: TestPatternGenerator
  ac_idle :: bytes
  ac_index :: u64
  ac_opc :: output_pc
  ac_pipe :: PipePublisher
  ac_upc :: ui_pc
  ac_fed :: "QueuedAccessUnit list"
  ac_made :: "Made list"
  ac_linked :: bool

text \<open>After \<open>Initialize\<close>: both workers run and no session has been started.\<close>

definition app_init :: "pacer \<Rightarrow> TestPatternGenerator \<Rightarrow> PipePublisher \<Rightarrow> App" where
  "app_init pacer pattern pipe =
     \<lparr>ac_queue = vq_init, ac_latest = None, ac_latestGeneration = 0, ac_latestReset = 0, ac_arrival = 0,
      ac_testPattern = False, ac_rotation = 0, ac_signaling = False, ac_video = True, ac_output = True,
      ac_accepting = True, ac_shutting = False, ac_rtc = None, ac_signalingThread = None, ac_keyframes = 0,
      ac_activeGeneration = 0, ac_activeReset = 0, ac_noOutput = 0, ac_vpc = VwPop, ac_pacer = pacer,
      ac_pattern = pattern, ac_idle = replicate (nat kPayloadBytes) 0, ac_index = 0, ac_opc = OwPace,
      ac_pipe = pipe, ac_upc = UiIdle, ac_fed = [], ac_made = [], ac_linked = False\<rparr>"

text \<open>Every change of the queue; clearing it increments the reset serial.\<close>

definition set_queue :: "video_queue \<Rightarrow> App \<Rightarrow> App" where
  "set_queue q s = s\<lparr>ac_queue := q, ac_linked := (ac_linked s \<and> vq_resetSerial q = vq_resetSerial (ac_queue s))\<rparr>"

section \<open>Callbacks of the peer connection\<close>

definition ac_video_callback :: "bytes option \<Rightarrow> int \<Rightarrow> u64 \<Rightarrow> App \<Rightarrow> App" where
  "ac_video_callback data timestampUs generation s =
     (case data of
        None \<Rightarrow> s
      | Some b \<Rightarrow>
          if \<not> ac_video s then s
          else
            (case vq_push b timestampUs generation (ac_queue s) of
               (ok, q) \<Rightarrow> (set_queue q s)\<lparr>ac_keyframes := ac_keyframes s + (if ok then 0 else 1)\<rparr>))"

definition ac_state_callback :: "peer_state \<Rightarrow> App \<Rightarrow> App" where
  "ac_state_callback state s =
     (if state \<in> {PeerDisconnected, PeerFailed, PeerClosed} then set_queue (vq_invalidate (ac_queue s)) s else s)"

text \<open>What the audio callback hands to the renderer.\<close>

definition ac_audio_callback :: "16 word list option \<Rightarrow> int \<Rightarrow> int \<Rightarrow> (16 word list \<times> int) option" where
  "ac_audio_callback pcm channels rate =
     (case pcm of
        None \<Rightarrow> None
      | Some elements \<Rightarrow>
          if rate \<noteq> 48000 \<or> (channels \<noteq> 1 \<and> channels \<noteq> 2) \<or> length elements mod nat channels \<noteq> 0 then None
          else Some (elements, channels))"

section \<open>The video worker\<close>

record VideoAnswers =
  va_init :: bool
  va_decode :: "(bytes \<times> int \<times> int) option"
  va_now :: u64

definition picture_ok :: "bytes \<Rightarrow> int \<Rightarrow> int \<Rightarrow> bool" where
  "picture_ok decoded width height \<longleftrightarrow>
     \<not> (width \<le> 0 \<or> height \<le> 0 \<or> width > 8192 \<or> height > 8192 \<or> width mod 2 = 1 \<or> height mod 2 = 1 \<or>
        int (length decoded) < width * height * 3 div 2)"

definition ac_decoded :: "QueuedAccessUnit \<Rightarrow> bytes \<Rightarrow> int \<Rightarrow> int \<Rightarrow> App \<Rightarrow> App" where
  "ac_decoded unit decoded width height s =
     (if \<not> picture_ok decoded width height then s\<lparr>ac_noOutput := 0, ac_vpc := VwInvalidate\<rparr>
      else
        (case ConvertNv12ToNv12Letterbox (Some decoded) width width height (replicate (nat kPayloadBytes) 0) 1280 720 (ac_rotation s) of
           None \<Rightarrow> s\<lparr>ac_vpc := VwFault\<rparr>
         | Some output \<Rightarrow>
             s\<lparr>ac_noOutput := 0, ac_vpc := VwLast unit output,
               ac_made := \<lparr>md_unit = unit, md_picture = decoded, md_width = width, md_height = height,
                 md_degrees = ac_rotation s, md_frame = output\<rparr> # ac_made s\<rparr>))"

definition video_step :: "VideoAnswers \<Rightarrow> App \<Rightarrow> App" where
  "video_step a s =
     (case ac_vpc s of
        VwPop \<Rightarrow>
          if \<not> ac_video s then s\<lparr>ac_vpc := VwEnd\<rparr>
          else (case vq_pop (ac_queue s) of
                  None \<Rightarrow> s
                | Some (unit, q) \<Rightarrow> s\<lparr>ac_queue := q, ac_linked := True, ac_vpc := VwCheck unit\<rparr>)
      | VwCheck unit \<Rightarrow>
          if \<not> vq_current unit (ac_queue s) then s\<lparr>ac_vpc := VwPop\<rparr>
          else if ac_activeGeneration s \<noteq> au_generation unit \<or> ac_activeReset s \<noteq> au_resetSerial unit
          then s\<lparr>ac_vpc := VwReinit unit\<rparr>
          else s\<lparr>ac_vpc := VwDecode unit\<rparr>
      | VwReinit unit \<Rightarrow>
          if \<not> va_init a then s\<lparr>ac_vpc := VwInvalidate\<rparr>
          else s\<lparr>ac_activeGeneration := au_generation unit, ac_activeReset := au_resetSerial unit, ac_noOutput := 0,
                 ac_fed := [], ac_vpc := VwDecode unit\<rparr>
      | VwInvalidate \<Rightarrow>
          (set_queue (vq_invalidate (ac_queue s)) s)\<lparr>ac_keyframes := ac_keyframes s + 1, ac_vpc := VwPop\<rparr>
      | VwDecode unit \<Rightarrow>
          let s1 = s\<lparr>ac_fed := ac_fed s @ [unit]\<rparr> in
          (case va_decode a of
             None \<Rightarrow>
               if ac_noOutput s + 1 \<ge> 60 then s1\<lparr>ac_noOutput := 0, ac_vpc := VwInvalidate\<rparr>
               else s1\<lparr>ac_noOutput := ac_noOutput s + 1, ac_vpc := VwPop\<rparr>
           | Some (decoded, width, height) \<Rightarrow> ac_decoded unit decoded width height s1)
      | VwLast unit output \<Rightarrow>
          if vq_current unit (ac_queue s) then s\<lparr>ac_vpc := VwStore unit output\<rparr> else s\<lparr>ac_vpc := VwPop\<rparr>
      | VwStore unit output \<Rightarrow>
          s\<lparr>ac_latest := Some output, ac_arrival := va_now a, ac_latestGeneration := au_generation unit,
            ac_latestReset := au_resetSerial unit, ac_vpc := VwPop\<rparr>
      | VwEnd \<Rightarrow> s
      | VwFault \<Rightarrow> s)"

section \<open>The output worker\<close>

text \<open>The next deadline at time \<open>now\<close>: after a stall of more than half a second the pacer starts again,
  otherwise missed slots are skipped. The skipping loop has fuel.\<close>

fun skip_slots :: "nat \<Rightarrow> nat \<Rightarrow> nat \<Rightarrow> pacer \<Rightarrow> (nat \<times> pacer) res option" where
  "skip_slots 0 now deadline p = None"
| "skip_slots (Suc fuel) now deadline p =
     (if now > deadline \<and> now - deadline \<ge> 33333334
      then (case pacer_next p of Inl e \<Rightarrow> Some (Inl e) | Inr (d, p') \<Rightarrow> skip_slots fuel now d p')
      else Some (Inr (deadline, p)))"

definition next_deadline :: "nat \<Rightarrow> pacer \<Rightarrow> (nat \<times> pacer) res option" where
  "next_deadline now p =
     (case pacer_next p of
        Inl e \<Rightarrow> Some (Inl e)
      | Inr (deadline, p1) \<Rightarrow>
          if now > deadline \<and> now - deadline > 500000000
          then Some (bindR (RationalPacer 30 1 now) pacer_next)
          else skip_slots 17 now deadline p1)"

definition ac_select :: "u64 \<Rightarrow> App \<Rightarrow> bytes option" where
  "ac_select now s =
     (if \<not> ac_testPattern s \<and> ac_latest s \<noteq> None \<and> now \<ge> ac_arrival s \<and> now - ac_arrival s \<le> 1000000000 \<and>
         ac_latestGeneration s = vq_generation (ac_queue s) \<and> ac_latestReset s = vq_resetSerial (ac_queue s)
      then ac_latest s else None)"

record OutputAnswers =
  oa_now :: u64
  oa_dxgiReady :: bool

definition output_step :: "OutputAnswers \<Rightarrow> App \<Rightarrow> App" where
  "output_step a s =
     (case ac_opc s of
        OwPace \<Rightarrow>
          if \<not> ac_output s then s\<lparr>ac_opc := OwEnd\<rparr>
          else (case next_deadline (unat (oa_now a)) (ac_pacer s) of
                  Some (Inr (deadline, p)) \<Rightarrow> s\<lparr>ac_pacer := p, ac_opc := OwWait deadline\<rparr>
                | _ \<Rightarrow> s\<lparr>ac_opc := OwFault\<rparr>)
      | OwWait deadline \<Rightarrow>
          if \<not> ac_output s then s\<lparr>ac_opc := OwEnd\<rparr>
          else if unat (oa_now a) < deadline then s
          else s\<lparr>ac_opc := OwSelect deadline\<rparr>
      | OwSelect deadline \<Rightarrow> s\<lparr>ac_opc := OwShow deadline (ac_select (oa_now a) s)\<rparr>
      | OwShow deadline frame \<Rightarrow>
          (case (case frame of None \<Rightarrow> GenerateFrame (ac_pattern s) (ac_idle s) (ac_index s) | Some f \<Rightarrow> Some (ac_idle s)) of
             None \<Rightarrow> s\<lparr>ac_opc := OwFault\<rparr>
           | Some idle \<Rightarrow>
               let pixels = (case frame of None \<Rightarrow> idle | Some f \<Rightarrow> f) in
               s\<lparr>ac_idle := idle, ac_index := ac_index s + 1,
                 ac_pipe := fst (pp_PublishFrame (oa_dxgiReady a) (Some pixels) (of_nat (deadline div 1000)) (ac_pipe s)),
                 ac_opc := OwPace\<rparr>)
      | OwEnd \<Rightarrow> s
      | OwFault \<Rightarrow> s)"

section \<open>The UI thread\<close>

datatype ui_call = UiNewSession | UiShutdown | UiToggleTestPattern | UiRotation int

text \<open>\<open>StartNewSignalingSession\<close> after its first line. The join waits for its thread; closing the peer
  connection closes its callback gate.\<close>

definition session_step :: "App \<Rightarrow> App" where
  "session_step s =
     (case ac_upc s of
        StJoin \<Rightarrow> if ac_signalingThread s = None then s\<lparr>ac_upc := StClose\<rparr> else s
      | StClose \<Rightarrow> s\<lparr>ac_rtc := None, ac_upc := StReset\<rparr>
      | StReset \<Rightarrow> (case vq_reset (ac_queue s) of (generation, q) \<Rightarrow> (set_queue q s)\<lparr>ac_upc := StForget generation\<rparr>)
      | StForget generation \<Rightarrow> s\<lparr>ac_latest := None, ac_arrival := 0, ac_upc := StSpawn generation\<rparr>
      | StSpawn generation \<Rightarrow> s\<lparr>ac_signaling := True, ac_signalingThread := Some generation, ac_upc := UiIdle\<rparr>
      | _ \<Rightarrow> s)"

text \<open>\<open>Shutdown\<close> after its first line, up to \<open>pipePublisher_.Stop()\<close>.\<close>

definition shutdown_step :: "App \<Rightarrow> App" where
  "shutdown_step s =
     (case ac_upc s of
        SdFlags \<Rightarrow> s\<lparr>ac_accepting := False, ac_signaling := False, ac_upc := SdJoinSignaling\<rparr>
      | SdJoinSignaling \<Rightarrow> if ac_signalingThread s = None then s\<lparr>ac_upc := SdClose\<rparr> else s
      | SdClose \<Rightarrow> s\<lparr>ac_rtc := None, ac_upc := SdReset\<rparr>
      | SdReset \<Rightarrow> (set_queue (snd (vq_reset (ac_queue s))) s)\<lparr>ac_upc := SdVideoFlag\<rparr>
      | SdVideoFlag \<Rightarrow> s\<lparr>ac_video := False, ac_upc := SdJoinVideo\<rparr>
      | SdJoinVideo \<Rightarrow> if ac_vpc s = VwEnd then s\<lparr>ac_upc := SdOutputFlag\<rparr> else s
      | SdOutputFlag \<Rightarrow> s\<lparr>ac_output := False, ac_upc := SdJoinOutput\<rparr>
      | SdJoinOutput \<Rightarrow> if ac_opc s = OwEnd then s\<lparr>ac_upc := SdStop\<rparr> else s
      | SdStop \<Rightarrow> s\<lparr>ac_pipe := fst (pp_Stop (ac_pipe s)), ac_upc := SdDone\<rparr>
      | _ \<Rightarrow> s)"

text \<open>The window's callbacks and the steps of the calls they begin.\<close>

definition ui_step :: "ui_call \<Rightarrow> App \<Rightarrow> App" where
  "ui_step call s =
     (case ac_upc s of
        UiIdle \<Rightarrow>
          (case call of
             UiNewSession \<Rightarrow> if ac_shutting s then s else s\<lparr>ac_signaling := False, ac_upc := StJoin\<rparr>
           | UiShutdown \<Rightarrow> if ac_shutting s then s else s\<lparr>ac_shutting := True, ac_upc := SdFlags\<rparr>
           | UiToggleTestPattern \<Rightarrow> s\<lparr>ac_testPattern := \<not> ac_testPattern s\<rparr>
           | UiRotation degrees \<Rightarrow> s\<lparr>ac_rotation := degrees\<rparr>)
      | StJoin \<Rightarrow> session_step s
      | StClose \<Rightarrow> session_step s
      | StReset \<Rightarrow> session_step s
      | StForget generation \<Rightarrow> session_step s
      | StSpawn generation \<Rightarrow> session_step s
      | _ \<Rightarrow> shutdown_step s)"

lemmas ui_steps = ui_step_def session_step_def shutdown_step_def

section \<open>All threads\<close>

text \<open>The signaling thread of a session may initialise the peer connection with its callbacks, which carry
  the session's generation, and ends at some time. The monotonic clock is below \<open>2 ^ 63\<close>.\<close>

inductive app_reachable :: "App \<Rightarrow> bool" where
  init: "RationalPacer 30 1 epoch = Inr pacer \<Longrightarrow> epoch < 2 ^ 63 \<Longrightarrow> TestPatternGenerator_init = Some pattern \<Longrightarrow>
     app_reachable (app_init pacer pattern (fst (pp_Start deviceOk PipePublisher_init)))"
| ui: "app_reachable s \<Longrightarrow> app_reachable (ui_step call s)"
| rtc_open: "app_reachable s \<Longrightarrow> ac_signalingThread s = Some generation \<Longrightarrow> app_reachable (s\<lparr>ac_rtc := Some generation\<rparr>)"
| signaling_end: "app_reachable s \<Longrightarrow> app_reachable (s\<lparr>ac_signalingThread := None\<rparr>)"
| video_in: "app_reachable s \<Longrightarrow> ac_rtc s = Some generation \<Longrightarrow> app_reachable (ac_video_callback data timestampUs generation s)"
| state_in: "app_reachable s \<Longrightarrow> ac_rtc s = Some generation \<Longrightarrow> app_reachable (ac_state_callback state s)"
| video: "app_reachable s \<Longrightarrow> app_reachable (video_step va s)"
| publish: "app_reachable s \<Longrightarrow> unat (oa_now oa) < 2 ^ 63 \<Longrightarrow> app_reachable (output_step oa s)"

section \<open>The decoder's input\<close>

definition same_identity :: "QueuedAccessUnit \<Rightarrow> QueuedAccessUnit \<Rightarrow> bool" where
  "same_identity u v \<longleftrightarrow> au_generation v = au_generation u \<and> au_resetSerial v = au_resetSerial u"

definition session_run :: "QueuedAccessUnit list \<Rightarrow> bool" where
  "session_run us \<longleftrightarrow> (case us of [] \<Rightarrow> True | u # vs \<Rightarrow> configuredIdr (au_bytes u) \<and> list_all (same_identity u) vs)"

text \<open>The decoder can go on with \<open>u\<close>.\<close>

definition continues :: "QueuedAccessUnit list \<Rightarrow> QueuedAccessUnit \<Rightarrow> bool" where
  "continues us u \<longleftrightarrow> configuredIdr (au_bytes u) \<or> (us \<noteq> [] \<and> same_identity (hd us) u)"

definition active_run :: "App \<Rightarrow> bool" where
  "active_run s \<longleftrightarrow> list_all (\<lambda>u. au_generation u = ac_activeGeneration s \<and> au_resetSerial u = ac_activeReset s) (ac_fed s)"

text \<open>Between two pops: if the queue was not cleared since the last one, that unit was given to the
  decoder and is of the queue's identity; otherwise the queue starts with a configured IDR.\<close>

definition linked_ok :: "App \<Rightarrow> bool" where
  "linked_ok s \<longleftrightarrow>
     (if ac_linked s
      then vq_chain (Some (vq_resetSerial (ac_queue s))) (ac_queue s) \<and> ac_fed s \<noteq> [] \<and>
        au_generation (hd (ac_fed s)) = vq_generation (ac_queue s) \<and> au_resetSerial (hd (ac_fed s)) = vq_resetSerial (ac_queue s)
      else vq_chain None (ac_queue s))"

text \<open>While a popped unit is in hand.\<close>

definition held_ok :: "QueuedAccessUnit \<Rightarrow> App \<Rightarrow> bool" where
  "held_ok u s \<longleftrightarrow>
     continues (ac_fed s) u \<and>
     (if ac_linked s then vq_chain (Some (vq_resetSerial (ac_queue s))) (ac_queue s) \<and> vq_current u (ac_queue s)
      else vq_chain None (ac_queue s))"

definition feed_ok :: "App \<Rightarrow> bool" where
  "feed_ok s \<longleftrightarrow> session_run (ac_fed s) \<and> active_run s \<and>
     (case ac_vpc s of
        VwCheck u \<Rightarrow> held_ok u s
      | VwReinit u \<Rightarrow> held_ok u s \<and> configuredIdr (au_bytes u)
      | VwDecode u \<Rightarrow> held_ok u s \<and> ac_activeGeneration s = au_generation u \<and> ac_activeReset s = au_resetSerial u
      | VwInvalidate \<Rightarrow> True
      | _ \<Rightarrow> linked_ok s)"

text \<open>What a change of the queue does.\<close>

lemma serial_clear: "vq_resetSerial (vq_clear q) \<noteq> vq_resetSerial q" "vq_resetSerial (snd (vq_reset q)) \<noteq> vq_resetSerial q"
  by (simp_all add: vq_clear_def vq_reset_def)

lemma chain_reset: "vq_chain prev (snd (vq_reset q))"
  by (simp add: vq_chain_def vq_inv_def vq_clear_def vq_reset_def)

lemma push_cases:
  "snd (vq_push b ts g q) = vq_clear q \<or>
    vq_resetSerial (snd (vq_push b ts g q)) = vq_resetSerial q \<and> vq_generation (snd (vq_push b ts g q)) = vq_generation q"
  by (simp add: vq_push_def Let_def)

definition queue_change :: "video_queue \<Rightarrow> video_queue \<Rightarrow> bool" where
  "queue_change q q' \<longleftrightarrow>
     (vq_resetSerial q' \<noteq> vq_resetSerial q \<and> vq_chain None q') \<or>
     (vq_resetSerial q' = vq_resetSerial q \<and> vq_generation q' = vq_generation q \<and> (\<forall>prev. vq_chain prev q \<longrightarrow> vq_chain prev q'))"

lemma queue_changes:
  "queue_change q (vq_invalidate q)" "queue_change q (snd (vq_reset q))" "queue_change q (snd (vq_push b ts g q))"
proof -
  show "queue_change q (vq_invalidate q)" "queue_change q (snd (vq_reset q))"
    using serial_clear [of q] chain_reset vq_chain_clear by (simp_all add: queue_change_def vq_invalidate_def)
  show "queue_change q (snd (vq_push b ts g q))"
    using push_cases [of b ts g q] serial_clear(1) [of q] vq_chain_clear vq_chain_push by (auto simp: queue_change_def)
qed

lemma change_linked:
  assumes "queue_change (ac_queue s) q"
  shows "linked_ok s \<Longrightarrow> linked_ok (set_queue q s)" "held_ok u s \<Longrightarrow> held_ok u (set_queue q s)"
  using assms by (auto simp: queue_change_def linked_ok_def held_ok_def set_queue_def vq_current_def)

text \<open>The fields that the decoder's input depends on.\<close>

definition same_feed :: "App \<Rightarrow> App \<Rightarrow> bool" where
  "same_feed s s' \<longleftrightarrow> ac_queue s' = ac_queue s \<and> ac_linked s' = ac_linked s \<and> ac_fed s' = ac_fed s \<and>
     ac_activeGeneration s' = ac_activeGeneration s \<and> ac_activeReset s' = ac_activeReset s"

lemma same_feed_ok:
  assumes "same_feed s s'"
  shows "linked_ok s' = linked_ok s" "held_ok u s' = held_ok u s" "active_run s' = active_run s" "session_run (ac_fed s') = session_run (ac_fed s)"
  using assms by (simp_all add: same_feed_def linked_ok_def held_ok_def active_run_def)

lemma feed_same:
  assumes "same_feed s s'" "ac_vpc s' = ac_vpc s" "feed_ok s"
  shows "feed_ok s'"
proof -
  note e = same_feed_ok [OF assms(1)]
  have a: "ac_activeGeneration s' = ac_activeGeneration s" "ac_activeReset s' = ac_activeReset s"
    using assms(1) by (simp_all add: same_feed_def)
  show ?thesis using assms(3) by (simp only: feed_ok_def e a assms(2))
qed

lemma feed_change:
  assumes "queue_change (ac_queue s) q" "feed_ok s"
  shows "feed_ok (set_queue q s)"
proof -
  have "ac_fed (set_queue q s) = ac_fed s" "active_run (set_queue q s) = active_run s" "ac_vpc (set_queue q s) = ac_vpc s"
    "ac_activeGeneration (set_queue q s) = ac_activeGeneration s" "ac_activeReset (set_queue q s) = ac_activeReset s"
    by (simp_all add: set_queue_def active_run_def)
  with assms(2) change_linked [OF assms(1)] show ?thesis by (simp add: feed_ok_def split: video_pc.splits)
qed

lemma feed_ui: "feed_ok s \<Longrightarrow> feed_ok (ui_step call s)"
proof -
  assume ok: "feed_ok s"
  note reset = feed_change [OF queue_changes(2) ok]
  show ?thesis
  proof (cases "ac_upc s")
    case StReset
    then show ?thesis using feed_same [OF _ _ reset] by (simp add: ui_steps same_feed_def vq_reset_def set_queue_def)
  next
    case SdReset
    then show ?thesis using feed_same [OF _ _ reset] by (simp add: ui_steps same_feed_def)
  qed (use feed_same [OF _ _ ok] in \<open>auto simp: ui_steps same_feed_def split: ui_call.split\<close>)
qed

lemma hd_identity:
  assumes "active_run s" "ac_fed s \<noteq> []"
  shows "au_generation (hd (ac_fed s)) = ac_activeGeneration s" "au_resetSerial (hd (ac_fed s)) = ac_activeReset s"
  using assms by (cases "ac_fed s"; simp add: active_run_def)+

lemma feed_pop:
  assumes "linked_ok s" "vq_pop (ac_queue s) = Some (u, q)"
  shows "held_ok u (s\<lparr>ac_queue := q, ac_linked := True, ac_vpc := pc\<rparr>)"
proof -
  let ?prev = "if ac_linked s then Some (vq_resetSerial (ac_queue s)) else None"
  have "vq_chain ?prev (ac_queue s)" using assms(1) by (simp add: linked_ok_def split: if_splits)
  note c = vq_chain_pop [OF this assms(2)]
  have "vq_inv (ac_queue s)" using \<open>vq_chain ?prev (ac_queue s)\<close> by (simp add: vq_chain_def)
  moreover have q: "vq_queue (ac_queue s) = u # vq_queue q" "vq_resetSerial q = vq_resetSerial (ac_queue s)" "vq_generation q = vq_generation (ac_queue s)"
    using assms(2) by (auto simp: vq_pop_def split: list.splits)
  ultimately have u: "au_generation u = vq_generation (ac_queue s)" "au_resetSerial u = vq_resetSerial (ac_queue s)"
    by (auto simp: vq_inv_def vq_current_def)
  have "continues (ac_fed s) u"
    using c assms(1) u by (auto simp: continues_def linked_ok_def same_identity_def split: if_splits)
  then show ?thesis using c u q by (simp add: held_ok_def vq_current_def)
qed

lemma session_snoc:
  assumes "session_run us" "continues us u" "us \<noteq> [] \<Longrightarrow> same_identity (hd us) u"
  shows "session_run (us @ [u])"
  using assms by (cases us) (simp_all add: session_run_def continues_def)

lemma feed_decode:
  assumes "feed_ok s" "ac_vpc s = VwDecode u" "s' = s\<lparr>ac_fed := ac_fed s @ [u]\<rparr>"
  shows "session_run (ac_fed s') \<and> active_run s' \<and> linked_ok s'"
proof -
  have h: "session_run (ac_fed s)" "active_run s" "held_ok u s" "ac_activeGeneration s = au_generation u" "ac_activeReset s = au_resetSerial u"
    using assms(1,2) by (simp_all add: feed_ok_def)
  have hd: "au_generation (hd (ac_fed s @ [u])) = au_generation u \<and> au_resetSerial (hd (ac_fed s @ [u])) = au_resetSerial u"
    using hd_identity [OF h(2)] h(4,5) by (cases "ac_fed s") auto
  have "session_run (ac_fed s @ [u])"
    using h hd_identity [OF h(2)] by (intro session_snoc) (auto simp: held_ok_def same_identity_def)
  moreover have "active_run s'" using h(2,4,5) assms(3) by (simp add: active_run_def)
  moreover have "linked_ok s'" using h(3) hd assms(3) by (simp add: linked_ok_def held_ok_def vq_current_def split: if_splits)
  ultimately show ?thesis using assms(3) by simp
qed

lemma feed_check: "feed_ok s \<Longrightarrow> ac_vpc s = VwCheck u \<Longrightarrow> feed_ok (video_step a s)"
proof -
  assume ok: "feed_ok s" "ac_vpc s = VwCheck u"
  then have h: "held_ok u s" "active_run s" by (simp_all add: feed_ok_def)
  show ?thesis
  proof (cases "vq_current u (ac_queue s)")
    case False
    have "linked_ok (s\<lparr>ac_vpc := VwPop\<rparr>)" using h(1) False by (simp add: held_ok_def linked_ok_def split: if_splits)
    then show ?thesis using ok False by (simp add: video_step_def feed_ok_def active_run_def)
  next
    case True
    show ?thesis
    proof (cases "ac_activeGeneration s = au_generation u \<and> ac_activeReset s = au_resetSerial u")
      case match: True
      then show ?thesis using ok True by (simp add: video_step_def feed_ok_def active_run_def held_ok_def)
    next
      case False
      then have "configuredIdr (au_bytes u)" using h hd_identity [OF h(2)] by (auto simp: held_ok_def continues_def same_identity_def)
      then show ?thesis using ok True False by (auto simp: video_step_def feed_ok_def active_run_def held_ok_def)
    qed
  qed
qed

lemma feed_video: "feed_ok s \<Longrightarrow> feed_ok (video_step a s)"
proof (cases "ac_vpc s")
  case VwPop
  assume "feed_ok s"
  with VwPop show ?thesis
    using feed_pop [of s] by (auto simp: video_step_def feed_ok_def active_run_def linked_ok_def split: option.split)
next
  case (VwCheck u)
  assume "feed_ok s"
  from feed_check [OF this VwCheck] show ?thesis .
next
  case (VwReinit u)
  assume "feed_ok s"
  with VwReinit show ?thesis by (simp add: video_step_def feed_ok_def active_run_def held_ok_def session_run_def continues_def)
next
  case VwInvalidate
  assume ok: "feed_ok s"
  let ?t = "set_queue (vq_invalidate (ac_queue s)) s"
  have l: "linked_ok ?t"
    using serial_clear(1) [of "ac_queue s"] by (simp add: linked_ok_def set_queue_def vq_invalidate_def vq_chain_clear)
  have t: "session_run (ac_fed ?t)" "active_run ?t" using ok by (simp_all add: feed_ok_def active_run_def set_queue_def)
  have e: "same_feed ?t (video_step a s)" "ac_vpc (video_step a s) = VwPop" using VwInvalidate by (simp_all add: video_step_def same_feed_def)
  show ?thesis using t l by (simp add: feed_ok_def same_feed_ok [OF e(1)] e(2))
next
  case (VwDecode u)
  assume ok: "feed_ok s"
  note d = feed_decode [OF ok VwDecode refl]
  let ?s = "s\<lparr>ac_fed := ac_fed s @ [u]\<rparr>"
  have "feed_ok s'" if "same_feed ?s s'" "ac_vpc s' \<in> {VwPop, VwInvalidate, VwFault} \<union> range (VwLast u)" for s'
    using d that same_feed_ok [OF that(1)] by (auto simp: feed_ok_def)
  then show ?thesis using VwDecode
    by (auto simp: video_step_def ac_decoded_def same_feed_def Let_def split: option.splits)
next
  case (VwLast u out)
  assume "feed_ok s"
  with VwLast show ?thesis by (simp add: video_step_def feed_ok_def active_run_def linked_ok_def)
next
  case (VwStore u out)
  assume "feed_ok s"
  with VwStore show ?thesis by (simp add: video_step_def feed_ok_def active_run_def linked_ok_def)
qed (simp_all add: video_step_def)

lemma output_same:
  "same_feed s (output_step a s)" "ac_vpc (output_step a s) = ac_vpc s" "ac_video (output_step a s) = ac_video s"
  "ac_made (output_step a s) = ac_made s" "ac_latest (output_step a s) = ac_latest s"
  by (simp_all add: output_step_def same_feed_def Let_def split: output_pc.split option.split sum.split)

lemma app_feed: "app_reachable s \<Longrightarrow> feed_ok s"
proof (induction rule: app_reachable.induct)
  case (init epoch pacer pattern deviceOk)
  show ?case
    by (simp add: app_init_def feed_ok_def session_run_def active_run_def linked_ok_def vq_chain_def vq_inv_init) (simp add: vq_init_def)
next
  case (rtc_open s generation)
  from rtc_open.IH show ?case by (rule feed_same [rotated 2]) (simp_all add: same_feed_def)
next
  case (signaling_end s)
  from signaling_end.IH show ?case by (rule feed_same [rotated 2]) (simp_all add: same_feed_def)
next
  case (video_in s generation data timestampUs)
  show ?case
  proof (cases "data = None \<or> \<not> ac_video s")
    case True
    then show ?thesis using video_in.IH by (auto simp: ac_video_callback_def split: option.split)
  next
    case False
    then obtain b where b: "data = Some b" by auto
    from feed_change [OF queue_changes(3) video_in.IH, of b timestampUs generation] show ?thesis
      by (rule feed_same [rotated 2]) (use False b in \<open>simp_all add: ac_video_callback_def same_feed_def split_beta\<close>)
  qed
next
  case (state_in s generation state)
  then show ?case using feed_change [OF queue_changes(1)] by (simp add: ac_state_callback_def)
next
  case (publish s oa)
  from publish.IH show ?case by (rule feed_same [rotated 2]) (simp_all add: output_same)
qed (simp_all only: feed_ui feed_video)

section \<open>Frames\<close>

definition made_ok :: "Made \<Rightarrow> bool" where
  "made_ok m \<longleftrightarrow> picture_ok (md_picture m) (md_width m) (md_height m) \<and> int (length (md_frame m)) = kPayloadBytes \<and>
     ConvertNv12ToNv12Letterbox (Some (md_picture m)) (md_width m) (md_width m) (md_height m)
       (replicate (nat kPayloadBytes) 0) 1280 720 (md_degrees m) = Some (md_frame m)"

text \<open>The worker's test of the decoder's output is what the converter needs.\<close>

lemma convert_picture:
  assumes "picture_ok decoded width height"
  obtains frame where "ConvertNv12ToNv12Letterbox (Some decoded) width width height (replicate (nat kPayloadBytes) 0) 1280 720 degrees = Some frame"
    "int (length frame) = kPayloadBytes"
proof -
  have "width mod 2 = 0" "height mod 2 = 0" "0 < width" "0 < height" using assms by (auto simp: picture_ok_def)
  then obtain w h where wh: "width = 2 * w" "height = 2 * h" "0 < w" "0 < h" by (metis mod_0_imp_dvd dvd_def zero_less_mult_pos zero_less_numeral)
  have "width * height * 3 div 2 \<le> int (length decoded)" "width \<le> 8192" "height \<le> 8192" using assms by (simp_all add: picture_ok_def)
  moreover have "(height + 1) div 2 = h" using wh(2) by simp
  moreover have "width * height * 3 div 2 = width * height + width * h" using wh(1,2) by simp
  ultimately have "nv12_image decoded width width height" using wh by (simp add: nv12_image_def)
  moreover have "\<not> width \<le> 0" using \<open>0 < width\<close> by simp
  moreover have "int (length (replicate (nat kPayloadBytes) (0 :: u8))) = kPayloadBytes" by (simp add: sizes)
  ultimately show thesis using ConvertNv12_in_bounds [of decoded width width height "replicate (nat kPayloadBytes) 0" degrees] that
    by (auto simp: kWidth_def kHeight_def)
qed

definition made_from :: "App \<Rightarrow> u64 \<Rightarrow> u64 \<Rightarrow> bytes \<Rightarrow> bool" where
  "made_from s generation serial f \<longleftrightarrow>
     (\<exists>m \<in> set (ac_made s). md_frame m = f \<and> au_generation (md_unit m) = generation \<and> au_resetSerial (md_unit m) = serial)"

definition frames_ok :: "App \<Rightarrow> bool" where
  "frames_ok s \<longleftrightarrow> list_all made_ok (ac_made s) \<and>
     (case ac_latest s of None \<Rightarrow> True | Some f \<Rightarrow> made_from s (ac_latestGeneration s) (ac_latestReset s) f) \<and>
     (case ac_vpc s of
        VwLast u f \<Rightarrow> made_from s (au_generation u) (au_resetSerial u) f
      | VwStore u f \<Rightarrow> made_from s (au_generation u) (au_resetSerial u) f
      | VwFault \<Rightarrow> False
      | _ \<Rightarrow> True)"

lemma frames_same:
  assumes "ac_made s' = ac_made s" "ac_vpc s' = ac_vpc s" "frames_ok s"
    and "ac_latest s' = None \<or> ac_latest s' = ac_latest s \<and> ac_latestGeneration s' = ac_latestGeneration s \<and> ac_latestReset s' = ac_latestReset s"
  shows "frames_ok s'"
  using assms by (auto simp: frames_ok_def made_from_def split: option.splits video_pc.splits)

lemma frames_decoded:
  assumes "frames_ok s"
  shows "frames_ok (ac_decoded u decoded width height s)"
proof (cases "picture_ok decoded width height")
  case True
  from convert_picture [OF True] obtain frame where f:
    "ConvertNv12ToNv12Letterbox (Some decoded) width width height (replicate (nat kPayloadBytes) 0) 1280 720 (ac_rotation s) = Some frame"
    "int (length frame) = kPayloadBytes" by blast
  then show ?thesis using assms True
    by (auto simp: ac_decoded_def frames_ok_def made_ok_def made_from_def split: option.splits)
next
  case False
  then show ?thesis using assms by (auto simp: ac_decoded_def frames_ok_def made_from_def split: option.splits)
qed

lemma frames_video: "frames_ok s \<Longrightarrow> frames_ok (video_step a s)"
proof (cases "ac_vpc s")
  case (VwDecode u)
  assume ok: "frames_ok s"
  have "frames_ok (s\<lparr>ac_fed := ac_fed s @ [u]\<rparr>)" using ok by (rule frames_same [rotated 2]) simp_all
  note d = frames_decoded [OF this]
  show ?thesis
  proof (cases "va_decode a")
    case None
    then show ?thesis using VwDecode ok by (auto simp: video_step_def frames_ok_def made_from_def Let_def split: option.splits)
  next
    case (Some r)
    then show ?thesis using VwDecode d by (cases r) (simp add: video_step_def)
  qed
next
  case (VwStore u f)
  assume "frames_ok s"
  with VwStore show ?thesis by (auto simp: video_step_def frames_ok_def made_from_def)
qed (auto simp: video_step_def frames_ok_def made_from_def set_queue_def split: option.splits)

lemma app_frames: "app_reachable s \<Longrightarrow> frames_ok s"
proof (induction rule: app_reachable.induct)
  case (init epoch pacer pattern deviceOk)
  show ?case by (simp add: frames_ok_def app_init_def)
next
  case (ui s call)
  from ui.IH show ?case by (rule frames_same [rotated 2])
    (auto simp: ui_steps set_queue_def vq_reset_def split: ui_pc.split ui_call.split)
next
  case (rtc_open s generation)
  from rtc_open.IH show ?case by (rule frames_same [rotated 2]) simp_all
next
  case (signaling_end s)
  from signaling_end.IH show ?case by (rule frames_same [rotated 2]) simp_all
next
  case (video_in s generation data timestampUs)
  from video_in.IH show ?case by (rule frames_same [rotated 2])
    (auto simp: ac_video_callback_def set_queue_def split: option.split prod.split)
next
  case (state_in s generation state)
  from state_in.IH show ?case by (rule frames_same [rotated 2]) (auto simp: ac_state_callback_def set_queue_def)
next
  case (publish s oa)
  have "ac_latestGeneration (output_step oa s) = ac_latestGeneration s" "ac_latestReset (output_step oa s) = ac_latestReset s"
    by (simp_all add: output_step_def Let_def split: output_pc.split option.split sum.split)
  with publish.IH show ?case by (intro frames_same [of "output_step oa s" s]) (simp_all add: output_same)
qed (rule frames_video)

section \<open>Deadlines\<close>

definition paced :: "pacer \<Rightarrow> bool" where
  "paced p \<longleftrightarrow> (\<exists>epoch i. pacer_at 30 1 epoch i p)"

text \<open>One slot of a thirtieth of a second.\<close>

lemma paced_next:
  assumes "paced p" "pc_deadline p < 2 ^ 63 + 10 ^ 9"
  obtains p' where "pacer_next p = Inr (pc_deadline p, p')" "paced p'"
    "pc_deadline p + 33333333 \<le> pc_deadline p'" "pc_deadline p' \<le> pc_deadline p + 33333334"
proof -
  obtain epoch i where at: "pacer_at 30 1 epoch i p" using assms(1) by (auto simp: paced_def)
  let ?d = "\<lambda>j. deadline_of 30 1 epoch j"
  have d: "pc_deadline p = ?d i" using at by (simp add: pacer_at_def)
  have s: "?d i + 33333333 \<le> ?d (i + 1)" "?d (i + 1) \<le> ?d i + 33333334" by (simp_all add: deadline_of_def)
  then have "?d (i + 1) \<le> uint64_max" using assms(2) unfolding d by (simp add: uint64_max_def)
  note n = pacer_next_at [OF at, unfolded if_P [OF this]]
  show thesis
    by (rule that [of "p\<lparr>pc_deadline := ?d (i + 1), pc_remainder := ((i + 1) * (1000000000 * 1)) mod 30\<rparr>"])
      (use n d s pacer_at_next [OF at] in \<open>auto simp: paced_def\<close>)
qed

lemma skip_slots_ok:
  assumes "paced p" "pc_deadline p \<le> deadline + 33333334" "deadline + 33333333 \<le> pc_deadline p" "now < 2 ^ 63" "deadline < 2 ^ 63 + 10 ^ 8"
    and "now < deadline + 33333333 * fuel + 33333334"
  obtains d p' where "skip_slots (Suc fuel) now deadline p = Some (Inr (d, p'))" "paced p'" "deadline \<le> d"
    "d + 33333333 \<le> pc_deadline p'" "pc_deadline p' \<le> d + 33333334" "now < d + 33333334" "d < 2 ^ 63 + 10 ^ 8"
  using assms
proof (induction fuel arbitrary: deadline p thesis)
  case 0
  then show ?case by (intro "0.prems"(1) [of deadline p]) auto
next
  case (Suc fuel)
  show ?case
  proof (cases "now > deadline \<and> now - deadline \<ge> 33333334")
    case False
    then show ?thesis using Suc.prems by (intro Suc.prems(1)) auto
  next
    case True
    have "pc_deadline p < 2 ^ 63 + 10 ^ 9" using Suc.prems(3,6) by simp
    from paced_next [OF Suc.prems(2) this] obtain p1 where p1: "pacer_next p = Inr (pc_deadline p, p1)" "paced p1"
      "pc_deadline p + 33333333 \<le> pc_deadline p1" "pc_deadline p1 \<le> pc_deadline p + 33333334" by blast
    have "pc_deadline p < 2 ^ 63 + 10 ^ 8" using True Suc.prems(3,5) by simp
    moreover have "now < pc_deadline p + 33333333 * fuel + 33333334" using Suc.prems(4,7) by simp
    ultimately obtain d p' where r: "skip_slots (Suc fuel) now (pc_deadline p) p1 = Some (Inr (d, p'))" "paced p'" "pc_deadline p \<le> d"
      "d + 33333333 \<le> pc_deadline p'" "pc_deadline p' \<le> d + 33333334" "now < d + 33333334" "d < 2 ^ 63 + 10 ^ 8"
      using Suc.IH [OF _ p1(2,4,3) Suc.prems(5)] by blast
    have "skip_slots (Suc (Suc fuel)) now deadline p = skip_slots (Suc fuel) now (pc_deadline p) p1"
      using True p1(1) by simp
    then show ?thesis using r Suc.prems(4) by (intro Suc.prems(1) [of d p']) (simp_all del: skip_slots.simps)
  qed
qed

lemma next_deadline_ok:
  assumes "paced p" "pc_deadline p < 2 ^ 63 + 10 ^ 8" "now < 2 ^ 63"
  obtains d p' where "next_deadline now p = Some (Inr (d, p'))" "paced p'" "pc_deadline p \<le> d"
    "d + 33333333 \<le> pc_deadline p'" "pc_deadline p' \<le> d + 33333334" "now < d + 33333334" "d < 2 ^ 63 + 10 ^ 8"
proof -
  have "pc_deadline p < 2 ^ 63 + 10 ^ 9" using assms(2) by simp
  from paced_next [OF assms(1) this] obtain p1 where p1: "pacer_next p = Inr (pc_deadline p, p1)" "paced p1"
    "pc_deadline p + 33333333 \<le> pc_deadline p1" "pc_deadline p1 \<le> pc_deadline p + 33333334" by blast
  show thesis
  proof (cases "now > pc_deadline p \<and> now - pc_deadline p > 500000000")
    case True
    obtain q where q: "RationalPacer 30 1 now = Inr q" by (simp add: RationalPacer_def)
    have q2: "paced q" "pc_deadline q = now" using pacer_init_at [OF q] q by (auto simp: paced_def RationalPacer_def)
    have "pc_deadline q < 2 ^ 63 + 10 ^ 9" using q2(2) assms(3) by simp
    from paced_next [OF q2(1) this] obtain q' where q': "pacer_next q = Inr (now, q')" "paced q'"
      "now + 33333333 \<le> pc_deadline q'" "pc_deadline q' \<le> now + 33333334" unfolding q2(2) by blast
    show thesis
      by (rule that [of now q']) (use True p1(1) q q' assms(3) in \<open>auto simp: next_deadline_def\<close>)
  next
    case False
    then have f: "now < pc_deadline p + 33333333 * 16 + 33333334" by auto
    obtain d p' where r: "skip_slots (Suc 16) now (pc_deadline p) p1 = Some (Inr (d, p'))" "paced p'" "pc_deadline p \<le> d"
      "d + 33333333 \<le> pc_deadline p'" "pc_deadline p' \<le> d + 33333334" "now < d + 33333334" "d < 2 ^ 63 + 10 ^ 8"
      using skip_slots_ok [OF p1(2,4,3) assms(3) assms(2) f] by blast
    moreover have "next_deadline now p = skip_slots (Suc 16) now (pc_deadline p) p1"
      using False p1(1) by (auto simp: next_deadline_def simp del: skip_slots.simps)
    ultimately show thesis by (intro that [of d p']) simp_all
  qed
qed

section \<open>The output worker never fails\<close>

definition output_ok :: "App \<Rightarrow> bool" where
  "output_ok s \<longleftrightarrow> paced (ac_pacer s) \<and> TestPatternGenerator_init = Some (ac_pattern s) \<and>
     int (length (pp_payload (ac_pipe s))) = kPayloadBytes \<and>
     (case ac_opc s of
        OwPace \<Rightarrow> pc_deadline (ac_pacer s) < 2 ^ 63 + 10 ^ 8
      | OwWait d \<Rightarrow> pc_deadline (ac_pacer s) \<le> d + 33333334
      | OwSelect d \<Rightarrow> d < 2 ^ 63 \<and> pc_deadline (ac_pacer s) \<le> d + 33333334
      | OwShow d f \<Rightarrow> d < 2 ^ 63 \<and> pc_deadline (ac_pacer s) \<le> d + 33333334 \<and>
          (case f of None \<Rightarrow> True | Some x \<Rightarrow> int (length x) = kPayloadBytes)
      | OwEnd \<Rightarrow> True
      | OwFault \<Rightarrow> False)"

lemma select_current:
  assumes "frames_ok s" "ac_select now s = Some f"
  shows "made_from s (vq_generation (ac_queue s)) (vq_resetSerial (ac_queue s)) f \<and> int (length f) = kPayloadBytes \<and>
    \<not> ac_testPattern s \<and> ac_arrival s \<le> now \<and> now - ac_arrival s \<le> 1000000000"
  using assms by (auto simp: ac_select_def frames_ok_def made_from_def made_ok_def list_all_iff split: if_splits)

lemma publish_payload:
  "int (length pixels) = kPayloadBytes \<Longrightarrow> int (length (pp_payload p)) = kPayloadBytes \<Longrightarrow>
    int (length (pp_payload (fst (pp_PublishFrame ready (Some pixels) time p)))) = kPayloadBytes"
  by (simp add: pp_PublishFrame_def)

lemma output_step_ok:
  assumes "output_ok s" "frames_ok s" "unat (oa_now a) < 2 ^ 63"
  shows "output_ok (output_step a s)"
proof (cases "ac_opc s")
  case OwPace
  have "paced (ac_pacer s)" "pc_deadline (ac_pacer s) < 2 ^ 63 + 10 ^ 8" using assms(1) OwPace by (simp_all add: output_ok_def)
  from next_deadline_ok [OF this assms(3)] obtain d p' where "next_deadline (unat (oa_now a)) (ac_pacer s) = Some (Inr (d, p'))"
    "paced p'" "pc_deadline p' \<le> d + 33333334" by blast
  then show ?thesis using assms(1) OwPace by (simp add: output_step_def output_ok_def)
next
  case (OwWait d)
  then show ?thesis using assms(1,3) by (simp add: output_step_def output_ok_def)
next
  case (OwSelect d)
  then show ?thesis using assms(1) select_current [OF assms(2)] by (auto simp: output_step_def output_ok_def split: option.split)
next
  case (OwShow d f)
  have g: "TestPatternGenerator_init = Some (ac_pattern s)" using assms(1) by (simp add: output_ok_def)
  obtain idle where i: "GenerateFrame (ac_pattern s) (ac_idle s) (ac_index s) = Some idle" "int (length idle) = kPayloadBytes"
    by (rule GenerateFrame_luma [OF g])
  then show ?thesis using assms(1) OwShow publish_payload
    by (auto simp: output_step_def output_ok_def split: option.split)
qed (use assms(1) in \<open>simp_all add: output_step_def output_ok_def\<close>)

lemma output_same_ok:
  assumes "output_ok s" "ac_opc s' = ac_opc s" "ac_pacer s' = ac_pacer s" "ac_pattern s' = ac_pattern s"
    "pp_payload (ac_pipe s') = pp_payload (ac_pipe s)"
  shows "output_ok s'"
  using assms(1) by (simp only: output_ok_def assms(2-5))

lemma ui_output: "ac_opc (ui_step call s) = ac_opc s" "ac_pacer (ui_step call s) = ac_pacer s" "ac_pattern (ui_step call s) = ac_pattern s"
  "pp_payload (ac_pipe (ui_step call s)) = pp_payload (ac_pipe s)" "ac_vpc (ui_step call s) = ac_vpc s"
  by (simp_all add: ui_steps set_queue_def vq_reset_def pp_Stop_def split: ui_pc.split ui_call.split)

lemma video_output: "ac_opc (video_step a s) = ac_opc s" "ac_pacer (video_step a s) = ac_pacer s" "ac_pattern (video_step a s) = ac_pattern s"
  "ac_pipe (video_step a s) = ac_pipe s" "ac_upc (video_step a s) = ac_upc s" "ac_video (video_step a s) = ac_video s"
  "ac_output (video_step a s) = ac_output s" "ac_rtc (video_step a s) = ac_rtc s" "ac_signalingThread (video_step a s) = ac_signalingThread s"
  by (simp_all add: video_step_def set_queue_def ac_decoded_def Let_def split: video_pc.split option.split prod.split)

lemma callback_output: "ac_opc (ac_video_callback data t g s) = ac_opc s" "ac_pacer (ac_video_callback data t g s) = ac_pacer s"
  "ac_pattern (ac_video_callback data t g s) = ac_pattern s" "ac_pipe (ac_video_callback data t g s) = ac_pipe s"
  "ac_upc (ac_video_callback data t g s) = ac_upc s" "ac_video (ac_video_callback data t g s) = ac_video s"
  "ac_output (ac_video_callback data t g s) = ac_output s" "ac_rtc (ac_video_callback data t g s) = ac_rtc s"
  "ac_signalingThread (ac_video_callback data t g s) = ac_signalingThread s" "ac_vpc (ac_video_callback data t g s) = ac_vpc s"
  by (simp_all add: ac_video_callback_def set_queue_def split: option.split prod.split)

lemma state_output: "ac_opc (ac_state_callback st s) = ac_opc s" "ac_pacer (ac_state_callback st s) = ac_pacer s"
  "ac_pattern (ac_state_callback st s) = ac_pattern s" "ac_pipe (ac_state_callback st s) = ac_pipe s"
  "ac_upc (ac_state_callback st s) = ac_upc s" "ac_video (ac_state_callback st s) = ac_video s"
  "ac_output (ac_state_callback st s) = ac_output s" "ac_rtc (ac_state_callback st s) = ac_rtc s"
  "ac_signalingThread (ac_state_callback st s) = ac_signalingThread s" "ac_vpc (ac_state_callback st s) = ac_vpc s"
  by (simp_all add: ac_state_callback_def set_queue_def)

lemma app_output: "app_reachable s \<Longrightarrow> output_ok s"
proof (induction rule: app_reachable.induct)
  case (init epoch pacer pattern deviceOk)
  have "pc_deadline pacer = epoch" using init(1) by (auto simp: RationalPacer_def)
  moreover have "paced pacer" using pacer_init_at [OF init(1)] by (auto simp: paced_def)
  ultimately show ?case using init(2,3)
    by (simp add: output_ok_def app_init_def pp_Start_def PipePublisher_init_def black_frame(1))
next
  case (ui s call)
  from ui.IH show ?case by (rule output_same_ok) (simp_all add: ui_output)
next
  case (rtc_open s generation)
  from rtc_open.IH show ?case by (rule output_same_ok) simp_all
next
  case (signaling_end s)
  from signaling_end.IH show ?case by (rule output_same_ok) simp_all
next
  case (video_in s generation data timestampUs)
  from video_in.IH show ?case by (rule output_same_ok) (simp_all add: callback_output)
next
  case (state_in s generation state)
  from state_in.IH show ?case by (rule output_same_ok) (simp_all add: state_output)
next
  case (video s va)
  from video.IH show ?case by (rule output_same_ok) (simp_all add: video_output)
next
  case (publish s oa)
  then show ?case by (intro output_step_ok app_frames)
qed

section \<open>Shutdown\<close>

definition shutting_ok :: "App \<Rightarrow> bool" where
  "shutting_ok s \<longleftrightarrow>
     (ac_upc s \<in> {SdClose, SdReset, SdVideoFlag, SdJoinVideo, SdOutputFlag, SdJoinOutput, SdStop, SdDone} \<longrightarrow> ac_signalingThread s = None) \<and>
     (ac_upc s \<in> {SdReset, SdVideoFlag, SdJoinVideo, SdOutputFlag, SdJoinOutput, SdStop, SdDone} \<longrightarrow> ac_rtc s = None) \<and>
     (ac_upc s \<in> {SdJoinVideo, SdOutputFlag, SdJoinOutput, SdStop, SdDone} \<longrightarrow> \<not> ac_video s) \<and>
     (ac_upc s \<in> {SdOutputFlag, SdJoinOutput, SdStop, SdDone} \<longrightarrow> ac_vpc s = VwEnd) \<and>
     (ac_upc s \<in> {SdJoinOutput, SdStop, SdDone} \<longrightarrow> \<not> ac_output s) \<and>
     (ac_upc s \<in> {SdStop, SdDone} \<longrightarrow> ac_opc s = OwEnd) \<and>
     (ac_upc s = SdDone \<longrightarrow> \<not> pp_running (ac_pipe s))"

lemma ends: "ac_vpc s = VwEnd \<Longrightarrow> video_step a s = s" "ac_opc s = OwEnd \<Longrightarrow> output_step b s = s"
  by (simp_all add: video_step_def output_step_def)

lemma output_other: "ac_upc (output_step a s) = ac_upc s" "ac_output (output_step a s) = ac_output s" "ac_rtc (output_step a s) = ac_rtc s"
  "ac_signalingThread (output_step a s) = ac_signalingThread s" "pp_running (ac_pipe (output_step a s)) = pp_running (ac_pipe s)"
  by (simp_all add: output_step_def Let_def pp_PublishFrame_def split: output_pc.split option.split sum.split)

lemma app_shutting: "app_reachable s \<Longrightarrow> shutting_ok s"
proof (induction rule: app_reachable.induct)
  case (init epoch pacer pattern deviceOk)
  show ?case by (simp add: shutting_ok_def app_init_def)
next
  case (ui s call)
  then show ?case
    by (cases "ac_upc s"; cases call) (simp_all add: shutting_ok_def ui_steps set_queue_def vq_reset_def pp_Stop_def)
next
  case (video_in s generation data timestampUs)
  then show ?case unfolding shutting_ok_def callback_output by blast
next
  case (state_in s generation state)
  then show ?case unfolding shutting_ok_def state_output by blast
next
  case (video s va)
  then show ?case unfolding shutting_ok_def video_output using ends(1) [of s va] by auto
next
  case (publish s oa)
  then show ?case unfolding shutting_ok_def output_other output_same using ends(2) [of s oa] by auto
qed (auto simp: shutting_ok_def)

fun video_rank :: "video_pc \<Rightarrow> nat" where
  "video_rank VwPop = 1"
| "video_rank (VwCheck u) = 6"
| "video_rank (VwReinit u) = 5"
| "video_rank VwInvalidate = 2"
| "video_rank (VwDecode u) = 4"
| "video_rank (VwLast u f) = 3"
| "video_rank (VwStore u f) = 2"
| "video_rank VwEnd = 0"
| "video_rank VwFault = 0"

fun output_rank :: "output_pc \<Rightarrow> nat" where
  "output_rank OwPace = 1"
| "output_rank (OwWait d) = 1"
| "output_rank (OwSelect d) = 3"
| "output_rank (OwShow d f) = 2"
| "output_rank OwEnd = 0"
| "output_rank OwFault = 0"

lemma video_rank_step: "\<not> ac_video s \<Longrightarrow> video_rank (ac_vpc (video_step a s)) \<le> video_rank (ac_vpc s) - 1"
  by (simp add: video_step_def ac_decoded_def set_queue_def Let_def split: video_pc.split option.split prod.split)

lemma output_rank_step: "\<not> ac_output s \<Longrightarrow> output_rank (ac_opc (output_step a s)) \<le> output_rank (ac_opc s) - 1"
  by (simp add: output_step_def Let_def split: output_pc.split option.split sum.split)

lemma video_ends:
  "app_reachable s \<Longrightarrow> \<not> ac_video s \<Longrightarrow> video_rank (ac_vpc s) \<le> length as \<Longrightarrow> ac_vpc (fold video_step as s) = VwEnd"
proof (induction as arbitrary: s)
  case Nil
  then show ?case using app_frames [OF Nil(1)] by (cases "ac_vpc s") (simp_all add: frames_ok_def)
next
  case (Cons a as)
  have "video_rank (ac_vpc (video_step a s)) \<le> length as" using video_rank_step [OF Cons.prems(2), of a] Cons.prems(3) by simp
  with Cons.IH [OF app_reachable.video [OF Cons.prems(1)]] Cons.prems(2) show ?case by (simp add: video_output)
qed

lemma output_ends:
  "app_reachable s \<Longrightarrow> \<not> ac_output s \<Longrightarrow> \<forall>a \<in> set as. unat (oa_now a) < 2 ^ 63 \<Longrightarrow> output_rank (ac_opc s) \<le> length as \<Longrightarrow>
    ac_opc (fold output_step as s) = OwEnd"
proof (induction as arbitrary: s)
  case Nil
  then show ?case using app_output [OF Nil(1)] by (cases "ac_opc s") (simp_all add: output_ok_def)
next
  case (Cons a as)
  have "output_rank (ac_opc (output_step a s)) \<le> length as" using output_rank_step [OF Cons.prems(2), of a] Cons.prems(4) by simp
  moreover have "app_reachable (output_step a s)" using Cons.prems(1,3) by (intro app_reachable.publish) simp_all
  ultimately show ?case using Cons.IH [of "output_step a s"] Cons.prems(2,3) by (simp add: output_other)
qed

lemma fold_upc: "ac_upc (fold video_step as s) = ac_upc s" "ac_upc (fold output_step bs s) = ac_upc s"
  by (induction as arbitrary: s, simp_all add: video_output) (induction bs arbitrary: s, simp_all add: output_other)

lemma rank_bounds: "video_rank v \<le> 6" "output_rank p \<le> 3"
  by (cases v; simp) (cases p; simp)

section \<open>Properties\<close>

text \<open>A run: a session is started, a key frame arrives and is decoded to a picture of two by two.\<close>

definition demo_unit :: QueuedAccessUnit where
  "demo_unit = \<lparr>au_bytes = example_idr, au_timestampUs = 0, au_generation = 2, au_resetSerial = 2\<rparr>"

definition demo_session :: "App \<Rightarrow> App" where
  "demo_session s = s\<lparr>ac_queue := snd (vq_reset vq_init), ac_latest := None, ac_arrival := 0, ac_signaling := True,
     ac_signalingThread := Some 2, ac_rtc := None\<rparr>"

lemma demo_app_started:
  assumes "app_reachable (app_init pacer pattern pipe)"
  shows "app_reachable ((demo_session (app_init pacer pattern pipe))\<lparr>ac_rtc := Some 2\<rparr>)"
proof -
  let ?s = "app_init pacer pattern pipe"
  have "app_reachable ((ui_step UiNewSession ^^ 6) ?s)"
    using assms by (simp add: eval_nat_numeral app_reachable.ui)
  moreover have "(ui_step UiNewSession ^^ 6) ?s = demo_session ?s"
    by (simp add: eval_nat_numeral ui_steps app_init_def demo_session_def set_queue_def vq_reset_def vq_init_def vq_clear_def)
  ultimately show ?thesis by (intro app_reachable.rtc_open) (simp_all add: demo_session_def)
qed

definition demo_video :: "(bytes \<times> int \<times> int) option \<Rightarrow> VideoAnswers" where
  "demo_video d = \<lparr>va_init = True, va_decode = d, va_now = 3\<rparr>"

lemma demo_push: "vq_push example_idr 0 2 (snd (vq_reset vq_init)) =
    (True, \<lparr>vq_queue = [demo_unit], vq_bytes = length example_idr, vq_generation = 2, vq_resetSerial = 2, vq_waiting = False\<rparr>)"
proof -
  have l: "example_idr \<noteq> []" "length example_idr = 18" by (simp_all add: example_idr_def)
  show ?thesis
    using example_idr_key l by (simp add: vq_push_def vq_reset_def vq_clear_def vq_init_def kMaxBytes_def kMaxFrames_def size_sub_def demo_unit_def Let_def)
qed

lemma demo_app_run:
  obtains s frame where "app_reachable s" "ac_select 5 s = Some frame" "ac_fed s = [demo_unit]" "vq_generation (ac_queue s) = 2"
proof -
  obtain pacer where pacer: "RationalPacer 30 1 0 = Inr pacer" by (simp add: RationalPacer_def)
  obtain pattern where pattern: "TestPatternGenerator_init = Some pattern" by (metis bars_result)
  let ?i = "app_init pacer pattern (fst (pp_Start False PipePublisher_init))"
  let ?s = "(demo_session ?i)\<lparr>ac_rtc := Some 2\<rparr>"
  have s: "app_reachable ?s" by (rule demo_app_started [OF app_reachable.init [OF pacer _ pattern]]) simp
  have "picture_ok [1, 2, 3, 4, 5, 6] 2 2" by (simp add: picture_ok_def)
  then obtain f where f: "ConvertNv12ToNv12Letterbox (Some [1, 2, 3, 4, 5, 6]) 2 2 2 (replicate (nat kPayloadBytes) 0) 1280 720 0 = Some f"
    "int (length f) = kPayloadBytes" by (rule convert_picture)
  let ?t = "ac_video_callback (Some example_idr) 0 2 ?s"
  have t: "app_reachable ?t" by (rule app_reachable.video_in [OF s]) simp
  let ?v = "video_step (demo_video (Some ([1, 2, 3, 4, 5, 6], 2, 2)))"
  let ?q = "\<lparr>vq_queue = [demo_unit], vq_bytes = length example_idr, vq_generation = 2, vq_resetSerial = 2, vq_waiting = False\<rparr>"
  have tq: "ac_queue ?t = ?q" "ac_vpc ?t = VwPop" "ac_video ?t" "ac_fed ?t = []" "ac_activeGeneration ?t = 0" "ac_rotation ?t = 0"
    "\<not> ac_testPattern ?t"
    by (simp_all add: ac_video_callback_def demo_session_def app_init_def demo_push set_queue_def)
  have r: "app_reachable ((?v ^^ 6) ?t)" using t by (simp add: eval_nat_numeral app_reachable.video)
  have p: "vq_pop ?q = Some (demo_unit, ?q\<lparr>vq_queue := [], vq_bytes := 0\<rparr>)"
    by (simp add: vq_pop_def demo_unit_def size_sub_def)
  have c: "vq_current demo_unit (?q\<lparr>vq_queue := [], vq_bytes := 0\<rparr>)" "au_generation demo_unit = 2" "au_resetSerial demo_unit = 2"
    by (simp_all add: vq_current_def demo_unit_def)
  have "(?v ^^ 6) ?t = ?t\<lparr>ac_queue := ?q\<lparr>vq_queue := [], vq_bytes := 0\<rparr>, ac_linked := True, ac_activeGeneration := 2, ac_activeReset := 2,
      ac_noOutput := 0, ac_fed := [demo_unit], ac_made := \<lparr>md_unit = demo_unit, md_picture = [1, 2, 3, 4, 5, 6], md_width = 2, md_height = 2,
        md_degrees = 0, md_frame = f\<rparr> # ac_made ?t, ac_latest := Some f, ac_arrival := 3, ac_latestGeneration := 2,
      ac_latestReset := 2, ac_vpc := VwPop\<rparr>"
    using tq p c f(1) \<open>picture_ok [1, 2, 3, 4, 5, 6] 2 2\<close>
    by (simp add: eval_nat_numeral video_step_def demo_video_def ac_decoded_def Let_def)
  with r tq(7) show thesis by (intro that [of "(?v ^^ 6) ?t" f]) (simp_all add: ac_select_def)
qed



text \<open>C11: since it was last initialised, the decoder has been given a configured IDR first and then
  only units of the same generation and reset serial, whatever is pushed, cleared or refused in
  between and however often decoding or initialising fails.\<close>

theorem app_decoder_input:
  assumes "app_reachable s"
  shows "case ac_fed s of
    [] \<Rightarrow> True
  | u # us \<Rightarrow> configuredIdr (au_bytes u) \<and> list_all (\<lambda>v. au_generation v = au_generation u \<and> au_resetSerial v = au_resetSerial u) us"
  using app_feed [OF assms] by (auto simp: feed_ok_def session_run_def same_identity_def list_all_iff split: list.splits)

theorem app_decoder_input_witness:
  "\<exists>s. app_reachable s \<and> ac_fed s = [demo_unit] \<and> configuredIdr (au_bytes demo_unit)"
proof -
  obtain s where s: "app_reachable s" "ac_fed s = [demo_unit]" by (rule demo_app_run)
  from app_decoder_input [OF s(1)] s show ?thesis by auto
qed

text \<open>C12: a shutdown that has come to its joins gets past them: with its flag down the video worker ends
  within six steps and the output worker within three, whatever they are doing; and when it is done
  both have ended, no callback is open and the publisher is stopped.\<close>

theorem app_shutdown:
  assumes "app_reachable s" "6 \<le> length as" "3 \<le> length bs" "list_all (\<lambda>b. unat (oa_now b) < 2 ^ 63) bs"
  shows "case ac_upc s of
    SdJoinVideo \<Rightarrow> ac_upc (ui_step call (fold video_step as s)) = SdOutputFlag
  | SdJoinOutput \<Rightarrow> ac_upc (ui_step call (fold output_step bs s)) = SdStop
  | SdDone \<Rightarrow> ac_vpc s = VwEnd \<and> ac_opc s = OwEnd \<and> ac_rtc s = None \<and> ac_signalingThread s = None \<and> \<not> pp_running (ac_pipe s)
  | _ \<Rightarrow> True"
proof -
  note ok = app_shutting [OF assms(1)]
  have "ac_upc (ui_step call (fold video_step as s)) = SdOutputFlag" if u: "ac_upc s = SdJoinVideo"
  proof -
    have "video_rank (ac_vpc s) \<le> length as" using rank_bounds(1) [of "ac_vpc s"] assms(2) by simp
    with video_ends [OF assms(1), of as] ok u have "ac_vpc (fold video_step as s) = VwEnd" by (simp add: shutting_ok_def)
    then show ?thesis by (simp add: ui_steps fold_upc u)
  qed
  moreover have "ac_upc (ui_step call (fold output_step bs s)) = SdStop" if u: "ac_upc s = SdJoinOutput"
  proof -
    have "output_rank (ac_opc s) \<le> length bs" using rank_bounds(2) [of "ac_opc s"] assms(3) by simp
    with output_ends [OF assms(1), of bs] assms(4) ok u have "ac_opc (fold output_step bs s) = OwEnd"
      by (simp add: shutting_ok_def list_all_iff)
    then show ?thesis by (simp add: ui_steps fold_upc u)
  qed
  ultimately show ?thesis using ok by (simp add: shutting_ok_def split: ui_pc.split)
qed

theorem app_shutdown_witness:
  "\<exists>s. app_reachable s \<and> ac_upc s = SdJoinVideo \<and>
    ac_upc (ui_step UiShutdown (fold video_step (replicate 6 (demo_video None)) s)) = SdOutputFlag"
proof -
  obtain pacer where pacer: "RationalPacer 30 1 0 = Inr pacer" by (simp add: RationalPacer_def)
  obtain pattern where pattern: "TestPatternGenerator_init = Some pattern" by (metis bars_result)
  let ?i = "app_init pacer pattern (fst (pp_Start False PipePublisher_init))"
  let ?s = "(ui_step UiShutdown ^^ 6) ?i"
  have i: "app_reachable ?i" by (rule app_reachable.init [OF pacer _ pattern]) simp
  then have s: "app_reachable ?s" by (simp add: eval_nat_numeral app_reachable.ui)
  have u: "ac_upc ?s = SdJoinVideo" by (simp add: eval_nat_numeral ui_steps app_init_def set_queue_def)
  have "ac_upc (ui_step UiShutdown (fold video_step (replicate 6 (demo_video None)) ?s)) = SdOutputFlag"
    using app_shutdown [OF s, of "replicate 6 (demo_video None)" "replicate 3 \<lparr>oa_now = 0, oa_dxgiReady = False\<rparr>" UiShutdown]
    by (simp add: u list_all_iff)
  with s u show ?thesis by blast
qed

text \<open>No answer of the decoder makes the converter leave its buffers, and neither worker fails: the pacer
  stays within its clock, the skipping loop within its fuel and every published frame is whole.\<close>

theorem app_never_faults:
  assumes "app_reachable s"
  shows "ac_vpc s \<noteq> VwFault \<and> ac_opc s \<noteq> OwFault \<and> int (length (pp_payload (ac_pipe s))) = kPayloadBytes"
  using app_frames [OF assms] app_output [OF assms] by (auto simp: frames_ok_def output_ok_def)

text \<open>A deadline is never more than a slot in the past, never before the one the pacer had, and the next
  is a thirtieth of a second later.\<close>

theorem next_deadline_in_slot:
  assumes "paced p" "pc_deadline p < 2 ^ 63 + 10 ^ 8" "now < 2 ^ 63"
  shows "\<exists>d p'. next_deadline now p = Some (Inr (d, p')) \<and> now < d + 33333334 \<and> pc_deadline p \<le> d \<and>
    d + 33333333 \<le> pc_deadline p' \<and> pc_deadline p' \<le> d + 33333334"
  using next_deadline_ok [OF assms] by metis

end
