(* ===== verification/VcamStream.thy ===== *)
theory VcamStream
  imports TestPattern "HOL-Library.Sublist"
begin

text \<open>
  \<open>src/windows/virtual-camera/media-source/webrtc_bridge_media_stream.cpp\<close>: the media stream of the
  virtual camera. A client asks for samples; the delivery thread makes one sample per request from the
  latest frame, or from the test pattern, and queues it as an event. One caller at a time controls the
  stream (the media source calls it under its own lock), while clients ask and the delivery thread runs.
  A step is one critical section of \<open>lock_\<close>, or one access of an atomic, an event or a thread with the
  local code around it. The answers of Media Foundation are arguments: result codes, times, buffers.
  \<open>QueueEvent\<close> of the queue is the bit \<open>queued\<close>. \<open>st_log\<close> holds all events queued so far and \<open>st_asked\<close>
  all tokens accepted so far; neither is a field of the code. \<open>std::terminate\<close> and a write outside a
  buffer set \<open>st_fault\<close>. The attribute calls, reference counts and logging are left out.
\<close>

section \<open>Samples\<close>

datatype hresult = S_OK | E_POINTER | E_UNEXPECTED | MF_E_SHUTDOWN | MF_E_INVALIDREQUEST | MF_E_INVALIDMEDIATYPE
  | MF_E_BUFFERTOOSMALL | MF_E_INVALIDSTREAMNUMBER | OtherFailure nat

definition FAILED :: "hresult \<Rightarrow> bool" where
  "FAILED hr \<longleftrightarrow> hr \<noteq> S_OK"

datatype subtype = NV12 | RGB32 | OtherSubtype

text \<open>A shared texture, or a buffer with its current length.\<close>

datatype content = Texture u32 | Memory bytes int

record Sample =
  sp_token :: "nat option"
  sp_content :: content
  sp_time :: int
  sp_duration :: int
  sp_discontinuity :: bool

section \<open>Writing the pixels\<close>

definition bt709_b :: "int \<Rightarrow> int \<Rightarrow> int" where
  "bt709_b yVal uVal = (298 * yVal + 541 * uVal + 128) div 256"

definition bt709_g :: "int \<Rightarrow> int \<Rightarrow> int \<Rightarrow> int" where
  "bt709_g yVal uVal vVal = (298 * yVal - 55 * uVal - 136 * vVal + 128) div 256"

definition bt709_r :: "int \<Rightarrow> int \<Rightarrow> int" where
  "bt709_r yVal vVal = (298 * yVal + 459 * vVal + 128) div 256"

definition y_value :: "u8 \<Rightarrow> int" where
  "y_value y = max 0 (uint y - 16)"

definition c_value :: "u8 \<Rightarrow> int" where
  "c_value c = uint c - 128"

text \<open>The four bytes of the pixel in row \<open>y\<close> and column \<open>x\<close>.\<close>

definition bgra_pixel :: "bytes \<Rightarrow> int \<Rightarrow> int \<Rightarrow> u8 option list" where
  "bgra_pixel src y x =
     (let uv = kWidth * kHeight + y div 2 * kWidth + x div 2 * 2 in
      case (load_at src (y * kWidth + x), load_at src uv, load_at src (uv + 1)) of
        (Some l, Some u, Some v) \<Rightarrow>
          [Some (clamp_byte (bt709_b (y_value l) (c_value u)) 0 255),
           Some (clamp_byte (bt709_g (y_value l) (c_value u) (c_value v)) 0 255),
           Some (clamp_byte (bt709_r (y_value l) (c_value v)) 0 255), Some 255]
      | _ \<Rightarrow> [None, None, None, None])"

definition rgb_rows :: "bytes \<Rightarrow> int \<Rightarrow> int \<Rightarrow> bytes \<Rightarrow> bytes option" where
  "rgb_rows src firstRow pitch =
     draw kHeight kWidth (\<lambda>y x. zip [firstRow + y * pitch + x * 4, firstRow + y * pitch + x * 4 + 1,
       firstRow + y * pitch + x * 4 + 2, firstRow + y * pitch + x * 4 + 3] (bgra_pixel src y x))"

definition nv12_rows :: "bytes \<Rightarrow> int \<Rightarrow> int \<Rightarrow> bytes \<Rightarrow> bytes option" where
  "nv12_rows src firstRow pitch b =
     bind_draw (for_each (\<lambda>y. memcpy_at (firstRow + int y * pitch) src (int y * kWidth) kWidth) [0..<nat kHeight] b)
       (for_each (\<lambda>y. memcpy_at (firstRow + kHeight * pitch + int y * pitch) src (kWidth * kHeight + int y * kWidth) kWidth)
          [0..<nat (kHeight div 2)])"

text \<open>\<open>pitch\<close> is a \<open>LONG\<close> other than \<open>LONG_MIN\<close>; a null pointer is \<open>None\<close>.\<close>

definition writeRows :: "subtype \<Rightarrow> bytes \<Rightarrow> int option \<Rightarrow> int \<Rightarrow> bytes \<Rightarrow> (hresult \<times> bytes) option" where
  "writeRows subtype src firstRow pitch b =
     (let rowBytes = (if subtype = RGB32 then kWidth * 4 else kWidth) in
      case firstRow of
        None \<Rightarrow> Some (MF_E_BUFFERTOOSMALL, b)
      | Some row0 \<Rightarrow>
          if pitch = 0 \<or> \<bar>pitch\<bar> < rowBytes then Some (MF_E_BUFFERTOOSMALL, b)
          else map_option (Pair S_OK) (if subtype = NV12 then nv12_rows src row0 pitch b else rgb_rows src row0 pitch b))"

datatype buffer =
  Buffer2D (lock_result: hresult) (scanline0: "int option") (buffer_pitch: int) (buffer_bytes: bytes) (unlock_result: hresult)
| Linear (lock_result: hresult) (destination: "int option") (max_length: int) (buffer_bytes: bytes) (unlock_result: hresult)

definition out_bytes :: "subtype \<Rightarrow> int" where
  "out_bytes subtype = (if subtype = RGB32 then kWidth * kHeight * 4 else kPayloadBytes)"

definition unlocked :: "hresult \<Rightarrow> (hresult \<times> bytes) option \<Rightarrow> (hresult \<times> bytes) option" where
  "unlocked unlockHr r = map_option (\<lambda>(hr, b). (if FAILED hr then hr else unlockHr, b)) r"

definition write_buffer :: "subtype \<Rightarrow> bytes \<Rightarrow> buffer \<Rightarrow> (hresult \<times> bytes) option" where
  "write_buffer subtype src buffer =
     (case buffer of
        Buffer2D lockHr row0 pitch b unlockHr \<Rightarrow>
          if FAILED lockHr then Some (lockHr, b) else unlocked unlockHr (writeRows subtype src row0 pitch b)
      | Linear lockHr dest maxLength b unlockHr \<Rightarrow>
          if FAILED lockHr then Some (lockHr, b)
          else if maxLength < out_bytes subtype then Some (MF_E_BUFFERTOOSMALL, b)
          else unlocked unlockHr (writeRows subtype src dest (if subtype = RGB32 then kWidth * 4 else kWidth) b))"

section \<open>The stream\<close>

datatype stream_state = STOPPED | PAUSED | RUNNING

datatype stream_event = StreamStarted | StreamPaused | StreamStopped | MediaSample Sample | ClientEvent

datatype delivery_pc = DtLoop | DtWait | DtWoken bool | DtDeliver | DtEnd

text \<open>Which call clears \<open>isDeliveryRunning_\<close>.\<close>

datatype ending = ByStop | ByShutdown | ByState

datatype control_pc = CtIdle | CtSpawn | CtClear ending | CtWake ending | CtJoin ending | CtFinish ending

text \<open>\<open>st_thread\<close>: \<open>None\<close> when \<open>deliveryThread_\<close> is not joinable.\<close>

record Stream =
  st_started :: bool
  st_shutdown :: bool
  st_state :: stream_state
  st_requests :: "nat option list"
  st_wake :: bool
  st_running :: bool
  st_thread :: "delivery_pc option"
  st_queue :: bool
  st_attached :: bool
  st_subtype :: subtype
  st_fps :: u32
  st_allocator :: bool
  st_d3d :: bool
  st_startTime :: int
  st_lastSampleTime :: int
  st_sampleIndex :: u64
  st_scratch :: bytes
  st_pattern :: TestPatternGenerator
  st_pc :: control_pc
  st_log :: "stream_event list"
  st_asked :: "nat option list"
  st_fault :: bool

definition stream_init :: "TestPatternGenerator \<Rightarrow> Stream" where
  "stream_init pattern =
     \<lparr>st_started = False, st_shutdown = False, st_state = STOPPED, st_requests = [], st_wake = False, st_running = False,
      st_thread = None, st_queue = True, st_attached = True, st_subtype = NV12, st_fps = 60, st_allocator = False,
      st_d3d = False, st_startTime = 0, st_lastSampleTime = 0, st_sampleIndex = 0,
      st_scratch = replicate (nat kPayloadBytes) 0, st_pattern = pattern, st_pc = CtIdle, st_log = [], st_asked = [],
      st_fault = False\<rparr>"

definition push_event :: "bool \<Rightarrow> stream_event \<Rightarrow> Stream \<Rightarrow> Stream" where
  "push_event queued e s = (if queued \<and> st_queue s then s\<lparr>st_log := st_log s @ [e]\<rparr> else s)"

section \<open>Making a sample\<close>

record SampleAnswers =
  sa_slot :: u32
  sa_texture :: bool
  sa_surface :: bool
  sa_gpuSample :: bool
  sa_frame :: "bytes option"
  sa_fallbackTime :: int
  sa_calls :: "hresult list"
  sa_buffer :: buffer
  sa_now :: int
  sa_queued :: hresult

text \<open>The first failure of a sequence of calls: \<open>AllocateSample\<close>, \<open>GetBufferByIndex\<close>, or
  \<open>MFCreateMemoryBuffer\<close>, \<open>MFCreateSample\<close>, \<open>AddBuffer\<close>.\<close>

definition first_failure :: "hresult list \<Rightarrow> hresult" where
  "first_failure hrs = (case filter FAILED hrs of [] \<Rightarrow> S_OK | hr # _ \<Rightarrow> hr)"

definition new_sample :: "content \<Rightarrow> int \<Rightarrow> Stream \<Rightarrow> Sample \<times> Stream" where
  "new_sample content now s =
     (let fps = (if st_fps s = 0 then 60 else st_fps s); index = st_sampleIndex s + 1 in
      (\<lparr>sp_token = None, sp_content = content, sp_time = now, sp_duration = 10000000 div uint fps,
        sp_discontinuity = (index = 1)\<rparr>, s\<lparr>st_sampleIndex := index\<rparr>))"

definition source_pixels :: "SampleAnswers \<Rightarrow> Stream \<Rightarrow> (bytes \<times> Stream) option" where
  "source_pixels a s =
     (case sa_frame a of
        Some f \<Rightarrow> Some (f, s)
      | None \<Rightarrow>
          let fps = (if st_fps s = 0 then 60 else st_fps s);
              fallbackIndex = of_int (cdiv (sa_fallbackTime a * uint fps) 10000000) in
          map_option (\<lambda>f. (f, s\<lparr>st_scratch := f\<rparr>)) (GenerateFrame (st_pattern s) (st_scratch s) fallbackIndex))"

definition CreateVideoSample :: "SampleAnswers \<Rightarrow> Stream \<Rightarrow> (hresult \<times> Sample option \<times> Stream) option" where
  "CreateVideoSample a s =
     (if st_subtype s = NV12 \<and> st_d3d s \<and> sa_texture a \<and> sa_surface a \<and> sa_gpuSample a
      then (case new_sample (Texture (sa_slot a)) (sa_now a) s of (sample, s1) \<Rightarrow> Some (S_OK, Some sample, s1))
      else
        (case source_pixels a s of
           None \<Rightarrow> None
         | Some (src, s1) \<Rightarrow>
             if FAILED (first_failure (sa_calls a)) then Some (first_failure (sa_calls a), None, s1)
             else
               (case write_buffer (st_subtype s) src (sa_buffer a) of
                  None \<Rightarrow> None
                | Some (hr, b) \<Rightarrow>
                    if FAILED hr then Some (hr, None, s1)
                    else (case new_sample (Memory b (out_bytes (st_subtype s))) (sa_now a) s1 of
                            (sample, s2) \<Rightarrow> Some (S_OK, Some sample, s2)))))"

definition DeliverSamples :: "SampleAnswers \<Rightarrow> Stream \<Rightarrow> hresult \<times> Stream" where
  "DeliverSamples a s =
     (if st_shutdown s \<or> \<not> st_started s then (S_OK, s)
      else
        (case st_requests s of
           [] \<Rightarrow> (S_OK, s)
         | token # rest \<Rightarrow>
             (case CreateVideoSample a (s\<lparr>st_requests := rest\<rparr>) of
                None \<Rightarrow> (S_OK, s\<lparr>st_fault := True\<rparr>)
              | Some (hr, sample, s1) \<Rightarrow>
                  (case sample of
                     None \<Rightarrow> (hr, s1)
                   | Some p \<Rightarrow>
                       (sa_queued a, push_event (\<not> FAILED (sa_queued a)) (MediaSample (p\<lparr>sp_token := token\<rparr>)) s1)))))"

text \<open>The delivery thread. \<open>woke\<close>: the wait is over, by its time or by a new frame.\<close>

definition delivery_timeout :: "u32 \<Rightarrow> u32" where
  "delivery_timeout fps = max 5 (1000 div (if fps > 0 then fps else 60))"

definition DeliveryThread_step :: "bool \<Rightarrow> SampleAnswers \<Rightarrow> Stream \<Rightarrow> Stream" where
  "DeliveryThread_step woke a s =
     (case st_thread s of
        None \<Rightarrow> s
      | Some DtLoop \<Rightarrow> s\<lparr>st_thread := Some (if st_running s then DtWait else DtEnd)\<rparr>
      | Some DtWait \<Rightarrow>
          if st_wake s then s\<lparr>st_wake := False, st_thread := Some (DtWoken True)\<rparr>
          else if woke then s\<lparr>st_thread := Some (DtWoken False)\<rparr>
          else s
      | Some (DtWoken wakeEvent) \<Rightarrow>
          if \<not> st_running s then s\<lparr>st_thread := Some DtEnd\<rparr>
          else if wakeEvent then s\<lparr>st_thread := Some DtEnd\<rparr>
          else s\<lparr>st_thread := Some DtDeliver\<rparr>
      | Some DtDeliver \<Rightarrow> (snd (DeliverSamples a s))\<lparr>st_thread := Some DtLoop\<rparr>
      | Some DtEnd \<Rightarrow> s)"

section \<open>The calls of a client\<close>

definition RequestSample :: "nat option \<Rightarrow> Stream \<Rightarrow> hresult \<times> Stream" where
  "RequestSample token s =
     (if st_shutdown s then (MF_E_SHUTDOWN, s)
      else if \<not> st_started s then (MF_E_INVALIDREQUEST, s)
      else (S_OK, s\<lparr>st_requests := st_requests s @ [token], st_asked := st_asked s @ [token]\<rparr>))"

text \<open>\<open>BeginGetEvent\<close>, \<open>EndGetEvent\<close>, \<open>GetEvent\<close>.\<close>

definition event_call :: "hresult \<Rightarrow> Stream \<Rightarrow> hresult" where
  "event_call answer s = (if st_shutdown s then MF_E_SHUTDOWN else if st_queue s then answer else MF_E_SHUTDOWN)"

definition ms_QueueEvent :: "hresult \<Rightarrow> Stream \<Rightarrow> hresult \<times> Stream" where
  "ms_QueueEvent answer s =
     (if st_shutdown s then (MF_E_SHUTDOWN, s)
      else if st_queue s then (answer, push_event (\<not> FAILED answer) ClientEvent s)
      else (MF_E_SHUTDOWN, s))"

text \<open>\<open>GetMediaSource\<close> and \<open>GetStreamDescriptor\<close> (\<open>out\<close>: the pointer is not null).\<close>

definition get_attached :: "bool \<Rightarrow> Stream \<Rightarrow> hresult" where
  "get_attached out s =
     (if \<not> out then E_POINTER else if st_shutdown s then MF_E_SHUTDOWN else if \<not> st_attached s then E_UNEXPECTED else S_OK)"

definition GetStreamState :: "bool \<Rightarrow> Stream \<Rightarrow> hresult \<times> stream_state option" where
  "GetStreamState out s = (if \<not> out then (E_POINTER, None) else (S_OK, Some (st_state s)))"

section \<open>The calls of the media source\<close>

record MediaType =
  mt_subtype :: "hresult \<times> subtype"
  mt_size :: "hresult \<times> u32 \<times> u32"
  mt_rate :: "hresult \<times> u32 \<times> u32"

definition ms_SetMediaType :: "MediaType option \<Rightarrow> Stream \<Rightarrow> hresult \<times> Stream" where
  "ms_SetMediaType type s =
     (case type of
        None \<Rightarrow> (E_POINTER, s)
      | Some t \<Rightarrow>
          (case (mt_subtype t, mt_size t, mt_rate t) of
             ((hr, subType), (hr2, width, height), (hr3, num, den)) \<Rightarrow>
               if FAILED hr then (hr, s)
               else if FAILED hr2 then (hr2, s)
               else if (subType \<noteq> NV12 \<and> subType \<noteq> RGB32) \<or> uint width \<noteq> kWidth \<or> uint height \<noteq> kHeight
               then (MF_E_INVALIDMEDIATYPE, s)
               else
                 let s1 = (if \<not> FAILED hr3 \<and> den > 0 then s\<lparr>st_fps := max 15 (num div den)\<rparr> else s) in
                 if st_shutdown s1 then (MF_E_SHUTDOWN, s1) else (S_OK, s1\<lparr>st_subtype := subType\<rparr>)))"

text \<open>\<open>answer\<close>: of \<open>QueryInterface\<close>.\<close>

definition ms_SetSampleAllocator :: "bool \<Rightarrow> hresult \<Rightarrow> Stream \<Rightarrow> hresult \<times> Stream" where
  "ms_SetSampleAllocator given answer s =
     (if \<not> given then (E_POINTER, s)
      else if FAILED answer then (answer, s)
      else if st_shutdown s then (MF_E_SHUTDOWN, s)
      else if st_started s then (MF_E_INVALIDREQUEST, s)
      else (S_OK, s\<lparr>st_allocator := True\<rparr>))"

text \<open>\<open>device\<close>: the manager gave a Direct3D 11 device.\<close>

definition ms_SetD3DManager :: "bool \<Rightarrow> bool \<Rightarrow> Stream \<Rightarrow> hresult \<times> Stream" where
  "ms_SetD3DManager given device s =
     (if \<not> given then (E_POINTER, s) else if device then (S_OK, s\<lparr>st_d3d := True\<rparr>) else (S_OK, s))"

definition ms_Start :: "bool \<Rightarrow> int \<Rightarrow> Stream \<Rightarrow> Stream" where
  "ms_Start queued now s =
     (if st_shutdown s then s
      else
        (push_event queued StreamStarted
           (s\<lparr>st_started := True, st_sampleIndex := 0, st_lastSampleTime := 0, st_startTime := now\<rparr>))
          \<lparr>st_pc := (if queued then CtSpawn else CtIdle)\<rparr>)"

definition ms_Stop :: "Stream \<Rightarrow> Stream" where
  "ms_Stop s = (if st_shutdown s then s else s\<lparr>st_started := False, st_requests := [], st_pc := CtClear ByStop\<rparr>)"

definition ms_Pause :: "bool \<Rightarrow> Stream \<Rightarrow> Stream" where
  "ms_Pause queued s = (if st_shutdown s then s else push_event queued StreamPaused (s\<lparr>st_started := False\<rparr>))"

definition ms_Shutdown :: "Stream \<Rightarrow> Stream" where
  "ms_Shutdown s =
     (if st_shutdown s then s
      else s\<lparr>st_shutdown := True, st_started := False, st_requests := [], st_pc := CtClear ByShutdown\<rparr>)"

definition SetStreamState :: "stream_state \<Rightarrow> bool \<Rightarrow> int \<Rightarrow> Stream \<Rightarrow> Stream" where
  "SetStreamState state queued now s =
     (let s1 = s\<lparr>st_state := state\<rparr> in
      case state of
        RUNNING \<Rightarrow>
          (push_event queued StreamStarted (s1\<lparr>st_started := True, st_sampleIndex := 0, st_startTime := now\<rparr>))\<lparr>st_pc := CtSpawn\<rparr>
      | PAUSED \<Rightarrow> (push_event queued StreamPaused (s1\<lparr>st_started := False\<rparr>))\<lparr>st_pc := CtClear ByState\<rparr>
      | STOPPED \<Rightarrow>
          (push_event queued StreamStopped (s1\<lparr>st_started := False, st_requests := []\<rparr>))\<lparr>st_pc := CtClear ByState\<rparr>)"

text \<open>What follows the critical section: the delivery thread is started, or told to end and joined.\<close>

definition spawn_delivery :: "Stream \<Rightarrow> Stream" where
  "spawn_delivery s =
     (if st_running s then s
      else if st_thread s \<noteq> None then s\<lparr>st_running := True, st_fault := True\<rparr>
      else s\<lparr>st_running := True, st_thread := Some DtLoop\<rparr>)"

definition join_delivery :: "ending \<Rightarrow> Stream \<Rightarrow> Stream" where
  "join_delivery e s =
     (case st_thread s of
        None \<Rightarrow> s\<lparr>st_pc := CtFinish e\<rparr>
      | Some DtEnd \<Rightarrow> s\<lparr>st_thread := None, st_pc := CtFinish e\<rparr>
      | Some _ \<Rightarrow> s)"

definition finish_call :: "bool \<Rightarrow> ending \<Rightarrow> Stream \<Rightarrow> Stream" where
  "finish_call queued e s =
     (case e of
        ByStop \<Rightarrow> (push_event queued StreamStopped s)\<lparr>st_pc := CtIdle\<rparr>
      | ByShutdown \<Rightarrow> s\<lparr>st_queue := False, st_attached := False, st_pc := CtIdle\<rparr>
      | ByState \<Rightarrow> s\<lparr>st_pc := CtIdle\<rparr>)"

definition control_next :: "bool \<Rightarrow> Stream \<Rightarrow> Stream" where
  "control_next queued s =
     (case st_pc s of
        CtIdle \<Rightarrow> s
      | CtSpawn \<Rightarrow> (spawn_delivery s)\<lparr>st_pc := CtIdle\<rparr>
      | CtClear e \<Rightarrow> s\<lparr>st_running := False, st_pc := (if e = ByState then CtJoin e else CtWake e)\<rparr>
      | CtWake e \<Rightarrow> s\<lparr>st_wake := True, st_pc := CtJoin e\<rparr>
      | CtJoin e \<Rightarrow> join_delivery e s
      | CtFinish e \<Rightarrow> finish_call queued e s)"

lemmas control_steps = control_next_def join_delivery_def finish_call_def spawn_delivery_def

lemma delivery_timeout_range: "5 \<le> delivery_timeout fps \<and> (15 \<le> fps \<longrightarrow> delivery_timeout fps \<le> 66)"
proof -
  have "1000 div fps \<le> 66" if "15 \<le> fps"
  proof -
    have "15 \<le> unat fps" using that by (simp add: word_le_nat_alt)
    then have "1000 div unat fps \<le> 1000 div 15" by (intro div_le_mono2) simp_all
    then show ?thesis by (simp add: word_le_nat_alt unat_div)
  qed
  moreover have "fps > 0" if "15 \<le> fps" using that by (simp add: word_le_nat_alt word_less_nat_alt)
  ultimately show ?thesis by (auto simp: delivery_timeout_def max_def)
qed

section \<open>What the rows hold\<close>

lemma pitch_unique:
  fixes y x pitch :: int
  assumes "y * pitch + x = y' * pitch + x'" "0 \<le> x" "x < \<bar>pitch\<bar>" "0 \<le> x'" "x' < \<bar>pitch\<bar>"
  shows "y = y' \<and> x = x'"
proof (cases "0 \<le> pitch")
  case True
  then show ?thesis using place_unique [of y pitch x y' x'] assms by simp
next
  case False
  have "(- y) * (- pitch) + x = (- y') * (- pitch) + x'" using assms(1) by simp
  then show ?thesis using place_unique [of "- y" "- pitch" x "- y'" x'] assms False by simp
qed

text \<open>The rows of a picture lie inside the buffer.\<close>

definition rows_inside :: "int \<Rightarrow> int \<Rightarrow> int \<Rightarrow> int \<Rightarrow> bytes \<Rightarrow> bool" where
  "rows_inside row0 pitch rows rowBytes b \<longleftrightarrow>
     rowBytes \<le> \<bar>pitch\<bar> \<and> (\<forall>y \<in> {0..<rows}. 0 \<le> row0 + y * pitch \<and> row0 + y * pitch + rowBytes \<le> int (length b))"

lemma rows_insideD:
  assumes "rows_inside row0 pitch rows rowBytes b" "0 \<le> y" "y < rows"
  shows "0 \<le> row0 + y * pitch" "row0 + y * pitch + rowBytes \<le> int (length b)"
  using assms by (simp_all add: rows_inside_def)

lemma copy_rows:
  assumes "rows_inside base pitch h w b" "\<And>y x. 0 \<le> y \<Longrightarrow> y < h \<Longrightarrow> 0 \<le> x \<Longrightarrow> x < w \<Longrightarrow> v y x \<noteq> None"
  obtains b' where "draw h w (\<lambda>y x. [(base + y * pitch + x, v y x)]) b = Some b'" "length b' = length b"
    "\<And>y x. 0 \<le> y \<Longrightarrow> y < h \<Longrightarrow> 0 \<le> x \<Longrightarrow> x < w \<Longrightarrow> Some (b' ! nat (base + y * pitch + x)) = v y x"
    "\<And>j. (\<And>y x. 0 \<le> y \<Longrightarrow> y < h \<Longrightarrow> 0 \<le> x \<Longrightarrow> x < w \<Longrightarrow> int j \<noteq> base + y * pitch + x) \<Longrightarrow> b' ! j = b ! j"
proof -
  let ?body = "\<lambda>y x. [(base + y * pitch + x, v y x)]"
  have w: "w \<le> \<bar>pitch\<bar>" using assms(1) by (simp add: rows_inside_def)
  have good: "0 \<le> i \<and> nat i < length b \<and> z \<noteq> None"
    if r: "0 \<le> y" "y < h" "0 \<le> x" "x < w" and i: "(i, z) \<in> set (?body y x)" for y x i z
  proof -
    have "i = base + y * pitch + x" "z = v y x" using i by simp_all
    then show ?thesis using rows_insideD [OF assms(1) r(1,2)] assms(2) [OF r] r(3,4) by (simp add: nat_less_iff)
  qed
  have once: "y = y' \<and> x = x'" if "0 \<le> x" "x < w" "0 \<le> x'" "x' < w"
    "i \<in> fst ` set (?body y x)" "i \<in> fst ` set (?body y' x')" for y x y' x' i
    by (rule pitch_unique [of y pitch]) (use that w in auto)
  obtain b' where b': "draw h w ?body b = Some b'" "length b' = length b"
    "\<And>y x i u. 0 \<le> y \<Longrightarrow> y < h \<Longrightarrow> 0 \<le> x \<Longrightarrow> x < w \<Longrightarrow> (i, u) \<in> set (?body y x) \<Longrightarrow> Some (b' ! nat i) = u"
    "\<And>j. (\<And>y x. 0 \<le> y \<Longrightarrow> y < h \<Longrightarrow> 0 \<le> x \<Longrightarrow> x < w \<Longrightarrow> int j \<notin> fst ` set (?body y x)) \<Longrightarrow> b' ! j = b ! j"
  proof (rule draw_result [of h w ?body b])
    show "\<And>y x. distinct (map fst (?body y x))" by simp
  qed (use good once in blast)+
  show thesis
  proof (rule that [of b'])
    show "Some (b' ! nat (base + y * pitch + x)) = v y x" if "0 \<le> y" "y < h" "0 \<le> x" "x < w" for y x
      by (rule b'(3) [OF that]) simp
    show "b' ! j = b ! j" if "\<And>y x. 0 \<le> y \<Longrightarrow> y < h \<Longrightarrow> 0 \<le> x \<Longrightarrow> x < w \<Longrightarrow> int j \<noteq> base + y * pitch + x" for j
      by (rule b'(4)) (use that in simp)
  qed (rule b'(1,2))+
qed

lemma memcpy_pitch:
  "for_each (\<lambda>y. memcpy_at (base + int y * pitch) src (from + int y * W) W) [0..<nat h] b =
   draw h W (\<lambda>y x. [(base + y * pitch + x, load_at src (from + y * W + x))]) b"
  by (simp add: memcpy_at_def draw_def for_each_single)

lemma load_inside: "0 \<le> i \<Longrightarrow> i < int (length b) \<Longrightarrow> load_at b i = Some (b ! nat i)"
  by (simp add: load_at_def load_def nat_less_iff)

lemma nv12_rows_result:
  assumes "rows_inside row0 pitch 1080 1280 b" "length src = 1382400"
  obtains b' where "nv12_rows src row0 pitch b = Some b'" "length b' = length b"
    "\<And>y x. 0 \<le> y \<Longrightarrow> y < 1080 \<Longrightarrow> 0 \<le> x \<Longrightarrow> x < 1280 \<Longrightarrow> b' ! nat (row0 + y * pitch + x) = src ! nat (y * 1280 + x)"
proof -
  have luma: "rows_inside row0 pitch 720 1280 b" using assms(1) by (simp add: rows_inside_def)
  have load: "load_at src (0 + y * 1280 + x) = Some (src ! nat (y * 1280 + x))" if "0 \<le> y" "y < 1080" "0 \<le> x" "x < 1280" for y x
    using that by (subst load_inside) (simp_all add: assms(2))
  obtain b1 where b1: "draw 720 1280 (\<lambda>y x. [(row0 + y * pitch + x, load_at src (0 + y * 1280 + x))]) b = Some b1" "length b1 = length b"
    "\<And>y x. 0 \<le> y \<Longrightarrow> y < 720 \<Longrightarrow> 0 \<le> x \<Longrightarrow> x < 1280 \<Longrightarrow> Some (b1 ! nat (row0 + y * pitch + x)) = load_at src (0 + y * 1280 + x)"
    by (rule copy_rows [OF luma, where v = "\<lambda>y x. load_at src (0 + y * 1280 + x)"]) (use load in auto)
  have chroma: "rows_inside (row0 + 720 * pitch) pitch 360 1280 b1"
    unfolding rows_inside_def
  proof (intro conjI ballI)
    fix y :: int assume "y \<in> {0..<360}"
    then show "0 \<le> row0 + 720 * pitch + y * pitch" "row0 + 720 * pitch + y * pitch + 1280 \<le> int (length b1)"
      using rows_insideD [OF assms(1), of "720 + y"] b1(2) by (simp_all add: distrib_right)
  qed (use assms(1) in \<open>simp add: rows_inside_def\<close>)
  have load2: "load_at src (921600 + y * 1280 + x) = Some (src ! nat ((720 + y) * 1280 + x))" if "0 \<le> y" "y < 360" "0 \<le> x" "x < 1280" for y x
    using load [of "720 + y" x] that by (simp add: distrib_right)
  obtain b2 where b2: "draw 360 1280 (\<lambda>y x. [(row0 + 720 * pitch + y * pitch + x, load_at src (921600 + y * 1280 + x))]) b1 = Some b2"
    "length b2 = length b1"
    "\<And>y x. 0 \<le> y \<Longrightarrow> y < 360 \<Longrightarrow> 0 \<le> x \<Longrightarrow> x < 1280 \<Longrightarrow>
       Some (b2 ! nat (row0 + 720 * pitch + y * pitch + x)) = load_at src (921600 + y * 1280 + x)"
    "\<And>j. (\<And>y x. 0 \<le> y \<Longrightarrow> y < 360 \<Longrightarrow> 0 \<le> x \<Longrightarrow> x < 1280 \<Longrightarrow> int j \<noteq> row0 + 720 * pitch + y * pitch + x) \<Longrightarrow> b2 ! j = b1 ! j"
    by (rule copy_rows [OF chroma, where v = "\<lambda>y x. load_at src (921600 + y * 1280 + x)"]) (use load2 in auto)
  have kept: "b2 ! nat (row0 + y * pitch + x) = b1 ! nat (row0 + y * pitch + x)" if "0 \<le> y" "y < 720" "0 \<le> x" "x < 1280" for y x
  proof (rule b2(4))
    fix y' x' :: int assume r: "0 \<le> y'" "y' < 360" "0 \<le> x'" "x' < 1280"
    have "y * pitch + x \<noteq> (720 + y') * pitch + x'"
      using pitch_unique [of y pitch x "720 + y'" x'] that r luma by (auto simp: rows_inside_def)
    then show "int (nat (row0 + y * pitch + x)) \<noteq> row0 + 720 * pitch + y' * pitch + x'"
      using rows_insideD(1) [OF luma that(1,2)] that(3) by (simp add: distrib_right)
  qed
  show thesis
  proof (rule that [of b2])
    show "nv12_rows src row0 pitch b = Some b2"
      using b1(1) b2(1) memcpy_pitch [of row0 pitch src 0 1280 720 b] memcpy_pitch [of "row0 + 720 * pitch" pitch src 921600 1280 360 b1]
      by (simp add: nv12_rows_def sizes)
    show "length b2 = length b" using b1(2) b2(2) by simp
    show "b2 ! nat (row0 + y * pitch + x) = src ! nat (y * 1280 + x)" if r: "0 \<le> y" "y < 1080" "0 \<le> x" "x < 1280" for y x
    proof (cases "y < 720")
      case True
      then show ?thesis using kept [OF r(1) _ r(3,4)] b1(3) [OF r(1) _ r(3,4)] load [OF r] by simp
    next
      case False
      then show ?thesis using b2(3) [of "y - 720" x] load2 [of "y - 720" x] r by (simp add: left_diff_distrib)
    qed
  qed
qed

text \<open>The colours of a pixel of the frame.\<close>

definition pixel_bgr :: "bytes \<Rightarrow> int \<Rightarrow> int \<Rightarrow> u8 \<times> u8 \<times> u8" where
  "pixel_bgr src y x =
     (let l = y_value (src ! nat (y * 1280 + x)); uv = nat (921600 + y div 2 * 1280 + x div 2 * 2);
          u = c_value (src ! uv); v = c_value (src ! (uv + 1))
      in (clamp_byte (bt709_b l u) 0 255, clamp_byte (bt709_g l u v) 0 255, clamp_byte (bt709_r l v) 0 255))"

lemma bgra_pixel_inside:
  assumes "length src = 1382400" "0 \<le> y" "y < 720" "0 \<le> x" "x < 1280" "pixel_bgr src y x = (b, g, r)"
  shows "bgra_pixel src y x = [Some b, Some g, Some r, Some 255]"
proof -
  have d: "0 \<le> y div 2" "y div 2 \<le> 359" "0 \<le> x div 2" "x div 2 \<le> 639" using assms(2-5) by auto
  let ?uv = "921600 + y div 2 * 1280 + x div 2 * 2"
  have n: "nat (?uv + 1) = nat ?uv + 1" using d by linarith
  have "load_at src (y * 1280 + x) = Some (src ! nat (y * 1280 + x))" "load_at src ?uv = Some (src ! nat ?uv)"
    "load_at src (?uv + 1) = Some (src ! (nat ?uv + 1))"
    unfolding n [symmetric] by (rule load_inside; use assms(1-5) d in linarith)+
  then show ?thesis using assms(6) by (simp add: bgra_pixel_def pixel_bgr_def Let_def sizes)
qed

lemma rgb_rows_result:
  assumes "rows_inside row0 pitch 720 5120 dst" "length src = 1382400"
  obtains dst' where "rgb_rows src row0 pitch dst = Some dst'" "length dst' = length dst"
    "\<And>y x. 0 \<le> y \<Longrightarrow> y < 720 \<Longrightarrow> 0 \<le> x \<Longrightarrow> x < 1280 \<Longrightarrow>
       (let i = nat (row0 + y * pitch + x * 4)
        in (dst' ! i, dst' ! (i + 1), dst' ! (i + 2)) = pixel_bgr src y x \<and> dst' ! (i + 3) = 255)"
proof -
  let ?body = "\<lambda>y x. zip [row0 + y * pitch + x * 4, row0 + y * pitch + x * 4 + 1, row0 + y * pitch + x * 4 + 2,
    row0 + y * pitch + x * 4 + 3] (bgra_pixel src y x)"
  have at_pixel: "\<exists>b g r. pixel_bgr src y x = (b, g, r) \<and> ?body y x = [(row0 + y * pitch + x * 4, Some b), (row0 + y * pitch + x * 4 + 1, Some g),
      (row0 + y * pitch + x * 4 + 2, Some r), (row0 + y * pitch + x * 4 + 3, Some 255)]"
    if r: "0 \<le> y" "y < 720" "0 \<le> x" "x < 1280" for y x
  proof -
    obtain b g rr where p: "pixel_bgr src y x = (b, g, rr)" by (rule prod_cases3)
    show ?thesis by (intro exI [of _ b] exI [of _ g] exI [of _ rr]) (simp only: p bgra_pixel_inside [OF assms(2) r p] zip_Cons_Cons zip_Nil simp_thms)
  qed
  have place: "\<exists>c \<in> {0, 1, 2, 3}. i = row0 + y * pitch + (x * 4 + c) \<and> z \<noteq> None"
    if r: "0 \<le> y" "y < 720" "0 \<le> x" "x < 1280" and i: "(i, z) \<in> set (?body y x)" for y x i z
  proof -
    obtain b g rr where "?body y x = [(row0 + y * pitch + x * 4, Some b), (row0 + y * pitch + x * 4 + 1, Some g),
      (row0 + y * pitch + x * 4 + 2, Some rr), (row0 + y * pitch + x * 4 + 3, Some 255)]" using at_pixel [OF r] by blast
    with i have "(i, z) \<in> {(row0 + y * pitch + x * 4, Some b), (row0 + y * pitch + x * 4 + 1, Some g),
      (row0 + y * pitch + x * 4 + 2, Some rr), (row0 + y * pitch + x * 4 + 3, Some 255)}" by (simp only: list.set)
    then show ?thesis by auto
  qed
  have good: "0 \<le> i \<and> nat i < length dst \<and> z \<noteq> None"
    if r: "0 \<le> y" "y < 720" "0 \<le> x" "x < 1280" and i: "(i, z) \<in> set (?body y x)" for y x i z
  proof -
    obtain c :: int where "c \<in> {0, 1, 2, 3}" "i = row0 + y * pitch + (x * 4 + c)" "z \<noteq> None" using place [OF r i] by blast
    then show ?thesis using rows_insideD [OF assms(1) r(1,2)] r(3,4) by (auto simp: nat_less_iff)
  qed
  have once: "y = y' \<and> x = x'"
    if r: "0 \<le> y" "y < 720" "0 \<le> x" "x < 1280" and r': "0 \<le> y'" "y' < 720" "0 \<le> x'" "x' < 1280"
    and i: "i \<in> fst ` set (?body y x)" "i \<in> fst ` set (?body y' x')" for y x y' x' i
  proof -
    obtain z z' where z: "(i, z) \<in> set (?body y x)" "(i, z') \<in> set (?body y' x')" using i by fastforce
    obtain c c' :: int where c: "c \<in> {0, 1, 2, 3}" "c' \<in> {0, 1, 2, 3}" "i = row0 + y * pitch + (x * 4 + c)"
      "i = row0 + y' * pitch + (x' * 4 + c')" using place [OF r z(1)] place [OF r' z(2)] by blast
    have "y = y' \<and> x * 4 + c = x' * 4 + c'"
      by (rule pitch_unique [of y pitch]) (use c r r' assms(1) in \<open>auto simp: rows_inside_def\<close>)
    then show ?thesis using c(1,2) by auto
  qed
  have distinct: "distinct (map fst (?body y x))" if "0 \<le> y" "y < 720" "0 \<le> x" "x < 1280" for y x
    using at_pixel [OF that] by (elim exE conjE) (simp only:, simp)
  obtain b' where b': "draw 720 1280 ?body dst = Some b'" "length b' = length dst"
    "\<And>y x i u. 0 \<le> y \<Longrightarrow> y < 720 \<Longrightarrow> 0 \<le> x \<Longrightarrow> x < 1280 \<Longrightarrow> (i, u) \<in> set (?body y x) \<Longrightarrow> Some (b' ! nat i) = u"
  proof (rule draw_result [of 720 1280 ?body dst])
    show "0 \<le> i \<and> nat i < length dst \<and> v \<noteq> None" if "0 \<le> y" "y < 720" "0 \<le> x" "x < 1280" "(i, v) \<in> set (?body y x)" for y x i v
      by (rule good [OF that])
    show "distinct (map fst (?body y x))" if "0 \<le> y" "y < 720" "0 \<le> x" "x < 1280" for y x by (rule distinct [OF that])
    show "y = y' \<and> x = x'" if "0 \<le> y" "y < 720" "0 \<le> x" "x < 1280" "0 \<le> y'" "y' < 720" "0 \<le> x'" "x' < 1280"
      "i \<in> fst ` set (?body y x)" "i \<in> fst ` set (?body y' x')" for y x y' x' i by (rule once [OF that])
  qed (rule that)
  show thesis
  proof (rule that [of b'])
    show "rgb_rows src row0 pitch dst = Some b'" using b'(1) by (simp add: rgb_rows_def sizes)
    show "let i = nat (row0 + y * pitch + x * 4)
        in (b' ! i, b' ! (i + 1), b' ! (i + 2)) = pixel_bgr src y x \<and> b' ! (i + 3) = 255"
      if r: "0 \<le> y" "y < 720" "0 \<le> x" "x < 1280" for y x
    proof -
      obtain b g rr where e: "pixel_bgr src y x = (b, g, rr)" "?body y x = [(row0 + y * pitch + x * 4, Some b),
          (row0 + y * pitch + x * 4 + 1, Some g), (row0 + y * pitch + x * 4 + 2, Some rr), (row0 + y * pitch + x * 4 + 3, Some 255)]"
        using at_pixel [OF r] by blast
      let ?i = "row0 + y * pitch + x * 4"
      have p: "0 \<le> ?i" using rows_insideD(1) [OF assms(1) r(1,2)] r(3) by simp
      then have n: "nat (?i + 1) = nat ?i + 1" "nat (?i + 2) = nat ?i + 2" "nat (?i + 3) = nat ?i + 3" by simp_all
      have "Some (b' ! nat ?i) = Some b" "Some (b' ! nat (?i + 1)) = Some g" "Some (b' ! nat (?i + 2)) = Some rr"
        "Some (b' ! nat (?i + 3)) = Some 255"
        by (rule b'(3) [OF r], simp add: e(2))+
      then show ?thesis unfolding n by (simp add: e(1))
    qed
  qed (rule b'(2))
qed

section \<open>The colours\<close>

text \<open>BT.709, studio range: luma is scaled by 255/219, chroma by 255/224 times twice the complements of
  the luma coefficients 0.2126 and 0.0722.\<close>

definition exact_r :: "rat \<Rightarrow> rat \<Rightarrow> rat" where
  "exact_r y v = 255 / 219 * y + 255 / 224 * 2 * (1 - 2126 / 10000) * v"

definition exact_b :: "rat \<Rightarrow> rat \<Rightarrow> rat" where
  "exact_b y u = 255 / 219 * y + 255 / 224 * 2 * (1 - 722 / 10000) * u"

definition exact_g :: "rat \<Rightarrow> rat \<Rightarrow> rat \<Rightarrow> rat" where
  "exact_g y u v = 255 / 219 * y - 255 / 224 * 2 * (1 - 722 / 10000) * (722 / 7152) * u
     - 255 / 224 * 2 * (1 - 2126 / 10000) * (2126 / 7152) * v"

lemma shift_close: "\<bar>of_int ((n + 128) div 256) - (of_int n / 256 :: rat)\<bar> \<le> 1 / 2"
proof -
  have "(n + 128) div 256 * 256 \<le> n + 128" "n + 128 < (n + 128) div 256 * 256 + 256"
    using pos_mod_bound [of 256 "n + 128"] pos_mod_sign [of 256 "n + 128"] div_mult_mod_eq [of "n + 128" 256] by linarith+
  then have "of_int ((n + 128) div 256 * 256) \<le> (of_int (n + 128) :: rat)"
    "of_int (n + 128) < (of_int ((n + 128) div 256 * 256 + 256) :: rat)" by (simp_all only: of_int_le_iff of_int_less_iff)
  then show ?thesis by (simp add: abs_le_iff field_simps)
qed

lemma bt709_close:
  assumes "0 \<le> y" "y \<le> 239" "- 128 \<le> u" "u \<le> 127" "- 128 \<le> v" "v \<le> 127"
  shows "\<bar>of_int (bt709_r y v) - exact_r (of_int y) (of_int v)\<bar> < 1"
    "\<bar>of_int (bt709_g y u v) - exact_g (of_int y) (of_int u) (of_int v)\<bar> < 1"
    "\<bar>of_int (bt709_b y u) - exact_b (of_int y) (of_int u)\<bar> < 1"
proof -
  define Y U V :: rat where "Y = of_int y" "U = of_int u" "V = of_int v"
  have q: "0 \<le> Y" "Y \<le> 239" "- 128 \<le> U" "U \<le> 127" "- 128 \<le> V" "V \<le> 127"
    using assms by (simp_all add: Y_U_V_def)
  have "\<bar>of_int (bt709_r y v) - (298 * Y + 459 * V) / 256\<bar> \<le> 1 / 2"
    using shift_close [of "298 * y + 459 * v"] by (simp add: bt709_r_def Y_U_V_def)
  then have "\<bar>of_int (bt709_r y v) - exact_r Y V\<bar> < 1"
    unfolding exact_r_def abs_le_iff abs_less_iff using q by (auto simp: field_simps)
  then show "\<bar>of_int (bt709_r y v) - exact_r (of_int y) (of_int v)\<bar> < 1" by (simp add: Y_U_V_def)
  have "\<bar>of_int (bt709_g y u v) - (298 * Y - 55 * U - 136 * V) / 256\<bar> \<le> 1 / 2"
    using shift_close [of "298 * y - 55 * u - 136 * v"] by (simp add: bt709_g_def Y_U_V_def)
  then have "\<bar>of_int (bt709_g y u v) - exact_g Y U V\<bar> < 1"
    unfolding exact_g_def abs_le_iff abs_less_iff using q by (auto simp: field_simps)
  then show "\<bar>of_int (bt709_g y u v) - exact_g (of_int y) (of_int u) (of_int v)\<bar> < 1" by (simp add: Y_U_V_def)
  have "\<bar>of_int (bt709_b y u) - (298 * Y + 541 * U) / 256\<bar> \<le> 1 / 2"
    using shift_close [of "298 * y + 541 * u"] by (simp add: bt709_b_def Y_U_V_def)
  then have "\<bar>of_int (bt709_b y u) - exact_b Y U\<bar> < 1"
    unfolding exact_b_def abs_le_iff abs_less_iff using q by (auto simp: field_simps)
  then show "\<bar>of_int (bt709_b y u) - exact_b (of_int y) (of_int u)\<bar> < 1" by (simp add: Y_U_V_def)
qed

section \<open>The buffer of a sample\<close>

text \<open>What Media Foundation promises: a locked buffer holds what it says, a whole surface of the stream's
  format or \<open>max_length\<close> bytes.\<close>

definition row_bytes :: "subtype \<Rightarrow> int" where
  "row_bytes subtype = (if subtype = RGB32 then 5120 else 1280)"

definition row_count :: "subtype \<Rightarrow> int" where
  "row_count subtype = (if subtype = RGB32 then 720 else 1080)"

definition buffer_ok :: "subtype \<Rightarrow> buffer \<Rightarrow> bool" where
  "buffer_ok subtype buffer \<longleftrightarrow>
     (case buffer of
        Buffer2D _ (Some row0) pitch b _ \<Rightarrow>
          row_bytes subtype \<le> \<bar>pitch\<bar> \<longrightarrow> rows_inside row0 pitch (row_count subtype) (row_bytes subtype) b
      | Linear _ (Some d) maxLength b _ \<Rightarrow> 0 \<le> d \<and> d + maxLength \<le> int (length b)
      | _ \<Rightarrow> True)"

text \<open>Where the rows of a buffer begin, and how far apart they are.\<close>

definition first_row :: "buffer \<Rightarrow> int" where
  "first_row buffer = (case buffer of Buffer2D _ (Some row0) _ _ _ \<Rightarrow> row0 | Linear _ (Some d) _ _ _ \<Rightarrow> d | _ \<Rightarrow> 0)"

definition row_pitch :: "subtype \<Rightarrow> buffer \<Rightarrow> int" where
  "row_pitch subtype buffer = (case buffer of Buffer2D _ _ pitch _ _ \<Rightarrow> pitch | Linear _ _ _ _ _ \<Rightarrow> row_bytes subtype)"

definition frame_written :: "subtype \<Rightarrow> bytes \<Rightarrow> int \<Rightarrow> int \<Rightarrow> bytes \<Rightarrow> bool" where
  "frame_written subtype src row0 pitch b \<longleftrightarrow>
     (if subtype = RGB32
      then \<forall>y \<in> {0..<720}. \<forall>x \<in> {0..<1280}. let i = nat (row0 + y * pitch + x * 4)
        in (b ! i, b ! (i + 1), b ! (i + 2)) = pixel_bgr src y x \<and> b ! (i + 3) = 255
      else \<forall>y \<in> {0..<1080}. \<forall>x \<in> {0..<1280}. b ! nat (row0 + y * pitch + x) = src ! nat (y * 1280 + x))"

lemma writeRows_result:
  assumes "subtype = NV12 \<or> subtype = RGB32" "length src = 1382400"
    and "row_bytes subtype \<le> \<bar>pitch\<bar> \<Longrightarrow> rows_inside row0 pitch (row_count subtype) (row_bytes subtype) b"
  shows "\<exists>hr b'. writeRows subtype src (Some row0) pitch b = Some (hr, b') \<and> length b' = length b \<and>
    (if FAILED hr then \<bar>pitch\<bar> < row_bytes subtype else frame_written subtype src row0 pitch b')"
proof (cases "row_bytes subtype \<le> \<bar>pitch\<bar>")
  case False
  then have "pitch = 0 \<or> \<bar>pitch\<bar> < (if subtype = RGB32 then kWidth * 4 else kWidth)" by (auto simp: row_bytes_def sizes)
  then show ?thesis using False by (simp add: writeRows_def Let_def FAILED_def)
next
  case True
  then have p: "\<not> (pitch = 0 \<or> \<bar>pitch\<bar> < (if subtype = RGB32 then kWidth * 4 else kWidth))"
    by (auto simp: row_bytes_def sizes split: if_splits)
  note ins = assms(3) [OF True]
  show ?thesis
  proof (cases "subtype = RGB32")
    case rgb: True
    have "rows_inside row0 pitch 720 5120 b" using ins by (simp add: rgb row_bytes_def row_count_def)
    then obtain b' where "rgb_rows src row0 pitch b = Some b'" "length b' = length b"
      "\<And>y x. 0 \<le> y \<Longrightarrow> y < 720 \<Longrightarrow> 0 \<le> x \<Longrightarrow> x < 1280 \<Longrightarrow> (let i = nat (row0 + y * pitch + x * 4)
        in (b' ! i, b' ! (i + 1), b' ! (i + 2)) = pixel_bgr src y x \<and> b' ! (i + 3) = 255)"
      using rgb_rows_result [OF _ assms(2)] by blast
    then show ?thesis using p by (auto simp: writeRows_def rgb frame_written_def FAILED_def)
  next
    case nv: False
    then have nv: "subtype = NV12" using assms(1) by simp
    have "rows_inside row0 pitch 1080 1280 b" using ins by (simp add: nv row_bytes_def row_count_def)
    then obtain b' where "nv12_rows src row0 pitch b = Some b'" "length b' = length b"
      "\<And>y x. 0 \<le> y \<Longrightarrow> y < 1080 \<Longrightarrow> 0 \<le> x \<Longrightarrow> x < 1280 \<Longrightarrow> b' ! nat (row0 + y * pitch + x) = src ! nat (y * 1280 + x)"
      using nv12_rows_result [OF _ assms(2)] by blast
    then show ?thesis using p by (auto simp: writeRows_def nv frame_written_def FAILED_def)
  qed
qed

lemma linear_rows:
  assumes "subtype = NV12 \<or> subtype = RGB32" "0 \<le> d" "d + out_bytes subtype \<le> int (length b)"
  shows "rows_inside d (row_bytes subtype) (row_count subtype) (row_bytes subtype) b"
proof -
  have n: "row_count subtype * row_bytes subtype = out_bytes subtype" "0 < row_bytes subtype"
    using assms(1) by (auto simp: row_count_def row_bytes_def out_bytes_def sizes)
  have "d + y * row_bytes subtype + row_bytes subtype \<le> int (length b)" if "y < row_count subtype" for y
  proof -
    have "(y + 1) * row_bytes subtype \<le> row_count subtype * row_bytes subtype" using that n(2) by (intro mult_right_mono) simp_all
    then show ?thesis using assms(3) n(1) by (simp add: distrib_right)
  qed
  then show ?thesis using assms(2) n(2) by (simp add: rows_inside_def)
qed

lemma write_buffer_result:
  assumes "subtype = NV12 \<or> subtype = RGB32" "length src = 1382400" "buffer_ok subtype buffer"
  shows "\<exists>hr b. write_buffer subtype src buffer = Some (hr, b) \<and>
    (\<not> FAILED hr \<longrightarrow> frame_written subtype src (first_row buffer) (row_pitch subtype buffer) b)"
proof (cases buffer)
  case (Buffer2D lockHr row0 pitch b unlockHr)
  show ?thesis
  proof (cases row0)
    case None
    then show ?thesis by (simp add: Buffer2D write_buffer_def writeRows_def Let_def unlocked_def FAILED_def)
  next
    case (Some r)
    have "row_bytes subtype \<le> \<bar>pitch\<bar> \<Longrightarrow> rows_inside r pitch (row_count subtype) (row_bytes subtype) b"
      using assms(3) by (simp add: buffer_ok_def Buffer2D Some)
    from writeRows_result [OF assms(1,2) this] obtain hr b' where
      "writeRows subtype src (Some r) pitch b = Some (hr, b')" "\<not> FAILED hr \<Longrightarrow> frame_written subtype src r pitch b'"
      by (metis (full_types))
    then show ?thesis by (simp add: Buffer2D Some write_buffer_def unlocked_def first_row_def row_pitch_def FAILED_def)
  qed
next
  case (Linear lockHr dest maxLength b unlockHr)
  show ?thesis
  proof (cases dest)
    case None
    then show ?thesis by (simp add: Linear write_buffer_def writeRows_def Let_def unlocked_def FAILED_def)
  next
    case (Some d)
    show ?thesis
    proof (cases "maxLength < out_bytes subtype")
      case True
      then show ?thesis by (simp add: Linear write_buffer_def FAILED_def)
    next
      case False
      then have "rows_inside d (row_bytes subtype) (row_count subtype) (row_bytes subtype) b"
        using linear_rows [OF assms(1), of d b] assms(3) by (simp add: buffer_ok_def Linear Some)
      from writeRows_result [OF assms(1,2) this] obtain hr b' where
        w: "writeRows subtype src (Some d) (row_bytes subtype) b = Some (hr, b')" "\<not> FAILED hr \<Longrightarrow> frame_written subtype src d (row_bytes subtype) b'"
        by (metis (full_types))
      have "(if subtype = RGB32 then kWidth * 4 else kWidth) = row_bytes subtype" by (simp add: row_bytes_def sizes)
      then show ?thesis using w
        by (simp add: Linear Some write_buffer_def unlocked_def first_row_def row_pitch_def FAILED_def)
    qed
  qed
qed

definition answers_ok :: "Stream \<Rightarrow> SampleAnswers \<Rightarrow> bool" where
  "answers_ok s a \<longleftrightarrow> buffer_ok (st_subtype s) (sa_buffer a) \<and> (case sa_frame a of None \<Rightarrow> True | Some f \<Rightarrow> length f = 1382400)"

definition stream_formats :: "Stream \<Rightarrow> bool" where
  "stream_formats s \<longleftrightarrow> (st_subtype s = NV12 \<or> st_subtype s = RGB32) \<and> TestPatternGenerator_init = Some (st_pattern s)"

lemma source_pixels_result:
  assumes "answers_ok s a" "stream_formats s"
  obtains src scratch where "source_pixels a s = Some (src, s\<lparr>st_scratch := scratch\<rparr>)" "length src = 1382400"
    "\<And>f. sa_frame a = Some f \<Longrightarrow> src = f"
proof (cases "sa_frame a")
  case (Some f)
  have "source_pixels a s = Some (f, s\<lparr>st_scratch := st_scratch s\<rparr>)" "length f = 1382400"
    using assms(1) Some by (simp_all add: source_pixels_def answers_ok_def)
  then show thesis by (rule that) (simp add: Some)
next
  case None
  let ?i = "of_int (cdiv (sa_fallbackTime a * uint (if st_fps s = 0 then 60 else st_fps s)) 10000000) :: u64"
  have "TestPatternGenerator_init = Some (st_pattern s)" using assms(2) by (simp add: stream_formats_def)
  then obtain f where "GenerateFrame (st_pattern s) (st_scratch s) ?i = Some f" "int (length f) = kPayloadBytes"
    by (rule GenerateFrame_luma)
  moreover have "source_pixels a s = map_option (\<lambda>f. (f, s\<lparr>st_scratch := f\<rparr>)) (GenerateFrame (st_pattern s) (st_scratch s) ?i)"
    unfolding source_pixels_def Let_def by (simp only: None option.case)
  ultimately have "source_pixels a s = Some (f, s\<lparr>st_scratch := f\<rparr>)" "length f = 1382400" by (simp_all add: sizes)
  then show thesis by (rule that) (simp add: None)
qed

definition sample_ok :: "SampleAnswers \<Rightarrow> Stream \<Rightarrow> Sample \<Rightarrow> bool" where
  "sample_ok a s sample \<longleftrightarrow>
     (case sp_content sample of
        Texture slot \<Rightarrow> st_subtype s = NV12 \<and> st_d3d s \<and> sa_texture a \<and> slot = sa_slot a
      | Memory b n \<Rightarrow> n = out_bytes (st_subtype s) \<and>
          (case sa_frame a of
             None \<Rightarrow> True
           | Some f \<Rightarrow> frame_written (st_subtype s) f (first_row (sa_buffer a)) (row_pitch (st_subtype s) (sa_buffer a)) b))"

lemma new_sample_result:
  obtains sample where "new_sample c now s = (sample, s\<lparr>st_sampleIndex := st_sampleIndex s + 1\<rparr>)" "sp_content sample = c" "sp_time sample = now"
    "sp_discontinuity sample \<longleftrightarrow> st_sampleIndex s + 1 = 1"
  by (rule that [of "fst (new_sample c now s)"]) (simp_all add: new_sample_def Let_def)

lemma CreateVideoSample_result:
  assumes "answers_ok s a" "stream_formats s"
  obtains (failed) hr scratch where "CreateVideoSample a s = Some (hr, None, s\<lparr>st_scratch := scratch\<rparr>)" "FAILED hr"
  | (made) sample scratch where
      "CreateVideoSample a s = Some (S_OK, Some sample, s\<lparr>st_scratch := scratch, st_sampleIndex := st_sampleIndex s + 1\<rparr>)"
      "sample_ok a s sample" "sp_time sample = sa_now a" "sp_discontinuity sample \<longleftrightarrow> st_sampleIndex s + 1 = 1"
proof (cases "st_subtype s = NV12 \<and> st_d3d s \<and> sa_texture a \<and> sa_surface a \<and> sa_gpuSample a")
  case True
  obtain sample where "new_sample (Texture (sa_slot a)) (sa_now a) s = (sample, s\<lparr>st_sampleIndex := st_sampleIndex s + 1\<rparr>)"
    "sp_content sample = Texture (sa_slot a)" "sp_time sample = sa_now a" "sp_discontinuity sample \<longleftrightarrow> st_sampleIndex s + 1 = 1"
    by (rule new_sample_result)
  moreover have "s\<lparr>st_scratch := st_scratch s, st_sampleIndex := i\<rparr> = s\<lparr>st_sampleIndex := i\<rparr>" for i by simp
  ultimately show thesis using made [of sample "st_scratch s"] True by (simp add: CreateVideoSample_def sample_ok_def)
next
  case False
  obtain src scratch where src: "source_pixels a s = Some (src, s\<lparr>st_scratch := scratch\<rparr>)" "length src = 1382400"
    "\<And>f. sa_frame a = Some f \<Longrightarrow> src = f" using source_pixels_result [OF assms] by blast
  obtain hr b where w: "write_buffer (st_subtype s) src (sa_buffer a) = Some (hr, b)"
    "\<not> FAILED hr \<Longrightarrow> frame_written (st_subtype s) src (first_row (sa_buffer a)) (row_pitch (st_subtype s) (sa_buffer a)) b"
    using write_buffer_result [OF _ src(2), of "st_subtype s" "sa_buffer a"] assms by (auto simp: answers_ok_def stream_formats_def)
  obtain sample where n: "new_sample (Memory b (out_bytes (st_subtype s))) (sa_now a) (s\<lparr>st_scratch := scratch\<rparr>) =
      (sample, s\<lparr>st_scratch := scratch, st_sampleIndex := st_sampleIndex s + 1\<rparr>)"
    "sp_content sample = Memory b (out_bytes (st_subtype s))" "sp_time sample = sa_now a" "sp_discontinuity sample \<longleftrightarrow> st_sampleIndex s + 1 = 1"
    by (rule new_sample_result [of "Memory b (out_bytes (st_subtype s))" "sa_now a" "s\<lparr>st_scratch := scratch\<rparr>"]) simp
  have C: "CreateVideoSample a s =
     (if FAILED (first_failure (sa_calls a)) then Some (first_failure (sa_calls a), None, s\<lparr>st_scratch := scratch\<rparr>)
      else if FAILED hr then Some (hr, None, s\<lparr>st_scratch := scratch\<rparr>)
      else Some (S_OK, Some sample, s\<lparr>st_scratch := scratch, st_sampleIndex := st_sampleIndex s + 1\<rparr>))"
    unfolding CreateVideoSample_def if_not_P [OF False] by (simp add: src(1) w(1) n(1))
  consider "FAILED (first_failure (sa_calls a))" | "\<not> FAILED (first_failure (sa_calls a))" "FAILED hr"
    | "\<not> FAILED (first_failure (sa_calls a))" "\<not> FAILED hr" by blast
  then show thesis
  proof cases
    case 1
    then have "CreateVideoSample a s = Some (first_failure (sa_calls a), None, s\<lparr>st_scratch := scratch\<rparr>)" using C by simp
    then show thesis using 1 by (rule failed)
  next
    case 2
    then have "CreateVideoSample a s = Some (hr, None, s\<lparr>st_scratch := scratch\<rparr>)" using C by simp
    then show thesis using 2(2) by (rule failed)
  next
    case 3
    have ok: "sample_ok a s sample" using w(2) [OF 3(2)] src(3) by (auto simp: sample_ok_def n(2) split: option.split)
    have "CreateVideoSample a s = Some (S_OK, Some sample, s\<lparr>st_scratch := scratch, st_sampleIndex := st_sampleIndex s + 1\<rparr>)"
      using C 3 by simp
    then show thesis using ok n(3,4) by (rule made)
  qed
qed

section \<open>Reachable states\<close>

text \<open>\<open>strict\<close>: the event queue takes the announcement that the stream has started.\<close>

inductive stream_reachable :: "bool \<Rightarrow> Stream \<Rightarrow> bool" for strict where
  init: "TestPatternGenerator_init = Some pattern \<Longrightarrow> stream_reachable strict (stream_init pattern)"
| delivery: "stream_reachable strict s \<Longrightarrow> answers_ok s a \<Longrightarrow> stream_reachable strict (DeliveryThread_step woke a s)"
| request: "stream_reachable strict s \<Longrightarrow> stream_reachable strict (snd (RequestSample token s))"
| client_event: "stream_reachable strict s \<Longrightarrow> stream_reachable strict (snd (ms_QueueEvent answer s))"
| media_type: "stream_reachable strict s \<Longrightarrow> stream_reachable strict (snd (ms_SetMediaType type s))"
| allocator: "stream_reachable strict s \<Longrightarrow> stream_reachable strict (snd (ms_SetSampleAllocator given answer s))"
| d3d: "stream_reachable strict s \<Longrightarrow> stream_reachable strict (snd (ms_SetD3DManager given device s))"
| start: "stream_reachable strict s \<Longrightarrow> st_pc s = CtIdle \<Longrightarrow> queued \<or> \<not> strict \<Longrightarrow> stream_reachable strict (ms_Start queued now s)"
| stop: "stream_reachable strict s \<Longrightarrow> st_pc s = CtIdle \<Longrightarrow> stream_reachable strict (ms_Stop s)"
| pause: "stream_reachable strict s \<Longrightarrow> st_pc s = CtIdle \<Longrightarrow> stream_reachable strict (ms_Pause queued s)"
| shutdown: "stream_reachable strict s \<Longrightarrow> st_pc s = CtIdle \<Longrightarrow> stream_reachable strict (ms_Shutdown s)"
| set_state: "stream_reachable strict s \<Longrightarrow> st_pc s = CtIdle \<Longrightarrow> queued \<or> \<not> strict \<Longrightarrow>
    stream_reachable strict (SetStreamState state queued now s)"
| control: "stream_reachable strict s \<Longrightarrow> stream_reachable strict (control_next queued s)"

text \<open>The tokens of the samples, and the order of the events: a sample only between a start and the next
  pause or stop.\<close>

definition tokens :: "stream_event list \<Rightarrow> nat option list" where
  "tokens es = concat (map (\<lambda>e. case e of MediaSample p \<Rightarrow> [sp_token p] | _ \<Rightarrow> []) es)"

fun flowing :: "bool \<Rightarrow> stream_event list \<Rightarrow> bool" where
  "flowing f [] = f"
| "flowing f (e # es) = flowing (case e of StreamStarted \<Rightarrow> True | StreamPaused \<Rightarrow> False | StreamStopped \<Rightarrow> False | _ \<Rightarrow> f) es"

fun in_order :: "bool \<Rightarrow> stream_event list \<Rightarrow> bool" where
  "in_order f [] = True"
| "in_order f (e # es) \<longleftrightarrow> (case e of MediaSample _ \<Rightarrow> f | _ \<Rightarrow> True) \<and>
     in_order (case e of StreamStarted \<Rightarrow> True | StreamPaused \<Rightarrow> False | StreamStopped \<Rightarrow> False | _ \<Rightarrow> f) es"

lemma flowing_append: "flowing f (es @ ds) = flowing (flowing f es) ds"
  by (induction es arbitrary: f) auto

lemma in_order_append: "in_order f (es @ ds) \<longleftrightarrow> in_order f es \<and> in_order (flowing f es) ds"
  by (induction es arbitrary: f) auto

lemma tokens_append: "tokens (es @ ds) = tokens es @ tokens ds"
  by (simp add: tokens_def)

lemma tokens_simps [simp]:
  "tokens [] = []" "tokens [MediaSample p] = [sp_token p]" "tokens [StreamStarted] = []" "tokens [StreamPaused] = []"
  "tokens [StreamStopped] = []" "tokens [ClientEvent] = []"
  by (simp_all add: tokens_def)

text \<open>The thread object is joinable exactly while \<open>isDeliveryRunning_\<close> is set, but for the calls that are
  about to join it.\<close>

definition thread_ok :: "Stream \<Rightarrow> bool" where
  "thread_ok s \<longleftrightarrow> \<not> st_fault s \<and>
     (case st_pc s of
        CtWake _ \<Rightarrow> \<not> st_running s | CtJoin _ \<Rightarrow> \<not> st_running s | CtFinish _ \<Rightarrow> \<not> st_running s \<and> st_thread s = None
      | _ \<Rightarrow> st_running s \<longleftrightarrow> st_thread s \<noteq> None)"

definition requests_ok :: "Stream \<Rightarrow> bool" where
  "requests_ok s \<longleftrightarrow> subseq (tokens (st_log s) @ st_requests s) (st_asked s)"

definition halted :: "ending \<Rightarrow> bool \<Rightarrow> bool \<Rightarrow> bool" where
  "halted e started down \<longleftrightarrow> \<not> started \<and> (e = ByShutdown \<longrightarrow> down)"

definition events_ok :: "Stream \<Rightarrow> bool" where
  "events_ok s \<longleftrightarrow> in_order False (st_log s) \<and> (st_started s \<and> \<not> st_shutdown s \<longrightarrow> flowing False (st_log s)) \<and>
     (case st_pc s of
        CtClear e \<Rightarrow> halted e (st_started s) (st_shutdown s)
      | CtWake e \<Rightarrow> halted e (st_started s) (st_shutdown s)
      | CtJoin e \<Rightarrow> halted e (st_started s) (st_shutdown s)
      | CtFinish e \<Rightarrow> halted e (st_started s) (st_shutdown s)
      | _ \<Rightarrow> True) \<and>
     (st_shutdown s \<or> st_queue s)"

text \<open>What each step does to the parts the invariants speak of.\<close>

lemma push_event_fields [simp]:
  "st_started (push_event q e s) = st_started s" "st_shutdown (push_event q e s) = st_shutdown s" "st_requests (push_event q e s) = st_requests s"
  "st_wake (push_event q e s) = st_wake s" "st_running (push_event q e s) = st_running s" "st_thread (push_event q e s) = st_thread s"
  "st_queue (push_event q e s) = st_queue s" "st_subtype (push_event q e s) = st_subtype s" "st_pattern (push_event q e s) = st_pattern s"
  "st_pc (push_event q e s) = st_pc s" "st_asked (push_event q e s) = st_asked s" "st_fault (push_event q e s) = st_fault s"
  "st_log (push_event q e s) = st_log s @ (if q \<and> st_queue s then [e] else [])"
  by (simp_all add: push_event_def)

lemma sample_ok_token [simp]: "sample_ok a (s\<lparr>st_requests := rest\<rparr>) (p\<lparr>sp_token := t\<rparr>) = sample_ok a s p"
  by (cases "sp_content p"; cases "sa_frame a") (simp_all add: sample_ok_def)

lemma sample_ok_requests [simp]: "sample_ok a (s\<lparr>st_requests := rest\<rparr>) p = sample_ok a s p"
  by (cases "sp_content p"; cases "sa_frame a") (simp_all add: sample_ok_def)

text \<open>The outcome of \<open>DeliverSamples\<close>: nothing, a request that is dropped, or a sample.\<close>

lemma DeliverSamples_cases:
  assumes "answers_ok s a" "stream_formats s"
  obtains (idle) "DeliverSamples a s = (S_OK, s)"
  | (dropped) token rest hr scratch where "st_started s" "\<not> st_shutdown s" "st_requests s = token # rest" "FAILED hr"
      "DeliverSamples a s = (hr, s\<lparr>st_requests := rest, st_scratch := scratch\<rparr>)"
  | (served) token rest sample scratch where "st_started s" "\<not> st_shutdown s" "st_requests s = token # rest"
      "sample_ok a s sample" "sp_token sample = token" "sp_time sample = sa_now a" "sp_discontinuity sample \<longleftrightarrow> st_sampleIndex s + 1 = 1"
      "DeliverSamples a s = (sa_queued a, push_event (\<not> FAILED (sa_queued a)) (MediaSample sample)
         (s\<lparr>st_requests := rest, st_scratch := scratch, st_sampleIndex := st_sampleIndex s + 1\<rparr>))"
proof (cases "st_shutdown s \<or> \<not> st_started s \<or> st_requests s = []")
  case True
  then have "DeliverSamples a s = (S_OK, s)" by (auto simp: DeliverSamples_def)
  then show thesis by (rule idle)
next
  case False
  then obtain token rest where r: "st_requests s = token # rest" and on: "st_started s" "\<not> st_shutdown s" by (cases "st_requests s") auto
  let ?s = "s\<lparr>st_requests := rest\<rparr>"
  have ok: "answers_ok ?s a" "stream_formats ?s" using assms by (simp_all add: answers_ok_def stream_formats_def)
  have D: "DeliverSamples a s = (case CreateVideoSample a ?s of None \<Rightarrow> (S_OK, s\<lparr>st_fault := True\<rparr>)
     | Some (hr, None, s1) \<Rightarrow> (hr, s1)
     | Some (hr, Some p, s1) \<Rightarrow> (sa_queued a, push_event (\<not> FAILED (sa_queued a)) (MediaSample (p\<lparr>sp_token := token\<rparr>)) s1))"
    using on r by (simp add: DeliverSamples_def)
  from ok show thesis
  proof (cases rule: CreateVideoSample_result)
    case (failed hr scratch)
    have "DeliverSamples a s = (hr, s\<lparr>st_requests := rest, st_scratch := scratch\<rparr>)" unfolding D failed(1) by simp
    with on r failed(2) show thesis by (rule dropped)
  next
    case (made sample scratch)
    have "sample_ok a s (sample\<lparr>sp_token := token\<rparr>)"
      using made(2) sample_ok_token [where rest = "st_requests s" and s = s and a = a and p = sample and t = token] by simp
    moreover have "DeliverSamples a s = (sa_queued a, push_event (\<not> FAILED (sa_queued a)) (MediaSample (sample\<lparr>sp_token := token\<rparr>))
         (s\<lparr>st_requests := rest, st_scratch := scratch, st_sampleIndex := st_sampleIndex s + 1\<rparr>))"
      unfolding D made(1) by simp
    ultimately show thesis using on r made(3,4) by (intro served [of token rest "sample\<lparr>sp_token := token\<rparr>"]) simp_all
  qed
qed

text \<open>One step of the delivery thread, seen from outside.\<close>

definition inv_stream :: "bool \<Rightarrow> Stream \<Rightarrow> bool" where
  "inv_stream strict s \<longleftrightarrow> stream_formats s \<and> thread_ok s \<and> requests_ok s \<and> (strict \<longrightarrow> events_ok s)"

lemma inv_thread:
  assumes "inv_stream strict s" "st_thread s = Some t"
  shows "inv_stream strict (s\<lparr>st_thread := Some t'\<rparr>)" "inv_stream strict (s\<lparr>st_wake := w, st_thread := Some t'\<rparr>)"
  using assms by (auto simp: inv_stream_def stream_formats_def thread_ok_def requests_ok_def events_ok_def split: control_pc.splits)

lemma inv_deliver:
  assumes "inv_stream strict s" "answers_ok s a"
  shows "inv_stream strict (snd (DeliverSamples a s))" "st_thread (snd (DeliverSamples a s)) = st_thread s"
proof -
  have f: "stream_formats s" using assms(1) by (simp add: inv_stream_def)
  have both: "inv_stream strict (snd (DeliverSamples a s)) \<and> st_thread (snd (DeliverSamples a s)) = st_thread s"
    using assms(2) f
  proof (cases rule: DeliverSamples_cases)
    case idle
    then show ?thesis using assms(1) by simp
  next
    case (dropped token rest hr scratch)
    have "subseq (tokens (st_log s) @ rest) (st_asked s)"
      using assms(1) dropped(3) subseq_append' [of "[]" "[token]"] by (auto simp: inv_stream_def requests_ok_def intro: subseq_order.trans [rotated] list_emb_append_mono)
    then show ?thesis using assms(1) dropped
      by (auto simp: inv_stream_def stream_formats_def thread_ok_def requests_ok_def events_ok_def split: control_pc.splits)
  next
    case (served token rest sample scratch)
    have q: "subseq (tokens (st_log s) @ token # rest) (st_asked s)" using assms(1) served(3) by (simp add: inv_stream_def requests_ok_def)
    then have "subseq (tokens (st_log s) @ rest) (st_asked s)"
      by (auto intro: subseq_order.trans [rotated] list_emb_append_mono)
    then have "requests_ok (snd (DeliverSamples a s))" using q served(5) by (simp add: served(8) requests_ok_def tokens_append)
    moreover have "events_ok (snd (DeliverSamples a s))" if "events_ok s"
      using that served(1,2) by (auto simp: served(8) events_ok_def in_order_append flowing_append split: control_pc.splits)
    ultimately show ?thesis using assms(1)
      by (cases "st_pc s") (simp_all add: served(8) inv_stream_def stream_formats_def thread_ok_def)
  qed
  then show "inv_stream strict (snd (DeliverSamples a s))" "st_thread (snd (DeliverSamples a s)) = st_thread s" by simp_all
qed

lemma inv_delivery_step:
  assumes "inv_stream strict s" "answers_ok s a"
  shows "inv_stream strict (DeliveryThread_step woke a s)"
proof (cases "st_thread s")
  case None
  then show ?thesis using assms by (simp add: DeliveryThread_step_def)
next
  case (Some t)
  show ?thesis
  proof (cases t)
    case DtDeliver
    then show ?thesis using inv_thread(1) [OF inv_deliver(1) [OF assms], of DtDeliver DtLoop] inv_deliver(2) [OF assms] Some
      by (simp add: DeliveryThread_step_def)
  qed (use Some assms(1) inv_thread [OF assms(1) Some] in \<open>simp_all add: DeliveryThread_step_def\<close>)
qed

lemmas stream_calls = RequestSample_def ms_QueueEvent_def ms_SetMediaType_def ms_SetSampleAllocator_def ms_SetD3DManager_def

lemma inv_client:
  assumes "inv_stream strict s"
  shows "inv_stream strict (snd (RequestSample token s))" "inv_stream strict (snd (ms_QueueEvent answer s))"
    "inv_stream strict (snd (ms_SetSampleAllocator given answer s))" "inv_stream strict (snd (ms_SetD3DManager given device s))"
proof -
  have q: "subseq (tokens (st_log s) @ st_requests s @ [token]) (st_asked s @ [token])"
    using assms list_emb_append_mono [of "(=)" "tokens (st_log s) @ st_requests s" "st_asked s" "[token]" "[token]"]
    by (simp add: inv_stream_def requests_ok_def)
  show "inv_stream strict (snd (RequestSample token s))"
    using assms q by (cases "st_pc s") (auto simp: RequestSample_def inv_stream_def stream_formats_def thread_ok_def requests_ok_def events_ok_def halted_def)
  have "inv_stream strict (push_event q ClientEvent s)" for q
    using assms by (cases "st_pc s"; cases "q \<and> st_queue s") (simp_all add: inv_stream_def stream_formats_def thread_ok_def requests_ok_def
      events_ok_def in_order_append flowing_append tokens_append)
  then show "inv_stream strict (snd (ms_QueueEvent answer s))" using assms by (simp add: ms_QueueEvent_def)
  have "inv_stream strict (s\<lparr>st_allocator := True\<rparr>)" "inv_stream strict (s\<lparr>st_d3d := True\<rparr>)"
    using assms by (cases "st_pc s"; simp add: inv_stream_def stream_formats_def thread_ok_def requests_ok_def events_ok_def)+
  then show "inv_stream strict (snd (ms_SetSampleAllocator given answer s))" "inv_stream strict (snd (ms_SetD3DManager given device s))"
    using assms by (simp_all add: ms_SetSampleAllocator_def ms_SetD3DManager_def)
qed

lemma inv_media_type: "inv_stream strict s \<Longrightarrow> inv_stream strict (snd (ms_SetMediaType type s))"
proof -
  assume inv: "inv_stream strict s"
  have k: "inv_stream strict (s\<lparr>st_fps := f\<rparr>)" for f
    using inv by (cases "st_pc s") (simp_all add: inv_stream_def stream_formats_def thread_ok_def requests_ok_def events_ok_def halted_def)
  have t: "inv_stream strict (r\<lparr>st_subtype := u\<rparr>)" if "inv_stream strict r" "u = NV12 \<or> u = RGB32" for r u
    using that by (cases "st_pc r") (simp_all add: inv_stream_def stream_formats_def thread_ok_def requests_ok_def events_ok_def halted_def)
  show "inv_stream strict (snd (ms_SetMediaType type s))"
    using inv k t by (auto simp: ms_SetMediaType_def Let_def split: option.split prod.split)
qed

lemma inv_start:
  assumes "inv_stream strict s" "st_pc s = CtIdle" "queued \<or> \<not> strict"
  shows "inv_stream strict (ms_Start queued now s)"
  using assms by (auto simp: ms_Start_def inv_stream_def stream_formats_def thread_ok_def requests_ok_def events_ok_def
    in_order_append flowing_append tokens_append halted_def)

lemma subseq_prefix: "subseq (xs @ ys) zs \<Longrightarrow> subseq xs zs"
  by (rule subseq_order.trans [of xs "xs @ ys"]) (simp_all add: prefix_imp_subseq)

lemma inv_halt:
  assumes "inv_stream strict s" "st_pc s = CtIdle"
  shows "inv_stream strict (ms_Stop s)" "inv_stream strict (ms_Shutdown s)" "inv_stream strict (ms_Pause queued s)"
  using assms subseq_prefix [of "tokens (st_log s)" "st_requests s" "st_asked s"]
  by (auto simp: ms_Stop_def ms_Shutdown_def ms_Pause_def inv_stream_def stream_formats_def thread_ok_def requests_ok_def events_ok_def
    in_order_append flowing_append tokens_append halted_def)

lemma inv_set_state:
  assumes "inv_stream strict s" "st_pc s = CtIdle" "queued \<or> \<not> strict"
  shows "inv_stream strict (SetStreamState state queued now s)"
  using assms subseq_prefix [of "tokens (st_log s)" "st_requests s" "st_asked s"]
  by (cases state) (auto simp: SetStreamState_def Let_def inv_stream_def stream_formats_def thread_ok_def requests_ok_def events_ok_def
    in_order_append flowing_append tokens_append halted_def)

lemma inv_control:
  assumes "inv_stream strict s"
  shows "inv_stream strict (control_next queued s)"
proof (cases "st_pc s")
  case (CtJoin e)
  then show ?thesis using assms by (cases "st_thread s"; cases "the (st_thread s)")
    (auto simp: control_steps inv_stream_def stream_formats_def thread_ok_def requests_ok_def events_ok_def halted_def)
next
  case (CtFinish e)
  then show ?thesis using assms by (cases e) (auto simp: control_steps inv_stream_def stream_formats_def thread_ok_def
    requests_ok_def events_ok_def in_order_append flowing_append tokens_append halted_def)
qed (use assms in \<open>auto simp: control_steps inv_stream_def stream_formats_def thread_ok_def
  requests_ok_def events_ok_def\<close>)

lemma reachable_inv: "stream_reachable strict s \<Longrightarrow> inv_stream strict s"
proof (induction rule: stream_reachable.induct)
  case (init pattern)
  then show ?case by (simp add: stream_init_def inv_stream_def stream_formats_def thread_ok_def requests_ok_def events_ok_def halted_def)
qed (simp_all add: inv_delivery_step inv_client inv_media_type inv_start inv_halt inv_set_state inv_control)

section \<open>Serving a request\<close>

lemma linear_write:
  assumes "subtype = NV12 \<or> subtype = RGB32" "length src = 1382400" "0 \<le> d" "d + maxLength \<le> int (length b)" "out_bytes subtype \<le> maxLength"
  obtains b' where "write_buffer subtype src (Linear S_OK (Some d) maxLength b S_OK) = Some (S_OK, b')"
    "frame_written subtype src d (row_bytes subtype) b'"
proof -
  have r: "rows_inside d (row_bytes subtype) (row_count subtype) (row_bytes subtype) b"
    by (rule linear_rows) (use assms in linarith)+
  obtain hr b' where w: "writeRows subtype src (Some d) (row_bytes subtype) b = Some (hr, b')"
    "if FAILED hr then \<bar>row_bytes subtype\<bar> < row_bytes subtype else frame_written subtype src d (row_bytes subtype) b'"
    using writeRows_result [OF assms(1,2) r] by blast
  have "\<not> FAILED hr" using w(2) by (auto split: if_splits)
  moreover have "(if subtype = RGB32 then kWidth * 4 else kWidth) = row_bytes subtype" by (simp add: row_bytes_def sizes)
  ultimately show thesis using w assms(5) by (intro that [of b']) (simp_all add: write_buffer_def unlocked_def FAILED_def)
qed

text \<open>A pass of the delivery thread, from the loop's test to the delivery.\<close>

definition delivery_pass :: "SampleAnswers \<Rightarrow> Stream \<Rightarrow> Stream" where
  "delivery_pass a s = (DeliveryThread_step True a ^^ 4) s"

lemma delivery_pass_result:
  assumes "st_thread s = Some DtLoop" "st_running s" "\<not> st_wake s"
  shows "delivery_pass a s = (snd (DeliverSamples a (s\<lparr>st_thread := Some DtDeliver\<rparr>)))\<lparr>st_thread := Some DtLoop\<rparr>"
  using assms by (simp add: delivery_pass_def eval_nat_numeral DeliveryThread_step_def)

lemma DeliverSamples_linear:
  assumes "stream_formats s" "st_started s" "\<not> st_shutdown s" "st_requests s = token # rest"
    and "sa_frame a = Some f" "length f = 1382400" "\<not> FAILED (first_failure (sa_calls a))" "\<not> sa_texture a"
    and "sa_buffer a = Linear S_OK (Some d) maxLength b S_OK" "0 \<le> d" "d + maxLength \<le> int (length b)" "out_bytes (st_subtype s) \<le> maxLength"
  obtains sample b' where
    "DeliverSamples a s = (sa_queued a, push_event (\<not> FAILED (sa_queued a)) (MediaSample sample)
       (s\<lparr>st_requests := rest, st_sampleIndex := st_sampleIndex s + 1\<rparr>))"
    "sp_token sample = token" "sp_time sample = sa_now a" "sp_discontinuity sample \<longleftrightarrow> st_sampleIndex s + 1 = 1"
    "sp_content sample = Memory b' (out_bytes (st_subtype s))" "frame_written (st_subtype s) f d (row_bytes (st_subtype s)) b'"
proof -
  obtain b' where w: "write_buffer (st_subtype s) f (sa_buffer a) = Some (S_OK, b')" "frame_written (st_subtype s) f d (row_bytes (st_subtype s)) b'"
    using linear_write [OF _ assms(6,10,11,12)] assms(1,9) unfolding stream_formats_def by metis
  let ?s = "s\<lparr>st_requests := rest\<rparr>"
  obtain p where n: "new_sample (Memory b' (out_bytes (st_subtype s))) (sa_now a) ?s = (p, ?s\<lparr>st_sampleIndex := st_sampleIndex s + 1\<rparr>)"
    "sp_content p = Memory b' (out_bytes (st_subtype s))" "sp_time p = sa_now a" "sp_discontinuity p \<longleftrightarrow> st_sampleIndex s + 1 = 1"
    by (rule new_sample_result [of "Memory b' (out_bytes (st_subtype s))" "sa_now a" ?s]) simp
  have "CreateVideoSample a ?s = Some (S_OK, Some p, ?s\<lparr>st_sampleIndex := st_sampleIndex s + 1\<rparr>)"
    unfolding CreateVideoSample_def source_pixels_def using assms(5,7,8) w(1) n(1) by (simp add: FAILED_def)
  then have "DeliverSamples a s = (sa_queued a, push_event (\<not> FAILED (sa_queued a)) (MediaSample (p\<lparr>sp_token := token\<rparr>))
       (?s\<lparr>st_sampleIndex := st_sampleIndex s + 1\<rparr>))"
    using assms(2-4) by (simp add: DeliverSamples_def)
  then show thesis by (rule that) (use n w(2) in simp_all)
qed

section \<open>Colours of a pixel\<close>

lemma clamp_close:
  fixes e :: rat
  assumes "\<bar>of_int n - e\<bar> < 1"
  shows "\<bar>of_int (uint (clamp_byte n 0 255)) - max 0 (min 255 e)\<bar> < 1"
proof -
  have "uint (clamp_byte n 0 255) = max 0 (min 255 n)"
    unfolding clamp_byte_def by (simp add: word_of_int_inverse [where 'a = 8] uint_word_of_int take_bit_int_eq_self)
  then show ?thesis using assms by (auto simp: max_def min_def abs_less_iff)
qed

section \<open>Properties\<close>

text \<open>C19: a client gets what it asked for, in order, and only while the stream runs. In every
  reachable state the tokens of the samples queued so far, followed by those that wait, are a subsequence
  of the tokens asked for, and each sample comes after a start with no pause or stop in between.\<close>

theorem stream_answers_in_order:
  assumes "stream_reachable True s"
  shows "subseq (tokens (st_log s) @ st_requests s) (st_asked s) \<and> in_order False (st_log s)"
  using reachable_inv [OF assms] by (simp add: inv_stream_def requests_ok_def events_ok_def)

definition demo_texture :: SampleAnswers where
  "demo_texture =
     \<lparr>sa_slot = 1, sa_texture = True, sa_surface = True, sa_gpuSample = True, sa_frame = None, sa_fallbackTime = 0, sa_calls = [],
      sa_buffer = Linear S_OK None 0 [] S_OK, sa_now = 5, sa_queued = S_OK\<rparr>"

definition demo_started :: "TestPatternGenerator \<Rightarrow> Stream" where
  "demo_started pattern =
     snd (RequestSample (Some 7) (control_next True (ms_Start True 0 (snd (ms_SetD3DManager True True (stream_init pattern))))))"

lemma demo_started_reachable: "TestPatternGenerator_init = Some pattern \<Longrightarrow> stream_reachable strict (demo_started pattern)"
  unfolding demo_started_def
  by (intro stream_reachable.request stream_reachable.control stream_reachable.start stream_reachable.d3d stream_reachable.init)
    (simp_all add: stream_init_def ms_SetD3DManager_def)

lemmas demo_stream = demo_started_def stream_init_def ms_SetD3DManager_def ms_Start_def RequestSample_def control_steps push_event_def

lemma demo_started_fields:
  "st_thread (demo_started pattern) = Some DtLoop" "st_running (demo_started pattern)" "\<not> st_wake (demo_started pattern)"
  "st_started (demo_started pattern)" "\<not> st_shutdown (demo_started pattern)" "st_requests (demo_started pattern) = [Some 7]"
  "st_subtype (demo_started pattern) = NV12" "st_queue (demo_started pattern)" "st_log (demo_started pattern) = [StreamStarted]"
  "st_d3d (demo_started pattern)" "st_pc (demo_started pattern) = CtIdle"
  by (simp_all add: demo_stream)

lemma pattern_exists: "\<exists>pattern. TestPatternGenerator_init = Some pattern"
  by (rule bars_result) blast

lemma pass_reachable:
  assumes "stream_reachable strict s" "answers_ok s a" "st_thread s = Some DtLoop" "st_running s" "\<not> st_wake s"
  shows "stream_reachable strict (delivery_pass a s)"
proof -
  let ?s1 = "s\<lparr>st_thread := Some DtWait\<rparr>" and ?s2 = "s\<lparr>st_thread := Some (DtWoken False)\<rparr>" and ?s3 = "s\<lparr>st_thread := Some DtDeliver\<rparr>"
  have a: "answers_ok ?s1 a" "answers_ok ?s2 a" "answers_ok ?s3 a" using assms(2) by (simp_all add: answers_ok_def)
  have e: "DeliveryThread_step True a s = ?s1" "DeliveryThread_step True a ?s1 = ?s2" "DeliveryThread_step True a ?s2 = ?s3"
    using assms(3-5) by (simp_all add: DeliveryThread_step_def)
  have "stream_reachable strict (DeliveryThread_step True a ?s3)"
    using stream_reachable.delivery [OF stream_reachable.delivery [OF stream_reachable.delivery [OF stream_reachable.delivery
      [OF assms(1,2), of True], of a True] , of a True], of a True] a by (simp add: e)
  then show ?thesis by (simp add: delivery_pass_def eval_nat_numeral e)
qed

theorem stream_answers_in_order_witness:
  "\<exists>s :: Stream. tokens (st_log s) = [Some 7] \<and> subseq (tokens (st_log s) @ st_requests s) (st_asked s) \<and> in_order False (st_log s)"
proof -
  obtain pattern where p: "TestPatternGenerator_init = Some pattern" using pattern_exists by blast
  let ?s = "demo_started pattern"
  note f = demo_started_fields [of pattern]
  have r: "stream_reachable True (delivery_pass demo_texture ?s)"
    using pass_reachable [OF demo_started_reachable [OF p] _ f(1-3)] by (simp add: answers_ok_def buffer_ok_def demo_texture_def)
  have "tokens (st_log (delivery_pass demo_texture ?s)) = [Some 7]"
    unfolding delivery_pass_result [OF f(1-3)] DeliverSamples_def CreateVideoSample_def new_sample_def Let_def
    using f by (simp add: demo_texture_def tokens_append FAILED_def tokens_def)
  with stream_answers_in_order [OF r] show ?thesis by blast
qed




definition demo_linear :: SampleAnswers where
  "demo_linear = demo_texture\<lparr>sa_texture := False, sa_frame := Some (replicate 1382400 16),
     sa_buffer := Linear S_OK (Some 0) 1382400 (replicate 1382400 0) S_OK\<rparr>"


text \<open>A stop, a pause or a shutdown that has come to its join gets past it within two steps of the
  delivery thread, wherever that thread is.\<close>

theorem stream_join_returns:
  assumes "stream_reachable True s" "st_pc s = CtJoin e"
  shows "\<exists>n \<le> 2. st_pc (control_next queued ((DeliveryThread_step True a ^^ n) s)) = CtFinish e"
proof -
  have i: "\<not> st_running s" "\<not> st_started s"
    using reachable_inv [OF assms(1)] assms(2) by (simp_all add: inv_stream_def thread_ok_def events_ok_def halted_def)
  have "\<exists>n \<le> 2. let r = (DeliveryThread_step True a ^^ n) s in st_pc r = CtJoin e \<and> (st_thread r = None \<or> st_thread r = Some DtEnd)"
  proof (cases "st_thread s")
    case None
    then show ?thesis using assms(2) by (intro exI [of _ 0]) simp
  next
    case (Some t)
    then show ?thesis using i assms(2)
      by (cases t; intro exI [of _ "if t = DtEnd then 0 else if t = DtWait \<or> t = DtDeliver then 2 else 1"])
        (auto simp: Let_def eval_nat_numeral DeliveryThread_step_def DeliverSamples_def)
  qed
  then show ?thesis by (auto simp: Let_def control_steps)
qed

theorem stream_join_returns_witness:
  "\<exists>s :: Stream. st_thread s = Some DtLoop \<and> (\<exists>n \<le> 2. st_pc (control_next True ((DeliveryThread_step True demo_texture ^^ n) s)) = CtFinish ByStop)"
proof -
  obtain pattern where p: "TestPatternGenerator_init = Some pattern" using pattern_exists by blast
  note f = demo_started_fields [of pattern]
  let ?s = "control_next True (control_next True (ms_Stop (demo_started pattern)))"
  have r: "stream_reachable True ?s"
    by (intro stream_reachable.control stream_reachable.stop demo_started_reachable [OF p]) (rule f(11))
  have "st_pc ?s = CtJoin ByStop" "st_thread ?s = Some DtLoop" using f by (simp_all add: ms_Stop_def control_steps)
  then show ?thesis using stream_join_returns [OF r] by blast
qed

text \<open>C23: the colours of an RGB32 sample are those of BT.709 in studio range. Each channel of each pixel
  is less than one level from the exact value, cut off at 0 and 255.\<close>

theorem rgb_colours_close:
  assumes "length src = 1382400" "0 \<le> y" "y < 720" "0 \<le> x" "x < 1280"
    and "l = of_int (max 0 (uint (src ! nat (y * 1280 + x)) - 16))"
    and "u = of_int (uint (src ! nat (921600 + y div 2 * 1280 + x div 2 * 2)) - 128)"
    and "v = of_int (uint (src ! (nat (921600 + y div 2 * 1280 + x div 2 * 2) + 1)) - 128)"
  shows "\<exists>b g r. bgra_pixel src y x = [Some b, Some g, Some r, Some 255] \<and>
    \<bar>of_int (uint b) - max 0 (min 255 (exact_b l u))\<bar> < 1 \<and>
    \<bar>of_int (uint g) - max 0 (min 255 (exact_g l u v))\<bar> < 1 \<and>
    \<bar>of_int (uint r) - max 0 (min 255 (exact_r l v))\<bar> < 1"
proof -
  let ?l = "y_value (src ! nat (y * 1280 + x))" and ?uv = "nat (921600 + y div 2 * 1280 + x div 2 * 2)"
  let ?u = "c_value (src ! ?uv)" and ?v = "c_value (src ! (?uv + 1))"
  have byte: "0 \<le> uint w" "uint w \<le> 255" for w :: u8 using uint_lt2p [of w] by simp_all
  have r: "0 \<le> ?l" "?l \<le> 239" "- 128 \<le> ?u" "?u \<le> 127" "- 128 \<le> ?v" "?v \<le> 127"
    using byte by (simp_all add: y_value_def c_value_def)
  have lv: "l = of_int ?l" "u = of_int ?u" "v = of_int ?v" using assms(6-8) by (simp_all only: y_value_def c_value_def)
  have p: "bgra_pixel src y x = [Some (clamp_byte (bt709_b ?l ?u) 0 255), Some (clamp_byte (bt709_g ?l ?u ?v) 0 255),
      Some (clamp_byte (bt709_r ?l ?v) 0 255), Some 255]"
    by (rule bgra_pixel_inside [OF assms(1-5)]) (simp add: pixel_bgr_def Let_def)
  note c = bt709_close [OF r, THEN clamp_close]
  show ?thesis
    unfolding p lv by (intro exI conjI) (rule refl, rule c(3), rule c(2), rule c(1))
qed

theorem rgb_colours_close_witness:
  "\<exists>b g r. bgra_pixel (replicate 921600 235 @ replicate 460800 128) 0 0 = [Some b, Some g, Some r, Some 255] \<and> \<bar>of_int (uint b) - (255 :: rat)\<bar> < 1"
proof -
  let ?src = "replicate 921600 235 @ replicate 460800 (128 :: u8) :: bytes"
  have n: "?src ! nat (0 * 1280 + 0) = 235" "?src ! nat (921600 + 0 div 2 * 1280 + 0 div 2 * 2) = 128"
    "?src ! (nat (921600 + 0 div 2 * 1280 + 0 div 2 * 2) + 1) = 128"
    by (simp_all add: nth_append)
  have "\<exists>b g r. bgra_pixel ?src 0 0 = [Some b, Some g, Some r, Some 255] \<and>
    \<bar>of_int (uint b) - max 0 (min 255 (exact_b 219 0))\<bar> < 1 \<and>
    \<bar>of_int (uint g) - max 0 (min 255 (exact_g 219 0 0))\<bar> < 1 \<and>
    \<bar>of_int (uint r) - max 0 (min 255 (exact_r 219 0))\<bar> < 1"
    by (rule rgb_colours_close) (simp_all only: n, simp_all)
  moreover have "max 0 (min 255 (exact_b 219 0)) = 255" by (simp add: exact_b_def)
  ultimately show ?thesis by auto
qed

section \<open>A stale wake event\<close>

text \<open>\<open>Stop\<close> sets the wake event whether or not a delivery thread waits for it. When none takes it, the
  thread of the next start takes it and ends, while \<open>isDeliveryRunning_\<close> stays set: requests are accepted
  and never answered, and the next \<open>Stop\<close> sets the event again.\<close>

definition ms_run_stop :: "Stream \<Rightarrow> Stream" where
  "ms_run_stop s = (control_next True ^^ 4) (ms_Stop s)"

lemma stop_leaves_wake:
  assumes "\<not> st_shutdown s" "st_thread s = None \<or> st_thread s = Some DtEnd"
  shows "st_wake (ms_run_stop s) \<and> \<not> st_running (ms_run_stop s) \<and> st_thread (ms_run_stop s) = None \<and>
    \<not> st_shutdown (ms_run_stop s) \<and> st_pc (ms_run_stop s) = CtIdle"
  using assms by (auto simp: ms_run_stop_def ms_Stop_def control_steps eval_nat_numeral)

lemma stale_wake:
  assumes "\<not> st_shutdown s" "st_thread s = None" "\<not> st_running s" "st_wake s"
  shows "let r = (DeliveryThread_step woke a ^^ 3) (control_next True (ms_Start True now s))
    in st_thread r = Some DtEnd \<and> st_running r \<and> st_started r \<and> \<not> st_shutdown r"
  using assms by (simp add: Let_def eval_nat_numeral ms_Start_def control_steps DeliveryThread_step_def)

text \<open>However often the stream is stopped and started again, the delivery thread is dead.\<close>

definition ms_restart :: "SampleAnswers \<Rightarrow> Stream \<Rightarrow> Stream" where
  "ms_restart a s = (DeliveryThread_step True a ^^ 3) (control_next True (ms_Start True (sa_now a) (ms_run_stop s)))"

definition dead :: "Stream \<Rightarrow> bool" where
  "dead s \<longleftrightarrow> st_started s \<and> st_running s \<and> st_thread s = Some DtEnd \<and> \<not> st_shutdown s"

lemma restart_is_dead:
  assumes "\<not> st_shutdown s" "st_thread s = None \<or> st_thread s = Some DtEnd"
  shows "dead (ms_restart a s)"
  using stale_wake [of "ms_run_stop s" True a "sa_now a"] stop_leaves_wake [OF assms] by (simp add: ms_restart_def dead_def Let_def)

lemma restarts_are_dead:
  assumes "\<not> st_shutdown s" "st_thread s = None \<or> st_thread s = Some DtEnd"
  shows "dead ((ms_restart a ^^ Suc n) s)"
proof (induction n)
  case 0
  then show ?case using restart_is_dead [OF assms] by simp
next
  case (Suc n)
  then have "dead (ms_restart a ((ms_restart a ^^ Suc n) s))" by (intro restart_is_dead) (simp_all only: dead_def simp_thms)
  then show ?case by (simp only: funpow.simps o_apply)
qed

text \<open>\<open>SetStreamState\<close> does not look at \<open>isShutdown_\<close>: it starts a delivery thread after the shutdown,
  which the destructor, whose \<open>Shutdown\<close> then returns at once, does not join.\<close>

lemma state_after_shutdown:
  assumes "st_shutdown s" "\<not> st_running s" "st_thread s = None" "\<not> st_queue s"
  shows "let r = control_next queued (SetStreamState RUNNING queued now s) in st_thread r = Some DtLoop \<and> ms_Shutdown r = r"
  using assms by (simp add: Let_def SetStreamState_def control_steps ms_Shutdown_def push_event_def)

end
