(* ===== verification/VcamSource.thy ===== *)
theory VcamSource
  imports VcamStream
begin

text \<open>
  \<open>src/windows/virtual-camera/media-source/webrtc_bridge_media_source.cpp\<close>: the media source of the
  virtual camera, which owns the stream of \<open>VcamStream\<close>. Each call holds the source's \<open>lock_\<close> from
  beginning to end, the waiting for the delivery thread included, so one call is in progress at a time;
  meanwhile the steps of the stream, its thread and its clients go on. A call begins with the part before
  the stream is called (\<open>so_Start\<close>, \<open>so_Stop\<close>, \<open>so_Shutdown\<close>) and goes on with \<open>so_next\<close>. The answers of
  Media Foundation are arguments. Sensor profiles, attributes and the \<open>KsProperty\<close> calls, which always
  answer that the set is unknown, are left out.
\<close>

section \<open>The media types on offer\<close>

record OfferedType =
  of_subtype :: subtype
  of_width :: u32
  of_height :: u32
  of_fps :: u32
  of_sampleSize :: u32
  of_stride :: u32
  of_bitrate :: u32

definition createMediaType :: "subtype \<Rightarrow> u32 \<Rightarrow> u32 \<Rightarrow> u32 \<Rightarrow> OfferedType" where
  "createMediaType subType w h fps =
     (let sampleBytes = (if subType = RGB32 then w * h * 4 else w * h * 3 div 2) in
      \<lparr>of_subtype = subType, of_width = w, of_height = h, of_fps = fps, of_sampleSize = sampleBytes,
       of_stride = (if subType = RGB32 then w * 4 else w), of_bitrate = sampleBytes * 8 * fps\<rparr>)"

definition mediaTypes :: "OfferedType list" where
  "mediaTypes =
     (let w = of_int kWidth; h = of_int kHeight in
      [createMediaType NV12 w h 60, createMediaType NV12 w h 120, createMediaType NV12 w h 30,
       createMediaType RGB32 w h 60, createMediaType RGB32 w h 120, createMediaType RGB32 w h 30])"

text \<open>An offered type as the stream reads it.\<close>

definition as_type :: "OfferedType \<Rightarrow> MediaType" where
  "as_type t = \<lparr>mt_subtype = (S_OK, of_subtype t), mt_size = (S_OK, of_width t, of_height t), mt_rate = (S_OK, of_fps t, 1)\<rparr>"

section \<open>The source\<close>

datatype source_event = NewStream | SourceStarted | SourceStopped | SourcePaused

datatype source_pc = SoIdle | SoStarting "hresult" | SoStopping "hresult" | SoShutting

record Source =
  so_initialized :: bool
  so_shutdown :: bool
  so_manager :: bool
  so_queue :: bool
  so_presentation :: bool
  so_stream :: "Stream option"
  so_pc :: source_pc
  so_log :: "source_event list"

definition source_init :: Source where
  "source_init =
     \<lparr>so_initialized = False, so_shutdown = False, so_manager = False, so_queue = True, so_presentation = False, so_stream = None,
      so_pc = SoIdle, so_log = []\<rparr>"

definition source_event :: "hresult \<Rightarrow> source_event \<Rightarrow> Source \<Rightarrow> Source" where
  "source_event answer e s = (if FAILED answer then s else s\<lparr>so_log := so_log s @ [e]\<rparr>)"

text \<open>\<open>Initialize\<close>: \<open>answers\<close> are those of the descriptor's creation, \<open>MFCreatePresentationDescriptor\<close> and
  \<open>SelectStream\<close>; the stream is allocated unless memory is short.\<close>

definition so_Initialize :: "hresult \<Rightarrow> hresult \<Rightarrow> hresult \<Rightarrow> Stream option \<Rightarrow> Source \<Rightarrow> hresult \<times> Source" where
  "so_Initialize descriptor presentation select stream s =
     (if so_initialized s then (S_OK, s)
      else if FAILED descriptor then (descriptor, s)
      else if FAILED presentation then (presentation, s)
      else
        let s1 = s\<lparr>so_presentation := True\<rparr> in
        if FAILED select then (select, s1)
        else (case stream of
                None \<Rightarrow> (OtherFailure 0, s1)
              | Some t \<Rightarrow> (S_OK, s1\<lparr>so_stream := Some t, so_initialized := True\<rparr>)))"

text \<open>What \<open>Start\<close> is told: the caller's descriptor with the answer and whether the stream is selected in
  it, the source's own descriptor, the type handler and its current type.\<close>

record StartAnswers =
  qa_descriptor :: "(hresult \<times> bool) option"
  qa_own :: hresult
  qa_handler :: hresult
  qa_current :: hresult
  qa_type :: "MediaType option"
  qa_newStream :: hresult
  qa_streamStarted :: hresult
  qa_now :: int
  qa_started :: hresult

text \<open>The type of a selected stream is set and the stream is started. \<open>None\<close>: the call goes on.\<close>

definition start_stream :: "StartAnswers \<Rightarrow> Stream \<Rightarrow> Source \<Rightarrow> hresult option \<times> Source" where
  "start_stream a t s =
     (if qa_descriptor a = None \<and> FAILED (qa_own a) then (Some (qa_own a), s)
      else if FAILED (qa_handler a) then (Some (qa_handler a), s)
      else if FAILED (qa_current a) then (Some (qa_current a), s)
      else
        (case ms_SetMediaType (qa_type a) t of
           (hrType, t1) \<Rightarrow>
             let s1 = s\<lparr>so_stream := Some t1\<rparr> in
             if FAILED hrType then (Some hrType, s1)
             else if FAILED (qa_newStream a) then (Some (qa_newStream a), s1)
             else
               let s2 = (source_event (qa_newStream a) NewStream s1)
                 \<lparr>so_stream := Some (ms_Start (\<not> FAILED (qa_streamStarted a)) (qa_now a) t1)\<rparr> in
               if st_shutdown t1 then (Some MF_E_SHUTDOWN, s2)
               else if FAILED (qa_streamStarted a) then (Some (qa_streamStarted a), s2)
               else (None, s2\<lparr>so_pc := SoStarting (qa_started a)\<rparr>)))"

definition so_Start :: "StartAnswers \<Rightarrow> Source \<Rightarrow> hresult option \<times> Source" where
  "so_Start a s =
     (if so_shutdown s then (Some MF_E_SHUTDOWN, s)
      else
        (case so_stream s of
           None \<Rightarrow> (Some (qa_started a), source_event (qa_started a) SourceStarted s)
         | Some t \<Rightarrow>
             (case qa_descriptor a of
                Some (hr, selected) \<Rightarrow>
                  if FAILED hr then (Some hr, s)
                  else if selected then start_stream a t s
                  else (Some (qa_started a), source_event (qa_started a) SourceStarted s)
              | None \<Rightarrow> start_stream a t s)))"

definition so_Stop :: "hresult \<Rightarrow> Source \<Rightarrow> hresult option \<times> Source" where
  "so_Stop answer s =
     (if so_shutdown s then (Some MF_E_SHUTDOWN, s)
      else
        (case so_stream s of
           None \<Rightarrow> (Some answer, source_event answer SourceStopped s)
         | Some t \<Rightarrow> (None, s\<lparr>so_stream := Some (ms_Stop t), so_pc := SoStopping answer\<rparr>)))"

definition so_Pause :: "bool \<Rightarrow> hresult \<Rightarrow> Source \<Rightarrow> hresult \<times> Source" where
  "so_Pause queued answer s =
     (if so_shutdown s then (MF_E_SHUTDOWN, s)
      else (answer, source_event answer SourcePaused (s\<lparr>so_stream := map_option (ms_Pause queued) (so_stream s)\<rparr>)))"

definition close_source :: "Source \<Rightarrow> Source" where
  "close_source s = s\<lparr>so_stream := None, so_queue := False, so_presentation := False, so_pc := SoIdle\<rparr>"

definition so_Shutdown :: "Source \<Rightarrow> hresult option \<times> Source" where
  "so_Shutdown s =
     (if so_shutdown s then (Some S_OK, s)
      else
        let s1 = s\<lparr>so_shutdown := True\<rparr> in
        case so_stream s of
          None \<Rightarrow> (Some S_OK, close_source s1)
        | Some t \<Rightarrow> (None, s1\<lparr>so_stream := Some (ms_Shutdown t), so_pc := SoShutting\<rparr>))"

text \<open>The call in progress goes on: in the stream until that call is over, then in the source.\<close>

definition so_next :: "bool \<Rightarrow> Source \<Rightarrow> hresult option \<times> Source" where
  "so_next queued s =
     (case so_stream s of
        None \<Rightarrow> (None, s)
      | Some t \<Rightarrow>
          if st_pc t \<noteq> CtIdle then (None, s\<lparr>so_stream := Some (control_next queued t)\<rparr>)
          else
            (case so_pc s of
               SoIdle \<Rightarrow> (None, s)
             | SoStarting answer \<Rightarrow> (Some answer, (source_event answer SourceStarted s)\<lparr>so_pc := SoIdle\<rparr>)
             | SoStopping answer \<Rightarrow> (Some answer, (source_event answer SourceStopped s)\<lparr>so_pc := SoIdle\<rparr>)
             | SoShutting \<Rightarrow> (Some S_OK, close_source s)))"

section \<open>The other calls\<close>

definition GetCharacteristics :: "bool \<Rightarrow> Source \<Rightarrow> hresult" where
  "GetCharacteristics out s = (if \<not> out then E_POINTER else if so_shutdown s then MF_E_SHUTDOWN else S_OK)"

definition CreatePresentationDescriptor :: "bool \<Rightarrow> hresult \<Rightarrow> Source \<Rightarrow> hresult" where
  "CreatePresentationDescriptor out answer s =
     (if \<not> out then E_POINTER else if so_shutdown s then MF_E_SHUTDOWN else if \<not> so_presentation s then E_UNEXPECTED else answer)"

definition GetStreamAttributes :: "bool \<Rightarrow> u32 \<Rightarrow> Source \<Rightarrow> hresult" where
  "GetStreamAttributes out streamIdentifier s =
     (if \<not> out then E_POINTER
      else if so_shutdown s then MF_E_SHUTDOWN
      else if streamIdentifier \<noteq> 0 then MF_E_INVALIDSTREAMNUMBER
      else if so_stream s \<noteq> None then S_OK
      else OtherFailure 1)"

definition so_SetD3DManager :: "bool \<Rightarrow> bool \<Rightarrow> Source \<Rightarrow> hresult \<times> Source" where
  "so_SetD3DManager given device s =
     (if so_shutdown s then (MF_E_SHUTDOWN, s)
      else
        let s1 = s\<lparr>so_manager := given\<rparr> in
        (S_OK, if given then s1\<lparr>so_stream := map_option (\<lambda>t. snd (ms_SetD3DManager True device t)) (so_stream s)\<rparr> else s1))"

definition SetDefaultAllocator :: "u32 \<Rightarrow> bool \<Rightarrow> hresult \<Rightarrow> Source \<Rightarrow> hresult \<times> Source" where
  "SetDefaultAllocator streamId given answer s =
     (if streamId \<noteq> 0 then (MF_E_INVALIDSTREAMNUMBER, s)
      else if \<not> given then (E_POINTER, s)
      else if so_shutdown s then (MF_E_SHUTDOWN, s)
      else
        (case so_stream s of
           None \<Rightarrow> (E_UNEXPECTED, s)
         | Some t \<Rightarrow> (case ms_SetSampleAllocator True answer t of (hr, t1) \<Rightarrow> (hr, s\<lparr>so_stream := Some t1\<rparr>))))"

definition GetAllocatorUsage :: "u32 \<Rightarrow> bool \<Rightarrow> hresult \<times> u32 option" where
  "GetAllocatorUsage streamId out =
     (if streamId \<noteq> 0 then (MF_E_INVALIDSTREAMNUMBER, None) else if \<not> out then (E_POINTER, None) else (S_OK, Some streamId))"

section \<open>Reachable states\<close>

text \<open>The steps of the stream's clients and of its delivery thread, which go on during a call.\<close>

inductive stream_env :: "Stream \<Rightarrow> Stream \<Rightarrow> bool" where
  "answers_ok t a \<Longrightarrow> stream_env t (DeliveryThread_step woke a t)"
| "stream_env t (snd (RequestSample token t))"
| "stream_env t (snd (ms_QueueEvent answer t))"

definition so_idle :: "Source \<Rightarrow> bool" where
  "so_idle s \<longleftrightarrow> so_pc s = SoIdle \<and> (case so_stream s of None \<Rightarrow> True | Some t \<Rightarrow> st_pc t = CtIdle)"

inductive source_reachable :: "bool \<Rightarrow> Source \<Rightarrow> bool" for strict where
  init: "source_reachable strict source_init"
| initialize: "source_reachable strict s \<Longrightarrow> so_idle s \<Longrightarrow> \<not> so_shutdown s \<Longrightarrow> TestPatternGenerator_init = Some pattern \<Longrightarrow>
    source_reachable strict (snd (so_Initialize descriptor presentation select (if memory then Some (stream_init pattern) else None) s))"
| start: "source_reachable strict s \<Longrightarrow> so_idle s \<Longrightarrow> \<not> FAILED (qa_streamStarted a) \<or> \<not> strict \<Longrightarrow> source_reachable strict (snd (so_Start a s))"
| stop: "source_reachable strict s \<Longrightarrow> so_idle s \<Longrightarrow> source_reachable strict (snd (so_Stop answer s))"
| pause: "source_reachable strict s \<Longrightarrow> so_idle s \<Longrightarrow> source_reachable strict (snd (so_Pause queued answer s))"
| shutdown: "source_reachable strict s \<Longrightarrow> so_idle s \<Longrightarrow> source_reachable strict (snd (so_Shutdown s))"
| d3d: "source_reachable strict s \<Longrightarrow> so_idle s \<Longrightarrow> source_reachable strict (snd (so_SetD3DManager given device s))"
| allocator: "source_reachable strict s \<Longrightarrow> so_idle s \<Longrightarrow> source_reachable strict (snd (SetDefaultAllocator streamId given answer s))"
| set_state: "source_reachable strict s \<Longrightarrow> so_idle s \<Longrightarrow> so_stream s = Some t \<Longrightarrow> queued \<or> \<not> strict \<Longrightarrow>
    source_reachable strict (s\<lparr>so_stream := Some (SetStreamState state queued now t)\<rparr>)"
| go_on: "source_reachable strict s \<Longrightarrow> source_reachable strict (snd (so_next queued s))"
| env: "source_reachable strict s \<Longrightarrow> so_stream s = Some t \<Longrightarrow> stream_env t t' \<Longrightarrow> source_reachable strict (s\<lparr>so_stream := Some t'\<rparr>)"

section \<open>The source and its stream\<close>

text \<open>The stream of the source is one that \<open>VcamStream\<close> speaks of, and it is shut down with the source.\<close>

definition owns :: "bool \<Rightarrow> Source \<Rightarrow> bool" where
  "owns strict s \<longleftrightarrow>
     (case so_stream s of
        None \<Rightarrow> so_pc s = SoIdle
      | Some t \<Rightarrow> stream_reachable strict t \<and> (st_shutdown t \<longleftrightarrow> so_shutdown s) \<and> (so_shutdown s \<longleftrightarrow> so_pc s = SoShutting) \<and>
          so_initialized s)"

lemma stream_env_reachable: "stream_env t t' \<Longrightarrow> stream_reachable strict t \<Longrightarrow> stream_reachable strict t' \<and> st_shutdown t' = st_shutdown t"
proof (induction rule: stream_env.induct)
  case (1 t a woke)
  have "st_shutdown (DeliveryThread_step woke a t) = st_shutdown t"
  proof -
    have f: "stream_formats t" using reachable_inv [OF 1(2)] by (simp add: inv_stream_def)
    have "st_shutdown (snd (DeliverSamples a t)) = st_shutdown t"
      using 1(1) f by (cases rule: DeliverSamples_cases) simp_all
    then show ?thesis by (simp add: DeliveryThread_step_def split: option.split delivery_pc.split)
  qed
  then show ?case using stream_reachable.delivery [OF 1(2,1)] by blast
next
  case (2 t token)
  then show ?case using stream_reachable.request by (auto simp: RequestSample_def)
next
  case (3 t answer)
  have "st_shutdown (snd (ms_QueueEvent answer t)) = st_shutdown t" by (simp add: ms_QueueEvent_def)
  then show ?case using stream_reachable.client_event [OF 3] by blast
qed

lemma stream_shutdown_flag [simp]:
  "st_shutdown (snd (ms_SetMediaType type t)) = st_shutdown t" "st_shutdown (ms_Start queued now t) = st_shutdown t"
  "st_shutdown (ms_Stop t) = st_shutdown t" "st_shutdown (ms_Pause queued t) = st_shutdown t" "st_shutdown (ms_Shutdown t)"
  "st_shutdown (SetStreamState state queued now t) = st_shutdown t" "st_shutdown (control_next queued t) = st_shutdown t"
  "st_shutdown (snd (ms_SetD3DManager given device t)) = st_shutdown t" "st_shutdown (snd (ms_SetSampleAllocator given answer t)) = st_shutdown t"
proof -
  show "st_shutdown (snd (ms_SetMediaType type t)) = st_shutdown t"
    by (simp add: ms_SetMediaType_def Let_def split: option.split prod.split)
  show "st_shutdown (control_next queued t) = st_shutdown t"
    by (simp add: control_steps split: control_pc.split option.split delivery_pc.split ending.split)
  show "st_shutdown (SetStreamState state queued now t) = st_shutdown t" by (cases state) (simp_all add: SetStreamState_def)
qed (simp_all add: ms_Start_def ms_Stop_def ms_Pause_def ms_Shutdown_def ms_SetD3DManager_def ms_SetSampleAllocator_def)

lemma source_event_fields [simp]:
  "so_stream (source_event h e s) = so_stream s" "so_shutdown (source_event h e s) = so_shutdown s" "so_pc (source_event h e s) = so_pc s"
  "so_initialized (source_event h e s) = so_initialized s"
  by (simp_all add: source_event_def)

lemma owns_start_stream:
  assumes "owns strict s" "so_idle s" "\<not> so_shutdown s" "so_stream s = Some t" "\<not> FAILED (qa_streamStarted a) \<or> \<not> strict"
  shows "owns strict (snd (start_stream a t s))"
proof -
  obtain hr t1 where m: "ms_SetMediaType (qa_type a) t = (hr, t1)" by fastforce
  have t: "stream_reachable strict t" "\<not> st_shutdown t" "st_pc t = CtIdle" "so_initialized s" "so_pc s = SoIdle"
    using assms by (simp_all add: owns_def so_idle_def)
  have t1: "stream_reachable strict t1" "\<not> st_shutdown t1" "st_pc t1 = CtIdle"
    using stream_reachable.media_type [OF t(1), of "qa_type a"] stream_shutdown_flag(1) [of "qa_type a" t] t(2,3) m
    by (auto simp: ms_SetMediaType_def Let_def split: option.splits prod.splits if_splits)
  have st: "stream_reachable strict (ms_Start (\<not> FAILED (qa_streamStarted a)) (qa_now a) t1)"
    by (rule stream_reachable.start [OF t1(1,3) assms(5)])
  let ?s1 = "s\<lparr>so_stream := Some t1\<rparr>"
  let ?s2 = "(source_event (qa_newStream a) NewStream ?s1)\<lparr>so_stream := Some (ms_Start (\<not> FAILED (qa_streamStarted a)) (qa_now a) t1)\<rparr>"
  have "snd (start_stream a t s) \<in> {s, ?s1, ?s2, ?s2\<lparr>so_pc := SoStarting (qa_started a)\<rparr>}"
    unfolding start_stream_def m prod.case Let_def by (simp split: if_split)
  moreover have "owns strict ?s1" "owns strict ?s2" "owns strict (?s2\<lparr>so_pc := SoStarting (qa_started a)\<rparr>)"
    using assms(3) t t1 st by (simp_all add: owns_def)
  ultimately show ?thesis using assms(1) by auto
qed

lemma owns_event [simp]: "owns strict (source_event h e s) = owns strict s"
  by (cases "so_stream s") (simp_all add: owns_def)

lemma owns_reachable: "source_reachable strict s \<Longrightarrow> owns strict s"
proof (induction rule: source_reachable.induct)
  case init
  then show ?case by (simp add: source_init_def owns_def)
next
  case (initialize s pattern descriptor presentation select memory)
  then show ?case using stream_reachable.init [OF initialize(4), of strict]
    by (auto simp: so_Initialize_def owns_def so_idle_def stream_init_def Let_def split: option.splits)
next
  case (start s a)
  show ?case
  proof (cases "so_shutdown s \<or> so_stream s = None")
    case True
    then have "snd (so_Start a s) = s \<or> snd (so_Start a s) = source_event (qa_started a) SourceStarted s"
      by (auto simp: so_Start_def)
    then show ?thesis using start.IH by auto
  next
    case False
    then obtain t where t: "\<not> so_shutdown s" "so_stream s = Some t" by blast
    note o = owns_start_stream [OF start.IH start.hyps(2) t start.hyps(3)]
    have "snd (so_Start a s) = s \<or> snd (so_Start a s) = source_event (qa_started a) SourceStarted s \<or> snd (so_Start a s) = snd (start_stream a t s)"
      using t by (simp add: so_Start_def split: option.split prod.split)
    then show ?thesis using o start.IH by auto
  qed
next
  case (stop s answer)
  then show ?case using stream_reachable.stop
    by (auto simp: so_Stop_def owns_def so_idle_def split: option.splits)
next
  case (pause s queued answer)
  then show ?case using stream_reachable.pause
    by (auto simp: so_Pause_def owns_def so_idle_def split: option.splits)
next
  case (shutdown s)
  then show ?case using stream_reachable.shutdown
    by (auto simp: so_Shutdown_def owns_def so_idle_def close_source_def Let_def split: option.splits)
next
  case (d3d s given device)
  then show ?case using stream_reachable.d3d
    by (auto simp: so_SetD3DManager_def owns_def so_idle_def Let_def split: option.splits)
next
  case (allocator s streamId given answer)
  show ?case
  proof (cases "so_stream s")
    case None
    then show ?thesis using allocator.IH by (simp add: SetDefaultAllocator_def)
  next
    case (Some t)
    obtain hr t1 where m: "ms_SetSampleAllocator True answer t = (hr, t1)" by fastforce
    have "stream_reachable strict t1" "st_shutdown t1 = st_shutdown t"
      using stream_reachable.allocator [of strict t True answer] stream_shutdown_flag(9) [of True answer t] allocator.IH Some m
      by (simp_all add: owns_def)
    then show ?thesis using allocator.IH Some by (auto simp: SetDefaultAllocator_def m owns_def)
  qed
next
  case (set_state s t queued state now)
  then show ?case using stream_reachable.set_state [of strict t queued state now]
    by (auto simp: owns_def so_idle_def)
next
  case (go_on s queued)
  then show ?case using stream_reachable.control
    by (auto simp: so_next_def owns_def close_source_def split: option.splits source_pc.splits)
next
  case (env s t t')
  then show ?case using stream_env_reachable [OF env(3), of strict] by (simp add: owns_def)
qed

section \<open>Calls come to an end\<close>

text \<open>A round: the delivery thread makes a step, then the call in progress does.\<close>

definition call_round :: "SampleAnswers \<Rightarrow> Source \<Rightarrow> Source" where
  "call_round a s = snd (so_next True (s\<lparr>so_stream := map_option (DeliveryThread_step True a) (so_stream s)\<rparr>))"

lemma source_pixels_state: "source_pixels a t = Some (src, t') \<Longrightarrow> \<exists>x. t' = t\<lparr>st_scratch := x\<rparr>"
proof -
  assume p: "source_pixels a t = Some (src, t')"
  show ?thesis
  proof (cases "sa_frame a")
    case None
    then show ?thesis using p by (auto simp: source_pixels_def Let_def)
  next
    case (Some f)
    then have "t' = t\<lparr>st_scratch := st_scratch t\<rparr>" using p by (simp add: source_pixels_def)
    then show ?thesis by blast
  qed
qed

lemma CreateVideoSample_state: "CreateVideoSample a t = Some (hr, p, t') \<Longrightarrow> \<exists>x i. t' = t\<lparr>st_scratch := x, st_sampleIndex := i\<rparr>"
proof -
  assume c: "CreateVideoSample a t = Some (hr, p, t')"
  have n: "\<exists>q. new_sample c now r = (q, r\<lparr>st_sampleIndex := st_sampleIndex r + 1\<rparr>)" for c now r
    by (rule new_sample_result [of c now r]) blast
  have same: "r = r\<lparr>st_scratch := st_scratch r, st_sampleIndex := st_sampleIndex r\<rparr>" for r :: Stream by simp
  show ?thesis
  proof (cases "st_subtype t = NV12 \<and> st_d3d t \<and> sa_texture a \<and> sa_surface a \<and> sa_gpuSample a")
    case True
    obtain q where "new_sample (Texture (sa_slot a)) (sa_now a) t = (q, t\<lparr>st_sampleIndex := st_sampleIndex t + 1\<rparr>)" using n by blast
    then have "t' = t\<lparr>st_scratch := st_scratch t, st_sampleIndex := st_sampleIndex t + 1\<rparr>"
      using c True by (simp add: CreateVideoSample_def)
    then show ?thesis by blast
  next
    case False
    note c2 = c [unfolded CreateVideoSample_def if_not_P [OF False]]
    obtain src t1 where s1: "source_pixels a t = Some (src, t1)" using c2 by (cases "source_pixels a t") auto
    obtain x where x: "t1 = t\<lparr>st_scratch := x\<rparr>" using source_pixels_state [OF s1] by blast
    have "t' = t1 \<or> t' = t1\<lparr>st_sampleIndex := st_sampleIndex t1 + 1\<rparr>"
      using c2 n [where r = t1] unfolding s1
      by (auto split: if_splits option.splits prod.splits dest!: spec) (metis prod.inject)+
    then show ?thesis
    proof
      assume "t' = t1"
      then have "t' = t\<lparr>st_scratch := x, st_sampleIndex := st_sampleIndex t\<rparr>" by (simp add: x)
      then show ?thesis by blast
    next
      assume "t' = t1\<lparr>st_sampleIndex := st_sampleIndex t1 + 1\<rparr>"
      then show ?thesis by (auto simp: x)
    qed
  qed
qed

lemma DeliverSamples_fields:
  "st_pc (snd (DeliverSamples a t)) = st_pc t \<and> st_running (snd (DeliverSamples a t)) = st_running t \<and>
   st_thread (snd (DeliverSamples a t)) = st_thread t"
proof (cases "st_shutdown t \<or> \<not> st_started t \<or> st_requests t = []")
  case True
  then show ?thesis by (auto simp: DeliverSamples_def)
next
  case False
  then obtain k rest where r: "st_requests t = k # rest" by (cases "st_requests t") auto
  show ?thesis
  proof (cases "CreateVideoSample a (t\<lparr>st_requests := rest\<rparr>)")
    case None
    then show ?thesis using False r by (simp add: DeliverSamples_def)
  next
    case (Some c)
    obtain hr p t1 where c: "c = (hr, p, t1)" by (rule prod_cases3)
    obtain x i where "t1 = t\<lparr>st_requests := rest, st_scratch := x, st_sampleIndex := i\<rparr>"
      using CreateVideoSample_state [OF Some [unfolded c]] by blast
    then show ?thesis using False r Some c by (cases p) (simp_all add: DeliverSamples_def)
  qed
qed

definition thread_left :: "delivery_pc option \<Rightarrow> nat" where
  "thread_left t =
     (case t of None \<Rightarrow> 0 | Some DtEnd \<Rightarrow> 0 | Some DtLoop \<Rightarrow> 1 | Some (DtWoken _) \<Rightarrow> 1 | Some DtWait \<Rightarrow> 2 | Some DtDeliver \<Rightarrow> 2)"

definition call_left :: "Stream \<Rightarrow> nat" where
  "call_left t =
     (case st_pc t of
        CtIdle \<Rightarrow> 0 | CtSpawn \<Rightarrow> 1 | CtFinish _ \<Rightarrow> 1 | CtJoin _ \<Rightarrow> 2 + thread_left (st_thread t) | CtWake _ \<Rightarrow> 5 | CtClear _ \<Rightarrow> 6)"

definition joining :: "Stream \<Rightarrow> bool" where
  "joining t \<longleftrightarrow> (case st_pc t of CtWake _ \<Rightarrow> \<not> st_running t | CtJoin _ \<Rightarrow> \<not> st_running t | _ \<Rightarrow> True)"

lemma delivery_fields:
  "st_pc (DeliveryThread_step woke a t) = st_pc t" "st_running (DeliveryThread_step woke a t) = st_running t"
  by (simp_all add: DeliveryThread_step_def DeliverSamples_fields split: option.split delivery_pc.split)

lemma delivery_left:
  assumes "\<not> st_running t"
  shows "thread_left (st_thread (DeliveryThread_step True a t)) = thread_left (st_thread t) - 1"
  using assms by (cases "st_thread t"; cases "the (st_thread t)")
    (simp_all add: DeliveryThread_step_def thread_left_def DeliverSamples_fields)

lemma thread_left_le: "thread_left t \<le> 2"
  by (simp add: thread_left_def split: option.split delivery_pc.split)

lemma round_left:
  assumes "joining t" "st_pc t \<noteq> CtIdle"
  shows "joining (control_next True (DeliveryThread_step True a t))"
    "call_left (control_next True (DeliveryThread_step True a t)) < call_left t"
proof -
  let ?d = "DeliveryThread_step True a t"
  note f = delivery_fields [of True a t]
  have both: "joining (control_next True ?d) \<and> call_left (control_next True ?d) < call_left t"
  proof (cases "st_pc t")
    case (CtJoin e)
    then have nr: "\<not> st_running t" using assms(1) by (simp add: joining_def)
    note l = delivery_left [OF nr, of a]
    show ?thesis
    proof (cases "thread_left (st_thread ?d) = 0")
      case True
      then have "st_thread ?d = None \<or> st_thread ?d = Some DtEnd" by (simp add: thread_left_def split: option.splits delivery_pc.splits)
      then have "st_pc (control_next True ?d) = CtFinish e" using f CtJoin by (auto simp: control_steps)
      then show ?thesis by (simp add: joining_def call_left_def CtJoin)
    next
      case False
      then have "control_next True ?d = ?d"
        using f CtJoin by (simp add: control_steps thread_left_def split: option.splits delivery_pc.splits)
      then show ?thesis using False l f nr CtJoin by (simp add: joining_def call_left_def)
    qed
  next
    case (CtClear e)
    then show ?thesis using f thread_left_le [of "st_thread ?d"] by (simp add: control_steps joining_def call_left_def)
  next
    case (CtWake e)
    then show ?thesis using f assms(1) thread_left_le [of "st_thread ?d"] by (simp add: control_steps joining_def call_left_def)
  next
    case (CtFinish e)
    then show ?thesis using f by (cases e) (simp_all add: control_steps joining_def call_left_def)
  qed (use f assms(2) in \<open>simp_all add: control_steps joining_def call_left_def\<close>)
  show "joining (control_next True ?d)" "call_left (control_next True ?d) < call_left t" using both by simp_all
qed

lemma rounds_reach_idle:
  assumes "so_stream s = Some t" "joining t"
  shows "\<exists>n t'. n \<le> call_left t \<and> so_stream ((call_round a ^^ n) s) = Some t' \<and> st_pc t' = CtIdle \<and> so_pc ((call_round a ^^ n) s) = so_pc s"
  using assms
proof (induction "call_left t" arbitrary: s t rule: less_induct)
  case less
  show ?case
  proof (cases "st_pc t = CtIdle")
    case True
    then show ?thesis using less.prems by (intro exI [of _ 0] exI [of _ t]) simp
  next
    case False
    let ?t = "control_next True (DeliveryThread_step True a t)"
    note r = round_left [OF less.prems(2) False, of a]
    have s: "so_stream (call_round a s) = Some ?t" "so_pc (call_round a s) = so_pc s"
      using less.prems(1) False by (simp_all add: call_round_def so_next_def delivery_fields)
    from less.hyps [OF r(2) s(1) r(1)] obtain n t' where n: "n \<le> call_left ?t"
      "so_stream ((call_round a ^^ n) (call_round a s)) = Some t'" "st_pc t' = CtIdle"
      "so_pc ((call_round a ^^ n) (call_round a s)) = so_pc (call_round a s)" by blast
    then show ?thesis using r(2) s(2) by (intro exI [of _ "Suc n"] exI [of _ t']) (simp add: funpow_swap1)
  qed
qed

section \<open>Properties\<close>

text \<open>A source with its stream, whose client has called \<open>Start\<close> with the first media type.\<close>

definition demo_start :: StartAnswers where
  "demo_start =
     \<lparr>qa_descriptor = None, qa_own = S_OK, qa_handler = S_OK, qa_current = S_OK, qa_type = Some (as_type (hd mediaTypes)),
      qa_newStream = S_OK, qa_streamStarted = S_OK, qa_now = 3, qa_started = S_OK\<rparr>"

definition demo_source :: "TestPatternGenerator \<Rightarrow> Source" where
  "demo_source pattern = snd (so_Start demo_start (snd (so_Initialize S_OK S_OK S_OK (Some (stream_init pattern)) source_init)))"

lemma offered_sizes: "kWidth = 1280" "kHeight = 720" "kPayloadBytes = 1382400"
  by (simp_all add: sizes)

lemma demo_media_type:
  "ms_SetMediaType (Some (as_type (hd mediaTypes))) t =
     (if st_shutdown t then MF_E_SHUTDOWN else S_OK, if st_shutdown t then t\<lparr>st_fps := 60\<rparr> else t\<lparr>st_fps := 60, st_subtype := NV12\<rparr>)"
  by (simp add: ms_SetMediaType_def as_type_def mediaTypes_def createMediaType_def Let_def FAILED_def offered_sizes)

lemma demo_source_reachable:
  assumes "TestPatternGenerator_init = Some pattern"
  shows "source_reachable strict (demo_source pattern)"
proof -
  have "source_reachable strict (snd (so_Initialize S_OK S_OK S_OK (if True then Some (stream_init pattern) else None) source_init))"
    by (rule source_reachable.initialize [OF source_reachable.init _ _ assms]) (simp_all add: so_idle_def source_init_def)
  then show ?thesis unfolding demo_source_def
    by (intro source_reachable.start) (simp_all add: so_idle_def so_Initialize_def source_init_def FAILED_def Let_def stream_init_def demo_start_def)
qed

lemma demo_source_fields:
  "so_pc (demo_source pattern) = SoStarting S_OK" "so_log (demo_source pattern) = [NewStream]"
  "\<exists>t. so_stream (demo_source pattern) = Some t \<and> st_log t = [StreamStarted] \<and> st_fps t = 60 \<and> st_pc t = CtSpawn"
  by (simp_all add: demo_source_def so_Initialize_def source_init_def FAILED_def Let_def so_Start_def start_stream_def demo_start_def
    demo_media_type stream_init_def source_event_def ms_Start_def push_event_def)



text \<open>C22: no call of the source waits for ever. From any reachable state, a call in progress returns after at
  most six rounds in which the delivery thread and the call each make a step.\<close>

theorem source_call_returns:
  assumes "source_reachable True s" "so_pc s \<noteq> SoIdle"
  shows "\<exists>n \<le> 6. fst (so_next True ((call_round a ^^ n) s)) \<noteq> None"
proof -
  note o = owns_reachable [OF assms(1)]
  obtain t where t: "so_stream s = Some t" "stream_reachable True t" using o assms(2) by (cases "so_stream s") (simp_all add: owns_def)
  have j: "joining t" using reachable_inv [OF t(2)] by (simp add: inv_stream_def thread_ok_def joining_def split: control_pc.splits)
  have "call_left t \<le> 6" using thread_left_le [of "st_thread t"] by (simp add: call_left_def split: control_pc.split)
  moreover obtain n t' where n: "n \<le> call_left t" "so_stream ((call_round a ^^ n) s) = Some t'" "st_pc t' = CtIdle"
    "so_pc ((call_round a ^^ n) s) = so_pc s" using rounds_reach_idle [OF t(1) j, of a] by blast
  moreover have "fst (so_next True ((call_round a ^^ n) s)) \<noteq> None"
    using n(2-4) assms(2) by (cases "so_pc s") (simp_all add: so_next_def)
  ultimately show ?thesis by (intro exI [of _ n]) simp
qed

theorem source_call_returns_witness:
  "\<exists>s. so_pc s = SoStarting S_OK \<and> (\<exists>n \<le> 6. fst (so_next True ((call_round demo_texture ^^ n) s)) \<noteq> None)"
proof -
  obtain pattern where p: "TestPatternGenerator_init = Some pattern" using pattern_exists by blast
  note f = demo_source_fields(1) [of pattern]
  from source_call_returns [OF demo_source_reachable [OF p], of demo_texture] f show ?thesis by (metis source_pc.distinct(1))
qed

text \<open>Every media type the source offers works. The stream accepts it and switches to its format and
  frame rate, the offered sample size and stride are those of the samples it makes, and the offered bit
  rate has not wrapped around.\<close>

theorem offered_types_work:
  assumes "\<not> st_shutdown t"
  shows "list_all (\<lambda>k. ms_SetMediaType (Some (as_type k)) t = (S_OK, t\<lparr>st_fps := of_fps k, st_subtype := of_subtype k\<rparr>) \<and>
    uint (of_sampleSize k) = out_bytes (of_subtype k) \<and> uint (of_stride k) = row_bytes (of_subtype k) \<and>
    uint (of_bitrate k) = out_bytes (of_subtype k) * 8 * uint (of_fps k)) mediaTypes"
  using assms by (simp add: ms_SetMediaType_def as_type_def mediaTypes_def createMediaType_def Let_def FAILED_def offered_sizes
    out_bytes_def row_bytes_def)

theorem offered_types_work_witness:
  "list_all (\<lambda>k. fst (ms_SetMediaType (Some (as_type k)) (stream_init \<lparr>tp_baseBarsY = [], tp_baseBarsUV = []\<rparr>)) = S_OK) mediaTypes"
  using offered_types_work [of "stream_init \<lparr>tp_baseBarsY = [], tp_baseBarsUV = []\<rparr>"]
  by (simp add: stream_init_def list_all_iff)

end
