(* ===== verification/Spec2Isabelle.thy ===== *)
theory Spec2Isabelle
  imports BoundedVideoQueue Pacer LatestFrame CallbackGate Nv12 ReceiverEngine EnhancedRtcp BandwidthEstimator SignalingWorker
    AudioPcmQueue TestPattern FramePipe SharedFrame OpusRtp AudioOutput PeerConnection AppController VcamSource
begin

text \<open>
  The program receives a phone's camera over WebRTC and offers it as a camera of the computer. A web page
  on the phone sends H.264 video, over RTP or over a data channel, and Opus audio; the receiver finds its
  peer through an HTTP signaling service, reassembles access units, decodes them, letterboxes the pictures to
  1280 by 720 NV12 frames and hands these to a virtual camera in another process. This library models the
  C++ code of the receiver and of the Windows camera under \<open>src/shared\<close>, \<open>src/windows\<close> and \<open>src/macos\<close>.

  How the parts interact. Datagrams and data channel messages go to the receiver engine, which owns both
  depacketizers and asks for key frames. Its access units are pushed into the compressed video queue and
  popped by the video worker of the application controller, which owns the decoder; the output worker
  publishes 30 frames a second, live or the test pattern, to the camera's reader through a named pipe and
  shared memory. The camera's media source and stream turn them into samples for its clients. RTCP sessions
  report losses, arrival times and a bitrate estimate to the sender. Audio packets pass a jitter buffer and,
  on macOS, a PCM ring and a device worker. The signaling worker creates a session, polls for an offer and
  puts the answer.

  Theories and sources:

  \<^item> \<open>Prelude\<close>, \<open>Floats\<close>: bytes, words, signed distances of wrapping counters, C++ division, errors as sums;
    \<open>float\<close> and \<open>double\<close> as rationals with the rounding of each operation.
  \<^item> \<open>H264\<close>, \<open>RtpWire\<close> (\<open>src/shared/km/h264.h\<close>, \<open>rtp_wire.h\<close>): NAL unit framing; RTP and RTCP parsers.
  \<^item> \<open>VideoSource\<close>, \<open>H264Rtp\<close>, \<open>DcVideo\<close> (\<open>src/shared/receiver/codec\<close>, \<open>common/data_channel_protocol.h\<close>): the interface
    of a source of access units, and the two depacketizers behind it. \<open>ReceiverEngine\<close>
    (\<open>src/shared/receiver/engine\<close>): the engine over both; \<open>Timing\<close>, \<open>Pacer\<close> (\<open>km/timing.h\<close>): the clocks.
  \<^item> \<open>BoundedVideoQueue\<close>, \<open>LatestFrame\<close>, \<open>CallbackGate\<close> (\<open>src/shared/km\<close>): the shared objects between threads.
  \<^item> \<open>Twcc\<close>, \<open>EnhancedRtcp\<close>, \<open>BandwidthEstimator\<close> (\<open>src/shared/receiver/rtc\<close>): transport-wide feedback, RTCP reports,
    REMB and picture loss indications, the loss-driven estimate.
  \<^item> \<open>Json\<close>, \<open>JsonPrint\<close>, \<open>SessionCodec\<close>, \<open>SessionClient\<close>, \<open>SignalingWorker\<close> (\<open>src/shared/km/json.h\<close>,
    \<open>src/shared/receiver/signaling\<close>): the bounded JSON reader and its quoter, the messages, the client and the
    worker that runs a session.
  \<^item> \<open>Nv12\<close>, \<open>PixelConverter\<close>, \<open>TestPattern\<close> (\<open>src/shared/km/nv12.h\<close>, \<open>src/windows/receiver/media\<close>): letterbox, pixel
    conversions and test patterns on checked memory.
  \<^item> \<open>FramePipe\<close>, \<open>SharedFrame\<close> (\<open>src/windows/common\<close>, \<open>pipe_publisher.cpp\<close>, \<open>pipe_frame_receiver.cpp\<close>): the frame
    protocol with its publisher and reader, and the shared memory with its single stores and looks.
  \<^item> \<open>OpusRtp\<close>, \<open>AudioPcmQueue\<close>, \<open>AudioOutput\<close> (\<open>src/shared/receiver/audio\<close>, \<open>src/macos/receiver\<close>): the jitter buffer,
    the PCM ring and the worker that owns the audio device.
  \<^item> \<open>PeerConnection\<close> (\<open>src/windows/receiver/rtc/peer_connection_manager.cpp\<close>): the wiring of the WebRTC library to the
    engine, the RTCP sessions, the estimator and the jitter buffer, and the answer to an offer.
  \<^item> \<open>AppController\<close> (\<open>src/windows/receiver/app\<close>): the callbacks, the two workers and the UI thread of the receiver.
  \<^item> \<open>VcamStream\<close>, \<open>VcamSource\<close> (\<open>src/windows/virtual-camera/media-source\<close>): the media stream with its delivery thread
    and the media source that owns it.

  State and steps. A class is a record with its fields, an enumeration a datatype, and a method a function
  that returns the new state with what it hands to callbacks. Where threads share state, a step is one
  critical section or one access of an atomic, with the thread-local code around it, and the reachable
  states are an inductive predicate over all interleavings (\<open>app_reachable\<close>, \<open>ao_reachable\<close>, \<open>stream_reachable\<close>,
  \<open>source_reachable\<close>, and those of the gate, the frame pipe and the shared memory). Clocks, HTTP answers, the
  decoder, libopus, Core Audio, Media Foundation and other calls outside the repository are arguments; what
  is relied on is a hypothesis (\<open>answers_ok\<close>: a locked buffer holds the bytes it promises). A read or write
  outside an array is \<open>None\<close> or a fault, and that it does not happen is proved. Exceptions and failed calls
  are values.

  What the lemmas show. Each component has an invariant that every operation preserves; the properties are
  drawn from it. Three interfaces are locales: \<open>dropping_fifo\<close> (a queue that only loses what it says),
  \<open>video_source\<close> (nothing is handed out before a random access point, nothing too large), interpreted by both
  depacketizers and used by the engine, and \<open>engine_relation\<close> (a relation that every engine call keeps), which
  carries the spacing of key frame requests and the order of the two paths. Refinements: the PCM ring against
  a list, the Windows converter against the shared letterbox, the media source's stream against the
  stream's own transition system; a run of the peer connection drives a run of the engine (\<open>drives\<close>), so what holds
  of the engine's access units holds of those the application is given. Reassembly, round trips and bounds are stated of the wire formats as they
  are; liveness is stated as a number of steps of the thread that is waited for.

  Bounds and fuel. The JSON reader recurses at most 33 levels and its fuel is proved enough for every input.
  A signaling run has fuel for 180001 turns: the timeout is at most an hour and each turn waits for at least
  one slice of 20 ms, so it always ends before. The slot skipping of the output worker has fuel 17: half a
  second holds at most 15 slots (\<open>next_deadline_in_slot\<close>). One \<open>Tick\<close> of the jitter buffer plays at most 16
  packets. The wait for ICE candidates has fuel 502: it lasts 10 s and its tests are 20 ms
  apart (\<open>answer_returns\<close>). The audio worker answers within twelve of its steps, the video and output workers
  end within six and three, and a call of the media source returns within six rounds. Counters that cannot wrap in practice
  are natural numbers, and each theory says which; all others keep their width.

  Not modelled, and why. Direct3D textures, the Media Foundation decoder, WASAPI, the registrar of the
  virtual camera, the WinHTTP transport, the windows and the QR code are sequences of calls of Windows
  interfaces whose behaviour is not in the repository. Of the application controller, posting work to the
  window, the polling loop of its signaling thread and the wiring of the window are left out; of the media
  source and stream, the attribute calls that are forwarded unchanged, \<open>QueryInterface\<close> and reference counts.
  The callers that control the stream are taken to come one at a time. The Objective-C++ parts of the
  macOS application and camera extension, the TypeScript service and web page, and the tests are outside the
  C++ code that is modelled. Of the WebRTC library, what it answers is an
  argument and a failing send has no effect. Logging is left out throughout.
\<close>

end
